(* ===== verification/Prelude.thy ===== *)
theory Prelude
  imports "HOL-Library.Word"
begin

text \<open>
  Shared vocabulary of the development: the fixed-width integer types of the C sources
  as words, the alignment macros of \<^verbatim>\<open>src/src/utils.h\<close>, and the generic facts on words,
  sorted lists and list splitting that the component theories use.

  A C function that returns 0/1 and writes its answer through an out-pointer on success
  is a function into \<open>option\<close>: \<open>None\<close> is the 0 return, which leaves the out-pointer alone.
\<close>

section \<open>Machine integers\<close>

unbundle bit_operations_syntax

type_synonym u8 = "8 word"
type_synonym u16 = "16 word"
type_synonym u32 = "32 word"
type_synonym u64 = "64 word"

named_theorems word_nat \<open>rules that move unsigned 64-bit goals to the naturals\<close>

definition UINT64_MAX :: u64 where
  "UINT64_MAX = 0xFFFFFFFFFFFFFFFF"

section \<open>Alignment macros (utils.h)\<close>

definition ALIGN_UP :: "u64 \<Rightarrow> u64 \<Rightarrow> u64" where
  "ALIGN_UP x a = (x + (a - 1)) AND NOT (a - 1)"

definition ALIGN_DOWN :: "u64 \<Rightarrow> u64 \<Rightarrow> u64" where
  "ALIGN_DOWN x a = x AND NOT (a - 1)"

definition GUEST_PAGE_SIZE :: u64 where
  "GUEST_PAGE_SIZE = 4096"

definition PAGE_ALIGN_UP :: "u64 \<Rightarrow> u64" where
  "PAGE_ALIGN_UP x = ALIGN_UP x GUEST_PAGE_SIZE"

text \<open>
  \<open>str_copy_trunc\<close> into a buffer of \<open>dst_size\<close> bytes. Strings are NUL-free character
  lists; the terminator is implicit, so at most \<open>dst_size - 1\<close> characters survive.
\<close>

definition str_copy_trunc :: "string \<Rightarrow> nat \<Rightarrow> string" where
  "str_copy_trunc src dst_size =
     (if dst_size > 0
      then take (if length src < dst_size then length src else dst_size - 1) src
      else [])"

section \<open>Binary search for a partition point\<close>

text \<open>
  The half-open loop \<^verbatim>\<open>while (lo < hi) { mid = lo + (hi - lo) / 2; ... }\<close> that the
  sources use for a lower bound: \<open>p mid\<close> sends the search to the right half.
\<close>

function bisect :: "(nat \<Rightarrow> bool) \<Rightarrow> nat \<Rightarrow> nat \<Rightarrow> nat" where
  "bisect p lo hi =
     (if lo < hi then
        (let mid = lo + (hi - lo) div 2 in
         if p mid then bisect p (mid + 1) hi else bisect p lo mid)
      else lo)"
  by pat_completeness auto
termination
  by (relation "measure (\<lambda>(p, lo, hi). hi - lo)") auto

declare bisect.simps [simp del]

lemma bisect_ge: "\<not> lo < hi \<Longrightarrow> bisect p lo hi = lo"
  by (subst bisect.simps) simp

lemma bisect_step:
  assumes "lo < hi"
  obtains mid where "lo \<le> mid" "mid < hi" "mid = lo + (hi - lo) div 2"
    "bisect p lo hi = (if p mid then bisect p (mid + 1) hi else bisect p lo mid)"
proof (rule that)
  let ?mid = "lo + (hi - lo) div 2"
  show "lo \<le> ?mid" "?mid < hi" using assms by auto
  show "bisect p lo hi = (if p ?mid then bisect p (?mid + 1) hi else bisect p lo ?mid)"
    using assms by (subst bisect.simps) (simp only: Let_def if_True)
qed (rule refl)

lemma bisect_bounds: "lo \<le> hi \<Longrightarrow> lo \<le> bisect p lo hi \<and> bisect p lo hi \<le> hi"
proof (induction p lo hi rule: bisect.induct)
  case (1 p lo hi)
  show ?case
  proof (cases "lo < hi")
    case lt: True
    obtain mid where mid: "lo \<le> mid" "mid < hi" "mid = lo + (hi - lo) div 2"
      and step: "bisect p lo hi = (if p mid then bisect p (mid + 1) hi else bisect p lo mid)"
      by (rule bisect_step [OF lt])
    have "p mid \<Longrightarrow> mid + 1 \<le> bisect p (mid + 1) hi \<and> bisect p (mid + 1) hi \<le> hi"
      by (rule "1.IH"(1) [OF lt mid(3)]) (use mid(2) in simp_all)
    moreover have "\<not> p mid \<Longrightarrow> lo \<le> bisect p lo mid \<and> bisect p lo mid \<le> mid"
      by (rule "1.IH"(2) [OF lt mid(3)]) (use mid(1) in simp_all)
    ultimately show ?thesis
      unfolding step using mid(1,2) by (cases "p mid") simp_all
  qed (use "1.prems" in \<open>simp add: bisect_ge\<close>)
qed

lemma bisect_partition:
  assumes "\<And>i j. i \<le> j \<Longrightarrow> j < hi \<Longrightarrow> p j \<Longrightarrow> p i"
  shows "(\<forall>i. lo \<le> i \<and> i < bisect p lo hi \<longrightarrow> p i) \<and>
    (\<forall>i. bisect p lo hi \<le> i \<and> i < hi \<longrightarrow> \<not> p i)"
  using assms
proof (induction p lo hi rule: bisect.induct)
  case (1 p lo hi)
  show ?case
  proof (cases "lo < hi")
    case lt: True
    obtain mid where mid: "lo \<le> mid" "mid < hi" "mid = lo + (hi - lo) div 2"
      and step: "bisect p lo hi = (if p mid then bisect p (mid + 1) hi else bisect p lo mid)"
      by (rule bisect_step [OF lt])
    show ?thesis
    proof (cases "p mid")
      case True
      have ih: "(\<forall>i. mid + 1 \<le> i \<and> i < bisect p (mid + 1) hi \<longrightarrow> p i) \<and>
          (\<forall>i. bisect p (mid + 1) hi \<le> i \<and> i < hi \<longrightarrow> \<not> p i)"
        by (rule "1.IH"(1) [OF lt mid(3) True]) (rule "1.prems")
      have below: "p i" if "i \<le> mid" for i
        using "1.prems" [OF that mid(2) True] .
      have "p i" if "i < bisect p (mid + 1) hi" for i
        using ih that below by (cases "i \<le> mid") (simp_all add: not_le Suc_le_eq)
      with ih show ?thesis by (simp add: step True)
    next
      case False
      have ih: "(\<forall>i. lo \<le> i \<and> i < bisect p lo mid \<longrightarrow> p i) \<and>
          (\<forall>i. bisect p lo mid \<le> i \<and> i < mid \<longrightarrow> \<not> p i)"
        by (rule "1.IH"(2) [OF lt mid(3) False]) (rule "1.prems", use mid(2) in simp_all)
      have above: "\<not> p i" if "mid \<le> i" "i < hi" for i
        using "1.prems" [OF that] False by blast
      have "\<not> p i" if "bisect p lo mid \<le> i" "i < hi" for i
        using ih that above by (cases "i < mid") simp_all
      with ih show ?thesis by (simp add: step False)
    qed
  qed (auto simp: bisect_ge)
qed

text \<open>On a list whose elements satisfying \<open>P\<close> form a prefix, the search finds its length.\<close>

lemma bisect_takeWhile:
  assumes "\<And>i j. i \<le> j \<Longrightarrow> j < length xs \<Longrightarrow> P (xs ! j) \<Longrightarrow> P (xs ! i)"
  shows "bisect (\<lambda>i. P (xs ! i)) 0 (length xs) = length (takeWhile P xs)"
proof -
  let ?b = "bisect (\<lambda>i. P (xs ! i)) 0 (length xs)"
  have part: "(\<forall>i. 0 \<le> i \<and> i < ?b \<longrightarrow> P (xs ! i)) \<and>
      (\<forall>i. ?b \<le> i \<and> i < length xs \<longrightarrow> \<not> P (xs ! i))"
    by (rule bisect_partition) (rule assms)
  have b: "?b \<le> length xs" using bisect_bounds [of 0 "length xs"] by simp
  have "takeWhile P xs = take ?b xs"
  proof (rule takeWhile_eq_take_P_nth)
    show "P (xs ! i)" if "i < ?b" "i < length xs" for i
      using part that by blast
    show "\<not> P (xs ! ?b)" if "?b < length xs"
      using part that by blast
  qed
  with b show ?thesis by (simp only: length_take min_absorb2)
qed

section \<open>Words as naturals\<close>

declare word_less_nat_alt [word_nat] word_le_nat_alt [word_nat]

lemma u64_unat_less: "unat (x :: u64) < 2 ^ 64"
  using unsigned_less [of x, where ?'a = nat] by simp

lemma unat_UINT64_MAX: "unat UINT64_MAX = 2 ^ 64 - 1"
  by (simp add: UINT64_MAX_def)

lemma UINT64_MAX_top [simp]: "x \<le> UINT64_MAX"
  using u64_unat_less [of x] by (simp add: unat_UINT64_MAX word_le_nat_alt)

lemma unat_sub_u64 [word_nat]: "b \<le> a \<Longrightarrow> unat (a - b) = unat a - unat (b :: u64)"
  by (rule unat_sub)

lemma unat_add_u64 [word_nat]:
  "unat a + unat b < 2 ^ 64 \<Longrightarrow> unat (a + b) = unat a + unat (b :: u64)"
  by (simp add: unat_word_ariths)

lemma add_no_wrap_le: "(b :: u64) \<le> UINT64_MAX - a \<longleftrightarrow> unat a + unat b < 2 ^ 64"
proof -
  have "unat (UINT64_MAX - a) = 2 ^ 64 - 1 - unat a"
    by (simp add: unat_sub unat_UINT64_MAX)
  then show ?thesis
    using u64_unat_less [of a] by (auto simp: word_le_nat_alt)
qed

section \<open>Masks and shifts\<close>

lemma and_mask_unat: "unat ((x :: 'a::len word) AND mask n) = unat x mod 2 ^ n"
  unfolding take_bit_eq_mask [symmetric] unsigned_take_bit_eq by (rule take_bit_eq_mod)

lemma and_not_mask_add: "((x :: 'a::len word) AND NOT (mask n)) + (x AND mask n) = x"
proof -
  have "(x AND NOT (mask n)) + (x AND mask n) = (x AND NOT (mask n)) OR (x AND mask n)"
    by (rule disjunctive_add) (auto simp: bit_simps)
  also have "\<dots> = x" by (rule bit_word_eqI) (auto simp: bit_simps)
  finally show ?thesis .
qed

lemma and_not_mask_unat: "unat ((x :: 'a::len word) AND NOT (mask n)) = unat x div 2 ^ n * 2 ^ n"
proof -
  have "(x AND NOT (mask n)) = x - (x AND mask n)"
    using and_not_mask_add [of x n] by (simp add: eq_diff_eq)
  moreover have "x AND mask n \<le> x" by (simp add: word_le_nat_alt and_mask_unat)
  ultimately have "unat (x AND NOT (mask n)) = unat x - unat x mod 2 ^ n"
    by (simp add: unat_sub and_mask_unat)
  then show ?thesis by (simp add: minus_mod_eq_div_mult)
qed

lemma mask_12: "(0xFFF :: 'a::len word) = mask 12"
  by (simp add: mask_eq_exp_minus_1)

lemma unat_shift_right: "unat (drop_bit n (x :: 'a::len word)) = unat x div 2 ^ n"
  unfolding unat_drop_bit_eq by (rule drop_bit_eq_div)

end
