(* ===== verification/Bounds.thy ===== *)
theory Bounds
  imports Prelude
begin

text \<open>
  The overflow-safe arithmetic helpers of \<^verbatim>\<open>src/src/proved/\<close> that the memory
  components call: \<^verbatim>\<open>align.h\<close>, \<^verbatim>\<open>brk.h\<close>, \<^verbatim>\<open>slice.h\<close>,
  \<^verbatim>\<open>iov.h\<close> and \<^verbatim>\<open>gva.h\<close>. Every function is translated on 64-bit words, so a
  wrap in the source would be a wrap here; the lemmas relate the result to unbounded
  arithmetic on \<open>unat\<close>.
\<close>

section \<open>align.h\<close>

definition align_up_ok :: "u64 \<Rightarrow> u64 \<Rightarrow> u64 option" where
  "align_up_ok x align =
     (let k = x div align in
      if k * align \<noteq> x
      then (if k \<ge> UINT64_MAX div align then None else Some ((k + 1) * align))
      else Some (k * align))"

definition window_fits :: "u64 \<Rightarrow> u64 \<Rightarrow> u64 \<Rightarrow> bool" where
  "window_fits start len limit \<longleftrightarrow> start \<le> limit \<and> len \<le> limit - start"

section \<open>brk.h\<close>

definition brk_limit_region :: "u64 \<Rightarrow> u64 \<Rightarrow> u64 \<Rightarrow> u64 \<Rightarrow> u64" where
  "brk_limit_region from limit start end =
     (if start \<ge> limit \<or> end \<le> from then limit
      else if start \<le> from then from else start)"

section \<open>slice.h\<close>

text \<open>The pair is the 0/1 return and the value written through \<open>n\<close>, which is 0 on a reject.\<close>

definition slice_clamp :: "u64 \<Rightarrow> u64 \<Rightarrow> u64 \<Rightarrow> bool \<times> u64" where
  "slice_clamp src_len off count =
     (if off \<ge> src_len then (False, 0)
      else (let avail = src_len - off in
            (True, if count < avail then count else avail)))"

section \<open>iov.h\<close>

definition IOV_COUNT_MAX :: int where
  "IOV_COUNT_MAX = 1024"

definition IOV_TOTAL_MAX :: u64 where
  "IOV_TOTAL_MAX = 0x7FFFFFFFFFFFFFFF"

definition iov_count_ok :: "int \<Rightarrow> bool" where
  "iov_count_ok iovcnt \<longleftrightarrow> iovcnt \<ge> 1 \<and> iovcnt \<le> IOV_COUNT_MAX"

definition iov_total_add :: "u64 \<Rightarrow> u64 \<Rightarrow> u64 option" where
  "iov_total_add tot len =
     (if len > IOV_TOTAL_MAX - tot then None else Some (tot + len))"

text \<open>The loop of \<open>iov_advance_index\<close>: \<open>spent\<close> entries used, the rest of the lengths ahead.\<close>

fun iov_advance_loop :: "u64 list \<Rightarrow> nat \<Rightarrow> u64 \<Rightarrow> nat \<times> u64" where
  "iov_advance_loop [] spent rem = (spent, rem)"
| "iov_advance_loop (l # ls) spent rem =
     (if rem \<ge> l then iov_advance_loop ls (spent + 1) (rem - l) else (spent, rem))"

definition iov_advance_index :: "u64 list \<Rightarrow> u64 \<Rightarrow> nat \<times> u64" where
  "iov_advance_index iov moved = iov_advance_loop iov 0 moved"

section \<open>gva.h\<close>

definition GVA_PT_ADDR_MASK :: u64 where
  "GVA_PT_ADDR_MASK = 0xFFFFFFFFF000"

definition GVA_PT_TABLE_BYTES :: u64 where
  "GVA_PT_TABLE_BYTES = 4096"

definition gva_pt_table_offset :: "u64 \<Rightarrow> u64 \<Rightarrow> u64 \<Rightarrow> u64 option" where
  "gva_pt_table_offset desc base guest_size =
     (let ipa = desc AND GVA_PT_ADDR_MASK in
      if ipa < base then None
      else (let candidate = ipa - base in
            if guest_size < GVA_PT_TABLE_BYTES
               \<or> candidate > guest_size - GVA_PT_TABLE_BYTES
            then None else Some candidate))"

definition gva_leaf_target_args_ok :: "u64 \<Rightarrow> u64 \<Rightarrow> bool" where
  "gva_leaf_target_args_ok granule ipa \<longleftrightarrow>
     granule > 0 \<and> granule \<le> GVA_PT_ADDR_MASK \<and> ipa \<le> GVA_PT_ADDR_MASK"

text \<open>The result is the pair \<open>(gpa, chunk)\<close>.\<close>

definition gva_leaf_target :: "u64 \<Rightarrow> u64 \<Rightarrow> u64 \<Rightarrow> u64 \<Rightarrow> (u64 \<times> u64) option" where
  "gva_leaf_target ipa base gva granule =
     (if ipa < base then None
      else (let off = gva mod granule in
            Some ((ipa - base) + off, granule - off)))"

definition gva_chunk_clamp_args_ok :: "u64 \<Rightarrow> u64 \<Rightarrow> u64 \<Rightarrow> u64 \<Rightarrow> u64 \<Rightarrow> bool" where
  "gva_chunk_clamp_args_ok chunk gpa region_end limit tot \<longleftrightarrow>
     chunk \<ge> 1 \<and> gpa < region_end \<and> tot < limit"

definition gva_chunk_clamp :: "u64 \<Rightarrow> u64 \<Rightarrow> u64 \<Rightarrow> u64 \<Rightarrow> u64 \<Rightarrow> u64" where
  "gva_chunk_clamp chunk gpa region_end limit tot =
     (let chunk = (if chunk > region_end - gpa then region_end - gpa else chunk) in
      if chunk > limit - tot then limit - tot else chunk)"

definition gva_span_ok :: "u64 \<Rightarrow> u64 \<Rightarrow> bool" where
  "gva_span_ok gva len \<longleftrightarrow> (if len = 0 then False else gva \<le> UINT64_MAX - len)"

section \<open>Alignment lemmas\<close>

lemma unat_mult_div_le: "unat (x div a * a) = unat x div unat a * unat (a :: u64)"
proof -
  have "unat x div unat a * unat a \<le> unat x" by simp
  then have "unat x div unat a * unat a < 2 ^ 64"
    using u64_unat_less [of x] by linarith
  then have "unat (x div a) * unat a < 2 ^ 64" by (simp add: unat_div)
  then show ?thesis by (simp add: unat_mult_lem [THEN iffD1] unat_div)
qed

lemma mult_div_eq_iff: "x div a * a = (x :: u64) \<longleftrightarrow> unat a dvd unat x"
proof -
  have "x div a * a = x \<longleftrightarrow> unat x div unat a * unat a = unat x"
    by (metis unat_mult_div_le word_unat_eq_iff)
  then show ?thesis
    by (metis dvd_div_mult_self dvd_triv_right)
qed

lemma ge_max_div_iff:
  assumes "(a :: u64) > 0"
  shows "k \<ge> UINT64_MAX div a \<longleftrightarrow> 2 ^ 64 \<le> (unat k + 1) * unat a"
proof -
  have a: "unat a > 0" using assms by (simp add: word_less_nat_alt)
  have "k \<ge> UINT64_MAX div a \<longleftrightarrow> (2 ^ 64 - 1) div unat a \<le> unat k"
    by (simp add: word_le_nat_alt unat_div unat_UINT64_MAX)
  also have "\<dots> \<longleftrightarrow> (2 ^ 64 - 1) div unat a < unat k + 1" by auto
  also have "\<dots> \<longleftrightarrow> 2 ^ 64 - 1 < (unat k + 1) * unat a"
    using a by (rule div_less_iff_less_mult)
  also have "\<dots> \<longleftrightarrow> 2 ^ 64 \<le> (unat k + 1) * unat a" by auto
  finally show ?thesis .
qed

text \<open>The least multiple of \<open>a\<close> that is at least \<open>n\<close>.\<close>

definition ceil_multiple :: "nat \<Rightarrow> nat \<Rightarrow> nat" where
  "ceil_multiple n a = (if a dvd n then n else (n div a + 1) * a)"

lemma ceil_multiple_ge: "a > 0 \<Longrightarrow> n \<le> ceil_multiple n a"
  by (auto simp: ceil_multiple_def) (metis add.commute dividend_less_times_div less_imp_le mult.commute)

lemma ceil_multiple_dvd: "a dvd ceil_multiple n a"
  by (auto simp: ceil_multiple_def)

lemma ceil_multiple_least:
  assumes "a > 0" "a dvd m" "n \<le> m" shows "ceil_multiple n a \<le> m"
proof (cases "a dvd n")
  case False
  from assms(2) obtain q where m: "m = q * a" by (metis dvd_def mult.commute)
  have "n \<noteq> m" using False assms(2) by auto
  with assms(3) m have "n div a < q"
    using assms(1) by (simp add: div_less_iff_less_mult)
  then have "(n div a + 1) * a \<le> q * a" by (intro mult_le_mono1) simp
  with False m show ?thesis by (simp add: ceil_multiple_def)
qed (use assms in \<open>simp add: ceil_multiple_def\<close>)

lemma align_up_ok_spec:
  assumes "align > 0"
  shows "align_up_ok x align =
    (if ceil_multiple (unat x) (unat align) < 2 ^ 64
     then Some (word_of_nat (ceil_multiple (unat x) (unat align))) else None)"
proof (cases "unat align dvd unat x")
  case True
  then show ?thesis
    using u64_unat_less [of x]
    by (simp add: align_up_ok_def mult_div_eq_iff ceil_multiple_def)
next
  case False
  let ?k = "x div align"
  have k: "unat ?k = unat x div unat align" by (simp add: unat_div)
  have "?k * align \<noteq> x" using False by (simp add: mult_div_eq_iff)
  moreover have "(?k + 1) * align = word_of_nat ((unat x div unat align + 1) * unat align)"
    by (simp add: distrib_right flip: k)
  ultimately show ?thesis
    using False ge_max_div_iff [OF assms, of ?k]
    by (auto simp: align_up_ok_def ceil_multiple_def k Let_def)
qed

lemma align_up_ok_SomeD:
  assumes "align_up_ok x align = Some y" "align > 0"
  shows "unat y = ceil_multiple (unat x) (unat align)"
  using assms by (auto simp: align_up_ok_spec unat_of_nat split: if_splits)

lemma align_up_ok_ge: "align_up_ok x align = Some y \<Longrightarrow> align > 0 \<Longrightarrow> x \<le> y"
  by (simp add: word_le_nat_alt align_up_ok_SomeD ceil_multiple_ge word_less_nat_alt)

lemma align_up_ok_dvd: "align_up_ok x align = Some y \<Longrightarrow> align > 0 \<Longrightarrow> unat align dvd unat y"
  by (simp add: align_up_ok_SomeD ceil_multiple_dvd)

lemma align_up_ok_least:
  assumes "align > 0" "unat align dvd unat z" "x \<le> z"
  shows "\<exists>y. align_up_ok x align = Some y \<and> y \<le> z"
proof -
  have le: "ceil_multiple (unat x) (unat align) \<le> unat z"
    using assms by (intro ceil_multiple_least) (auto simp: word_nat)
  then have "ceil_multiple (unat x) (unat align) < 2 ^ 64"
    using u64_unat_less [of z] by linarith
  then obtain y where y: "align_up_ok x align = Some y"
    using assms(1) by (simp add: align_up_ok_spec)
  with le assms(1) show ?thesis
    by (auto simp: word_le_nat_alt align_up_ok_SomeD)
qed

lemma window_fits_iff: "window_fits start len limit \<longleftrightarrow> unat start + unat len \<le> unat limit"
  by (auto simp: window_fits_def word_nat)

end
