(* ===== verification/Regions.thy ===== *)
theory Regions
  imports Bounds
begin

text \<open>
  The semantic region tracker of \<^verbatim>\<open>src/src/core/guest.c\<close>: the sorted array
  \<^verbatim>\<open>guest_t.regions[]\<close> behind munmap, mprotect, mremap, the mmap gap finder and
  \<^verbatim>\<open>/proc/self/maps\<close>. The array with its \<open>nregions\<close> counter is a list, \<^verbatim>\<open>memmove\<close>
  is splitting and appending, and a loop that walks the array at an index is a recursion
  over the unread suffix with the already processed prefix as an argument.

  The host calls of this file are \<^verbatim>\<open>dup\<close> and \<^verbatim>\<open>close\<close>: \<open>dup n fd\<close> is the result of the
  \<open>n\<close>-th \<^verbatim>\<open>dup\<close> call of the process (negative on failure), a parameter of the operations
  that split file-backed regions; the descriptors \<^verbatim>\<open>dup\<close> has returned and the closed ones
  are appended to two logs.
\<close>

section \<open>Data\<close>

definition GUEST_MAX_REGIONS :: nat where
  "GUEST_MAX_REGIONS = 4096"

definition LINUX_MAP_SHARED :: u32 where "LINUX_MAP_SHARED = 0x01"
definition LINUX_MAP_PRIVATE :: u32 where "LINUX_MAP_PRIVATE = 0x02"
definition LINUX_MAP_ANONYMOUS :: u32 where "LINUX_MAP_ANONYMOUS = 0x20"
definition LINUX_MAP_NORESERVE :: u32 where "LINUX_MAP_NORESERVE = 0x4000"

record guest_region =
  r_start :: u64
  r_end :: u64
  gpa_base :: u64
  vma_id :: u64
  r_prot :: u32
  r_flags :: u32
  r_offset :: u64
  backing_fd :: int
  r_shared :: bool
  noreserve :: bool
  backing_ro :: bool
  inherited_at_fork :: bool
  overlay_active :: bool
  overlay_start :: u64
  overlay_end :: u64
  r_name :: string

text \<open>The part of \<^verbatim>\<open>guest_t\<close> the tracker owns, and the host calls it has made.\<close>

record region_table =
  regions :: "guest_region list"
  next_vma_id :: u64
  regions_tracker_stale :: bool
  dup_calls :: nat
  opened_fds :: "int list"
  closed_fds :: "int list"

type_synonym host_dup = "nat \<Rightarrow> int \<Rightarrow> int"

definition nregions :: "'a region_table_scheme \<Rightarrow> nat" where
  "nregions g = length (regions g)"

definition host_close :: "int \<Rightarrow> 'a region_table_scheme \<Rightarrow> 'a region_table_scheme" where
  "host_close fd g = (if fd \<ge> 0 then g\<lparr>closed_fds := closed_fds g @ [fd]\<rparr> else g)"

definition host_dup_fd ::
  "host_dup \<Rightarrow> int \<Rightarrow> 'a region_table_scheme \<Rightarrow> int \<times> 'a region_table_scheme" where
  "host_dup_fd dup fd g =
     (let fd' = dup (dup_calls g) fd in
      (fd', g\<lparr>dup_calls := dup_calls g + 1,
              opened_fds := opened_fds g @ (if fd' \<ge> 0 then [fd'] else [])\<rparr>))"

section \<open>Overlays\<close>

definition guest_region_clear_overlay :: "guest_region \<Rightarrow> guest_region" where
  "guest_region_clear_overlay r =
     r\<lparr>overlay_active := False, overlay_start := 0, overlay_end := 0\<rparr>"

definition guest_region_clip_overlay :: "u64 \<Rightarrow> guest_region \<Rightarrow> guest_region" where
  "guest_region_clip_overlay hps r =
     (if \<not> overlay_active r \<or> r_end r \<le> r_start r then guest_region_clear_overlay r
      else
        let page_start = ALIGN_DOWN (r_start r) hps;
            page_end = ALIGN_UP (r_end r) hps;
            ov_start = (if overlay_start r > page_start then overlay_start r else page_start);
            ov_end = (if overlay_end r < page_end then overlay_end r else page_end)
        in if ov_end \<le> ov_start then guest_region_clear_overlay r
           else r\<lparr>overlay_start := ov_start, overlay_end := ov_end\<rparr>)"

section \<open>Merging\<close>

definition regions_mergeable_layout :: "guest_region \<Rightarrow> guest_region \<Rightarrow> bool" where
  "regions_mergeable_layout a b =
     (if r_end a \<noteq> r_start b then False
      else if gpa_base a + (r_end a - r_start a) \<noteq> gpa_base b then False
      else if r_prot a \<noteq> r_prot b then False
      else if r_flags a \<noteq> r_flags b then False
      else if backing_fd a \<noteq> backing_fd b then False
      else if noreserve a \<noteq> noreserve b then False
      else if backing_ro a \<noteq> backing_ro b then False
      else if inherited_at_fork a \<noteq> inherited_at_fork b then False
      else if overlay_active a \<or> overlay_active b then False
      else if r_name a \<noteq> r_name b then False
      else if r_flags a AND LINUX_MAP_ANONYMOUS \<noteq> 0 \<and> r_flags b AND LINUX_MAP_ANONYMOUS \<noteq> 0
      then True
      else r_offset a + (r_end a - r_start a) = r_offset b)"

definition regions_mergeable :: "guest_region \<Rightarrow> guest_region \<Rightarrow> bool" where
  "regions_mergeable a b \<longleftrightarrow> vma_id a = vma_id b \<and> regions_mergeable_layout a b"

definition try_merge_right :: "guest_region list \<Rightarrow> nat \<Rightarrow> guest_region list" where
  "try_merge_right rs i =
     (if i + 1 \<ge> length rs then rs
      else if \<not> regions_mergeable (rs ! i) (rs ! (i + 1)) then rs
      else take i rs @ [(rs ! i)\<lparr>r_end := r_end (rs ! (i + 1))\<rparr>] @ drop (i + 2) rs)"

definition try_merge_left :: "guest_region list \<Rightarrow> nat \<Rightarrow> guest_region list" where
  "try_merge_left rs i =
     (if i \<le> 0 \<or> i \<ge> length rs then rs
      else if \<not> regions_mergeable (rs ! (i - 1)) (rs ! i) then rs
      else take (i - 1) rs @ [(rs ! (i - 1))\<lparr>r_end := r_end (rs ! i)\<rparr>] @ drop (i + 1) rs)"

section \<open>Searching\<close>

definition region_lower_bound_start :: "guest_region list \<Rightarrow> u64 \<Rightarrow> nat" where
  "region_lower_bound_start rs start = bisect (\<lambda>mid. r_start (rs ! mid) < start) 0 (length rs)"

definition guest_region_first_end_above :: "guest_region list \<Rightarrow> u64 \<Rightarrow> nat" where
  "guest_region_first_end_above rs addr = bisect (\<lambda>mid. r_end (rs ! mid) \<le> addr) 0 (length rs)"

text \<open>The closed-interval search of \<open>guest_region_find\<close>; \<open>hi\<close> starts at \<open>nregions - 1\<close>.\<close>

function region_find_loop :: "guest_region list \<Rightarrow> u64 \<Rightarrow> int \<Rightarrow> int \<Rightarrow> guest_region option" where
  "region_find_loop rs addr lo hi =
     (if lo \<le> hi then
        (let mid = (lo + hi) div 2 in
         if addr < r_start (rs ! nat mid) then region_find_loop rs addr lo (mid - 1)
         else if addr \<ge> r_end (rs ! nat mid) then region_find_loop rs addr (mid + 1) hi
         else Some (rs ! nat mid))
      else None)"
  by pat_completeness auto
termination
  by (relation "measure (\<lambda>(rs, addr, lo, hi). nat (hi - lo + 1))") auto

declare region_find_loop.simps [simp del]

definition guest_region_find :: "guest_region list \<Rightarrow> u64 \<Rightarrow> guest_region option" where
  "guest_region_find rs addr = region_find_loop rs addr 0 (int (length rs) - 1)"

text \<open>The three range queries share the walk from \<open>guest_region_first_end_above\<close>.\<close>

fun range_all_prot :: "guest_region list \<Rightarrow> u64 \<Rightarrow> u32 \<Rightarrow> bool" where
  "range_all_prot [] end prot = True"
| "range_all_prot (r # rs) end prot =
     (if r_start r \<ge> end then True
      else if r_prot r \<noteq> prot then False
      else range_all_prot rs end prot)"

definition guest_region_range_prot_uniform ::
  "guest_region list \<Rightarrow> u64 \<Rightarrow> u64 \<Rightarrow> u32 \<Rightarrow> bool" where
  "guest_region_range_prot_uniform rs start end prot =
     range_all_prot (drop (guest_region_first_end_above rs start) rs) end prot"

fun range_any :: "(guest_region \<Rightarrow> bool) \<Rightarrow> guest_region list \<Rightarrow> u64 \<Rightarrow> bool" where
  "range_any P [] end = False"
| "range_any P (r # rs) end =
     (if r_start r \<ge> end then False
      else if P r then True
      else range_any P rs end)"

definition guest_region_range_has_noreserve :: "guest_region list \<Rightarrow> u64 \<Rightarrow> u64 \<Rightarrow> bool" where
  "guest_region_range_has_noreserve rs start end =
     range_any noreserve (drop (guest_region_first_end_above rs start) rs) end"

definition guest_region_range_has_ro_shared_backing ::
  "guest_region list \<Rightarrow> u64 \<Rightarrow> u64 \<Rightarrow> bool" where
  "guest_region_range_has_ro_shared_backing rs start end =
     range_any (\<lambda>r. r_shared r \<and> backing_ro r)
       (drop (guest_region_first_end_above rs start) rs) end"

section \<open>Adding\<close>

definition allocate_vma_id :: "'a region_table_scheme \<Rightarrow> u64 \<times> 'a region_table_scheme" where
  "allocate_vma_id g =
     (next_vma_id g + 1, g\<lparr>next_vma_id := next_vma_id g + 1\<rparr>)"

definition guest_reseed_next_vma_id :: "'a region_table_scheme \<Rightarrow> 'a region_table_scheme" where
  "guest_reseed_next_vma_id g =
     g\<lparr>next_vma_id :=
         fold (\<lambda>r max_id. if vma_id r > max_id then vma_id r else max_id)
           (regions g) (next_vma_id g)\<rparr>"

definition make_region ::
  "u64 \<Rightarrow> u64 \<Rightarrow> u64 \<Rightarrow> u64 \<Rightarrow> u32 \<Rightarrow> u32 \<Rightarrow> u64 \<Rightarrow> int \<Rightarrow> bool \<Rightarrow> string option \<Rightarrow> guest_region" where
  "make_region start end gpa vid prot flags off fd inherited name =
     \<lparr>r_start = start, r_end = end, gpa_base = gpa, vma_id = vid, r_prot = prot,
      r_flags = flags, r_offset = off, backing_fd = fd,
      r_shared = (flags AND LINUX_MAP_SHARED \<noteq> 0),
      noreserve = (flags AND LINUX_MAP_NORESERVE \<noteq> 0),
      backing_ro = False, inherited_at_fork = inherited,
      overlay_active = False, overlay_start = 0, overlay_end = 0,
      r_name = (case name of Some nm \<Rightarrow> str_copy_trunc nm 64 | None \<Rightarrow> [])\<rparr>"

text \<open>
  A fresh mapping adopts the lineage of the left neighbour, else of the right one, when
  the layouts agree. \<open>i\<close> is the index the region was inserted at.
\<close>

definition adopt_vma_id :: "guest_region list \<Rightarrow> nat \<Rightarrow> guest_region list" where
  "adopt_vma_id rs i =
     (if i > 0 \<and> regions_mergeable_layout (rs ! (i - 1)) (rs ! i)
      then rs[i := (rs ! i)\<lparr>vma_id := vma_id (rs ! (i - 1))\<rparr>]
      else if i + 1 < length rs \<and> regions_mergeable_layout (rs ! i) (rs ! (i + 1))
      then rs[i := (rs ! i)\<lparr>vma_id := vma_id (rs ! (i + 1))\<rparr>]
      else rs)"

text \<open>Results are the C return code (0 or -1) and the table afterwards.\<close>

definition guest_region_add_ex_owned_gpa ::
  "u64 \<Rightarrow> u64 \<Rightarrow> u64 \<Rightarrow> u32 \<Rightarrow> u32 \<Rightarrow> u64 \<Rightarrow> string option \<Rightarrow> int \<Rightarrow> bool \<Rightarrow> u64
   \<Rightarrow> 'a region_table_scheme \<Rightarrow> int \<times> 'a region_table_scheme" where
  "guest_region_add_ex_owned_gpa start end gpa prot flags off name owned_fd inherited vid g =
     (if nregions g \<ge> GUEST_MAX_REGIONS then (-1, host_close owned_fd g)
      else
        let new_vma = (vid = 0);
            (vid', g1) = (if new_vma then allocate_vma_id g
                          else if vid > next_vma_id g then (vid, g\<lparr>next_vma_id := vid\<rparr>)
                          else (vid, g));
            i = region_lower_bound_start (regions g1) start;
            r = make_region start end gpa vid' prot flags off owned_fd inherited name;
            rs1 = take i (regions g1) @ [r] @ drop i (regions g1);
            rs2 = (if new_vma then adopt_vma_id rs1 i else rs1);
            rs3 = try_merge_right rs2 i;
            rs4 = try_merge_left rs3 i
        in (0, g1\<lparr>regions := rs4\<rparr>))"

definition guest_region_add_ex_gpa ::
  "host_dup \<Rightarrow> u64 \<Rightarrow> u64 \<Rightarrow> u64 \<Rightarrow> u32 \<Rightarrow> u32 \<Rightarrow> u64 \<Rightarrow> string option \<Rightarrow> int
   \<Rightarrow> 'a region_table_scheme \<Rightarrow> int \<times> 'a region_table_scheme" where
  "guest_region_add_ex_gpa dup start end gpa prot flags off name fd g =
     (if fd \<ge> 0 then
        let (owned, g1) = host_dup_fd dup fd g in
        if owned < 0 then (-1, g1)
        else guest_region_add_ex_owned_gpa start end gpa prot flags off name owned False 0 g1
      else guest_region_add_ex_owned_gpa start end gpa prot flags off name (-1) False 0 g)"

definition guest_region_add_ex ::
  "host_dup \<Rightarrow> u64 \<Rightarrow> u64 \<Rightarrow> u32 \<Rightarrow> u32 \<Rightarrow> u64 \<Rightarrow> string option \<Rightarrow> int
   \<Rightarrow> 'a region_table_scheme \<Rightarrow> int \<times> 'a region_table_scheme" where
  "guest_region_add_ex dup start end prot flags off name fd g =
     (if fd \<ge> 0 then
        let (owned, g1) = host_dup_fd dup fd g in
        if owned < 0 then (-1, g1)
        else guest_region_add_ex_owned_gpa start end start prot flags off name owned False 0 g1
      else guest_region_add_ex_owned_gpa start end start prot flags off name (-1) False 0 g)"

definition guest_region_add ::
  "host_dup \<Rightarrow> u64 \<Rightarrow> u64 \<Rightarrow> u32 \<Rightarrow> u32 \<Rightarrow> u64 \<Rightarrow> string option
   \<Rightarrow> 'a region_table_scheme \<Rightarrow> int \<times> 'a region_table_scheme" where
  "guest_region_add dup start end prot flags off name g =
     guest_region_add_ex dup start end prot flags off name (-1) g"

definition guest_region_add_ex_owned ::
  "u64 \<Rightarrow> u64 \<Rightarrow> u32 \<Rightarrow> u32 \<Rightarrow> u64 \<Rightarrow> string option \<Rightarrow> int \<Rightarrow> bool \<Rightarrow> u64
   \<Rightarrow> 'a region_table_scheme \<Rightarrow> int \<times> 'a region_table_scheme" where
  "guest_region_add_ex_owned start end prot flags off name owned_fd inherited vid g =
     guest_region_add_ex_owned_gpa start end start prot flags off name owned_fd inherited vid g"

section \<open>Removing\<close>

text \<open>
  \<open>guest_region_remove_prepare\<close> reserves the descriptor an interior split will need; the
  pair is the return code and the reserved descriptor (-1 when none). The scan stops at the
  first region that strictly contains the range.
\<close>

fun remove_prepare_loop ::
  "host_dup \<Rightarrow> guest_region list \<Rightarrow> u64 \<Rightarrow> u64 \<Rightarrow> 'a region_table_scheme
   \<Rightarrow> int \<times> int \<times> 'a region_table_scheme" where
  "remove_prepare_loop dup [] start end g = (0, -1, g)"
| "remove_prepare_loop dup (r # rs) start end g =
     (if r_start r \<ge> end then (0, -1, g)
      else if r_start r < start \<and> r_end r > end then
        (if nregions g \<ge> GUEST_MAX_REGIONS \<or> backing_fd r < 0 then (0, -1, g)
         else let (fd, g1) = host_dup_fd dup (backing_fd r) g in
              (if fd \<ge> 0 then 0 else -1, fd, g1))
      else remove_prepare_loop dup rs start end g)"

definition guest_region_remove_prepare ::
  "host_dup \<Rightarrow> u64 \<Rightarrow> u64 \<Rightarrow> 'a region_table_scheme \<Rightarrow> int \<times> int \<times> 'a region_table_scheme" where
  "guest_region_remove_prepare dup start end g =
     (if end \<le> start then (0, -1, g)
      else remove_prepare_loop dup
             (drop (guest_region_first_end_above (regions g) start) (regions g)) start end g)"

text \<open>The surviving part of a region to the right of a removed or re-protected range.\<close>

definition trim_front :: "u64 \<Rightarrow> guest_region \<Rightarrow> guest_region" where
  "trim_front at r =
     r\<lparr>r_offset := r_offset r + (at - r_start r),
       gpa_base := gpa_base r + (at - r_start r),
       r_start := at\<rparr>"

text \<open>
  The compaction loop: \<open>out\<close> is what has been written, the list argument what has not been
  read, \<open>n\<close> the \<open>nregions\<close> of the table, which the loop does not change before it is done.
\<close>

fun remove_loop ::
  "u64 \<Rightarrow> nat \<Rightarrow> u64 \<Rightarrow> u64 \<Rightarrow> int \<Rightarrow> guest_region list \<Rightarrow> guest_region list
   \<Rightarrow> 'a region_table_scheme \<Rightarrow> int \<times> 'a region_table_scheme" where
  "remove_loop hps n start end resv out [] g =
     (0, host_close resv (g\<lparr>regions := out\<rparr>))"
| "remove_loop hps n start end resv out (r # rs) g =
     (if r_start r \<ge> end then (0, host_close resv (g\<lparr>regions := out @ r # rs\<rparr>))
      else
        let keep_left = (r_start r < start); keep_right = (r_end r > end) in
        if keep_left \<and> keep_right \<and> \<not> n \<ge> GUEST_MAX_REGIONS then
          let left = guest_region_clip_overlay hps (r\<lparr>r_end := start\<rparr>);
              right0 = trim_front end r;
              (right1, resv') = (if backing_fd r \<ge> 0 then (right0\<lparr>backing_fd := resv\<rparr>, -1)
                                 else (right0, resv));
              right = guest_region_clip_overlay hps right1
          in (0, host_close resv' (g\<lparr>regions := out @ [left, right] @ rs\<rparr>))
        else
          let g1 = (if keep_left \<and> keep_right then g\<lparr>regions_tracker_stale := True\<rparr> else g);
              keep_right' = (keep_right \<and> \<not> keep_left)
          in if \<not> keep_left \<and> \<not> keep_right'
             then remove_loop hps n start end resv out rs (host_close (backing_fd r) g1)
             else
               let survivor = (if keep_left then r\<lparr>r_end := start\<rparr> else trim_front end r)
               in remove_loop hps n start end resv
                    (out @ [guest_region_clip_overlay hps survivor]) rs g1)"

definition guest_region_remove_reserved ::
  "u64 \<Rightarrow> u64 \<Rightarrow> u64 \<Rightarrow> int \<Rightarrow> 'a region_table_scheme \<Rightarrow> int \<times> 'a region_table_scheme" where
  "guest_region_remove_reserved hps start end resv g =
     (if end \<le> start then (0, host_close resv g)
      else
        let first = guest_region_first_end_above (regions g) start in
        remove_loop hps (nregions g) start end resv
          (take first (regions g)) (drop first (regions g)) g)"

definition guest_region_remove ::
  "host_dup \<Rightarrow> u64 \<Rightarrow> u64 \<Rightarrow> u64 \<Rightarrow> 'a region_table_scheme \<Rightarrow> int \<times> 'a region_table_scheme" where
  "guest_region_remove dup hps start end g =
     (case guest_region_remove_prepare dup start end g of
        (rc, resv, g1) \<Rightarrow>
          if rc < 0 then (-1, g1) else guest_region_remove_reserved hps start end resv g1)"

definition guest_region_add_elf_segment ::
  "host_dup \<Rightarrow> u64 \<Rightarrow> u64 \<Rightarrow> u64 \<Rightarrow> u64 \<Rightarrow> u32 \<Rightarrow> u64 \<Rightarrow> string option
   \<Rightarrow> 'a region_table_scheme \<Rightarrow> int \<times> 'a region_table_scheme" where
  "guest_region_add_elf_segment dup hps start end gpa prot off name g =
     (let lead = start AND (GUEST_PAGE_SIZE - 1);
          start' = start - lead;
          end' = PAGE_ALIGN_UP end
      in case guest_region_remove dup hps start' end' g of
           (rc, g1) \<Rightarrow>
             if rc < 0 then (-1, g1)
             else guest_region_add_ex_gpa dup start' end' (gpa - lead) prot LINUX_MAP_PRIVATE
                    (if off \<ge> lead then off - lead else 0) name (-1) g1)"

section \<open>Changing protection\<close>

text \<open>
  The right half of a split: trimmed, with its own duplicate of the descriptor. A failed
  \<^verbatim>\<open>dup\<close> leaves the negative result in the field, as the source does after logging.
\<close>

definition split_right ::
  "host_dup \<Rightarrow> u64 \<Rightarrow> u64 \<Rightarrow> guest_region \<Rightarrow> 'a region_table_scheme
   \<Rightarrow> guest_region \<times> 'a region_table_scheme" where
  "split_right dup hps at r g =
     (let r1 = trim_front at r in
      if backing_fd r1 \<ge> 0 then
        let (fd, g1) = host_dup_fd dup (backing_fd r1) g in
        (guest_region_clip_overlay hps (r1\<lparr>backing_fd := fd\<rparr>), g1)
      else (guest_region_clip_overlay hps r1, g))"

text \<open>
  The walk returns the table, the array afterwards and the range of modified indices
  (\<open>first_modified\<close>, \<open>last_modified\<close>, both -1 when nothing was modified). \<open>pre\<close> are the
  entries before index \<open>i\<close>. The second half of the loop body, after a possible split at
  \<open>start\<close>, is \<open>set_prot_tail\<close>: it says how to go on (\<open>Inr\<close>) or that the loop breaks (\<open>Inl\<close>).
\<close>

type_synonym modified = "int \<times> int"

definition note_modified :: "nat \<Rightarrow> modified \<Rightarrow> modified" where
  "note_modified i m = (if fst m < 0 then int i else fst m, int i)"

definition set_prot_tail ::
  "host_dup \<Rightarrow> u64 \<Rightarrow> u64 \<Rightarrow> u32 \<Rightarrow> guest_region list \<Rightarrow> guest_region \<Rightarrow> guest_region list
   \<Rightarrow> modified \<Rightarrow> 'a region_table_scheme
   \<Rightarrow> ('a region_table_scheme \<times> guest_region list \<times> modified)
      + ('a region_table_scheme \<times> guest_region list \<times> modified)" where
  "set_prot_tail dup hps end prot pre r rs m g =
     (let i = length pre; n = length pre + 1 + length rs in
      if r_end r > end then
        if n \<ge> GUEST_MAX_REGIONS then
          Inr (g\<lparr>regions_tracker_stale := True\<rparr>, pre @ [r\<lparr>r_prot := prot\<rparr>], note_modified i m)
        else
          let left = guest_region_clip_overlay hps (r\<lparr>r_end := end, r_prot := prot\<rparr>);
              (right, g1) = split_right dup hps end r g
          in Inl (g1, pre @ [left, right] @ rs, note_modified i m)
      else Inr (g, pre @ [r\<lparr>r_prot := prot\<rparr>], note_modified i m))"

fun set_prot_loop ::
  "host_dup \<Rightarrow> u64 \<Rightarrow> u64 \<Rightarrow> u64 \<Rightarrow> u32 \<Rightarrow> guest_region list \<Rightarrow> guest_region list
   \<Rightarrow> modified \<Rightarrow> 'a region_table_scheme
   \<Rightarrow> 'a region_table_scheme \<times> guest_region list \<times> modified" where
  "set_prot_loop dup hps start end prot pre [] m g = (g, pre, m)"
| "set_prot_loop dup hps start end prot pre (r # rs) m g =
     (if r_start r \<ge> end then (g, pre @ r # rs, m)
      else if r_start r < start \<and> length pre + 1 + length rs \<ge> GUEST_MAX_REGIONS then
        set_prot_loop dup hps start end prot (pre @ [r]) rs m
          (g\<lparr>regions_tracker_stale := True\<rparr>)
      else
        let (pre', r', g') =
              (if r_start r < start then
                 let left = guest_region_clip_overlay hps (r\<lparr>r_end := start\<rparr>);
                     (right, g1) = split_right dup hps start r g
                 in (pre @ [left], right, g1)
               else (pre, r, g))
        in case set_prot_tail dup hps end prot pre' r' rs m g' of
             Inl res \<Rightarrow> res
           | Inr (g2, pre2, m2) \<Rightarrow> set_prot_loop dup hps start end prot pre2 rs m2 g2)"

text \<open>\<^verbatim>\<open>for (i = last_modified; i > first_modified; i--) try_merge_left(g, i)\<close>\<close>

fun merge_down :: "nat \<Rightarrow> guest_region list \<Rightarrow> nat \<Rightarrow> guest_region list" where
  "merge_down 0 rs i = rs"
| "merge_down (Suc k) rs i = merge_down k (try_merge_left rs i) (i - 1)"

definition guest_region_set_prot ::
  "host_dup \<Rightarrow> u64 \<Rightarrow> u64 \<Rightarrow> u64 \<Rightarrow> u32 \<Rightarrow> 'a region_table_scheme \<Rightarrow> 'a region_table_scheme" where
  "guest_region_set_prot dup hps start end prot g =
     (let first = guest_region_first_end_above (regions g) start in
      case set_prot_loop dup hps start end prot
             (take first (regions g)) (drop first (regions g)) (-1, -1) g of
        (g1, rs, (fm, lm)) \<Rightarrow>
          if fm \<ge> 0 then
            let rs1 = try_merge_right rs (nat lm);
                rs2 = merge_down (nat (lm - fm)) rs1 (nat lm);
                rs3 = try_merge_left rs2 (nat fm)
            in g1\<lparr>regions := rs3\<rparr>
          else g1\<lparr>regions := rs\<rparr>)"

section \<open>Clearing\<close>

fun close_backings :: "guest_region list \<Rightarrow> 'a region_table_scheme \<Rightarrow> 'a region_table_scheme" where
  "close_backings [] g = g"
| "close_backings (r # rs) g = close_backings rs (host_close (backing_fd r) g)"

definition guest_region_clear :: "'a region_table_scheme \<Rightarrow> 'a region_table_scheme" where
  "guest_region_clear g =
     (close_backings (regions g) g)\<lparr>regions := [], regions_tracker_stale := False\<rparr>"

end
