(* ===== verification/Region_Laws.thy ===== *)
theory Region_Laws
  imports Regions "HOL-Library.Multiset"
begin

text \<open>
  Correctness of the region tracker (theory \<open>Regions\<close>). The abstraction of a region list is
  its \<open>view\<close>: for each guest address, the attributes of the mapping that covers it, or
  \<open>None\<close>. The representation invariant is that regions are non-empty, sorted and disjoint.
  Each operation is shown to keep the invariant and to act on the view as the memory
  system call it serves is specified to act on the address space.
\<close>

section \<open>Invariant and abstraction\<close>

definition region_ok :: "guest_region \<Rightarrow> bool" where
  "region_ok r \<longleftrightarrow> r_start r < r_end r \<and> r_shared r = (r_flags r AND LINUX_MAP_SHARED \<noteq> 0)"

definition regions_sorted :: "guest_region list \<Rightarrow> bool" where
  "regions_sorted = sorted_wrt (\<lambda>x y. r_end x \<le> r_start y)"

definition regions_wf :: "guest_region list \<Rightarrow> bool" where
  "regions_wf rs \<longleftrightarrow> (\<forall>r \<in> set rs. region_ok r) \<and> regions_sorted rs"

definition table_wf :: "'a region_table_scheme \<Rightarrow> bool" where
  "table_wf g \<longleftrightarrow> regions_wf (regions g) \<and> nregions g \<le> GUEST_MAX_REGIONS"

definition in_region :: "u64 \<Rightarrow> guest_region \<Rightarrow> bool" where
  "in_region a r \<longleftrightarrow> r_start r \<le> a \<and> a < r_end r"

record page_attr =
  pa_gpa :: u64
  pa_prot :: u32
  pa_flags :: u32
  pa_offset :: u64
  pa_shared :: bool
  pa_noreserve :: bool
  pa_backing_ro :: bool
  pa_inherited :: bool
  pa_name :: string

text \<open>What a region says of one of its addresses; anonymous memory has no file offset.\<close>

definition region_attr :: "guest_region \<Rightarrow> u64 \<Rightarrow> page_attr" where
  "region_attr r a =
     \<lparr>pa_gpa = gpa_base r + (a - r_start r), pa_prot = r_prot r, pa_flags = r_flags r,
      pa_offset = (if r_flags r AND LINUX_MAP_ANONYMOUS \<noteq> 0 then 0
                   else r_offset r + (a - r_start r)),
      pa_shared = r_shared r, pa_noreserve = noreserve r, pa_backing_ro = backing_ro r,
      pa_inherited = inherited_at_fork r, pa_name = r_name r\<rparr>"

definition view :: "guest_region list \<Rightarrow> u64 \<Rightarrow> page_attr option" where
  "view rs a = map_option (\<lambda>r. region_attr r a) (find (in_region a) rs)"

lemma view_Nil [simp]: "view [] a = None"
  by (simp add: view_def)

lemma view_Cons: "view (r # rs) a = (if in_region a r then Some (region_attr r a) else view rs a)"
  by (simp add: view_def)

lemma view_append:
  "view (xs @ ys) a = (case view xs a of None \<Rightarrow> view ys a | Some v \<Rightarrow> Some v)"
  by (induction xs) (auto simp: view_Cons)

lemma view_None_iff: "view rs a = None \<longleftrightarrow> (\<forall>r \<in> set rs. \<not> in_region a r)"
  by (induction rs) (auto simp: view_Cons)

lemma view_notin: "(\<And>r. r \<in> set rs \<Longrightarrow> \<not> in_region a r) \<Longrightarrow> view rs a = None"
  by (simp add: view_None_iff)

section \<open>Well-formed lists\<close>

lemma regions_wf_Nil [simp]: "regions_wf []"
  by (simp add: regions_wf_def regions_sorted_def)

lemma regions_wf_Cons:
  "regions_wf (r # rs) \<longleftrightarrow>
     region_ok r \<and> (\<forall>s \<in> set rs. r_end r \<le> r_start s) \<and> regions_wf rs"
  by (auto simp: regions_wf_def regions_sorted_def)

lemma regions_wf_append:
  "regions_wf (xs @ ys) \<longleftrightarrow> regions_wf xs \<and> regions_wf ys \<and>
     (\<forall>x \<in> set xs. \<forall>y \<in> set ys. r_end x \<le> r_start y)"
  by (auto simp: regions_wf_def regions_sorted_def sorted_wrt_append)

lemma regions_wf_nth:
  "regions_wf rs \<Longrightarrow> i < j \<Longrightarrow> j < length rs \<Longrightarrow> r_end (rs ! i) \<le> r_start (rs ! j)"
  by (simp add: regions_wf_def regions_sorted_def sorted_wrt_iff_nth_less)

lemma region_okD: "region_ok r \<Longrightarrow> r_start r < r_end r"
  by (simp add: region_ok_def)

lemma regions_wf_ok: "regions_wf rs \<Longrightarrow> r \<in> set rs \<Longrightarrow> region_ok r"
  by (simp add: regions_wf_def)

lemma regions_wf_nth_ok: "regions_wf rs \<Longrightarrow> i < length rs \<Longrightarrow> r_start (rs ! i) < r_end (rs ! i)"
  by (simp add: regions_wf_def region_ok_def)

lemma regions_wf_mono:
  assumes "regions_wf (x # xs)" "r \<in> set (x # xs)"
  shows "r_start x \<le> r_start r" "r_end x \<le> r_end r"
proof -
  have "r = x \<or> r_end x \<le> r_start r" "r_start r < r_end r" "r_start x < r_end x"
    using assms by (auto simp: regions_wf_Cons dest: regions_wf_ok region_okD)
  then show "r_start x \<le> r_start r" "r_end x \<le> r_end r" by auto
qed

section \<open>Overlay clipping and trimming change no attribute\<close>

lemma clear_overlay_fields [simp]:
  "r_start (guest_region_clear_overlay r) = r_start r"
  "r_end (guest_region_clear_overlay r) = r_end r"
  "backing_fd (guest_region_clear_overlay r) = backing_fd r"
  "region_ok (guest_region_clear_overlay r) = region_ok r"
  "region_attr (guest_region_clear_overlay r) = region_attr r"
  "in_region a (guest_region_clear_overlay r) = in_region a r"
  by (simp_all add: guest_region_clear_overlay_def region_ok_def region_attr_def in_region_def
        fun_eq_iff)

lemma clip_overlay_fields [simp]:
  "r_start (guest_region_clip_overlay hps r) = r_start r"
  "r_end (guest_region_clip_overlay hps r) = r_end r"
  "backing_fd (guest_region_clip_overlay hps r) = backing_fd r"
  "region_ok (guest_region_clip_overlay hps r) = region_ok r"
  "region_attr (guest_region_clip_overlay hps r) = region_attr r"
  "in_region a (guest_region_clip_overlay hps r) = in_region a r"
  by (simp_all add: guest_region_clip_overlay_def Let_def)
     (simp_all add: region_ok_def region_attr_def in_region_def fun_eq_iff)

lemma trim_front_fields [simp]:
  "r_start (trim_front at r) = at" "r_end (trim_front at r) = r_end r"
  "backing_fd (trim_front at r) = backing_fd r"
  by (simp_all add: trim_front_def)

lemma trim_front_attr [simp]: "region_attr (trim_front at r) = region_attr r"
  by (simp add: trim_front_def region_attr_def fun_eq_iff)

lemma trim_front_ok [simp]: "region_ok r \<Longrightarrow> region_ok (trim_front at r) \<longleftrightarrow> at < r_end r"
  by (auto simp: region_ok_def trim_front_def)

lemma end_upd_attr [simp]: "region_attr (r\<lparr>r_end := e\<rparr>) = region_attr r"
  by (simp add: region_attr_def fun_eq_iff)

lemma fd_upd_attr [simp]: "region_attr (r\<lparr>backing_fd := e\<rparr>) = region_attr r"
  by (simp add: region_attr_def fun_eq_iff)

lemma vma_upd_attr [simp]: "region_attr (r\<lparr>vma_id := e\<rparr>) = region_attr r"
  by (simp add: region_attr_def fun_eq_iff)

lemma prot_upd_attr [simp]: "region_attr (r\<lparr>r_prot := p\<rparr>) a = (region_attr r a)\<lparr>pa_prot := p\<rparr>"
  by (simp add: region_attr_def)

lemma region_ok_upds [simp]:
  "region_ok (r\<lparr>vma_id := v\<rparr>) = region_ok r"
  "region_ok (r\<lparr>backing_fd := f\<rparr>) = region_ok r"
  "region_ok (r\<lparr>r_prot := p\<rparr>) = region_ok r"
  by (simp_all add: region_ok_def)

lemma region_ok_end [simp]: "region_ok r \<Longrightarrow> region_ok (r\<lparr>r_end := e\<rparr>) \<longleftrightarrow> r_start r < e"
  by (auto simp: region_ok_def)

section \<open>Merging\<close>

lemma mergeable_layoutD:
  assumes "regions_mergeable_layout x y"
  shows "r_end x = r_start y" "gpa_base y = gpa_base x + (r_end x - r_start x)"
    "r_prot x = r_prot y" "r_flags x = r_flags y" "backing_fd x = backing_fd y"
    "noreserve x = noreserve y" "backing_ro x = backing_ro y"
    "inherited_at_fork x = inherited_at_fork y" "r_name x = r_name y"
    "r_flags x AND LINUX_MAP_ANONYMOUS \<noteq> 0 \<or> r_offset y = r_offset x + (r_end x - r_start x)"
  using assms by (auto simp: regions_mergeable_layout_def split: if_splits)

lemma mergeable_attr:
  assumes "regions_mergeable_layout x y" "region_ok x" "region_ok y"
  shows "region_attr y a = region_attr x a"
proof -
  note m = mergeable_layoutD [OF assms(1)]
  have "r_shared x = r_shared y" using assms(2,3) m(4) by (simp add: region_ok_def)
  moreover have "gpa_base y + (a - r_start y) = gpa_base x + (a - r_start x)"
    by (simp add: m(2) flip: m(1))
  moreover have "r_flags x AND LINUX_MAP_ANONYMOUS = 0 \<Longrightarrow>
      r_offset y + (a - r_start y) = r_offset x + (a - r_start x)"
    using m(10) by (simp flip: m(1))
  ultimately show ?thesis using m by (auto simp: region_attr_def)
qed

lemma merge_view:
  assumes "regions_mergeable_layout x y" "region_ok x" "region_ok y"
  shows "view (x\<lparr>r_end := r_end y\<rparr> # rs) a = view (x # y # rs) a"
  using mergeable_layoutD(1) [OF assms(1)] mergeable_attr [OF assms, of a]
    region_okD [OF assms(2)] region_okD [OF assms(3)]
  by (auto simp: view_Cons in_region_def)

lemma split_nth2:
  "i + 1 < length xs \<Longrightarrow> xs = take i xs @ xs ! i # xs ! (i + 1) # drop (i + 2) xs"
  by (metis Cons_nth_drop_Suc Suc_eq_plus1 Suc_lessD add_2_eq_Suc' append_take_drop_id)

lemma try_merge_right_step:
  assumes "i + 1 < length rs" "regions_mergeable (rs ! i) (rs ! (i + 1))"
  obtains pre x y suf where "rs = pre @ x # y # suf" "length pre = i"
    "regions_mergeable_layout x y"
    "try_merge_right rs i = pre @ x\<lparr>r_end := r_end y\<rparr> # suf"
proof (rule that)
  show "rs = take i rs @ rs ! i # rs ! (i + 1) # drop (i + 2) rs"
    using assms(1) by (rule split_nth2)
qed (use assms in \<open>simp_all add: try_merge_right_def regions_mergeable_def\<close>)

lemma try_merge_right_cases:
  obtains "try_merge_right rs i = rs"
  | pre x y suf where "rs = pre @ x # y # suf" "length pre = i" "regions_mergeable_layout x y"
    "try_merge_right rs i = pre @ x\<lparr>r_end := r_end y\<rparr> # suf"
  using try_merge_right_step [of i rs] by (metis not_le try_merge_right_def)

lemma try_merge_left_right: "i > 0 \<Longrightarrow> try_merge_left rs i = try_merge_right rs (i - 1)"
  by (auto simp: try_merge_left_def try_merge_right_def)

lemma merge_right_wf:
  assumes "regions_wf rs" shows "regions_wf (try_merge_right rs i)"
  using try_merge_right_cases [of rs i]
proof cases
  case (2 pre x y suf)
  have "r_end x = r_start y" using 2(3) by (rule mergeable_layoutD(1))
  moreover have "region_ok y" "region_ok x" using assms 2(1) by (auto simp: regions_wf_append regions_wf_Cons)
  ultimately show ?thesis
    using assms 2 region_okD [of x] region_okD [of y]
    by (fastforce simp: regions_wf_append regions_wf_Cons)
qed (use assms in simp)

lemma merge_right_view:
  assumes "regions_wf rs" shows "view (try_merge_right rs i) = view rs"
  using try_merge_right_cases [of rs i]
proof cases
  case (2 pre x y suf)
  have "region_ok y" "region_ok x" using assms 2(1) by (auto simp: regions_wf_append regions_wf_Cons)
  then show ?thesis using merge_view [OF 2(3), of suf] 2(1,4)
    by (auto simp: fun_eq_iff view_append split: option.split)
qed simp

lemma merge_right_length: "length (try_merge_right rs i) \<le> length rs"
  by (auto simp: try_merge_right_def)

lemma merge_left_wf: "regions_wf rs \<Longrightarrow> regions_wf (try_merge_left rs i)"
  by (cases "i > 0") (simp_all add: try_merge_left_right merge_right_wf, simp add: try_merge_left_def)

lemma merge_left_view: "regions_wf rs \<Longrightarrow> view (try_merge_left rs i) = view rs"
  by (cases "i > 0") (simp_all add: try_merge_left_right merge_right_view, simp add: try_merge_left_def)

lemma merge_left_length: "length (try_merge_left rs i) \<le> length rs"
  by (auto simp: try_merge_left_def)

lemma merge_down_facts:
  "regions_wf rs \<Longrightarrow> regions_wf (merge_down k rs i) \<and> view (merge_down k rs i) = view rs
     \<and> length (merge_down k rs i) \<le> length rs"
proof (induction k rs i rule: merge_down.induct)
  case (2 k rs i)
  then show ?case
    using merge_left_wf [of rs i] merge_left_view [of rs i] merge_left_length [of rs i]
    by (metis merge_down.simps(2) order_trans)
qed simp

lemmas merge_facts = merge_right_wf merge_left_wf merge_right_view merge_left_view

section \<open>Searching\<close>

lemma first_end_above_eq:
  assumes "regions_wf rs"
  shows "guest_region_first_end_above rs a = length (takeWhile (\<lambda>r. r_end r \<le> a) rs)"
  unfolding guest_region_first_end_above_def
proof (rule bisect_takeWhile)
  fix i j assume "i \<le> j" "j < length rs" "r_end (rs ! j) \<le> a"
  then show "r_end (rs ! i) \<le> a"
    using regions_wf_nth [OF assms, of i j] regions_wf_nth_ok [OF assms, of j]
    by (cases "i = j") auto
qed

lemma lower_bound_start_eq:
  assumes "regions_wf rs"
  shows "region_lower_bound_start rs a = length (takeWhile (\<lambda>r. r_start r < a) rs)"
  unfolding region_lower_bound_start_def
proof (rule bisect_takeWhile)
  fix i j assume "i \<le> j" "j < length rs" "r_start (rs ! j) < a"
  then show "r_start (rs ! i) < a"
    using regions_wf_nth [OF assms, of i j] regions_wf_nth_ok [OF assms, of i]
    by (cases "i = j") auto
qed

lemma take_takeWhile: "take (length (takeWhile P xs)) xs = takeWhile P xs"
  by (metis takeWhile_eq_take)

lemma drop_takeWhile: "drop (length (takeWhile P xs)) xs = dropWhile P xs"
  by (rule dropWhile_eq_drop [symmetric])

lemmas split_takeWhile = take_takeWhile drop_takeWhile

text \<open>The split of the array at the first region that ends above an address.\<close>

lemma first_end_above_split:
  assumes "regions_wf rs"
  obtains pre suf where "rs = pre @ suf" "guest_region_first_end_above rs a = length pre"
    "\<forall>r \<in> set pre. r_end r \<le> a" "\<forall>r \<in> set suf. a < r_end r"
proof (rule that)
  let ?P = "\<lambda>r. r_end r \<le> a"
  show "rs = takeWhile ?P rs @ dropWhile ?P rs" by simp
  show "\<forall>r \<in> set (takeWhile ?P rs). r_end r \<le> a" by (auto dest: set_takeWhileD)
  show "\<forall>r \<in> set (dropWhile ?P rs). a < r_end r"
  proof (cases "dropWhile ?P rs")
    case (Cons x xs)
    then have "\<not> r_end x \<le> a" by (simp add: dropWhile_eq_Cons_conv)
    moreover have "regions_wf (x # xs)"
      using assms takeWhile_dropWhile_id [of ?P rs] Cons regions_wf_append by metis
    ultimately show ?thesis unfolding Cons
      using regions_wf_mono(2) [of x xs] by (meson not_le order_trans)
  next
    case Nil
    then show ?thesis by (simp only: list.set ball_simps)
  qed
qed (rule first_end_above_eq [OF assms])

lemma lower_bound_split:
  assumes "regions_wf rs"
  obtains pre suf where "rs = pre @ suf" "region_lower_bound_start rs a = length pre"
    "\<forall>r \<in> set pre. r_start r < a" "\<forall>r \<in> set suf. a \<le> r_start r"
proof (rule that)
  let ?P = "\<lambda>r. r_start r < a"
  show "rs = takeWhile ?P rs @ dropWhile ?P rs" by simp
  show "\<forall>r \<in> set (takeWhile ?P rs). r_start r < a" by (auto dest: set_takeWhileD)
  show "\<forall>r \<in> set (dropWhile ?P rs). a \<le> r_start r"
  proof (cases "dropWhile ?P rs")
    case (Cons x xs)
    then have "\<not> r_start x < a" by (simp add: dropWhile_eq_Cons_conv)
    moreover have "regions_wf (x # xs)"
      using assms takeWhile_dropWhile_id [of ?P rs] Cons regions_wf_append by metis
    ultimately show ?thesis unfolding Cons
      using regions_wf_mono(1) [of x xs] by (meson not_le order_trans less_le_trans)
  next
    case Nil
    then show ?thesis by (simp only: list.set ball_simps)
  qed
qed (rule lower_bound_start_eq [OF assms])

lemma in_region_unique:
  assumes "regions_wf rs" "i < length rs" "j < length rs" "in_region a (rs ! i)" "in_region a (rs ! j)"
  shows "i = j"
  using assms regions_wf_nth [OF assms(1), of i j] regions_wf_nth [OF assms(1), of j i]
  by (cases i j rule: linorder_cases) (auto simp: in_region_def)

lemma find_in_region:
  assumes "regions_wf rs" "i < length rs" "in_region a (rs ! i)"
  shows "find (in_region a) rs = Some (rs ! i)"
proof -
  have "\<not> in_region a (rs ! j)" if "j < i" for j
    using in_region_unique [OF assms(1), of j i a] assms that by auto
  with assms show ?thesis by (auto simp: find_Some_iff intro!: exI [of _ i])
qed

lemma region_find_loop_correct:
  assumes "regions_wf rs" "0 \<le> lo" "hi < int (length rs)"
    "\<And>i. i < length rs \<Longrightarrow> int i < lo \<Longrightarrow> \<not> in_region a (rs ! i)"
    "\<And>i. i < length rs \<Longrightarrow> hi < int i \<Longrightarrow> \<not> in_region a (rs ! i)"
  shows "region_find_loop rs a lo hi = find (in_region a) rs"
  using assms
proof (induction rs a lo hi rule: region_find_loop.induct)
  case (1 rs a lo hi)
  show ?case
  proof (cases "lo \<le> hi")
    case True
    define mid where "mid = (lo + hi) div 2"
    define m where "m = nat mid"
    have mid: "lo \<le> mid" "mid \<le> hi" using True by (auto simp: mid_def)
    have m: "int m = mid" "m < length rs" using mid "1.prems"(2,3) by (auto simp: m_def)
    have step: "region_find_loop rs a lo hi =
        (if a < r_start (rs ! m) then region_find_loop rs a lo (mid - 1)
         else if a \<ge> r_end (rs ! m) then region_find_loop rs a (mid + 1) hi
         else Some (rs ! m))"
      using True by (simp add: region_find_loop.simps [of rs a lo hi] Let_def mid_def m_def)
    note wf = "1.prems"(1)
    consider (left) "a < r_start (rs ! m)"
      | (right) "\<not> a < r_start (rs ! m)" "a \<ge> r_end (rs ! m)"
      | (here) "\<not> a < r_start (rs ! m)" "\<not> a \<ge> r_end (rs ! m)" by blast
    then show ?thesis
    proof cases
      case left
      have above: "\<not> in_region a (rs ! i)" if "i < length rs" "mid - 1 < int i" for i
      proof (cases "i = m")
        case False
        then have "m < i" using that(2) m(1) by linarith
        then show ?thesis
          using regions_wf_nth [OF wf, of m i] that(1) left regions_wf_nth_ok [OF wf m(2)]
          by (auto simp: in_region_def)
      qed (use left in \<open>auto simp: in_region_def\<close>)
      have "region_find_loop rs a lo (mid - 1) = find (in_region a) rs"
        by (rule "1.IH"(1) [OF True mid_def])
           (use left m_def above "1.prems" mid in \<open>simp_all\<close>)
      with left step show ?thesis by simp
    next
      case right
      have below: "\<not> in_region a (rs ! i)" if "i < length rs" "int i < mid + 1" for i
      proof (cases "i = m")
        case False
        then have "i < m" using that(2) m(1) by linarith
        then show ?thesis
          using regions_wf_nth [OF wf, of i m] m(2) right regions_wf_nth_ok [OF wf m(2)]
          by (auto simp: in_region_def)
      qed (use right in \<open>auto simp: in_region_def\<close>)
      have "region_find_loop rs a (mid + 1) hi = find (in_region a) rs"
        by (rule "1.IH"(2) [OF True mid_def])
           (use right m_def below "1.prems" mid in \<open>simp_all\<close>)
      with right step show ?thesis by simp
    next
      case here
      then have "in_region a (rs ! m)" by (simp add: in_region_def not_less not_le)
      then show ?thesis using find_in_region [OF wf m(2)] here step by simp
    qed
  next
    case False
    have "\<not> in_region a (rs ! i)" if "i < length rs" for i
      using "1.prems"(4,5) [OF that] False by linarith
    then have "find (in_region a) rs = None" by (auto simp: find_None_iff in_set_conv_nth)
    with False show ?thesis by (simp add: region_find_loop.simps [of rs a lo hi])
  qed
qed

lemma guest_region_find_eq: "regions_wf rs \<Longrightarrow> guest_region_find rs a = find (in_region a) rs"
  unfolding guest_region_find_def by (rule region_find_loop_correct) auto

section \<open>Adding\<close>

lemma make_region_fields [simp]:
  "r_start (make_region s e gpa v p f off fd inh nm) = s"
  "r_end (make_region s e gpa v p f off fd inh nm) = e"
  "backing_fd (make_region s e gpa v p f off fd inh nm) = fd"
  "region_ok (make_region s e gpa v p f off fd inh nm) \<longleftrightarrow> s < e"
  by (auto simp: make_region_def region_ok_def)

definition mapping_attr ::
  "u64 \<Rightarrow> u64 \<Rightarrow> u32 \<Rightarrow> u32 \<Rightarrow> u64 \<Rightarrow> bool \<Rightarrow> string option \<Rightarrow> u64 \<Rightarrow> page_attr" where
  "mapping_attr start gpa prot flags off inherited name a =
     \<lparr>pa_gpa = gpa + (a - start), pa_prot = prot, pa_flags = flags,
      pa_offset = (if flags AND LINUX_MAP_ANONYMOUS \<noteq> 0 then 0 else off + (a - start)),
      pa_shared = (flags AND LINUX_MAP_SHARED \<noteq> 0),
      pa_noreserve = (flags AND LINUX_MAP_NORESERVE \<noteq> 0),
      pa_backing_ro = False, pa_inherited = inherited,
      pa_name = (case name of Some nm \<Rightarrow> str_copy_trunc nm 64 | None \<Rightarrow> [])\<rparr>"

lemma make_region_attr [simp]:
  "region_attr (make_region s e gpa v p f off fd inh nm) a = mapping_attr s gpa p f off inh nm a"
  by (simp add: make_region_def region_attr_def mapping_attr_def)

lemma adopt_vma_id_nth:
  assumes "i < length rs"
  shows "\<exists>v. adopt_vma_id rs i = rs[i := (rs ! i)\<lparr>vma_id := v\<rparr>]"
proof -
  have "rs = rs[i := (rs ! i)\<lparr>vma_id := vma_id (rs ! i)\<rparr>]" by simp
  then show ?thesis unfolding adopt_vma_id_def by metis
qed

lemma range_free_iff:
  assumes "s < e"
  shows "(\<forall>a. s \<le> a \<and> a < e \<longrightarrow> view rs a = None)
     \<longleftrightarrow> (\<forall>r \<in> set rs. r_start r < r_end r \<longrightarrow> r_end r \<le> s \<or> e \<le> r_start r)"
    (is "?free \<longleftrightarrow> ?disj")
proof
  assume free: ?free
  show ?disj
  proof (intro ballI impI, rule ccontr)
    fix r assume r: "r \<in> set rs" "r_start r < r_end r" "\<not> (r_end r \<le> s \<or> e \<le> r_start r)"
    define a where "a = max s (r_start r)"
    have "s \<le> a" "a < e" "in_region a r" using r assms by (auto simp: a_def in_region_def max_def)
    with free r(1) show False by (auto simp: view_None_iff)
  qed
next
  assume ?disj
  then show ?free by (fastforce simp: view_None_iff in_region_def)
qed

text \<open>Inserting a region into a gap: the sorted list stays well formed and the view gains it.\<close>

lemma insert_region:
  assumes wf: "regions_wf (pre @ suf)" and r: "region_ok r"
    and pre: "\<forall>x \<in> set pre. r_end x \<le> r_start r" and suf: "\<forall>x \<in> set suf. r_end r \<le> r_start x"
  shows "regions_wf (pre @ [r] @ suf)"
    and "view (pre @ [r] @ suf) a = (if in_region a r then Some (region_attr r a) else view (pre @ suf) a)"
proof -
  show "regions_wf (pre @ [r] @ suf)"
    using assms by (auto simp: regions_wf_append regions_wf_Cons)
  have "in_region a r \<Longrightarrow> view pre a = None"
    using pre by (fastforce simp: view_None_iff in_region_def)
  then show "view (pre @ [r] @ suf) a = (if in_region a r then Some (region_attr r a) else view (pre @ suf) a)"
    by (auto simp: view_append view_Cons split: option.split)
qed

lemma add_ex_owned_gpa_correct:
  assumes wf: "table_wf g" and room: "nregions g < GUEST_MAX_REGIONS" and se: "start < end"
    and free: "\<And>a. start \<le> a \<Longrightarrow> a < end \<Longrightarrow> view (regions g) a = None"
  shows "\<exists>g'. guest_region_add_ex_owned_gpa start end gpa prot flags off name fd inh vid g = (0, g')
    \<and> table_wf g'
    \<and> (\<forall>a. view (regions g') a =
         (if start \<le> a \<and> a < end then Some (mapping_attr start gpa prot flags off inh name a)
          else view (regions g) a))"
proof -
  have rwf: "regions_wf (regions g)" using wf by (simp add: table_wf_def)
  obtain pre suf where split: "regions g = pre @ suf"
    and i: "region_lower_bound_start (regions g) start = length pre"
    and pre: "\<forall>r \<in> set pre. r_start r < start" and suf: "\<forall>r \<in> set suf. start \<le> r_start r"
    using lower_bound_split [OF rwf] by metis
  have disj: "\<forall>r \<in> set (regions g). r_end r \<le> start \<or> end \<le> r_start r"
    using range_free_iff [OF se, of "regions g"] free rwf by (auto dest: regions_wf_ok region_okD)
  have pre': "\<forall>x \<in> set pre. r_end x \<le> start" using disj pre se split by fastforce
  have suf': "\<forall>x \<in> set suf. end \<le> r_start x"
  proof
    fix x assume x: "x \<in> set suf"
    then have "r_start x < r_end x" using rwf split by (simp add: regions_wf_ok region_okD)
    moreover have "r_end x \<le> start \<or> end \<le> r_start x" "start \<le> r_start x"
      using x disj suf split by auto
    ultimately show "end \<le> r_start x" by auto
  qed
  let ?e = "if vid = 0 then allocate_vma_id g
    else if vid > next_vma_id g then (vid, g\<lparr>next_vma_id := vid\<rparr>) else (vid, g)"
  have "regions (snd ?e) = regions g" by (simp add: allocate_vma_id_def)
  moreover obtain v g1 where g1: "?e = (v, g1)" by (rule prod.exhaust)
  ultimately have regs: "regions g1 = regions g" unfolding g1 by (simp only: snd_conv)
  let ?r = "make_region start end gpa v prot flags off fd inh name"
  let ?rs1 = "pre @ [?r] @ suf"
  let ?rs2 = "if vid = 0 then adopt_vma_id ?rs1 (length pre) else ?rs1"
  have "\<exists>w. ?rs2 = pre @ [?r\<lparr>vma_id := w\<rparr>] @ suf"
  proof (cases "vid = 0")
    case True
    have "length pre < length ?rs1" by simp
    from adopt_vma_id_nth [OF this] obtain w
      where "adopt_vma_id ?rs1 (length pre) = ?rs1[length pre := (?rs1 ! length pre)\<lparr>vma_id := w\<rparr>]"
      by blast
    also have "\<dots> = pre @ [?r\<lparr>vma_id := w\<rparr>] @ suf"
      by (simp add: nth_append list_update_append)
    finally show ?thesis unfolding if_P [OF True] by (rule exI)
  next
    case False
    have "?r\<lparr>vma_id := v\<rparr> = ?r" by (simp add: make_region_def)
    then have "?rs1 = pre @ [?r\<lparr>vma_id := v\<rparr>] @ suf" by (simp only:)
    then show ?thesis unfolding if_not_P [OF False] by (rule exI)
  qed
  then obtain w where rs2: "?rs2 = pre @ [?r\<lparr>vma_id := w\<rparr>] @ suf" by (rule exE)
  let ?r' = "?r\<lparr>vma_id := w\<rparr>"
  have wf2: "regions_wf (pre @ [?r'] @ suf)"
    and view2: "\<And>a. view (pre @ [?r'] @ suf) a =
       (if in_region a ?r' then Some (region_attr ?r' a) else view (pre @ suf) a)"
    using insert_region [of pre suf ?r'] rwf split pre' suf' se by auto
  define rs4 where "rs4 = try_merge_left (try_merge_right (pre @ [?r'] @ suf) (length pre)) (length pre)"
  have eq: "guest_region_add_ex_owned_gpa start end gpa prot flags off name fd inh vid g
      = (0, g1\<lparr>regions := rs4\<rparr>)"
    using room g1 regs i split rs2
    by (simp add: guest_region_add_ex_owned_gpa_def Let_def rs4_def split: if_splits)
  have "regions_wf rs4" "view rs4 = view (pre @ [?r'] @ suf)"
    using wf2 by (simp_all add: rs4_def merge_facts)
  moreover have "length rs4 \<le> length (pre @ [?r'] @ suf)"
    unfolding rs4_def using merge_left_length merge_right_length order_trans by blast
  moreover have "length (pre @ [?r'] @ suf) \<le> GUEST_MAX_REGIONS"
    using room split by (simp add: nregions_def)
  ultimately show ?thesis
    unfolding eq using view2 split by (auto simp: table_wf_def nregions_def in_region_def)
qed

section \<open>Removing\<close>

lemma host_close_fields [simp]:
  "regions (host_close fd g) = regions g"
  "next_vma_id (host_close fd g) = next_vma_id g"
  "regions_tracker_stale (host_close fd g) = regions_tracker_stale g"
  "nregions (host_close fd g) = nregions g"
  by (simp_all add: host_close_def nregions_def)

lemma host_dup_fields [simp]:
  "regions (snd (host_dup_fd dup fd g)) = regions g"
  "next_vma_id (snd (host_dup_fd dup fd g)) = next_vma_id g"
  "regions_tracker_stale (snd (host_dup_fd dup fd g)) = regions_tracker_stale g"
  "closed_fds (snd (host_dup_fd dup fd g)) = closed_fds g"
  by (simp_all add: host_dup_fd_def Let_def)

text \<open>One equation per branch of the compaction loop.\<close>

lemma remove_loop_stop:
  "end \<le> r_start r \<Longrightarrow>
   remove_loop hps n start end resv out (r # rs) g =
     (0, host_close resv (g\<lparr>regions := out @ r # rs\<rparr>))"
  by simp

lemma remove_loop_split:
  "r_start r < start \<Longrightarrow> start < end \<Longrightarrow> end < r_end r \<Longrightarrow> n < GUEST_MAX_REGIONS \<Longrightarrow>
   remove_loop hps n start end resv out (r # rs) g =
     (0, host_close (if backing_fd r \<ge> 0 then -1 else resv)
       (g\<lparr>regions := out
           @ [guest_region_clip_overlay hps (r\<lparr>r_end := start\<rparr>),
              guest_region_clip_overlay hps
                ((trim_front end r)\<lparr>backing_fd := if backing_fd r \<ge> 0 then resv else backing_fd r\<rparr>)]
           @ rs\<rparr>))"
  by (auto simp: Let_def trim_front_def)

lemma remove_loop_full:
  "r_start r < start \<Longrightarrow> start < end \<Longrightarrow> end < r_end r \<Longrightarrow> n \<ge> GUEST_MAX_REGIONS \<Longrightarrow>
   remove_loop hps n start end resv out (r # rs) g =
     remove_loop hps n start end resv (out @ [guest_region_clip_overlay hps (r\<lparr>r_end := start\<rparr>)])
       rs (g\<lparr>regions_tracker_stale := True\<rparr>)"
  by (auto simp: Let_def)

lemma remove_loop_left:
  "r_start r < start \<Longrightarrow> start < end \<Longrightarrow> r_end r \<le> end \<Longrightarrow>
   remove_loop hps n start end resv out (r # rs) g =
     remove_loop hps n start end resv (out @ [guest_region_clip_overlay hps (r\<lparr>r_end := start\<rparr>)])
       rs g"
  by (auto simp: Let_def)

lemma remove_loop_right:
  "r_start r < end \<Longrightarrow> start \<le> r_start r \<Longrightarrow> end < r_end r \<Longrightarrow>
   remove_loop hps n start end resv out (r # rs) g =
     remove_loop hps n start end resv (out @ [guest_region_clip_overlay hps (trim_front end r)])
       rs g"
  by (auto simp: Let_def)

lemma remove_loop_drop:
  "r_start r < end \<Longrightarrow> start \<le> r_start r \<Longrightarrow> r_end r \<le> end \<Longrightarrow>
   remove_loop hps n start end resv out (r # rs) g =
     remove_loop hps n start end resv out rs (host_close (backing_fd r) g)"
  by (auto simp: Let_def)

lemmas remove_loop_branches =
  remove_loop_stop remove_loop_split remove_loop_full remove_loop_left remove_loop_right
  remove_loop_drop

lemma remove_loop_cases:
  obtains (stop) "e \<le> r_start r"
  | (split) "r_start r < s" "e < r_end r" "n < GUEST_MAX_REGIONS"
  | (full) "r_start r < s" "e < r_end r" "n \<ge> GUEST_MAX_REGIONS"
  | (left) "r_start r < s" "r_end r \<le> e"
  | (right) "r_start r < e" "s \<le> r_start r" "e < r_end r"
  | (drop) "r_start r < e" "s \<le> r_start r" "r_end r \<le> e"
  by (meson not_le)

text \<open>
  The array \<open>rs'\<close> is what is left of \<open>rs\<close> after unmapping \<open>[start, end)\<close>: exact, except that
  a stale tracker may have forgotten mappings.
\<close>

definition unmapped_view ::
  "u64 \<Rightarrow> u64 \<Rightarrow> bool \<Rightarrow> guest_region list \<Rightarrow> guest_region list \<Rightarrow> bool" where
  "unmapped_view start end stale rs rs' \<longleftrightarrow>
     (\<forall>a. view rs' a = (if start \<le> a \<and> a < end then None else view rs a)
        \<or> stale \<and> view rs' a = None)"

lemma unmapped_viewI:
  assumes "\<And>a. start \<le> a \<Longrightarrow> a < end \<Longrightarrow> view rs' a = None"
    and "\<And>a. a < start \<or> end \<le> a \<Longrightarrow> view rs' a = view rs a \<or> stale \<and> view rs' a = None"
  shows "unmapped_view start end stale rs rs'"
  unfolding unmapped_view_def using assms by (metis not_le)

lemma unmapped_view_trans:
  assumes "unmapped_view start end stale rs' rs''"
    and "\<And>a. a < start \<or> end \<le> a \<Longrightarrow> view rs' a = view rs a \<or> stale \<and> view rs' a = None"
  shows "unmapped_view start end stale rs rs''"
  unfolding unmapped_view_def
proof
  fix a
  show "view rs'' a = (if start \<le> a \<and> a < end then None else view rs a)
      \<or> stale \<and> view rs'' a = None"
  proof (cases "start \<le> a \<and> a < end")
    case True
    then show ?thesis using assms(1) unfolding unmapped_view_def by metis
  next
    case False
    then have "a < start \<or> end \<le> a" by auto
    from assms(2) [OF this] False show ?thesis
      using assms(1) unfolding unmapped_view_def by metis
  qed
qed

lemma view_replace:
  assumes "in_region a s \<longleftrightarrow> in_region a r" "region_attr s a = region_attr r a"
  shows "view (out @ s # rs) a = view (out @ r # rs) a"
  using assms by (simp add: view_append view_Cons split: option.split)

lemma view_clear_of:
  assumes "\<forall>r \<in> set rs. r_end r \<le> start \<or> end \<le> r_start r" "start \<le> a" "a < end"
  shows "view rs a = None"
  using assms by (fastforce simp: view_None_iff in_region_def)

lemma view_replace2:
  assumes "in_region a s \<or> in_region a t \<longleftrightarrow> in_region a r"
    "region_attr s a = region_attr r a" "region_attr t a = region_attr r a"
  shows "view (out @ s # t # rs) a = view (out @ r # rs) a"
  using assms by (auto simp: view_append view_Cons split: option.split)

lemma regions_wf_replace:
  assumes "regions_wf (out @ r # rs)" "region_ok s" "r_start r \<le> r_start s" "r_end s \<le> r_end r"
  shows "regions_wf ((out @ [s]) @ rs)"
  using assms by (force simp: regions_wf_append regions_wf_Cons)

lemma regions_wf_replace2:
  assumes "regions_wf (out @ r # rs)" "region_ok s" "region_ok t"
    "r_start r \<le> r_start s" "r_end s \<le> r_start t" "r_end t \<le> r_end r"
  shows "regions_wf (out @ [s, t] @ rs)"
proof -
  have "r_start s < r_end s" "r_start t < r_end t" using assms(2,3) by (auto dest: region_okD)
  with assms show ?thesis by (force simp: regions_wf_append regions_wf_Cons)
qed

lemma regions_wf_delete: "regions_wf (out @ r # rs) \<Longrightarrow> regions_wf (out @ rs)"
  by (auto simp: regions_wf_append regions_wf_Cons)

text \<open>What the loop establishes for one call, as a predicate on its result.\<close>

definition removed ::
  "u64 \<Rightarrow> u64 \<Rightarrow> nat \<Rightarrow> guest_region list \<Rightarrow> 'a region_table_scheme \<Rightarrow> 'a region_table_scheme \<Rightarrow> bool" where
  "removed start end n rs g g' \<longleftrightarrow>
     regions_wf (regions g')
     \<and> unmapped_view start end (regions_tracker_stale g') rs (regions g')
     \<and> length (regions g') \<le> length rs + (if n < GUEST_MAX_REGIONS then 1 else 0)
     \<and> (regions_tracker_stale g \<longrightarrow> regions_tracker_stale g')"

lemma removed_step:
  assumes "removed start end n rs1 g1 g'" "length rs1 \<le> length rs"
    and "regions_tracker_stale g \<longrightarrow> regions_tracker_stale g1"
    and "\<And>a. a < start \<or> end \<le> a \<Longrightarrow>
       view rs1 a = view rs a \<or> regions_tracker_stale g1 \<and> view rs1 a = None"
  shows "removed start end n rs g g'"
  using assms unmapped_view_trans [of start "end" _ rs1 "regions g'" rs]
  by (auto simp: removed_def)

lemma remove_loop_correct:
  assumes "start < end" "regions_wf (out @ suf)"
    and "\<forall>r \<in> set out. r_end r \<le> start \<or> end \<le> r_start r"
    and "\<forall>r \<in> set suf. start < r_end r"
  shows "\<exists>g'. remove_loop hps n start end resv out suf g = (0, g') \<and> removed start end n (out @ suf) g g'"
  using assms(2-)
proof (induction suf arbitrary: out g)
  case Nil
  then show ?case
    using view_clear_of [of out start "end"] by (auto simp: removed_def intro!: unmapped_viewI)
next
  case (Cons r rs)
  note wf = Cons.prems(1) and out = Cons.prems(2) and suf = Cons.prems(3)
  have r: "region_ok r" "start < r_end r" "r_start r < r_end r"
    and rs: "\<forall>x \<in> set rs. r_end r \<le> r_start x" and rs': "\<forall>x \<in> set rs. start < r_end x"
    using wf suf by (auto simp: regions_wf_append regions_wf_Cons dest: region_okD)
  let ?left = "guest_region_clip_overlay hps (r\<lparr>r_end := start\<rparr>)"
  let ?right = "guest_region_clip_overlay hps (trim_front end r)"
  show ?case
  proof (cases rule: remove_loop_cases [where s = start and e = "end" and r = r and n = n])
    case stop
    have clear: "\<forall>x \<in> set (out @ r # rs). r_end x \<le> start \<or> end \<le> r_start x"
      using out stop rs r(3) by fastforce
    show ?thesis
      using wf view_clear_of [OF clear]
      by (auto simp: remove_loop_stop [OF stop] removed_def intro!: unmapped_viewI
            simp del: remove_loop.simps)
  next
    case split
    let ?right' = "guest_region_clip_overlay hps
      ((trim_front end r)\<lparr>backing_fd := if backing_fd r \<ge> 0 then resv else backing_fd r\<rparr>)"
    have wf': "regions_wf (out @ [?left, ?right'] @ rs)"
      using wf by (rule regions_wf_replace2) (use split r assms(1) in auto)
    have clear: "\<forall>x \<in> set (out @ [?left, ?right'] @ rs). r_end x \<le> start \<or> end \<le> r_start x"
      using out split rs by fastforce
    have "view (out @ ?left # ?right' # rs) a = view (out @ r # rs) a"
      if "a < start \<or> end \<le> a" for a
      by (rule view_replace2) (use that split assms(1) in \<open>auto simp: in_region_def\<close>)
    then show ?thesis
      using wf' split view_clear_of [OF clear]
      by (auto simp: remove_loop_split [OF split(1) assms(1) split(2,3)] removed_def
            intro!: unmapped_viewI simp del: remove_loop.simps)
  next
    case full
    let ?g = "g\<lparr>regions_tracker_stale := True\<rparr>"
    have wf': "regions_wf ((out @ [?left]) @ rs)"
      using wf by (rule regions_wf_replace) (use full r assms(1) in auto)
    obtain g' where "remove_loop hps n start end resv (out @ [?left]) rs ?g = (0, g')"
      and rem: "removed start end n ((out @ [?left]) @ rs) ?g g'"
      using Cons.IH [OF wf', of ?g] out rs' by auto
    moreover have "removed start end n (out @ r # rs) g g'"
    proof (rule removed_step [OF rem])
      fix a assume "a < start \<or> end \<le> a"
      then have "(in_region a ?left \<longleftrightarrow> in_region a r) \<or> end \<le> a \<and> in_region a r"
        using full assms(1) by (auto simp: in_region_def)
      then consider "in_region a ?left \<longleftrightarrow> in_region a r" | "end \<le> a" "in_region a r" by blast
      then show "view ((out @ [?left]) @ rs) a = view (out @ r # rs) a
          \<or> regions_tracker_stale ?g \<and> view ((out @ [?left]) @ rs) a = None"
      proof cases
        case 1
        then show ?thesis using view_replace [of a ?left r out rs] by simp
      next
        case 2
        have "\<not> in_region a x" if "x \<in> set out" for x
          using 2 wf that by (fastforce simp: in_region_def regions_wf_append)
        moreover have "\<not> in_region a ?left" using 2 assms(1) by (auto simp: in_region_def)
        moreover have "\<not> in_region a x" if "x \<in> set rs" for x
          using 2 rs that by (fastforce simp: in_region_def)
        ultimately have "view ((out @ [?left]) @ rs) a = None"
          by (auto simp: view_None_iff simp del: clip_overlay_fields)
        then show ?thesis by simp
      qed
    qed simp_all
    ultimately show ?thesis
      by (simp add: remove_loop_full [OF full(1) assms(1) full(2,3)] del: remove_loop.simps)
  next
    case left
    have wf': "regions_wf ((out @ [?left]) @ rs)"
      using wf by (rule regions_wf_replace) (use left r assms(1) in auto)
    obtain g' where "remove_loop hps n start end resv (out @ [?left]) rs g = (0, g')"
      and rem: "removed start end n ((out @ [?left]) @ rs) g g'"
      using Cons.IH [OF wf', of g] out rs' by auto
    moreover have "removed start end n (out @ r # rs) g g'"
    proof (rule removed_step [OF rem])
      fix a assume "a < start \<or> end \<le> a"
      then have "view (out @ ?left # rs) a = view (out @ r # rs) a"
        using left r(2) by (intro view_replace) (auto simp: in_region_def)
      then show "view ((out @ [?left]) @ rs) a = view (out @ r # rs) a
          \<or> regions_tracker_stale g \<and> view ((out @ [?left]) @ rs) a = None" by simp
    qed simp_all
    ultimately show ?thesis
      by (simp add: remove_loop_left [OF left(1) assms(1) left(2)] del: remove_loop.simps)
  next
    case right
    have wf': "regions_wf ((out @ [?right]) @ rs)"
      using wf by (rule regions_wf_replace) (use right r assms(1) in auto)
    obtain g' where "remove_loop hps n start end resv (out @ [?right]) rs g = (0, g')"
      and rem: "removed start end n ((out @ [?right]) @ rs) g g'"
      using Cons.IH [OF wf', of g] out rs' by auto
    moreover have "removed start end n (out @ r # rs) g g'"
    proof (rule removed_step [OF rem])
      fix a assume "a < start \<or> end \<le> a"
      then have "view (out @ ?right # rs) a = view (out @ r # rs) a"
        using right by (intro view_replace) (auto simp: in_region_def)
      then show "view ((out @ [?right]) @ rs) a = view (out @ r # rs) a
          \<or> regions_tracker_stale g \<and> view ((out @ [?right]) @ rs) a = None" by simp
    qed simp_all
    ultimately show ?thesis
      by (simp add: remove_loop_right [OF right] del: remove_loop.simps)
  next
    case drop
    let ?g = "host_close (backing_fd r) g"
    obtain g' where "remove_loop hps n start end resv out rs ?g = (0, g')"
      and rem: "removed start end n (out @ rs) ?g g'"
      using Cons.IH [OF regions_wf_delete [OF wf] out, of ?g] rs' by auto
    moreover have "removed start end n (out @ r # rs) g g'"
    proof (rule removed_step [OF rem])
      fix a assume "a < start \<or> end \<le> a"
      then have "\<not> in_region a r" using drop by (auto simp: in_region_def)
      then show "view (out @ rs) a = view (out @ r # rs) a
          \<or> regions_tracker_stale ?g \<and> view (out @ rs) a = None"
        by (simp add: view_append view_Cons split: option.split)
    qed simp_all
    ultimately show ?thesis
      by (simp add: remove_loop_drop [OF drop] del: remove_loop.simps)
  qed
qed

lemma remove_reserved_correct:
  assumes "table_wf g" "start < end"
  shows "\<exists>g'. guest_region_remove_reserved hps start end resv g = (0, g')
    \<and> table_wf g' \<and> removed start end (nregions g) (regions g) g g'"
proof -
  have wf: "regions_wf (regions g)" using assms(1) by (simp add: table_wf_def)
  obtain pre suf where split: "regions g = pre @ suf"
    and i: "guest_region_first_end_above (regions g) start = length pre"
    and pre: "\<forall>r \<in> set pre. r_end r \<le> start" and suf: "\<forall>r \<in> set suf. start < r_end r"
    using first_end_above_split [OF wf] by metis
  obtain g' where g': "remove_loop hps (nregions g) start end resv pre suf g = (0, g')"
      "removed start end (nregions g) (pre @ suf) g g'"
    using remove_loop_correct [of start "end" pre suf hps "nregions g" resv g] wf split pre suf assms(2)
    by auto
  moreover have "table_wf g'"
    using g'(2) assms(1) split by (auto simp: table_wf_def removed_def nregions_def split: if_splits)
  ultimately show ?thesis
    using split i assms(2) by (auto simp: guest_region_remove_reserved_def Let_def)
qed

lemma remove_prepare_loop_regions:
  "remove_prepare_loop dup rs start end g = (rc, resv, g') \<Longrightarrow>
     regions g' = regions g \<and> regions_tracker_stale g' = regions_tracker_stale g
     \<and> closed_fds g' = closed_fds g \<and> next_vma_id g' = next_vma_id g \<and> (rc = 0 \<or> rc = -1)"
  by (induction dup rs start "end" g rule: remove_prepare_loop.induct)
     (auto simp: host_dup_fd_def Let_def split: if_splits)

lemma remove_prepare_regions:
  "guest_region_remove_prepare dup start end g = (rc, resv, g') \<Longrightarrow>
     regions g' = regions g \<and> regions_tracker_stale g' = regions_tracker_stale g
     \<and> closed_fds g' = closed_fds g \<and> next_vma_id g' = next_vma_id g \<and> (rc = 0 \<or> rc = -1)"
  by (auto simp: guest_region_remove_prepare_def dest: remove_prepare_loop_regions split: if_splits)

lemma table_wf_cong: "regions g' = regions g \<Longrightarrow> table_wf g' = table_wf g"
  by (simp add: table_wf_def nregions_def)

lemma guest_region_remove_correct:
  assumes wf: "table_wf g" and se: "start < end"
    and eq: "guest_region_remove dup hps start end g = (rc, g')"
  shows "table_wf g'"
    and "rc = -1 \<Longrightarrow> regions g' = regions g \<and> regions_tracker_stale g' = regions_tracker_stale g"
    and "rc \<noteq> -1 \<Longrightarrow> rc = 0 \<and> removed start end (nregions g) (regions g) g g'"
proof -
  obtain rc1 resv g1 where p: "guest_region_remove_prepare dup start end g = (rc1, resv, g1)"
    by (rule prod_cases3)
  note p1 = remove_prepare_regions [OF p]
  have wf1: "table_wf g1" using p1 wf table_wf_cong by blast
  obtain g2 where g2: "guest_region_remove_reserved hps start end resv g1 = (0, g2)"
    "table_wf g2" "removed start end (nregions g1) (regions g1) g1 g2"
    using remove_reserved_correct [OF wf1 se] by blast
  have "(rc, g') = (if rc1 < 0 then (-1, g1) else (0, g2))"
    using eq p g2(1) by (simp add: guest_region_remove_def split: if_splits)
  then show "table_wf g'" "rc = -1 \<Longrightarrow> regions g' = regions g \<and> regions_tracker_stale g' = regions_tracker_stale g"
    "rc \<noteq> -1 \<Longrightarrow> rc = 0 \<and> removed start end (nregions g) (regions g) g g'"
    using p1 wf1 g2 by (auto simp: removed_def nregions_def split: if_splits)
qed

section \<open>Changing protection\<close>

lemma split_right_facts:
  assumes "split_right dup hps at r g = (right, g1)"
  shows "r_start right = at" "r_end right = r_end r" "region_attr right = region_attr r"
    "region_ok r \<Longrightarrow> region_ok right \<longleftrightarrow> at < r_end r"
    "in_region a right \<longleftrightarrow> at \<le> a \<and> a < r_end r"
    "regions g1 = regions g" "regions_tracker_stale g1 = regions_tracker_stale g"
  using assms by (auto simp: split_right_def Let_def host_dup_fd_def Let_def in_region_def split: if_splits)

text \<open>The effect of mprotect on a view, and what it leaves alone.\<close>

definition prot_range :: "u64 \<Rightarrow> u64 \<Rightarrow> u32 \<Rightarrow> (u64 \<Rightarrow> page_attr option) \<Rightarrow> u64 \<Rightarrow> page_attr option" where
  "prot_range start end prot v a =
     (if start \<le> a \<and> a < end then map_option (\<lambda>x. x\<lparr>pa_prot := prot\<rparr>) (v a) else v a)"

definition but_prot :: "page_attr option \<Rightarrow> page_attr option" where
  "but_prot = map_option (\<lambda>x. x\<lparr>pa_prot := 0\<rparr>)"

lemma but_prot_simps [simp]:
  "but_prot None = None"
  "but_prot (Some x) = Some (x\<lparr>pa_prot := 0\<rparr>)"
  by (simp_all add: but_prot_def)

definition reprotected ::
  "u64 \<Rightarrow> u64 \<Rightarrow> u32 \<Rightarrow> guest_region list \<Rightarrow> guest_region list \<Rightarrow> guest_region list \<Rightarrow> bool \<Rightarrow> bool" where
  "reprotected start end prot pre suf rs' stale \<longleftrightarrow>
     regions_wf rs' \<and> length rs' \<le> max (length (pre @ suf)) GUEST_MAX_REGIONS
     \<and> (\<forall>a. but_prot (view rs' a) = but_prot (view (pre @ suf) a))
     \<and> (\<not> stale \<longrightarrow> (\<forall>a. view rs' a =
          (case view pre a of Some v \<Rightarrow> Some v | None \<Rightarrow> prot_range start end prot (view suf) a)))"

lemma set_prot_stop:
  "end \<le> r_start r \<Longrightarrow> set_prot_loop dup hps start end prot pre (r # rs) m g = (g, pre @ r # rs, m)"
  by simp

lemma set_prot_inside:
  "start \<le> r_start r \<Longrightarrow> r_start r < end \<Longrightarrow> r_end r \<le> end \<Longrightarrow>
   set_prot_loop dup hps start end prot pre (r # rs) m g =
     set_prot_loop dup hps start end prot (pre @ [r\<lparr>r_prot := prot\<rparr>]) rs
       (note_modified (length pre) m) g"
  by (auto simp: set_prot_tail_def Let_def)

lemma set_prot_full:
  "start \<le> r_start r \<Longrightarrow> r_start r < end \<Longrightarrow> end < r_end r \<Longrightarrow>
   length pre + 1 + length rs \<ge> GUEST_MAX_REGIONS \<Longrightarrow>
   set_prot_loop dup hps start end prot pre (r # rs) m g =
     set_prot_loop dup hps start end prot (pre @ [r\<lparr>r_prot := prot\<rparr>]) rs
       (note_modified (length pre) m) (g\<lparr>regions_tracker_stale := True\<rparr>)"
  by (auto simp: set_prot_tail_def Let_def)

lemma set_prot_split:
  "start \<le> r_start r \<Longrightarrow> r_start r < end \<Longrightarrow> end < r_end r \<Longrightarrow>
   length pre + 1 + length rs < GUEST_MAX_REGIONS \<Longrightarrow>
   split_right dup hps end r g = (right, g1) \<Longrightarrow>
   set_prot_loop dup hps start end prot pre (r # rs) m g =
     (g1, pre @ [guest_region_clip_overlay hps (r\<lparr>r_end := end, r_prot := prot\<rparr>), right] @ rs,
      note_modified (length pre) m)"
  by (auto simp: set_prot_tail_def Let_def)

lemma set_prot_presplit:
  assumes "r_start r < start" "start < end" "length pre + 1 + length rs < GUEST_MAX_REGIONS"
    "split_right dup hps start r g = (right, g1)"
  shows "set_prot_loop dup hps start end prot pre (r # rs) m g =
     set_prot_loop dup hps start end prot
       (pre @ [guest_region_clip_overlay hps (r\<lparr>r_end := start\<rparr>)]) (right # rs) m g1"
  using assms split_right_facts(1) [OF assms(4)] by (auto simp: Let_def)

lemma set_prot_skip:
  "r_start r < start \<Longrightarrow> start < end \<Longrightarrow> length pre + 1 + length rs \<ge> GUEST_MAX_REGIONS \<Longrightarrow>
   set_prot_loop dup hps start end prot pre (r # rs) m g =
     set_prot_loop dup hps start end prot (pre @ [r]) rs m (g\<lparr>regions_tracker_stale := True\<rparr>)"
  by auto

lemma set_prot_cases:
  obtains (stop) "e \<le> r_start r"
  | (inside) "r_start r < e" "r_end r \<le> e"
  | (full) "r_start r < e" "e < r_end r" "n \<ge> GUEST_MAX_REGIONS"
  | (split) "r_start r < e" "e < r_end r" "n < GUEST_MAX_REGIONS"
  by (meson not_le)

text \<open>One region re-protected in full, seen from the list it stands in.\<close>

lemma reprotected_step:
  assumes "reprotected start end prot (pre @ [r\<lparr>r_prot := prot\<rparr>]) rs rs' stale"
    and "start \<le> r_start r" "r_end r \<le> end \<or> stale"
  shows "reprotected start end prot pre (r # rs) rs' stale"
  using assms unfolding reprotected_def
  by (auto simp: view_append view_Cons prot_range_def in_region_def split: option.split)

lemma set_prot_loop_aligned:
  assumes "regions_wf (pre @ suf)" "\<forall>r \<in> set suf. start \<le> r_start r"
  shows "\<exists>g' rs' m'. set_prot_loop dup hps start end prot pre suf m g = (g', rs', m')
    \<and> reprotected start end prot pre suf rs' (regions_tracker_stale g')
    \<and> (regions_tracker_stale g \<longrightarrow> regions_tracker_stale g')"
  using assms
proof (induction suf arbitrary: pre m g)
  case Nil
  then show ?case by (auto simp: reprotected_def prot_range_def split: option.split)
next
  case (Cons r rs)
  have wf: "regions_wf (pre @ r # rs)" and al: "start \<le> r_start r" "\<forall>x \<in> set rs. start \<le> r_start x"
    using Cons.prems by auto
  have r: "region_ok r" "r_start r < r_end r" and rs: "\<forall>x \<in> set rs. r_end r \<le> r_start x"
    using wf by (auto simp: regions_wf_append regions_wf_Cons dest: region_okD)
  let ?r = "r\<lparr>r_prot := prot\<rparr>"
  have wf': "regions_wf ((pre @ [?r]) @ rs)"
    using wf by (rule regions_wf_replace) (use r in auto)
  show ?case
  proof (cases rule: set_prot_cases [where e = "end" and r = r and n = "length pre + 1 + length rs"])
    case stop
    have "view (r # rs) a = None" if "a < end" for a
      using that stop rs r by (fastforce simp: view_None_iff in_region_def)
    then show ?thesis
      unfolding set_prot_stop [OF stop] using wf
      by (auto simp: reprotected_def prot_range_def view_append split: option.split)
  next
    case inside
    show ?thesis
      unfolding set_prot_inside [OF al(1) inside]
      using Cons.IH [OF wf' al(2), of "note_modified (length pre) m" g]
        reprotected_step [of start "end" prot pre r rs] al(1) inside(2) by blast
  next
    case full
    show ?thesis
      unfolding set_prot_full [OF al(1) full]
      using Cons.IH [OF wf' al(2), of "note_modified (length pre) m" "g\<lparr>regions_tracker_stale := True\<rparr>"]
        reprotected_step [of start "end" prot pre r rs] al(1) by fastforce
  next
    case split
    obtain right g1 where sr: "split_right dup hps end r g = (right, g1)" by (rule prod.exhaust)
    note srf = split_right_facts [OF sr]
    let ?left = "guest_region_clip_overlay hps (r\<lparr>r_end := end, r_prot := prot\<rparr>)"
    have wf2: "regions_wf (pre @ [?left, right] @ rs)"
      using wf by (rule regions_wf_replace2) (use split r srf in auto)
    have rsn: "view rs a = None" if "a < r_end r" for a
      using that rs by (fastforce simp: view_None_iff in_region_def)
    have "reprotected start end prot pre (r # rs) (pre @ [?left, right] @ rs) stale" for stale
      using wf2 split srf(1-3,5) al(1)
      by (auto simp: reprotected_def view_append view_Cons prot_range_def in_region_def rsn
            split: option.split)
    then show ?thesis
      unfolding set_prot_split [OF al(1) split sr] using srf(7) by auto
  qed
qed

lemma set_prot_loop_correct:
  assumes "start < end" "regions_wf (pre @ suf)" "\<forall>r \<in> set suf. start < r_end r"
  shows "\<exists>g' rs' m'. set_prot_loop dup hps start end prot pre suf m g = (g', rs', m')
    \<and> reprotected start end prot pre suf rs' (regions_tracker_stale g')
    \<and> (regions_tracker_stale g \<longrightarrow> regions_tracker_stale g')"
proof (cases "\<forall>r \<in> set suf. start \<le> r_start r")
  case True
  with assms(2) show ?thesis by (rule set_prot_loop_aligned)
next
  case False
  then obtain r rs where suf: "suf = r # rs" by (cases suf) auto
  have r: "region_ok r" "start < r_end r" and rs: "\<forall>x \<in> set rs. r_end r \<le> r_start x"
    using assms(2,3) suf by (auto simp: regions_wf_append regions_wf_Cons)
  have al: "\<forall>x \<in> set rs. start \<le> r_start x" using rs r(2) by fastforce
  with False suf have lt: "r_start r < start" by auto
  have wf: "regions_wf (pre @ r # rs)" using assms(2) suf by simp
  show ?thesis
  proof (cases "length pre + 1 + length rs < GUEST_MAX_REGIONS")
    case room: True
    obtain right g1 where sr: "split_right dup hps start r g = (right, g1)" by (rule prod.exhaust)
    note srf = split_right_facts [OF sr]
    let ?left = "guest_region_clip_overlay hps (r\<lparr>r_end := start\<rparr>)"
    have "regions_wf (pre @ [?left, right] @ rs)"
      using wf by (rule regions_wf_replace2) (use lt r srf in auto)
    then have wf2: "regions_wf ((pre @ [?left]) @ right # rs)" by simp
    have same: "view ((pre @ [?left]) @ right # rs) a = view (pre @ r # rs) a" for a
    proof -
      have "view (pre @ ?left # right # rs) a = view (pre @ r # rs) a"
        by (rule view_replace2) (use lt r(2) srf in \<open>auto simp: in_region_def\<close>)
      then show ?thesis by simp
    qed
    have "reprotected start end prot pre (r # rs) rs' stale"
      if rep: "reprotected start end prot (pre @ [?left]) (right # rs) rs' stale" for rs' stale
    proof -
      have len: "length ((pre @ [?left]) @ right # rs) \<le> GUEST_MAX_REGIONS" using room by simp
      have "(case view (pre @ [?left]) a of Some v \<Rightarrow> Some v
            | None \<Rightarrow> prot_range start end prot (view (right # rs)) a) =
          (case view pre a of Some v \<Rightarrow> Some v | None \<Rightarrow> prot_range start end prot (view (r # rs)) a)" for a
        using lt r(2) srf
        by (auto simp: view_append view_Cons prot_range_def in_region_def split: option.split)
      with rep len same show ?thesis by (auto simp: reprotected_def)
    qed
    moreover have "\<forall>x \<in> set (right # rs). start \<le> r_start x" using al srf(1) by simp
    ultimately show ?thesis
      unfolding suf set_prot_presplit [OF lt assms(1) room sr]
      using set_prot_loop_aligned [OF wf2, of start dup hps "end" prot m g1] srf(7) by metis
  next
    case full: False
    have wf2: "regions_wf ((pre @ [r]) @ rs)" using wf by simp
    let ?g = "g\<lparr>regions_tracker_stale := True\<rparr>"
    obtain g' rs' m' where "set_prot_loop dup hps start end prot (pre @ [r]) rs m ?g = (g', rs', m')"
      "reprotected start end prot (pre @ [r]) rs rs' (regions_tracker_stale g')" "regions_tracker_stale g'"
      using set_prot_loop_aligned [OF wf2 al, of dup hps "end" prot m ?g] by auto
    then show ?thesis
      unfolding suf set_prot_skip [OF lt assms(1) full [unfolded not_less]]
      by (auto simp: reprotected_def)
  qed
qed

lemma guest_region_set_prot_correct:
  assumes "table_wf g" "start < end"
    and eq: "guest_region_set_prot dup hps start end prot g = g'"
  shows "table_wf g'"
    and "but_prot (view (regions g') a) = but_prot (view (regions g) a)"
    and "\<not> regions_tracker_stale g' \<Longrightarrow>
      view (regions g') a = prot_range start end prot (view (regions g)) a"
    and "regions_tracker_stale g \<Longrightarrow> regions_tracker_stale g'"
proof -
  have wf: "regions_wf (regions g)" using assms(1) by (simp add: table_wf_def)
  obtain pre suf where split: "regions g = pre @ suf"
    and i: "guest_region_first_end_above (regions g) start = length pre"
    and pre: "\<forall>r \<in> set pre. r_end r \<le> start" and suf: "\<forall>r \<in> set suf. start < r_end r"
    using first_end_above_split [OF wf] by metis
  have wf': "regions_wf (pre @ suf)" using wf split by simp
  obtain g1 rs fm lm where loop: "set_prot_loop dup hps start end prot pre suf (-1, -1) g = (g1, rs, fm, lm)"
    and rep: "reprotected start end prot pre suf rs (regions_tracker_stale g1)"
    and st: "regions_tracker_stale g \<longrightarrow> regions_tracker_stale g1"
    using set_prot_loop_correct [OF assms(2) wf' suf, of dup hps prot "(-1, -1)" g] by auto
  define rs' where "rs' = (if fm \<ge> 0 then try_merge_left
      (merge_down (nat (lm - fm)) (try_merge_right rs (nat lm)) (nat lm)) (nat fm) else rs)"
  have g': "g' = g1\<lparr>regions := rs'\<rparr>"
    using eq i split loop by (simp add: guest_region_set_prot_def Let_def rs'_def split: if_splits)
  have "regions_wf rs" using rep by (simp add: reprotected_def)
  then have m: "regions_wf rs' \<and> view rs' = view rs \<and> length rs' \<le> length rs"
    using merge_down_facts [of "try_merge_right rs (nat lm)" "nat (lm - fm)" "nat lm"]
      merge_left_length [of "merge_down (nat (lm - fm)) (try_merge_right rs (nat lm)) (nat lm)" "nat fm"]
      merge_right_length [of rs "nat lm"]
    by (auto simp: rs'_def merge_facts)
  then show "table_wf g'"
    using g' rep assms(1) split by (auto simp: table_wf_def nregions_def reprotected_def)
  show "but_prot (view (regions g') a) = but_prot (view (regions g) a)"
    using g' m rep split by (simp add: reprotected_def)
  have "view pre a = None" if "start \<le> a"
    using pre that by (fastforce simp: view_None_iff in_region_def)
  then show "view (regions g') a = prot_range start end prot (view (regions g)) a"
    if "\<not> regions_tracker_stale g'"
    using that g' m rep split
    by (auto simp: reprotected_def prot_range_def view_append split: option.split)
  show "regions_tracker_stale g \<Longrightarrow> regions_tracker_stale g'" using st g' by simp
qed

end
