(* ===== verification/Address_Space.thy ===== *)
theory Address_Space
  imports Region_Laws
begin

text \<open>
  What the region tracker promises its clients. The locale \<open>address_space\<close> is the contract
  behind mmap and munmap (the laws of mapping a free range and of unmapping a range, over an
  abstract state), with the client lemmas proved once from it; the interpretation discharges
  the laws for the operations of \<^verbatim>\<open>src/src/core/guest.c\<close>. The properties of the tracker
  itself follow: lookup, insertion, removal, protection changes, range queries, and that no
  descriptor is lost or closed twice.
\<close>

section \<open>The contract\<close>

locale address_space =
  fixes inv :: "'s \<Rightarrow> bool"
    and exact :: "'s \<Rightarrow> bool"
    and look :: "'s \<Rightarrow> u64 \<Rightarrow> 'p option"
    and map_range :: "u64 \<Rightarrow> u64 \<Rightarrow> 'm \<Rightarrow> 's \<Rightarrow> int \<times> 's"
    and unmap_range :: "u64 \<Rightarrow> u64 \<Rightarrow> 's \<Rightarrow> int \<times> 's"
    and attr :: "u64 \<Rightarrow> 'm \<Rightarrow> u64 \<Rightarrow> 'p"
  assumes map_law:
    "inv s \<Longrightarrow> a < b \<Longrightarrow> (\<And>x. a \<le> x \<Longrightarrow> x < b \<Longrightarrow> look s x = None) \<Longrightarrow>
     map_range a b m s = (rc, s') \<Longrightarrow>
     inv s' \<and> exact s' = exact s \<and> (rc = 0 \<or> rc = -1)
     \<and> (\<forall>x. look s' x = (if rc = 0 \<and> a \<le> x \<and> x < b then Some (attr a m x) else look s x))"
    and unmap_law:
    "inv s \<Longrightarrow> a < b \<Longrightarrow> unmap_range a b s = (rc, s') \<Longrightarrow>
     inv s' \<and> (exact s' \<longrightarrow> exact s) \<and> (rc = 0 \<or> rc = -1) \<and> (rc = -1 \<longrightarrow> look s' = look s)
     \<and> (rc = 0 \<longrightarrow> (\<forall>x. look s' x = (if a \<le> x \<and> x < b then None else look s x)
                       \<or> \<not> exact s' \<and> look s' x = None))"
begin

lemma unmapped:
  assumes "inv s" "a < b" "unmap_range a b s = (0, s')" "a \<le> x" "x < b"
  shows "look s' x = None"
  using unmap_law [OF assms(1-3)] assms(4,5) by (metis (full_types))

text \<open>Replacing whatever a range holds: the MAP_FIXED pattern.\<close>

lemma replace:
  assumes "inv s" "a < b" "unmap_range a b s = (0, s1)" "map_range a b m s1 = (rc, s2)"
  shows "inv s2" "rc = 0 \<or> rc = -1"
    and "a \<le> x \<Longrightarrow> x < b \<Longrightarrow> look s2 x = (if rc = 0 then Some (attr a m x) else None)"
    and "x < a \<or> b \<le> x \<Longrightarrow> look s2 x = look s x \<or> \<not> exact s2 \<and> look s2 x = None"
proof -
  note u = unmap_law [OF assms(1-3)]
  have free: "look s1 y = None" if "a \<le> y" "y < b" for y
    using unmapped [OF assms(1-3)] that by blast
  note m = map_law [OF conjunct1 [OF u] assms(2) free assms(4)]
  show "inv s2" "rc = 0 \<or> rc = -1" using m by blast+
  show "look s2 x = (if rc = 0 then Some (attr a m x) else None)" if "a \<le> x" "x < b"
    using m free [OF that] that by simp
  assume out: "x < a \<or> b \<le> x"
  then have out': "\<not> (a \<le> x \<and> x < b)" by auto
  then have "look s2 x = look s1 x" using m by auto
  moreover have "look s1 x = look s x \<or> \<not> exact s1 \<and> look s1 x = None"
    using u out' by (metis (full_types))
  ultimately show "look s2 x = look s x \<or> \<not> exact s2 \<and> look s2 x = None"
    using m by simp
qed

text \<open>Unmapping what was just mapped gives the state before, as long as the tracker is exact.\<close>

lemma map_then_unmap:
  assumes "inv s" "a < b" "\<And>x. a \<le> x \<Longrightarrow> x < b \<Longrightarrow> look s x = None"
    and "map_range a b m s = (0, s1)" "unmap_range a b s1 = (0, s2)" "exact s2"
  shows "look s2 x = look s x"
proof -
  note m = map_law [OF assms(1-4)]
  note u = unmap_law [OF conjunct1 [OF m] assms(2,5)]
  show ?thesis using m u assms(3,6) by (metis (full_types))
qed

end

section \<open>The tracker meets the contract\<close>

type_synonym map_request = "u64 \<times> u32 \<times> u32 \<times> u64 \<times> string option \<times> int"

definition add_request ::
  "host_dup \<Rightarrow> u64 \<Rightarrow> u64 \<Rightarrow> map_request \<Rightarrow> 'a region_table_scheme \<Rightarrow> int \<times> 'a region_table_scheme" where
  "add_request dup start end m g =
     (case m of (gpa, prot, flags, off, name, fd) \<Rightarrow>
        guest_region_add_ex_gpa dup start end gpa prot flags off name fd g)"

definition request_attr :: "u64 \<Rightarrow> map_request \<Rightarrow> u64 \<Rightarrow> page_attr" where
  "request_attr start m a =
     (case m of (gpa, prot, flags, off, name, fd) \<Rightarrow> mapping_attr start gpa prot flags off False name a)"

lemma add_owned_total:
  assumes wf: "table_wf g" and se: "s < e"
    and free: "\<And>a. s \<le> a \<Longrightarrow> a < e \<Longrightarrow> view (regions g) a = None"
    and eq: "guest_region_add_ex_owned_gpa s e gpa prot flags off name fd inh vid g = (rc, g')"
  shows "table_wf g' \<and> (rc = 0 \<or> rc = -1) \<and> regions_tracker_stale g' = regions_tracker_stale g
    \<and> (\<forall>a. view (regions g') a =
         (if rc = 0 \<and> s \<le> a \<and> a < e then Some (mapping_attr s gpa prot flags off inh name a)
          else view (regions g) a))"
proof (cases "nregions g < GUEST_MAX_REGIONS")
  case True
  have "regions_tracker_stale g' = regions_tracker_stale g"
    using eq True by (auto simp: guest_region_add_ex_owned_gpa_def Let_def allocate_vma_id_def split: if_splits)
  with add_ex_owned_gpa_correct [OF wf True se free, of gpa prot flags off name fd inh vid] eq show ?thesis
    by auto
next
  case False
  then have "rc = -1" "g' = host_close fd g"
    using eq by (auto simp: guest_region_add_ex_owned_gpa_def)
  with wf show ?thesis by (auto simp: table_wf_def)
qed

lemma add_ex_gpa_total:
  assumes wf: "table_wf g" and se: "s < e"
    and free: "\<And>a. s \<le> a \<Longrightarrow> a < e \<Longrightarrow> view (regions g) a = None"
    and eq: "guest_region_add_ex_gpa dup s e gpa prot flags off name fd g = (rc, g')"
  shows "table_wf g' \<and> (rc = 0 \<or> rc = -1) \<and> regions_tracker_stale g' = regions_tracker_stale g
    \<and> (\<forall>a. view (regions g') a =
         (if rc = 0 \<and> s \<le> a \<and> a < e then Some (mapping_attr s gpa prot flags off False name a)
          else view (regions g) a))"
proof (cases "fd \<ge> 0")
  case True
  define g1 where "g1 = snd (host_dup_fd dup fd g)"
  have g1: "regions g1 = regions g" "regions_tracker_stale g1 = regions_tracker_stale g"
    by (simp_all add: g1_def)
  then have wf1: "table_wf g1" using wf table_wf_cong by blast
  have d: "host_dup_fd dup fd g = (fst (host_dup_fd dup fd g), g1)" by (simp add: g1_def)
  show ?thesis
  proof (cases "fst (host_dup_fd dup fd g) < 0")
    case neg: True
    then have "rc = -1" "g' = g1"
      using eq True by (auto simp: guest_region_add_ex_gpa_def g1_def split: prod.splits)
    with wf1 g1 show ?thesis by simp
  next
    case False
    then have "guest_region_add_ex_owned_gpa s e gpa prot flags off name
        (fst (host_dup_fd dup fd g)) False 0 g1 = (rc, g')"
      using eq True by (simp add: guest_region_add_ex_gpa_def g1_def split: prod.splits)
    from add_owned_total [OF wf1 se _ this] free g1 show ?thesis by simp
  qed
next
  case False
  with eq add_owned_total [OF wf se free] show ?thesis
    by (simp add: guest_region_add_ex_gpa_def)
qed

interpretation tracker: address_space
  table_wf "\<lambda>g. \<not> regions_tracker_stale g" "\<lambda>g. view (regions g)"
  "add_request dup" "guest_region_remove dup hps" request_attr
  for dup hps
proof unfold_locales
  fix s s' :: "'a region_table_scheme" and a b m rc
  assume *: "table_wf s" "a < b" "\<And>x. a \<le> x \<Longrightarrow> x < b \<Longrightarrow> view (regions s) x = None"
    "add_request dup a b m s = (rc, s')"
  obtain gpa prot flags off name fd where m: "m = (gpa, prot, flags, off, name, fd)"
    by (metis prod_cases6)
  show "table_wf s' \<and> (\<not> regions_tracker_stale s') = (\<not> regions_tracker_stale s) \<and> (rc = 0 \<or> rc = -1)
    \<and> (\<forall>x. view (regions s') x =
        (if rc = 0 \<and> a \<le> x \<and> x < b then Some (request_attr a m x) else view (regions s) x))"
    using add_ex_gpa_total [OF *(1-3), of dup gpa prot flags off name fd rc s'] *(4)
    by (simp add: m add_request_def request_attr_def)
next
  fix s s' :: "'a region_table_scheme" and a b rc
  assume *: "table_wf s" "a < b" "guest_region_remove dup hps a b s = (rc, s')"
  note c = guest_region_remove_correct [OF *]
  have "regions_tracker_stale s \<Longrightarrow> regions_tracker_stale s'"
    using c(2,3) by (cases "rc = -1") (auto simp: removed_def)
  with c show "table_wf s' \<and> (\<not> regions_tracker_stale s' \<longrightarrow> \<not> regions_tracker_stale s)
    \<and> (rc = 0 \<or> rc = -1) \<and> (rc = -1 \<longrightarrow> view (regions s') = view (regions s))
    \<and> (rc = 0 \<longrightarrow> (\<forall>x. view (regions s') x = (if a \<le> x \<and> x < b then None else view (regions s) x)
         \<or> \<not> \<not> regions_tracker_stale s' \<and> view (regions s') x = None))"
    by (auto simp: removed_def unmapped_view_def)
qed

section \<open>When the tracker stays exact\<close>

lemma remove_loop_stale:
  "n < GUEST_MAX_REGIONS \<Longrightarrow> remove_loop hps n s e resv out suf g = (rc, g') \<Longrightarrow>
   regions_tracker_stale g' = regions_tracker_stale g"
  by (induction hps n s e resv out suf g rule: remove_loop.induct)
     (auto simp: Let_def split: if_splits)

lemma guest_region_remove_stale:
  assumes "nregions g < GUEST_MAX_REGIONS" "guest_region_remove dup hps s e g = (rc, g')"
  shows "regions_tracker_stale g' = regions_tracker_stale g"
proof -
  obtain rc1 resv g1 where p: "guest_region_remove_prepare dup s e g = (rc1, resv, g1)"
    by (rule prod_cases3)
  note p1 = remove_prepare_regions [OF p]
  then have "nregions g1 < GUEST_MAX_REGIONS" using assms(1) by (simp add: nregions_def)
  with p p1 assms(2) show ?thesis
    by (auto simp: guest_region_remove_def guest_region_remove_reserved_def Let_def
          dest: remove_loop_stale split: if_splits)
qed

lemma set_prot_aligned_stale:
  "\<forall>r \<in> set suf. s \<le> r_start r \<Longrightarrow> length pre + length suf < GUEST_MAX_REGIONS \<Longrightarrow>
   regions_tracker_stale (fst (set_prot_loop dup hps s e prot pre suf m g)) = regions_tracker_stale g"
proof (induction suf arbitrary: pre m g)
  case (Cons r rs)
  show ?case
  proof (cases rule: set_prot_cases [where e = e and r = r and n = "length pre + 1 + length rs"])
    case split
    obtain right g1 where sr: "split_right dup hps e r g = (right, g1)" by (rule prod.exhaust)
    have al: "s \<le> r_start r" using Cons.prems(1) by simp
    show ?thesis
      unfolding set_prot_split [OF al split sr] using split_right_facts(7) [OF sr] by simp
  next
    case inside
    have al: "s \<le> r_start r" using Cons.prems(1) by simp
    show ?thesis
      unfolding set_prot_inside [OF al inside] by (rule Cons.IH) (use Cons.prems in auto)
  qed (use Cons.prems in auto)
qed simp

lemma guest_region_set_prot_stale:
  assumes wf: "table_wf g" and se: "s < e" and room: "nregions g + 1 < GUEST_MAX_REGIONS"
  shows "regions_tracker_stale (guest_region_set_prot dup hps s e prot g) = regions_tracker_stale g"
proof -
  have rwf: "regions_wf (regions g)" using wf by (simp add: table_wf_def)
  obtain pre suf where split: "regions g = pre @ suf"
    and i: "guest_region_first_end_above (regions g) s = length pre"
    and suf: "\<forall>r \<in> set suf. s < r_end r"
    using first_end_above_split [OF rwf] by metis
  have len: "length pre + length suf + 1 < GUEST_MAX_REGIONS" using room split by (simp add: nregions_def)
  have "regions_tracker_stale (fst (set_prot_loop dup hps s e prot pre suf (-1, -1) g)) = regions_tracker_stale g"
  proof (cases "\<forall>r \<in> set suf. s \<le> r_start r")
    case True
    with len show ?thesis by (intro set_prot_aligned_stale) auto
  next
    case False
    then obtain r rs where c: "suf = r # rs" by (cases suf) auto
    have "\<forall>x \<in> set rs. r_end r \<le> r_start x" "s < r_end r"
      using rwf split suf c by (auto simp: regions_wf_append regions_wf_Cons)
    then have al: "\<forall>x \<in> set rs. s \<le> r_start x" by fastforce
    with False c have lt: "r_start r < s" by auto
    obtain right g1 where sr: "split_right dup hps s r g = (right, g1)" by (rule prod.exhaust)
    note srf = split_right_facts [OF sr]
    have "length pre + 1 + length rs < GUEST_MAX_REGIONS" using len c by simp
    note pres = set_prot_presplit [OF lt se this sr]
    show ?thesis
      unfolding c pres using al srf len c by (subst set_prot_aligned_stale) auto
  qed
  with i split show ?thesis
    by (auto simp: guest_region_set_prot_def Let_def split: prod.splits)
qed

section \<open>Descriptor ledger\<close>

text \<open>
  Descriptors the tracker answers for: those its regions hold and those it has closed. A
  descriptor that appears twice would be closed twice, one that disappears is leaked.
\<close>

definition held :: "guest_region list \<Rightarrow> int list" where
  "held rs = filter (\<lambda>fd. fd \<ge> 0) (map backing_fd rs)"

definition ledger :: "'a region_table_scheme \<Rightarrow> int multiset" where
  "ledger g = mset (held (regions g)) + mset (closed_fds g)"

definition fd_mset :: "int \<Rightarrow> int multiset" where
  "fd_mset fd = (if fd \<ge> 0 then {#fd#} else {#})"

lemma held_simps [simp]:
  "held [] = []"
  "mset (held (r # rs)) = fd_mset (backing_fd r) + mset (held rs)"
  "mset (held (xs @ ys)) = mset (held xs) + mset (held ys)"
  by (simp_all add: held_def fd_mset_def)

lemma clip_overlay_fd [simp]: "backing_fd (guest_region_clip_overlay hps r) = backing_fd r"
  by (simp add: guest_region_clip_overlay_def guest_region_clear_overlay_def Let_def)

lemma trim_front_fd [simp]: "backing_fd (trim_front at r) = backing_fd r"
  by (simp add: trim_front_def)

lemma closed_host_close [simp]: "mset (closed_fds (host_close fd g)) = mset (closed_fds g) + fd_mset fd"
  by (simp add: host_close_def fd_mset_def)

lemma opened_host_close [simp]: "opened_fds (host_close fd g) = opened_fds g"
  by (simp add: host_close_def)

lemma fd_mset_neg [simp]: "fd < 0 \<Longrightarrow> fd_mset fd = {#}"
  by (simp add: fd_mset_def)

text \<open>An interior split needs the reserved descriptor.\<close>

definition split_ready :: "u64 \<Rightarrow> u64 \<Rightarrow> nat \<Rightarrow> int \<Rightarrow> guest_region list \<Rightarrow> bool" where
  "split_ready s e n resv suf \<longleftrightarrow>
     (\<forall>r \<in> set suf. r_start r < s \<and> e < r_end r \<and> n < GUEST_MAX_REGIONS \<and> 0 \<le> backing_fd r \<longrightarrow> 0 \<le> resv)"

lemma remove_loop_ledger:
  assumes "s < e" "split_ready s e n resv suf" "remove_loop hps n s e resv out suf g = (rc, g')"
  shows "ledger g' = mset (held (out @ suf)) + mset (closed_fds g) + fd_mset resv
    \<and> opened_fds g' = opened_fds g"
  using assms(2,3)
proof (induction suf arbitrary: out g)
  case Nil
  then show ?case by (auto simp: ledger_def)
next
  case (Cons r rs)
  have rdy: "split_ready s e n resv rs" using Cons.prems(1) by (simp add: split_ready_def)
  have own: "0 \<le> resv" if "r_start r < s" "e < r_end r" "n < GUEST_MAX_REGIONS" "0 \<le> backing_fd r"
    using Cons.prems(1) that by (simp add: split_ready_def)
  note eq = Cons.prems(2)
  show ?case
  proof (cases rule: remove_loop_cases [where e = e and r = r and s = s and n = n])
    case stop
    with eq show ?thesis by (auto simp: ledger_def)
  next
    case split
    from eq [unfolded remove_loop_split [OF split(1) assms(1) split(2,3)]] own [OF split]
    show ?thesis by (auto simp: ledger_def)
  next
    case full
    from Cons.IH [OF rdy eq [unfolded remove_loop_full [OF full(1) assms(1) full(2,3)]]]
    show ?thesis by (simp add: ac_simps)
  next
    case left
    from Cons.IH [OF rdy eq [unfolded remove_loop_left [OF left(1) assms(1) left(2)]]]
    show ?thesis by (simp add: ac_simps)
  next
    case right
    from Cons.IH [OF rdy eq [unfolded remove_loop_right [OF right]]]
    show ?thesis by (simp add: ac_simps)
  next
    case drop
    from Cons.IH [OF rdy eq [unfolded remove_loop_drop [OF drop]]]
    show ?thesis by (simp add: ac_simps)
  qed
qed

lemma remove_prepare_loop_ready:
  assumes "remove_prepare_loop dup suf s e g = (rc, resv, g')" "regions_wf suf" "s < e"
  shows "mset (opened_fds g') = mset (opened_fds g) + fd_mset resv
    \<and> (0 \<le> rc \<longrightarrow> split_ready s e (nregions g) resv suf)"
  using assms
proof (induction dup suf s e g rule: remove_prepare_loop.induct)
  case (1 dup s e g)
  then show ?case by (simp add: split_ready_def)
next
  case (2 dup r rs s e g)
  have after: "\<forall>x \<in> set rs. r_end r \<le> r_start x" and wf: "regions_wf rs" and r: "r_start r < r_end r"
    using "2.prems"(2) by (auto simp: regions_wf_Cons dest: region_okD)
  consider (stop) "e \<le> r_start r" | (inside) "r_start r < s" "e < r_end r"
    | (onward) "r_start r < e" "\<not> (r_start r < s \<and> e < r_end r)" by (meson not_le)
  then show ?case
  proof cases
    case stop
    then have "\<forall>x \<in> set (r # rs). \<not> r_start x < s" using after r \<open>s < e\<close> by fastforce
    with stop "2.prems"(1) show ?thesis by (auto simp: split_ready_def)
  next
    case inside
    then have "\<forall>x \<in> set rs. \<not> r_start x < s" using after \<open>s < e\<close> by fastforce
    moreover have "\<not> e \<le> r_start r" using inside \<open>s < e\<close> by auto
    ultimately show ?thesis
      using inside "2.prems"(1)
      by (auto simp: split_ready_def host_dup_fd_def Let_def fd_mset_def split: if_splits)
  next
    case onward
    then have "remove_prepare_loop dup rs s e g = (rc, resv, g')"
      using "2.prems"(1) by (auto simp: not_le split: if_splits)
    with "2.IH" onward wf \<open>s < e\<close> have "mset (opened_fds g') = mset (opened_fds g) + fd_mset resv
        \<and> (0 \<le> rc \<longrightarrow> split_ready s e (nregions g) resv rs)" by (auto simp: not_le)
    with onward show ?thesis by (auto simp: split_ready_def)
  qed
qed

lemma prepare_fail: "remove_prepare_loop dup suf s e g = (rc, resv, g') \<Longrightarrow> rc < 0 \<Longrightarrow> resv < 0"
  by (induction dup suf s e g rule: remove_prepare_loop.induct)
     (auto simp: host_dup_fd_def Let_def split: if_splits)

lemma guest_region_remove_ledger:
  assumes wf: "table_wf g" and se: "s < e" and eq: "guest_region_remove dup hps s e g = (rc, g')"
  shows "ledger g' + mset (opened_fds g) = ledger g + mset (opened_fds g')"
proof -
  have rwf: "regions_wf (regions g)" using wf by (simp add: table_wf_def)
  define k where "k = guest_region_first_end_above (regions g) s"
  have "regions_wf (take k (regions g) @ drop k (regions g))" using rwf by simp
  then have swf: "regions_wf (drop k (regions g))" by (simp only: regions_wf_append)
  obtain rc1 resv g1 where p: "remove_prepare_loop dup (drop k (regions g)) s e g = (rc1, resv, g1)"
    by (rule prod_cases3)
  note p1 = remove_prepare_loop_regions [OF p] and p2 = remove_prepare_loop_ready [OF p swf se]
  have prep: "guest_region_remove_prepare dup s e g = (rc1, resv, g1)"
    using p se by (auto simp: guest_region_remove_prepare_def k_def)
  show ?thesis
  proof (cases "rc1 < 0")
    case True
    then have "g' = g1" using eq prep by (simp add: guest_region_remove_def)
    with p1 p2 prepare_fail [OF p True] show ?thesis by (simp add: ledger_def)
  next
    case False
    then have "remove_loop hps (nregions g1) s e resv (take k (regions g1)) (drop k (regions g1)) g1 = (rc, g')"
      using eq prep se p1
      by (auto simp: guest_region_remove_def guest_region_remove_reserved_def k_def Let_def split: if_splits)
    moreover have "split_ready s e (nregions g1) resv (drop k (regions g1))"
      using p2 False p1 by (simp add: nregions_def)
    ultimately have "ledger g' = ledger g1 + fd_mset resv" "opened_fds g' = opened_fds g1"
      using remove_loop_ledger [OF se] by (fastforce simp: ledger_def)+
    with p1 p2 show ?thesis by (simp add: ledger_def ac_simps)
  qed
qed

section \<open>Range queries\<close>

lemma range_all_prot_iff:
  "regions_wf rs \<Longrightarrow> range_all_prot rs e p \<longleftrightarrow> (\<forall>r \<in> set rs. r_start r < e \<longrightarrow> r_prot r = p)"
proof (induction rs e p rule: range_all_prot.induct)
  case (2 r rs e p)
  then have "\<forall>x \<in> set rs. r_start r \<le> r_start x" using regions_wf_mono(1) [of r rs] by auto
  with 2 show ?case by (auto simp: regions_wf_Cons not_le)
qed simp

lemma range_any_iff:
  "regions_wf rs \<Longrightarrow> range_any P rs e \<longleftrightarrow> (\<exists>r \<in> set rs. r_start r < e \<and> P r)"
proof (induction P rs e rule: range_any.induct)
  case (2 P r rs e)
  then have "\<forall>x \<in> set rs. r_start r \<le> r_start x" using regions_wf_mono(1) [of r rs] by auto
  with 2 show ?case by (auto simp: regions_wf_Cons not_le)
qed simp

lemma first_end_above_drop:
  assumes "regions_wf rs"
  shows "regions_wf (drop (guest_region_first_end_above rs s) rs)"
    and "r \<in> set (drop (guest_region_first_end_above rs s) rs) \<longleftrightarrow> r \<in> set rs \<and> s < r_end r"
proof -
  obtain pre suf where *: "rs = pre @ suf" "guest_region_first_end_above rs s = length pre"
    "\<forall>r \<in> set pre. r_end r \<le> s" "\<forall>r \<in> set suf. s < r_end r"
    using first_end_above_split [OF assms] by metis
  then show "regions_wf (drop (guest_region_first_end_above rs s) rs)"
    using assms by (simp add: regions_wf_append)
  show "r \<in> set (drop (guest_region_first_end_above rs s) rs) \<longleftrightarrow> r \<in> set rs \<and> s < r_end r"
    using * by auto
qed

text \<open>A region meets \<open>[s, e)\<close> exactly when it covers one of its addresses.\<close>

lemma meets_range:
  assumes "region_ok r" "s < e"
  shows "s < r_end r \<and> r_start r < e \<longleftrightarrow> (\<exists>a. s \<le> a \<and> a < e \<and> in_region a r)"
proof
  assume *: "s < r_end r \<and> r_start r < e"
  have "s \<le> max s (r_start r) \<and> max s (r_start r) < e \<and> in_region (max s (r_start r)) r"
    using * assms by (auto simp: in_region_def max_def dest: region_okD)
  then show "\<exists>a. s \<le> a \<and> a < e \<and> in_region a r" by blast
qed (auto simp: in_region_def)

lemma find_in_region_set:
  assumes "regions_wf rs" "r \<in> set rs" "in_region a r"
  shows "find (in_region a) rs = Some r"
proof -
  obtain i where "i < length rs" "r = rs ! i" using assms(2) by (auto simp: in_set_conv_nth)
  with assms find_in_region [OF assms(1), of i a] show ?thesis by simp
qed

lemma view_in_region:
  assumes "regions_wf rs" "r \<in> set rs" "in_region a r"
  shows "view rs a = Some (region_attr r a)"
  using find_in_region_set [OF assms] by (simp add: view_def)

lemma view_SomeE:
  assumes "view rs a = Some x"
  obtains r where "r \<in> set rs" "in_region a r" "x = region_attr r a"
  using assms by (auto simp: view_def find_Some_iff in_set_conv_nth)

lemma view_range_ex:
  assumes "regions_wf rs" "s < e" "\<And>r a. Q (region_attr r a) = P r"
  shows "(\<exists>a x. s \<le> a \<and> a < e \<and> view rs a = Some x \<and> Q x)
     \<longleftrightarrow> (\<exists>r \<in> set rs. s < r_end r \<and> r_start r < e \<and> P r)" (is "?L \<longleftrightarrow> ?R")
proof
  assume ?L
  then obtain a x r where "s \<le> a" "a < e" "r \<in> set rs" "in_region a r" "x = region_attr r a" "Q x"
    by (auto elim!: view_SomeE)
  with assms(3) meets_range [OF regions_wf_ok [OF assms(1)] assms(2), of r] show ?R by blast
next
  assume ?R
  then obtain r where r: "r \<in> set rs" "s < r_end r \<and> r_start r < e" "P r" by blast
  then obtain a where "s \<le> a" "a < e" "in_region a r"
    using meets_range [OF regions_wf_ok [OF assms(1) r(1)] assms(2)] by blast
  with view_in_region [OF assms(1) r(1), of a] r(3) assms(3) show ?L by blast
qed

section \<open>Properties\<close>

text \<open>A table with a file mapping, a heap and room to spare, for the examples below.\<close>

definition example_table :: region_table where
  "example_table =
     \<lparr>regions = [make_region 0x1000 0x5000 0x1000 1 3 2 0 5 False None,
                 make_region 0x8000 0xA000 0x8000 2 3 0x22 0 (-1) False (Some ''[heap]'')],
      next_vma_id = 2, regions_tracker_stale = False, dup_calls = 0, opened_fds = [], closed_fds = []\<rparr>"

definition example_dup :: host_dup where
  "example_dup n fd = fd + int n + 20"

lemma example_table_wf [simp]: "table_wf example_table"
  by code_simp

text \<open>
  C14. On a well-formed table the binary search of \<open>guest_region_find\<close> returns a region exactly
  when that region is in the array and contains the address, and nothing exactly when no
  region contains it.
\<close>

theorem guest_region_find_lookup:
  assumes "regions_wf rs"
  shows "(guest_region_find rs a = Some r \<longleftrightarrow> r \<in> set rs \<and> in_region a r)
    \<and> (guest_region_find rs a = None \<longleftrightarrow> (\<forall>r \<in> set rs. \<not> in_region a r))"
proof -
  have "r \<in> set rs \<and> in_region a r" if "find (in_region a) rs = Some r"
    using that by (auto simp: find_Some_iff)
  with guest_region_find_eq [OF assms, of a] find_in_region_set [OF assms] show ?thesis
    by (auto simp: find_None_iff)
qed

theorem guest_region_find_lookup_witness:
  "guest_region_find (regions example_table) 0x4FFF = Some (regions example_table ! 0)
   \<and> guest_region_find (regions example_table) 0x5000 = None"
proof -
  have wf: "regions_wf (regions example_table)" by code_simp
  have "regions example_table ! 0 \<in> set (regions example_table)
    \<and> in_region 0x4FFF (regions example_table ! 0)" by code_simp
  moreover have "\<forall>r \<in> set (regions example_table). \<not> in_region 0x5000 r" by code_simp
  ultimately show ?thesis
    using guest_region_find_lookup [OF wf, of "0x4FFF" "regions example_table ! 0"]
      guest_region_find_lookup [OF wf, of "0x5000"] by blast
qed

text \<open>
  C19. Adding a mapping to a free range of a well-formed table succeeds exactly when the table
  has room and the backing descriptor could be duplicated; the table stays well formed, the
  addresses of the range have the attributes of the request (guest-physical address and file
  offset advancing with the address), and every other address is as before, whatever merging
  with the neighbours happened. A failed addition changes no address.
\<close>

theorem guest_region_add_ex_gpa_maps:
  assumes "table_wf g" "s < e" "\<forall>a. s \<le> a \<and> a < e \<longrightarrow> view (regions g) a = None"
    and "guest_region_add_ex_gpa dup s e gpa prot flags off name fd g = (rc, g')"
  shows "table_wf g'
    \<and> rc = (if nregions g < GUEST_MAX_REGIONS \<and> (0 \<le> fd \<longrightarrow> 0 \<le> dup (dup_calls g) fd) then 0 else -1)
    \<and> (\<forall>a. view (regions g') a =
         (if rc = 0 \<and> s \<le> a \<and> a < e then Some (mapping_attr s gpa prot flags off False name a)
          else view (regions g) a))"
proof -
  have "rc = (if nregions g < GUEST_MAX_REGIONS \<and> (0 \<le> fd \<longrightarrow> 0 \<le> dup (dup_calls g) fd) then 0 else -1)"
    using assms(4)
    by (auto simp: guest_region_add_ex_gpa_def guest_region_add_ex_owned_gpa_def Let_def host_dup_fd_def
          nregions_def split: if_splits prod.splits)
  with add_ex_gpa_total [OF assms(1,2) _ assms(4)] assms(3) show ?thesis by auto
qed

theorem guest_region_add_ex_gpa_maps_witness:
  "fst (guest_region_add_ex_gpa example_dup 0x5000 0x6000 0x5000 3 2 0x4000 None 5 example_table) = 0
   \<and> view (regions (snd (guest_region_add_ex_gpa example_dup 0x5000 0x6000 0x5000 3 2 0x4000 None 5
        example_table))) 0x5010 = Some (mapping_attr 0x5000 0x5000 3 2 0x4000 False None 0x5010)"
proof -
  let ?r = "guest_region_add_ex_gpa example_dup 0x5000 0x6000 0x5000 3 2 0x4000 None 5 example_table"
  have free: "\<forall>a. 0x5000 \<le> a \<and> a < 0x6000 \<longrightarrow> view (regions example_table) a = None"
    by (subst range_free_iff) (simp, code_simp)
  have "nregions example_table < GUEST_MAX_REGIONS \<and> 0 \<le> example_dup (dup_calls example_table) 5"
    by code_simp
  then show ?thesis
    using guest_region_add_ex_gpa_maps [OF example_table_wf _ free prod.collapse [symmetric],
        of example_dup "0x5000" 3 2 "0x4000" None 5] by simp
qed

text \<open>
  C5. Unmapping a range: either the reservation of a descriptor failed and the table is as
  before, or no address of the range is mapped afterwards and every address outside it is as
  before. Only a full table (4096 regions) can make the tracker forget mappings outside the
  range, and it is then flagged stale. The table stays well formed.
\<close>

theorem guest_region_remove_unmaps:
  assumes "table_wf g" "s < e" "guest_region_remove dup hps s e g = (rc, g')"
  shows "table_wf g' \<and> (rc = 0 \<or> rc = -1 \<and> regions g' = regions g)
    \<and> (rc = 0 \<longrightarrow> (\<forall>a. s \<le> a \<and> a < e \<longrightarrow> view (regions g') a = None)
        \<and> (\<forall>a. a < s \<or> e \<le> a \<longrightarrow> view (regions g') a = view (regions g) a
              \<or> view (regions g') a = None \<and> regions_tracker_stale g')
        \<and> (nregions g < GUEST_MAX_REGIONS \<longrightarrow> regions_tracker_stale g' = regions_tracker_stale g))"
proof -
  note c = guest_region_remove_correct [OF assms]
  note u = tracker.unmapped [OF assms(1,2), of dup hps]
  have "view (regions g') a = view (regions g) a \<or> view (regions g') a = None \<and> regions_tracker_stale g'"
    if "rc = 0" "a < s \<or> e \<le> a" for a
  proof -
    have "\<not> (s \<le> a \<and> a < e)" using that(2) by auto
    with c(3) that(1) show ?thesis unfolding removed_def unmapped_view_def by (metis zero_neq_neg_one)
  qed
  with c u assms(3) guest_region_remove_stale [OF _ assms(3)] show ?thesis by blast
qed

theorem guest_region_remove_unmaps_witness:
  "fst (guest_region_remove example_dup 0x4000 0x2000 0x3000 example_table) = 0
   \<and> view (regions (snd (guest_region_remove example_dup 0x4000 0x2000 0x3000 example_table))) 0x2FFF = None
   \<and> view (regions (snd (guest_region_remove example_dup 0x4000 0x2000 0x3000 example_table))) 0x3000
      = view (regions example_table) 0x3000"
proof -
  let ?r = "guest_region_remove example_dup 0x4000 0x2000 0x3000 example_table"
  have "fst ?r = 0 \<and> \<not> regions_tracker_stale (snd ?r)" by code_simp
  then show ?thesis
    using guest_region_remove_unmaps [OF example_table_wf _ prod.collapse [symmetric], of "0x2000" "0x3000"
        example_dup "0x4000"] by simp
qed

text \<open>
  Changing the protection of a range: the table stays well formed, nothing but the
  protection of any address changes, and on an exact tracker every mapped address of the range
  has the new protection while every address outside keeps its own. With two free slots the
  change cannot make the tracker stale.
\<close>

theorem guest_region_set_prot_protects:
  assumes "table_wf g" "s < e" "guest_region_set_prot dup hps s e prot g = g'"
  shows "table_wf g'
    \<and> (\<forall>a. but_prot (view (regions g') a) = but_prot (view (regions g) a))
    \<and> (\<not> regions_tracker_stale g' \<longrightarrow>
        (\<forall>a. view (regions g') a =
          (if s \<le> a \<and> a < e then map_option (\<lambda>x. x\<lparr>pa_prot := prot\<rparr>) (view (regions g) a)
           else view (regions g) a)))
    \<and> (nregions g + 1 < GUEST_MAX_REGIONS \<longrightarrow> regions_tracker_stale g' = regions_tracker_stale g)"
  using guest_region_set_prot_correct [OF assms] guest_region_set_prot_stale [OF assms(1,2)] assms(3)
  by (auto simp: prot_range_def)

theorem guest_region_set_prot_protects_witness:
  "view (regions (guest_region_set_prot example_dup 0x4000 0x2000 0x9000 1 example_table)) 0x8004
     = map_option (\<lambda>x. x\<lparr>pa_prot := 1\<rparr>) (view (regions example_table) 0x8004)
   \<and> view (regions (guest_region_set_prot example_dup 0x4000 0x2000 0x9000 1 example_table)) 0x1FFF
     = view (regions example_table) 0x1FFF"
proof -
  have "nregions example_table + 1 < GUEST_MAX_REGIONS \<and> \<not> regions_tracker_stale example_table"
    by code_simp
  then show ?thesis
    using guest_region_set_prot_protects [OF example_table_wf, of "0x2000" "0x9000" example_dup "0x4000"
        1 "guest_region_set_prot example_dup 0x4000 0x2000 0x9000 1 example_table"] by simp
qed

text \<open>
  C20. Unmapping neither leaks nor doubly closes a backing descriptor: the descriptors the
  regions hold afterwards together with all closed ones are, as a multiset, those held and
  closed before together with the duplicates opened by the call.
\<close>

theorem guest_region_remove_conserves_fds:
  assumes "table_wf g" "s < e" "guest_region_remove dup hps s e g = (rc, g')"
  shows "ledger g' + mset (opened_fds g) = ledger g + mset (opened_fds g')"
  by (rule guest_region_remove_ledger [OF assms])

theorem guest_region_remove_conserves_fds_witness:
  "ledger (snd (guest_region_remove example_dup 0x4000 0x2000 0x3000 example_table)) = {#5, 25#}"
proof -
  let ?r = "guest_region_remove example_dup 0x4000 0x2000 0x3000 example_table"
  have "opened_fds (snd ?r) = [25]" "opened_fds example_table = []" by code_simp+
  moreover have "ledger example_table = {#5#}"
    by (simp add: ledger_def example_table_def make_region_def fd_mset_def)
  ultimately show ?thesis
    using guest_region_remove_conserves_fds [OF example_table_wf _ prod.collapse [symmetric], of "0x2000"
        "0x3000" example_dup "0x4000"] by simp
qed

text \<open>
  Recording an ELF segment replaces whatever the page-rounded range held: on success every
  address of it has the attributes of the segment; when the insertion fails the range is
  unmapped; and the rest of the address space is kept unless the tracker has gone stale.
\<close>

theorem guest_region_add_elf_segment_replaces:
  assumes "table_wf g" "s - (s AND 0xFFF) < PAGE_ALIGN_UP e"
    and "guest_region_add_elf_segment dup hps s e gpa prot off name g = (rc, g')"
  shows "table_wf g' \<and> (rc = 0 \<or> rc = -1)
    \<and> (\<forall>a. rc = 0 \<and> s - (s AND 0xFFF) \<le> a \<and> a < PAGE_ALIGN_UP e \<longrightarrow>
         view (regions g') a = Some (mapping_attr (s - (s AND 0xFFF)) (gpa - (s AND 0xFFF)) prot
           LINUX_MAP_PRIVATE (if off \<ge> s AND 0xFFF then off - (s AND 0xFFF) else 0) False name a))
    \<and> (\<forall>a. a < s - (s AND 0xFFF) \<or> PAGE_ALIGN_UP e \<le> a \<longrightarrow>
         view (regions g') a = view (regions g) a
         \<or> regions_tracker_stale g' \<and> view (regions g') a = None)"
proof -
  let ?lead = "s AND 0xFFF"
  let ?s = "s - ?lead" and ?e = "PAGE_ALIGN_UP e"
  let ?off = "if off \<ge> ?lead then off - ?lead else 0"
  let ?m = "(gpa - ?lead, prot, LINUX_MAP_PRIVATE, ?off, name, -1 :: int)"
  obtain rc1 g1 where r: "guest_region_remove dup hps ?s ?e g = (rc1, g1)" by (rule prod.exhaust)
  have eq: "(rc, g') = (if rc1 < 0 then (-1, g1) else add_request dup ?s ?e ?m g1)"
    using assms(3) r
    by (cases "rc1 < 0") (simp_all add: guest_region_add_elf_segment_def GUEST_PAGE_SIZE_def
          add_request_def Let_def split del: if_split)
  note c = guest_region_remove_correct [OF assms(1,2) r]
  show ?thesis
  proof (cases "rc1 = -1")
    case True
    with c eq show ?thesis by simp
  next
    case False
    then have r0: "guest_region_remove dup hps ?s ?e g = (0, g1)" and "rc1 = 0" using c(3) r by auto
    with eq have a: "add_request dup ?s ?e ?m g1 = (rc, g')" by simp
    from tracker.replace [OF assms(1,2) r0 a] show ?thesis
      by (auto simp: request_attr_def)
  qed
qed

theorem guest_region_add_elf_segment_replaces_witness:
  "fst (guest_region_add_elf_segment example_dup 0x4000 0x4010 0x6100 0x4010 5 0x10 None example_table) = 0
   \<and> view (regions (snd (guest_region_add_elf_segment example_dup 0x4000 0x4010 0x6100 0x4010 5 0x10 None
        example_table))) 0x6FFF
     = Some (mapping_attr 0x4000 0x4000 5 LINUX_MAP_PRIVATE 0 False None 0x6FFF)"
proof -
  let ?r = "guest_region_add_elf_segment example_dup 0x4000 0x4010 0x6100 0x4010 5 0x10 None example_table"
  have "fst ?r = 0" by code_simp
  moreover have "(0x4010 :: u64) - (0x4010 AND 0xFFF) = 0x4000" "PAGE_ALIGN_UP 0x6100 = 0x7000"
    "(0x4010 :: u64) AND 0xFFF = 0x10" by code_simp+
  ultimately show ?thesis
    using guest_region_add_elf_segment_replaces [OF example_table_wf _ prod.collapse [symmetric],
        of "0x4010" "0x6100" example_dup "0x4000" "0x4010" 5 "0x10" None] by simp
qed

text \<open>
  The range queries answer for the addresses of the range: uniform protection means that
  every mapped address of it has that protection, the other two that some mapped address of it
  was mapped without reservation, or shared from a read-only descriptor.
\<close>

theorem guest_region_range_queries:
  assumes "regions_wf rs" "s < e"
  shows "(guest_region_range_prot_uniform rs s e p \<longleftrightarrow>
      \<not> (\<exists>a x. s \<le> a \<and> a < e \<and> view rs a = Some x \<and> pa_prot x \<noteq> p))
    \<and> (guest_region_range_has_noreserve rs s e \<longleftrightarrow>
      (\<exists>a x. s \<le> a \<and> a < e \<and> view rs a = Some x \<and> pa_noreserve x))
    \<and> (guest_region_range_has_ro_shared_backing rs s e \<longleftrightarrow>
      (\<exists>a x. s \<le> a \<and> a < e \<and> view rs a = Some x \<and> (pa_shared x \<and> pa_backing_ro x)))"
proof -
  note d = first_end_above_drop [OF assms(1), where s = s]
  have "(\<exists>a x. s \<le> a \<and> a < e \<and> view rs a = Some x \<and> pa_prot x \<noteq> p) \<longleftrightarrow>
      (\<exists>r \<in> set rs. s < r_end r \<and> r_start r < e \<and> r_prot r \<noteq> p)"
    by (rule view_range_ex [OF assms]) (simp add: region_attr_def)
  moreover have "(\<exists>a x. s \<le> a \<and> a < e \<and> view rs a = Some x \<and> pa_noreserve x) \<longleftrightarrow>
      (\<exists>r \<in> set rs. s < r_end r \<and> r_start r < e \<and> noreserve r)"
    by (rule view_range_ex [OF assms]) (simp add: region_attr_def)
  moreover have "(\<exists>a x. s \<le> a \<and> a < e \<and> view rs a = Some x \<and> (pa_shared x \<and> pa_backing_ro x)) \<longleftrightarrow>
      (\<exists>r \<in> set rs. s < r_end r \<and> r_start r < e \<and> (r_shared r \<and> backing_ro r))"
    by (rule view_range_ex [OF assms]) (simp add: region_attr_def)
  moreover have "guest_region_range_prot_uniform rs s e p \<longleftrightarrow>
      \<not> (\<exists>r \<in> set rs. s < r_end r \<and> r_start r < e \<and> r_prot r \<noteq> p)"
    by (auto simp: guest_region_range_prot_uniform_def range_all_prot_iff [OF d(1)] d(2))
  moreover have "guest_region_range_has_noreserve rs s e \<longleftrightarrow>
      (\<exists>r \<in> set rs. s < r_end r \<and> r_start r < e \<and> noreserve r)"
    by (auto simp: guest_region_range_has_noreserve_def range_any_iff [OF d(1)] Bex_def d(2))
  moreover have "guest_region_range_has_ro_shared_backing rs s e \<longleftrightarrow>
      (\<exists>r \<in> set rs. s < r_end r \<and> r_start r < e \<and> (r_shared r \<and> backing_ro r))"
    by (auto simp: guest_region_range_has_ro_shared_backing_def range_any_iff [OF d(1)] Bex_def d(2))
  ultimately show ?thesis by simp
qed

theorem guest_region_range_queries_witness:
  "guest_region_range_prot_uniform (regions example_table) 0x4000 0x9000 3
   \<and> \<not> (\<exists>a x. 0x4000 \<le> a \<and> a < 0x9000 \<and> view (regions example_table) a = Some x \<and> pa_prot x \<noteq> 3)"
proof -
  have wf: "regions_wf (regions example_table)" by code_simp
  moreover have "guest_region_range_prot_uniform (regions example_table) 0x4000 0x9000 3" by code_simp
  ultimately show ?thesis
    using guest_region_range_queries [OF wf, of "0x4000" "0x9000" 3] by simp
qed

end
