(* ===== verification/Gap_Finder.thy ===== *)
theory Gap_Finder
  imports Address_Space
begin

text \<open>
  Placement of mappings in \<^verbatim>\<open>src/src/syscall/mem.c\<close>: the first-fit gap finder with its
  allocation hints (\<open>find_free_gap_inner\<close>, \<open>find_free_gap\<close>), the choice of a gap for a
  non-fixed mmap (\<open>mmap_pick_gap\<close>), the overlap probe (\<open>region_range_overlaps\<close>) and the bound
  on a growing program break (\<open>brk_grow_limit\<close>). The guest record extends the region table by
  the scalar fields of \<^verbatim>\<open>guest_t\<close> these functions read or write.
\<close>

section \<open>State\<close>

record guest = region_table +
  guest_size :: u64
  ipa_base :: u64
  mmap_limit :: u64
  brk_base :: u64
  brk_current :: u64
  stack_base :: u64
  mmap_next :: u64
  mmap_rx_next :: u64
  mmap_rw_gap_hint :: u64
  mmap_rx_gap_hint :: u64

definition ELF_DEFAULT_BASE :: u64 where "ELF_DEFAULT_BASE = 0x00400000"
definition MMAP_RX_BASE :: u64 where "MMAP_RX_BASE = 0x10000000"
definition MMAP_BASE :: u64 where "MMAP_BASE = 0x200000000"

section \<open>The gap walk\<close>

definition gap_trailing :: "u64 \<Rightarrow> u64 \<Rightarrow> u64 \<Rightarrow> u64" where
  "gap_trailing len max_addr gap_start =
     (if window_fits gap_start len max_addr then gap_start else UINT64_MAX)"

fun gap_walk :: "u64 \<Rightarrow> u64 \<Rightarrow> u64 \<Rightarrow> guest_region list \<Rightarrow> u64 \<Rightarrow> u64" where
  "gap_walk len max_addr align [] gap_start = gap_trailing len max_addr gap_start"
| "gap_walk len max_addr align (r # rs) gap_start =
     (if r_end r \<le> gap_start then gap_walk len max_addr align rs gap_start
      else if r_start r \<ge> max_addr then gap_trailing len max_addr gap_start
      else if window_fits gap_start len max_addr \<and> r_start r \<ge> gap_start + len then gap_start
      else case align_up_ok (r_end r) align of
             None \<Rightarrow> UINT64_MAX
           | Some gap_start' \<Rightarrow> gap_walk len max_addr align rs gap_start')"

definition find_free_gap_inner ::
  "'a region_table_scheme \<Rightarrow> u64 \<Rightarrow> u64 \<Rightarrow> u64 \<Rightarrow> u64 \<Rightarrow> u64" where
  "find_free_gap_inner g len min_addr max_addr align =
     (case align_up_ok min_addr align of
        None \<Rightarrow> UINT64_MAX
      | Some gap_start \<Rightarrow>
          gap_walk len max_addr align
            (drop (guest_region_first_end_above (regions g) gap_start) (regions g)) gap_start)"

text \<open>The hint is \<open>mmap_rx_gap_hint\<close> below \<open>MMAP_BASE\<close> and \<open>mmap_rw_gap_hint\<close> above it.\<close>

definition gap_hint :: "u64 \<Rightarrow> 'a guest_scheme \<Rightarrow> u64" where
  "gap_hint min_addr g = (if min_addr < MMAP_BASE then mmap_rx_gap_hint g else mmap_rw_gap_hint g)"

definition set_gap_hint :: "u64 \<Rightarrow> u64 \<Rightarrow> 'a guest_scheme \<Rightarrow> 'a guest_scheme" where
  "set_gap_hint min_addr h g =
     (if min_addr < MMAP_BASE then g\<lparr>mmap_rx_gap_hint := h\<rparr> else g\<lparr>mmap_rw_gap_hint := h\<rparr>)"

definition find_free_gap ::
  "u64 \<Rightarrow> u64 \<Rightarrow> u64 \<Rightarrow> u64 \<Rightarrow> u64 \<Rightarrow> 'a guest_scheme \<Rightarrow> u64 \<times> 'a guest_scheme" where
  "find_free_gap hps len min_addr max_addr align g =
     (let hint = gap_hint min_addr g;
          result = (if hint \<ge> min_addr \<and> hint < max_addr
                    then find_free_gap_inner g len hint max_addr align else UINT64_MAX)
      in if result \<noteq> UINT64_MAX
         then (result, set_gap_hint min_addr (ALIGN_UP (result + len) hps) g)
         else
           let result2 = find_free_gap_inner g len min_addr max_addr align
           in if result2 \<noteq> UINT64_MAX
              then (result2, set_gap_hint min_addr (ALIGN_UP (result2 + len) hps) g)
              else (result2, g))"

text \<open>A failed search is retried with the fallback alignment when that differs.\<close>

definition find_free_gap_retry ::
  "u64 \<Rightarrow> u64 \<Rightarrow> u64 \<Rightarrow> u64 \<Rightarrow> u64 \<Rightarrow> u64 \<Rightarrow> 'a guest_scheme \<Rightarrow> u64 \<times> 'a guest_scheme" where
  "find_free_gap_retry hps len min_addr max_addr align fallback_align g =
     (case find_free_gap hps len min_addr max_addr align g of
        (r, g1) \<Rightarrow>
          if r = UINT64_MAX \<and> align \<noteq> fallback_align
          then find_free_gap hps len min_addr max_addr fallback_align g1
          else (r, g1))"

text \<open>The probe of the address hint of a non-fixed mmap, before the arenas are searched.\<close>

definition mmap_hint_probe ::
  "'a guest_scheme \<Rightarrow> u64 \<Rightarrow> u64 \<Rightarrow> u64 \<Rightarrow> u64 \<Rightarrow> u64" where
  "mmap_hint_probe g addr len align fallback_align =
     (if addr \<noteq> 0 then
        let hint_off = addr - ipa_base g in
        if hint_off \<ge> ELF_DEFAULT_BASE \<and> hint_off \<le> mmap_limit g \<and> len \<le> mmap_limit g - hint_off
        then
          let hint_max = (if hint_off < MMAP_BASE then MMAP_BASE else mmap_limit g);
              r1 = (if align \<noteq> fallback_align
                    then find_free_gap_inner g len hint_off (hint_off + len) fallback_align
                    else UINT64_MAX);
              r2 = (if r1 = UINT64_MAX
                    then find_free_gap_inner g len hint_off hint_max align else r1)
          in if r2 = UINT64_MAX \<and> align \<noteq> fallback_align
             then find_free_gap_inner g len hint_off hint_max fallback_align else r2
        else UINT64_MAX
      else UINT64_MAX)"

definition mmap_pick_gap ::
  "u64 \<Rightarrow> u64 \<Rightarrow> u64 \<Rightarrow> bool \<Rightarrow> u64 \<Rightarrow> u64 \<Rightarrow> 'a guest_scheme \<Rightarrow> u64 \<times> 'a guest_scheme" where
  "mmap_pick_gap hps addr len use_rx align fallback_align g =
     (if use_rx then
        case find_free_gap_retry hps len MMAP_RX_BASE (mmap_limit g) align fallback_align g of
          (r, g1) \<Rightarrow>
            if r = UINT64_MAX then (UINT64_MAX, g1)
            else (r, if r + len > mmap_rx_next g1 then g1\<lparr>mmap_rx_next := r + len\<rparr> else g1)
      else
        let r0 = mmap_hint_probe g addr len align fallback_align in
        case (if r0 = UINT64_MAX
              then find_free_gap_retry hps len MMAP_BASE (mmap_limit g) align fallback_align g
              else (r0, g)) of
          (r, g1) \<Rightarrow>
            if r = UINT64_MAX then (UINT64_MAX, g1)
            else (r, if r + len > mmap_next g1 then g1\<lparr>mmap_next := r + len\<rparr> else g1))"

section \<open>Overlap probe\<close>

text \<open>The closed-interval search for the first region that ends above \<open>start\<close>.\<close>

function range_overlaps_loop :: "guest_region list \<Rightarrow> u64 \<Rightarrow> int \<Rightarrow> int \<Rightarrow> int \<Rightarrow> int" where
  "range_overlaps_loop rs start lo hi first =
     (if lo \<le> hi then
        (let mid = (lo + hi) div 2 in
         if r_end (rs ! nat mid) > start then range_overlaps_loop rs start lo (mid - 1) mid
         else range_overlaps_loop rs start (mid + 1) hi first)
      else first)"
  by pat_completeness auto
termination
  by (relation "measure (\<lambda>(rs, start, lo, hi, first). nat (hi - lo + 1))") auto

declare range_overlaps_loop.simps [simp del]

definition region_range_overlaps :: "guest_region list \<Rightarrow> u64 \<Rightarrow> u64 \<Rightarrow> bool" where
  "region_range_overlaps rs start end =
     (let n = int (length rs); first = range_overlaps_loop rs start 0 (n - 1) n
      in first < n \<and> r_start (rs ! nat first) < end)"

section \<open>The program break\<close>

definition LINUX_PROT_READ :: u32 where "LINUX_PROT_READ = 1"
definition LINUX_PROT_WRITE :: u32 where "LINUX_PROT_WRITE = 2"
definition LINUX_PROT_EXEC :: u32 where "LINUX_PROT_EXEC = 4"

definition region_has_live_overlay :: "guest_region \<Rightarrow> bool" where
  "region_has_live_overlay r \<longleftrightarrow> overlay_active r \<and> overlay_end r > overlay_start r"

definition heap_piece_is_plain :: "guest_region \<Rightarrow> bool" where
  "heap_piece_is_plain r \<longleftrightarrow>
     r_end r > r_start r \<and> gpa_base r = r_start r
     \<and> r_prot r = (LINUX_PROT_READ OR LINUX_PROT_WRITE)
     \<and> r_flags r = (LINUX_MAP_PRIVATE OR LINUX_MAP_ANONYMOUS) \<and> backing_fd r < 0 \<and> \<not> r_shared r
     \<and> \<not> noreserve r \<and> \<not> backing_ro r \<and> \<not> inherited_at_fork r
     \<and> \<not> region_has_live_overlay r \<and> r_name r = ''[heap]''"

text \<open>The pair is the limit and the index of the adjoining heap record (-1 when none).\<close>

definition brk_grow_limit :: "'a guest_scheme \<Rightarrow> u64 \<Rightarrow> u64 \<times> int" where
  "brk_grow_limit g from =
     (if regions_tracker_stale g then (from, -1)
      else
        let limit = (if stack_base g > from then stack_base g else from);
            i = guest_region_first_end_above (regions g) from;
            adjoining = (if i > 0 \<and> r_end (regions g ! (i - 1)) = from
                            \<and> heap_piece_is_plain (regions g ! (i - 1))
                         then int i - 1 else -1)
        in (if i < nregions g
            then brk_limit_region from limit (r_start (regions g ! i)) (r_end (regions g ! i))
            else limit, adjoining))"

section \<open>The gap walk finds the lowest aligned gap\<close>

definition gap_free :: "guest_region list \<Rightarrow> u64 \<Rightarrow> u64 \<Rightarrow> bool" where
  "gap_free rs p len \<longleftrightarrow>
     (\<forall>r \<in> set rs. unat (r_end r) \<le> unat p \<or> unat p + unat len \<le> unat (r_start r))"

text \<open>\<open>p\<close> is a placement the caller may use.\<close>

definition placement :: "guest_region list \<Rightarrow> u64 \<Rightarrow> u64 \<Rightarrow> u64 \<Rightarrow> u64 \<Rightarrow> u64 \<Rightarrow> bool" where
  "placement rs len min_addr max_addr align p \<longleftrightarrow>
     min_addr \<le> p \<and> unat p + unat len \<le> unat max_addr \<and> unat align dvd unat p \<and> gap_free rs p len"

lemma gap_free_Cons:
  "gap_free (r # rs) p len \<longleftrightarrow>
     (unat (r_end r) \<le> unat p \<or> unat p + unat len \<le> unat (r_start r)) \<and> gap_free rs p len"
  by (auto simp: gap_free_def)

lemma gap_free_above:
  assumes "regions_wf (r # rs)" "unat p + unat len \<le> unat (r_start r)"
  shows "gap_free (r # rs) p len"
  using assms regions_wf_mono(1) [OF assms(1)]
  by (fastforce simp: gap_free_def word_le_nat_alt)

lemma fits_not_max: "unat p + unat len \<le> unat (m :: u64) \<Longrightarrow> 0 < len \<Longrightarrow> p \<noteq> UINT64_MAX"
  using u64_unat_less [of m] by (auto simp: unat_UINT64_MAX word_less_nat_alt)

definition lowest :: "(u64 \<Rightarrow> bool) \<Rightarrow> u64 \<Rightarrow> bool" where
  "lowest P res \<longleftrightarrow> (res \<noteq> UINT64_MAX \<longrightarrow> P res) \<and> (\<forall>p. P p \<longrightarrow> res \<noteq> UINT64_MAX \<and> res \<le> p)"

lemma lowest_cong: "lowest Q res \<Longrightarrow> (\<And>p. P p \<longleftrightarrow> Q p) \<Longrightarrow> lowest P res"
  by (simp add: lowest_def)

lemma lowest_none: "(\<And>p. \<not> P p) \<Longrightarrow> lowest P UINT64_MAX"
  by (simp add: lowest_def)

lemma lowest_first: "P p \<Longrightarrow> p \<noteq> UINT64_MAX \<Longrightarrow> (\<And>q. P q \<Longrightarrow> p \<le> q) \<Longrightarrow> lowest P p"
  by (simp add: lowest_def)

lemma gap_trailing_lowest:
  assumes "0 < len" "unat align dvd unat gs"
    and "\<And>p. unat p + unat len \<le> unat max_addr \<Longrightarrow> gs \<le> p \<Longrightarrow> gap_free rs p len"
  shows "lowest (placement rs len gs max_addr align) (gap_trailing len max_addr gs)"
proof (cases "window_fits gs len max_addr")
  case True
  then have fit: "unat gs + unat len \<le> unat max_addr" by (simp add: window_fits_iff)
  with assms have "placement rs len gs max_addr align gs" by (simp add: placement_def)
  with True fits_not_max [OF fit assms(1)] show ?thesis
    by (auto simp: gap_trailing_def placement_def intro!: lowest_first)
next
  case False
  then have "\<not> placement rs len gs max_addr align p" for p
    by (auto simp: window_fits_iff placement_def word_le_nat_alt)
  with False show ?thesis by (simp add: gap_trailing_def lowest_none)
qed

lemma gap_walk_lowest:
  assumes "align > 0" "len > 0" "regions_wf rs" "unat align dvd unat gs"
  shows "lowest (placement rs len gs max_addr align) (gap_walk len max_addr align rs gs)"
  using assms(3,4)
proof (induction rs arbitrary: gs)
  case Nil
  then show ?case
    using gap_trailing_lowest [OF assms(2), of align gs max_addr "[]"] by (simp add: gap_free_def)
next
  case (Cons r rs)
  have wf: "regions_wf rs" "r_start r < r_end r"
    using Cons.prems(1) by (auto simp: regions_wf_Cons dest: region_okD)
  consider (skip) "r_end r \<le> gs"
    | (past) "gs < r_end r" "max_addr \<le> r_start r"
    | (gap) "gs < r_end r" "r_start r < max_addr" "window_fits gs len max_addr" "gs + len \<le> r_start r"
    | (hit) "gs < r_end r" "r_start r < max_addr"
        "\<not> (window_fits gs len max_addr \<and> gs + len \<le> r_start r)"
    by (meson not_le)
  then show ?case
  proof cases
    case skip
    then have "placement (r # rs) len gs max_addr align p \<longleftrightarrow> placement rs len gs max_addr align p" for p
      by (auto simp: placement_def gap_free_Cons word_le_nat_alt)
    then have "lowest (placement (r # rs) len gs max_addr align) (gap_walk len max_addr align rs gs)"
      by (rule lowest_cong [OF Cons.IH [OF wf(1) Cons.prems(2)]])
    with skip show ?thesis by simp
  next
    case past
    have "gap_free (r # rs) p len" if "unat p + unat len \<le> unat max_addr" for p
      using gap_free_above [OF Cons.prems(1)] that past(2) by (simp add: word_le_nat_alt)
    then show ?thesis
      using past gap_trailing_lowest [OF assms(2) Cons.prems(2), of max_addr "r # rs"] by auto
  next
    case gap
    then have fit: "unat gs + unat len \<le> unat max_addr" by (simp add: window_fits_iff)
    then have "unat (gs + len) = unat gs + unat len"
      using u64_unat_less [of max_addr] by (simp add: unat_add_u64)
    then have "placement (r # rs) len gs max_addr align gs"
      using gap_free_above [OF Cons.prems(1), of gs len] gap fit Cons.prems(2)
      by (simp add: placement_def word_le_nat_alt)
    with gap fits_not_max [OF fit assms(2)] show ?thesis
      by (auto simp: placement_def intro!: lowest_first)
  next
    case hit
    have above: "r_end r \<le> p" if "placement (r # rs) len gs max_addr align p" for p
    proof (rule ccontr)
      assume "\<not> r_end r \<le> p"
      with that have "unat p + unat len \<le> unat (r_start r)" "gs \<le> p" "unat p + unat len \<le> unat max_addr"
        by (auto simp: placement_def gap_free_Cons word_le_nat_alt)
      then have "window_fits gs len max_addr" "unat gs + unat len \<le> unat (r_start r)"
        by (auto simp: window_fits_iff word_le_nat_alt)
      moreover from this have "unat (gs + len) = unat gs + unat len"
        using u64_unat_less [of "r_start r"] by (simp add: unat_add_u64)
      ultimately show False using hit(3) by (simp add: word_le_nat_alt)
    qed
    show ?thesis
    proof (cases "align_up_ok (r_end r) align")
      case None
      have "\<not> placement (r # rs) len gs max_addr align p" for p
        using above align_up_ok_least [OF assms(1), of p "r_end r"] None
        by (auto simp: placement_def)
      with hit None show ?thesis by (auto simp: lowest_none)
    next
      case (Some gs')
      have gs': "r_end r \<le> gs'" "unat align dvd unat gs'"
        using Some assms(1) align_up_ok_ge align_up_ok_dvd by blast+
      have "placement (r # rs) len gs max_addr align p \<longleftrightarrow> placement rs len gs' max_addr align p" for p
      proof
        assume p: "placement (r # rs) len gs max_addr align p"
        then obtain y where "align_up_ok (r_end r) align = Some y" "y \<le> p"
          using align_up_ok_least [OF assms(1), of p "r_end r"] above by (auto simp: placement_def)
        with p Some show "placement rs len gs' max_addr align p"
          by (simp add: placement_def gap_free_Cons)
      next
        assume "placement rs len gs' max_addr align p"
        with gs'(1) hit(1) show "placement (r # rs) len gs max_addr align p"
          by (auto simp: placement_def gap_free_Cons word_nat)
      qed
      then have "lowest (placement (r # rs) len gs max_addr align) (gap_walk len max_addr align rs gs')"
        by (rule lowest_cong [OF Cons.IH [OF wf(1) gs'(2)]])
      with hit Some show ?thesis by auto
    qed
  qed
qed

lemma find_free_gap_inner_lowest:
  assumes "table_wf g" "align > 0" "len > 0"
  shows "lowest (placement (regions g) len min_addr max_addr align)
    (find_free_gap_inner g len min_addr max_addr align)"
proof (cases "align_up_ok min_addr align")
  case None
  have "\<not> placement (regions g) len min_addr max_addr align p" for p
    using align_up_ok_least [OF assms(2), of p min_addr] None by (auto simp: placement_def)
  with None show ?thesis by (simp add: find_free_gap_inner_def lowest_none)
next
  case (Some gs)
  have wf: "regions_wf (regions g)" using assms(1) by (simp add: table_wf_def)
  obtain pre suf where split: "regions g = pre @ suf"
    and i: "guest_region_first_end_above (regions g) gs = length pre"
    and pre: "\<forall>r \<in> set pre. r_end r \<le> gs"
    using first_end_above_split [OF wf] by metis
  have gs: "min_addr \<le> gs" "unat align dvd unat gs"
    using Some assms(2) align_up_ok_ge align_up_ok_dvd by blast+
  have "placement (regions g) len min_addr max_addr align p \<longleftrightarrow> placement suf len gs max_addr align p" for p
  proof
    assume p: "placement (regions g) len min_addr max_addr align p"
    then obtain y where "align_up_ok min_addr align = Some y" "y \<le> p"
      using align_up_ok_least [OF assms(2), of p min_addr] by (auto simp: placement_def)
    with p Some split show "placement suf len gs max_addr align p"
      by (auto simp: placement_def gap_free_def)
  next
    assume "placement suf len gs max_addr align p"
    with pre gs split show "placement (regions g) len min_addr max_addr align p"
      by (fastforce simp: placement_def gap_free_def word_le_nat_alt)
  qed
  moreover have "regions_wf suf" using wf split by (simp add: regions_wf_append)
  ultimately have "lowest (placement (regions g) len min_addr max_addr align)
      (gap_walk len max_addr align suf gs)"
    using lowest_cong [OF gap_walk_lowest [OF assms(2,3) _ gs(2)]] by blast
  with Some i split show ?thesis by (simp add: find_free_gap_inner_def)
qed

section \<open>Hints do not lose gaps\<close>

lemma set_gap_hint_fields [simp]:
  "regions (set_gap_hint m h g) = regions g"
  "mmap_limit (set_gap_hint m h g) = mmap_limit g"
  "regions_tracker_stale (set_gap_hint m h g) = regions_tracker_stale g"
  by (simp_all add: set_gap_hint_def)

lemma placement_min: "placement rs len m max_addr align p \<Longrightarrow> m' \<le> m \<Longrightarrow> placement rs len m' max_addr align p"
  by (auto simp: placement_def)

lemma find_free_gap_correct:
  assumes "table_wf g" "align > 0" "len > 0"
    and "find_free_gap hps len min_addr max_addr align g = (r, g')"
  shows "r \<noteq> UINT64_MAX \<Longrightarrow> placement (regions g) len min_addr max_addr align r"
    and "r = UINT64_MAX \<Longrightarrow> \<not> placement (regions g) len min_addr max_addr align p"
    and "regions g' = regions g" and "mmap_limit g' = mmap_limit g"
proof -
  let ?inner = "\<lambda>m. find_free_gap_inner g len m max_addr align"
  have low: "lowest (placement (regions g) len m max_addr align) (?inner m)" for m
    by (rule find_free_gap_inner_lowest [OF assms(1-3)])
  have hit: "?inner m \<noteq> UINT64_MAX \<Longrightarrow> min_addr \<le> m \<Longrightarrow>
      placement (regions g) len min_addr max_addr align (?inner m)" for m
    using low [of m] placement_min unfolding lowest_def by blast
  show "r \<noteq> UINT64_MAX \<Longrightarrow> placement (regions g) len min_addr max_addr align r"
    using assms(4) hit [of "gap_hint min_addr g"] hit [of min_addr]
    by (auto simp: find_free_gap_def Let_def split: if_splits)
  show "r = UINT64_MAX \<Longrightarrow> \<not> placement (regions g) len min_addr max_addr align p"
    using assms(4) low [of min_addr]
    by (auto simp: find_free_gap_def Let_def lowest_def split: if_splits)
  show "regions g' = regions g" "mmap_limit g' = mmap_limit g"
    using assms(4) by (auto simp: find_free_gap_def Let_def split: if_splits)
qed

text \<open>A placement for one of the two alignments the caller accepts.\<close>

definition placed :: "'a guest_scheme \<Rightarrow> u64 \<Rightarrow> u64 \<Rightarrow> u64 \<Rightarrow> u64 \<Rightarrow> u64 \<Rightarrow> bool" where
  "placed g len min_addr align fallback_align p \<longleftrightarrow>
     placement (regions g) len min_addr (mmap_limit g) align p
     \<or> placement (regions g) len min_addr (mmap_limit g) fallback_align p"

lemma find_free_gap_retry_correct:
  assumes "table_wf g" "align > 0" "fallback_align > 0" "len > 0"
    and "find_free_gap_retry hps len min_addr (mmap_limit g) align fallback_align g = (r, g')"
  shows "r \<noteq> UINT64_MAX \<Longrightarrow> placed g len min_addr align fallback_align r"
    and "r = UINT64_MAX \<Longrightarrow> \<not> placed g len min_addr align fallback_align p"
    and "regions g' = regions g" and "mmap_limit g' = mmap_limit g"
proof -
  obtain r1 g1 where f: "find_free_gap hps len min_addr (mmap_limit g) align g = (r1, g1)"
    by (rule prod.exhaust)
  note c1 = find_free_gap_correct [OF assms(1,2,4) f]
  have wf1: "table_wf g1" using assms(1) c1(3) table_wf_cong by blast
  obtain r2 g2 where f2: "find_free_gap hps len min_addr (mmap_limit g) fallback_align g1 = (r2, g2)"
    by (rule prod.exhaust)
  note c2 = find_free_gap_correct [OF wf1 assms(3,4) f2]
  have eq: "(r, g') = (if r1 = UINT64_MAX \<and> align \<noteq> fallback_align then (r2, g2) else (r1, g1))"
    using assms(5) f f2 by (auto simp: find_free_gap_retry_def split: if_splits)
  show "r \<noteq> UINT64_MAX \<Longrightarrow> placed g len min_addr align fallback_align r"
    using eq c1 c2 by (auto simp: placed_def split: if_splits)
  show "r = UINT64_MAX \<Longrightarrow> \<not> placed g len min_addr align fallback_align p"
    using eq c1 c2 by (auto simp: placed_def split: if_splits)
  show "regions g' = regions g" "mmap_limit g' = mmap_limit g"
    using eq c1 c2 by (auto split: if_splits)
qed

lemma mmap_hint_probe_correct:
  assumes "table_wf g" "align > 0" "fallback_align > 0" "len > 0" "MMAP_BASE \<le> mmap_limit g"
    and "mmap_hint_probe g addr len align fallback_align = r" "r \<noteq> UINT64_MAX"
  shows "placed g len ELF_DEFAULT_BASE align fallback_align r"
proof -
  define h where "h = addr - ipa_base g"
  have low: "find_free_gap_inner g len h m a \<noteq> UINT64_MAX \<Longrightarrow> a > 0 \<Longrightarrow>
      placement (regions g) len h m a (find_free_gap_inner g len h m a)" for m a
    using find_free_gap_inner_lowest [OF assms(1) _ assms(4)] unfolding lowest_def by blast
  have bnd: "ELF_DEFAULT_BASE \<le> h" "unat h + unat len \<le> unat (mmap_limit g)"
    using assms(6,7)
    by (auto simp: mmap_hint_probe_def Let_def h_def word_nat split: if_splits)
  have "unat (h + len) = unat h + unat len"
    using bnd(2) u64_unat_less [of "mmap_limit g"] by (simp add: unat_add_u64)
  then have top: "h + len \<le> mmap_limit g" "MMAP_BASE \<le> mmap_limit g"
    using bnd(2) assms(5) by (simp_all add: word_le_nat_alt)
  have "placement (regions g) len h m a p \<Longrightarrow> m \<le> mmap_limit g \<Longrightarrow>
      placement (regions g) len ELF_DEFAULT_BASE (mmap_limit g) a p" for m a p
    using bnd(1) by (auto simp: placement_def word_le_nat_alt)
  then have fin: "find_free_gap_inner g len h m a \<noteq> UINT64_MAX \<Longrightarrow> a > 0 \<Longrightarrow> m \<le> mmap_limit g \<Longrightarrow>
      placement (regions g) len ELF_DEFAULT_BASE (mmap_limit g) a (find_free_gap_inner g len h m a)" for m a
    using low by blast
  show ?thesis
    using assms(2,3,6,7) fin top
    by (auto simp: mmap_hint_probe_def Let_def placed_def simp flip: h_def split: if_splits)
qed

section \<open>The overlap probe\<close>

lemma range_overlaps_loop_correct:
  assumes "regions_wf rs" "0 \<le> lo" "hi < int (length rs)" "lo \<le> hi + 1"
    "first = hi + 1" "\<And>i. i < length rs \<Longrightarrow> int i < lo \<Longrightarrow> r_end (rs ! i) \<le> start"
    "\<And>i. i < length rs \<Longrightarrow> hi < int i \<Longrightarrow> start < r_end (rs ! i)"
  shows "range_overlaps_loop rs start lo hi first = int (length (takeWhile (\<lambda>r. r_end r \<le> start) rs))"
  using assms
proof (induction rs start lo hi first rule: range_overlaps_loop.induct)
  case (1 rs start lo hi first)
  note wf = "1.prems"(1)
  have mono: "r_end (rs ! i) \<le> r_end (rs ! j)" if "i \<le> j" "j < length rs" for i j
    using regions_wf_nth [OF wf, of i j] regions_wf_nth_ok [OF wf, of j] that by (cases "i = j") auto
  show ?case
  proof (cases "lo \<le> hi")
    case True
    define mid where "mid = (lo + hi) div 2"
    define m where "m = nat mid"
    have mid: "lo \<le> mid" "mid \<le> hi" using True by (auto simp: mid_def)
    have m: "int m = mid" "m < length rs" using mid "1.prems"(2,3) by (auto simp: m_def)
    have step: "range_overlaps_loop rs start lo hi first =
        (if r_end (rs ! m) > start then range_overlaps_loop rs start lo (mid - 1) mid
         else range_overlaps_loop rs start (mid + 1) hi first)"
      using True by (simp add: range_overlaps_loop.simps [of rs start lo hi first] Let_def mid_def m_def)
    show ?thesis
    proof (cases "r_end (rs ! m) > start")
      case gt: True
      have "start < r_end (rs ! i)" if "i < length rs" "mid - 1 < int i" for i
        using mono [of m i] gt m(1) that by auto
      then have "range_overlaps_loop rs start lo (mid - 1) mid =
          int (length (takeWhile (\<lambda>r. r_end r \<le> start) rs))"
        by (intro "1.IH"(1) [OF True mid_def]) (use gt m_def "1.prems" mid in auto)
      with step gt show ?thesis by simp
    next
      case le: False
      have "r_end (rs ! i) \<le> start" if "i < length rs" "int i < mid + 1" for i
        using mono [of i m] le m that by auto
      then have "range_overlaps_loop rs start (mid + 1) hi first =
          int (length (takeWhile (\<lambda>r. r_end r \<le> start) rs))"
        by (intro "1.IH"(2) [OF True mid_def]) (use le m_def "1.prems" mid in auto)
      with step le show ?thesis by simp
    qed
  next
    case False
    then have first: "first = lo" using "1.prems"(4,5) by simp
    have "takeWhile (\<lambda>r. r_end r \<le> start) rs = take (nat lo) rs"
    proof (rule takeWhile_eq_take_P_nth)
      show "r_end (rs ! i) \<le> start" if "i < nat lo" "i < length rs" for i
        using "1.prems"(6) [OF that(2)] that(1) by simp
      show "\<not> r_end (rs ! nat lo) \<le> start" if "nat lo < length rs"
        using "1.prems"(7) [OF that] False "1.prems"(2) by (simp add: not_le)
    qed
    moreover have "nat lo \<le> length rs" using False "1.prems"(3,4) by linarith
    ultimately have "int (length (takeWhile (\<lambda>r. r_end r \<le> start) rs)) = lo"
      using "1.prems"(2) by simp
    with False first show ?thesis
      by (subst range_overlaps_loop.simps) simp
  qed
qed

lemma region_range_overlaps_iff:
  assumes "regions_wf rs"
  shows "region_range_overlaps rs start end \<longleftrightarrow> (\<exists>r \<in> set rs. start < r_end r \<and> r_start r < end)"
proof -
  let ?P = "\<lambda>r. r_end r \<le> start"
  let ?k = "length (takeWhile ?P rs)"
  have loop: "range_overlaps_loop rs start 0 (int (length rs) - 1) (int (length rs)) = int ?k"
    using assms by (intro range_overlaps_loop_correct) auto
  obtain pre suf where split: "rs = pre @ suf" "?k = length pre"
    and pre: "\<forall>r \<in> set pre. r_end r \<le> start" and suf: "\<forall>r \<in> set suf. start < r_end r"
    using first_end_above_split [OF assms] first_end_above_eq [OF assms] by metis
  have "region_range_overlaps rs start end \<longleftrightarrow> suf \<noteq> [] \<and> r_start (hd suf) < end"
    using loop split by (cases suf) (auto simp: region_range_overlaps_def Let_def nth_append)
  also have "\<dots> \<longleftrightarrow> (\<exists>r \<in> set suf. r_start r < end)"
  proof (cases suf)
    case (Cons x xs)
    have "regions_wf (x # xs)" using assms split Cons by (simp add: regions_wf_append)
    then have "\<forall>r \<in> set (x # xs). r_start x \<le> r_start r" using regions_wf_mono(1) by blast
    then show ?thesis unfolding Cons by (auto intro: le_less_trans)
  qed simp
  also have "\<dots> \<longleftrightarrow> (\<exists>r \<in> set rs. start < r_end r \<and> r_start r < end)"
    using pre suf split by fastforce
  finally show ?thesis .
qed

section \<open>The program break stays clear of mappings\<close>

lemma brk_limit_region_bounds:
  "from \<le> limit \<Longrightarrow> from \<le> brk_limit_region from limit s e \<and> brk_limit_region from limit s e \<le> limit"
  by (auto simp: brk_limit_region_def)

lemma brk_grow_limit_correct:
  assumes wf: "table_wf g" and fresh: "\<not> regions_tracker_stale g"
    and eq: "brk_grow_limit g from = (limit, adj)"
  shows "from \<le> limit"
    and "limit \<le> max (stack_base g) from"
    and "from \<le> a \<Longrightarrow> a < limit \<Longrightarrow> view (regions g) a = None"
    and "limit < stack_base g \<Longrightarrow>
      (\<exists>r \<in> set (regions g). from < r_end r \<and> (r_start r \<le> from \<or> r_start r = limit)) \<or> stack_base g \<le> from"
    and "adj \<noteq> -1 \<Longrightarrow> 0 \<le> adj \<and> nat adj < nregions g
      \<and> r_end (regions g ! nat adj) = from \<and> heap_piece_is_plain (regions g ! nat adj)"
proof -
  have rwf: "regions_wf (regions g)" using wf by (simp add: table_wf_def)
  define top where "top = (if stack_base g > from then stack_base g else from)"
  have top: "from \<le> top" "top = max (stack_base g) from" by (auto simp: top_def max_def)
  obtain pre suf where split: "regions g = pre @ suf"
    and i: "guest_region_first_end_above (regions g) from = length pre"
    and pre: "\<forall>r \<in> set pre. r_end r \<le> from" and suf: "\<forall>r \<in> set suf. from < r_end r"
    using first_end_above_split [OF rwf] by metis
  have lim: "limit = (case suf of [] \<Rightarrow> top | r # _ \<Rightarrow> brk_limit_region from top (r_start r) (r_end r))"
    using eq fresh i split
    by (auto simp: brk_grow_limit_def Let_def top_def nregions_def nth_append split: list.split if_splits)
  then show "from \<le> limit" "limit \<le> max (stack_base g) from"
    using brk_limit_region_bounds top by (auto split: list.splits)
  show "view (regions g) a = None" if a: "from \<le> a" "a < limit"
  proof (cases suf)
    case Nil
    then show ?thesis using pre split a by (fastforce simp: view_None_iff in_region_def)
  next
    case (Cons r rs)
    have "regions_wf (r # rs)" using rwf split Cons by (simp add: regions_wf_append)
    then have mono: "\<forall>x \<in> set (r # rs). r_start r \<le> r_start x" using regions_wf_mono(1) by blast
    have "a < r_start r"
      using a lim Cons suf by (auto simp: brk_limit_region_def split: if_splits)
    then have "\<not> in_region a x" if "x \<in> set suf" for x
      using mono that Cons by (fastforce simp: in_region_def)
    moreover have "\<not> in_region a x" if "x \<in> set pre" for x
      using pre that a by (fastforce simp: in_region_def)
    ultimately show ?thesis using split by (auto simp: view_None_iff)
  qed
  show "(\<exists>r \<in> set (regions g). from < r_end r \<and> (r_start r \<le> from \<or> r_start r = limit)) \<or> stack_base g \<le> from"
    if "limit < stack_base g"
    using that lim suf split
    by (cases suf) (auto simp: brk_limit_region_def top_def split: if_splits)
  show "0 \<le> adj \<and> nat adj < nregions g
      \<and> r_end (regions g ! nat adj) = from \<and> heap_piece_is_plain (regions g ! nat adj)" if "adj \<noteq> -1"
  proof -
    have "pre \<noteq> []" "adj = int (length pre) - 1" "r_end (regions g ! (length pre - 1)) = from"
      "heap_piece_is_plain (regions g ! (length pre - 1))"
      using that eq fresh i by (auto simp: brk_grow_limit_def Let_def split: if_splits)
    moreover from this have "nat adj = length pre - 1" by simp
    moreover have "length pre - 1 < nregions g" if "pre \<noteq> []"
      using that split by (cases pre) (auto simp: nregions_def)
    ultimately show ?thesis by simp
  qed
qed

section \<open>Choosing a gap for mmap\<close>

lemma placed_min: "placed g len m a b p \<Longrightarrow> m' \<le> m \<Longrightarrow> placed g len m' a b p"
  by (auto simp: placed_def placement_def)

lemma arena_order: "ELF_DEFAULT_BASE \<le> MMAP_RX_BASE" "ELF_DEFAULT_BASE \<le> MMAP_BASE"
  by code_simp+

lemma mmap_pick_gap_rx:
  assumes wf: "table_wf g" and al: "align > 0" "fallback > 0" "len > 0"
    and eq: "mmap_pick_gap hps addr len True align fallback g = (r, g')"
  shows "regions g' = regions g
    \<and> (r \<noteq> UINT64_MAX \<longrightarrow> placed g len MMAP_RX_BASE align fallback r \<and> r + len \<le> mmap_rx_next g')
    \<and> (r = UINT64_MAX \<longrightarrow> (\<forall>p. \<not> placed g len MMAP_RX_BASE align fallback p))"
proof -
  obtain r1 g1 where f: "find_free_gap_retry hps len MMAP_RX_BASE (mmap_limit g) align fallback g = (r1, g1)"
    by (rule prod.exhaust)
  note c = find_free_gap_retry_correct [OF wf al f]
  show ?thesis using eq f c by (auto simp: mmap_pick_gap_def split: if_splits)
qed

lemma mmap_pick_gap_rw:
  assumes wf: "table_wf g" and al: "align > 0" "fallback > 0" "len > 0"
    and lim: "MMAP_BASE \<le> mmap_limit g"
    and eq: "mmap_pick_gap hps addr len False align fallback g = (r, g')"
  shows "regions g' = regions g
    \<and> (r \<noteq> UINT64_MAX \<longrightarrow> placed g len ELF_DEFAULT_BASE align fallback r \<and> r + len \<le> mmap_next g')
    \<and> (r = UINT64_MAX \<longrightarrow> (\<forall>p. \<not> placed g len MMAP_BASE align fallback p))"
proof -
  let ?r0 = "mmap_hint_probe g addr len align fallback"
  obtain r1 g1 where f: "find_free_gap_retry hps len MMAP_BASE (mmap_limit g) align fallback g = (r1, g1)"
    by (rule prod.exhaust)
  note c = find_free_gap_retry_correct [OF wf al f]
  show ?thesis
  proof (cases "?r0 = UINT64_MAX")
    case True
    with eq f c placed_min [OF _ arena_order(2)] show ?thesis
      by (auto simp: mmap_pick_gap_def Let_def split: if_splits)
  next
    case False
    with eq mmap_hint_probe_correct [OF wf al lim refl False] show ?thesis
      by (auto simp: mmap_pick_gap_def Let_def split: if_splits)
  qed
qed

section \<open>Properties\<close>

definition example_guest :: guest where
  "example_guest =
     \<lparr>regions = [make_region 0x400000 0x402000 0x400000 1 5 2 0 (-1) False None,
                 make_region 0x402000 0x410000 0x402000 2 3 0x22 0 (-1) False (Some ''[heap]''),
                 make_region 0x500000 0x501000 0x500000 3 3 0x22 0 (-1) False None,
                 make_region 0x200000000 0x200004000 0x200000000 4 3 0x22 0 (-1) False None],
      next_vma_id = 4, regions_tracker_stale = False, dup_calls = 0, opened_fds = [], closed_fds = [],
      guest_size = 0x1000000000, ipa_base = 0, mmap_limit = 0x800000000, brk_base = 0x402000,
      brk_current = 0x410000, stack_base = 0x7800000, mmap_next = 0x200004000,
      mmap_rx_next = 0x10000000, mmap_rw_gap_hint = 0x200004000, mmap_rx_gap_hint = 0x10000000\<rparr>"

lemma example_guest_wf [simp]: "table_wf example_guest"
  by code_simp

text \<open>
  \<open>find_free_gap_inner\<close> is first fit: the address it returns is aligned, lies within the
  bounds with the whole length, overlaps no region, and no lower address has these properties;
  it fails only when there is no such address. No wrap-around of the 64-bit sums can break this.
\<close>

theorem find_free_gap_inner_first_fit:
  assumes "table_wf g" "align > 0" "len > 0"
    and "find_free_gap_inner g len min_addr max_addr align = r"
  shows "(r \<noteq> UINT64_MAX \<longrightarrow> placement (regions g) len min_addr max_addr align r)
    \<and> (\<forall>p. placement (regions g) len min_addr max_addr align p \<longrightarrow> r \<noteq> UINT64_MAX \<and> r \<le> p)"
  using find_free_gap_inner_lowest [OF assms(1-3), of min_addr max_addr] assms(4)
  by (simp add: lowest_def)

theorem find_free_gap_inner_first_fit_witness:
  "placement (regions example_guest) 0x2000 0x400800 0x600000 0x1000
     (find_free_gap_inner example_guest 0x2000 0x400800 0x600000 0x1000)
   \<and> find_free_gap_inner example_guest 0x2000 0x400800 0x600000 0x1000 = 0x410000"
proof -
  have r: "find_free_gap_inner example_guest 0x2000 0x400800 0x600000 0x1000 = 0x410000" by code_simp
  moreover have "(0x410000 :: u64) \<noteq> UINT64_MAX" by code_simp
  ultimately show ?thesis
    using find_free_gap_inner_first_fit [OF example_guest_wf _ _ r] by simp
qed

text \<open>
  C24. \<open>mmap_pick_gap\<close> never hands out an address range that overlaps a tracked region or leaves
  the address space: a result is aligned to the wanted or the fallback alignment, at or above
  the ELF base, below \<open>mmap_limit\<close> with the whole length, and the arena's high-water mark covers
  it afterwards. It fails only when the arena has no such range, whatever the allocation hints
  were.
\<close>

theorem mmap_pick_gap_sound_complete:
  assumes "table_wf g" "align > 0" "fallback > 0" "len > 0" "MMAP_BASE \<le> mmap_limit g"
    and "mmap_pick_gap hps addr len use_rx align fallback g = (r, g')"
  shows "regions g' = regions g
    \<and> (r \<noteq> UINT64_MAX \<longrightarrow> placed g len ELF_DEFAULT_BASE align fallback r
        \<and> r + len \<le> (if use_rx then mmap_rx_next g' else mmap_next g'))
    \<and> (r = UINT64_MAX \<longrightarrow>
        (\<forall>p. \<not> placed g len (if use_rx then MMAP_RX_BASE else MMAP_BASE) align fallback p))"
proof (cases use_rx)
  case True
  with assms(6) have "mmap_pick_gap hps addr len True align fallback g = (r, g')" by simp
  from mmap_pick_gap_rx [OF assms(1-4) this] placed_min [OF _ arena_order(1), of g len align fallback r]
  show ?thesis using True by auto
next
  case False
  with mmap_pick_gap_rw [OF assms(1-5)] assms(6) show ?thesis by auto
qed

theorem mmap_pick_gap_sound_complete_witness:
  "placed example_guest 0x3000 ELF_DEFAULT_BASE 0x200000 0x1000
     (fst (mmap_pick_gap 0x4000 0x410000 0x3000 False 0x200000 0x1000 example_guest))
   \<and> fst (mmap_pick_gap 0x4000 0x410000 0x3000 False 0x200000 0x1000 example_guest) = 0x410000"
proof -
  have r: "fst (mmap_pick_gap 0x4000 0x410000 0x3000 False 0x200000 0x1000 example_guest) = 0x410000"
    by code_simp
  moreover have "(0x410000 :: u64) \<noteq> UINT64_MAX" "MMAP_BASE \<le> mmap_limit example_guest" by code_simp+
  ultimately show ?thesis
    using mmap_pick_gap_sound_complete [OF example_guest_wf _ _ _ _ prod.collapse [symmetric],
        of "0x200000" "0x1000" "0x3000" "0x4000" "0x410000" False] by simp
qed

text \<open>
  C25. The limit computed for a growing program break: between the current break and the limit
  no address is mapped, the limit never passes the stack, and when it stays below the stack it
  is because a mapping begins there or already covers the break. The adjoining record, when one
  is named, is a plain heap piece that ends at the break.
\<close>

theorem brk_grow_limit_clear:
  assumes "table_wf g" "\<not> regions_tracker_stale g" "brk_grow_limit g from = (limit, adj)"
  shows "from \<le> limit \<and> limit \<le> max (stack_base g) from
    \<and> (\<forall>a. from \<le> a \<and> a < limit \<longrightarrow> view (regions g) a = None)
    \<and> (limit < stack_base g \<longrightarrow>
        (\<exists>r \<in> set (regions g). from < r_end r \<and> (r_start r \<le> from \<or> r_start r = limit))
        \<or> stack_base g \<le> from)
    \<and> (adj \<noteq> -1 \<longrightarrow> 0 \<le> adj \<and> nat adj < nregions g
        \<and> r_end (regions g ! nat adj) = from \<and> heap_piece_is_plain (regions g ! nat adj))"
  using brk_grow_limit_correct [OF assms] by blast

theorem brk_grow_limit_clear_witness:
  "brk_grow_limit example_guest 0x410000 = (0x500000, 1)
   \<and> view (regions example_guest) 0x4FFFFF = None \<and> heap_piece_is_plain (regions example_guest ! 1)"
proof -
  have r: "brk_grow_limit example_guest 0x410000 = (0x500000, 1)" by code_simp
  have "\<not> regions_tracker_stale example_guest" by code_simp
  from brk_grow_limit_clear [OF example_guest_wf this r] r show ?thesis by simp
qed

end
