(* ===== verification/Tlbi.thy ===== *)
theory Tlbi
  imports Prelude
begin

text \<open>
  The per-vCPU accumulator of TLB invalidations (\<^verbatim>\<open>tlbi_request_t\<close> of
  \<^verbatim>\<open>src/src/core/guest.h\<close>): page-table edits of a system call are collected with
  \<open>tlbi_request_range\<close>, encoded into X8 to X11 by \<open>tlbi_request_emit_to_vcpu\<close> and carried out
  by the EL1 shim (\<^verbatim>\<open>src/src/core/shim.S\<close>). The thread-local \<^verbatim>\<open>cpu_tlbi_req\<close> is passed
  explicitly, \<open>g_tlbi_range_supported\<close> is the argument \<open>supp\<close>, and \<^verbatim>\<open>hv_vcpu_set_reg\<close> updates
  a register function. What an invalidation instruction matches is the architecture's rule for
  its operand.
\<close>

section \<open>The accumulator\<close>

datatype tlbi_kind = TLBI_NONE | TLBI_BROADCAST | TLBI_RANGE | TLBI_RANGE_LARGE

record tlbi_request =
  req_kind :: tlbi_kind
  icache_flush :: bool
  req_pages :: u16
  req_start :: u64

definition TLBI_SELECTIVE_MAX_PAGES :: u64 where "TLBI_SELECTIVE_MAX_PAGES = 16"
definition TLBI_RVAE_MAX_PAGES :: u64 where "TLBI_RVAE_MAX_PAGES = 64"

definition tlbi_request_clear :: "tlbi_request \<Rightarrow> tlbi_request" where
  "tlbi_request_clear req = \<lparr>req_kind = TLBI_NONE, icache_flush = False, req_pages = 0, req_start = 0\<rparr>"

definition tlbi_request_broadcast :: "tlbi_request \<Rightarrow> tlbi_request" where
  "tlbi_request_broadcast req = req\<lparr>req_kind := TLBI_BROADCAST\<rparr>"

definition tlbi_request_is_broadcast :: "tlbi_request \<Rightarrow> bool" where
  "tlbi_request_is_broadcast req \<longleftrightarrow> req_kind req = TLBI_BROADCAST"

definition tlbi_request_mark_icache :: "tlbi_request \<Rightarrow> tlbi_request" where
  "tlbi_request_mark_icache req = req\<lparr>icache_flush := True\<rparr>"

definition tlbi_request_range :: "bool \<Rightarrow> u64 \<Rightarrow> u64 \<Rightarrow> tlbi_request \<Rightarrow> tlbi_request" where
  "tlbi_request_range supp st en req =
     (if req_kind req = TLBI_BROADCAST then req
      else if en \<le> st then req
      else if en > UINT64_MAX - 0xFFF then tlbi_request_broadcast req
      else
        let s = st AND NOT 0xFFF;
            e = (en + 0xFFF) AND NOT 0xFFF;
            n = drop_bit 12 (e - s);
            large_cap = (if supp then TLBI_RVAE_MAX_PAGES else TLBI_SELECTIVE_MAX_PAGES)
        in if n > large_cap then tlbi_request_broadcast req
           else if req_kind req = TLBI_NONE then
             req\<lparr>req_kind := (if n > TLBI_SELECTIVE_MAX_PAGES then TLBI_RANGE_LARGE else TLBI_RANGE),
                 req_start := s, req_pages := ucast n\<rparr>
           else
             let es = req_start req;
                 pe = ucast (req_pages req) * 4096
             in if es > UINT64_MAX - pe then tlbi_request_broadcast req
                else
                  let ee = es + pe;
                      us = (if s < es then s else es);
                      ue = (if e > ee then e else ee);
                      un = drop_bit 12 (ue - us)
                  in if un > large_cap then tlbi_request_broadcast req
                     else req\<lparr>req_start := us, req_pages := ucast un,
                             req_kind := (if un > TLBI_SELECTIVE_MAX_PAGES then TLBI_RANGE_LARGE
                                      else req_kind req)\<rparr>)"

section \<open>Emission and the shim\<close>

definition RVAE_OPERAND_BADDR_MASK :: u64 where
  "RVAE_OPERAND_BADDR_MASK = push_bit 37 1 - 1"

definition tlbi_rvae1is_operand :: "u64 \<Rightarrow> u16 \<Rightarrow> u64" where
  "tlbi_rvae1is_operand start_va npages =
     (let pages' = (if npages < 2 then 2 else npages);
          baddr = drop_bit 12 start_va AND RVAE_OPERAND_BADDR_MASK;
          num = (unat pages' + 1) div 2 - 1;
          num' = (if num > 31 then 31 else num)
      in baddr OR push_bit 39 (word_of_nat num') OR push_bit 46 1)"

datatype hv_reg = HV_REG_X8 | HV_REG_X9 | HV_REG_X10 | HV_REG_X11

type_synonym hv_regs = "hv_reg \<Rightarrow> u64"

definition tlbi_request_emit_to_vcpu :: "hv_regs \<Rightarrow> tlbi_request \<Rightarrow> hv_regs \<times> tlbi_request" where
  "tlbi_request_emit_to_vcpu regs req =
     (let ic = (if icache_flush req then 1 else 0) in
      (case req_kind req of
         TLBI_BROADCAST \<Rightarrow> regs(HV_REG_X8 := 1, HV_REG_X11 := ic)
       | TLBI_RANGE \<Rightarrow> regs(HV_REG_X8 := 3, HV_REG_X9 := req_start req,
                           HV_REG_X10 := ucast (req_pages req), HV_REG_X11 := ic)
       | TLBI_RANGE_LARGE \<Rightarrow> regs(HV_REG_X8 := 4,
                           HV_REG_X9 := tlbi_rvae1is_operand (req_start req) (req_pages req),
                           HV_REG_X11 := ic)
       | TLBI_NONE \<Rightarrow> regs(HV_REG_X8 := 0),
       tlbi_request_clear req))"

text \<open>The maintenance instructions the shim issues, in order.\<close>

datatype maintenance = VMALLE1IS | VAE1IS u64 | RVAE1IS u64 | IC_IALLU

definition ic_hint :: "u64 \<Rightarrow> maintenance list" where
  "ic_hint x11 = (if x11 = 0 then [] else [IC_IALLU])"

fun vae_loop :: "nat \<Rightarrow> u64 \<Rightarrow> maintenance list" where
  "vae_loop 0 x11 = []"
| "vae_loop (Suc n) x11 = VAE1IS x11 # vae_loop n (x11 + 1)"

definition shim_tlbi_dispatch :: "hv_regs \<Rightarrow> maintenance list" where
  "shim_tlbi_dispatch regs =
     (let x8 = regs HV_REG_X8; x9 = regs HV_REG_X9; x10 = regs HV_REG_X10; x11 = regs HV_REG_X11 in
      if x8 = 0 then []
      else if x8 = 1 then VMALLE1IS # ic_hint x11
      else if x8 = 3 then
        (if x10 = 0 then [] else vae_loop (unat x10) (drop_bit 12 x9 AND mask 44) @ ic_hint x11)
      else if x8 = 4 then RVAE1IS x9 # ic_hint x11
      else [VMALLE1IS, IC_IALLU])"

text \<open>
  Whether an instruction invalidates the entry of a 4 KiB page, given as VA[63:12]: VAE1IS
  compares VA[55:12], RVAE1IS covers \<open>(NUM + 1) * 2 ^ (5 * SCALE + 1)\<close> pages from its
  base address, provided the granule field selects 4 KiB.
\<close>

fun invalidates :: "maintenance \<Rightarrow> u64 \<Rightarrow> bool" where
  "invalidates VMALLE1IS vpn = True"
| "invalidates (VAE1IS op) vpn = (op AND mask 44 = vpn AND mask 44)"
| "invalidates (RVAE1IS op) vpn =
     (drop_bit 46 op AND 3 = 1 \<and>
      (let base = op AND mask 37; num = drop_bit 39 op AND 31; scale = unat (drop_bit 44 op AND 3)
       in base \<le> vpn \<and> unat vpn < unat base + (unat num + 1) * 2 ^ (5 * scale + 1)))"
| "invalidates IC_IALLU vpn = False"

section \<open>Accumulation covers what was asked for\<close>

text \<open>Pages are counted from zero: the page number of an address is its value over 4096.\<close>

definition covered :: "tlbi_request \<Rightarrow> nat \<Rightarrow> bool" where
  "covered req p \<longleftrightarrow> req_kind req = TLBI_BROADCAST
     \<or> req_kind req \<noteq> TLBI_NONE \<and> unat (req_start req) div 4096 \<le> p \<and> p < unat (req_start req) div 4096 + unat (req_pages req)"

definition tlbi_wf :: "tlbi_request \<Rightarrow> bool" where
  "tlbi_wf req \<longleftrightarrow>
     (req_kind req = TLBI_RANGE \<longrightarrow> req_pages req > 0 \<and> unat (req_pages req) \<le> 16)
     \<and> (req_kind req = TLBI_RANGE_LARGE \<longrightarrow> 16 < unat (req_pages req) \<and> unat (req_pages req) \<le> 64)
     \<and> (req_kind req \<noteq> TLBI_NONE \<and> req_kind req \<noteq> TLBI_BROADCAST \<longrightarrow>
         4096 dvd unat (req_start req) \<and> unat (req_start req) + unat (req_pages req) * 4096 < 2 ^ 64)"

lemma page_span:
  assumes "st < en" "en \<le> UINT64_MAX - 0xFFF"
  defines "s \<equiv> st AND NOT 0xFFF" and "e \<equiv> (en + 0xFFF) AND NOT 0xFFF"
  defines "S \<equiv> unat st div 4096" and "E \<equiv> (unat en + 4095) div 4096"
  shows "unat s = S * 4096" "unat e = E * 4096" "S < E" "E * 4096 < 2 ^ 64"
proof -
  show "unat s = S * 4096"
    unfolding s_def S_def mask_12 by (simp add: and_not_mask_unat)
  have f: "unat (0xFFF :: u64) = 4095" by simp
  have nw: "unat en + 4095 < 2 ^ 64"
    using assms(2) add_no_wrap_le [of en "0xFFF", unfolded f] by (simp only: add.commute)
  then have "unat (en + 0xFFF) = unat en + 4095" using f by (simp add: unat_add_u64)
  then show e: "unat e = E * 4096"
    unfolding e_def E_def mask_12 by (simp add: and_not_mask_unat)
  show "S < E" using assms(1) by (simp add: S_def E_def word_less_nat_alt)
  show "E * 4096 < 2 ^ 64" using u64_unat_less [of e] e by simp
qed

lemma page_count:
  assumes "unat s = S * 4096" "unat e = E * 4096" "S \<le> E"
  shows "unat (drop_bit 12 (e - s) :: u64) = E - S"
proof -
  have "s \<le> e" using assms by (simp add: word_le_nat_alt)
  then have "unat (e - s) = (E - S) * 4096" using assms by (simp add: unat_sub diff_mult_distrib)
  then show ?thesis by (simp add: unat_shift_right)
qed

lemma unat_ucast_small: "unat (w :: u64) < 2 ^ 16 \<Longrightarrow> unat (ucast w :: u16) = unat w"
  by (simp add: unsigned_ucast_eq take_bit_nat_eq_self)

lemma unat_ucast_up: "unat (ucast (w :: u16) :: u64) = unat w"
  using unsigned_less [of w, where ?'a = nat] by (simp add: unsigned_ucast_eq take_bit_nat_eq_self)

lemma broadcast_covers [simp]:
  "tlbi_wf (tlbi_request_broadcast req)" "covered (tlbi_request_broadcast req) p"
  by (simp_all add: tlbi_request_broadcast_def tlbi_wf_def covered_def)

text \<open>A range of pages as the accumulator holds it.\<close>

definition holds_range :: "tlbi_request \<Rightarrow> nat \<Rightarrow> nat \<Rightarrow> bool" where
  "holds_range req A B \<longleftrightarrow> A < B \<and> B * 4096 < 2 ^ 64 \<and> unat (req_start req) = A * 4096
     \<and> unat (req_pages req) = B - A
     \<and> (req_kind req = TLBI_RANGE \<and> B - A \<le> 16 \<or> req_kind req = TLBI_RANGE_LARGE \<and> 16 < B - A \<and> B - A \<le> 64)"

lemma holds_range_wf: "holds_range req A B \<Longrightarrow> tlbi_wf req"
  by (auto simp: holds_range_def tlbi_wf_def word_less_nat_alt diff_mult_distrib)

lemma holds_range_covered: "holds_range req A B \<Longrightarrow> covered req p \<longleftrightarrow> A \<le> p \<and> p < B"
  by (auto simp: holds_range_def covered_def)

lemma tlbi_wf_cases:
  assumes "tlbi_wf req"
  obtains (none) "req_kind req = TLBI_NONE" | (broadcast) "req_kind req = TLBI_BROADCAST"
  | (range) A B where "holds_range req A B"
proof (cases "req_kind req = TLBI_NONE \<or> req_kind req = TLBI_BROADCAST")
  case True
  then show ?thesis using that by blast
next
  case False
  define A where "A = unat (req_start req) div 4096"
  have st: "unat (req_start req) = A * 4096" "A * 4096 + unat (req_pages req) * 4096 < 2 ^ 64"
    using assms False by (auto simp: tlbi_wf_def A_def)
  then have "(A + unat (req_pages req)) * 4096 < 2 ^ 64" by (simp add: distrib_right)
  moreover have "unat (req_pages req) > 0" "req_kind req = TLBI_RANGE \<and> unat (req_pages req) \<le> 16
      \<or> req_kind req = TLBI_RANGE_LARGE \<and> 16 < unat (req_pages req) \<and> unat (req_pages req) \<le> 64"
    using assms False by (cases "req_kind req"; auto simp: tlbi_wf_def word_less_nat_alt)+
  ultimately have "holds_range req A (A + unat (req_pages req))"
    using st(1) by (simp add: holds_range_def)
  then show ?thesis by (rule that(3))
qed

definition tlbi_cap :: "bool \<Rightarrow> nat" where
  "tlbi_cap supp = (if supp then 64 else 16)"

lemma tlbi_request_range_fresh:
  assumes k: "req_kind req = TLBI_NONE" and "st < en" "en \<le> UINT64_MAX - 0xFFF"
  defines "S \<equiv> unat st div 4096" and "E \<equiv> (unat en + 4095) div 4096"
  shows "if E - S > tlbi_cap supp
    then tlbi_request_range supp st en req = tlbi_request_broadcast req
    else holds_range (tlbi_request_range supp st en req) S E"
proof -
  define s where "s = st AND NOT 0xFFF"
  define e where "e = (en + 0xFFF) AND NOT 0xFFF"
  note sp = page_span [OF assms(2,3), folded s_def e_def S_def E_def]
  define n where "n = drop_bit 12 (e - s)"
  have n: "unat n = E - S" using page_count sp by (simp add: n_def)
  have cap: "(if supp then TLBI_RVAE_MAX_PAGES else TLBI_SELECTIVE_MAX_PAGES) < n \<longleftrightarrow> tlbi_cap supp < E - S"
    by (simp add: tlbi_cap_def word_less_nat_alt n TLBI_RVAE_MAX_PAGES_def TLBI_SELECTIVE_MAX_PAGES_def)
  have "tlbi_request_range supp st en req =
      (if tlbi_cap supp < E - S then tlbi_request_broadcast req
       else req\<lparr>req_kind := (if n > TLBI_SELECTIVE_MAX_PAGES then TLBI_RANGE_LARGE else TLBI_RANGE),
                 req_start := s, req_pages := ucast n\<rparr>)"
    unfolding tlbi_request_range_def Let_def s_def [symmetric] e_def [symmetric] n_def [symmetric] cap
    using assms(2,3) k by simp
  moreover have "unat (ucast n :: u16) = E - S" if "E - S \<le> 64"
    using unat_ucast_small [of n] n that by simp
  ultimately show ?thesis
    using sp n by (auto simp: holds_range_def tlbi_cap_def word_less_nat_alt
        TLBI_SELECTIVE_MAX_PAGES_def split: if_splits)
qed

lemma tlbi_request_range_merge:
  assumes h: "holds_range req A B" and "st < en" "en \<le> UINT64_MAX - 0xFFF"
  defines "S \<equiv> unat st div 4096" and "E \<equiv> (unat en + 4095) div 4096"
  shows "tlbi_request_range supp st en req = tlbi_request_broadcast req
    \<or> holds_range (tlbi_request_range supp st en req) (min S A) (max E B)"
proof -
  define s where "s = st AND NOT 0xFFF"
  define e where "e = (en + 0xFFF) AND NOT 0xFFF"
  note sp = page_span [OF assms(2,3), folded s_def e_def S_def E_def]
  define n where "n = drop_bit 12 (e - s)"
  define pe :: u64 where "pe = ucast (req_pages req) * 4096"
  have AB: "A < B" "B * 4096 < 2 ^ 64" "unat (req_start req) = A * 4096" "unat (req_pages req) = B - A" "B - A \<le> 64"
    using h by (auto simp: holds_range_def)
  have pe: "unat pe = (B - A) * 4096"
    using AB by (simp add: pe_def unat_word_ariths unat_ucast_up)
  have fits: "\<not> req_start req > UINT64_MAX - pe"
    using add_no_wrap_le [of "req_start req" pe] AB pe by (simp add: not_less diff_mult_distrib)
  have ee: "unat (req_start req + pe) = B * 4096"
    using AB pe by (simp add: unat_add_u64 diff_mult_distrib)
  define us where "us = (if s < req_start req then s else req_start req)"
  define ue where "ue = (if e > req_start req + pe then e else req_start req + pe)"
  have us: "unat us = min S A * 4096" using sp AB by (auto simp: us_def word_less_nat_alt min_def)
  have ue: "unat ue = max E B * 4096" using sp ee by (auto simp: ue_def word_less_nat_alt max_def)
  define un where "un = drop_bit 12 (ue - us)"
  have un: "unat un = max E B - min S A"
    using page_count [OF us ue] AB(1) by (simp add: un_def)
  define cap where "cap = (if supp then TLBI_RVAE_MAX_PAGES else TLBI_SELECTIVE_MAX_PAGES)"
  have cap: "unat cap \<le> 64"
    by (simp add: cap_def TLBI_RVAE_MAX_PAGES_def TLBI_SELECTIVE_MAX_PAGES_def)
  have k: "req_kind req \<noteq> TLBI_BROADCAST" "req_kind req \<noteq> TLBI_NONE" using h by (auto simp: holds_range_def)
  have eq: "tlbi_request_range supp st en req =
      (if n > cap \<or> un > cap then tlbi_request_broadcast req
       else req\<lparr>req_start := us, req_pages := ucast un,
               req_kind := (if un > TLBI_SELECTIVE_MAX_PAGES then TLBI_RANGE_LARGE else req_kind req)\<rparr>)"
    unfolding tlbi_request_range_def Let_def s_def [symmetric] e_def [symmetric] n_def [symmetric]
      pe_def [symmetric] us_def [symmetric] ue_def [symmetric] un_def [symmetric] cap_def [symmetric]
    using assms(2,3) k fits by simp
  show ?thesis
  proof (cases "n > cap \<or> un > cap")
    case False
    define N where "N = max E B - min S A"
    have N: "N \<le> 64" "B - A \<le> N" "min S A < max E B"
      using False cap un AB(1) by (auto simp: word_less_nat_alt N_def)
    have top: "max E B * 4096 < 2 ^ 64" using sp(4) AB(2) by (simp add: max_def)
    have pg: "unat (ucast un :: u16) = N" using unat_ucast_small [of un] un N(1) by (simp add: N_def)
    have big: "un > TLBI_SELECTIVE_MAX_PAGES \<longleftrightarrow> 16 < N"
      by (simp add: word_less_nat_alt un N_def TLBI_SELECTIVE_MAX_PAGES_def)
    have small: "req_kind req = TLBI_RANGE" if "N \<le> 16" using h N(2) that by (auto simp: holds_range_def)
    have "holds_range (req\<lparr>req_start := us, req_pages := ucast un,
        req_kind := (if un > TLBI_SELECTIVE_MAX_PAGES then TLBI_RANGE_LARGE else req_kind req)\<rparr>) (min S A) (max E B)"
      unfolding holds_range_def N_def [symmetric] using N top pg us small by (simp add: big)
    with False eq show ?thesis by simp
  qed (use eq in simp)
qed

lemma page_in_span:
  assumes "st \<le> a" "a < en"
  shows "unat st div 4096 \<le> unat a div 4096" "unat a div 4096 < (unat (en :: u64) + 4095) div 4096"
proof -
  show "unat st div 4096 \<le> unat a div 4096"
    using assms(1) unfolding word_le_nat_alt by (rule div_le_mono)
  have "unat a + 4096 \<le> unat en + 4095" using assms(2) by (simp add: word_less_nat_alt)
  then have "(unat a + 4096) div 4096 \<le> (unat en + 4095) div 4096" by (rule div_le_mono)
  then show "unat a div 4096 < (unat en + 4095) div 4096" by simp
qed

lemma tlbi_request_range_correct:
  assumes wf: "tlbi_wf req"
  shows "tlbi_wf (tlbi_request_range supp st en req)"
    and "covered req p \<Longrightarrow> covered (tlbi_request_range supp st en req) p"
    and "st \<le> a \<Longrightarrow> a < en \<Longrightarrow> covered (tlbi_request_range supp st en req) (unat a div 4096)"
proof -
  let ?r = "tlbi_request_range supp st en req"
  have "tlbi_wf ?r \<and> (covered req p \<longrightarrow> covered ?r p) \<and> (st \<le> a \<and> a < en \<longrightarrow> covered ?r (unat a div 4096))"
  proof (cases "req_kind req = TLBI_BROADCAST \<or> en \<le> st")
    case True
    then show ?thesis using wf by (auto simp: tlbi_request_range_def covered_def)
  next
    case live: False
    show ?thesis
    proof (cases "en \<le> UINT64_MAX - 0xFFF")
      case False
      with live have "?r = tlbi_request_broadcast req" by (auto simp: tlbi_request_range_def)
      then show ?thesis by simp
    next
      case True
      have lt: "st < en" using live by auto
      have inside: "st \<le> a \<and> a < en \<Longrightarrow> unat st div 4096 \<le> unat a div 4096
          \<and> unat a div 4096 < (unat en + 4095) div 4096" using page_in_span by blast
      from wf show ?thesis
      proof (cases rule: tlbi_wf_cases)
        case none
        then have "\<not> covered req p" by (simp add: covered_def)
        then show ?thesis
          using tlbi_request_range_fresh [OF none lt True, of supp] inside
          by (auto simp: holds_range_wf holds_range_covered split: if_splits)
      next
        case (range A B)
        then show ?thesis
          using tlbi_request_range_merge [OF range lt True, of supp] inside
          by (auto simp: holds_range_wf holds_range_covered min_le_iff_disj less_max_iff_disj)
      qed (use live in simp)
    qed
  qed
  then show "tlbi_wf ?r" "covered req p \<Longrightarrow> covered ?r p"
    "st \<le> a \<Longrightarrow> a < en \<Longrightarrow> covered ?r (unat a div 4096)" by blast+
qed

section \<open>The shim carries it out\<close>

lemma vae_loop_mem: "i < n \<Longrightarrow> VAE1IS (x + word_of_nat i) \<in> set (vae_loop n x)"
proof (induction n x arbitrary: i rule: vae_loop.induct)
  case (2 n x)
  show ?case
  proof (cases i)
    case (Suc j)
    then have "VAE1IS (x + 1 + word_of_nat j) \<in> set (vae_loop n (x + 1))" using 2 by simp
    with Suc show ?thesis by (simp add: add.assoc)
  qed simp
qed simp

lemma bit_below: "take_bit k (b :: u64) = b \<Longrightarrow> bit b n \<Longrightarrow> n < k"
  by (metis bit_take_bit_iff)

lemma rvae_fields:
  assumes "take_bit 37 (b :: u64) = b" "take_bit 5 (m :: u64) = m" "take_bit 2 (t :: u64) = t"
  defines "op \<equiv> b OR push_bit 39 m OR push_bit 46 t"
  shows "op AND mask 37 = b" "drop_bit 39 op AND mask 5 = m" "drop_bit 44 op AND mask 2 = 0"
    "drop_bit 46 op AND mask 2 = t"
proof -
  note below = bit_below [OF assms(1)] bit_below [OF assms(2)] bit_below [OF assms(3)]
  show "op AND mask 37 = b" "drop_bit 39 op AND mask 5 = m" "drop_bit 44 op AND mask 2 = 0"
    "drop_bit 46 op AND mask 2 = t"
    unfolding op_def by (rule bit_word_eqI; auto simp: bit_simps dest: below)+
qed

lemma take_bit_small: "unat (w :: u64) < 2 ^ k \<Longrightarrow> take_bit k w = w"
  by (simp add: word_unat_eq_iff unsigned_take_bit_eq take_bit_nat_eq_self)

lemma rvae_operand_range:
  assumes "unat st < 2 ^ 49" "unat n \<le> 64"
    and "unat st div 4096 \<le> p" "p < unat st div 4096 + unat n" "unat vpn = p"
  shows "invalidates (RVAE1IS (tlbi_rvae1is_operand st n)) vpn"
proof -
  define n' where "n' = (if n < 2 then 2 else n)"
  define num where "num = (let k = (unat n' + 1) div 2 - 1 in if k > 31 then 31 else k)"
  define b where "b = drop_bit 12 st AND mask 37"
  have st: "unat (drop_bit 12 st) = unat st div 4096" by (simp add: unat_shift_right)
  then have b: "unat b = unat st div 4096"
    using assms(1) by (simp add: b_def and_mask_unat)
  have n': "unat n \<le> unat n'" "2 \<le> unat n'" "unat n' \<le> 64"
    using assms(2) by (auto simp: n'_def word_less_nat_alt)
  have num: "num \<le> 31" "unat n' \<le> (num + 1) * 2" using n' by (auto simp: num_def Let_def)
  have w: "unat (word_of_nat num :: u64) = num" using num by (simp add: unat_of_nat)
  have op: "tlbi_rvae1is_operand st n = b OR push_bit 39 (word_of_nat num) OR push_bit 46 1"
    by (simp only: tlbi_rvae1is_operand_def Let_def n'_def b_def num_def RVAE_OPERAND_BADDR_MASK_def
          mask_eq_exp_minus_1 push_bit_of_1)
  note f = rvae_fields [of b "word_of_nat num" 1, folded op]
  have "take_bit 37 b = b" "take_bit 5 (word_of_nat num :: u64) = word_of_nat num" "take_bit 2 (1 :: u64) = 1"
    using b w num assms(1) by (auto intro!: take_bit_small)
  from f [OF this] have fields: "tlbi_rvae1is_operand st n AND mask 37 = b"
    "drop_bit 39 (tlbi_rvae1is_operand st n) AND 31 = word_of_nat num"
    "drop_bit 44 (tlbi_rvae1is_operand st n) AND 3 = 0"
    "drop_bit 46 (tlbi_rvae1is_operand st n) AND 3 = 1"
    by (simp_all add: mask_eq_exp_minus_1)
  show ?thesis
    unfolding invalidates.simps fields Let_def using b w num n' assms
    by (simp add: word_le_nat_alt)
qed

lemma vae_loop_range:
  assumes "unat st < 2 ^ 48" "unat st = A * 4096" "A \<le> p" "p < A + n" "unat vpn = p" "p < 2 ^ 36"
  shows "\<exists>op \<in> set (vae_loop n (drop_bit 12 st AND mask 44)). invalidates op vpn"
proof -
  define x where "x = drop_bit 12 st AND mask 44"
  have x: "unat x = A" using assms(1,2) by (simp add: x_def and_mask_unat unat_shift_right)
  have "unat (word_of_nat (p - A) :: u64) = p - A" using assms(6) by (simp add: unat_of_nat del: of_nat_diff)
  then have "unat (x + word_of_nat (p - A)) = p"
    using x assms(3,6) by (simp add: unat_add_u64 del: of_nat_diff)
  with assms(5) have "x + word_of_nat (p - A) = vpn" by (simp add: word_unat_eq_iff)
  moreover have "VAE1IS (x + word_of_nat (p - A)) \<in> set (vae_loop n x)"
    using assms(3,4) by (intro vae_loop_mem) simp
  ultimately show ?thesis unfolding x_def [symmetric] by (intro bexI [of _ "VAE1IS vpn"]) auto
qed

lemma shim_carries_out:
  assumes wf: "tlbi_wf req" and cov: "covered req (unat a div 4096)" and va: "a < 2 ^ 48"
  shows "\<exists>op \<in> set (shim_tlbi_dispatch (fst (tlbi_request_emit_to_vcpu regs req))).
    invalidates op (drop_bit 12 a)"
proof -
  let ?p = "unat a div 4096" and ?v = "drop_bit 12 a"
  have v: "unat ?v = ?p" by (simp add: unat_shift_right)
  have p: "?p < 2 ^ 36" using va by (simp add: word_less_nat_alt)
  from wf show ?thesis
  proof (cases rule: tlbi_wf_cases)
    case none
    with cov show ?thesis by (simp add: covered_def)
  next
    case broadcast
    then show ?thesis
      by (simp add: tlbi_request_emit_to_vcpu_def shim_tlbi_dispatch_def Let_def)
  next
    case (range A B)
    have pr: "A \<le> ?p" "?p < B" using cov range by (simp_all add: holds_range_covered)
    have st: "unat (req_start req) = A * 4096" "unat (req_pages req) = B - A" "B - A \<le> 64" "0 < B - A"
      using range by (auto simp: holds_range_def)
    have lo: "unat (req_start req) < 2 ^ 48" using st pr p by simp
    have big: "unat (req_start req) < 2 ^ 49" "unat (req_start req) div 4096 = A" using lo st by simp_all
    have k: "req_kind req = TLBI_RANGE \<or> req_kind req = TLBI_RANGE_LARGE" using range by (auto simp: holds_range_def)
    have "req_pages req \<noteq> 0" using st(2,4) by auto
    then have nz: "(ucast (req_pages req) :: u64) \<noteq> 0" using unat_ucast_up [of "req_pages req"] by (metis unat_eq_zero)
    have "invalidates (RVAE1IS (tlbi_rvae1is_operand (req_start req) (req_pages req))) ?v"
      by (rule rvae_operand_range [OF big(1) _ _ _ v]) (use st big pr in simp_all)
    moreover have "\<exists>op \<in> set (vae_loop (B - A) (drop_bit 12 (req_start req) AND mask 44)). invalidates op ?v"
      by (rule vae_loop_range [OF lo st(1) pr(1) _ v p]) (use pr in simp)
    ultimately show ?thesis
      using k nz st(2)
      by (auto simp: tlbi_request_emit_to_vcpu_def shim_tlbi_dispatch_def Let_def unat_ucast_up)
  qed
qed

section \<open>Properties\<close>

text \<open>
  C9. However many ranges a system call asks to invalidate, in whatever order and with or
  without FEAT_TLBIRANGE, the instructions the shim executes for the emitted registers
  invalidate the entry of every page of every range (of the 48-bit user address space), and the
  accumulator is clear afterwards.
\<close>

theorem tlbi_requests_carried_out:
  assumes "(s, e) \<in> set ranges" "s \<le> a" "a < e" "a < 2 ^ 48"
    and "fold (\<lambda>(s, e). tlbi_request_range supp s e) ranges (tlbi_request_clear req) = req'"
  shows "(\<exists>op \<in> set (shim_tlbi_dispatch (fst (tlbi_request_emit_to_vcpu regs req'))).
      invalidates op (drop_bit 12 a))
    \<and> req_kind (snd (tlbi_request_emit_to_vcpu regs req')) = TLBI_NONE"
proof -
  let ?f = "fold (\<lambda>(s, e). tlbi_request_range supp s e)"
  have acc: "tlbi_wf (?f rs r) \<and> (\<forall>p. covered r p \<longrightarrow> covered (?f rs r) p)
      \<and> (\<forall>(s, e) \<in> set rs. \<forall>a. s \<le> a \<and> a < e \<longrightarrow> covered (?f rs r) (unat a div 4096))"
    if "tlbi_wf r" for rs r
    using that
  proof (induction rs arbitrary: r)
    case (Cons x rs)
    obtain s e where x: "x = (s, e)" by (rule prod.exhaust)
    note c = tlbi_request_range_correct [OF Cons.prems, where supp = supp and st = s and en = e]
    from Cons.IH [OF c(1)] c(2,3) show ?case by (auto simp: x)
  qed simp
  have "tlbi_wf (tlbi_request_clear req)" by (simp add: tlbi_wf_def tlbi_request_clear_def)
  from acc [OF this, of ranges] assms have "tlbi_wf req'" "covered req' (unat a div 4096)" by auto
  from shim_carries_out [OF this assms(4), of regs] show ?thesis
    by (simp add: tlbi_request_emit_to_vcpu_def tlbi_request_clear_def)
qed

theorem tlbi_requests_carried_out_witness:
  "(\<exists>op \<in> set (shim_tlbi_dispatch (fst (tlbi_request_emit_to_vcpu (\<lambda>_. 0)
      (tlbi_request_range True 0x20000 0x21000 (tlbi_request_range True 0x5800 0x6001
        (tlbi_request_clear \<lparr>req_kind = TLBI_BROADCAST, icache_flush = True, req_pages = 3, req_start = 7\<rparr>)))))).
      invalidates op (drop_bit 12 0x6000))"
  using tlbi_requests_carried_out [of "0x5800" "0x6001" "[(0x5800, 0x6001), (0x20000, 0x21000)]" "0x6000"
      True "\<lparr>req_kind = TLBI_BROADCAST, icache_flush = True, req_pages = 3, req_start = 7\<rparr>", OF _ _ _ _ refl, of "\<lambda>_. 0"]
  by simp

end
