(* ===== verification/Page_Tables.thy ===== *)
theory Page_Tables
  imports Gap_Finder Tlbi "HOL-Library.Monad_Syntax"
begin

text \<open>
  The stage-1 page tables of \<^verbatim>\<open>src/src/core/guest.c\<close>: descriptors, the table pool, the
  L0 to L3 walk, splitting of 2 MiB blocks, and the operations behind mmap, mprotect, munmap and
  lazy materialisation. Tables are pages of the guest slab and every access is
  \<^verbatim>\<open>pt_at(gpa)[idx]\<close> with a page-aligned \<open>gpa\<close>, so the slab is seen as a function from
  table offset and index to descriptor. A pointer to an L2 entry is the pair of its table and index.

  An outer \<open>None\<close> is the \<^verbatim>\<open>abort()\<close> of \<open>pt_at\<close> or a loop that does not end; the inner results
  are the C return values. Loops that step a 64-bit address are \<^verbatim>\<open>partial_function\<close>s because the
  address may wrap; that they return is proved for the address ranges the callers use.
\<close>

section \<open>State\<close>

text \<open>
  \<open>host_live\<close> holds the host buffers (address, size) obtained from \<^verbatim>\<open>mmap\<close> for extra
  mappings and overflow segments and not yet returned; \<open>stage2\<close> the (IPA, size) pairs entered with
  \<^verbatim>\<open>hv_vm_map\<close> for them and not yet removed.
\<close>

record guest_mapping =
  m_gpa :: u64
  m_size :: u64
  m_host_va :: u64
  m_hv_perms :: u32
  m_owns_host :: bool

record guest_overflow =
  ipa_start :: u64
  o_size :: u64
  o_host_base :: u64
  o_next :: u64

record pt_guest = guest +
  host_base :: u64
  pt_pool_base :: u64
  pt_pool_end :: u64
  pt_pool_next :: u64
  ttbr0 :: u64
  mappings :: "guest_mapping list"
  overflow :: "guest_overflow list"
  overflow_ipa_next :: u64
  pt_gen :: u64
  pte :: "u64 \<Rightarrow> nat \<Rightarrow> u64"
  tlbi_req :: tlbi_request
  tlbi_range_supported :: bool
  host_live :: "(u64 \<times> u64) list"
  stage2 :: "(u64 \<times> u64) list"

definition PAGE_SIZE :: u64 where "PAGE_SIZE = 4096"
definition BLOCK_2MIB :: u64 where "BLOCK_2MIB = 0x200000"
definition BLOCK_1GIB :: u64 where "BLOCK_1GIB = 0x40000000"
definition L2_BLOCK_ADDR_MASK :: u64 where "L2_BLOCK_ADDR_MASK = 0xFFFFFFE00000"

definition ALIGN_2MIB_DOWN :: "u64 \<Rightarrow> u64" where "ALIGN_2MIB_DOWN x = ALIGN_DOWN x BLOCK_2MIB"
definition ALIGN_2MIB_UP :: "u64 \<Rightarrow> u64" where "ALIGN_2MIB_UP x = ALIGN_UP x BLOCK_2MIB"

definition MEM_PERM_R :: u32 where "MEM_PERM_R = 1"
definition MEM_PERM_W :: u32 where "MEM_PERM_W = 2"
definition MEM_PERM_X :: u32 where "MEM_PERM_X = 4"
definition MEM_PERM_EL1_ONLY :: u32 where "MEM_PERM_EL1_ONLY = 8"

section \<open>Descriptors\<close>

definition PT_VALID :: u64 where "PT_VALID = 1"
definition PT_TABLE :: u64 where "PT_TABLE = 2"
definition PT_BLOCK :: u64 where "PT_BLOCK = 1"
definition PT_ATTR1 :: u64 where "PT_ATTR1 = 0x4"
definition PT_NS :: u64 where "PT_NS = 0x20"
definition PT_AP_RW_EL1 :: u64 where "PT_AP_RW_EL1 = 0"
definition PT_AP_RW_EL0 :: u64 where "PT_AP_RW_EL0 = 0x40"
definition PT_AP_RO :: u64 where "PT_AP_RO = 0xC0"
definition PT_SH_ISH :: u64 where "PT_SH_ISH = 0x300"
definition PT_AF :: u64 where "PT_AF = 0x400"
definition PT_PXN :: u64 where "PT_PXN = 0x20000000000000"
definition PT_UXN :: u64 where "PT_UXN = 0x40000000000000"
definition PT_L3_PAGE :: u64 where "PT_L3_PAGE = 3"

lemmas pt_bits = PT_VALID_def PT_TABLE_def PT_BLOCK_def PT_ATTR1_def PT_NS_def PT_AP_RW_EL1_def
  PT_AP_RW_EL0_def PT_AP_RO_def PT_SH_ISH_def PT_AF_def PT_PXN_def PT_UXN_def PT_L3_PAGE_def

lemmas mem_perms = MEM_PERM_R_def MEM_PERM_W_def MEM_PERM_X_def MEM_PERM_EL1_ONLY_def

definition make_block_desc :: "u64 \<Rightarrow> u32 \<Rightarrow> u64" where
  "make_block_desc gpa perms =
     (let desc = (gpa AND L2_BLOCK_ADDR_MASK) OR PT_AF OR PT_SH_ISH OR PT_NS OR PT_ATTR1 OR PT_BLOCK;
          desc = (if perms AND MEM_PERM_X = 0 then desc OR (PT_UXN OR PT_PXN) else desc)
      in if perms AND MEM_PERM_EL1_ONLY \<noteq> 0 then (desc OR PT_AP_RW_EL1) OR (PT_UXN OR PT_PXN)
         else if perms AND MEM_PERM_W \<noteq> 0 then desc OR PT_AP_RW_EL0
         else desc OR PT_AP_RO)"

definition make_page_desc :: "u64 \<Rightarrow> u32 \<Rightarrow> u64" where
  "make_page_desc pa perms =
     (let desc = (pa AND 0xFFFFFFFFF000) OR PT_AF OR PT_SH_ISH OR PT_NS OR PT_ATTR1 OR PT_L3_PAGE;
          desc = (if perms AND MEM_PERM_X = 0 then desc OR (PT_UXN OR PT_PXN) else desc)
      in if perms AND MEM_PERM_EL1_ONLY \<noteq> 0 then (desc OR PT_AP_RW_EL1) OR (PT_UXN OR PT_PXN)
         else if perms AND MEM_PERM_W \<noteq> 0 then desc OR PT_AP_RW_EL0
         else desc OR PT_AP_RO)"

definition desc_to_perms :: "u64 \<Rightarrow> u32" where
  "desc_to_perms desc =
     (let perms = (if desc AND PT_UXN = 0 then MEM_PERM_R OR MEM_PERM_X else MEM_PERM_R);
          ap = desc AND 0xC0
      in if ap = PT_AP_RW_EL0 then perms OR MEM_PERM_W
         else if ap = PT_AP_RW_EL1 then perms OR (MEM_PERM_W OR MEM_PERM_EL1_ONLY)
         else perms)"

section \<open>Pool, tables and generation\<close>

definition pt_at :: "'a pt_guest_scheme \<Rightarrow> u64 \<Rightarrow> u64 option" where
  "pt_at g gpa =
     (if guest_size g < GVA_PT_TABLE_BYTES \<or> gpa > guest_size g - GVA_PT_TABLE_BYTES then None
      else Some gpa)"

definition pte_store_release :: "u64 \<Rightarrow> nat \<Rightarrow> u64 \<Rightarrow> 'a pt_guest_scheme \<Rightarrow> 'a pt_guest_scheme" where
  "pte_store_release t i desc g = g\<lparr>pte := (pte g)(t := (pte g t)(i := desc))\<rparr>"

definition pt_alloc_page :: "'a pt_guest_scheme \<Rightarrow> u64 \<times> 'a pt_guest_scheme" where
  "pt_alloc_page g =
     (if pt_pool_next g + PAGE_SIZE > pt_pool_end g then (0, g)
      else (pt_pool_next g,
            g\<lparr>pt_pool_next := pt_pool_next g + PAGE_SIZE, pte := (pte g)(pt_pool_next g := (\<lambda>_. 0))\<rparr>))"

definition guest_pt_gen_bump :: "'a pt_guest_scheme \<Rightarrow> 'a pt_guest_scheme" where
  "guest_pt_gen_bump g = g\<lparr>pt_gen := pt_gen g + 1\<rparr>"

text \<open>The accumulator calls on the current thread's request.\<close>

definition request_range :: "u64 \<Rightarrow> u64 \<Rightarrow> 'a pt_guest_scheme \<Rightarrow> 'a pt_guest_scheme" where
  "request_range st en g = g\<lparr>tlbi_req := tlbi_request_range (tlbi_range_supported g) st en (tlbi_req g)\<rparr>"

definition request_mark_icache :: "'a pt_guest_scheme \<Rightarrow> 'a pt_guest_scheme" where
  "request_mark_icache g = g\<lparr>tlbi_req := tlbi_request_mark_icache (tlbi_req g)\<rparr>"

abbreviation pt_valid :: "u64 \<Rightarrow> bool" where
  "pt_valid d \<equiv> d AND PT_VALID \<noteq> 0"

section \<open>Locating and splitting\<close>

definition find_l2_entry :: "'a pt_guest_scheme \<Rightarrow> u64 \<Rightarrow> (u64 \<times> nat) option option" where
  "find_l2_entry g va =
     (let base = ipa_base g; ipa = base + va in
      do {
        l0 \<leftarrow> pt_at g (ttbr0 g - base);
        let l0_idx = unat (ipa div (512 * BLOCK_1GIB));
        if l0_idx \<ge> 512 \<or> \<not> pt_valid (pte g l0 l0_idx) then Some None
        else do {
          l1 \<leftarrow> pt_at g ((pte g l0 l0_idx AND 0xFFFFFFFFF000) - base);
          let l1_idx = unat ((ipa mod (512 * BLOCK_1GIB)) div BLOCK_1GIB);
          if l1_idx \<ge> 512 \<or> \<not> pt_valid (pte g l1 l1_idx) then Some None
          else do {
            l2 \<leftarrow> pt_at g ((pte g l1 l1_idx AND 0xFFFFFFFFF000) - base);
            let l2_idx = unat ((ipa mod BLOCK_1GIB) div BLOCK_2MIB);
            Some (Some (l2, l2_idx))
          }
        }
      })"

fun fill_l3 :: "nat \<Rightarrow> u64 \<Rightarrow> u64 \<Rightarrow> u32 \<Rightarrow> 'a pt_guest_scheme \<Rightarrow> 'a pt_guest_scheme" where
  "fill_l3 0 l3 block_ipa perms g = g"
| "fill_l3 (Suc i) l3 block_ipa perms g =
     pte_store_release l3 i (make_page_desc (block_ipa + word_of_nat i * PAGE_SIZE) perms)
       (fill_l3 i l3 block_ipa perms g)"

definition split_l2_block ::
  "(u64 \<times> nat) option \<Rightarrow> 'a pt_guest_scheme \<Rightarrow> (int \<times> 'a pt_guest_scheme) option" where
  "split_l2_block l2_entry g =
     (case l2_entry of None \<Rightarrow> Some (-1, g)
      | Some (t, i) \<Rightarrow>
          let d = pte g t i in
          if d AND 3 = 3 then Some (0, g)
          else if d AND PT_BLOCK = 0 then Some (-1, g)
          else
            case pt_alloc_page g of (l3_gpa, g1) \<Rightarrow>
              if l3_gpa = 0 then Some (-1, g1)
              else do {
                l3 \<leftarrow> pt_at g1 l3_gpa;
                let g2 = fill_l3 512 l3 (d AND L2_BLOCK_ADDR_MASK) (desc_to_perms d) g1;
                Some (0, pte_store_release t i ((ipa_base g2 + l3_gpa) OR PT_VALID OR PT_TABLE) g2)
              })"

definition guest_split_block :: "u64 \<Rightarrow> 'a pt_guest_scheme \<Rightarrow> (int \<times> 'a pt_guest_scheme) option" where
  "guest_split_block block_gpa g =
     do {
       l2_entry \<leftarrow> find_l2_entry g (ALIGN_2MIB_DOWN block_gpa);
       (rc, g1) \<leftarrow> split_l2_block l2_entry g;
       Some (if rc < 0 then rc else 0, g1)
     }"

definition guest_va_block_mapped :: "'a pt_guest_scheme \<Rightarrow> u64 \<Rightarrow> bool option" where
  "guest_va_block_mapped g va =
     (if ttbr0 g = 0 \<or> va AND (BLOCK_2MIB - 1) \<noteq> 0 then Some False
      else
        let base = ipa_base g in
        do {
          l0 \<leftarrow> pt_at g (ttbr0 g - base);
          let l0_idx = unat (va div (512 * BLOCK_1GIB));
          if l0_idx \<ge> 512 \<or> \<not> pt_valid (pte g l0 l0_idx) then Some False
          else do {
            l1 \<leftarrow> pt_at g ((pte g l0 l0_idx AND 0xFFFFFFFFF000) - base);
            let l1_idx = unat ((va mod (512 * BLOCK_1GIB)) div BLOCK_1GIB);
            if \<not> pt_valid (pte g l1 l1_idx) \<or> pte g l1 l1_idx AND PT_TABLE = 0 then Some False
            else do {
              l2 \<leftarrow> pt_at g ((pte g l1 l1_idx AND 0xFFFFFFFFF000) - base);
              let l2_idx = unat ((va mod BLOCK_1GIB) div BLOCK_2MIB);
              Some (pte g l2 l2_idx AND PT_VALID \<noteq> 0)
            }
          }
        })"

section \<open>Editing ranges\<close>

text \<open>
  The page loop that \<open>guest_invalidate_ptes\<close> and \<open>guest_update_perms\<close> run over one L3
  table: \<open>newd g pa old\<close> is the descriptor they want at \<open>pa\<close>; \<open>lo\<close> and \<open>hi\<close> are
  \<open>changed_lo\<close> and \<open>changed_hi\<close>, kept only while no broadcast is pending.
\<close>

partial_function (option) page_loop ::
  "('a pt_guest_scheme \<Rightarrow> u64 \<Rightarrow> u64 \<Rightarrow> u64) \<Rightarrow> u64 \<Rightarrow> bool \<Rightarrow> u64 \<Rightarrow> u64 \<Rightarrow> u64 \<Rightarrow> u64
   \<Rightarrow> 'a pt_guest_scheme \<Rightarrow> ('a pt_guest_scheme \<times> u64 \<times> u64) option" where
  "page_loop newd l3 bcast page_end pa lo hi g =
     (if pa < page_end then
        (let l3_idx = unat (((ipa_base g + pa) mod BLOCK_2MIB) div PAGE_SIZE);
             old = pte g l3 l3_idx;
             new = newd g pa old
         in if old \<noteq> new
            then page_loop newd l3 bcast page_end (pa + PAGE_SIZE)
                   (if \<not> bcast \<and> pa < lo then pa else lo)
                   (if \<not> bcast \<and> pa + PAGE_SIZE > hi then pa + PAGE_SIZE else hi)
                   (pte_store_release l3 l3_idx new g)
            else page_loop newd l3 bcast page_end (pa + PAGE_SIZE) lo hi g)
      else Some (g, lo, hi))"

definition invalid_desc :: "'a pt_guest_scheme \<Rightarrow> u64 \<Rightarrow> u64 \<Rightarrow> u64" where
  "invalid_desc g pa old = 0"

definition update_desc :: "u32 \<Rightarrow> 'a pt_guest_scheme \<Rightarrow> u64 \<Rightarrow> u64 \<Rightarrow> u64" where
  "update_desc perms g pa old =
     (let page_ipa =
            (if pt_valid old then old AND 0xFFFFFFFFF000
             else case guest_region_find (regions g) pa of
                    Some r \<Rightarrow> ipa_base g + ((gpa_base r + (pa - r_start r)) AND NOT (PAGE_SIZE - 1))
                  | None \<Rightarrow> ipa_base g + (pa AND NOT (PAGE_SIZE - 1)))
      in make_page_desc page_ipa perms)"

text \<open>Editing the pages of \<open>[page_start, page_end)\<close> in the table an L2 entry points to.\<close>

definition edit_pages ::
  "('a pt_guest_scheme \<Rightarrow> u64 \<Rightarrow> u64 \<Rightarrow> u64) \<Rightarrow> u64 \<Rightarrow> nat \<Rightarrow> u64 \<Rightarrow> u64 \<Rightarrow> 'a pt_guest_scheme
   \<Rightarrow> 'a pt_guest_scheme option" where
  "edit_pages newd l2 i page_start page_end g =
     do {
       l3 \<leftarrow> pt_at g ((pte g l2 i AND 0xFFFFFFFFF000) - ipa_base g);
       let bcast = tlbi_request_is_broadcast (tlbi_req g);
       (g1, lo, hi) \<leftarrow> page_loop newd l3 bcast page_end page_start UINT64_MAX 0 g;
       Some (if \<not> bcast \<and> hi > lo then request_range (ipa_base g + lo) (ipa_base g + hi) g1 else g1)
     }"

partial_function (option) invalidate_loop ::
  "u64 \<Rightarrow> u64 \<Rightarrow> u64 \<Rightarrow> 'a pt_guest_scheme \<Rightarrow> (int \<times> 'a pt_guest_scheme) option" where
  "invalidate_loop start end addr g =
     (if addr < end then
        do {
          ent \<leftarrow> find_l2_entry g addr;
          (case ent of
             None \<Rightarrow> invalidate_loop start end (ALIGN_2MIB_UP (addr + 1)) g
           | Some (l2, i) \<Rightarrow>
               let block_start = ALIGN_2MIB_DOWN addr;
                   block_end = block_start + BLOCK_2MIB;
                   d = pte g l2 i
               in if d AND 1 = 0 then invalidate_loop start end block_end g
                  else if d AND 3 = 1 \<and> start \<le> block_start \<and> end \<ge> block_end then
                    invalidate_loop start end block_end
                      (request_range (ipa_base g + block_start) (ipa_base g + block_end)
                        (pte_store_release l2 i 0 g))
                  else do {
                    (rc, g1) \<leftarrow> (if d AND 3 = 1 then guest_split_block block_start g else Some (0, g));
                    if rc < 0 then Some (-1, g1)
                    else do {
                      let page_start = (if addr > block_start then addr else block_start);
                      let page_end = (if end < block_end then end else block_end);
                      g2 \<leftarrow> edit_pages invalid_desc l2 i page_start page_end g1;
                      invalidate_loop start end page_end g2
                    }
                  })
        }
      else Some (0, g))"

definition guest_invalidate_ptes ::
  "u64 \<Rightarrow> u64 \<Rightarrow> 'a pt_guest_scheme \<Rightarrow> (int \<times> 'a pt_guest_scheme) option" where
  "guest_invalidate_ptes start end g =
     (if end > UINT64_MAX - (PAGE_SIZE - 1) then Some (-1, g)
      else
        let start' = start AND NOT (PAGE_SIZE - 1);
            end' = (end + PAGE_SIZE - 1) AND NOT (PAGE_SIZE - 1)
        in if end' \<le> start' then Some (0, g)
           else do {
             (rc, g1) \<leftarrow> invalidate_loop start' end' start' g;
             Some (if rc < 0 then (-1, g1) else (0, guest_pt_gen_bump g1))
           })"

definition KBUF_SIZE :: u64 where "KBUF_SIZE = 0x10000000"
definition KBUF_USER_VA :: u64 where "KBUF_USER_VA = 0xFFFFF0000000"

definition guest_kbuf_user_va_overlap :: "u64 \<Rightarrow> u64 \<Rightarrow> bool" where
  "guest_kbuf_user_va_overlap va len =
     (if len = 0 then False
      else let end = va + len; end = (if end < va then UINT64_MAX else end)
           in va < KBUF_USER_VA + KBUF_SIZE \<and> KBUF_USER_VA < end)"

partial_function (option) update_loop ::
  "u32 \<Rightarrow> u64 \<Rightarrow> u64 \<Rightarrow> u64 \<Rightarrow> 'a pt_guest_scheme \<Rightarrow> (int \<times> 'a pt_guest_scheme) option" where
  "update_loop perms start end addr g =
     (if addr < end then
        do {
          ent \<leftarrow> find_l2_entry g addr;
          (case ent of
             None \<Rightarrow> update_loop perms start end (ALIGN_2MIB_UP (addr + 1)) g
           | Some (l2, i) \<Rightarrow>
               let block_start = ALIGN_2MIB_DOWN addr;
                   block_end = block_start + BLOCK_2MIB;
                   d = pte g l2 i
               in if d AND 1 = 0 then update_loop perms start end block_end g
                  else if d AND 3 = 1 \<and> start \<le> block_start \<and> end \<ge> block_end then
                    update_loop perms start end block_end
                      (if desc_to_perms d \<noteq> perms
                       then request_range (ipa_base g + block_start) (ipa_base g + block_end)
                              (pte_store_release l2 i (make_block_desc (d AND L2_BLOCK_ADDR_MASK) perms) g)
                       else g)
                  else if d AND 3 = 1 \<and> desc_to_perms d = perms then
                    update_loop perms start end block_end g
                  else do {
                    (rc, g1) \<leftarrow> (if d AND 3 = 1 then guest_split_block block_start g else Some (0, g));
                    if rc < 0 then Some (-1, g1)
                    else do {
                      let page_start = (if addr > block_start then addr else block_start);
                      let page_end = (if end < block_end then end else block_end);
                      g2 \<leftarrow> edit_pages (update_desc perms) l2 i page_start page_end g1;
                      update_loop perms start end page_end g2
                    }
                  })
        }
      else Some (0, g))"

definition guest_update_perms ::
  "u64 \<Rightarrow> u64 \<Rightarrow> u32 \<Rightarrow> 'a pt_guest_scheme \<Rightarrow> (int \<times> 'a pt_guest_scheme) option" where
  "guest_update_perms start end perms g =
     (if end > UINT64_MAX - (PAGE_SIZE - 1) then Some (-1, g)
      else
        let start' = start AND NOT (PAGE_SIZE - 1);
            end' = (end + PAGE_SIZE - 1) AND NOT (PAGE_SIZE - 1)
        in if end' \<le> start' then Some (0, g)
           else
             let g0 = (if perms AND MEM_PERM_X \<noteq> 0 then request_mark_icache g else g) in
             if perms AND MEM_PERM_X \<noteq> 0 \<and> end' > start' \<and> guest_kbuf_user_va_overlap start' (end' - start')
             then Some (-1, g0)
             else do {
               (rc, g1) \<leftarrow> update_loop perms start' end' start' g0;
               Some (if rc < 0 then (-1, g1) else (0, guest_pt_gen_bump g1))
             })"

section \<open>Extending\<close>

text \<open>The table an entry points to, allocated on first use; \<open>Inl\<close> is the pool being exhausted.\<close>

definition ensure_table ::
  "u64 \<Rightarrow> nat \<Rightarrow> 'a pt_guest_scheme \<Rightarrow> ('a pt_guest_scheme + u64 \<times> 'a pt_guest_scheme) option" where
  "ensure_table t i g =
     (let res = (if \<not> pt_valid (pte g t i) then
                   case pt_alloc_page g of (gpa, g1) \<Rightarrow>
                     if gpa = 0 then Inl g1
                     else Inr (pte_store_release t i ((ipa_base g + gpa) OR PT_VALID OR PT_TABLE) g1)
                 else Inr g)
      in case res of Inl g1 \<Rightarrow> Some (Inl g1)
         | Inr g1 \<Rightarrow> do {
             t' \<leftarrow> pt_at g1 ((pte g1 t i AND 0xFFFFFFFFF000) - ipa_base g1);
             Some (Inr (t', g1))
           })"

partial_function (option) extend_loop ::
  "u32 \<Rightarrow> u64 \<Rightarrow> bool \<Rightarrow> u64 \<Rightarrow> u64 \<Rightarrow> u64 \<Rightarrow> u64 \<Rightarrow> 'a pt_guest_scheme
   \<Rightarrow> ('a pt_guest_scheme + 'a pt_guest_scheme \<times> u64 \<times> u64) option" where
  "extend_loop perms l0 bcast addr_end addr lo hi g =
     (if addr < addr_end then
        (let ipa = ipa_base g + addr; l0_idx = unat (ipa div (512 * BLOCK_1GIB)) in
         if l0_idx \<ge> 512 then Some (Inl g)
         else do {
           r1 \<leftarrow> ensure_table l0 l0_idx g;
           (case r1 of Inl g1 \<Rightarrow> Some (Inl g1)
            | Inr (l1, g1) \<Rightarrow>
                let l1_idx = unat ((ipa mod (512 * BLOCK_1GIB)) div BLOCK_1GIB) in
                if l1_idx \<ge> 512 then Some (Inl g1)
                else do {
                  r2 \<leftarrow> ensure_table l1 l1_idx g1;
                  (case r2 of Inl g2 \<Rightarrow> Some (Inl g2)
                   | Inr (l2, g2) \<Rightarrow>
                       let l2_idx = unat ((ipa mod BLOCK_1GIB) div BLOCK_2MIB) in
                       if pt_valid (pte g2 l2 l2_idx)
                       then extend_loop perms l0 bcast addr_end (addr + BLOCK_2MIB) lo hi g2
                       else extend_loop perms l0 bcast addr_end (addr + BLOCK_2MIB)
                              (if \<not> bcast \<and> addr < lo then addr else lo)
                              (if \<not> bcast \<and> addr + BLOCK_2MIB > hi then addr + BLOCK_2MIB else hi)
                              (pte_store_release l2 l2_idx (make_block_desc ipa perms) g2))
                })
         })
      else Some (Inr (g, lo, hi)))"

definition guest_extend_page_tables ::
  "u64 \<Rightarrow> u64 \<Rightarrow> u32 \<Rightarrow> 'a pt_guest_scheme \<Rightarrow> (int \<times> 'a pt_guest_scheme) option" where
  "guest_extend_page_tables start end perms g =
     (if start \<ge> guest_size g \<or> end > guest_size g then Some (-1, g)
      else if end > UINT64_MAX - (BLOCK_2MIB - 1) then Some (-1, g)
      else do {
        l0 \<leftarrow> pt_at g (ttbr0 g - ipa_base g);
        let g0 = (if perms AND MEM_PERM_X \<noteq> 0 then request_mark_icache g else g);
        let bcast = tlbi_request_is_broadcast (tlbi_req g0);
        res \<leftarrow> extend_loop perms l0 bcast (ALIGN_2MIB_UP end) (ALIGN_2MIB_DOWN start) UINT64_MAX 0 g0;
        (case res of Inl g1 \<Rightarrow> Some (-1, g1)
         | Inr (g1, lo, hi) \<Rightarrow>
             Some (0, guest_pt_gen_bump
               (if \<not> bcast \<and> hi > lo then request_range (ipa_base g1 + lo) (ipa_base g1 + hi) g1 else g1)))
      })"

section \<open>A concrete guest\<close>

text \<open>A guest whose tables map one 2 MiB block, read-write at \<^verbatim>\<open>0x400000\<close>.\<close>

definition example_pte :: "u64 \<Rightarrow> nat \<Rightarrow> u64" where
  "example_pte t i =
     (if t = 0x100000 \<and> i = 0 then 0x101003
      else if t = 0x101000 \<and> i = 0 then 0x102003
      else if t = 0x102000 \<and> i = 2 then make_block_desc 0x400000 (MEM_PERM_R OR MEM_PERM_W)
      else 0)"

definition example_pt :: pt_guest where
  "example_pt = guest.extend example_guest
     \<lparr>host_base = 0x10000000000, pt_pool_base = 0x100000, pt_pool_end = 0x110000, pt_pool_next = 0x103000,
      ttbr0 = 0x100000, mappings = [], overflow = [], overflow_ipa_next = 0x1000000000, pt_gen = 7,
      pte = example_pte, tlbi_req = \<lparr>req_kind = TLBI_NONE, icache_flush = False, req_pages = 0, req_start = 0\<rparr>,
      tlbi_range_supported = True, host_live = [], stage2 = []\<rparr>"

lemma example_pt_fields [simp]:
  "regions example_pt = regions example_guest" "guest_size example_pt = 0x1000000000" "ipa_base example_pt = 0"
  "host_base example_pt = 0x10000000000" "pt_pool_base example_pt = 0x100000" "pt_pool_end example_pt = 0x110000"
  "pt_pool_next example_pt = 0x103000" "ttbr0 example_pt = 0x100000" "mappings example_pt = []"
  "overflow example_pt = []" "overflow_ipa_next example_pt = 0x1000000000" "pt_gen example_pt = 7"
  "pte example_pt = example_pte" "tlbi_range_supported example_pt = True" "host_live example_pt = []"
  "stage2 example_pt = []"
  "tlbi_req example_pt = \<lparr>req_kind = TLBI_NONE, icache_flush = False, req_pages = 0, req_start = 0\<rparr>"
  by (simp_all add: example_pt_def guest.defs example_guest_def)

end
