(* ===== verification/Backing.thy ===== *)
theory Backing
  imports Page_Tables "HOL-Library.Multiset"
begin

text \<open>
  The host memory behind guest physical addresses beyond the primary slab
  (\<^verbatim>\<open>src/src/core/guest.c\<close>): extra IPA mappings, the overflow segments with their 2 MiB bump
  allocator, their lookup and their release. The host calls are parameters: \<open>host_mmap live sz\<close> is
  the address \<^verbatim>\<open>mmap\<close> returns (\<open>None\<close> for \<^verbatim>\<open>MAP_FAILED\<close>) and \<open>hv_vm_map s2 host ipa sz perms\<close>
  the \<^verbatim>\<open>hv_return_t\<close>, given what is mapped already.
\<close>

type_synonym host_mmap = "(u64 \<times> u64) list \<Rightarrow> u64 \<Rightarrow> u64 option"
type_synonym hv_vm_map = "(u64 \<times> u64) list \<Rightarrow> u64 \<Rightarrow> u64 \<Rightarrow> u64 \<Rightarrow> u32 \<Rightarrow> int"

definition HV_SUCCESS :: int where "HV_SUCCESS = 0"
definition HV_MEMORY_RWX :: u32 where "HV_MEMORY_RWX = 7"
definition GUEST_MAX_MAPPINGS :: nat where "GUEST_MAX_MAPPINGS = 8"
definition GUEST_MAX_OVERFLOW :: nat where "GUEST_MAX_OVERFLOW = 4"
definition GUEST_OVERFLOW_SIZE :: u64 where "GUEST_OVERFLOW_SIZE = 0x40000000"

section \<open>Lookup\<close>

definition guest_find_mapping :: "'a pt_guest_scheme \<Rightarrow> u64 \<Rightarrow> guest_mapping option" where
  "guest_find_mapping g gpa =
     (if gpa < guest_size g then None
      else find (\<lambda>m. gpa \<ge> m_gpa m \<and> gpa < m_gpa m + m_size m) (mappings g))"

definition guest_find_overflow :: "'a pt_guest_scheme \<Rightarrow> u64 \<Rightarrow> guest_overflow option" where
  "guest_find_overflow g gpa =
     (if gpa < guest_size g then None
      else find (\<lambda>s. gpa \<ge> ipa_start s \<and> gpa < ipa_start s + o_size s) (overflow g))"

section \<open>Extra mappings\<close>

definition guest_mapping_overlaps :: "'a pt_guest_scheme \<Rightarrow> u64 \<Rightarrow> u64 \<Rightarrow> bool" where
  "guest_mapping_overlaps g gpa sz =
     (if sz = 0 then True
      else let e = gpa + sz in
           if e < gpa then True
           else if gpa < guest_size g then True
           else if \<exists>m \<in> set (mappings g). gpa < m_gpa m + m_size m \<and> m_gpa m < e then True
           else \<exists>s \<in> set (overflow g). gpa < ipa_start s + o_size s \<and> ipa_start s < e)"

text \<open>The result is the return code, \<^verbatim>\<open>*host_va_inout\<close> and the guest; 0 stands for \<^verbatim>\<open>NULL\<close>.\<close>

definition guest_add_mapping ::
  "host_mmap \<Rightarrow> hv_vm_map \<Rightarrow> u64 \<Rightarrow> u64 \<Rightarrow> u32 \<Rightarrow> u64 \<Rightarrow> 'a pt_guest_scheme \<Rightarrow> int \<times> u64 \<times> 'a pt_guest_scheme" where
  "guest_add_mapping host_mmap hv_vm_map gpa sz hv_perms host_va_in g =
     (if sz = 0 then (-1, host_va_in, g)
      else if gpa AND (PAGE_SIZE - 1) \<noteq> 0 \<or> sz AND (PAGE_SIZE - 1) \<noteq> 0 then (-1, host_va_in, g)
      else if host_va_in \<noteq> 0 \<and> host_va_in AND (PAGE_SIZE - 1) \<noteq> 0 then (-1, host_va_in, g)
      else if length (mappings g) \<ge> GUEST_MAX_MAPPINGS then (-1, host_va_in, g)
      else if guest_mapping_overlaps g gpa sz then (-1, host_va_in, g)
      else
        let allocated = (host_va_in = 0) in
        case (if allocated then host_mmap (host_live g) sz else Some host_va_in) of
          None \<Rightarrow> (-1, host_va_in, g)
        | Some host_va \<Rightarrow>
            if hv_vm_map (stage2 g) host_va gpa sz hv_perms \<noteq> HV_SUCCESS then (-1, host_va_in, g)
            else (0, host_va,
              g\<lparr>mappings := mappings g @ [\<lparr>m_gpa = gpa, m_size = sz, m_host_va = host_va,
                                           m_hv_perms = hv_perms, m_owns_host = allocated\<rparr>],
                host_live := (if allocated then (host_va, sz) # host_live g else host_live g),
                stage2 := (gpa, sz) # stage2 g\<rparr>))"

definition release_mapping :: "guest_mapping \<Rightarrow> 'a pt_guest_scheme \<Rightarrow> 'a pt_guest_scheme" where
  "release_mapping m g =
     g\<lparr>stage2 := (if m_host_va m \<noteq> 0 \<and> m_size m \<noteq> 0 then remove1 (m_gpa m, m_size m) (stage2 g) else stage2 g),
       host_live := (if m_owns_host m \<and> m_host_va m \<noteq> 0 then remove1 (m_host_va m, m_size m) (host_live g)
                     else host_live g)\<rparr>"

definition release_extra_mappings :: "'a pt_guest_scheme \<Rightarrow> 'a pt_guest_scheme" where
  "release_extra_mappings g = (fold release_mapping (mappings g) g)\<lparr>mappings := []\<rparr>"

section \<open>Overflow segments\<close>

text \<open>Bump space in an existing segment: the IPA handed out and the updated array.\<close>

fun overflow_reuse :: "guest_overflow list \<Rightarrow> (u64 \<times> guest_overflow list) option" where
  "overflow_reuse [] = None"
| "overflow_reuse (s # ss) =
     (if o_next s + BLOCK_2MIB \<le> o_size s
      then Some (ipa_start s + o_next s, s\<lparr>o_next := o_next s + BLOCK_2MIB\<rparr> # ss)
      else map_option (\<lambda>(ipa, ss'). (ipa, s # ss')) (overflow_reuse ss))"

text \<open>
  The \<^verbatim>\<open>do ... while (moved)\<close> scan: the first mapping that overlaps the candidate pushes it past its
  end. \<open>None\<close> is the IPA overflow.
\<close>

function overflow_skip :: "guest_mapping list \<Rightarrow> u64 \<Rightarrow> u64 \<Rightarrow> u64 \<Rightarrow> u64 option" where
  "overflow_skip ms seg_size seg_ipa seg_end =
     (case find (\<lambda>m. seg_ipa < m_gpa m + m_size m \<and> m_gpa m < seg_end) ms of
        None \<Rightarrow> Some seg_ipa
      | Some m \<Rightarrow>
          let m_end = m_gpa m + m_size m;
              seg_ipa' = (if m_end > seg_ipa then m_end else seg_ipa);
              seg_end' = seg_ipa' + seg_size
          in if seg_end' < seg_ipa' then None else overflow_skip ms seg_size seg_ipa' seg_end')"
  by pat_completeness auto
termination
  by (relation "measure (\<lambda>(_, _, ipa, _). 2 ^ 64 - unat ipa)")
    (auto simp: find_Some_iff word_less_nat_alt intro!: diff_less_mono2 u64_unat_less [simplified])

declare overflow_skip.simps [simp del]

definition guest_overflow_alloc ::
  "host_mmap \<Rightarrow> hv_vm_map \<Rightarrow> 'a pt_guest_scheme \<Rightarrow> u64 \<times> 'a pt_guest_scheme" where
  "guest_overflow_alloc host_mmap hv_vm_map g =
     (case overflow_reuse (overflow g) of
        Some (ipa, ss) \<Rightarrow> (ipa, g\<lparr>overflow := ss\<rparr>)
      | None \<Rightarrow>
          if length (overflow g) \<ge> GUEST_MAX_OVERFLOW then (UINT64_MAX, g)
          else
            let seg_ipa = (if overflow_ipa_next g < guest_size g then guest_size g else overflow_ipa_next g);
                seg_size = GUEST_OVERFLOW_SIZE;
                seg_end = seg_ipa + seg_size
            in if seg_end < seg_ipa then (UINT64_MAX, g)
               else case overflow_skip (mappings g) seg_size seg_ipa seg_end of
                      None \<Rightarrow> (UINT64_MAX, g)
                    | Some seg_ipa' \<Rightarrow>
                        case host_mmap (host_live g) seg_size of
                          None \<Rightarrow> (UINT64_MAX, g)
                        | Some host \<Rightarrow>
                            if hv_vm_map (stage2 g) host seg_ipa' seg_size HV_MEMORY_RWX \<noteq> HV_SUCCESS
                            then (UINT64_MAX, g)
                            else (seg_ipa',
                              g\<lparr>overflow := overflow g @ [\<lparr>ipa_start = seg_ipa', o_size = seg_size,
                                                           o_host_base = host, o_next = BLOCK_2MIB\<rparr>],
                                overflow_ipa_next := seg_ipa' + seg_size,
                                host_live := (host, seg_size) # host_live g,
                                stage2 := (seg_ipa', seg_size) # stage2 g\<rparr>))"

definition release_segment :: "guest_overflow \<Rightarrow> 'a pt_guest_scheme \<Rightarrow> 'a pt_guest_scheme" where
  "release_segment s g =
     (if o_host_base s \<noteq> 0 \<and> o_size s \<noteq> 0
      then g\<lparr>stage2 := remove1 (ipa_start s, o_size s) (stage2 g),
             host_live := remove1 (o_host_base s, o_size s) (host_live g)\<rparr>
      else g)"

definition release_overflow_segments :: "u64 \<Rightarrow> 'a pt_guest_scheme \<Rightarrow> 'a pt_guest_scheme" where
  "release_overflow_segments reset_anchor g =
     (fold release_segment (overflow g) g)\<lparr>overflow := [], overflow_ipa_next := reset_anchor\<rparr>"

section \<open>Extents\<close>

text \<open>The IPA extents beyond the slab, and when two of them do not meet.\<close>

definition m_extent :: "guest_mapping \<Rightarrow> nat \<times> nat" where
  "m_extent m = (unat (m_gpa m), unat (m_gpa m) + unat (m_size m))"

definition o_extent :: "guest_overflow \<Rightarrow> nat \<times> nat" where
  "o_extent s = (unat (ipa_start s), unat (ipa_start s) + unat (o_size s))"

definition extents :: "'a pt_guest_scheme \<Rightarrow> (nat \<times> nat) list" where
  "extents g = map m_extent (mappings g) @ map o_extent (overflow g)"

definition apart :: "nat \<times> nat \<Rightarrow> nat \<times> nat \<Rightarrow> bool" where
  "apart a b \<longleftrightarrow> snd a \<le> fst b \<or> snd b \<le> fst a"

fun all_apart :: "(nat \<times> nat) list \<Rightarrow> bool" where
  "all_apart [] = True"
| "all_apart (x # xs) = ((\<forall>y \<in> set xs. apart x y) \<and> all_apart xs)"

lemma all_apart_append:
  "all_apart (xs @ ys) \<longleftrightarrow> all_apart xs \<and> all_apart ys \<and> (\<forall>x \<in> set xs. \<forall>y \<in> set ys. apart x y)"
  by (induction xs) auto

definition extent_ok :: "u64 \<Rightarrow> nat \<times> nat \<Rightarrow> bool" where
  "extent_ok lim x \<longleftrightarrow> unat lim \<le> fst x \<and> fst x < snd x \<and> snd x < 2 ^ 64"

definition segment_ok :: "u64 \<Rightarrow> guest_overflow \<Rightarrow> bool" where
  "segment_ok anchor s \<longleftrightarrow> o_size s = GUEST_OVERFLOW_SIZE \<and> o_next s \<le> o_size s \<and> unat (ipa_start s) + unat (o_size s) \<le> unat anchor"

definition backing_wf :: "'a pt_guest_scheme \<Rightarrow> bool" where
  "backing_wf g \<longleftrightarrow> (\<forall>x \<in> set (extents g). extent_ok (guest_size g) x) \<and> all_apart (extents g)
     \<and> (\<forall>s \<in> set (overflow g). segment_ok (overflow_ipa_next g) s)"

lemma extent_sum:
  assumes "unat a + unat b < 2 ^ 64"
  shows "unat ((a :: u64) + b) = unat a + unat b"
  using assms by (simp add: unat_add_u64)

lemma in_extent:
  assumes "extent_ok lim (unat (a :: u64), unat a + unat b)"
  shows "gpa \<ge> a \<and> gpa < a + b \<longleftrightarrow> unat a \<le> unat gpa \<and> unat gpa < unat a + unat b"
proof -
  have "unat (a + b) = unat a + unat b" using assms by (intro extent_sum) (simp add: extent_ok_def)
  then show ?thesis by (simp add: word_le_nat_alt word_less_nat_alt)
qed

lemma extent_overlap:
  assumes "extent_ok lim (unat (a :: u64), unat a + unat b)" "unat gpa + unat sz < 2 ^ 64"
  shows "gpa < a + b \<and> a < gpa + sz \<longleftrightarrow> \<not> apart (unat gpa, unat gpa + unat sz) (unat a, unat a + unat b)"
proof -
  have "unat (a + b) = unat a + unat b" using assms(1) by (intro extent_sum) (simp add: extent_ok_def)
  then show ?thesis using extent_sum [OF assms(2)] by (auto simp: apart_def word_less_nat_alt)
qed

section \<open>Adding a mapping\<close>

lemma sum_no_wrap:
  assumes "\<not> (a :: u64) + b < a" "b \<noteq> 0"
  shows "unat a + unat b < 2 ^ 64"
proof (rule ccontr)
  assume "\<not> ?thesis"
  then have "unat (a + b) = unat a + unat b - 2 ^ 64" and "2 ^ 64 \<le> unat a + unat b"
    using u64_unat_less [of a] u64_unat_less [of b] by (auto simp: unat_word_ariths mod_if)
  moreover have "unat b < 2 ^ 64" by (rule u64_unat_less)
  ultimately have "unat (a + b) < unat a" by linarith
  then show False using assms(1) by (simp add: word_less_nat_alt)
qed

lemma guest_mapping_overlaps_iff:
  assumes wf: "backing_wf g"
  shows "guest_mapping_overlaps g gpa sz \<longleftrightarrow>
    \<not> (extent_ok (guest_size g) (unat gpa, unat gpa + unat sz)
       \<and> (\<forall>x \<in> set (extents g). apart (unat gpa, unat gpa + unat sz) x))"
proof (cases "sz = 0 \<or> gpa + sz < gpa \<or> gpa < guest_size g")
  case True
  have "\<not> extent_ok (guest_size g) (unat gpa, unat gpa + unat sz)"
  proof
    assume ok: "extent_ok (guest_size g) (unat gpa, unat gpa + unat sz)"
    then have "unat (gpa + sz) = unat gpa + unat sz" by (auto simp: extent_ok_def extent_sum)
    then show False using True ok by (auto simp: extent_ok_def word_less_nat_alt)
  qed
  then show ?thesis using True by (auto simp: guest_mapping_overlaps_def Let_def)
next
  case False
  then have s: "unat gpa + unat sz < 2 ^ 64" by (intro sum_no_wrap) auto
  have nz: "0 < unat sz" using False by (simp add: unat_gt_0)
  have ok: "extent_ok (guest_size g) (unat gpa, unat gpa + unat sz)"
    using False s nz by (auto simp: extent_ok_def word_less_nat_alt)
  have m: "gpa < m_gpa m + m_size m \<and> m_gpa m < gpa + sz \<longleftrightarrow> \<not> apart (unat gpa, unat gpa + unat sz) (m_extent m)"
    if "m \<in> set (mappings g)" for m
    using extent_overlap [OF _ s, of "guest_size g" "m_gpa m" "m_size m"] wf that
    by (auto simp: backing_wf_def extents_def m_extent_def)
  have o: "gpa < ipa_start o' + o_size o' \<and> ipa_start o' < gpa + sz \<longleftrightarrow> \<not> apart (unat gpa, unat gpa + unat sz) (o_extent o')"
    if "o' \<in> set (overflow g)" for o'
    using extent_overlap [OF _ s, of "guest_size g" "ipa_start o'" "o_size o'"] wf that
    by (auto simp: backing_wf_def extents_def o_extent_def)
  show ?thesis
    using False ok m o unfolding guest_mapping_overlaps_def Let_def extents_def by auto
qed

lemma guest_add_mapping_cases:
  assumes "guest_add_mapping mm hv gpa sz perms va g = (rc, va', g')"
  obtains (fail) "rc = -1" "va' = va" "g' = g"
  | (ok) "rc = 0" "va \<noteq> 0 \<Longrightarrow> va' = va" "va = 0 \<Longrightarrow> mm (host_live g) sz = Some va'"
      "\<not> guest_mapping_overlaps g gpa sz" "length (mappings g) < GUEST_MAX_MAPPINGS"
      "hv (stage2 g) va' gpa sz perms = HV_SUCCESS"
      "g' = g\<lparr>mappings := mappings g @ [\<lparr>m_gpa = gpa, m_size = sz, m_host_va = va', m_hv_perms = perms,
                m_owns_host = (va = 0)\<rparr>],
              host_live := (if va = 0 then (va', sz) # host_live g else host_live g),
              stage2 := (gpa, sz) # stage2 g\<rparr>"
proof (cases "sz = 0 \<or> gpa AND (PAGE_SIZE - 1) \<noteq> 0 \<or> sz AND (PAGE_SIZE - 1) \<noteq> 0
    \<or> va \<noteq> 0 \<and> va AND (PAGE_SIZE - 1) \<noteq> 0 \<or> length (mappings g) \<ge> GUEST_MAX_MAPPINGS
    \<or> guest_mapping_overlaps g gpa sz")
  case True
  then have "guest_add_mapping mm hv gpa sz perms va g = (-1, va, g)" by (auto simp: guest_add_mapping_def)
  then show thesis using assms fail by simp
next
  case guards: False
  define host where "host = (if va = 0 then mm (host_live g) sz else Some va)"
  show thesis
  proof (cases "\<exists>h. host = Some h \<and> hv (stage2 g) h gpa sz perms = HV_SUCCESS")
    case True
    then obtain h where h: "host = Some h" "hv (stage2 g) h gpa sz perms = HV_SUCCESS" by blast
    then show thesis
      using assms guards by (intro ok) (auto simp: guest_add_mapping_def host_def split: if_splits)
  next
    case False
    then have "guest_add_mapping mm hv gpa sz perms va g = (-1, va, g)"
      using guards by (auto simp: guest_add_mapping_def host_def [symmetric] Let_def split: option.split)
    then show thesis using assms fail by simp
  qed
qed

lemma guest_add_mapping_wf:
  assumes wf: "backing_wf g" and r: "guest_add_mapping mm hv gpa sz perms va g = (rc, va', g')"
  shows "backing_wf g'"
  using r
proof (cases rule: guest_add_mapping_cases)
  case fail
  then show ?thesis using wf by simp
next
  case ok
  let ?x = "(unat gpa, unat gpa + unat sz)"
  have x: "extent_ok (guest_size g) ?x" "\<forall>y \<in> set (extents g). apart ?x y"
    using ok(4) guest_mapping_overlaps_iff [OF wf] by auto
  have sym: "apart y ?x = apart ?x y" for y by (auto simp: apart_def)
  have e: "extents g' = map m_extent (mappings g) @ ?x # map o_extent (overflow g)"
    using ok(7) by (simp add: extents_def m_extent_def)
  have "all_apart (extents g')"
    using wf x(2) sym unfolding e by (auto simp: backing_wf_def extents_def all_apart_append)
  moreover have "\<forall>y \<in> set (extents g'). extent_ok (guest_size g) y"
    using wf x(1) unfolding e by (auto simp: backing_wf_def extents_def)
  ultimately show ?thesis using wf ok(7) by (auto simp: backing_wf_def)
qed

section \<open>Allocating a block\<close>

text \<open>The 2 MiB blocks handed out: the consumed prefix of every segment.\<close>

definition handed_out :: "guest_overflow list \<Rightarrow> nat set" where
  "handed_out ss = (\<Union>s \<in> set ss. {unat (ipa_start s) ..< unat (ipa_start s) + unat (o_next s)})"

definition block :: "u64 \<Rightarrow> nat set" where
  "block ipa = {unat ipa ..< unat ipa + 2097152}"

lemma bump_fits:
  assumes "segment_ok anchor s" "o_next s + BLOCK_2MIB \<le> o_size s"
  shows "unat (o_next s + BLOCK_2MIB) = unat (o_next s) + 2097152" "unat (o_next s) + 2097152 \<le> unat (o_size s)"
proof -
  have "unat (o_next s) \<le> 0x40000000"
    using assms(1) by (auto simp: segment_ok_def GUEST_OVERFLOW_SIZE_def word_le_nat_alt)
  then show u: "unat (o_next s + BLOCK_2MIB) = unat (o_next s) + 2097152"
    by (simp add: unat_add_u64 BLOCK_2MIB_def)
  then show "unat (o_next s) + 2097152 \<le> unat (o_size s)" using assms(2) by (simp add: word_le_nat_alt)
qed

lemma handed_out_Cons:
  "handed_out (s # ss) = {unat (ipa_start s) ..< unat (ipa_start s) + unat (o_next s)} \<union> handed_out ss"
  by (simp add: handed_out_def)

lemma handed_out_in: "x \<in> handed_out ss \<Longrightarrow> \<forall>s \<in> set ss. segment_ok anchor s \<Longrightarrow>
    \<exists>s \<in> set ss. fst (o_extent s) \<le> x \<and> x < snd (o_extent s)"
  by (fastforce simp: handed_out_def o_extent_def segment_ok_def word_le_nat_alt)

lemma overflow_reuse_spec:
  assumes "overflow_reuse ss = Some (ipa, ss')"
    and "\<forall>s \<in> set ss. extent_ok lim (o_extent s) \<and> segment_ok anchor s" "all_apart (map o_extent ss)"
  shows "map (\<lambda>s. (ipa_start s, o_size s, o_host_base s)) ss' = map (\<lambda>s. (ipa_start s, o_size s, o_host_base s)) ss
    \<and> (\<forall>s \<in> set ss'. segment_ok anchor s)
    \<and> handed_out ss' = handed_out ss \<union> block ipa \<and> handed_out ss \<inter> block ipa = {}
    \<and> (\<exists>s \<in> set ss. block ipa \<subseteq> {fst (o_extent s) ..< snd (o_extent s)})"
  using assms
proof (induction ss arbitrary: ss')
  case Nil
  then show ?case by simp
next
  case (Cons s ss)
  have s: "extent_ok lim (o_extent s)" "segment_ok anchor s" using Cons.prems(2) by auto
  show ?case
  proof (cases "o_next s + BLOCK_2MIB \<le> o_size s")
    case True
    then have r: "ipa = ipa_start s + o_next s" "ss' = s\<lparr>o_next := o_next s + BLOCK_2MIB\<rparr> # ss"
      using Cons.prems(1) by auto
    note b = bump_fits [OF s(2) True]
    have ipa: "unat ipa = unat (ipa_start s) + unat (o_next s)"
      unfolding r(1) using s(1) b(2) by (intro extent_sum) (simp add: extent_ok_def o_extent_def)
    have inn: "block ipa \<subseteq> {fst (o_extent s) ..< snd (o_extent s)}"
      using ipa b(2) by (auto simp: block_def o_extent_def)
    have "x \<notin> block ipa" if x: "x \<in> handed_out ss" for x
    proof -
      obtain t where "t \<in> set ss" "fst (o_extent t) \<le> x" "x < snd (o_extent t)"
        using handed_out_in [OF x, of anchor] Cons.prems(2) by auto
      moreover have "apart (o_extent s) (o_extent t)" using Cons.prems(3) calculation(1) by simp
      ultimately show ?thesis using inn by (fastforce simp: apart_def)
    qed
    then have "handed_out (s # ss) \<inter> block ipa = {}" using ipa by (auto simp: handed_out_Cons block_def)
    moreover have "handed_out ss' = handed_out (s # ss) \<union> block ipa"
      using ipa b(1) by (auto simp: r(2) handed_out_Cons block_def)
    moreover have "segment_ok anchor (s\<lparr>o_next := o_next s + BLOCK_2MIB\<rparr>)"
      using s(2) True by (auto simp: segment_ok_def)
    ultimately show ?thesis using r(2) inn Cons.prems(2) by simp
  next
    case False
    then obtain ss1 where r: "overflow_reuse ss = Some (ipa, ss1)" "ss' = s # ss1" using Cons.prems(1) by auto
    note IH = Cons.IH [OF r(1)]
    have h: "handed_out ss1 = handed_out ss \<union> block ipa" "handed_out ss \<inter> block ipa = {}"
      and t: "\<exists>t \<in> set ss. block ipa \<subseteq> {fst (o_extent t) ..< snd (o_extent t)}"
      using IH Cons.prems(2,3) by auto
    obtain t where t: "t \<in> set ss" "block ipa \<subseteq> {fst (o_extent t) ..< snd (o_extent t)}" using t by blast
    have "apart (o_extent s) (o_extent t)" using Cons.prems(3) t(1) by simp
    then have "{unat (ipa_start s) ..< unat (ipa_start s) + unat (o_next s)} \<inter> block ipa = {}"
      using t(2) s(2) by (fastforce simp: apart_def o_extent_def segment_ok_def word_le_nat_alt)
    then show ?thesis using IH Cons.prems(2,3) h t r(2) s(2) by (auto simp: handed_out_Cons)
  qed
qed

text \<open>Skipping ends clear of every mapping and moves only upwards.\<close>

lemma overflow_skip_spec:
  assumes "overflow_skip ms sz ipa e = Some r" "\<forall>m \<in> set ms. extent_ok lim (m_extent m)"
    and "unat ipa + unat sz < 2 ^ 64" "e = ipa + sz" "sz \<noteq> 0"
  shows "ipa \<le> r \<and> unat r + unat sz < 2 ^ 64 \<and> (\<forall>m \<in> set ms. apart (unat r, unat r + unat sz) (m_extent m))"
  using assms
proof (induction ms sz ipa e rule: overflow_skip.induct)
  case (1 ms sz ipa e)
  let ?P = "\<lambda>m. ipa < m_gpa m + m_size m \<and> m_gpa m < e"
  have P: "?P m \<longleftrightarrow> \<not> apart (unat ipa, unat ipa + unat sz) (m_extent m)" if "m \<in> set ms" for m
    using extent_overlap [OF _ "1.prems"(3), of lim "m_gpa m" "m_size m"] "1.prems"(2,4) that
    by (simp add: m_extent_def)
  show ?case
  proof (cases "find ?P ms")
    case None
    then have "r = ipa" using "1.prems"(1) by (simp add: overflow_skip.simps)
    then show ?thesis using None P "1.prems"(3) by (auto simp: find_None_iff)
  next
    case (Some m)
    then have m: "m \<in> set ms" "?P m" by (auto simp: find_Some_iff)
    let ?i = "m_gpa m + m_size m"
    have step: "\<not> ?i + sz < ?i" "overflow_skip ms sz ?i (?i + sz) = Some r"
      using "1.prems"(1) Some m(2) by (auto simp: overflow_skip.simps [of ms sz ipa] Let_def split: if_splits)
    have "unat ?i + unat sz < 2 ^ 64" by (rule sum_no_wrap [OF step(1) "1.prems"(5)])
    then show ?thesis
      using "1.IH" [OF Some refl refl refl] step m(2) "1.prems"(2,5) by auto
  qed
qed

lemma o_extent_cong: "ipa_start s = ipa_start t \<Longrightarrow> o_size s = o_size t \<Longrightarrow> o_extent s = o_extent t"
  by (simp add: o_extent_def)

lemma guest_overflow_alloc_cases:
  assumes "guest_overflow_alloc mm hv g = (ipa, g')"
  obtains (full) "ipa = UINT64_MAX" "g' = g"
  | (reuse) ss where "overflow_reuse (overflow g) = Some (ipa, ss)" "g' = g\<lparr>overflow := ss\<rparr>"
  | (fresh) st host where "st = (if overflow_ipa_next g < guest_size g then guest_size g else overflow_ipa_next g)"
      "\<not> st + GUEST_OVERFLOW_SIZE < st"
      "overflow_skip (mappings g) GUEST_OVERFLOW_SIZE st (st + GUEST_OVERFLOW_SIZE) = Some ipa"
      "g' = g\<lparr>overflow := overflow g @ [\<lparr>ipa_start = ipa, o_size = GUEST_OVERFLOW_SIZE, o_host_base = host,
                o_next = BLOCK_2MIB\<rparr>],
              overflow_ipa_next := ipa + GUEST_OVERFLOW_SIZE,
              host_live := (host, GUEST_OVERFLOW_SIZE) # host_live g,
              stage2 := (ipa, GUEST_OVERFLOW_SIZE) # stage2 g\<rparr>"
      "mm (host_live g) GUEST_OVERFLOW_SIZE = Some host"
proof (cases "overflow_reuse (overflow g)")
  case (Some x)
  then show thesis using assms reuse by (cases x) (auto simp: guest_overflow_alloc_def)
next
  case none: None
  define st where "st = (if overflow_ipa_next g < guest_size g then guest_size g else overflow_ipa_next g)"
  let ?sk = "overflow_skip (mappings g) GUEST_OVERFLOW_SIZE st (st + GUEST_OVERFLOW_SIZE)"
  have eq: "guest_overflow_alloc mm hv g =
     (if length (overflow g) \<ge> GUEST_MAX_OVERFLOW \<or> st + GUEST_OVERFLOW_SIZE < st then (UINT64_MAX, g)
      else case ?sk of None \<Rightarrow> (UINT64_MAX, g)
        | Some i \<Rightarrow> case mm (host_live g) GUEST_OVERFLOW_SIZE of None \<Rightarrow> (UINT64_MAX, g)
          | Some host \<Rightarrow> if hv (stage2 g) host i GUEST_OVERFLOW_SIZE HV_MEMORY_RWX \<noteq> HV_SUCCESS then (UINT64_MAX, g)
              else (i, g\<lparr>overflow := overflow g @ [\<lparr>ipa_start = i, o_size = GUEST_OVERFLOW_SIZE, o_host_base = host,
                o_next = BLOCK_2MIB\<rparr>], overflow_ipa_next := i + GUEST_OVERFLOW_SIZE,
                host_live := (host, GUEST_OVERFLOW_SIZE) # host_live g, stage2 := (i, GUEST_OVERFLOW_SIZE) # stage2 g\<rparr>))"
    unfolding guest_overflow_alloc_def none st_def [symmetric] Let_def by simp
  show thesis
  proof (cases "ipa = UINT64_MAX \<and> g' = g")
    case True
    then show thesis using full by simp
  next
    case False
    then have guard: "\<not> (length (overflow g) \<ge> GUEST_MAX_OVERFLOW \<or> st + GUEST_OVERFLOW_SIZE < st)"
      using assms unfolding eq by auto
    from False obtain i host where ih: "?sk = Some i" "mm (host_live g) GUEST_OVERFLOW_SIZE = Some host"
        "hv (stage2 g) host i GUEST_OVERFLOW_SIZE HV_MEMORY_RWX = HV_SUCCESS"
      using assms unfolding eq if_not_P [OF guard] by (auto split: option.splits if_splits)
    then show thesis
      using assms guard unfolding eq if_not_P [OF guard] by (intro fresh [OF st_def]) auto
  qed
qed

text \<open>
  The block is new, lies in one segment, and the extents stay apart; a failing allocation changes
  nothing.
\<close>

lemma guest_overflow_alloc_spec:
  assumes wf: "backing_wf g" and r: "guest_overflow_alloc mm hv g = (ipa, g')"
  shows "backing_wf g' \<and> mappings g' = mappings g \<and> guest_size g' = guest_size g
    \<and> (ipa = UINT64_MAX \<and> g' = g
       \<or> handed_out (overflow g') = handed_out (overflow g) \<union> block ipa
         \<and> handed_out (overflow g) \<inter> block ipa = {}
         \<and> (\<exists>s \<in> set (overflow g'). block ipa \<subseteq> {fst (o_extent s) ..< snd (o_extent s)}))"
  using r
proof (cases rule: guest_overflow_alloc_cases)
  case full
  then show ?thesis using wf by simp
next
  case (reuse ss)
  have "\<forall>s \<in> set (overflow g). extent_ok (guest_size g) (o_extent s) \<and> segment_ok (overflow_ipa_next g) s"
    "all_apart (map o_extent (overflow g))"
    using wf by (auto simp: backing_wf_def extents_def all_apart_append)
  note sp = overflow_reuse_spec [OF reuse(1) this]
  then have "map (\<lambda>(i, z, h). (unat i, unat i + unat z)) (map (\<lambda>s. (ipa_start s, o_size s, o_host_base s)) ss)
      = map (\<lambda>(i, z, h). (unat i, unat i + unat z)) (map (\<lambda>s. (ipa_start s, o_size s, o_host_base s)) (overflow g))"
    by simp
  then have ex: "map o_extent ss = map o_extent (overflow g)" by (simp add: o_def o_extent_def [abs_def])
  obtain s where s: "s \<in> set (overflow g)" "block ipa \<subseteq> {fst (o_extent s) ..< snd (o_extent s)}" using sp by blast
  then have "o_extent s \<in> set (map o_extent ss)" using ex by simp
  then obtain t where "t \<in> set ss" "o_extent t = o_extent s" by auto
  then have "\<exists>s \<in> set (overflow g'). block ipa \<subseteq> {fst (o_extent s) ..< snd (o_extent s)}"
    using s(2) reuse(2) by (intro bexI [of _ t]) simp_all
  moreover have "backing_wf g'" using wf sp ex reuse(2) by (simp add: backing_wf_def extents_def)
  ultimately show ?thesis using sp reuse(2) by simp
next
  case (fresh st host)
  let ?z = "GUEST_OVERFLOW_SIZE"
  have z: "unat ?z = 0x40000000" "?z \<noteq> 0" by (simp_all add: GUEST_OVERFLOW_SIZE_def)
  have ms: "\<forall>m \<in> set (mappings g). extent_ok (guest_size g) (m_extent m)" using wf by (auto simp: backing_wf_def extents_def)
  note sk = overflow_skip_spec [OF fresh(3) ms sum_no_wrap [OF fresh(2) z(2)] refl z(2)]
  have st: "guest_size g \<le> st" "overflow_ipa_next g \<le> st" using fresh(1) by (auto simp: not_less)
  have x: "extent_ok (guest_size g) (unat ipa, unat ipa + unat ?z)"
    using sk st(1) z by (auto simp: extent_ok_def word_le_nat_alt)
  have end': "unat (ipa + ?z) = unat ipa + unat ?z" using sk by (intro extent_sum) simp
  have "apart (o_extent s) (unat ipa, unat ipa + unat ?z)" if "s \<in> set (overflow g)" for s
    using wf that sk st(2) by (auto simp: backing_wf_def segment_ok_def apart_def o_extent_def word_le_nat_alt)
  moreover have "apart (m_extent m) (unat ipa, unat ipa + unat ?z)" if "m \<in> set (mappings g)" for m
    using sk that by (auto simp: apart_def)
  moreover have ex: "extents g' = extents g @ [(unat ipa, unat ipa + unat ?z)]"
    using fresh(4) by (simp add: extents_def o_extent_def)
  ultimately have ap: "all_apart (extents g')"
    using wf unfolding ex by (auto simp: backing_wf_def all_apart_append extents_def)
  have seg: "segment_ok (ipa + ?z) s" if "s \<in> set (overflow g)" for s
    using wf that end' sk st(2) by (fastforce simp: backing_wf_def segment_ok_def word_le_nat_alt)
  have new: "segment_ok (ipa + ?z) \<lparr>ipa_start = ipa, o_size = ?z, o_host_base = host, o_next = BLOCK_2MIB\<rparr>"
    using end' by (simp add: segment_ok_def GUEST_OVERFLOW_SIZE_def BLOCK_2MIB_def)
  have wf': "backing_wf g'"
    using wf x ap ex seg new fresh(4) by (auto simp: backing_wf_def)
  have h': "handed_out (overflow g') = handed_out (overflow g) \<union> block ipa"
    using fresh(4) by (auto simp: handed_out_def block_def BLOCK_2MIB_def)
  have bs: "block ipa \<subseteq> {unat ipa ..< unat ipa + unat ?z}" using z by (auto simp: block_def)
  have "x \<notin> block ipa" if x: "x \<in> handed_out (overflow g)" for x
  proof -
    obtain s where "s \<in> set (overflow g)" "fst (o_extent s) \<le> x" "x < snd (o_extent s)"
      using handed_out_in [OF x, of "overflow_ipa_next g"] wf by (auto simp: backing_wf_def)
    then show ?thesis using wf sk st(2)
      by (fastforce simp: backing_wf_def segment_ok_def block_def o_extent_def word_le_nat_alt)
  qed
  then show ?thesis using wf' h' bs fresh(4) by (auto simp: o_extent_def)
qed

section \<open>Resolving an address\<close>

text \<open>The host address behind a guest physical address: slab, extra mapping or overflow segment.\<close>

definition host_of :: "'a pt_guest_scheme \<Rightarrow> u64 \<Rightarrow> u64 option" where
  "host_of g gpa =
     (if gpa < guest_size g then Some (host_base g + gpa)
      else case guest_find_mapping g gpa of
             Some m \<Rightarrow> Some (m_host_va m + (gpa - m_gpa m))
           | None \<Rightarrow> (case guest_find_overflow g gpa of
                        Some s \<Rightarrow> Some (o_host_base s + (gpa - ipa_start s))
                      | None \<Rightarrow> None))"

lemma apart_common: "apart a b \<Longrightarrow> fst a \<le> x \<Longrightarrow> x < snd a \<Longrightarrow> fst b \<le> x \<Longrightarrow> x < snd b \<Longrightarrow> False"
  by (auto simp: apart_def)

lemma all_apart_unique:
  "all_apart (map f xs) \<Longrightarrow> a \<in> set xs \<Longrightarrow> b \<in> set xs \<Longrightarrow> fst (f a) \<le> x \<Longrightarrow> x < snd (f a)
    \<Longrightarrow> fst (f b) \<le> x \<Longrightarrow> x < snd (f b) \<Longrightarrow> a = b"
proof (induction xs)
  case (Cons c cs)
  then show ?case using apart_common [of "f a" "f b" x] apart_common [of "f b" "f a" x] by auto
qed simp

lemma find_unique:
  assumes "b \<in> set xs" "P b" "\<And>a. a \<in> set xs \<Longrightarrow> P a \<Longrightarrow> a = b"
  shows "find P xs = Some b"
proof (cases "find P xs")
  case None
  then show ?thesis using assms(1,2) by (auto simp: find_None_iff)
next
  case (Some a)
  then have "a \<in> set xs" "P a" by (auto simp: find_Some_iff)
  then show ?thesis using assms(3) Some by simp
qed

lemma in_m_extent:
  assumes "backing_wf g" "m \<in> set (mappings g)"
  shows "gpa \<ge> m_gpa m \<and> gpa < m_gpa m + m_size m \<longleftrightarrow> fst (m_extent m) \<le> unat gpa \<and> unat gpa < snd (m_extent m)"
  using in_extent [of "guest_size g" "m_gpa m" "m_size m" gpa] assms
  by (simp add: backing_wf_def extents_def m_extent_def)

lemma in_o_extent:
  assumes "backing_wf g" "s \<in> set (overflow g)"
  shows "gpa \<ge> ipa_start s \<and> gpa < ipa_start s + o_size s \<longleftrightarrow> fst (o_extent s) \<le> unat gpa \<and> unat gpa < snd (o_extent s)"
  using in_extent [of "guest_size g" "ipa_start s" "o_size s" gpa] assms
  by (simp add: backing_wf_def extents_def o_extent_def)

lemma backing_above:
  assumes "backing_wf g" "x \<in> set (extents g)" "fst x \<le> unat gpa"
  shows "\<not> gpa < guest_size g"
  using assms by (auto simp: backing_wf_def extent_ok_def word_less_nat_alt)

lemma guest_find_mapping_spec:
  assumes wf: "backing_wf g"
  shows "guest_find_mapping g gpa = Some m \<longleftrightarrow>
    m \<in> set (mappings g) \<and> fst (m_extent m) \<le> unat gpa \<and> unat gpa < snd (m_extent m)"
proof
  assume "guest_find_mapping g gpa = Some m"
  then have "m \<in> set (mappings g)" "gpa \<ge> m_gpa m \<and> gpa < m_gpa m + m_size m"
    by (auto simp: guest_find_mapping_def find_Some_iff split: if_splits)
  then show "m \<in> set (mappings g) \<and> fst (m_extent m) \<le> unat gpa \<and> unat gpa < snd (m_extent m)"
    using in_m_extent [OF wf] by simp
next
  assume m: "m \<in> set (mappings g) \<and> fst (m_extent m) \<le> unat gpa \<and> unat gpa < snd (m_extent m)"
  have ap: "all_apart (map m_extent (mappings g))" using wf by (simp add: backing_wf_def extents_def all_apart_append)
  have "\<not> gpa < guest_size g" using backing_above [OF wf, of "m_extent m" gpa] m by (simp add: extents_def)
  moreover have "find (\<lambda>m. gpa \<ge> m_gpa m \<and> gpa < m_gpa m + m_size m) (mappings g) = Some m"
    using m in_m_extent [OF wf, of _ gpa] all_apart_unique [OF ap, of _ m "unat gpa"] by (intro find_unique) auto
  ultimately show "guest_find_mapping g gpa = Some m" by (simp add: guest_find_mapping_def)
qed

lemma guest_find_overflow_spec:
  assumes wf: "backing_wf g"
  shows "guest_find_overflow g gpa = Some s \<longleftrightarrow>
    s \<in> set (overflow g) \<and> fst (o_extent s) \<le> unat gpa \<and> unat gpa < snd (o_extent s)"
proof
  assume "guest_find_overflow g gpa = Some s"
  then have "s \<in> set (overflow g)" "gpa \<ge> ipa_start s \<and> gpa < ipa_start s + o_size s"
    by (auto simp: guest_find_overflow_def find_Some_iff split: if_splits)
  then show "s \<in> set (overflow g) \<and> fst (o_extent s) \<le> unat gpa \<and> unat gpa < snd (o_extent s)"
    using in_o_extent [OF wf] by simp
next
  assume s: "s \<in> set (overflow g) \<and> fst (o_extent s) \<le> unat gpa \<and> unat gpa < snd (o_extent s)"
  have ap: "all_apart (map o_extent (overflow g))" using wf by (simp add: backing_wf_def extents_def all_apart_append)
  have "\<not> gpa < guest_size g" using backing_above [OF wf, of "o_extent s" gpa] s by (simp add: extents_def)
  moreover have "find (\<lambda>s. gpa \<ge> ipa_start s \<and> gpa < ipa_start s + o_size s) (overflow g) = Some s"
    using s in_o_extent [OF wf, of _ gpa] all_apart_unique [OF ap, of _ s "unat gpa"] by (intro find_unique) auto
  ultimately show "guest_find_overflow g gpa = Some s" by (simp add: guest_find_overflow_def)
qed

lemma mapping_not_overflow:
  assumes "backing_wf g" "s \<in> set (overflow g)" "fst (o_extent s) \<le> unat gpa" "unat gpa < snd (o_extent s)"
  shows "guest_find_mapping g gpa = None"
proof (rule ccontr)
  assume "\<not> ?thesis"
  then obtain m where m: "guest_find_mapping g gpa = Some m" by auto
  then have "m \<in> set (mappings g)" "fst (m_extent m) \<le> unat gpa" "unat gpa < snd (m_extent m)"
    using guest_find_mapping_spec [OF assms(1)] by auto
  moreover have "apart (m_extent m) (o_extent s)"
    using assms(1,2) calculation(1) by (auto simp: backing_wf_def extents_def all_apart_append)
  ultimately show False using apart_common assms(3,4) by blast
qed

section \<open>What the host holds\<close>

definition m_entry :: "guest_mapping \<Rightarrow> u64 \<times> u64" where "m_entry m = (m_gpa m, m_size m)"
definition o_entry :: "guest_overflow \<Rightarrow> u64 \<times> u64" where "o_entry s = (ipa_start s, o_size s)"
definition m_buffer :: "guest_mapping \<Rightarrow> u64 \<times> u64" where "m_buffer m = (m_host_va m, m_size m)"
definition o_buffer :: "guest_overflow \<Rightarrow> u64 \<times> u64" where "o_buffer s = (o_host_base s, o_size s)"

text \<open>
  The books balance: what is entered in stage 2 and what is held from \<^verbatim>\<open>mmap\<close> is exactly what the two
  tables record.
\<close>

definition backing_ledger :: "'a pt_guest_scheme \<Rightarrow> bool" where
  "backing_ledger g \<longleftrightarrow>
     mset (stage2 g) = mset (map m_entry (mappings g)) + mset (map o_entry (overflow g))
     \<and> mset (host_live g) = mset (map m_buffer (filter m_owns_host (mappings g))) + mset (map o_buffer (overflow g))
     \<and> (\<forall>m \<in> set (mappings g). m_host_va m \<noteq> 0 \<and> m_size m \<noteq> 0)
     \<and> (\<forall>s \<in> set (overflow g). o_host_base s \<noteq> 0 \<and> o_size s \<noteq> 0)"

lemma guest_add_mapping_ledger:
  assumes l: "backing_ledger g" and mm: "\<And>live z. mm live z \<noteq> Some 0"
    and r: "guest_add_mapping mm hv gpa sz perms va g = (rc, va', g')"
  shows "backing_ledger g'"
  using r
proof (cases rule: guest_add_mapping_cases)
  case ok
  then have "va' \<noteq> 0" "sz \<noteq> 0" using mm by (auto simp: guest_mapping_overlaps_def)
  then show ?thesis using l ok(7) by (auto simp: backing_ledger_def m_entry_def m_buffer_def)
qed (use l in simp)

lemma overflow_reuse_entries:
  "overflow_reuse ss = Some (ipa, ss') \<Longrightarrow>
    map o_entry ss' = map o_entry ss \<and> map o_buffer ss' = map o_buffer ss
    \<and> ((\<forall>s \<in> set ss'. o_host_base s \<noteq> 0 \<and> o_size s \<noteq> 0) \<longleftrightarrow> (\<forall>s \<in> set ss. o_host_base s \<noteq> 0 \<and> o_size s \<noteq> 0))"
  by (induction ss arbitrary: ss') (auto simp: o_entry_def o_buffer_def split: if_splits)

lemma guest_overflow_alloc_ledger:
  assumes l: "backing_ledger g" and mm: "\<And>live z. mm live z \<noteq> Some 0"
    and r: "guest_overflow_alloc mm hv g = (ipa, g')"
  shows "backing_ledger g'"
  using r
proof (cases rule: guest_overflow_alloc_cases)
  case (reuse ss)
  then show ?thesis using l overflow_reuse_entries [OF reuse(1)] by (simp add: backing_ledger_def)
next
  case (fresh st host)
  then have "host \<noteq> 0" using mm by auto
  then show ?thesis
    using l fresh(4) by (auto simp: backing_ledger_def o_entry_def o_buffer_def GUEST_OVERFLOW_SIZE_def)
qed (use l in simp)

lemma fold_release_mapping:
  "\<forall>m \<in> set ms. m_host_va m \<noteq> 0 \<and> m_size m \<noteq> 0 \<Longrightarrow>
    mset (stage2 (fold release_mapping ms g)) = mset (stage2 g) - mset (map m_entry ms)
    \<and> mset (host_live (fold release_mapping ms g)) = mset (host_live g) - mset (map m_buffer (filter m_owns_host ms))
    \<and> overflow (fold release_mapping ms g) = overflow g
    \<and> overflow_ipa_next (fold release_mapping ms g) = overflow_ipa_next g
    \<and> guest_size (fold release_mapping ms g) = guest_size g"
  by (induction ms arbitrary: g) (auto simp: release_mapping_def m_entry_def m_buffer_def diff_diff_eq)

lemma fold_release_segment:
  "\<forall>s \<in> set ss. o_host_base s \<noteq> 0 \<and> o_size s \<noteq> 0 \<Longrightarrow>
    mset (stage2 (fold release_segment ss g)) = mset (stage2 g) - mset (map o_entry ss)
    \<and> mset (host_live (fold release_segment ss g)) = mset (host_live g) - mset (map o_buffer ss)
    \<and> mappings (fold release_segment ss g) = mappings g
    \<and> guest_size (fold release_segment ss g) = guest_size g"
  by (induction ss arbitrary: g) (auto simp: release_segment_def o_entry_def o_buffer_def diff_diff_eq)

lemma release_extra_mappings_ledger:
  "backing_ledger g \<Longrightarrow> backing_ledger (release_extra_mappings g)"
  using fold_release_mapping [of "mappings g" g]
  by (auto simp: backing_ledger_def release_extra_mappings_def)

lemma release_overflow_segments_ledger:
  "backing_ledger g \<Longrightarrow> backing_ledger (release_overflow_segments anchor g)"
  using fold_release_segment [of "overflow g" g]
  by (auto simp: backing_ledger_def release_overflow_segments_def)

section \<open>Reachable backings\<close>

text \<open>
  The life of the two tables between \<open>guest_init\<close> and \<open>guest_destroy\<close>: mappings are added, blocks
  allocated, and both tables released, in any order.
\<close>

definition backing_fresh :: "'a pt_guest_scheme \<Rightarrow> bool" where
  "backing_fresh g \<longleftrightarrow> mappings g = [] \<and> overflow g = [] \<and> overflow_ipa_next g = guest_size g
     \<and> host_live g = [] \<and> stage2 g = []"

inductive backing_reach :: "host_mmap \<Rightarrow> hv_vm_map \<Rightarrow> 'a pt_guest_scheme \<Rightarrow> bool" for mm hv where
  init: "backing_fresh g \<Longrightarrow> backing_reach mm hv g"
| add: "backing_reach mm hv g \<Longrightarrow> guest_add_mapping mm hv gpa sz perms va g = (rc, va', g') \<Longrightarrow> backing_reach mm hv g'"
| alloc: "backing_reach mm hv g \<Longrightarrow> guest_overflow_alloc mm hv g = (ipa, g') \<Longrightarrow> backing_reach mm hv g'"
| release_mappings: "backing_reach mm hv g \<Longrightarrow> backing_reach mm hv (release_extra_mappings g)"
| release_segments: "backing_reach mm hv g \<Longrightarrow> backing_reach mm hv (release_overflow_segments (guest_size g) g)"

lemma all_apart_sub: "all_apart (xs @ ys) \<Longrightarrow> all_apart xs \<and> all_apart ys"
  by (simp add: all_apart_append)

lemma release_wf:
  assumes "backing_wf g" "backing_ledger g"
  shows "backing_wf (release_extra_mappings g)" "backing_wf (release_overflow_segments (guest_size g) g)"
proof -
  have ok: "\<forall>m \<in> set (mappings g). m_host_va m \<noteq> 0 \<and> m_size m \<noteq> 0"
    "\<forall>s \<in> set (overflow g). o_host_base s \<noteq> 0 \<and> o_size s \<noteq> 0"
    using assms(2) by (auto simp: backing_ledger_def)
  show "backing_wf (release_extra_mappings g)"
    using assms(1) fold_release_mapping [OF ok(1), of g]
    by (simp add: backing_wf_def release_extra_mappings_def extents_def all_apart_append)
  show "backing_wf (release_overflow_segments (guest_size g) g)"
    using assms(1) fold_release_segment [OF ok(2), of g]
    by (simp add: backing_wf_def release_overflow_segments_def extents_def all_apart_append)
qed

text \<open>
  C23. Whatever sequence of mappings, block allocations and releases a guest goes through, the IPA
  extents behind it stay above the primary slab and apart from each other, no extent wraps, every
  segment's bump pointer is within it, and the host buffers and stage-2 entries held are exactly the
  recorded ones; so releasing both tables leaves nothing held.
\<close>

theorem guest_backing_invariant:
  assumes "backing_reach mm hv g" "\<forall>live z. mm live z \<noteq> Some 0"
  shows "backing_wf g \<and> backing_ledger g
    \<and> host_live (release_overflow_segments 0 (release_extra_mappings g)) = []
    \<and> stage2 (release_overflow_segments 0 (release_extra_mappings g)) = []"
proof -
  have inv: "backing_wf g \<and> backing_ledger g"
    using assms(1)
  proof induction
    case (init g)
    then show ?case by (simp add: backing_fresh_def backing_wf_def backing_ledger_def extents_def)
  next
    case (add g gpa sz perms va rc va' g')
    then show ?case using guest_add_mapping_wf guest_add_mapping_ledger assms(2) by blast
  next
    case (alloc g ipa g')
    then show ?case using guest_overflow_alloc_spec guest_overflow_alloc_ledger assms(2) by blast
  next
    case (release_mappings g)
    then show ?case using release_wf(1) release_extra_mappings_ledger by blast
  next
    case (release_segments g)
    then show ?case using release_wf(2) release_overflow_segments_ledger by blast
  qed
  let ?g = "release_overflow_segments 0 (release_extra_mappings g)"
  have l: "backing_ledger ?g" using inv release_extra_mappings_ledger release_overflow_segments_ledger by blast
  have e: "\<forall>s \<in> set (overflow (release_extra_mappings g)). o_host_base s \<noteq> 0 \<and> o_size s \<noteq> 0"
    using inv release_extra_mappings_ledger by (auto simp: backing_ledger_def)
  have "mappings ?g = [] \<and> overflow ?g = []"
    using fold_release_segment [OF e, of "release_extra_mappings g"]
    by (simp add: release_overflow_segments_def) (simp add: release_extra_mappings_def)
  then show ?thesis using inv l by (simp add: backing_ledger_def)
qed

definition example_hv_map :: hv_vm_map where
  "example_hv_map s2 host ipa z perms = 0"

definition example_small_mmap :: host_mmap where
  "example_small_mmap live z = (if length live < 4 then Some (0x700000000000 + word_of_nat (length live) * 0x80000000) else None)"

lemma example_small_mmap_nonnull: "\<forall>live z. example_small_mmap live z \<noteq> Some 0"
proof -
  have "n < 4 \<Longrightarrow> (0x700000000000 :: u64) + word_of_nat n * 0x80000000 \<noteq> 0" for n :: nat
    by (cases "n = 0 \<or> n = 1 \<or> n = 2 \<or> n = 3") auto
  then show ?thesis by (auto simp: example_small_mmap_def)
qed

theorem guest_backing_invariant_witness:
  "let g1 = snd (snd (guest_add_mapping example_small_mmap example_hv_map 0x1000000000 0x4000 3 0 example_pt));
       g2 = snd (guest_overflow_alloc example_small_mmap example_hv_map g1)
   in backing_wf g2 \<and> host_live (release_overflow_segments 0 (release_extra_mappings g2)) = []"
proof -
  let ?r = "guest_add_mapping example_small_mmap example_hv_map 0x1000000000 0x4000 3 0 example_pt"
  let ?g1 = "snd (snd ?r)"
  have r1: "backing_reach example_small_mmap example_hv_map ?g1"
    by (rule backing_reach.add [OF backing_reach.init, where rc = "fst ?r" and va' = "fst (snd ?r)"])
      (simp_all add: backing_fresh_def)
  have "backing_reach example_small_mmap example_hv_map (snd (guest_overflow_alloc example_small_mmap example_hv_map ?g1))"
    by (rule backing_reach.alloc [OF r1 prod.collapse [symmetric]])
  from guest_backing_invariant [OF this example_small_mmap_nonnull] show ?thesis by (simp add: Let_def)
qed

section \<open>Single operations\<close>

lemma host_of_mapping:
  assumes wf: "backing_wf g" and m: "m \<in> set (mappings g)"
    "fst (m_extent m) \<le> unat a" "unat a < snd (m_extent m)"
  shows "host_of g a = Some (m_host_va m + (a - m_gpa m))"
proof -
  have "\<not> a < guest_size g" using backing_above [OF wf _ m(2)] m(1) by (simp add: extents_def)
  moreover have "guest_find_mapping g a = Some m" using m guest_find_mapping_spec [OF wf] by blast
  ultimately show ?thesis by (simp add: host_of_def)
qed

lemma host_of_overflow:
  assumes wf: "backing_wf g" and s: "s \<in> set (overflow g)"
    "fst (o_extent s) \<le> unat a" "unat a < snd (o_extent s)"
  shows "host_of g a = Some (o_host_base s + (a - ipa_start s))"
proof -
  have "\<not> a < guest_size g" using backing_above [OF wf _ s(2)] s(1) by (simp add: extents_def)
  moreover have "guest_find_overflow g a = Some s" using s guest_find_overflow_spec [OF wf] by blast
  ultimately show ?thesis using mapping_not_overflow [OF wf s] by (simp add: host_of_def)
qed

lemma host_of_cases:
  assumes wf: "backing_wf g" and h: "host_of g a = Some h"
  obtains (slab) "a < guest_size g" "h = host_base g + a"
  | (mapping) m where "m \<in> set (mappings g)" "fst (m_extent m) \<le> unat a" "unat a < snd (m_extent m)"
      "h = m_host_va m + (a - m_gpa m)"
  | (segment) s where "s \<in> set (overflow g)" "fst (o_extent s) \<le> unat a" "unat a < snd (o_extent s)"
      "h = o_host_base s + (a - ipa_start s)"
proof (cases "a < guest_size g")
  case True
  then show thesis using h slab by (simp add: host_of_def)
next
  case False
  show thesis
  proof (cases "guest_find_mapping g a")
    case (Some m)
    have "h = m_host_va m + (a - m_gpa m)" using False h Some by (simp add: host_of_def)
    then show thesis using Some mapping guest_find_mapping_spec [OF wf] by blast
  next
    case None
    then obtain s where "guest_find_overflow g a = Some s" "h = o_host_base s + (a - ipa_start s)"
      using False h by (auto simp: host_of_def split: option.splits)
    then show thesis using segment guest_find_overflow_spec [OF wf] by blast
  qed
qed

lemma host_of_stable:
  assumes wf: "backing_wf g" "backing_wf g'" and h: "host_of g a = Some h"
    and keep: "guest_size g' = guest_size g" "host_base g' = host_base g"
      "set (mappings g) \<subseteq> set (mappings g')" "set (overflow g) \<subseteq> set (overflow g')"
  shows "host_of g' a = Some h"
  using wf(1) h
proof (cases rule: host_of_cases)
  case slab
  then show ?thesis using keep by (simp add: host_of_def)
next
  case (mapping m)
  then show ?thesis using host_of_mapping [OF wf(2)] keep(3) by auto
next
  case (segment s)
  then show ?thesis using host_of_overflow [OF wf(2)] keep(4) by auto
qed

text \<open>
  A mapping that is accepted makes its whole IPA range resolve to consecutive host addresses and
  leaves the resolution of every other address alone; one that is refused (unaligned, overlapping,
  table full, or turned down by the host) changes nothing.
\<close>

theorem guest_add_mapping_resolves:
  assumes wf: "backing_wf g" and r: "guest_add_mapping mm hv gpa sz perms va g = (rc, va', g')"
  shows "backing_wf g' \<and> (rc = -1 \<and> g' = g \<and> va' = va
    \<or> rc = 0 \<and> (\<forall>i < unat sz. host_of g' (gpa + word_of_nat i) = Some (va' + word_of_nat i))
      \<and> (\<forall>a h. host_of g a = Some h \<longrightarrow> host_of g' a = Some h))"
proof -
  note wf' = guest_add_mapping_wf [OF wf r]
  show ?thesis
    using r
  proof (cases rule: guest_add_mapping_cases)
    case fail
    then show ?thesis using wf' by simp
  next
    case ok
    let ?m = "\<lparr>m_gpa = gpa, m_size = sz, m_host_va = va', m_hv_perms = perms, m_owns_host = (va = 0)\<rparr>"
    have m: "?m \<in> set (mappings g')" using ok(7) by simp
    have "unat gpa + unat sz < 2 ^ 64"
      using ok(4) guest_mapping_overlaps_iff [OF wf] by (auto simp: extent_ok_def)
    then have "unat (gpa + word_of_nat i) = unat gpa + i" if "i < unat sz" for i
      using that by (simp add: unat_add_u64 unat_of_nat)
    then have "host_of g' (gpa + word_of_nat i) = Some (va' + word_of_nat i)" if "i < unat sz" for i
      using host_of_mapping [OF wf' m, of "gpa + word_of_nat i"] that by (simp add: m_extent_def)
    moreover have "host_of g' a = Some h" if "host_of g a = Some h" for a h
      by (rule host_of_stable [OF wf wf' that]) (use ok(7) in auto)
    ultimately show ?thesis using wf' ok(1) by blast
  qed
qed

theorem guest_add_mapping_resolves_witness:
  "guest_add_mapping example_small_mmap example_hv_map 0x1000000000 0x4000 3 0 example_pt
    = (0, 0x700000000000, snd (snd (guest_add_mapping example_small_mmap example_hv_map 0x1000000000 0x4000 3 0 example_pt)))
   \<and> host_of (snd (snd (guest_add_mapping example_small_mmap example_hv_map 0x1000000000 0x4000 3 0 example_pt)))
       0x1000003FFF = Some 0x700000003FFF"
proof -
  let ?r = "guest_add_mapping example_small_mmap example_hv_map 0x1000000000 0x4000 3 0 example_pt"
  have wf: "backing_wf example_pt" by (simp add: backing_wf_def extents_def)
  have rc: "fst ?r = 0" "fst (snd ?r) = 0x700000000000"
    by (simp_all add: guest_add_mapping_def guest_mapping_overlaps_def example_small_mmap_def example_hv_map_def
        HV_SUCCESS_def GUEST_MAX_MAPPINGS_def PAGE_SIZE_def)
  have eq: "?r = (0, 0x700000000000, snd (snd ?r))" using rc by (metis prod.collapse)
  from guest_add_mapping_resolves [OF wf eq] have
    "\<forall>i < 0x4000. host_of (snd (snd ?r)) (0x1000000000 + word_of_nat i) = Some (0x700000000000 + word_of_nat i)" by simp
  from this [rule_format, of "0x3FFF"] eq show ?thesis by simp
qed

text \<open>
  C15. A block handed out by the overflow allocator lies inside one segment and meets no block handed
  out before, the primary slab or any mapping; nothing else changes, and a failing allocation leaves
  the guest as it was.
\<close>

theorem guest_overflow_alloc_fresh:
  assumes wf: "backing_wf g" and r: "guest_overflow_alloc mm hv g = (ipa, g')"
  shows "backing_wf g' \<and> mappings g' = mappings g
    \<and> (ipa = UINT64_MAX \<and> g' = g
       \<or> handed_out (overflow g') = handed_out (overflow g) \<union> block ipa
         \<and> handed_out (overflow g) \<inter> block ipa = {}
         \<and> (\<forall>m \<in> set (mappings g). {fst (m_extent m) ..< snd (m_extent m)} \<inter> block ipa = {})
         \<and> guest_size g \<le> ipa \<and> (\<forall>a. unat a \<in> block ipa \<longrightarrow> host_of g' a \<noteq> None))"
proof (cases "ipa = UINT64_MAX \<and> g' = g")
  case True
  then show ?thesis using guest_overflow_alloc_spec [OF wf r] by blast
next
  case False
  then obtain s where sp: "backing_wf g'" "mappings g' = mappings g" "guest_size g' = guest_size g"
      "handed_out (overflow g') = handed_out (overflow g) \<union> block ipa" "handed_out (overflow g) \<inter> block ipa = {}"
    and s: "s \<in> set (overflow g')" "block ipa \<subseteq> {fst (o_extent s) ..< snd (o_extent s)}"
    using guest_overflow_alloc_spec [OF wf r] by blast
  have "{fst (m_extent m) ..< snd (m_extent m)} \<inter> block ipa = {}" if "m \<in> set (mappings g)" for m
  proof -
    have "apart (m_extent m) (o_extent s)"
      using sp(1,2) s(1) that by (auto simp: backing_wf_def extents_def all_apart_append)
    then show ?thesis using s(2) by (fastforce simp: apart_def)
  qed
  moreover have "unat ipa \<in> block ipa" by (simp add: block_def)
  then have "fst (o_extent s) \<le> unat ipa" using s(2) by auto
  then have "guest_size g \<le> ipa" using backing_above [OF sp(1), of "o_extent s" ipa] s(1) sp(3) by (simp add: extents_def)
  moreover have "host_of g' a \<noteq> None" if "unat a \<in> block ipa" for a
    using host_of_overflow [OF sp(1) s(1), of a] s(2) that by auto
  ultimately show ?thesis using sp by blast
qed

theorem guest_overflow_alloc_fresh_witness:
  "let (a, g1) = guest_overflow_alloc example_small_mmap example_hv_map example_pt in
   let (b, g2) = guest_overflow_alloc example_small_mmap example_hv_map g1 in
   a = 0x1000000000 \<and> b = 0x1000200000 \<and> block a \<inter> block b = {}"
proof -
  let ?r = "guest_overflow_alloc example_small_mmap example_hv_map example_pt"
  let ?q = "guest_overflow_alloc example_small_mmap example_hv_map (snd ?r)"
  have wf: "backing_wf example_pt" by (simp add: backing_wf_def extents_def)
  have a: "fst ?r = 0x1000000000" "overflow (snd ?r) = [\<lparr>ipa_start = 0x1000000000, o_size = 0x40000000,
      o_host_base = 0x700000000000, o_next = 0x200000\<rparr>]"
    by (simp_all add: guest_overflow_alloc_def overflow_skip.simps example_small_mmap_def example_hv_map_def
        HV_SUCCESS_def GUEST_MAX_OVERFLOW_def GUEST_OVERFLOW_SIZE_def BLOCK_2MIB_def Let_def)
  define g1 where "g1 = snd ?r"
  have b: "fst ?q = 0x1000200000"
    using a(2) unfolding g1_def [symmetric] by (simp add: guest_overflow_alloc_def BLOCK_2MIB_def)
  have wf1: "backing_wf (snd ?r)"
    using guest_overflow_alloc_spec [OF wf prod.collapse [symmetric]] by blast
  have "fst ?q \<noteq> UINT64_MAX" using b by (simp add: UINT64_MAX_def)
  then have "handed_out (overflow (snd ?r)) \<inter> block (fst ?q) = {}"
    using guest_overflow_alloc_fresh [OF wf1 prod.collapse [symmetric]] by blast
  moreover have "block 0x1000000000 \<subseteq> handed_out (overflow (snd ?r))"
    by (simp add: a(2) handed_out_def block_def)
  ultimately show ?thesis using a(1) b by (auto simp: case_prod_unfold Let_def)
qed

end
