(* ===== verification/Page_Table_Laws.thy ===== *)
theory Page_Table_Laws
  imports Page_Tables
begin

text \<open>
  The structure of the page tables: what a walk reads (\<open>tab\<close>, \<open>leaf\<close>), the invariant that
  the reachable tables form a tree of distinct pages of the pool (\<open>pt_wf\<close>), and how a single
  descriptor store changes the walk. The range operations are built on these.
\<close>

section \<open>Descriptor fields\<close>

definition daddr :: "u64 \<Rightarrow> u64" where
  "daddr d = d AND 0xFFFFFFFFF000"

text \<open>The permissions a descriptor can hold: readable always, EL1-only never executable.\<close>

definition norm_perms :: "u32 \<Rightarrow> u32" where
  "norm_perms perms =
     (if perms AND MEM_PERM_EL1_ONLY \<noteq> 0 then MEM_PERM_R OR MEM_PERM_W OR MEM_PERM_EL1_ONLY
      else MEM_PERM_R OR (if perms AND MEM_PERM_X \<noteq> 0 then MEM_PERM_X else 0)
        OR (if perms AND MEM_PERM_W \<noteq> 0 then MEM_PERM_W else 0))"

lemma or_and_distrib: "((x :: u64) OR y) AND z = (x AND z) OR (y AND z)"
  by (rule bit.conj_disj_distrib2)

lemma make_page_desc_fields:
  "make_page_desc pa perms AND 3 = 3" "make_page_desc pa perms AND 1 = 1"
  "daddr (make_page_desc pa perms) = daddr pa"
  "desc_to_perms (make_page_desc pa perms) = norm_perms perms"
  by (simp_all add: make_page_desc_def desc_to_perms_def norm_perms_def daddr_def pt_bits mem_perms Let_def
      or_and_distrib and.assoc)

lemma make_block_desc_fields:
  "make_block_desc pa perms AND 3 = 1" "make_block_desc pa perms AND 1 = 1"
  "make_block_desc pa perms AND L2_BLOCK_ADDR_MASK = pa AND L2_BLOCK_ADDR_MASK"
  "desc_to_perms (make_block_desc pa perms) = norm_perms perms"
  by (simp_all add: make_block_desc_def desc_to_perms_def norm_perms_def L2_BLOCK_ADDR_MASK_def pt_bits
      mem_perms Let_def or_and_distrib and.assoc)

lemma desc_kind:
  obtains (invalid) "(d :: u64) AND 1 = 0" "d AND 3 \<noteq> 1" "d AND 3 \<noteq> 3"
  | (block) "d AND 1 = 1" "d AND 3 = 1" | (table) "d AND 1 = 1" "d AND 3 = 3"
proof -
  have low: "d AND 1 = (d AND 3) AND 1" by (simp add: and.assoc)
  have m: "(3 :: u64) = mask 2" by (simp add: mask_eq_exp_minus_1)
  have "unat (d AND 3) < 4" unfolding m and_mask_unat by simp
  then have "unat (d AND 3) = 0 \<or> unat (d AND 3) = 1 \<or> unat (d AND 3) = 2 \<or> unat (d AND 3) = 3" by linarith
  then have "d AND 3 = 0 \<or> d AND 3 = 1 \<or> d AND 3 = 2 \<or> d AND 3 = 3" by (simp add: word_unat_eq_iff)
  then show thesis using that low by auto
qed

lemma addr_mask_split: "(0xFFFFFFFFF000 :: u64) = mask 48 AND NOT (mask 12)"
  by (simp add: mask_eq_exp_minus_1)

lemma daddr_unat: "unat (daddr d) = (unat d mod 2 ^ 48) div 4096 * 4096"
  unfolding daddr_def addr_mask_split and.assoc [symmetric] and_not_mask_unat and_mask_unat by simp

lemma daddr_page: "unat t < 2 ^ 48 \<Longrightarrow> 4096 dvd unat t \<Longrightarrow> daddr t = t"
  by (simp add: word_unat_eq_iff daddr_unat)

lemma daddr_daddr [simp]: "daddr (daddr d) = daddr d"
  by (simp add: daddr_def and.assoc)

lemma daddr_or_low: "daddr (t OR 3) = daddr t"
  by (simp add: daddr_def or_and_distrib)

lemma aligned_and_3: "4096 dvd unat t \<Longrightarrow> (t :: u64) AND 3 = 0"
proof -
  assume a: "4096 dvd unat t"
  have m: "(3 :: u64) = mask 2" by (simp add: mask_eq_exp_minus_1)
  have "unat (t AND 3) = unat t mod 4" unfolding m and_mask_unat by simp
  also have "\<dots> = 0" using a by (auto elim!: dvdE)
  finally show ?thesis by (simp only: unat_eq_zero)
qed

text \<open>A table descriptor for the page-aligned offset \<open>t\<close>, as the code writes it.\<close>

definition table_desc :: "u64 \<Rightarrow> u64" where
  "table_desc t = t OR PT_VALID OR PT_TABLE"

lemma table_desc_fields:
  assumes "unat t < 2 ^ 48" "4096 dvd unat t"
  shows "daddr (table_desc t) = t" "table_desc t AND 3 = 3" "table_desc t AND 1 = 1"
proof -
  show "daddr (table_desc t) = t"
    using daddr_page [OF assms] by (simp add: table_desc_def pt_bits daddr_or_low)
  show "table_desc t AND 3 = 3"
    using aligned_and_3 [OF assms(2)] by (simp add: table_desc_def pt_bits or_and_distrib)
  then show "table_desc t AND 1 = 1" by (cases "table_desc t" rule: desc_kind) auto
qed

section \<open>The walk\<close>

text \<open>
  Pages of the 48-bit address space are numbered: \<open>p\<close> is the address over 4096. \<open>idx n p\<close> is the
  index a walk uses at level \<open>n\<close>; \<open>tab g n p\<close> is the table of level \<open>n\<close> on the path of page \<open>p\<close>,
  if the path reaches that far.
\<close>

definition idx :: "nat \<Rightarrow> nat \<Rightarrow> nat" where
  "idx n p = (p div 512 ^ (3 - n)) mod 512"

definition same_path :: "nat \<Rightarrow> nat \<Rightarrow> nat \<Rightarrow> bool" where
  "same_path n p q \<longleftrightarrow> (\<forall>m < n. idx m p = idx m q)"

definition is_tab :: "nat \<Rightarrow> u64 \<Rightarrow> bool" where
  "is_tab n d = (if n < 2 then d AND 1 \<noteq> 0 else d AND 3 = 3)"

fun tab :: "'a pt_guest_scheme \<Rightarrow> nat \<Rightarrow> nat \<Rightarrow> u64 option" where
  "tab g 0 p = Some (ttbr0 g)"
| "tab g (Suc n) p =
     (case tab g n p of None \<Rightarrow> None
      | Some t \<Rightarrow> if is_tab n (pte g t (idx n p)) then Some (daddr (pte g t (idx n p))) else None)"

definition page_leaf :: "u64 \<Rightarrow> (u64 \<times> u32) option" where
  "page_leaf d = (if d AND 1 \<noteq> 0 then Some (daddr d, desc_to_perms d) else None)"

definition block_leaf :: "u64 \<Rightarrow> nat \<Rightarrow> (u64 \<times> u32) option" where
  "block_leaf d p =
     (if d AND 1 \<noteq> 0
      then Some ((d AND L2_BLOCK_ADDR_MASK) + word_of_nat (p mod 512) * PAGE_SIZE, desc_to_perms d)
      else None)"

text \<open>The translation of a page: its output address and permissions.\<close>

definition leaf :: "'a pt_guest_scheme \<Rightarrow> nat \<Rightarrow> (u64 \<times> u32) option" where
  "leaf g p =
     (case tab g 3 p of Some t3 \<Rightarrow> page_leaf (pte g t3 (idx 3 p))
      | None \<Rightarrow> (case tab g 2 p of None \<Rightarrow> None | Some t2 \<Rightarrow> block_leaf (pte g t2 (idx 2 p)) p))"

definition pool_page :: "'a pt_guest_scheme \<Rightarrow> u64 \<Rightarrow> bool" where
  "pool_page g t \<longleftrightarrow> pt_pool_base g \<le> t \<and> t < pt_pool_next g \<and> 4096 dvd unat t"

definition pool_ok :: "'a pt_guest_scheme \<Rightarrow> bool" where
  "pool_ok g \<longleftrightarrow> ipa_base g = 0 \<and> unat (guest_size g) \<le> 2 ^ 48 \<and> 0 < pt_pool_base g
     \<and> pt_pool_base g \<le> pt_pool_next g \<and> pt_pool_next g \<le> pt_pool_end g \<and> pt_pool_end g \<le> guest_size g
     \<and> 4096 dvd unat (pt_pool_next g)"

definition pt_wf :: "'a pt_guest_scheme \<Rightarrow> bool" where
  "pt_wf g \<longleftrightarrow> pool_ok g
     \<and> (\<forall>n p t. n \<le> 3 \<and> tab g n p = Some t \<longrightarrow> pool_page g t)
     \<and> (\<forall>n m p q t. n \<le> 3 \<and> m \<le> 3 \<and> tab g n p = Some t \<and> tab g m q = Some t \<longrightarrow> n = m \<and> same_path n p q)"

lemma pt_wfD:
  assumes "pt_wf g"
  shows "pool_ok g" "n \<le> 3 \<Longrightarrow> tab g n p = Some t \<Longrightarrow> pool_page g t"
    "n \<le> 3 \<Longrightarrow> m \<le> 3 \<Longrightarrow> tab g n p = Some t \<Longrightarrow> tab g m q = Some t \<Longrightarrow> n = m \<and> same_path n p q"
  using assms unfolding pt_wf_def by blast+

lemma same_path_refl [simp]: "same_path n p p"
  by (simp add: same_path_def)

lemma same_path_Suc: "same_path (Suc n) p q \<longleftrightarrow> same_path n p q \<and> idx n p = idx n q"
  by (auto simp: same_path_def less_Suc_eq)

lemma same_path_sym: "same_path n p q \<Longrightarrow> same_path n q p"
  by (simp add: same_path_def)

lemma tab_same_path: "same_path n p q \<Longrightarrow> tab g n p = tab g n q"
  by (induction n) (auto simp: same_path_Suc split: option.split)

lemma tab_mono: "tab g n p = None \<Longrightarrow> n \<le> m \<Longrightarrow> tab g m p = None"
  by (induction m) (auto simp: le_Suc_eq)

lemma pool_page_bounds:
  assumes "pool_ok g" "pool_page g t"
  shows "unat t + 4096 \<le> unat (pt_pool_next g)" "unat t < 2 ^ 48" "4096 dvd unat t" "t \<noteq> 0"
    "t \<noteq> pt_pool_next g"
proof -
  obtain a b where ab: "unat t = 4096 * a" "unat (pt_pool_next g) = 4096 * b"
    using assms by (auto simp: pool_ok_def pool_page_def elim!: dvdE)
  moreover have "unat t < unat (pt_pool_next g)" using assms(2) by (simp add: pool_page_def word_less_nat_alt)
  ultimately show "unat t + 4096 \<le> unat (pt_pool_next g)" by simp
  then show "unat t < 2 ^ 48" using assms(1) by (auto simp: pool_ok_def word_le_nat_alt)
  show "4096 dvd unat t" using assms(2) by (simp add: pool_page_def)
  show "t \<noteq> 0" using assms by (auto simp: pool_ok_def pool_page_def)
  show "t \<noteq> pt_pool_next g" using assms(2) by (auto simp: pool_page_def)
qed

lemma pt_at_pool: "pool_ok g \<Longrightarrow> pool_page g t \<Longrightarrow> pt_at g t = Some t"
  using pool_page_bounds(1) [of g t]
  by (auto simp: pt_at_def GVA_PT_TABLE_BYTES_def pool_ok_def word_nat)

section \<open>One store\<close>

lemma pte_store_fields [simp]:
  "regions (pte_store_release t i d g) = regions g"
  "guest_size (pte_store_release t i d g) = guest_size g"
  "ipa_base (pte_store_release t i d g) = ipa_base g"
  "ttbr0 (pte_store_release t i d g) = ttbr0 g"
  "pt_pool_base (pte_store_release t i d g) = pt_pool_base g"
  "pt_pool_next (pte_store_release t i d g) = pt_pool_next g"
  "pt_pool_end (pte_store_release t i d g) = pt_pool_end g"
  "tlbi_req (pte_store_release t i d g) = tlbi_req g"
  "tlbi_range_supported (pte_store_release t i d g) = tlbi_range_supported g"
  "pt_gen (pte_store_release t i d g) = pt_gen g"
  "host_base (pte_store_release t i d g) = host_base g"
  "mappings (pte_store_release t i d g) = mappings g"
  "overflow (pte_store_release t i d g) = overflow g"
  by (simp_all add: pte_store_release_def)

lemma pte_store [simp]:
  "pte (pte_store_release t i d g) s j = (if s = t \<and> j = i then d else pte g s j)"
  by (simp add: pte_store_release_def)

lemma tab_store_below:
  assumes "pt_wf g" "tab g n p0 = Some t" "n \<le> 3" "m \<le> n"
  shows "tab (pte_store_release t i d g) m p = tab g m p"
  using assms(4)
proof (induction m)
  case (Suc m)
  have "s \<noteq> t" if "tab g m p = Some s" for s
    using pt_wfD(3) [OF assms(1), of m n p s p0] assms(2,3) Suc.prems that by auto
  then show ?case using Suc by (auto split: option.split)
qed simp

lemma tab_store_off:
  assumes wf: "pt_wf g" "tab g n p0 = Some t" "n \<le> 3"
    and off: "\<not> (same_path n p p0 \<and> idx n p = i)" and "m \<le> 4"
  shows "tab (pte_store_release t i d g) m p = tab g m p"
  using assms(5)
proof (induction m)
  case (Suc m)
  have "s \<noteq> t \<or> idx m p \<noteq> i" if "tab g m p = Some s"
    for s using pt_wfD(3) [OF wf(1), of m n p s p0] wf(2,3) Suc.prems that off by auto
  then show ?case using Suc by (auto split: option.split)
qed simp

text \<open>Fields of the record other than the tables; what a sequence of edits leaves alone.\<close>

definition pt_frame :: "'a pt_guest_scheme \<Rightarrow> 'a pt_guest_scheme \<Rightarrow> bool" where
  "pt_frame g g' \<longleftrightarrow> regions g' = regions g \<and> guest_size g' = guest_size g \<and> ipa_base g' = ipa_base g
     \<and> ttbr0 g' = ttbr0 g \<and> pt_pool_base g' = pt_pool_base g \<and> pt_pool_end g' = pt_pool_end g
     \<and> tlbi_range_supported g' = tlbi_range_supported g
     \<and> host_base g' = host_base g \<and> mappings g' = mappings g \<and> overflow g' = overflow g"

lemma pt_frame_refl [simp]: "pt_frame g g"
  by (simp add: pt_frame_def)

lemma pt_frame_trans [trans]: "pt_frame g g' \<Longrightarrow> pt_frame g' g'' \<Longrightarrow> pt_frame g g''"
  by (simp add: pt_frame_def)

lemma pt_frame_store [simp]: "pt_frame g (pte_store_release t i d g')  = pt_frame g g'"
  by (simp add: pt_frame_def)

lemma pool_page_store [simp]: "pool_page (pte_store_release t i d g) s = pool_page g s"
  by (simp add: pool_page_def)

lemma pool_ok_store [simp]: "pool_ok (pte_store_release t i d g) = pool_ok g"
  by (simp add: pool_ok_def)

text \<open>A store that changes no table pointer keeps the invariant.\<close>

lemma pt_wf_same_tab:
  assumes "pt_wf g" "pool_ok g'" "\<And>s. pool_page g s \<Longrightarrow> pool_page g' s"
    "\<And>n p. n \<le> 3 \<Longrightarrow> tab g' n p = tab g n p"
  shows "pt_wf g'"
proof -
  have "pool_page g' t" if "n \<le> 3" "tab g' n p = Some t" for n p t
    using assms(3) [OF pt_wfD(2) [OF assms(1) that(1)]] assms(4) that by simp
  moreover have "n = m \<and> same_path n p q"
    if "n \<le> 3" "m \<le> 3" "tab g' n p = Some t" "tab g' m q = Some t" for n m p q t
    using pt_wfD(3) [OF assms(1) that(1,2)] assms(4) that by simp
  ultimately show ?thesis using assms(2) unfolding pt_wf_def by blast
qed

lemma store_l3:
  assumes wf: "pt_wf g" and t: "tab g 3 p0 = Some t"
  shows "pt_wf (pte_store_release t i d g)"
    and "m \<le> 3 \<Longrightarrow> tab (pte_store_release t i d g) m p = tab g m p"
    and "leaf (pte_store_release t i d g) p =
      (if same_path 3 p p0 \<and> idx 3 p = i then page_leaf d else leaf g p)"
proof -
  have same: "tab (pte_store_release t i d g) m p = tab g m p" if "m \<le> 3" for m p
    using tab_store_below [OF wf t] that by simp
  then show "m \<le> 3 \<Longrightarrow> tab (pte_store_release t i d g) m p = tab g m p" .
  show "pt_wf (pte_store_release t i d g)"
    by (rule pt_wf_same_tab [OF wf]) (use wf same in \<open>auto dest: pt_wfD(1)\<close>)
  have "tab g 3 p = Some t" if "same_path 3 p p0" using tab_same_path [OF that, of g] t by simp
  moreover have "s \<noteq> t" if "tab g 2 p = Some s" for s
    using pt_wfD(3) [OF wf, of 2 3 p s p0] t that by auto
  moreover have "same_path 3 p p0" if "tab g 3 p = Some t"
    using pt_wfD(3) [OF wf, of 3 3 p t p0] t that by simp
  ultimately show "leaf (pte_store_release t i d g) p =
      (if same_path 3 p p0 \<and> idx 3 p = i then page_leaf d else leaf g p)"
    by (auto simp: leaf_def same simp del: tab.simps split: option.split)
qed

lemma store_l2_block:
  assumes wf: "pt_wf g" and t: "tab g 2 p0 = Some t"
    and old: "pte g t i AND 3 \<noteq> 3" and new: "d AND 3 \<noteq> 3"
  shows "pt_wf (pte_store_release t i d g)"
    and "m \<le> 3 \<Longrightarrow> tab (pte_store_release t i d g) m p = tab g m p"
    and "leaf (pte_store_release t i d g) p =
      (if same_path 2 p p0 \<and> idx 2 p = i then block_leaf d p else leaf g p)"
proof -
  let ?g = "pte_store_release t i d g"
  have two: "tab ?g m p = tab g m p" if "m \<le> 2" for m p
    using tab_store_below [OF wf t] that by simp
  have hit: "tab g 2 p = Some t" if "same_path 2 p p0" for p
    using tab_same_path [OF that, of g] t by simp
  have three: "tab ?g 3 p = tab g 3 p" for p
  proof (cases "same_path 2 p p0 \<and> idx 2 p = i")
    case True
    with hit two [of 2 p] old new show ?thesis by (simp add: eval_nat_numeral is_tab_def)
  next
    case False
    then show ?thesis by (intro tab_store_off [OF wf t]) auto
  qed
  have same: "tab ?g m p = tab g m p" if "m \<le> 3" for m p
    using two three that by (cases "m = 3") auto
  then show "m \<le> 3 \<Longrightarrow> tab ?g m p = tab g m p" .
  show "pt_wf ?g" by (rule pt_wf_same_tab [OF wf]) (use wf same in \<open>auto dest: pt_wfD(1)\<close>)
  have none: "tab g 3 p = None" if "same_path 2 p p0" "idx 2 p = i" for p
    using hit [OF that(1)] old that(2) by (simp add: eval_nat_numeral is_tab_def)
  have "same_path 2 p p0" if "tab g 2 p = Some t"
    using pt_wfD(3) [OF wf, of 2 2 p t p0] t that by simp
  moreover have "s \<noteq> t" if "tab g 3 p = Some s" for s
    using pt_wfD(3) [OF wf, of 3 2 p s p0] t that by auto
  ultimately show "leaf ?g p = (if same_path 2 p p0 \<and> idx 2 p = i then block_leaf d p else leaf g p)"
    using none hit by (auto simp: leaf_def same simp del: tab.simps split: option.split)
qed

section \<open>Fresh tables\<close>

definition with_fresh :: "(nat \<Rightarrow> u64) \<Rightarrow> 'a pt_guest_scheme \<Rightarrow> 'a pt_guest_scheme" where
  "with_fresh c g =
     g\<lparr>pt_pool_next := pt_pool_next g + PAGE_SIZE, pte := (pte g)(pt_pool_next g := c)\<rparr>"

lemma pt_alloc_page_eq:
  "pt_alloc_page g =
     (if pt_pool_next g + PAGE_SIZE > pt_pool_end g then (0, g) else (pt_pool_next g, with_fresh (\<lambda>_. 0) g))"
  by (simp add: pt_alloc_page_def with_fresh_def)

lemma with_fresh_fields [simp]:
  "regions (with_fresh c g) = regions g" "guest_size (with_fresh c g) = guest_size g"
  "ipa_base (with_fresh c g) = ipa_base g" "ttbr0 (with_fresh c g) = ttbr0 g"
  "pt_pool_base (with_fresh c g) = pt_pool_base g" "pt_pool_end (with_fresh c g) = pt_pool_end g"
  "pt_pool_next (with_fresh c g) = pt_pool_next g + PAGE_SIZE"
  "tlbi_req (with_fresh c g) = tlbi_req g" "tlbi_range_supported (with_fresh c g) = tlbi_range_supported g"
  "host_base (with_fresh c g) = host_base g" "mappings (with_fresh c g) = mappings g"
  "overflow (with_fresh c g) = overflow g"
  "pt_gen (with_fresh c g) = pt_gen g"
  "pte (with_fresh c g) = (pte g)(pt_pool_next g := c)"
  by (simp_all add: with_fresh_def)

lemma pt_frame_with_fresh [simp]: "pt_frame g (with_fresh c g') = pt_frame g g'"
  by (simp add: pt_frame_def)

text \<open>Room for one more table.\<close>

definition pool_room :: "'a pt_guest_scheme \<Rightarrow> bool" where
  "pool_room g \<longleftrightarrow> \<not> pt_pool_next g + PAGE_SIZE > pt_pool_end g"

lemma pool_room_facts:
  assumes "pool_ok g" "pool_room g"
  shows "unat (pt_pool_next g + PAGE_SIZE) = unat (pt_pool_next g) + 4096"
    "pool_ok (with_fresh c g)" "pool_page (with_fresh c g) (pt_pool_next g)"
    "pool_page g s \<Longrightarrow> pool_page (with_fresh c g) s"
    "unat (pt_pool_next g) < 2 ^ 48" "4096 dvd unat (pt_pool_next g)" "pt_pool_next g \<noteq> 0"
proof -
  have lim: "unat (pt_pool_next g) \<le> 2 ^ 48" "4096 dvd unat (pt_pool_next g)"
    using assms(1) by (auto simp: pool_ok_def word_le_nat_alt)
  show nxt: "unat (pt_pool_next g + PAGE_SIZE) = unat (pt_pool_next g) + 4096"
    using lim(1) by (simp add: unat_add_u64 PAGE_SIZE_def)
  have le: "pt_pool_next g + PAGE_SIZE \<le> pt_pool_end g" using assms(2) by (simp add: pool_room_def)
  show "pool_ok (with_fresh c g)"
    using assms(1) le lim nxt by (auto simp: pool_ok_def word_nat)
  show "pool_page (with_fresh c g) (pt_pool_next g)"
    using assms(1) lim nxt by (auto simp: pool_ok_def pool_page_def word_nat)
  show "pool_page g s \<Longrightarrow> pool_page (with_fresh c g) s"
    using nxt by (auto simp: pool_page_def word_nat)
  show "unat (pt_pool_next g) < 2 ^ 48" "4096 dvd unat (pt_pool_next g)" "pt_pool_next g \<noteq> 0"
    using assms(1) le lim nxt by (auto simp: pool_ok_def word_nat)
qed

lemma with_fresh_walk:
  assumes wf: "pt_wf g" and room: "pool_room g"
  shows "m \<le> 3 \<Longrightarrow> tab (with_fresh c g) m p = tab g m p" "pt_wf (with_fresh c g)"
    "leaf (with_fresh c g) p = leaf g p"
proof -
  note ok = pt_wfD(1) [OF wf]
  have other: "s \<noteq> pt_pool_next g" if "m \<le> 3" "tab g m p = Some s" for m p s
    using pool_page_bounds(5) [OF ok pt_wfD(2) [OF wf that]] .
  have same: "tab (with_fresh c g) m p = tab g m p" if "m \<le> 3" for m p
    using that
  proof (induction m)
    case (Suc m)
    then show ?case using other [of m p] by (auto split: option.split)
  qed simp
  then show "m \<le> 3 \<Longrightarrow> tab (with_fresh c g) m p = tab g m p" .
  show "pt_wf (with_fresh c g)"
    by (rule pt_wf_same_tab [OF wf]) (use pool_room_facts [OF ok room] same in auto)
  show "leaf (with_fresh c g) p = leaf g p"
    using other [of 3 p] other [of 2 p]
    by (auto simp: leaf_def same simp del: tab.simps split: option.split)
qed

text \<open>
  Linking a fresh table: with contents \<open>c\<close> behind entry \<open>i\<close> of a level \<open>n\<close> table on the path of
  \<open>p0\<close>, where there was none.
\<close>

definition link_fresh :: "(nat \<Rightarrow> u64) \<Rightarrow> u64 \<Rightarrow> nat \<Rightarrow> 'a pt_guest_scheme \<Rightarrow> 'a pt_guest_scheme" where
  "link_fresh c t i g = pte_store_release t i (table_desc (pt_pool_next g)) (with_fresh c g)"

lemma link_fresh_tab:
  assumes wf: "pt_wf g" and room: "pool_room g" and t: "tab g n p0 = Some t" "n \<le> 2"
    and old: "\<not> is_tab n (pte g t i)" and c: "n < 2 \<Longrightarrow> c = (\<lambda>_. 0)" and m: "m \<le> 3"
  shows "tab (link_fresh c t i g) m p =
    (if m = Suc n \<and> same_path n p p0 \<and> idx n p = i then Some (pt_pool_next g) else tab g m p)"
proof -
  let ?h = "with_fresh c g" and ?g = "link_fresh c t i g"
  note w = with_fresh_walk [OF wf room, where c = c]
  note pf = pool_room_facts [OF pt_wfD(1) [OF wf] room]
  have th: "tab ?h n p0 = Some t" using w(1) t by simp
  note td = table_desc_fields [OF pf(5,6)]
  show ?thesis
  proof (cases "same_path n p p0 \<and> idx n p = i")
    case False
    then show ?thesis
      using tab_store_off [OF w(2) th, of p i m] w(1) m t(2) by (auto simp: link_fresh_def)
  next
    case True
    have at: "tab ?g n p = Some t"
      using tab_store_below [OF w(2) th, of n i _ p] w(1) t tab_same_path [of n p p0 g] True
      by (simp add: link_fresh_def)
    have new: "tab ?g (Suc n) p = Some (pt_pool_next g)"
      using at True td by (simp add: is_tab_def link_fresh_def)
    have none: "tab g (Suc n) p = None"
      using tab_same_path [of n p p0 g] True t old by simp
    have zero: "pte ?g (pt_pool_next g) j = 0" if "n < 2" for j
      using pool_page_bounds(5) [OF pt_wfD(1) [OF wf] pt_wfD(2) [OF wf _ t(1)]] t(2) c [OF that]
      by (auto simp: link_fresh_def)
    have deep: "tab ?g k p = None" if "n < 2" "Suc n < k" for k
    proof (rule tab_mono)
      show "tab ?g (Suc (Suc n)) p = None"
        using zero [OF that(1)] new by (simp add: is_tab_def del: tab.simps(1)) 
    qed (use that in simp)
    consider "m \<le> n" | "m = Suc n" | "Suc n < m" by linarith
    then show ?thesis
    proof cases
      case 1
      then show ?thesis
        using tab_store_below [OF w(2) th, of m i _ p] w(1) m t(2) by (simp add: link_fresh_def)
    next
      case 2
      then show ?thesis using new True by simp
    next
      case 3
      then show ?thesis using deep tab_mono [OF none, of m] m by auto
    qed
  qed
qed

lemma same_path_trans: "same_path n p r \<Longrightarrow> same_path n q r \<Longrightarrow> same_path n p q"
  by (simp add: same_path_def)

lemma link_fresh_wf:
  assumes wf: "pt_wf g" and room: "pool_room g" and t: "tab g n p0 = Some t" "n \<le> 2"
    and old: "\<not> is_tab n (pte g t i)" and c: "n < 2 \<Longrightarrow> c = (\<lambda>_. 0)"
  shows "pt_wf (link_fresh c t i g)"
proof -
  let ?g = "link_fresh c t i g" and ?N = "pt_pool_next g"
  note tb = link_fresh_tab [OF assms]
  note pf = pool_room_facts [OF pt_wfD(1) [OF wf] room]
  have fresh: "s \<noteq> ?N" if "m \<le> 3" "tab g m p = Some s" for m p s
    using pool_page_bounds(5) [OF pt_wfD(1) [OF wf] pt_wfD(2) [OF wf that]] .
  have page: "pool_page ?g s" if "m \<le> 3" "tab ?g m p = Some s" for m p s
  proof (cases "m = Suc n \<and> same_path n p p0 \<and> idx n p = i")
    case True
    then show ?thesis using that tb [of m p] pf(3) by (simp add: link_fresh_def del: tab.simps)
  next
    case False
    then have "tab g m p = Some s" using that tb [of m p] by (auto simp del: tab.simps)
    then have "pool_page g s" by (rule pt_wfD(2) [OF wf that(1)])
    from pf(4) [OF this] show ?thesis by (simp add: link_fresh_def)
  qed
  have inj: "m = k \<and> same_path m p q"
    if *: "m \<le> 3" "k \<le> 3" "tab ?g m p = Some s" "tab ?g k q = Some s" for m k p q s
  proof (cases "s = ?N")
    case True
    with * fresh tb [of m p] tb [of k q]
    have "m = Suc n \<and> same_path n p p0 \<and> idx n p = i" "k = Suc n \<and> same_path n q p0 \<and> idx n q = i"
      by (auto simp del: tab.simps split: if_splits)
    then show ?thesis by (auto simp: same_path_Suc intro: same_path_trans)
  next
    case False
    with * tb [of m p] tb [of k q] have "tab g m p = Some s" "tab g k q = Some s"
      by (auto simp del: tab.simps split: if_splits)
    then show ?thesis using pt_wfD(3) [OF wf *(1,2)] by blast
  qed
  have "pool_ok ?g" using pf(2) by (simp add: link_fresh_def)
  with page inj show ?thesis unfolding pt_wf_def by blast
qed

lemma link_fresh_leaf_upper:
  assumes wf: "pt_wf g" and room: "pool_room g" and t: "tab g n p0 = Some t" "n < 2"
    and old: "\<not> is_tab n (pte g t i)"
  shows "leaf (link_fresh (\<lambda>_. 0) t i g) p = leaf g p"
proof -
  let ?g = "link_fresh (\<lambda>_. 0) t i g" and ?N = "pt_pool_next g"
  have tb: "tab ?g m p = (if m = Suc n \<and> same_path n p p0 \<and> idx n p = i then Some ?N else tab g m p)"
    if "m \<le> 3" for m using link_fresh_tab [OF wf room t(1) _ old _ that] t(2) by simp
  note ok = pt_wfD(1) [OF wf]
  have other: "s \<noteq> ?N" if "m \<le> 3" "tab g m p = Some s" for m s
    using pool_page_bounds(5) [OF ok pt_wfD(2) [OF wf that]] .
  have nt: "s \<noteq> t" if "1 < m" "m \<le> 3" "tab g m p = Some s" for m s
    using pt_wfD(3) [OF wf that(2), of n p s p0] t that by auto
  have "t \<noteq> ?N" using pool_page_bounds(5) [OF ok pt_wfD(2) [OF wf _ t(1)]] t(2) by simp
  then have zero: "pte ?g ?N j = 0" for j by (auto simp: link_fresh_def)
  have keep: "pte ?g s j = pte g s j" if "1 < m" "m \<le> 3" "tab g m p = Some s" for m s j
    using nt [OF that] other [OF that(2,3)] by (simp add: link_fresh_def)
  show ?thesis
  proof (cases "n = 1 \<and> same_path n p p0 \<and> idx n p = i")
    case True
    from True have sp: "same_path n p p0" and ix: "idx n p = i" by blast+
    have "tab g (Suc n) p = None" using tab_same_path [OF sp, of g] t(1) old ix by simp
    with True have "tab g 2 p = None" by (simp add: numeral_2_eq_2 del: tab.simps)
    then have "tab g 3 p = None" by (rule tab_mono) simp
    with \<open>tab g 2 p = None\<close> True tb [of 2] tb [of 3] zero show ?thesis
      by (simp add: leaf_def block_leaf_def del: tab.simps)
  next
    case False
    then have "tab ?g 2 p = tab g 2 p" "tab ?g 3 p = tab g 3 p" using tb t(2) by auto
    then show ?thesis
      using keep [of 3] keep [of 2] by (simp add: leaf_def del: tab.simps split: option.split)
  qed
qed

lemma link_fresh_leaf_l3:
  assumes wf: "pt_wf g" and room: "pool_room g" and t: "tab g 2 p0 = Some t"
    and old: "pte g t i AND 3 \<noteq> 3"
  shows "leaf (link_fresh c t i g) p =
    (if same_path 2 p p0 \<and> idx 2 p = i then page_leaf (c (idx 3 p)) else leaf g p)"
proof -
  let ?g = "link_fresh c t i g" and ?N = "pt_pool_next g"
  have nt2: "\<not> is_tab 2 (pte g t i)" using old by (simp add: is_tab_def)
  have tb: "tab ?g m p = (if m = 3 \<and> same_path 2 p p0 \<and> idx 2 p = i then Some ?N else tab g m p)"
    if "m \<le> 3" for m using link_fresh_tab [OF wf room t _ nt2 _ that] by simp
  note ok = pt_wfD(1) [OF wf]
  have other: "s \<noteq> ?N" if "m \<le> 3" "tab g m p = Some s" for m s
    using pool_page_bounds(5) [OF ok pt_wfD(2) [OF wf that]] .
  have "t \<noteq> ?N" using pool_page_bounds(5) [OF ok pt_wfD(2) [OF wf _ t]] by simp
  then have new: "pte ?g ?N j = c j" for j by (auto simp: link_fresh_def)
  have three: "pte ?g s j = pte g s j" if "tab g 3 p = Some s" for s j
    using pt_wfD(3) [OF wf, of 3 2 p s p0] t that other [OF _ that] by (auto simp: link_fresh_def)
  have two: "pte ?g s (idx 2 p) = pte g s (idx 2 p)"
    if "tab g 2 p = Some s" "\<not> (same_path 2 p p0 \<and> idx 2 p = i)" for s
    using pt_wfD(3) [OF wf, of 2 2 p s p0] t that other [OF _ that(1)] by (auto simp: link_fresh_def)
  show ?thesis
    using tb [of 2] tb [of 3] new three two
    by (auto simp: leaf_def simp del: tab.simps split: option.split)
qed

section \<open>Addresses and indices\<close>

lemma mod_div_swap: "(x mod (a * b)) div a = (x div a) mod (b :: nat)"
  by (cases "a = 0") (simp_all add: mod_mult2_eq)

lemma idx_simps:
  "idx 0 p = p div 134217728 mod 512" "idx (Suc 0) p = p div 262144 mod 512"
  "idx 2 p = p div 512 mod 512" "idx 3 p = p mod 512"
  by (simp_all add: idx_def)

lemma unat_block_consts [simp]:
  "unat (512 * BLOCK_1GIB) = 549755813888" "unat BLOCK_1GIB = 1073741824"
  "unat BLOCK_2MIB = 2097152" "unat PAGE_SIZE = 4096"
  by (simp_all add: BLOCK_1GIB_def BLOCK_2MIB_def PAGE_SIZE_def)

lemma walk_indices:
  assumes "unat va div 4096 = p"
  shows "unat va < 2 ^ 48 \<Longrightarrow> unat (va div (512 * BLOCK_1GIB)) = idx 0 p"
    "unat (va mod (512 * BLOCK_1GIB) div BLOCK_1GIB) = idx (Suc 0) p"
    "unat (va mod BLOCK_1GIB div BLOCK_2MIB) = idx 2 p"
    "unat (va mod BLOCK_2MIB div PAGE_SIZE) = idx 3 p"
proof -
  show "unat (va div (512 * BLOCK_1GIB)) = idx 0 p" if "unat va < 2 ^ 48"
  proof -
    have "unat va div 549755813888 < 512" using that by simp
    moreover have "unat va div 549755813888 = p div 134217728"
      using assms div_mult2_eq [of "unat va" 4096 134217728] by simp
    ultimately show ?thesis by (simp add: idx_simps unat_div)
  qed
  show "unat (va mod (512 * BLOCK_1GIB) div BLOCK_1GIB) = idx (Suc 0) p"
    using mod_div_swap [of "unat va" 1073741824 512] div_mult2_eq [of "unat va" 4096 262144] assms
    by (simp add: idx_simps unat_div unat_mod)
  show "unat (va mod BLOCK_1GIB div BLOCK_2MIB) = idx 2 p"
    using mod_div_swap [of "unat va" 2097152 512] div_mult2_eq [of "unat va" 4096 512] assms
    by (simp add: idx_simps unat_div unat_mod)
  show "unat (va mod BLOCK_2MIB div PAGE_SIZE) = idx 3 p"
    using mod_div_swap [of "unat va" 4096 512] assms
    by (simp add: idx_simps unat_div unat_mod)
qed

lemma find_l2_entry_spec:
  assumes wf: "pt_wf g" and va: "unat va < 2 ^ 48" "unat va div 4096 = p"
  shows "find_l2_entry g va = Some (map_option (\<lambda>t. (t, idx 2 p)) (tab g 2 p))"
proof -
  have ok: "pool_ok g" by (rule pt_wfD(1) [OF wf])
  then have base: "ipa_base g = 0" by (simp add: pool_ok_def)
  have at: "pt_at g t = Some t" if "n \<le> 3" "tab g n p = Some t" for n t
    using pt_at_pool [OF ok pt_wfD(2) [OF wf that]] .
  note ix = walk_indices [OF va(2)]
  have lt: "idx n p < 512" for n by (simp add: idx_def)
  show ?thesis
    using at [of 0] at [of 1] at [of 2] lt [of 0] lt [of 1]
    by (auto simp: find_l2_entry_def base ix(1) [OF va(1)] ix(2,3) Let_def numeral_2_eq_2 is_tab_def
        PT_VALID_def daddr_def [symmetric] not_le)
qed

lemma block_addr_unat: "unat (d AND L2_BLOCK_ADDR_MASK) = (unat d mod 2 ^ 48) div 2097152 * 2097152"
proof -
  have m: "L2_BLOCK_ADDR_MASK = mask 48 AND NOT (mask 21)"
    by (simp add: L2_BLOCK_ADDR_MASK_def mask_eq_exp_minus_1)
  show ?thesis
    unfolding m and.assoc [symmetric] and_not_mask_unat and_mask_unat by simp
qed

lemma block_page_addr:
  assumes "i < 512"
  shows "daddr ((d AND L2_BLOCK_ADDR_MASK) + word_of_nat i * PAGE_SIZE) =
    (d AND L2_BLOCK_ADDR_MASK) + word_of_nat i * PAGE_SIZE"
proof (rule daddr_page)
  define k where "k = unat d mod 2 ^ 48 div 2097152"
  have k: "k < 134217728" by (simp add: k_def div_less_iff_less_mult)
  have "unat (word_of_nat i * PAGE_SIZE) = i * 4096"
    using assms by (simp add: unat_word_ariths unat_of_nat PAGE_SIZE_def)
  then have "unat ((d AND L2_BLOCK_ADDR_MASK) + word_of_nat i * PAGE_SIZE) = k * 2097152 + i * 4096"
    using k assms by (simp add: unat_add_u64 block_addr_unat k_def)
  moreover have "k * 2097152 + i * 4096 < 2 ^ 48" using k assms by simp
  moreover have "k * 2097152 + i * 4096 = 4096 * (k * 512 + i)" by simp
  ultimately show "unat ((d AND L2_BLOCK_ADDR_MASK) + word_of_nat i * PAGE_SIZE) < 2 ^ 48"
    "4096 dvd unat ((d AND L2_BLOCK_ADDR_MASK) + word_of_nat i * PAGE_SIZE)"
    by (simp_all only: dvd_triv_left)
qed

section \<open>Splitting a block\<close>

text \<open>Permissions in the form \<open>make_block_desc\<close> and \<open>make_page_desc\<close> write them.\<close>

definition leaves_normal :: "'a pt_guest_scheme \<Rightarrow> bool" where
  "leaves_normal g \<longleftrightarrow> (\<forall>p a q. leaf g p = Some (a, q) \<longrightarrow> norm_perms q = q)"

lemma norm_perms_idem [simp]: "norm_perms (norm_perms q) = norm_perms q"
  by (simp add: norm_perms_def mem_perms)

definition split_contents :: "u64 \<Rightarrow> nat \<Rightarrow> u64" where
  "split_contents d j =
     (if j < 512 then make_page_desc ((d AND L2_BLOCK_ADDR_MASK) + word_of_nat j * PAGE_SIZE) (desc_to_perms d)
      else 0)"

lemma fill_l3_eq:
  "fill_l3 n l3 b q g =
     g\<lparr>pte := (pte g)(l3 := (\<lambda>j. if j < n then make_page_desc (b + word_of_nat j * PAGE_SIZE) q else pte g l3 j))\<rparr>"
  by (induction n) (auto simp: pte_store_release_def fun_eq_iff less_Suc_eq)

lemma fill_fresh:
  "fill_l3 512 (pt_pool_next g) (d AND L2_BLOCK_ADDR_MASK) (desc_to_perms d) (with_fresh (\<lambda>_. 0) g) =
     with_fresh (split_contents d) g"
proof -
  have "split_contents d = (\<lambda>j. if j < 512 then make_page_desc ((d AND L2_BLOCK_ADDR_MASK) +
      word_of_nat j * PAGE_SIZE) (desc_to_perms d) else 0)" by (rule ext) (simp add: split_contents_def)
  then show ?thesis by (simp add: fill_l3_eq with_fresh_def cong: if_cong)
qed

lemma split_l2_block_eq:
  assumes ok: "pool_ok g" and d: "pte g t i AND 3 = 1"
  shows "split_l2_block (Some (t, i)) g =
    Some (if pool_room g then (0, link_fresh (split_contents (pte g t i)) t i g) else (-1, g))"
proof -
  have b: "pte g t i AND PT_BLOCK \<noteq> 0" using d by (cases "pte g t i" rule: desc_kind) (auto simp: PT_BLOCK_def)
  have base: "ipa_base g = 0" using ok by (simp add: pool_ok_def)
  show ?thesis
  proof (cases "pool_room g")
    case True
    note pf = pool_room_facts [OF ok True]
    have at: "pt_at (with_fresh (\<lambda>_. 0) g) (pt_pool_next g) = Some (pt_pool_next g)"
      by (rule pt_at_pool [OF pf(2,3)])
    show ?thesis
      using d b at True pf(7)
      by (simp add: split_l2_block_def pt_alloc_page_eq pool_room_def fill_fresh link_fresh_def table_desc_def
          base Let_def)
  qed (use d b in \<open>simp add: split_l2_block_def pt_alloc_page_eq pool_room_def Let_def\<close>)
qed

lemma split_leaf:
  assumes wf: "pt_wf g" and nm: "leaves_normal g" and room: "pool_room g"
    and t: "tab g 2 p0 = Some t" and d: "pte g t (idx 2 p0) AND 3 = 1"
  shows "leaf (link_fresh (split_contents (pte g t (idx 2 p0))) t (idx 2 p0) g) p = leaf g p"
proof (cases "same_path 2 p p0 \<and> idx 2 p = idx 2 p0")
  case True
  let ?d = "pte g t (idx 2 p0)"
  have at: "tab g 2 p = Some t" using tab_same_path [of 2 p p0 g] True t by simp
  have "tab g 3 p = None" using at True d by (simp add: numeral_3_eq_3 numeral_2_eq_2 is_tab_def)
  then have lf: "leaf g p = block_leaf ?d p" using at True by (simp add: leaf_def del: tab.simps)
  have v: "?d AND 1 = 1" using d by (cases ?d rule: desc_kind) auto
  have i: "idx 3 p < 512" "idx 3 p = p mod 512" by (simp_all add: idx_simps)
  have "norm_perms (desc_to_perms ?d) = desc_to_perms ?d"
    using nm lf v unfolding leaves_normal_def block_leaf_def by (metis zero_neq_one)
  then have "page_leaf (split_contents ?d (idx 3 p)) = block_leaf ?d p"
    using i v by (simp add: page_leaf_def block_leaf_def split_contents_def make_page_desc_fields
        block_page_addr)
  with lf show ?thesis
    using True link_fresh_leaf_l3 [OF wf room t, of "idx 2 p0"] d by simp
next
  case False
  then show ?thesis
    using link_fresh_leaf_l3 [OF wf room t, of "idx 2 p0" "split_contents (pte g t (idx 2 p0))" p] d by auto
qed

lemma link_fresh_fields [simp]:
  "tlbi_req (link_fresh c t i g) = tlbi_req g" "pt_gen (link_fresh c t i g) = pt_gen g"
  "pt_frame g (link_fresh c t i g)"
  by (simp_all add: link_fresh_def)

lemma block_start_page:
  "unat va div 4096 = p \<Longrightarrow> unat (ALIGN_2MIB_DOWN va) = p div 512 * 2097152"
proof -
  assume p: "unat va div 4096 = p"
  have m: "ALIGN_2MIB_DOWN va = va AND NOT (mask 21)"
    by (simp add: ALIGN_2MIB_DOWN_def ALIGN_DOWN_def BLOCK_2MIB_def mask_eq_exp_minus_1)
  show ?thesis
    unfolding m and_not_mask_unat using p div_mult2_eq [of "unat va" 4096 512] by simp
qed

lemma same_path_block: "same_path 3 (p div 512 * 512) p"
proof -
  have "p div 512 * 512 div 134217728 = p div 134217728"
    using div_mult2_eq [of "p div 512 * 512" 512 262144] div_mult2_eq [of p 512 262144] by simp
  moreover have "p div 512 * 512 div 262144 = p div 262144"
    using div_mult2_eq [of "p div 512 * 512" 512 512] div_mult2_eq [of p 512 512] by simp
  ultimately have "idx 0 (p div 512 * 512) = idx 0 p" "idx (Suc 0) (p div 512 * 512) = idx (Suc 0) p"
    "idx 2 (p div 512 * 512) = idx 2 p" by (simp_all add: idx_simps)
  then show ?thesis unfolding same_path_def by (metis less_2_cases less_Suc_eq numeral_3_eq_3 numeral_2_eq_2)
qed

end
