(* ===== verification/Page_Table_Ops.thy ===== *)
theory Page_Table_Ops
  imports Page_Table_Laws
begin

text \<open>
  What the range operations on the page tables do to the translation of every page, that they
  return, and that every page whose translation they change is covered by the TLB invalidation
  they request. The statements quantify over the pages of the 48-bit address space.
\<close>

section \<open>Pages and paths\<close>

definition pages48 :: nat where
  "pages48 = 2 ^ 36"

lemma div_by_parts: "(P :: nat) = (P div 512 div 512) * 262144 + (P div 512 mod 512) * 512 + P mod 512"
proof -
  have "P = P div 512 * 512 + P mod 512" by simp
  moreover have "P div 512 = (P div 512 div 512) * 512 + P div 512 mod 512" by simp
  ultimately show ?thesis by linarith
qed

lemma block_by_parts:
  assumes "p < pages48"
  shows "p div 512 = idx 0 p * 262144 + idx (Suc 0) p * 512 + idx 2 p"
proof -
  have "p div 134217728 < 512" using assms by (simp add: pages48_def)
  moreover have "p div 134217728 = p div 512 div 512 div 512"
    using div_mult2_eq [of p 512 262144] div_mult2_eq [of "p div 512" 512 512] by simp
  moreover have "p div 262144 = p div 512 div 512" using div_mult2_eq [of p 512 512] by simp
  ultimately show ?thesis using div_by_parts [of "p div 512"] by (simp add: idx_simps)
qed

lemma same_path_3:
  assumes "p < pages48" "q < pages48"
  shows "same_path 3 p q \<longleftrightarrow> p div 512 = q div 512"
proof
  assume "same_path 3 p q"
  then have "idx 0 p = idx 0 q" "idx (Suc 0) p = idx (Suc 0) q" "idx 2 p = idx 2 q"
    by (auto simp: same_path_def)
  then show "p div 512 = q div 512" using block_by_parts [OF assms(1)] block_by_parts [OF assms(2)] by simp
next
  assume *: "p div 512 = q div 512"
  have "same_path 3 (p div 512 * 512) p" "same_path 3 (q div 512 * 512) q" by (rule same_path_block)+
  with * show "same_path 3 p q" by (simp add: same_path_def)
qed

lemma same_path_3_Suc: "same_path 3 p q \<longleftrightarrow> same_path 2 p q \<and> idx 2 p = idx 2 q"
  using same_path_Suc [of 2 p q] by (simp add: numeral_3_eq_3 numeral_2_eq_2)

lemma path_page:
  assumes "p < pages48" "q < pages48" "same_path 3 p q" "idx 3 p = idx 3 q"
  shows "p = q"
proof -
  have "p div 512 = q div 512" using assms same_path_3 by blast
  moreover have "p mod 512 = q mod 512" using assms(4) by (simp add: idx_simps)
  ultimately show ?thesis by (metis div_mult_mod_eq)
qed

text \<open>The walk only sees the low 36 bits of a page number.\<close>

lemma leaf_mod: "leaf g (q mod pages48) = leaf g q"
proof -
  have i0: "idx 0 (q mod pages48) = idx 0 q"
    using mod_div_swap [of q 134217728 512] by (simp add: idx_simps pages48_def)
  have i1: "idx (Suc 0) (q mod pages48) = idx (Suc 0) q"
    using mod_div_swap [of q 262144 262144] mod_mod_cancel [of 512 262144 "q div 262144"]
    by (simp add: idx_simps pages48_def)
  have i2: "idx 2 (q mod pages48) = idx 2 q"
    using mod_div_swap [of q 512 134217728] mod_mod_cancel [of 512 134217728 "q div 512"]
    by (simp add: idx_simps pages48_def)
  have i3: "q mod pages48 mod 512 = q mod 512" by (simp add: pages48_def mod_mod_cancel)
  have "same_path 2 (q mod pages48) q" using i0 i1 by (auto simp: same_path_def less_2_cases_iff)
  moreover from this i2 have "same_path 3 (q mod pages48) q" by (simp add: same_path_3_Suc)
  ultimately show ?thesis
    using tab_same_path [of 2 "q mod pages48" q g] tab_same_path [of 3 "q mod pages48" q g] i2 i3
    by (simp add: leaf_def block_leaf_def idx_simps(4) del: tab.simps split: option.split)
qed

definition normal_leaf :: "(u64 \<times> u32) option \<Rightarrow> bool" where
  "normal_leaf x = (case x of None \<Rightarrow> True | Some (a, c) \<Rightarrow> norm_perms c = c)"

lemma leaves_normal_iff: "leaves_normal g \<longleftrightarrow> (\<forall>q < pages48. normal_leaf (leaf g q))"
proof
  assume "leaves_normal g"
  then show "\<forall>q < pages48. normal_leaf (leaf g q)"
    by (auto simp: leaves_normal_def normal_leaf_def split: option.split)
next
  assume *: "\<forall>q < pages48. normal_leaf (leaf g q)"
  have "q mod pages48 < pages48" for q by (simp add: pages48_def)
  with * leaf_mod [of g] have "normal_leaf (leaf g q)" for q by metis
  then show "leaves_normal g"
    unfolding leaves_normal_def normal_leaf_def by (metis (mono_tags, lifting) case_prod_conv option.simps(5))
qed

definition page_addr :: "nat \<Rightarrow> u64" where
  "page_addr p = word_of_nat (p * 4096)"

lemma unat_page_addr [simp]: "p \<le> pages48 \<Longrightarrow> unat (page_addr p) = p * 4096"
  by (simp add: page_addr_def pages48_def unat_of_nat del: of_nat_mult)

lemma page_addr_eqI: "unat a = p * 4096 \<Longrightarrow> p \<le> pages48 \<Longrightarrow> a = page_addr p"
  by (simp add: word_unat_eq_iff)

section \<open>Invariant\<close>

definition pt_inv :: "'a pt_guest_scheme \<Rightarrow> bool" where
  "pt_inv g \<longleftrightarrow> pt_wf g \<and> leaves_normal g \<and> tlbi_wf (tlbi_req g)"

lemma guest_split_block_spec:
  assumes inv: "pt_inv g" and va: "unat va < 2 ^ 48" "unat va div 4096 = p"
    and t: "tab g 2 p = Some t" and d: "pte g t (idx 2 p) AND 3 = 1"
  shows "\<exists>rc g'. guest_split_block va g = Some (rc, g')
    \<and> pt_frame g g' \<and> pt_inv g' \<and> leaf g' = leaf g \<and> tlbi_req g' = tlbi_req g \<and> pt_gen g' = pt_gen g
    \<and> (\<forall>m q. m \<le> 2 \<longrightarrow> tab g' m q = tab g m q)
    \<and> (rc = -1 \<and> \<not> pool_room g \<and> g' = g
       \<or> rc = 0 \<and> tab g' 3 p \<noteq> None \<and> (\<forall>q. \<not> same_path 3 q p \<longrightarrow> tab g' 3 q = tab g 3 q))"
proof -
  have wf: "pt_wf g" and nm: "leaves_normal g" and tl: "tlbi_wf (tlbi_req g)"
    using inv by (auto simp: pt_inv_def)
  let ?b = "ALIGN_2MIB_DOWN va" and ?q = "p div 512 * 512"
  have b: "unat ?b = ?q * 4096" using block_start_page [OF va(2)] by simp
  have "p < pages48" using va by (auto simp: pages48_def)
  then have "unat ?b < 2 ^ 48" using b by (simp add: pages48_def)
  moreover have "unat ?b div 4096 = ?q" using b by simp
  ultimately have f: "find_l2_entry g ?b = Some (map_option (\<lambda>t. (t, idx 2 ?q)) (tab g 2 ?q))"
    by (rule find_l2_entry_spec [OF wf])
  have sp: "same_path 2 ?q p" "idx 2 ?q = idx 2 p" using same_path_block [of p] by (auto simp: same_path_3_Suc)
  then have f: "find_l2_entry g ?b = Some (Some (t, idx 2 p))"
    using f tab_same_path [OF sp(1), of g] t by simp
  let ?g = "link_fresh (split_contents (pte g t (idx 2 p))) t (idx 2 p) g"
  have eq: "guest_split_block va g = Some (if pool_room g then (0, ?g) else (-1, g))"
    using f split_l2_block_eq [OF pt_wfD(1) [OF wf] d] by (simp add: guest_split_block_def)
  have nt: "\<not> is_tab 2 (pte g t (idx 2 p))" using d by (simp add: is_tab_def)
  show ?thesis
  proof (cases "pool_room g")
    case True
    have tb: "m \<le> 3 \<Longrightarrow> tab ?g m q =
        (if m = Suc 2 \<and> same_path 2 q p \<and> idx 2 q = idx 2 p then Some (pt_pool_next g) else tab g m q)" for m q
      by (rule link_fresh_tab [OF wf True t _ nt]) auto
    have lf: "leaf ?g = leaf g" using split_leaf [OF wf nm True t d] by auto
    have "pt_wf ?g" by (rule link_fresh_wf [OF wf True t _ nt]) auto
    then have "pt_inv ?g" using nm tl lf by (simp add: pt_inv_def leaves_normal_def)
    moreover have "tab ?g 3 p \<noteq> None" using tb [of 3 p] by simp
    moreover have "tab ?g 3 q = tab g 3 q" if "\<not> same_path 3 q p" for q
      using tb [of 3 q] that by (auto simp: same_path_3_Suc)
    moreover have "tab ?g m q = tab g m q" if "m \<le> 2" for m q using tb [of m q] that by auto
    ultimately show ?thesis using eq True lf by (intro exI [of _ 0] exI [of _ ?g]) simp
  next
    case False
    then show ?thesis using eq inv by simp
  qed
qed

section \<open>The page loop\<close>

text \<open>A descriptor choice that looks only at what the loop does not change.\<close>

definition frame_local :: "('a pt_guest_scheme \<Rightarrow> u64 \<Rightarrow> u64 \<Rightarrow> u64) \<Rightarrow> bool" where
  "frame_local newd \<longleftrightarrow> (\<forall>g g' pa old. pt_frame g g' \<longrightarrow> newd g' pa old = newd g pa old)"

lemma invalid_desc_local: "frame_local invalid_desc"
  by (simp add: frame_local_def invalid_desc_def)

lemma update_desc_local: "frame_local (update_desc perms)"
  by (simp add: frame_local_def update_desc_def pt_frame_def cong: option.case_cong)

definition noted :: "bool \<Rightarrow> u64 \<Rightarrow> u64 \<Rightarrow> nat \<Rightarrow> bool" where
  "noted bcast lo hi q \<longleftrightarrow> bcast \<or> unat lo \<le> q * 4096 \<and> (q + 1) * 4096 \<le> unat hi"

lemma page_loop_spec:
  assumes "pt_wf g" "tab g 3 p0 = Some l3" "frame_local newd" "p0 < pages48"
    and "A \<le> B" "B \<le> pages48" "\<And>q. A \<le> q \<Longrightarrow> q < B \<Longrightarrow> q div 512 = p0 div 512"
  shows "\<exists>g' lo' hi'. page_loop newd l3 bcast (page_addr B) (page_addr A) lo hi g = Some (g', lo', hi')
    \<and> pt_wf g' \<and> pt_frame g g' \<and> tlbi_req g' = tlbi_req g \<and> pt_gen g' = pt_gen g
    \<and> (\<forall>m q. m \<le> 3 \<longrightarrow> tab g' m q = tab g m q)
    \<and> (\<forall>q < pages48. leaf g' q =
         (if A \<le> q \<and> q < B then page_leaf (newd g (page_addr q) (pte g l3 (idx 3 q))) else leaf g q))
    \<and> (\<forall>q. noted bcast lo hi q \<longrightarrow> noted bcast lo' hi' q)
    \<and> (\<forall>q < pages48. leaf g' q \<noteq> leaf g q \<longrightarrow> noted bcast lo' hi' q)"
  using assms(5,1,2,7)
proof (induction A arbitrary: g lo hi rule: inc_induct)
  case base
  then show ?case by (subst page_loop.simps) auto
next
  case (step A)
  note wf = step.prems(1) and t = step.prems(2) and blk = step.prems(3)
  have A: "A < B" "A < pages48" "Suc A \<le> pages48" using step.hyps assms(6) by auto
  have base: "ipa_base g = 0" using pt_wfD(1) [OF wf] by (simp add: pool_ok_def)
  have lt: "page_addr A < page_addr B" using A assms(6) by (simp add: word_less_nat_alt)
  have nxt: "page_addr A + PAGE_SIZE = page_addr (Suc A)"
    by (simp add: page_addr_def PAGE_SIZE_def algebra_simps)
  have ix: "unat (page_addr A mod BLOCK_2MIB div PAGE_SIZE) = idx 3 A"
    using walk_indices(4) [of "page_addr A" A] A by simp
  define old new where "old = pte g l3 (idx 3 A)" and "new = newd g (page_addr A) old"
  have spA: "same_path 3 A p0" using same_path_3 [OF A(2) assms(4)] blk [of A] A by simp
  have hit: "same_path 3 q p0 \<and> idx 3 q = idx 3 A \<longleftrightarrow> q = A" if "q < pages48" for q
    using path_page [OF that A(2)] spA same_path_trans [of 3 q p0 A] same_path_sym by blast
  have leafA: "leaf g A = page_leaf old"
    using tab_same_path [OF spA, of g] t by (simp add: leaf_def old_def del: tab.simps)
  have blk': "\<And>q. Suc A \<le> q \<Longrightarrow> q < B \<Longrightarrow> q div 512 = p0 div 512" using blk by simp
  show ?case
  proof (cases "old = new")
    case True
    obtain g' lo' hi' where r: "page_loop newd l3 bcast (page_addr B) (page_addr (Suc A)) lo hi g = Some (g', lo', hi')"
      and rest: "pt_wf g' \<and> pt_frame g g' \<and> tlbi_req g' = tlbi_req g \<and> pt_gen g' = pt_gen g
        \<and> (\<forall>m q. m \<le> 3 \<longrightarrow> tab g' m q = tab g m q)"
      and lf: "\<forall>q < pages48. leaf g' q = (if Suc A \<le> q \<and> q < B
          then page_leaf (newd g (page_addr q) (pte g l3 (idx 3 q))) else leaf g q)"
      and n: "(\<forall>q. noted bcast lo hi q \<longrightarrow> noted bcast lo' hi' q)
        \<and> (\<forall>q < pages48. leaf g' q \<noteq> leaf g q \<longrightarrow> noted bcast lo' hi' q)"
      using step.IH [OF wf t blk', of lo hi] by auto
    have "leaf g' q = (if A \<le> q \<and> q < B then page_leaf (newd g (page_addr q) (pte g l3 (idx 3 q))) else leaf g q)"
      if "q < pages48" for q
      using lf that leafA A(1) True by (cases "q = A") (auto simp: old_def new_def)
    moreover have "page_loop newd l3 bcast (page_addr B) (page_addr A) lo hi g = Some (g', lo', hi')"
      using r True lt by (subst page_loop.simps) (simp add: base ix nxt Let_def old_def new_def)
    ultimately show ?thesis using rest n by blast
  next
    case False
    define g1 where "g1 = pte_store_release l3 (idx 3 A) new g"
    define lo1 where "lo1 = (if \<not> bcast \<and> page_addr A < lo then page_addr A else lo)"
    define hi1 where "hi1 = (if \<not> bcast \<and> page_addr (Suc A) > hi then page_addr (Suc A) else hi)"
    note st = store_l3 [OF wf t, where i = "idx 3 A" and d = new, folded g1_def]
    have wf1: "pt_wf g1" and t1: "tab g1 3 p0 = Some l3" using st(1,2) t by simp_all
    have fr: "pt_frame g g1" by (simp add: g1_def)
    have loc: "newd g1 = newd g" using assms(3) fr by (auto simp: frame_local_def fun_eq_iff)
    have noteA: "noted bcast lo1 hi1 A"
      using A by (auto simp: noted_def lo1_def hi1_def word_less_nat_alt)
    have note1: "noted bcast lo hi q \<Longrightarrow> noted bcast lo1 hi1 q" for q
      by (auto simp: noted_def lo1_def hi1_def word_less_nat_alt)
    obtain g' lo' hi' where r: "page_loop newd l3 bcast (page_addr B) (page_addr (Suc A)) lo1 hi1 g1 = Some (g', lo', hi')"
      and rest: "pt_wf g' \<and> pt_frame g1 g' \<and> tlbi_req g' = tlbi_req g1 \<and> pt_gen g' = pt_gen g1
        \<and> (\<forall>m q. m \<le> 3 \<longrightarrow> tab g' m q = tab g1 m q)"
      and lf: "\<forall>q < pages48. leaf g' q = (if Suc A \<le> q \<and> q < B
          then page_leaf (newd g1 (page_addr q) (pte g1 l3 (idx 3 q))) else leaf g1 q)"
      and n: "\<forall>q. noted bcast lo1 hi1 q \<longrightarrow> noted bcast lo' hi' q"
      and ch: "\<forall>q < pages48. leaf g' q \<noteq> leaf g1 q \<longrightarrow> noted bcast lo' hi' q"
      using step.IH [OF wf1 t1 blk', of lo1 hi1] by auto
    have lf1: "leaf g1 q = (if q = A then page_leaf new else leaf g q)" if "q < pages48" for q
      using st(3) [of q] hit [OF that] by simp
    have pt1: "pte g1 l3 (idx 3 q) = pte g l3 (idx 3 q)" if "Suc A \<le> q" "q < B" for q
    proof -
      have q: "q < pages48" "same_path 3 q p0" using that assms(4,6) blk same_path_3 [of q p0] by auto
      then have "idx 3 q \<noteq> idx 3 A" using hit [OF q(1)] that(1) by auto
      then show ?thesis by (simp add: g1_def)
    qed
    have "leaf g' q = (if A \<le> q \<and> q < B then page_leaf (newd g (page_addr q) (pte g l3 (idx 3 q))) else leaf g q)"
      if "q < pages48" for q
      using lf that lf1 [OF that] A(1) pt1 by (cases "q = A") (auto simp: old_def new_def loc)
    moreover have "page_loop newd l3 bcast (page_addr B) (page_addr A) lo hi g = Some (g', lo', hi')"
      using r False lt
      by (subst page_loop.simps)
         (simp add: base ix nxt Let_def old_def new_def lo1_def hi1_def g1_def split del: if_split cong: if_cong)
    moreover have "pt_frame g g'" using fr rest pt_frame_trans by blast
    moreover have "\<forall>q < pages48. leaf g' q \<noteq> leaf g q \<longrightarrow> noted bcast lo' hi' q"
      using ch n noteA lf1 by metis
    moreover have "\<forall>q. noted bcast lo hi q \<longrightarrow> noted bcast lo' hi' q" using n note1 by blast
    moreover have "\<forall>m q. m \<le> 3 \<longrightarrow> tab g' m q = tab g m q" using rest st(2) by simp
    moreover have "tlbi_req g' = tlbi_req g" "pt_gen g' = pt_gen g" using rest by (simp_all add: g1_def)
    ultimately show ?thesis using rest by blast
  qed
qed

section \<open>Edits and the invalidations they request\<close>

text \<open>
  \<open>edited g g'\<close>: the invariant holds afterwards, the rest of the state is as before, and every
  page whose translation differs is covered by the pending TLB invalidation.
\<close>

definition edited :: "'a pt_guest_scheme \<Rightarrow> 'a pt_guest_scheme \<Rightarrow> bool" where
  "edited g g' \<longleftrightarrow> pt_inv g' \<and> pt_frame g g' \<and> pt_gen g' = pt_gen g
     \<and> (\<forall>q. covered (tlbi_req g) q \<longrightarrow> covered (tlbi_req g') q)
     \<and> (\<forall>q < pages48. leaf g' q \<noteq> leaf g q \<longrightarrow> covered (tlbi_req g') q)"

lemma edited_refl: "pt_inv g \<Longrightarrow> edited g g"
  by (simp add: edited_def)

lemma edited_trans: "edited g g' \<Longrightarrow> edited g' g'' \<Longrightarrow> edited g g''"
  unfolding edited_def using pt_frame_trans by metis

lemma edited_inv: "edited g g' \<Longrightarrow> pt_inv g'"
  by (simp add: edited_def)

lemma edited_frame: "edited g g' \<Longrightarrow> pt_frame g g'"
  by (simp add: edited_def)

lemma request_range_fields [simp]:
  "pte (request_range s e g) = pte g" "ttbr0 (request_range s e g) = ttbr0 g"
  "pt_gen (request_range s e g) = pt_gen g" "pt_pool_next (request_range s e g) = pt_pool_next g"
  "pt_frame h (request_range s e g) = pt_frame h g"
  "pool_room (request_range s e g) = pool_room g"
  "tlbi_req (request_range s e g) = tlbi_request_range (tlbi_range_supported g) s e (tlbi_req g)"
  by (simp_all add: request_range_def pt_frame_def pool_room_def)

lemma tab_cong: "pte g' = pte g \<Longrightarrow> ttbr0 g' = ttbr0 g \<Longrightarrow> tab g' m q = tab g m q"
  by (induction m) (auto split: option.split)

lemma leaf_cong: "pte g' = pte g \<Longrightarrow> ttbr0 g' = ttbr0 g \<Longrightarrow> leaf g' q = leaf g q"
  by (simp add: leaf_def tab_cong [of g' g] del: tab.simps split: option.split)

lemma tab_request_range [simp]: "tab (request_range s e g) m q = tab g m q"
  by (rule tab_cong) simp_all

lemma leaf_request_range [simp]: "leaf (request_range s e g) q = leaf g q"
  by (rule leaf_cong) simp_all

lemma pt_wf_request_range [simp]: "pt_wf (request_range s e g) = pt_wf g"
proof -
  have "pool_ok (request_range s e g) = pool_ok g" "pool_page (request_range s e g) = pool_page g"
    by (auto simp: request_range_def pool_ok_def pool_page_def fun_eq_iff)
  then show ?thesis by (simp add: pt_wf_def)
qed

text \<open>An edit followed by a request for an address range that covers every changed page.\<close>

lemma edited_by_request:
  assumes inv: "pt_inv g" and g': "pt_wf g'" "leaves_normal g'" "pt_frame g g'" "pt_gen g' = pt_gen g"
    "tlbi_req g' = tlbi_req g"
    and ch: "\<And>q. q < pages48 \<Longrightarrow> leaf g' q \<noteq> leaf g q \<Longrightarrow> st \<le> page_addr q \<and> page_addr q < en"
  shows "edited g (request_range st en g')"
proof -
  have tw: "tlbi_wf (tlbi_req g)" using inv by (simp add: pt_inv_def)
  note c = tlbi_request_range_correct [OF tw, where supp = "tlbi_range_supported g'" and st = st and en = en]
  have "covered (tlbi_request_range (tlbi_range_supported g') st en (tlbi_req g)) q"
    if "q < pages48" "leaf g' q \<noteq> leaf g q" for q
    using c(3) [of "page_addr q"] ch [OF that] that(1) by simp
  then show ?thesis
    using g' c(1,2) by (simp add: edited_def pt_inv_def leaves_normal_def)
qed

lemma is_broadcast_covers: "tlbi_request_is_broadcast req \<Longrightarrow> covered req q"
  by (simp add: tlbi_request_is_broadcast_def covered_def)

lemma edit_pages_spec:
  assumes inv: "pt_inv g" and l2: "tab g 2 p0 = Some l2" and l3: "tab g 3 p0 = Some l3"
    and nd: "frame_local newd" and nn: "\<forall>pa old. normal_leaf (page_leaf (newd g pa old))"
    and p0: "p0 < pages48" and AB: "A \<le> B" "B \<le> pages48"
    and blk: "\<And>q. A \<le> q \<Longrightarrow> q < B \<Longrightarrow> q div 512 = p0 div 512"
  shows "\<exists>g'. edit_pages newd l2 (idx 2 p0) (page_addr A) (page_addr B) g = Some g' \<and> edited g g'
    \<and> (\<forall>m q. m \<le> 3 \<longrightarrow> tab g' m q = tab g m q)
    \<and> (\<forall>q < pages48. leaf g' q =
         (if A \<le> q \<and> q < B then page_leaf (newd g (page_addr q) (pte g l3 (idx 3 q))) else leaf g q))"
proof -
  have wf: "pt_wf g" using inv by (simp add: pt_inv_def)
  have base: "ipa_base g = 0" using pt_wfD(1) [OF wf] by (simp add: pool_ok_def)
  have at: "pt_at g l3 = Some l3" by (rule pt_at_pool [OF pt_wfD(1,2) [OF wf]]) (use l3 in auto)
  have d: "daddr (pte g l2 (idx 2 p0)) = l3"
    using l2 l3 by (simp add: numeral_3_eq_3 numeral_2_eq_2 split: if_splits)
  let ?bc = "tlbi_request_is_broadcast (tlbi_req g)"
  obtain g1 lo hi where r: "page_loop newd l3 ?bc (page_addr B) (page_addr A) UINT64_MAX 0 g = Some (g1, lo, hi)"
    and g1: "pt_wf g1" "pt_frame g g1" "tlbi_req g1 = tlbi_req g" "pt_gen g1 = pt_gen g"
    and tb: "\<forall>m q. m \<le> 3 \<longrightarrow> tab g1 m q = tab g m q"
    and lf: "\<forall>q < pages48. leaf g1 q =
         (if A \<le> q \<and> q < B then page_leaf (newd g (page_addr q) (pte g l3 (idx 3 q))) else leaf g q)"
    and ch: "\<forall>q < pages48. leaf g1 q \<noteq> leaf g q \<longrightarrow> noted ?bc lo hi q"
    using page_loop_spec [OF wf l3 nd p0 AB blk, of ?bc UINT64_MAX 0] by auto
  let ?g = "if \<not> ?bc \<and> hi > lo then request_range lo hi g1 else g1"
  have eq: "edit_pages newd l2 (idx 2 p0) (page_addr A) (page_addr B) g = Some ?g"
    using at r d base by (simp add: edit_pages_def daddr_def)
  have nm: "leaves_normal g1" using lf nn inv by (simp add: pt_inv_def leaves_normal_iff)
  have "edited g ?g"
  proof (cases "\<not> ?bc \<and> hi > lo")
    case True
    have "edited g (request_range lo hi g1)"
      by (rule edited_by_request [OF inv g1(1) nm g1(2,4,3)])
         (use ch True in \<open>auto simp: noted_def word_nat\<close>)
    with True show ?thesis by simp
  next
    case False
    have "covered (tlbi_req g) q" if "q < pages48" "leaf g1 q \<noteq> leaf g q" for q
    proof (cases ?bc)
      case True
      then show ?thesis by (rule is_broadcast_covers)
    next
      case nb: False
      with ch that have "unat lo \<le> q * 4096 \<and> (q + 1) * 4096 \<le> unat hi" by (auto simp: noted_def)
      with nb False show ?thesis by (auto simp: word_less_nat_alt)
    qed
    with False g1 nm inv show ?thesis by (auto simp: edited_def pt_inv_def)
  qed
  moreover have "\<forall>m q. m \<le> 3 \<longrightarrow> tab ?g m q = tab g m q" using tb by (simp del: tab.simps)
  moreover have "\<forall>q < pages48. leaf ?g q =
      (if A \<le> q \<and> q < B then page_leaf (newd g (page_addr q) (pte g l3 (idx 3 q))) else leaf g q)"
    using lf by simp
  ultimately show ?thesis using eq by blast
qed

section \<open>One block\<close>

definition block_next :: "nat \<Rightarrow> nat" where
  "block_next p = (p div 512 + 1) * 512"

lemma block_next_bounds:
  assumes "p < pages48"
  shows "p < block_next p" "block_next p \<le> pages48" "512 dvd block_next p"
    "p div 512 * 512 \<le> q \<and> q < block_next p \<longleftrightarrow> q div 512 = p div 512"
proof -
  show "512 dvd block_next p" by (simp add: block_next_def)
  show "p < block_next p" using div_mult_mod_eq [of p 512] by (simp add: block_next_def)
  have "p div 512 < 134217728" using assms by (simp add: pages48_def div_less_iff_less_mult)
  then have "p div 512 + 1 \<le> 134217728" by simp
  then have "(p div 512 + 1) * 512 \<le> 134217728 * 512" by (rule mult_le_mono1)
  then show "block_next p \<le> pages48" by (simp add: block_next_def pages48_def)
  show "p div 512 * 512 \<le> q \<and> q < block_next p \<longleftrightarrow> q div 512 = p div 512"
  proof
    assume "p div 512 * 512 \<le> q \<and> q < block_next p"
    then show "q div 512 = p div 512" by (intro div_nat_eqI) (simp_all add: block_next_def mult.commute)
  next
    assume *: "q div 512 = p div 512"
    have "q = q div 512 * 512 + q mod 512" "q mod 512 < 512" by simp_all
    with * show "p div 512 * 512 \<le> q \<and> q < block_next p" by (simp add: block_next_def)
  qed
qed

lemma block_addrs:
  assumes "p < pages48"
  shows "ALIGN_2MIB_DOWN (page_addr p) = page_addr (p div 512 * 512)"
    "page_addr (p div 512 * 512) + BLOCK_2MIB = page_addr (block_next p)"
    "ALIGN_2MIB_UP (page_addr p + 1) = page_addr (block_next p)"
proof -
  note nb = block_next_bounds [OF assms]
  have lo: "p div 512 * 512 \<le> pages48" using assms div_mult_mod_eq [of p 512] by linarith
  show "ALIGN_2MIB_DOWN (page_addr p) = page_addr (p div 512 * 512)"
    using block_start_page [of "page_addr p" p] assms lo by (simp add: word_unat_eq_iff)
  show "page_addr (p div 512 * 512) + BLOCK_2MIB = page_addr (block_next p)"
    by (simp add: page_addr_def block_next_def BLOCK_2MIB_def algebra_simps)
  define x where "x = page_addr p + 1 + (BLOCK_2MIB - 1)"
  have m: "ALIGN_2MIB_UP (page_addr p + 1) = x AND NOT (mask 21)"
    by (simp add: ALIGN_2MIB_UP_def ALIGN_UP_def BLOCK_2MIB_def mask_eq_exp_minus_1 x_def)
  have "x = page_addr p + BLOCK_2MIB" by (simp add: x_def)
  then have "unat x = p * 4096 + 2097152"
    using assms by (simp add: unat_add_u64 pages48_def)
  then have "unat x div 2 ^ 21 = p div 512 + 1"
    using div_mult2_eq [of "p * 4096" 4096 512] by simp
  then have "unat (ALIGN_2MIB_UP (page_addr p + 1)) = block_next p * 4096"
    unfolding m and_not_mask_unat by (simp add: block_next_def)
  then show "ALIGN_2MIB_UP (page_addr p + 1) = page_addr (block_next p)"
    using nb(2) by (simp add: word_unat_eq_iff)
qed

text \<open>The state of a block, as the loops see it through \<open>find_l2_entry\<close>.\<close>

lemma no_table_no_leaf:
  assumes "tab g 2 p = None" "p < pages48" "q < pages48" "q div 512 = p div 512"
  shows "leaf g q = None" "tab g 3 q = None"
proof -
  have "same_path 2 q p" using same_path_3 [of q p] assms(2-4) by (simp add: same_path_3_Suc)
  then have "tab g 2 q = None" using tab_same_path [of 2 q p g] assms(1) by simp
  moreover from this show "tab g 3 q = None" by (rule tab_mono) simp
  ultimately show "leaf g q = None" by (simp add: leaf_def del: tab.simps)
qed

lemma l2_entry_leaf:
  assumes "tab g 2 p = Some t" "p < pages48" "q < pages48" "q div 512 = p div 512"
    and "pte g t (idx 2 p) AND 3 \<noteq> 3"
  shows "leaf g q = block_leaf (pte g t (idx 2 p)) q" "tab g 3 q = None"
proof -
  have sp: "same_path 2 q p" "idx 2 q = idx 2 p"
    using same_path_3 [of q p] assms(2-4) by (simp_all add: same_path_3_Suc)
  then have at: "tab g 2 q = Some t" using tab_same_path [of 2 q p g] assms(1) by simp
  then show "tab g 3 q = None"
    using sp(2) assms(5) by (simp add: numeral_3_eq_3 numeral_2_eq_2 is_tab_def)
  with at sp(2) show "leaf g q = block_leaf (pte g t (idx 2 p)) q" by (simp add: leaf_def del: tab.simps)
qed

lemma page_addr_less: "p \<le> pages48 \<Longrightarrow> q \<le> pages48 \<Longrightarrow> page_addr p < page_addr q \<longleftrightarrow> p < q"
  by (simp add: word_less_nat_alt)

lemma page_addr_le: "p \<le> pages48 \<Longrightarrow> q \<le> pages48 \<Longrightarrow> page_addr p \<le> page_addr q \<longleftrightarrow> p \<le> q"
  by (simp add: word_le_nat_alt)

lemma whole_block_store:
  assumes inv: "pt_inv g" and t: "tab g 2 p = Some t" and p: "p < pages48"
    and old: "pte g t (idx 2 p) AND 3 = 1" and new: "d AND 3 \<noteq> 3"
    and nn: "\<forall>q. normal_leaf (block_leaf d q)"
  defines "g' \<equiv> request_range (page_addr (p div 512 * 512)) (page_addr (block_next p))
      (pte_store_release t (idx 2 p) d g)"
  shows "edited g g'" "m \<le> 3 \<Longrightarrow> tab g' m q = tab g m q"
    "q < pages48 \<Longrightarrow> leaf g' q = (if q div 512 = p div 512 then block_leaf d q else leaf g q)"
proof -
  let ?s = "pte_store_release t (idx 2 p) d g"
  have wf: "pt_wf g" using inv by (simp add: pt_inv_def)
  note st = store_l2_block [OF wf t, of "idx 2 p" d]
  have wf1: "pt_wf ?s" and tb: "\<And>m q. m \<le> 3 \<Longrightarrow> tab ?s m q = tab g m q" using st(1,2) old new by auto
  have lf: "leaf ?s q = (if q div 512 = p div 512 then block_leaf d q else leaf g q)" if "q < pages48" for q
    using st(3) [of q] old new same_path_3 [OF that p] by (auto simp: same_path_3_Suc)
  show "m \<le> 3 \<Longrightarrow> tab g' m q = tab g m q" using tb by (simp add: g'_def del: tab.simps)
  show "q < pages48 \<Longrightarrow> leaf g' q = (if q div 512 = p div 512 then block_leaf d q else leaf g q)"
    using lf by (simp add: g'_def)
  have "leaves_normal ?s" using lf nn inv by (simp add: pt_inv_def leaves_normal_iff)
  note nb = block_next_bounds [OF p]
  have "page_addr (p div 512 * 512) \<le> page_addr q \<and> page_addr q < page_addr (block_next p)"
    if "q < pages48" "leaf ?s q \<noteq> leaf g q" for q
  proof -
    have "q div 512 = p div 512" using lf [OF that(1)] that(2) by (auto split: if_splits)
    then have "p div 512 * 512 \<le> q" "q < block_next p" using nb(4) [of q] by auto
    then show ?thesis using that(1) nb(2) by (simp add: page_addr_less page_addr_le)
  qed
  then show "edited g g'"
    unfolding g'_def by (intro edited_by_request [OF inv wf1 \<open>leaves_normal ?s\<close>]) auto
qed

lemma partial_block:
  assumes inv: "pt_inv g" and t: "tab g 2 p = Some t" and p: "p < pages48"
    and valid: "pte g t (idx 2 p) AND 1 \<noteq> 0" and nd: "frame_local newd"
    and nn: "\<forall>pa old. normal_leaf (page_leaf (newd g pa old))"
    and E: "p \<le> E" "E \<le> block_next p"
  shows "\<exists>rc g1. (if pte g t (idx 2 p) AND 3 = 1 then guest_split_block (page_addr (p div 512 * 512)) g
        else Some (0, g)) = Some (rc, g1)
    \<and> (rc = -1 \<and> g1 = g \<and> \<not> pool_room g
       \<or> rc = 0 \<and> (\<exists>g2. edit_pages newd t (idx 2 p) (page_addr p) (page_addr E) g1 = Some g2
           \<and> edited g g2 \<and> (\<forall>q < pages48. q div 512 \<noteq> p div 512 \<longrightarrow> tab g2 3 q = tab g 3 q)
           \<and> (\<forall>q < pages48. if p \<le> q \<and> q < E
                then \<exists>old. page_leaf old = leaf g q \<and> leaf g2 q = page_leaf (newd g (page_addr q) old)
                else leaf g2 q = leaf g q)))"
proof -
  note nb = block_next_bounds [OF p]
  let ?b = "p div 512 * 512"
  have b: "?b \<le> p" "?b < pages48" using p div_mult_mod_eq [of p 512] by linarith+
  have sp: "same_path 2 ?b p" "idx 2 ?b = idx 2 p" using same_path_block [of p] by (auto simp: same_path_3_Suc)
  have tb: "tab g 2 ?b = Some t" using tab_same_path [OF sp(1), of g] t by simp
  obtain rc g1 where r: "(if pte g t (idx 2 p) AND 3 = 1 then guest_split_block (page_addr ?b) g
        else Some (0, g)) = Some (rc, g1)"
    and cases: "rc = -1 \<and> g1 = g \<and> \<not> pool_room g \<or> rc = 0 \<and> tab g1 3 p \<noteq> None
      \<and> (\<forall>q. \<not> same_path 3 q p \<longrightarrow> tab g1 3 q = tab g 3 q)"
    and g1: "pt_frame g g1" "pt_inv g1" "leaf g1 = leaf g" "tlbi_req g1 = tlbi_req g" "pt_gen g1 = pt_gen g"
      "tab g1 2 p = Some t"
  proof (cases "pte g t (idx 2 p) AND 3 = 1")
    case True
    have u: "unat (page_addr ?b) < 2 ^ 48" "unat (page_addr ?b) div 4096 = ?b"
      using b by (simp_all add: pages48_def)
    have d: "pte g t (idx 2 ?b) AND 3 = 1" using True sp by simp
    have same: "same_path 3 q ?b \<longleftrightarrow> same_path 3 q p" for q
      using same_path_block [of p] by (auto simp: same_path_def)
    have t3: "tab h 3 ?b = tab h 3 p" for h :: "'a pt_guest_scheme"
      by (rule tab_same_path [OF same_path_block])
    show thesis
      using guest_split_block_spec [OF inv u tb d] True that t same t3 by auto
  next
    case False
    then have "pte g t (idx 2 p) AND 3 = 3" using valid by (cases "pte g t (idx 2 p)" rule: desc_kind) auto
    then have "tab g 3 p \<noteq> None" using t by (simp add: numeral_3_eq_3 numeral_2_eq_2 is_tab_def)
    then show thesis using that [of 0 g] False inv t by auto
  qed
  show ?thesis
  proof (cases "rc = 0")
    case False
    then show ?thesis using r cases by blast
  next
    case True
    then obtain l3 where l3: "tab g1 3 p = Some l3" and oth: "\<forall>q. \<not> same_path 3 q p \<longrightarrow> tab g1 3 q = tab g 3 q"
      using cases by auto
    have loc: "newd g1 = newd g" using nd g1(1) by (auto simp: frame_local_def fun_eq_iff)
    have Ep: "E \<le> pages48" using E nb(2) by simp
    have blk: "q div 512 = p div 512" if "p \<le> q" "q < E" for q
      using nb(4) [of q] that E b(1) by auto
    obtain g2 where ed: "edit_pages newd t (idx 2 p) (page_addr p) (page_addr E) g1 = Some g2" "edited g1 g2"
      and tb2: "\<forall>m q. m \<le> 3 \<longrightarrow> tab g2 m q = tab g1 m q"
      and lf: "\<forall>q < pages48. leaf g2 q =
         (if p \<le> q \<and> q < E then page_leaf (newd g1 (page_addr q) (pte g1 l3 (idx 3 q))) else leaf g1 q)"
      using edit_pages_spec [OF g1(2,6) l3 nd _ p E(1) Ep blk] nn loc by auto
    have "edited g g1" using g1 by (simp add: edited_def)
    then have e: "edited g g2" using ed(2) by (rule edited_trans)
    have old: "page_leaf (pte g1 l3 (idx 3 q)) = leaf g q" if "p \<le> q" "q < E" for q
    proof -
      have "q < pages48" using that Ep by simp
      then have "same_path 3 q p" using same_path_3 [of q p] p blk [OF that] by simp
      then have "tab g1 3 q = Some l3" using tab_same_path [of 3 q p g1] l3 by simp
      then show ?thesis using g1(3) by (simp add: leaf_def fun_eq_iff del: tab.simps) (metis option.simps(5))
    qed
    have "\<forall>q < pages48. if p \<le> q \<and> q < E
        then \<exists>old. page_leaf old = leaf g q \<and> leaf g2 q = page_leaf (newd g (page_addr q) old)
        else leaf g2 q = leaf g q"
      using lf old g1(3) loc by auto
    moreover have "\<forall>q < pages48. q div 512 \<noteq> p div 512 \<longrightarrow> tab g2 3 q = tab g 3 q"
      using tb2 oth same_path_3 [OF _ p] by (simp del: tab.simps)
    ultimately show ?thesis using r True ed(1) e by blast
  qed
qed

end
