(* ===== verification/Page_Table_Ranges.thy ===== *)
theory Page_Table_Ranges
  imports Page_Table_Ops
begin

text \<open>
  The range loops of \<open>guest_invalidate_ptes\<close>, \<open>guest_update_perms\<close> and
  \<open>guest_extend_page_tables\<close>: that they return for every range of the 48-bit address space, and
  what they do to the translation of each page. The first two share their shape, so the argument
  is made once, for a loop \<open>L\<close> whose turns \<open>move\<close> on to a later page with a wanted effect.
\<close>

section \<open>Loops over blocks\<close>

definition moves ::
  "(u64 \<Rightarrow> 'a pt_guest_scheme \<Rightarrow> (int \<times> 'a pt_guest_scheme) option) \<Rightarrow> nat \<Rightarrow> nat \<Rightarrow> 'a pt_guest_scheme
   \<Rightarrow> (nat \<Rightarrow> (u64 \<times> u32) option) \<Rightarrow> bool" where
  "moves L A B g T \<longleftrightarrow> (\<exists>N g1. L (page_addr A) g = L (page_addr N) g1
     \<and> A < N \<and> N \<le> pages48 \<and> (512 dvd N \<or> B \<le> N) \<and> edited g g1
     \<and> (\<forall>q < pages48. leaf g1 q = (if A \<le> q \<and> q < N \<and> q < B then T q else leaf g q))
     \<and> (\<forall>q < B. N \<le> q \<longrightarrow> tab g1 3 q = tab g 3 q))"

lemma block_down: "A div 512 * 512 \<le> (A :: nat)"
  using div_mult_mod_eq [of A 512] by linarith

lemma in_block:
  "A < pages48 \<Longrightarrow> A \<le> q \<Longrightarrow> q < block_next A \<Longrightarrow> q div 512 = A div 512"
  using block_next_bounds(4) [of A q] block_down [of A] by auto

lemma moves_skip:
  assumes "pt_inv g" "A < pages48" "L (page_addr A) g = L (page_addr (block_next A)) g"
    and "\<And>q. A \<le> q \<Longrightarrow> q < B \<Longrightarrow> q < pages48 \<Longrightarrow> q div 512 = A div 512 \<Longrightarrow> T q = leaf g q"
  shows "moves L A B g T"
proof -
  have "leaf g q = (if A \<le> q \<and> q < block_next A \<and> q < B then T q else leaf g q)" if "q < pages48" for q
    using assms(4) [of q] in_block [OF assms(2), of q] that by auto
  then show ?thesis
    unfolding moves_def using assms(3) block_next_bounds [OF assms(2)] edited_refl [OF assms(1)] by blast
qed

lemma moves_whole:
  assumes inv: "pt_inv g" and t: "tab g 2 A = Some t" and A: "A < pages48"
    and old: "pte g t (idx 2 A) AND 3 = 1" and new: "d AND 3 \<noteq> 3"
    and nn: "\<forall>q. normal_leaf (block_leaf d q)"
    and start: "A div 512 * 512 = A" "block_next A \<le> B"
    and L: "L (page_addr A) g = L (page_addr (block_next A)) (request_range (page_addr (A div 512 * 512))
      (page_addr (block_next A)) (pte_store_release t (idx 2 A) d g))"
    and T: "\<And>q. q < pages48 \<Longrightarrow> q div 512 = A div 512 \<Longrightarrow> T q = block_leaf d q"
  shows "moves L A B g T"
proof -
  let ?g = "request_range (page_addr (A div 512 * 512)) (page_addr (block_next A))
      (pte_store_release t (idx 2 A) d g)"
  note w = whole_block_store [OF inv t A old new nn] and nb = block_next_bounds [OF A]
  have "leaf ?g q = (if A \<le> q \<and> q < block_next A \<and> q < B then T q else leaf g q)" if "q < pages48" for q
    using w(3) [OF that] T that nb(4) [of q] start by auto
  moreover have "tab ?g 3 q = tab g 3 q" for q using w(2) by blast
  ultimately show ?thesis
    unfolding moves_def using L nb w(1) by (intro exI [of _ "block_next A"] exI [of _ ?g]) auto
qed

text \<open>The turn that edits pages of an L3 table, splitting the block first when it has to.\<close>

lemma moves_partial:
  fixes L :: "u64 \<Rightarrow> 'a pt_guest_scheme \<Rightarrow> (int \<times> 'a pt_guest_scheme) option"
  assumes inv: "pt_inv g" and t: "tab g 2 A = Some t" and A: "A < B" "B \<le> pages48"
    and valid: "pte g t (idx 2 A) AND 1 \<noteq> 0" and nd: "frame_local newd"
    and nn: "\<forall>pa old. normal_leaf (page_leaf (newd g pa old))"
    and L: "\<And>rc g1. (if pte g t (idx 2 A) AND 3 = 1 then guest_split_block (page_addr (A div 512 * 512)) g
        else Some (0, g)) = Some (rc, g1) \<Longrightarrow>
      L (page_addr A) g = (if rc < 0 then Some (-1, g1)
        else edit_pages newd t (idx 2 A) (page_addr A) (page_addr (min B (block_next A))) g1
          \<bind> L (page_addr (min B (block_next A))))"
    and T: "\<And>q old. A \<le> q \<Longrightarrow> q < B \<Longrightarrow> q < block_next A \<Longrightarrow> page_leaf old = leaf g q \<Longrightarrow>
      page_leaf (newd g (page_addr q) old) = T q"
  shows "moves L A B g T \<or> L (page_addr A) g = Some (-1, g) \<and> \<not> pool_room g"
proof -
  let ?E = "min B (block_next A)"
  have A': "A < pages48" using A by simp
  note nb = block_next_bounds [OF A']
  have E: "A \<le> ?E" "?E \<le> block_next A" "A < ?E" "?E \<le> pages48" using A nb by auto
  obtain rc g1 where r: "(if pte g t (idx 2 A) AND 3 = 1 then guest_split_block (page_addr (A div 512 * 512)) g
      else Some (0, g)) = Some (rc, g1)"
    and c: "rc = -1 \<and> g1 = g \<and> \<not> pool_room g
      \<or> rc = 0 \<and> (\<exists>g2. edit_pages newd t (idx 2 A) (page_addr A) (page_addr ?E) g1 = Some g2
        \<and> edited g g2 \<and> (\<forall>q < pages48. q div 512 \<noteq> A div 512 \<longrightarrow> tab g2 3 q = tab g 3 q)
        \<and> (\<forall>q < pages48. if A \<le> q \<and> q < ?E
            then \<exists>old. page_leaf old = leaf g q \<and> leaf g2 q = page_leaf (newd g (page_addr q) old)
            else leaf g2 q = leaf g q))"
    using partial_block [OF inv t A' valid nd nn E(1,2)] by blast
  show ?thesis
  proof (cases "rc = 0")
    case False
    then show ?thesis using c L [OF r] by auto
  next
    case True
    with c obtain g2 where e: "edit_pages newd t (idx 2 A) (page_addr A) (page_addr ?E) g1 = Some g2" "edited g g2"
      and tb: "\<forall>q < pages48. q div 512 \<noteq> A div 512 \<longrightarrow> tab g2 3 q = tab g 3 q"
      and lf: "\<forall>q < pages48. if A \<le> q \<and> q < ?E
            then \<exists>old. page_leaf old = leaf g q \<and> leaf g2 q = page_leaf (newd g (page_addr q) old)
            else leaf g2 q = leaf g q" by auto
    have "L (page_addr A) g = L (page_addr ?E) g2" using L [OF r] True e(1) by simp
    moreover have "leaf g2 q = (if A \<le> q \<and> q < ?E \<and> q < B then T q else leaf g q)" if "q < pages48" for q
      using lf [rule_format, OF that] T [of q] by (auto split: if_splits)
    moreover have "tab g2 3 q = tab g 3 q" if "q < B" "?E \<le> q" for q
    proof -
      have "q < pages48" "block_next A \<le> q" using that A(2) by (auto simp: min_def split: if_splits)
      then show ?thesis using tb nb(4) [of q] by auto
    qed
    moreover have "512 dvd ?E \<or> B \<le> ?E" using nb(3) by (auto simp: min_def)
    ultimately show ?thesis unfolding moves_def using E e(2) by blast
  qed
qed

lemma range_loop:
  fixes L :: "u64 \<Rightarrow> 'a pt_guest_scheme \<Rightarrow> (int \<times> 'a pt_guest_scheme) option"
  assumes stop: "\<And>A g. B \<le> A \<Longrightarrow> A \<le> pages48 \<Longrightarrow> L (page_addr A) g = Some (0, g)"
    and turn: "\<And>A g. pt_inv g \<Longrightarrow> S \<le> A \<Longrightarrow> A < B \<Longrightarrow> A = S \<or> 512 dvd A \<Longrightarrow>
      moves L A B g (T g) \<or> L (page_addr A) g = Some (-1, g) \<and> \<not> pool_room g"
    and local: "\<And>g g1 q. q < pages48 \<Longrightarrow> pt_frame g g1 \<Longrightarrow> leaf g1 q = leaf g q \<Longrightarrow>
      tab g1 3 q = tab g 3 q \<Longrightarrow> T g1 q = T g q"
    and B: "B \<le> pages48"
  shows "pt_inv g \<Longrightarrow> S \<le> A \<Longrightarrow> A \<le> pages48 \<Longrightarrow> A = S \<or> 512 dvd A \<or> B \<le> A \<Longrightarrow>
    \<exists>rc g'. L (page_addr A) g = Some (rc, g') \<and> edited g g' \<and> (rc = 0 \<or> rc = -1 \<and> \<not> pool_room g')
      \<and> (\<forall>q < pages48. q < A \<or> B \<le> q \<longrightarrow> leaf g' q = leaf g q)
      \<and> (rc = 0 \<longrightarrow> (\<forall>q. A \<le> q \<and> q < B \<longrightarrow> leaf g' q = T g q))"
proof (induction "B - A" arbitrary: A g rule: less_induct)
  case less
  show ?case
  proof (cases "B \<le> A")
    case True
    then show ?thesis using stop less.prems edited_refl by auto
  next
    case False
    then have AB: "A < B" by simp
    from less.prems turn [OF less.prems(1,2) AB] AB
    consider "moves L A B g (T g)" | "L (page_addr A) g = Some (-1, g)" "\<not> pool_room g" by auto
    then show ?thesis
    proof cases
      case 2
      then show ?thesis using less.prems(1) edited_refl by auto
    next
      case 1
      then obtain N g1 where N: "L (page_addr A) g = L (page_addr N) g1" "A < N" "N \<le> pages48"
        "512 dvd N \<or> B \<le> N" and e: "edited g g1"
        and lf: "\<forall>q < pages48. leaf g1 q = (if A \<le> q \<and> q < N \<and> q < B then T g q else leaf g q)"
        and tb: "\<forall>q < B. N \<le> q \<longrightarrow> tab g1 3 q = tab g 3 q" unfolding moves_def by blast
      have "B - N < B - A" using N(2) AB by simp
      from less.hyps [OF this edited_inv [OF e] _ N(3)] N less.prems(2)
      obtain rc g' where r: "L (page_addr N) g1 = Some (rc, g')" "edited g1 g'" "rc = 0 \<or> rc = -1 \<and> \<not> pool_room g'"
        and out: "\<forall>q < pages48. q < N \<or> B \<le> q \<longrightarrow> leaf g' q = leaf g1 q"
        and ins: "rc = 0 \<longrightarrow> (\<forall>q. N \<le> q \<and> q < B \<longrightarrow> leaf g' q = T g1 q)" by auto
      have later: "T g1 q = T g q" if "N \<le> q" "q < B" for q
        using local [OF _ edited_frame [OF e], of q] lf tb that B by auto
      have "leaf g' q = leaf g q" if "q < pages48" "q < A \<or> B \<le> q" for q
        using out lf that N(2) by auto
      moreover have "leaf g' q = T g q" if "rc = 0" "A \<le> q" "q < B" for q
        using ins later out lf that B by (cases "q < N") auto
      ultimately show ?thesis using N(1) r edited_trans [OF e r(2)] by auto
    qed
  qed
qed

text \<open>What a turn at page \<open>A\<close> has computed before it looks at the descriptor.\<close>

lemma turn_facts:
  assumes inv: "pt_inv g" and SA: "S \<le> A" "A < B" "B \<le> pages48"
  shows "page_addr A < page_addr B" "ipa_base g = 0"
    "find_l2_entry g (page_addr A) = Some (map_option (\<lambda>t. (t, idx 2 A)) (tab g 2 A))"
    "page_addr S \<le> page_addr (A div 512 * 512) \<longleftrightarrow> S \<le> A div 512 * 512"
    "page_addr (block_next A) \<le> page_addr B \<longleftrightarrow> block_next A \<le> B"
    "(if page_addr B < page_addr (block_next A) then page_addr B else page_addr (block_next A))
       = page_addr (min B (block_next A))"
    "(if page_addr (A div 512 * 512) < page_addr A then page_addr A else page_addr (A div 512 * 512)) = page_addr A"
proof -
  have wf: "pt_wf g" using inv by (simp add: pt_inv_def)
  have A: "A < pages48" "S \<le> pages48" "A \<le> pages48" "A div 512 * 512 \<le> pages48"
    using SA block_down [of A] by linarith+
  note nb = block_next_bounds [OF A(1)]
  show "page_addr A < page_addr B" using SA A by (simp add: page_addr_less)
  show "ipa_base g = 0" using pt_wfD(1) [OF wf] by (simp add: pool_ok_def)
  show "find_l2_entry g (page_addr A) = Some (map_option (\<lambda>t. (t, idx 2 A)) (tab g 2 A))"
    by (rule find_l2_entry_spec [OF wf]) (use A in \<open>simp_all add: pages48_def\<close>)
  show "page_addr S \<le> page_addr (A div 512 * 512) \<longleftrightarrow> S \<le> A div 512 * 512"
    "page_addr (block_next A) \<le> page_addr B \<longleftrightarrow> block_next A \<le> B"
    using A SA nb by (simp_all add: page_addr_le)
  show "(if page_addr B < page_addr (block_next A) then page_addr B else page_addr (block_next A))
       = page_addr (min B (block_next A))"
    using SA nb by (simp add: page_addr_less min_def)
  show "(if page_addr (A div 512 * 512) < page_addr A then page_addr A else page_addr (A div 512 * 512)) = page_addr A"
  proof (cases "A div 512 * 512 = A")
    case False
    then have "A div 512 * 512 < A" using block_down [of A] by simp
    then show ?thesis using A by (simp add: page_addr_less)
  qed simp
qed

section \<open>Invalidation\<close>

lemma page_leaf_0 [simp]: "page_leaf 0 = None"
  by (simp add: page_leaf_def)

lemma block_leaf_0 [simp]: "block_leaf 0 q = None"
  by (simp add: block_leaf_def)

lemma normal_leaf_None [simp]: "normal_leaf None"
  by (simp add: normal_leaf_def)

lemma whole_block_start: "A = S \<or> 512 dvd A \<Longrightarrow> S \<le> A div 512 * 512 \<Longrightarrow> A div 512 * 512 = (A :: nat)"
  using block_down [of A] by auto

lemma invalidate_turn:
  assumes inv: "pt_inv g" and SA: "S \<le> A" "A < B" and B: "B \<le> pages48" and al: "A = S \<or> 512 dvd A"
  shows "moves (invalidate_loop (page_addr S) (page_addr B)) A B g (\<lambda>_. None)
    \<or> invalidate_loop (page_addr S) (page_addr B) (page_addr A) g = Some (-1, g) \<and> \<not> pool_room g"
proof -
  let ?L = "invalidate_loop (page_addr S) (page_addr B)"
  have A: "A < pages48" using SA B by simp
  note tf = turn_facts [OF inv SA B] and ba = block_addrs [OF A]
  show ?thesis
  proof (cases "tab g 2 A")
    case None
    have "?L (page_addr A) g = ?L (page_addr (block_next A)) g"
      using tf(1,3) None ba by (subst invalidate_loop.simps) simp
    then show ?thesis using moves_skip [OF inv A] no_table_no_leaf [OF None A] by metis
  next
    case (Some t)
    let ?d = "pte g t (idx 2 A)"
    have f: "find_l2_entry g (page_addr A) = Some (Some (t, idx 2 A))" using tf(3) Some by simp
    note simps = tf(1,2) f ba(1,2)
    show ?thesis
    proof (cases "?d AND 1 = 0")
      case True
      then have "?d AND 3 \<noteq> 3" by (cases ?d rule: desc_kind) auto
      then have "leaf g q = None" if "q < pages48" "q div 512 = A div 512" for q
        using l2_entry_leaf(1) [OF Some A that] True by (simp add: block_leaf_def)
      moreover have "?L (page_addr A) g = ?L (page_addr (block_next A)) g"
        using True simps by (subst invalidate_loop.simps) (simp add: Let_def)
      ultimately show ?thesis using moves_skip [OF inv A] by metis
    next
      case valid: False
      show ?thesis
      proof (cases "?d AND 3 = 1 \<and> S \<le> A div 512 * 512 \<and> block_next A \<le> B")
        case True
        have "?L (page_addr A) g = ?L (page_addr (block_next A)) (request_range (page_addr (A div 512 * 512))
            (page_addr (block_next A)) (pte_store_release t (idx 2 A) 0 g))"
          using valid True simps tf(4,5) by (subst invalidate_loop.simps) (simp add: Let_def)
        then show ?thesis
          using True whole_block_start [OF al] by (intro disjI1 moves_whole [OF inv Some A]) auto
      next
        case False
        then have nf: "(?d AND 3 = 1 \<and> S \<le> A div 512 * 512 \<and> block_next A \<le> B) = False" by blast
        show ?thesis
        proof (rule moves_partial [OF inv Some SA(2) B valid invalid_desc_local])
          fix rc g1
          assume r: "(if ?d AND 3 = 1 then guest_split_block (page_addr (A div 512 * 512)) g
            else Some (0, g)) = Some (rc, g1)"
          show "?L (page_addr A) g = (if rc < 0 then Some (-1, g1)
              else edit_pages invalid_desc t (idx 2 A) (page_addr A) (page_addr (min B (block_next A))) g1
                \<bind> ?L (page_addr (min B (block_next A))))"
            using valid simps tf(4,5)
            by (subst invalidate_loop.simps)
               (simp add: Let_def nf r tf(6,7) split del: if_split cong: if_cong)
        qed (simp_all add: invalid_desc_def)
      qed
    qed
  qed
qed

lemma page_floor: "unat (x AND NOT (PAGE_SIZE - 1)) = unat x div 4096 * 4096"
proof -
  have "PAGE_SIZE - 1 = mask 12" by (simp add: PAGE_SIZE_def mask_eq_exp_minus_1)
  then show ?thesis using and_not_mask_unat [of x 12] by simp
qed

lemma page_ceil:
  "unat x \<le> 2 ^ 48 \<Longrightarrow> unat ((x + PAGE_SIZE - 1) AND NOT (PAGE_SIZE - 1)) = (unat x + 4095) div 4096 * 4096"
proof -
  assume "unat x \<le> 2 ^ 48"
  then have "unat (x + 4095) = unat x + 4095" by (simp add: unat_add_u64)
  moreover have "x + PAGE_SIZE - 1 = x + 4095" by (simp add: PAGE_SIZE_def)
  ultimately show ?thesis using page_floor [of "x + 4095"] by (simp add: PAGE_SIZE_def add.commute)
qed

text \<open>The pages of an address range, rounded outwards.\<close>

definition first_page :: "u64 \<Rightarrow> nat" where "first_page a = unat a div 4096"
definition end_page :: "u64 \<Rightarrow> nat" where "end_page a = (unat a + 4095) div 4096"

lemma range_pages:
  assumes "unat e \<le> 2 ^ 48"
  shows "\<not> e > UINT64_MAX - (PAGE_SIZE - 1)"
    "end_page e \<le> pages48"
    "(e + PAGE_SIZE - 1) AND NOT (PAGE_SIZE - 1) = page_addr (end_page e)"
    "first_page s < end_page e \<Longrightarrow> s AND NOT (PAGE_SIZE - 1) = page_addr (first_page s)"
    "(e + PAGE_SIZE - 1) AND NOT (PAGE_SIZE - 1) \<le> s AND NOT (PAGE_SIZE - 1) \<longleftrightarrow> end_page e \<le> first_page s"
proof -
  have "PAGE_SIZE - 1 = (4095 :: u64)" by (simp add: PAGE_SIZE_def)
  moreover have "unat (UINT64_MAX - 4095) = 2 ^ 64 - 4096"
    by (simp add: unat_sub unat_UINT64_MAX)
  ultimately show "\<not> e > UINT64_MAX - (PAGE_SIZE - 1)"
    using assms by (simp add: word_less_nat_alt PAGE_SIZE_def)
  show ep: "end_page e \<le> pages48" using assms by (simp add: end_page_def pages48_def)
  have c: "unat ((e + PAGE_SIZE - 1) AND NOT (PAGE_SIZE - 1)) = end_page e * 4096"
    using page_ceil [OF assms] by (simp add: end_page_def)
  have f: "unat (s AND NOT (PAGE_SIZE - 1)) = first_page s * 4096"
    using page_floor by (simp add: first_page_def)
  show "(e + PAGE_SIZE - 1) AND NOT (PAGE_SIZE - 1) = page_addr (end_page e)" by (rule page_addr_eqI [OF c ep])
  show "first_page s < end_page e \<Longrightarrow> s AND NOT (PAGE_SIZE - 1) = page_addr (first_page s)"
    using ep by (intro page_addr_eqI [OF f]) simp
  show "(e + PAGE_SIZE - 1) AND NOT (PAGE_SIZE - 1) \<le> s AND NOT (PAGE_SIZE - 1) \<longleftrightarrow> end_page e \<le> first_page s"
    by (simp add: word_le_nat_alt c f)
qed

lemma gen_bump_fields [simp]:
  "pte (guest_pt_gen_bump g) = pte g" "ttbr0 (guest_pt_gen_bump g) = ttbr0 g"
  "tlbi_req (guest_pt_gen_bump g) = tlbi_req g" "pt_gen (guest_pt_gen_bump g) = pt_gen g + 1"
  "pool_room (guest_pt_gen_bump g) = pool_room g" "pt_frame h (guest_pt_gen_bump g) = pt_frame h g"
  by (simp_all add: guest_pt_gen_bump_def pool_room_def pt_frame_def)

lemma leaf_gen_bump [simp]: "leaf (guest_pt_gen_bump g) q = leaf g q"
  by (rule leaf_cong) simp_all

lemma pt_inv_gen_bump [simp]: "pt_inv (guest_pt_gen_bump g) = pt_inv g"
proof -
  have "pool_ok (guest_pt_gen_bump g) = pool_ok g" "pool_page (guest_pt_gen_bump g) = pool_page g"
    by (auto simp: guest_pt_gen_bump_def pool_ok_def pool_page_def fun_eq_iff)
  moreover have "tab (guest_pt_gen_bump g) m q = tab g m q" for m q by (rule tab_cong) simp_all
  ultimately have "pt_wf (guest_pt_gen_bump g) = pt_wf g" by (simp add: pt_wf_def)
  then show ?thesis by (simp add: pt_inv_def leaves_normal_iff)
qed

lemma guest_invalidate_ptes_correct:
  assumes inv: "pt_inv g" and e: "unat e \<le> 2 ^ 48"
  shows "\<exists>rc g'. guest_invalidate_ptes s e g = Some (rc, g')
    \<and> pt_inv g' \<and> pt_frame g g' \<and> (rc = 0 \<or> rc = -1 \<and> \<not> pool_room g')
    \<and> (\<forall>q < pages48. leaf g' q \<noteq> leaf g q \<longrightarrow> covered (tlbi_req g') q)
    \<and> (\<forall>q < pages48. q < first_page s \<or> end_page e \<le> q \<longrightarrow> leaf g' q = leaf g q)
    \<and> (rc = 0 \<longrightarrow> (\<forall>q. first_page s \<le> q \<and> q < end_page e \<longrightarrow> leaf g' q = None)
        \<and> (first_page s < end_page e \<longrightarrow> pt_gen g' = pt_gen g + 1))
    \<and> (rc = -1 \<longrightarrow> pt_gen g' = pt_gen g)"
proof (cases "end_page e \<le> first_page s")
  case True
  note rp = range_pages [OF e]
  have "guest_invalidate_ptes s e g = Some (0, g)"
    using True rp(1,5) by (simp add: guest_invalidate_ptes_def Let_def)
  then show ?thesis using inv True by auto
next
  case False
  then have lt: "first_page s < end_page e" by simp
  note rp = range_pages [OF e]
  let ?S = "first_page s" and ?B = "end_page e"
  let ?L = "invalidate_loop (page_addr ?S) (page_addr ?B)"
  have "\<exists>rc g'. ?L (page_addr ?S) g = Some (rc, g') \<and> edited g g' \<and> (rc = 0 \<or> rc = -1 \<and> \<not> pool_room g')
      \<and> (\<forall>q < pages48. q < ?S \<or> ?B \<le> q \<longrightarrow> leaf g' q = leaf g q)
      \<and> (rc = 0 \<longrightarrow> (\<forall>q. ?S \<le> q \<and> q < ?B \<longrightarrow> leaf g' q = (\<lambda>_ _. None) g q))"
  proof (rule range_loop [where L = ?L and S = ?S and T = "\<lambda>_ _. None"])
    fix A and h :: "'a pt_guest_scheme"
    assume "?B \<le> A" "A \<le> pages48"
    then show "?L (page_addr A) h = Some (0, h)"
      using rp(2) by (subst invalidate_loop.simps) (simp add: page_addr_less)
  next
    fix A and h :: "'a pt_guest_scheme"
    assume "pt_inv h" "?S \<le> A" "A < ?B" "A = ?S \<or> 512 dvd A"
    then show "moves ?L A ?B h (\<lambda>_. None) \<or> ?L (page_addr A) h = Some (-1, h) \<and> \<not> pool_room h"
      by (intro invalidate_turn rp(2))
  qed (use inv rp(2) lt in auto)
  then obtain rc g' where r: "?L (page_addr ?S) g = Some (rc, g')" "edited g g'" "rc = 0 \<or> rc = -1 \<and> \<not> pool_room g'"
    and lf: "\<forall>q < pages48. q < ?S \<or> ?B \<le> q \<longrightarrow> leaf g' q = leaf g q"
      "rc = 0 \<longrightarrow> (\<forall>q. ?S \<le> q \<and> q < ?B \<longrightarrow> leaf g' q = None)" by blast
  have "guest_invalidate_ptes s e g = Some (if rc < 0 then (-1, g') else (0, guest_pt_gen_bump g'))"
    using rp(1,3) rp(4) [OF lt] lt rp(2) r(1) by (simp add: guest_invalidate_ptes_def Let_def page_addr_le)
  then show ?thesis using r lf by (cases "rc = 0") (auto simp: edited_def)
qed

section \<open>Permission changes\<close>

text \<open>
  The address \<open>guest_update_perms\<close> gives to a page that has no valid descriptor: from the region
  that holds it, else its own.
\<close>

definition fallback_addr :: "'a pt_guest_scheme \<Rightarrow> nat \<Rightarrow> u64" where
  "fallback_addr g q =
     (case guest_region_find (regions g) (page_addr q) of
        Some r \<Rightarrow> (gpa_base r + (page_addr q - r_start r)) AND NOT (PAGE_SIZE - 1)
      | None \<Rightarrow> page_addr q AND NOT (PAGE_SIZE - 1))"

definition updated_leaf :: "u32 \<Rightarrow> 'a pt_guest_scheme \<Rightarrow> nat \<Rightarrow> (u64 \<times> u32) option" where
  "updated_leaf perms g q =
     (case leaf g q of
        Some (a, _) \<Rightarrow> Some (a, norm_perms perms)
      | None \<Rightarrow> if tab g 3 q = None then None else Some (daddr (fallback_addr g q), norm_perms perms))"

lemma page_leaf_update:
  assumes "ipa_base g = 0" "page_leaf old = leaf g q" "leaf g q = None \<Longrightarrow> tab g 3 q \<noteq> None"
  shows "page_leaf (update_desc perms g (page_addr q) old) = updated_leaf perms g q"
  using assms
  by (auto simp: page_leaf_def update_desc_def updated_leaf_def fallback_addr_def PT_VALID_def
      make_page_desc_fields daddr_def [symmetric] Let_def split: option.split if_splits)

lemma update_desc_normal: "normal_leaf (page_leaf (update_desc perms g pa old))"
  by (simp add: page_leaf_def update_desc_def make_page_desc_fields normal_leaf_def Let_def)

lemma updated_leaf_local:
  "pt_frame g g1 \<Longrightarrow> leaf g1 q = leaf g q \<Longrightarrow> tab g1 3 q = tab g 3 q \<Longrightarrow>
   updated_leaf perms g1 q = updated_leaf perms g q"
  by (simp add: updated_leaf_def fallback_addr_def pt_frame_def del: tab.simps cong: option.case_cong)

lemma block_desc_leaf:
  "block_leaf (make_block_desc (d AND L2_BLOCK_ADDR_MASK) perms) q =
     Some ((d AND L2_BLOCK_ADDR_MASK) + word_of_nat (q mod 512) * PAGE_SIZE, norm_perms perms)"
  by (simp add: block_leaf_def make_block_desc_fields and.assoc)

lemma update_turn:
  assumes inv: "pt_inv g" and SA: "S \<le> A" "A < B" and B: "B \<le> pages48" and al: "A = S \<or> 512 dvd A"
  shows "moves (update_loop perms (page_addr S) (page_addr B)) A B g (updated_leaf perms g)
    \<or> update_loop perms (page_addr S) (page_addr B) (page_addr A) g = Some (-1, g) \<and> \<not> pool_room g"
proof -
  let ?L = "update_loop perms (page_addr S) (page_addr B)"
  have A: "A < pages48" using SA B by simp
  note tf = turn_facts [OF inv SA B] and ba = block_addrs [OF A]
  show ?thesis
  proof (cases "tab g 2 A")
    case None
    have "?L (page_addr A) g = ?L (page_addr (block_next A)) g"
      using tf(1,3) None ba by (subst update_loop.simps) simp
    then show ?thesis
      using no_table_no_leaf [OF None A] by (intro disjI1 moves_skip [OF inv A]) (simp_all add: updated_leaf_def)
  next
    case (Some t)
    let ?d = "pte g t (idx 2 A)"
    have f: "find_l2_entry g (page_addr A) = Some (Some (t, idx 2 A))" using tf(3) Some by simp
    note simps = tf(1,2) f ba(1,2)
    note blk = l2_entry_leaf [OF Some A]
    show ?thesis
    proof (cases "?d AND 1 = 0")
      case True
      then have n3: "?d AND 3 \<noteq> 3" by (cases ?d rule: desc_kind) auto
      have "?L (page_addr A) g = ?L (page_addr (block_next A)) g"
        using True simps by (subst update_loop.simps) (simp add: Let_def)
      then show ?thesis
        using blk [OF _ _ n3] True by (intro disjI1 moves_skip [OF inv A]) (simp_all add: updated_leaf_def block_leaf_def)
    next
      case valid: False
      have unch: "updated_leaf perms g q = leaf g q"
        if "?d AND 3 = 1" "desc_to_perms ?d = perms" "q < pages48" "q div 512 = A div 512" for q
      proof -
        have lf: "leaf g q = Some ((?d AND L2_BLOCK_ADDR_MASK) + word_of_nat (q mod 512) * PAGE_SIZE, perms)"
          using blk(1) that valid by (simp add: block_leaf_def)
        then have "norm_perms perms = perms" using inv unfolding pt_inv_def leaves_normal_def by blast
        with lf show ?thesis by (simp add: updated_leaf_def)
      qed
      consider (whole) "?d AND 3 = 1" "S \<le> A div 512 * 512" "block_next A \<le> B" "desc_to_perms ?d \<noteq> perms"
        | (same) "?d AND 3 = 1" "desc_to_perms ?d = perms"
        | (part) "(?d AND 3 = 1 \<and> S \<le> A div 512 * 512 \<and> block_next A \<le> B) = False"
            "(?d AND 3 = 1 \<and> desc_to_perms ?d = perms) = False" by blast
      then show ?thesis
      proof cases
        case whole
        let ?n = "make_block_desc (?d AND L2_BLOCK_ADDR_MASK) perms"
        have L: "?L (page_addr A) g = ?L (page_addr (block_next A)) (request_range (page_addr (A div 512 * 512))
            (page_addr (block_next A)) (pte_store_release t (idx 2 A) ?n g))"
          using valid whole simps tf(4,5) by (subst update_loop.simps) (simp add: Let_def)
        have "updated_leaf perms g q = block_leaf ?n q" if "q < pages48" "q div 512 = A div 512" for q
          using blk(1) [OF that] whole(1) valid by (simp add: updated_leaf_def block_desc_leaf) (simp add: block_leaf_def)
        then show ?thesis
          using whole whole_block_start [OF al] L
          by (intro disjI1 moves_whole [OF inv Some A whole(1), of ?n])
             (auto simp: make_block_desc_fields block_desc_leaf normal_leaf_def)
      next
        case same
        have "?L (page_addr A) g = ?L (page_addr (block_next A)) g"
          using valid same simps tf(4,5) by (subst update_loop.simps) (simp add: Let_def)
        then show ?thesis
          using unch [OF same] by (intro disjI1 moves_skip [OF inv A]) auto
      next
        case part
        show ?thesis
        proof (rule moves_partial [OF inv Some SA(2) B valid update_desc_local])
          fix rc g1
          assume r: "(if ?d AND 3 = 1 then guest_split_block (page_addr (A div 512 * 512)) g
            else Some (0, g)) = Some (rc, g1)"
          have pe: "(if page_addr B < page_addr (block_next A) then page_addr B
              else page_addr (A div 512 * 512) + BLOCK_2MIB) = page_addr (min B (block_next A))"
            unfolding ba(2) by (rule tf(6))
          show "?L (page_addr A) g = (if rc < 0 then Some (-1, g1)
              else edit_pages (update_desc perms) t (idx 2 A) (page_addr A) (page_addr (min B (block_next A))) g1
                \<bind> ?L (page_addr (min B (block_next A))))"
            using valid simps tf(4,5)
            by (cases "rc < 0"; subst update_loop.simps)
               (simp_all add: Let_def part r pe tf(7) split del: if_split)
        next
          fix q old
          assume q: "A \<le> q" "q < B" "q < block_next A" "page_leaf old = leaf g q"
          have "q < pages48" using q(2) B by simp
          note qb = this in_block [OF A q(1,3)]
          have "tab g 3 q \<noteq> None" if "leaf g q = None"
          proof (cases "?d AND 3 = 3")
            case True
            have "same_path 2 q A" "idx 2 q = idx 2 A"
              using same_path_3 [OF qb(1) A] qb(2) by (auto simp: same_path_3_Suc)
            then show ?thesis
              using tab_same_path [of 2 q A g] Some True by (simp add: numeral_3_eq_3 numeral_2_eq_2 is_tab_def)
          next
            case False
            then show ?thesis using blk(1) [OF qb False] that valid by (simp add: block_leaf_def)
          qed
          then show "page_leaf (update_desc perms g (page_addr q) old) = updated_leaf perms g q"
            by (rule page_leaf_update [OF tf(2) q(4)])
        qed (simp add: update_desc_normal)
      qed
    qed
  qed
qed

lemma mark_icache_fields [simp]:
  "pte (request_mark_icache g) = pte g" "ttbr0 (request_mark_icache g) = ttbr0 g"
  "pt_gen (request_mark_icache g) = pt_gen g" "pool_room (request_mark_icache g) = pool_room g"
  "pt_frame h (request_mark_icache g) = pt_frame h g" "pt_frame (request_mark_icache g) h = pt_frame g h"
  "covered (tlbi_req (request_mark_icache g)) q = covered (tlbi_req g) q"
  "tlbi_wf (tlbi_req (request_mark_icache g)) = tlbi_wf (tlbi_req g)"
  by (simp_all add: request_mark_icache_def tlbi_request_mark_icache_def pool_room_def pt_frame_def covered_def
      tlbi_wf_def)

lemma leaf_mark_icache [simp]: "leaf (request_mark_icache g) q = leaf g q"
  by (rule leaf_cong) simp_all

lemma tab_mark_icache [simp]: "tab (request_mark_icache g) n q = tab g n q"
  by (rule tab_cong) simp_all

lemma pt_inv_mark_icache [simp]: "pt_inv (request_mark_icache g) = pt_inv g"
proof -
  have "pool_ok (request_mark_icache g) = pool_ok g" "pool_page (request_mark_icache g) = pool_page g"
    by (auto simp: request_mark_icache_def pool_ok_def pool_page_def fun_eq_iff)
  then have "pt_wf (request_mark_icache g) = pt_wf g" by (simp add: pt_wf_def)
  then show ?thesis by (simp add: pt_inv_def leaves_normal_iff)
qed

definition exec_alias :: "u32 \<Rightarrow> u64 \<Rightarrow> u64 \<Rightarrow> bool" where
  "exec_alias perms s e \<longleftrightarrow> perms AND MEM_PERM_X \<noteq> 0 \<and> first_page s < end_page e
     \<and> guest_kbuf_user_va_overlap (page_addr (first_page s)) (page_addr (end_page e) - page_addr (first_page s))"

lemma guest_update_perms_correct:
  assumes inv: "pt_inv g" and e: "unat e \<le> 2 ^ 48"
  shows "\<exists>rc g'. guest_update_perms s e perms g = Some (rc, g')
    \<and> pt_inv g' \<and> pt_frame g g' \<and> (rc = 0 \<and> \<not> exec_alias perms s e
        \<or> rc = -1 \<and> (\<not> pool_room g' \<or> exec_alias perms s e \<and> (\<forall>q. leaf g' q = leaf g q)))
    \<and> (\<forall>q < pages48. leaf g' q \<noteq> leaf g q \<longrightarrow> covered (tlbi_req g') q)
    \<and> (\<forall>q < pages48. q < first_page s \<or> end_page e \<le> q \<longrightarrow> leaf g' q = leaf g q)
    \<and> (rc = 0 \<longrightarrow> (\<forall>q. first_page s \<le> q \<and> q < end_page e \<longrightarrow> leaf g' q = updated_leaf perms g q)
        \<and> (first_page s < end_page e \<longrightarrow> pt_gen g' = pt_gen g + 1))
    \<and> (rc = -1 \<longrightarrow> pt_gen g' = pt_gen g)"
proof (cases "end_page e \<le> first_page s")
  case True
  note rp = range_pages [OF e]
  have "guest_update_perms s e perms g = Some (0, g)"
    using True rp(1,5) by (simp add: guest_update_perms_def Let_def)
  then show ?thesis using inv True by (auto simp: exec_alias_def)
next
  case False
  then have lt: "first_page s < end_page e" by simp
  note rp = range_pages [OF e]
  let ?S = "first_page s" and ?B = "end_page e"
  let ?L = "update_loop perms (page_addr ?S) (page_addr ?B)"
  let ?g0 = "if perms AND MEM_PERM_X \<noteq> 0 then request_mark_icache g else g"
  have inv0: "pt_inv ?g0" using inv by simp
  have g0: "leaf ?g0 = leaf g" "pt_frame g ?g0" "updated_leaf perms ?g0 = updated_leaf perms g" "pt_gen ?g0 = pt_gen g"
    by (auto simp: fun_eq_iff updated_leaf_local)
  have eq: "guest_update_perms s e perms g = (if exec_alias perms s e then Some (-1, ?g0)
      else do { (rc, g1) \<leftarrow> ?L (page_addr ?S) ?g0; Some (if rc < 0 then (-1, g1) else (0, guest_pt_gen_bump g1)) })"
    using rp(1,3) rp(4) [OF lt] lt rp(2)
    by (simp add: guest_update_perms_def exec_alias_def Let_def page_addr_le page_addr_less split del: if_split)
  show ?thesis
  proof (cases "exec_alias perms s e")
    case True
    then show ?thesis using eq inv0 g0 by (auto simp: fun_eq_iff split del: if_split)
  next
    case nx: False
    have "\<exists>rc g'. ?L (page_addr ?S) ?g0 = Some (rc, g') \<and> edited ?g0 g' \<and> (rc = 0 \<or> rc = -1 \<and> \<not> pool_room g')
        \<and> (\<forall>q < pages48. q < ?S \<or> ?B \<le> q \<longrightarrow> leaf g' q = leaf ?g0 q)
        \<and> (rc = 0 \<longrightarrow> (\<forall>q. ?S \<le> q \<and> q < ?B \<longrightarrow> leaf g' q = updated_leaf perms ?g0 q))"
    proof (rule range_loop [where L = ?L and S = ?S and T = "updated_leaf perms"])
      fix A and h :: "'a pt_guest_scheme"
      assume "?B \<le> A" "A \<le> pages48"
      then show "?L (page_addr A) h = Some (0, h)"
        using rp(2) by (subst update_loop.simps) (simp add: page_addr_less)
    next
      fix A and h :: "'a pt_guest_scheme"
      assume "pt_inv h" "?S \<le> A" "A < ?B" "A = ?S \<or> 512 dvd A"
      then show "moves ?L A ?B h (updated_leaf perms h) \<or> ?L (page_addr A) h = Some (-1, h) \<and> \<not> pool_room h"
        by (intro update_turn rp(2))
    qed (use inv0 rp(2) lt in \<open>auto intro: updated_leaf_local\<close>)
    then obtain rc g' where r: "?L (page_addr ?S) ?g0 = Some (rc, g')" "edited ?g0 g'" "rc = 0 \<or> rc = -1 \<and> \<not> pool_room g'"
      and lf: "\<forall>q < pages48. q < ?S \<or> ?B \<le> q \<longrightarrow> leaf g' q = leaf g q"
        "rc = 0 \<longrightarrow> (\<forall>q. ?S \<le> q \<and> q < ?B \<longrightarrow> leaf g' q = updated_leaf perms g q)" using g0 by auto
    have "guest_update_perms s e perms g = Some (if rc < 0 then (-1, g') else (0, guest_pt_gen_bump g'))"
      unfolding eq if_not_P [OF nx] r(1) by simp
    moreover have "pt_inv g'" "pt_gen g' = pt_gen g" "pt_frame g g'"
      "\<forall>q < pages48. leaf g' q \<noteq> leaf g q \<longrightarrow> covered (tlbi_req g') q"
      using r(2) g0 pt_frame_trans [OF g0(2)] by (auto simp: edited_def)
    ultimately show ?thesis using r(3) lf nx by (cases "rc = 0") auto
  qed
qed

end
