(* ===== verification/Page_Table_Extend.thy ===== *)
theory Page_Table_Extend
  imports Page_Table_Ranges
begin

text \<open>
  \<open>guest_extend_page_tables\<close> installs identity-mapped 2 MiB blocks where nothing is mapped,
  allocating L1 and L2 tables on the way: its effect on every page, and that it returns.
\<close>

section \<open>Tables on demand\<close>

definition l2_mapped :: "'a pt_guest_scheme \<Rightarrow> nat \<Rightarrow> bool" where
  "l2_mapped g q = (case tab g 2 q of None \<Rightarrow> False | Some t \<Rightarrow> pte g t (idx 2 q) AND 1 \<noteq> 0)"

text \<open>Nothing but the tables has changed, and no translation.\<close>

definition grown :: "'a pt_guest_scheme \<Rightarrow> 'a pt_guest_scheme \<Rightarrow> bool" where
  "grown g g' \<longleftrightarrow> pt_inv g' \<and> pt_frame g g' \<and> tlbi_req g' = tlbi_req g \<and> pt_gen g' = pt_gen g
     \<and> leaf g' = leaf g \<and> l2_mapped g' = l2_mapped g"

lemma grown_refl: "pt_inv g \<Longrightarrow> grown g g"
  by (simp add: grown_def)

lemma grown_trans: "grown g g' \<Longrightarrow> grown g' g'' \<Longrightarrow> grown g g''"
  unfolding grown_def using pt_frame_trans by metis

lemma link_fresh_grown:
  assumes inv: "pt_inv g" and room: "pool_room g" and t: "tab g n p = Some t" "n < 2"
    and old: "\<not> is_tab n (pte g t (idx n p))"
  shows "grown g (link_fresh (\<lambda>_. 0) t (idx n p) g)"
    "tab (link_fresh (\<lambda>_. 0) t (idx n p) g) (Suc n) p = Some (pt_pool_next g)"
proof -
  let ?g = "link_fresh (\<lambda>_. 0) t (idx n p) g" and ?N = "pt_pool_next g"
  have wf: "pt_wf g" using inv by (simp add: pt_inv_def)
  have n: "n \<le> 2" using t(2) by simp
  have tb: "m \<le> 3 \<Longrightarrow> tab ?g m q = (if m = Suc n \<and> same_path n q p \<and> idx n q = idx n p then Some ?N else tab g m q)"
    for m q by (rule link_fresh_tab [OF wf room t(1) n old]) simp
  show "tab ?g (Suc n) p = Some ?N" using tb [of "Suc n" p] t(2) by (simp del: tab.simps)
  have wf': "pt_wf ?g" by (rule link_fresh_wf [OF wf room t(1) n old]) simp
  have lf: "leaf ?g = leaf g" using link_fresh_leaf_upper [OF wf room t old] by (rule ext)
  note ok = pt_wfD(1) [OF wf]
  have other: "s \<noteq> ?N" if "m \<le> 3" "tab g m q = Some s" for m q s
    using pool_page_bounds(5) [OF ok pt_wfD(2) [OF wf that]] .
  have tN: "t \<noteq> ?N" using other [of n p t] t by simp
  have "l2_mapped ?g q = l2_mapped g q" for q
  proof (cases "n = 1 \<and> same_path n q p \<and> idx n q = idx n p")
    case True
    from True have sp: "same_path n q p" and ix: "idx n q = idx n p" by blast+
    have "tab g (Suc n) q = None" using tab_same_path [OF sp, of g] t(1) old ix by simp
    then have "tab g 2 q = None" using True by (simp add: numeral_2_eq_2 del: tab.simps)
    moreover have "tab ?g 2 q = Some ?N" using tb [of 2 q] sp ix conjunct1 [OF True] by (simp del: tab.simps)
    moreover have "pte ?g ?N j = 0" for j using tN by (auto simp: link_fresh_def)
    ultimately show ?thesis by (simp add: l2_mapped_def del: tab.simps)
  next
    case False
    then have same: "tab ?g 2 q = tab g 2 q" using tb [of 2 q] t(2) by auto
    have "pte ?g s j = pte g s j" if "tab g 2 q = Some s" for s j
      using pt_wfD(3) [OF wf, of 2 n q s p] t that other [OF _ that] by (auto simp: link_fresh_def)
    then show ?thesis by (simp add: l2_mapped_def same del: tab.simps split: option.split)
  qed
  then show "grown g ?g" using wf' lf inv by (auto simp: grown_def pt_inv_def leaves_normal_def)
qed

lemma ensure_table_spec:
  assumes inv: "pt_inv g" and t: "tab g n p = Some t" "n < 2"
  shows "ensure_table t (idx n p) g = Some (Inl g) \<and> \<not> pool_room g
    \<or> (\<exists>t' g'. ensure_table t (idx n p) g = Some (Inr (t', g')) \<and> grown g g' \<and> tab g' (Suc n) p = Some t')"
proof -
  have wf: "pt_wf g" using inv by (simp add: pt_inv_def)
  note ok = pt_wfD(1) [OF wf]
  have base: "ipa_base g = 0" using ok by (simp add: pool_ok_def)
  show ?thesis
  proof (cases "is_tab n (pte g t (idx n p))")
    case True
    then have v: "pt_valid (pte g t (idx n p))" using t(2) by (simp add: is_tab_def PT_VALID_def)
    have nx: "tab g (Suc n) p = Some (daddr (pte g t (idx n p)))" using t(1) True by simp
    then have "pt_at g (daddr (pte g t (idx n p))) = Some (daddr (pte g t (idx n p)))"
      using t(2) by (intro pt_at_pool [OF ok pt_wfD(2) [OF wf _ nx]]) simp
    then show ?thesis
      using v nx base grown_refl [OF inv] by (simp add: ensure_table_def daddr_def Let_def)
  next
    case False
    then have v: "\<not> pt_valid (pte g t (idx n p))" using t(2) by (simp add: is_tab_def PT_VALID_def)
    show ?thesis
    proof (cases "pool_room g")
      case True
      note pf = pool_room_facts [OF ok True]
      note lg = link_fresh_grown [OF inv True t False]
      let ?g = "link_fresh (\<lambda>_. 0) t (idx n p) g" and ?N = "pt_pool_next g"
      have "pt_wf ?g" using lg(1) by (simp add: grown_def pt_inv_def)
      then have "pt_at ?g ?N = Some ?N"
        using lg(2) t(2) by (intro pt_at_pool [OF pt_wfD(1,2)]) (auto simp del: tab.simps)
      moreover have "pte ?g t (idx n p) = table_desc ?N" by (simp add: link_fresh_def)
      moreover have "daddr (table_desc ?N) = ?N" by (rule table_desc_fields(1) [OF pf(5,6)])
      moreover have "pt_alloc_page g = (?N, with_fresh (\<lambda>_. 0) g)"
        using True by (simp add: pt_alloc_page_eq pool_room_def)
      ultimately have "ensure_table t (idx n p) g = Some (Inr (?N, ?g))"
        using v pf(7) base by (simp add: ensure_table_def daddr_def link_fresh_def table_desc_def)
      then show ?thesis using lg by blast
    next
      case full: False
      then show ?thesis using v by (simp add: ensure_table_def pt_alloc_page_eq pool_room_def)
    qed
  qed
qed

section \<open>The extension loop\<close>

text \<open>The translation of a page after its block was extended with \<open>perms\<close>.\<close>

definition extended_leaf :: "u32 \<Rightarrow> 'a pt_guest_scheme \<Rightarrow> nat \<Rightarrow> (u64 \<times> u32) option" where
  "extended_leaf perms g q = (if l2_mapped g q then leaf g q else Some (page_addr q, norm_perms perms))"

lemma identity_block_leaf:
  assumes "512 dvd A" "A < pages48" "q < pages48" "q div 512 = A div 512"
  shows "block_leaf (make_block_desc (page_addr A) perms) q = Some (page_addr q, norm_perms perms)"
proof -
  obtain k where k: "A = 512 * k" using assms(1) by (auto elim: dvdE)
  have q: "q = 512 * k + q mod 512" using assms(4) k div_mult_mod_eq [of q 512] by simp
  have lt: "unat (page_addr A) < 2 ^ 48" using assms(2) by (simp add: pages48_def)
  have "unat (page_addr A AND L2_BLOCK_ADDR_MASK) = A * 4096"
    using block_addr_unat [of "page_addr A"] lt assms(2) k by simp
  then have a: "page_addr A AND L2_BLOCK_ADDR_MASK = page_addr A"
    using assms(2) by (intro page_addr_eqI) simp_all
  have "page_addr A + word_of_nat (q mod 512) * PAGE_SIZE = page_addr (512 * k + q mod 512)"
    by (simp add: page_addr_def k PAGE_SIZE_def algebra_simps)
  then have "page_addr A + word_of_nat (q mod 512) * PAGE_SIZE = page_addr q" using q by simp
  then show ?thesis using a by (simp add: block_leaf_def make_block_desc_fields)
qed

text \<open>Storing a block into an empty L2 entry.\<close>

lemma fill_block:
  assumes inv: "pt_inv g" and t: "tab g 2 A = Some t" and A: "A < pages48" "512 dvd A"
    and empty: "pte g t (idx 2 A) AND 1 = 0"
    and g'_def: "g' = pte_store_release t (idx 2 A) (make_block_desc (page_addr A) perms) g"
  shows "pt_inv g'"
    "q < pages48 \<Longrightarrow> leaf g' q = (if q div 512 = A div 512 then Some (page_addr q, norm_perms perms) else leaf g q)"
    "q < pages48 \<Longrightarrow> l2_mapped g' q = (q div 512 = A div 512 \<or> l2_mapped g q)"
proof -
  let ?d = "make_block_desc (page_addr A) perms"
  have wf: "pt_wf g" using inv by (simp add: pt_inv_def)
  have old: "pte g t (idx 2 A) AND 3 \<noteq> 3" using empty by (cases "pte g t (idx 2 A)" rule: desc_kind) auto
  have new: "?d AND 3 \<noteq> 3" by (simp add: make_block_desc_fields)
  note st = store_l2_block [OF wf t old new, folded g'_def]
  have sp: "same_path 2 q A \<and> idx 2 q = idx 2 A \<longleftrightarrow> q div 512 = A div 512" if "q < pages48" for q
    using same_path_3 [OF that A(1)] by (simp add: same_path_3_Suc)
  show lf: "leaf g' q = (if q div 512 = A div 512 then Some (page_addr q, norm_perms perms) else leaf g q)"
    if "q < pages48" for q
    using st(3) [of q] sp [OF that] identity_block_leaf [OF A(2,1) that] by simp
  then show "pt_inv g'"
    using inv st(1) by (simp add: pt_inv_def leaves_normal_iff g'_def) (simp add: normal_leaf_def)
  show "l2_mapped g' q = (q div 512 = A div 512 \<or> l2_mapped g q)" if q: "q < pages48"
  proof -
    have tb: "tab g' 2 q = tab g 2 q" using st(2) by simp
    have "same_path 2 q A" if "tab g 2 q = Some t"
      using pt_wfD(3) [OF wf, of 2 2 q t A] t that by simp
    moreover have "tab g 2 q = Some t" if "same_path 2 q A" using tab_same_path [OF that, of g] t by simp
    moreover have "pte g' u j = (if u = t \<and> j = idx 2 A then ?d else pte g u j)" for u j
      by (auto simp: g'_def)
    ultimately show ?thesis
      using sp [OF q] by (auto simp: l2_mapped_def tb make_block_desc_fields simp del: tab.simps
          split: option.split)
  qed
qed

lemma l2_mapped_at: "tab g 2 q = Some t \<Longrightarrow> l2_mapped g q = (pte g t (idx 2 q) AND 1 \<noteq> 0)"
  by (simp add: l2_mapped_def)

lemma l2_mapped_block:
  assumes "q < pages48" "A < pages48" "q div 512 = A div 512"
  shows "l2_mapped g q = l2_mapped g A"
proof -
  have sp: "same_path 2 q A" and ix: "idx 2 q = idx 2 A"
    using same_path_3 [OF assms(1,2)] assms(3) by (auto simp: same_path_3_Suc)
  show ?thesis using tab_same_path [OF sp, of g] by (simp add: l2_mapped_def ix del: tab.simps split: option.split)
qed

text \<open>The state of the extension at page \<open>A\<close>: what is kept whether or not it succeeds.\<close>

definition extending :: "u32 \<Rightarrow> nat \<Rightarrow> nat \<Rightarrow> 'a pt_guest_scheme \<Rightarrow> 'a pt_guest_scheme \<Rightarrow> bool" where
  "extending perms A B g g' \<longleftrightarrow> pt_inv g' \<and> pt_frame g g' \<and> tlbi_req g' = tlbi_req g \<and> pt_gen g' = pt_gen g
     \<and> (\<forall>q < pages48. leaf g' q = leaf g q \<or> A \<le> q \<and> q < B \<and> leaf g' q = extended_leaf perms g q)"

lemma extending_grown: "grown g g' \<Longrightarrow> extending perms A B g g'"
  by (simp add: extending_def grown_def)

lemma dvd_block:
  assumes "512 dvd A" "512 dvd B" "A < B"
  shows "block_next A \<le> B" "block_next A = A + 512" "A div 512 * 512 = (A :: nat)"
  using assms by (auto simp: block_next_def elim!: dvdE)

lemma block_span:
  assumes "512 dvd A" "A < pages48"
  shows "A \<le> q \<and> q < A + 512 \<longleftrightarrow> q div 512 = A div 512" "A \<le> q \<Longrightarrow> q < A + 512 \<Longrightarrow> q < pages48"
    "A + 512 \<le> pages48"
proof -
  obtain k where k: "A = k * 512" using assms(1) by (auto elim: dvdE)
  then have A5: "A div 512 * 512 = A" "block_next A = A + 512" by (auto simp: block_next_def)
  then show "A \<le> q \<and> q < A + 512 \<longleftrightarrow> q div 512 = A div 512" "A + 512 \<le> pages48"
    using block_next_bounds(2,4) [OF assms(2)] by auto
  then show "A \<le> q \<Longrightarrow> q < A + 512 \<Longrightarrow> q < pages48" by simp
qed

definition extends_to :: "u32 \<Rightarrow> bool \<Rightarrow> nat \<Rightarrow> nat \<Rightarrow> 'a pt_guest_scheme \<Rightarrow> u64 \<Rightarrow> u64
    \<Rightarrow> 'a pt_guest_scheme \<Rightarrow> u64 \<Rightarrow> u64 \<Rightarrow> bool" where
  "extends_to perms bcast A B g lo hi g' lo' hi' \<longleftrightarrow> extending perms A B g g'
     \<and> (\<forall>q. A \<le> q \<and> q < B \<longrightarrow> leaf g' q = extended_leaf perms g q)
     \<and> (\<forall>q < pages48. \<not> (A \<le> q \<and> q < B) \<longrightarrow> l2_mapped g' q = l2_mapped g q)
     \<and> (\<forall>q. noted bcast lo hi q \<longrightarrow> noted bcast lo' hi' q)
     \<and> (\<forall>q < pages48. leaf g' q \<noteq> leaf g q \<longrightarrow> noted bcast lo' hi' q)"

lemma extending_trans:
  assumes g: "extending perms A M g g1" "\<forall>q < pages48. \<not> (A \<le> q \<and> q < M) \<longrightarrow> l2_mapped g1 q = l2_mapped g q"
    and g1: "extending perms M B g1 g2" and o: "A \<le> M" "M \<le> B"
  shows "extending perms A B g g2"
proof -
  have "leaf g2 q = leaf g q \<or> A \<le> q \<and> q < B \<and> leaf g2 q = extended_leaf perms g q" if q: "q < pages48" for q
  proof (cases "M \<le> q")
    case True
    then have "leaf g1 q = leaf g q" "extended_leaf perms g1 q = extended_leaf perms g q"
      using g q by (auto simp: extending_def extended_leaf_def)
    then show ?thesis using g1 q o True by (auto simp: extending_def)
  next
    case False
    then have "leaf g2 q = leaf g1 q" using g1 q by (auto simp: extending_def)
    then show ?thesis using g(1) q o by (auto simp: extending_def)
  qed
  then show ?thesis using g(1) g1 pt_frame_trans by (auto simp: extending_def)
qed

lemma extends_to_trans:
  assumes g: "extends_to perms bcast A M g lo hi g1 lo1 hi1" and g1: "extends_to perms bcast M B g1 lo1 hi1 g2 lo2 hi2"
    and o: "A \<le> M" "M \<le> B" "B \<le> pages48"
  shows "extends_to perms bcast A B g lo hi g2 lo2 hi2"
proof -
  have e: "extending perms A B g g2"
    using g g1 o by (intro extending_trans [of perms A M g g1 B g2]) (auto simp: extends_to_def)
  have "leaf g2 q = extended_leaf perms g q" if "A \<le> q" "q < B" for q
  proof (cases "M \<le> q")
    case True
    have q: "q < pages48" using that o by simp
    then have "leaf g1 q = leaf g q" using g True by (auto simp: extends_to_def extending_def)
    moreover have "l2_mapped g1 q = l2_mapped g q" using g True q by (auto simp: extends_to_def)
    ultimately have "extended_leaf perms g1 q = extended_leaf perms g q" by (simp add: extended_leaf_def)
    then show ?thesis using g1 that True by (auto simp: extends_to_def)
  next
    case False
    have "q < pages48" using that o by simp
    then have "leaf g2 q = leaf g1 q" using g1 False by (auto simp: extends_to_def extending_def)
    then show ?thesis using g that False by (auto simp: extends_to_def)
  qed
  moreover have "l2_mapped g2 q = l2_mapped g q" if "q < pages48" "\<not> (A \<le> q \<and> q < B)" for q
    using g g1 that o by (auto simp: extends_to_def)
  moreover have "noted bcast lo2 hi2 q" if "q < pages48" "leaf g2 q \<noteq> leaf g q" for q
    using g g1 that by (cases "leaf g1 q = leaf g q") (auto simp: extends_to_def)
  ultimately show ?thesis using e g g1 by (auto simp: extends_to_def)
qed

lemma extends_present:
  assumes "grown g g2" "tab g2 2 A = Some t" "A < pages48" "512 dvd A" "pt_valid (pte g2 t (idx 2 A))"
  shows "extends_to perms bcast A (A + 512) g lo hi g2 lo hi"
proof -
  have m: "l2_mapped g A" using assms(1,2,5) l2_mapped_at [OF assms(2)] by (simp add: grown_def PT_VALID_def)
  have "extended_leaf perms g q = leaf g q" if "A \<le> q" "q < A + 512" for q
  proof -
    have "q < pages48" "q div 512 = A div 512" using block_span [OF assms(4,3)] that by auto
    then show ?thesis using m l2_mapped_block [of q A g] assms(3) by (simp add: extended_leaf_def)
  qed
  then show ?thesis using assms(1) by (auto simp: extends_to_def grown_def extending_def)
qed

lemma extends_filled:
  assumes gr: "grown g g2" and t: "tab g2 2 A = Some t" and A: "A < pages48" "512 dvd A"
    and nv: "\<not> pt_valid (pte g2 t (idx 2 A))"
  shows "extends_to perms bcast A (A + 512) g lo hi
    (pte_store_release t (idx 2 A) (make_block_desc (page_addr A) perms) g2)
    (if \<not> bcast \<and> page_addr A < lo then page_addr A else lo)
    (if \<not> bcast \<and> page_addr (A + 512) > hi then page_addr (A + 512) else hi)"
    (is "extends_to perms bcast A ?B g lo hi ?g3 ?lo ?hi")
proof -
  have inv: "pt_inv g2" and l2: "leaf g2 = leaf g" "l2_mapped g2 = l2_mapped g" using gr by (auto simp: grown_def)
  have e: "pte g2 t (idx 2 A) AND 1 = 0" using nv by (simp add: PT_VALID_def)
  note fb = fill_block [OF inv t A e refl]
  note bs = block_span [OF A(2,1)]
  have m: "\<not> l2_mapped g A" using l2_mapped_at [OF t] e l2 by simp
  have out: "leaf ?g3 q = leaf g q" "l2_mapped ?g3 q = l2_mapped g q" if "q < pages48" "\<not> (A \<le> q \<and> q < ?B)" for q
    using fb(2,3) [OF that(1)] that bs(1) [of q] l2 by auto
  have inn: "leaf ?g3 q = extended_leaf perms g q" if "A \<le> q" "q < ?B" for q
  proof -
    have q: "q < pages48" "q div 512 = A div 512" using bs that by auto
    then show ?thesis using fb(2) [OF q(1)] m l2_mapped_block [OF q(1) A(1) q(2), of g] by (simp add: extended_leaf_def)
  qed
  have "noted bcast ?lo ?hi q" if "A \<le> q" "q < ?B" for q
    using that bs(3) A(1) by (auto simp: noted_def word_less_nat_alt not_less)
  moreover have "noted bcast ?lo ?hi q" if "noted bcast lo hi q" for q
    using that by (auto simp: noted_def word_less_nat_alt)
  moreover have "extending perms A ?B g ?g3"
    using gr fb(1) out inn by (auto simp: extending_def grown_def pt_frame_def)
  moreover have "noted bcast ?lo ?hi q" if "q < pages48" "leaf ?g3 q \<noteq> leaf g q" for q
    using that out(1) calculation(1) by blast
  ultimately show ?thesis using out inn by (simp add: extends_to_def)
qed

text \<open>One turn of the loop: the pool is exhausted, or the block at \<open>A\<close> is done.\<close>

lemma extend_turn:
  assumes inv: "pt_inv g" and A: "A < pages48" "512 dvd A" "page_addr A < e"
    and L: "L = extend_loop perms (ttbr0 g) bcast e"
  shows "(\<exists>g'. L (page_addr A) lo hi g = Some (Inl g') \<and> grown g g' \<and> \<not> pool_room g')
    \<or> (\<exists>g' lo' hi'. L (page_addr A) lo hi g = L (page_addr (A + 512)) lo' hi' g'
        \<and> extends_to perms bcast A (A + 512) g lo hi g' lo' hi')"
proof -
  have wf: "pt_wf g" using inv by (simp add: pt_inv_def)
  have base: "ipa_base g = 0" using pt_wfD(1) [OF wf] by (simp add: pool_ok_def)
  have pg: "unat (page_addr A) div 4096 = A" "unat (page_addr A) < 2 ^ 48" using A(1) by (simp_all add: pages48_def)
  note ix = walk_indices(1) [OF pg] walk_indices(2,3) [OF pg(1)]
  have i: "\<not> 512 \<le> idx n A" for n by (simp add: idx_def not_le)
  obtain k where k: "A = k * 512" using A(2) by (auto elim: dvdE)
  then have A5: "A div 512 * 512 = A" "block_next A = A + 512" by (auto simp: block_next_def)
  have nx: "page_addr A + BLOCK_2MIB = page_addr (A + 512)" using block_addrs(2) [OF A(1)] A5 by simp
  have t0: "tab g 0 A = Some (ttbr0 g)" by simp
  from ensure_table_spec [OF inv t0] consider
      (full) "ensure_table (ttbr0 g) (idx 0 A) g = Some (Inl g)" "\<not> pool_room g"
    | (ok) l1 g1 where "ensure_table (ttbr0 g) (idx 0 A) g = Some (Inr (l1, g1))" "grown g g1" "tab g1 (Suc 0) A = Some l1"
    by auto
  then show ?thesis
  proof cases
    case full
    then have "L (page_addr A) lo hi g = Some (Inl g)"
      using A(3) i unfolding L by (subst extend_loop.simps) (simp add: base ix Let_def)
    then show ?thesis using full grown_refl [OF inv] by auto
  next
    case (ok l1 g1)
    have inv1: "pt_inv g1" using ok(2) by (simp add: grown_def)
    from ensure_table_spec [OF inv1 ok(3)] consider
        (full1) "ensure_table l1 (idx (Suc 0) A) g1 = Some (Inl g1)" "\<not> pool_room g1"
      | (ok1) l2 g2 where "ensure_table l1 (idx (Suc 0) A) g1 = Some (Inr (l2, g2))" "grown g1 g2" "tab g2 2 A = Some l2"
      by (auto simp: numeral_2_eq_2 simp del: tab.simps)
    then show ?thesis
    proof cases
      case full1
      then have "L (page_addr A) lo hi g = Some (Inl g1)"
        using A(3) i ok(1) unfolding L by (subst extend_loop.simps) (simp add: base ix Let_def)
      then show ?thesis using full1 ok(2) by auto
    next
      case (ok1 l2 g2)
      have gr: "grown g g2" using grown_trans [OF ok(2) ok1(2)] .
      let ?lo = "if \<not> bcast \<and> page_addr A < lo then page_addr A else lo"
      let ?hi = "if \<not> bcast \<and> page_addr (A + 512) > hi then page_addr (A + 512) else hi"
      let ?g3 = "pte_store_release l2 (idx 2 A) (make_block_desc (page_addr A) perms) g2"
      have "L (page_addr A) lo hi g =
        (if pt_valid (pte g2 l2 (idx 2 A)) then L (page_addr (A + 512)) lo hi g2
         else L (page_addr (A + 512)) ?lo ?hi ?g3)"
        using A(3) i ok(1) ok1(1) unfolding L nx [symmetric]
        by (subst extend_loop.simps) (simp add: base ix Let_def)
      note step = this
      show ?thesis
      proof (cases "pt_valid (pte g2 l2 (idx 2 A))")
        case True
        have "L (page_addr A) lo hi g = L (page_addr (A + 512)) lo hi g2"
          using step by (simp only: True if_True if_False not_False_eq_True)
        then show ?thesis using extends_present [OF gr ok1(3) A(1,2) True] by blast
      next
        case False
        have "L (page_addr A) lo hi g = L (page_addr (A + 512)) ?lo ?hi ?g3"
          using step by (simp only: False if_True if_False not_False_eq_True)
        then show ?thesis using extends_filled [OF gr ok1(3) A(1,2) False] by blast
      qed
    qed
  qed
qed

lemma extend_loop_spec:
  assumes "pt_inv g" "512 dvd A" "512 dvd B" "A \<le> B" "B \<le> pages48"
  shows "\<exists>r. extend_loop perms (ttbr0 g) bcast (page_addr B) (page_addr A) lo hi g = Some r
    \<and> (case r of Inl g' \<Rightarrow> extending perms A B g g' \<and> \<not> pool_room g'
       | Inr (g', lo', hi') \<Rightarrow> extends_to perms bcast A B g lo hi g' lo' hi')"
  using assms(1,2,4)
proof (induction "B - A" arbitrary: A g lo hi rule: less_induct)
  case less
  note inv = less.prems(1)
  let ?L = "extend_loop perms (ttbr0 g) bcast (page_addr B)"
  show ?case
  proof (cases "A = B")
    case True
    then show ?thesis using inv by (subst extend_loop.simps) (auto simp: extends_to_def extending_def)
  next
    case False
    then have AB: "A < B" "A < pages48" using less.prems(3) assms(5) by auto
    have AB5: "A + 512 \<le> B" using less.prems(2) assms(3) AB(1) by (auto elim!: dvdE)
    have lt: "page_addr A < page_addr B" using AB assms(5) by (simp add: page_addr_less)
    from extend_turn [OF inv AB(2) less.prems(2) lt refl, of perms bcast lo hi] consider
        (full) g' where "?L (page_addr A) lo hi g = Some (Inl g')" "grown g g'" "\<not> pool_room g'"
      | (turn) g1 lo1 hi1 where "?L (page_addr A) lo hi g = ?L (page_addr (A + 512)) lo1 hi1 g1"
          "extends_to perms bcast A (A + 512) g lo hi g1 lo1 hi1"
      by blast
    then show ?thesis
    proof cases
      case full
      then show ?thesis using extending_grown by auto
    next
      case turn
      have inv1: "pt_inv g1" and tt: "ttbr0 g1 = ttbr0 g"
        using turn(2) by (auto simp: extends_to_def extending_def pt_frame_def)
      have d: "512 dvd A + 512" using less.prems(2) by simp
      have dec: "B - (A + 512) < B - A" using AB(1) by simp
      from less.hyps [OF dec inv1 d AB5, of lo1 hi1, unfolded tt] obtain r where
        r: "?L (page_addr (A + 512)) lo1 hi1 g1 = Some r"
          "case r of Inl g' \<Rightarrow> extending perms (A + 512) B g1 g' \<and> \<not> pool_room g'
           | Inr (g', lo', hi') \<Rightarrow> extends_to perms bcast (A + 512) B g1 lo1 hi1 g' lo' hi'"
        by blast
      have "extending perms A B g g'" if "extending perms (A + 512) B g1 g'" for g'
        using turn(2) by (intro extending_trans [OF _ _ that _ AB5]) (simp_all add: extends_to_def)
      moreover have "extends_to perms bcast A B g lo hi g' lo' hi'"
        if "extends_to perms bcast (A + 512) B g1 lo1 hi1 g' lo' hi'" for g' lo' hi'
        by (rule extends_to_trans [OF turn(2) that _ AB5 assms(5)]) simp
      ultimately have "case r of Inl g' \<Rightarrow> extending perms A B g g' \<and> \<not> pool_room g'
         | Inr (g', lo', hi') \<Rightarrow> extends_to perms bcast A B g lo hi g' lo' hi'"
        using r(2) by (simp split: sum.splits prod.splits)
      then show ?thesis using r(1) turn(1) by auto
    qed
  qed
qed

section \<open>guest\_extend\_page\_tables\<close>

text \<open>The pages of an address range, rounded outwards to 2 MiB blocks.\<close>

definition first_block :: "u64 \<Rightarrow> nat" where "first_block a = unat a div 2097152 * 512"
definition end_block :: "u64 \<Rightarrow> nat" where "end_block a = (unat a + 2097151) div 2097152 * 512"

lemma block_range:
  assumes "unat e \<le> 2 ^ 48" "s \<le> e"
  shows "\<not> e > UINT64_MAX - (BLOCK_2MIB - 1)" "end_block e \<le> pages48" "first_block s \<le> end_block e"
    "ALIGN_2MIB_UP e = page_addr (end_block e)" "ALIGN_2MIB_DOWN s = page_addr (first_block s)"
    "512 dvd first_block s" "512 dvd end_block e"
proof -
  have se: "unat s \<le> unat e" using assms(2) by (simp add: word_le_nat_alt)
  have "BLOCK_2MIB - 1 = (2097151 :: u64)" by (simp add: BLOCK_2MIB_def)
  moreover have "unat (UINT64_MAX - 2097151) = 2 ^ 64 - 2097152" by (simp add: unat_sub unat_UINT64_MAX)
  ultimately show "\<not> e > UINT64_MAX - (BLOCK_2MIB - 1)" using assms by (simp add: word_less_nat_alt BLOCK_2MIB_def)
  have "(unat e + 2097151) div 2097152 \<le> (2 ^ 48 + 2097151) div 2097152" using assms(1) by (intro div_le_mono) simp
  then show ep: "end_block e \<le> pages48" by (simp add: end_block_def pages48_def)
  have "unat s div 2097152 \<le> (unat e + 2097151) div 2097152" using se by (intro div_le_mono) simp
  then show fe: "first_block s \<le> end_block e" by (simp add: first_block_def end_block_def)
  have "ALIGN_2MIB_UP e = (e + 2097151) AND NOT (mask 21)"
    by (simp add: ALIGN_2MIB_UP_def ALIGN_UP_def BLOCK_2MIB_def mask_eq_exp_minus_1)
  moreover have "unat (e + 2097151) = unat e + 2097151" using assms(1) by (simp add: unat_add_u64)
  ultimately have "unat (ALIGN_2MIB_UP e) = end_block e * 4096"
    using and_not_mask_unat [of "e + 2097151" 21] by (simp add: end_block_def)
  then show "ALIGN_2MIB_UP e = page_addr (end_block e)" using ep by (rule page_addr_eqI)
  have "unat s div 4096 div 512 = unat s div 2097152" using div_mult2_eq [of "unat s" 4096 512] by simp
  then have "unat (ALIGN_2MIB_DOWN s) = first_block s * 4096"
    using block_start_page [OF refl, of s] by (simp add: first_block_def)
  then show "ALIGN_2MIB_DOWN s = page_addr (first_block s)" using ep fe by (intro page_addr_eqI) simp_all
  show "512 dvd first_block s" "512 dvd end_block e" by (simp_all add: first_block_def end_block_def)
qed

lemma not_l2_mapped_leaf:
  assumes "\<not> l2_mapped g q" "q < pages48"
  shows "leaf g q = None"
proof (cases "tab g 2 q")
  case None
  then show ?thesis using no_table_no_leaf [OF None assms(2,2)] by simp
next
  case (Some t)
  then have z: "pte g t (idx 2 q) AND 1 = 0" using assms(1) l2_mapped_at by auto
  then have n3: "pte g t (idx 2 q) AND 3 \<noteq> 3" by (cases "pte g t (idx 2 q)" rule: desc_kind) auto
  have "leaf g q = block_leaf (pte g t (idx 2 q)) q" using l2_entry_leaf [OF Some assms(2,2) _ n3] by simp
  then show ?thesis using z by (cases "pte g t (idx 2 q)" rule: desc_kind) (auto simp: block_leaf_def)
qed

lemma extending_changed:
  "extending perms A B g g' \<Longrightarrow> q < pages48 \<Longrightarrow> leaf g' q \<noteq> leaf g q \<Longrightarrow> leaf g q = None \<and> A \<le> q \<and> q < B"
  using not_l2_mapped_leaf [of g q] by (auto simp: extending_def extended_leaf_def split: if_splits)

lemma noted_in: "\<not> bcast \<Longrightarrow> noted bcast lo hi q \<Longrightarrow> q < pages48 \<Longrightarrow> lo \<le> page_addr q \<and> page_addr q < hi"
  by (simp add: noted_def word_le_nat_alt word_less_nat_alt)

lemma l2_mapped_mark_icache [simp]: "l2_mapped (request_mark_icache g) = l2_mapped g"
  by (simp add: l2_mapped_def fun_eq_iff split: option.split)

lemma extended_leaf_mark_icache [simp]: "extended_leaf perms (request_mark_icache g) = extended_leaf perms g"
  by (simp add: extended_leaf_def fun_eq_iff)

lemma extend_request:
  assumes to: "extends_to perms bcast A B g UINT64_MAX 0 g' lo hi" and inv: "pt_inv g"
    and b: "bcast = tlbi_request_is_broadcast (tlbi_req g)"
  defines "h \<equiv> (if \<not> bcast \<and> hi > lo then request_range (ipa_base g' + lo) (ipa_base g' + hi) g' else g')"
  shows "edited g h \<and> leaf h = leaf g'"
proof -
  have ex: "extending perms A B g g'" and nt: "\<forall>q < pages48. leaf g' q \<noteq> leaf g q \<longrightarrow> noted bcast lo hi q"
    using to by (auto simp: extends_to_def)
  have g': "pt_wf g'" "leaves_normal g'" "pt_frame g g'" "pt_gen g' = pt_gen g" "tlbi_req g' = tlbi_req g"
    using ex by (auto simp: extending_def pt_inv_def)
  have base: "ipa_base g' = 0" using pt_wfD(1) [OF g'(1)] by (simp add: pool_ok_def)
  show ?thesis
  proof (cases "\<not> bcast \<and> hi > lo")
    case True
    then have "edited g (request_range lo hi g')"
      using nt noted_in by (intro edited_by_request [OF inv g']) auto
    then show ?thesis using True by (simp add: h_def base fun_eq_iff)
  next
    case False
    have "covered (tlbi_req g') q" if "q < pages48" "leaf g' q \<noteq> leaf g q" for q
      using nt that noted_in [of bcast lo hi q] False b is_broadcast_covers g'(5) by fastforce
    then show ?thesis using False g' ex by (auto simp: h_def edited_def extending_def)
  qed
qed

text \<open>
  The extension returns; it only ever adds translations, for pages of the range that had none, and
  on success every page of the range whose block was empty is identity mapped.
\<close>

lemma guest_extend_page_tables_correct:
  assumes inv: "pt_inv g" and e: "unat e \<le> 2 ^ 48" and se: "s \<le> e"
  shows "\<exists>rc g'. guest_extend_page_tables s e perms g = Some (rc, g') \<and> pt_inv g' \<and> pt_frame g g'
    \<and> (rc = 0 \<and> s < guest_size g \<and> e \<le> guest_size g
       \<or> rc = -1 \<and> (\<not> (s < guest_size g \<and> e \<le> guest_size g) \<and> g' = g \<or> \<not> pool_room g'))
    \<and> (\<forall>q < pages48. leaf g' q \<noteq> leaf g q \<longrightarrow> leaf g q = None \<and> first_block s \<le> q \<and> q < end_block e)
    \<and> (rc = 0 \<longrightarrow> (\<forall>q. first_block s \<le> q \<and> q < end_block e \<longrightarrow> leaf g' q = extended_leaf perms g q)
        \<and> (\<forall>q < pages48. leaf g' q \<noteq> leaf g q \<longrightarrow> covered (tlbi_req g') q) \<and> pt_gen g' = pt_gen g + 1)
    \<and> (rc = -1 \<longrightarrow> pt_gen g' = pt_gen g)"
proof (cases "s < guest_size g \<and> e \<le> guest_size g")
  case False
  then have "guest_extend_page_tables s e perms g = Some (-1, g)" by (auto simp: guest_extend_page_tables_def)
  then show ?thesis using inv False by auto
next
  case True
  note br = block_range [OF e se]
  let ?A = "first_block s" and ?B = "end_block e"
  define g0 where "g0 = (if perms AND MEM_PERM_X \<noteq> 0 then request_mark_icache g else g)"
  let ?bc = "tlbi_request_is_broadcast (tlbi_req g0)"
  have wf: "pt_wf g" using inv by (simp add: pt_inv_def)
  note ok = pt_wfD(1) [OF wf]
  have "pt_at g (ttbr0 g) = Some (ttbr0 g)" by (rule pt_at_pool [OF ok pt_wfD(2) [OF wf, of 0 0]]) simp_all
  then have l0: "pt_at g (ttbr0 g - ipa_base g) = Some (ttbr0 g)" using ok by (simp add: pool_ok_def)
  have inv0: "pt_inv g0" using inv by (simp add: g0_def)
  have g0: "leaf g0 = leaf g" "extended_leaf perms g0 = extended_leaf perms g" "pt_gen g0 = pt_gen g"
      "ttbr0 g0 = ttbr0 g" "pt_frame g0 h = pt_frame g h" for h
    by (auto simp: fun_eq_iff g0_def)
  obtain r where r: "extend_loop perms (ttbr0 g) ?bc (page_addr ?B) (page_addr ?A) UINT64_MAX 0 g0 = Some r"
      "case r of Inl g' \<Rightarrow> extending perms ?A ?B g0 g' \<and> \<not> pool_room g'
       | Inr (g', lo', hi') \<Rightarrow> extends_to perms ?bc ?A ?B g0 UINT64_MAX 0 g' lo' hi'"
    using extend_loop_spec [OF inv0 br(6,7,3,2), of perms ?bc UINT64_MAX 0] unfolding g0(4) by blast
  have guard: "\<not> (s \<ge> guest_size g \<or> e > guest_size g)" using True by auto
  have eq: "guest_extend_page_tables s e perms g = (case r of Inl g1 \<Rightarrow> Some (-1, g1)
      | Inr (g1, lo, hi) \<Rightarrow> Some (0, guest_pt_gen_bump (if \<not> ?bc \<and> hi > lo
          then request_range (ipa_base g1 + lo) (ipa_base g1 + hi) g1 else g1)))"
    unfolding guest_extend_page_tables_def br(4,5) Let_def l0 bind.bind_lunit g0_def [symmetric] r(1)
      if_not_P [OF guard] if_not_P [OF br(1)] ..
  show ?thesis
  proof (cases r)
    case (Inl g1)
    then have "extending perms ?A ?B g0 g1" "\<not> pool_room g1" using r(2) by auto
    note ex = this
    have res: "guest_extend_page_tables s e perms g = Some (-1, g1)" using eq Inl by simp
    have "pt_inv g1" "pt_frame g g1" "pt_gen g1 = pt_gen g" using ex(1) g0 by (auto simp: extending_def)
    moreover have "\<forall>q < pages48. leaf g1 q \<noteq> leaf g q \<longrightarrow> leaf g q = None \<and> ?A \<le> q \<and> q < ?B"
      using extending_changed [OF ex(1)] unfolding g0(1) by blast
    ultimately show ?thesis using res ex(2) by simp
  next
    case (Inr x)
    then obtain g1 lo hi where x: "r = Inr (g1, lo, hi)" by (cases x) auto
    then have to: "extends_to perms ?bc ?A ?B g0 UINT64_MAX 0 g1 lo hi" using r(2) by simp
    define h where "h = (if \<not> ?bc \<and> hi > lo then request_range (ipa_base g1 + lo) (ipa_base g1 + hi) g1 else g1)"
    have h: "edited g0 h" "leaf h = leaf g1"
      unfolding h_def using extend_request [OF to inv0 refl] by blast+
    have res: "guest_extend_page_tables s e perms g = Some (0, guest_pt_gen_bump h)" using eq x by (simp add: h_def)
    have ex: "extending perms ?A ?B g0 g1"
      "\<forall>q. ?A \<le> q \<and> q < ?B \<longrightarrow> leaf g1 q = extended_leaf perms g q" using to g0 by (auto simp: extends_to_def)
    have "\<forall>q < pages48. leaf h q \<noteq> leaf g q \<longrightarrow> leaf g q = None \<and> ?A \<le> q \<and> q < ?B"
      using extending_changed [OF ex(1)] unfolding g0(1) h(2) by blast
    moreover have "pt_inv h" "pt_frame g h" "pt_gen h = pt_gen g"
      "\<forall>q < pages48. leaf h q \<noteq> leaf g q \<longrightarrow> covered (tlbi_req h) q"
      using h(1) g0 by (auto simp: edited_def)
    ultimately show ?thesis
      using res True ex(2) [folded h(2)]
      by (intro exI [of _ 0] exI [of _ "guest_pt_gen_bump h"])
        (unfold leaf_gen_bump gen_bump_fields pt_inv_gen_bump, intro conjI impI; (blast | simp only:))
  qed
qed

end
