(* ===== verification/Page_Table_Theorems.thy ===== *)
theory Page_Table_Theorems
  imports Page_Table_Extend
begin

text \<open>What the page table operations promise, on every branch.\<close>

section \<open>The concrete guest is well formed\<close>

lemma tab_next:
  "tab g 2 p = (case tab g (Suc 0) p of None \<Rightarrow> None
     | Some t \<Rightarrow> if is_tab (Suc 0) (pte g t (idx (Suc 0) p)) then Some (daddr (pte g t (idx (Suc 0) p))) else None)"
  "tab g 3 p = (case tab g 2 p of None \<Rightarrow> None
     | Some t \<Rightarrow> if is_tab 2 (pte g t (idx 2 p)) then Some (daddr (pte g t (idx 2 p))) else None)"
  by (simp_all only: numeral_3_eq_3 numeral_2_eq_2 tab.simps)

lemma example_tab:
  "tab example_pt (Suc 0) p = (if idx 0 p = 0 then Some 0x101000 else None)"
  "tab example_pt 2 p = (if idx 0 p = 0 \<and> idx (Suc 0) p = 0 then Some 0x102000 else None)"
  "tab example_pt 3 p = None"
proof -
  show t1: "tab example_pt (Suc 0) p = (if idx 0 p = 0 then Some 0x101000 else None)"
    by (simp add: example_pte_def is_tab_def daddr_def)
  show t2: "tab example_pt 2 p = (if idx 0 p = 0 \<and> idx (Suc 0) p = 0 then Some 0x102000 else None)"
    unfolding tab_next t1 by (simp add: example_pte_def is_tab_def daddr_def)
  show "tab example_pt 3 p = None"
    unfolding tab_next(2) t2 by (simp add: example_pte_def is_tab_def make_block_desc_fields)
qed

lemma example_tabs:
  assumes "n \<le> 3" "tab example_pt n p = Some t"
  shows "n = 0 \<and> t = 0x100000 \<or> n = 1 \<and> t = 0x101000 \<and> idx 0 p = 0
    \<or> n = 2 \<and> t = 0x102000 \<and> idx 0 p = 0 \<and> idx 1 p = 0"
proof -
  have "n = 0 \<or> n = 1 \<or> n = 2 \<or> n = 3" using assms(1) by auto
  then show ?thesis
    using assms(2) example_tab [of p] by (auto simp del: tab.simps(2) split: if_splits)
qed

lemma example_leaf:
  "leaf example_pt p = (if idx 0 p = 0 \<and> idx 1 p = 0 \<and> idx 2 p = 2
     then Some (0x400000 + word_of_nat (p mod 512) * PAGE_SIZE, 3) else None)"
proof -
  have "make_block_desc 0x400000 c AND L2_BLOCK_ADDR_MASK = 0x400000" for c
    unfolding make_block_desc_fields(3) by (simp add: L2_BLOCK_ADDR_MASK_def)
  then show ?thesis
    by (simp add: leaf_def example_tab example_pte_def block_leaf_def make_block_desc_fields norm_perms_def
        mem_perms del: tab.simps)
qed

lemma example_pt_inv [simp]: "pt_inv example_pt"
proof -
  have "pool_ok example_pt" by (simp add: pool_ok_def)
  moreover have "pool_page example_pt t" if "n \<le> 3" "tab example_pt n p = Some t" for n p t
    using example_tabs [OF that] by (auto simp: pool_page_def)
  moreover have "n = m \<and> same_path n p q"
    if "n \<le> 3" "m \<le> 3" "tab example_pt n p = Some t" "tab example_pt m q = Some t" for n m p q t
    using example_tabs [OF that(1,3)] example_tabs [OF that(2,4)] by (auto simp: same_path_def less_2_cases_iff)
  ultimately have "pt_wf example_pt" unfolding pt_wf_def by blast
  moreover have "leaves_normal example_pt"
    by (simp add: leaves_normal_def example_leaf norm_perms_def mem_perms)
  ultimately show ?thesis by (simp add: pt_inv_def tlbi_wf_def)
qed

section \<open>Splitting\<close>

lemma split_l2_block_other:
  assumes "pte g t i AND 3 \<noteq> 1"
  shows "split_l2_block (Some (t, i)) g = Some (if pte g t i AND 3 = 3 then 0 else -1, g)"
  using assms by (cases "pte g t i" rule: desc_kind) (auto simp: split_l2_block_def PT_BLOCK_def Let_def)

lemma guest_split_block_total:
  assumes inv: "pt_inv g" and va: "unat va < 2 ^ 48" "unat va div 4096 = p"
  shows "\<exists>rc g'. guest_split_block va g = Some (rc, g') \<and> pt_frame g g' \<and> pt_inv g' \<and> leaf g' = leaf g
    \<and> tlbi_req g' = tlbi_req g \<and> pt_gen g' = pt_gen g
    \<and> (rc = 0 \<and> tab g' 3 p \<noteq> None \<or> rc = -1 \<and> g' = g \<and> (leaf g p = None \<or> \<not> pool_room g))"
proof -
  have wf: "pt_wf g" using inv by (simp add: pt_inv_def)
  let ?b = "ALIGN_2MIB_DOWN va" and ?q = "p div 512 * 512"
  have b: "unat ?b = ?q * 4096" using block_start_page [OF va(2)] by simp
  have p: "p < pages48" using va by (auto simp: pages48_def)
  then have "unat ?b < 2 ^ 48" "unat ?b div 4096 = ?q" using b by (simp_all add: pages48_def)
  then have "find_l2_entry g ?b = Some (map_option (\<lambda>t. (t, idx 2 ?q)) (tab g 2 ?q))"
    by (rule find_l2_entry_spec [OF wf])
  moreover have sp: "same_path 2 ?q p" "idx 2 ?q = idx 2 p" using same_path_block [of p] by (auto simp: same_path_3_Suc)
  ultimately have f: "find_l2_entry g ?b = Some (map_option (\<lambda>t. (t, idx 2 p)) (tab g 2 p))"
    using tab_same_path [OF sp(1), of g] by simp
  show ?thesis
  proof (cases "tab g 2 p")
    case None
    then have "guest_split_block va g = Some (-1, g)"
      using f by (simp add: guest_split_block_def split_l2_block_def del: tab.simps)
    then show ?thesis using no_table_no_leaf(1) [OF None p p] inv by simp
  next
    case (Some t)
    show ?thesis
    proof (cases "pte g t (idx 2 p) AND 3 = 1")
      case True
      then show ?thesis using guest_split_block_spec [OF inv va Some True] by blast
    next
      case False
      then have r: "guest_split_block va g = Some (if pte g t (idx 2 p) AND 3 = 3 then 0 else -1, g)"
        using f Some split_l2_block_other [OF False] by (simp add: guest_split_block_def del: tab.simps)
      have "leaf g p = None" if "pte g t (idx 2 p) AND 3 \<noteq> 3"
        using l2_entry_leaf(1) [OF Some p p refl that] False that
        by (cases "pte g t (idx 2 p)" rule: desc_kind) (auto simp: block_leaf_def)
      moreover have "tab g 3 p \<noteq> None" if "pte g t (idx 2 p) AND 3 = 3"
        using Some that by (simp add: tab_next(2) is_tab_def)
      ultimately show ?thesis using r inv by (cases "pte g t (idx 2 p) AND 3 = 3") auto
    qed
  qed
qed

text \<open>
  C8. Splitting a 2 MiB block into a table of 4 KiB pages never changes what any address translates
  to, nor the pending TLB maintenance: on success the address has a page table of its own; on failure
  the tables are untouched, and the block was not mapped or the table pool is exhausted.
\<close>

theorem guest_split_block_keeps_translation:
  assumes "pt_inv g" "unat va < 2 ^ 48"
  shows "\<exists>rc g'. guest_split_block va g = Some (rc, g') \<and> pt_inv g'
    \<and> (\<forall>q. leaf g' q = leaf g q) \<and> tlbi_req g' = tlbi_req g \<and> regions g' = regions g
    \<and> (rc = 0 \<and> tab g' 3 (first_page va) \<noteq> None
       \<or> rc = -1 \<and> g' = g \<and> (leaf g (first_page va) = None \<or> \<not> pool_room g))"
proof -
  have "unat va div 4096 = first_page va" by (simp add: first_page_def)
  from guest_split_block_total [OF assms this] obtain rc g' where
    "guest_split_block va g = Some (rc, g') \<and> pt_frame g g' \<and> pt_inv g' \<and> leaf g' = leaf g
      \<and> tlbi_req g' = tlbi_req g \<and> pt_gen g' = pt_gen g
      \<and> (rc = 0 \<and> tab g' 3 (first_page va) \<noteq> None
         \<or> rc = -1 \<and> g' = g \<and> (leaf g (first_page va) = None \<or> \<not> pool_room g))" by blast
  then show ?thesis by (intro exI [of _ rc] exI [of _ g']) (simp add: pt_frame_def del: tab.simps)
qed

theorem guest_split_block_keeps_translation_witness:
  "\<exists>rc g'. guest_split_block 0x4A5678 example_pt = Some (rc, g') \<and> leaf g' 0x4A5 = leaf example_pt 0x4A5
    \<and> (rc = 0 \<and> tab g' 3 0x4A5 \<noteq> None)"
proof -
  have "leaf example_pt 0x4A5 \<noteq> None" by (simp add: example_leaf idx_def)
  moreover have "pool_room example_pt" by (simp add: pool_room_def PAGE_SIZE_def)
  ultimately show ?thesis
    using guest_split_block_keeps_translation [OF example_pt_inv, of "0x4A5678"] by (auto simp: first_page_def)
qed

section \<open>Ranges\<close>

text \<open>
  C26. Invalidating an address range returns, and afterwards no page of the range has a translation
  while every other page translates as before; every page whose translation changed is covered by
  the TLB maintenance requested, and the generation counter moves. The only failure is an exhausted
  table pool, which leaves the invariant and the pages outside the range intact.
\<close>

theorem guest_invalidate_ptes_unmaps:
  assumes "pt_inv g" "unat e \<le> 2 ^ 48"
  shows "\<exists>rc g'. guest_invalidate_ptes s e g = Some (rc, g') \<and> pt_inv g' \<and> regions g' = regions g
    \<and> (rc = 0 \<or> rc = -1 \<and> \<not> pool_room g')
    \<and> (\<forall>q < pages48. leaf g' q \<noteq> leaf g q \<longrightarrow> covered (tlbi_req g') q \<and> first_page s \<le> q \<and> q < end_page e)
    \<and> (rc = 0 \<longrightarrow> (\<forall>q. first_page s \<le> q \<and> q < end_page e \<longrightarrow> leaf g' q = None)
        \<and> (first_page s < end_page e \<longrightarrow> pt_gen g' = pt_gen g + 1))"
proof -
  from guest_invalidate_ptes_correct [OF assms, of s] obtain rc g' where
    r: "guest_invalidate_ptes s e g = Some (rc, g')" "pt_inv g'" "pt_frame g g'" "rc = 0 \<or> rc = -1 \<and> \<not> pool_room g'"
    "\<forall>q < pages48. leaf g' q \<noteq> leaf g q \<longrightarrow> covered (tlbi_req g') q"
    "\<forall>q < pages48. q < first_page s \<or> end_page e \<le> q \<longrightarrow> leaf g' q = leaf g q"
    "rc = 0 \<longrightarrow> (\<forall>q. first_page s \<le> q \<and> q < end_page e \<longrightarrow> leaf g' q = None)
      \<and> (first_page s < end_page e \<longrightarrow> pt_gen g' = pt_gen g + 1)" by blast
  moreover have "\<forall>q < pages48. leaf g' q \<noteq> leaf g q \<longrightarrow> covered (tlbi_req g') q \<and> first_page s \<le> q \<and> q < end_page e"
    using r(5,6) by (meson not_le)
  moreover have "regions g' = regions g" using r(3) by (simp add: pt_frame_def)
  ultimately show ?thesis by blast
qed

theorem guest_invalidate_ptes_unmaps_witness:
  "\<exists>rc g'. guest_invalidate_ptes 0x401800 0x403001 example_pt = Some (rc, g')
    \<and> (rc = 0 \<longrightarrow> leaf g' 0x402 = None) \<and> leaf g' 0x404 = Some (0x404000, 3)"
proof -
  have e: "unat (0x403001 :: u64) \<le> 2 ^ 48" by simp
  from guest_invalidate_ptes_unmaps [OF example_pt_inv e, of "0x401800"] obtain rc g' where
    r: "guest_invalidate_ptes 0x401800 0x403001 example_pt = Some (rc, g')"
    "\<forall>q < pages48. leaf g' q \<noteq> leaf example_pt q \<longrightarrow> first_page 0x401800 \<le> q \<and> q < end_page 0x403001"
    "rc = 0 \<longrightarrow> (\<forall>q. first_page 0x401800 \<le> q \<and> q < end_page 0x403001 \<longrightarrow> leaf g' q = None)" by blast
  have "leaf g' 0x404 = leaf example_pt 0x404"
    using r(2) [rule_format, of "0x404"] by (auto simp: pages48_def first_page_def end_page_def)
  then have "leaf g' 0x404 = Some (0x404000, 3)" by (simp add: example_leaf idx_def PAGE_SIZE_def)
  moreover have "rc = 0 \<longrightarrow> leaf g' 0x402 = None" using r(3) by (simp add: first_page_def end_page_def)
  ultimately show ?thesis using r(1) by blast
qed

text \<open>
  C27. Changing the permissions of an address range returns. On success every page of the range that
  was mapped keeps its output address and has the new permissions, a page whose table is split but
  whose entry is empty is mapped at the address its region gives, and all other pages are unchanged;
  an executable alias of the kernel buffer window is refused with nothing changed. Every changed page
  is covered by the TLB maintenance requested.
\<close>

theorem guest_update_perms_sets:
  assumes "pt_inv g" "unat e \<le> 2 ^ 48"
  shows "\<exists>rc g'. guest_update_perms s e perms g = Some (rc, g') \<and> pt_inv g' \<and> regions g' = regions g
    \<and> (rc = 0 \<and> \<not> exec_alias perms s e
        \<or> rc = -1 \<and> (\<not> pool_room g' \<or> exec_alias perms s e \<and> (\<forall>q. leaf g' q = leaf g q)))
    \<and> (\<forall>q < pages48. leaf g' q \<noteq> leaf g q \<longrightarrow> covered (tlbi_req g') q \<and> first_page s \<le> q \<and> q < end_page e)
    \<and> (rc = 0 \<longrightarrow> (\<forall>q. first_page s \<le> q \<and> q < end_page e \<longrightarrow> leaf g' q = updated_leaf perms g q)
        \<and> (first_page s < end_page e \<longrightarrow> pt_gen g' = pt_gen g + 1))"
proof -
  from guest_update_perms_correct [OF assms, of s perms] obtain rc g' where
    r: "guest_update_perms s e perms g = Some (rc, g')" "pt_inv g'" "pt_frame g g'"
    "rc = 0 \<and> \<not> exec_alias perms s e \<or> rc = -1 \<and> (\<not> pool_room g' \<or> exec_alias perms s e \<and> (\<forall>q. leaf g' q = leaf g q))"
    "\<forall>q < pages48. leaf g' q \<noteq> leaf g q \<longrightarrow> covered (tlbi_req g') q"
    "\<forall>q < pages48. q < first_page s \<or> end_page e \<le> q \<longrightarrow> leaf g' q = leaf g q"
    "rc = 0 \<longrightarrow> (\<forall>q. first_page s \<le> q \<and> q < end_page e \<longrightarrow> leaf g' q = updated_leaf perms g q)
      \<and> (first_page s < end_page e \<longrightarrow> pt_gen g' = pt_gen g + 1)" by blast
  moreover have "\<forall>q < pages48. leaf g' q \<noteq> leaf g q \<longrightarrow> covered (tlbi_req g') q \<and> first_page s \<le> q \<and> q < end_page e"
    using r(5,6) by (meson not_le)
  moreover have "regions g' = regions g" using r(3) by (simp add: pt_frame_def)
  ultimately show ?thesis by blast
qed

theorem guest_update_perms_sets_witness:
  "\<exists>rc g'. guest_update_perms 0x401000 0x403000 MEM_PERM_R example_pt = Some (rc, g')
    \<and> (rc = 0 \<longrightarrow> leaf g' 0x402 = Some (0x402000, 1)) \<and> leaf g' 0x404 = Some (0x404000, 3)"
proof -
  have e: "unat (0x403000 :: u64) \<le> 2 ^ 48" by simp
  from guest_update_perms_sets [OF example_pt_inv e, of "0x401000" MEM_PERM_R] obtain rc g' where
    r: "guest_update_perms 0x401000 0x403000 MEM_PERM_R example_pt = Some (rc, g')"
    "\<forall>q < pages48. leaf g' q \<noteq> leaf example_pt q \<longrightarrow> first_page 0x401000 \<le> q \<and> q < end_page 0x403000"
    "rc = 0 \<longrightarrow> (\<forall>q. first_page 0x401000 \<le> q \<and> q < end_page 0x403000
        \<longrightarrow> leaf g' q = updated_leaf MEM_PERM_R example_pt q)" by blast
  have "leaf g' 0x404 = leaf example_pt 0x404"
    using r(2) [rule_format, of "0x404"] by (auto simp: pages48_def first_page_def end_page_def)
  then have "leaf g' 0x404 = Some (0x404000, 3)" by (simp add: example_leaf idx_def PAGE_SIZE_def)
  moreover have "rc = 0 \<longrightarrow> leaf g' 0x402 = Some (0x402000, 1)"
    using r(3) by (simp add: first_page_def end_page_def updated_leaf_def example_leaf idx_def PAGE_SIZE_def
        norm_perms_def mem_perms)
  ultimately show ?thesis using r(1) by blast
qed

text \<open>
  C28. Extending the page tables over a range of the guest returns and only ever adds translations,
  to pages of the range's 2 MiB blocks that had none. It fails exactly on a range outside the guest
  or an exhausted pool; on success every page of a block that was empty is identity mapped with the
  permissions asked for, and every added page is covered by the TLB maintenance requested.
\<close>

theorem guest_extend_page_tables_maps:
  assumes "pt_inv g" "unat e \<le> 2 ^ 48" "s \<le> e"
  shows "\<exists>rc g'. guest_extend_page_tables s e perms g = Some (rc, g') \<and> pt_inv g' \<and> regions g' = regions g
    \<and> (rc = 0 \<and> s < guest_size g \<and> e \<le> guest_size g
       \<or> rc = -1 \<and> (\<not> (s < guest_size g \<and> e \<le> guest_size g) \<and> g' = g \<or> \<not> pool_room g'))
    \<and> (\<forall>q < pages48. leaf g' q \<noteq> leaf g q \<longrightarrow> leaf g q = None \<and> first_block s \<le> q \<and> q < end_block e)
    \<and> (rc = 0 \<longrightarrow> (\<forall>q. first_block s \<le> q \<and> q < end_block e \<longrightarrow> leaf g' q = extended_leaf perms g q)
        \<and> (\<forall>q < pages48. leaf g' q \<noteq> leaf g q \<longrightarrow> covered (tlbi_req g') q) \<and> pt_gen g' = pt_gen g + 1)"
proof -
  from guest_extend_page_tables_correct [OF assms, of perms] obtain rc g' where
    r: "guest_extend_page_tables s e perms g = Some (rc, g')" "pt_inv g'" "pt_frame g g'"
    "rc = 0 \<and> s < guest_size g \<and> e \<le> guest_size g
      \<or> rc = -1 \<and> (\<not> (s < guest_size g \<and> e \<le> guest_size g) \<and> g' = g \<or> \<not> pool_room g')"
    "\<forall>q < pages48. leaf g' q \<noteq> leaf g q \<longrightarrow> leaf g q = None \<and> first_block s \<le> q \<and> q < end_block e"
    "rc = 0 \<longrightarrow> (\<forall>q. first_block s \<le> q \<and> q < end_block e \<longrightarrow> leaf g' q = extended_leaf perms g q)
        \<and> (\<forall>q < pages48. leaf g' q \<noteq> leaf g q \<longrightarrow> covered (tlbi_req g') q) \<and> pt_gen g' = pt_gen g + 1" by blast
  moreover have "regions g' = regions g" using r(3) by (simp add: pt_frame_def)
  ultimately show ?thesis by blast
qed

theorem guest_extend_page_tables_maps_witness:
  "\<exists>rc g'. guest_extend_page_tables 0x400000 0x800000 MEM_PERM_R example_pt = Some (rc, g')
    \<and> (rc = 0 \<longrightarrow> leaf g' 0x600 = Some (0x600000, 1) \<and> leaf g' 0x404 = Some (0x404000, 3))"
proof -
  have e: "unat (0x800000 :: u64) \<le> 2 ^ 48" "(0x400000 :: u64) \<le> 0x800000" by simp_all
  from guest_extend_page_tables_maps [OF example_pt_inv e, of MEM_PERM_R] obtain rc g' where
    r: "guest_extend_page_tables 0x400000 0x800000 MEM_PERM_R example_pt = Some (rc, g')"
    "rc = 0 \<longrightarrow> (\<forall>q. first_block 0x400000 \<le> q \<and> q < end_block 0x800000
        \<longrightarrow> leaf g' q = extended_leaf MEM_PERM_R example_pt q)" by blast
  have "extended_leaf MEM_PERM_R example_pt 0x600 = Some (0x600000, 1)"
    by (simp add: extended_leaf_def l2_mapped_def example_tab idx_def example_pte_def page_addr_def
        norm_perms_def mem_perms del: tab.simps)
  moreover have "extended_leaf MEM_PERM_R example_pt 0x404 = Some (0x404000, 3)"
    by (simp add: extended_leaf_def l2_mapped_def example_tab idx_def example_pte_def make_block_desc_fields
        example_leaf PAGE_SIZE_def del: tab.simps)
  ultimately show ?thesis using r by (simp add: first_block_def end_block_def)
qed

end
