(* ===== verification/Guest_Access.thy ===== *)
theory Guest_Access
  imports Backing Page_Table_Theorems
begin

text \<open>
  Access to guest memory from the host (\<^verbatim>\<open>src/src/core/guest.c\<close>): the software walk with its
  one-entry per-thread TLB, the contiguity scan, the resolution to a host pointer, and the copies in
  and out. The TLB is passed as a value; \<open>self\<close> stands for the address of the guest, which the
  cached entry is tagged with. Host memory is a function from host addresses to bytes, and
  \<open>sigbus\<close> tells which of them raise a SIGBUS. An outer \<open>None\<close> is the abort of \<open>pt_at\<close> or a loop
  that does not end.
\<close>

section \<open>The walk\<close>

record gva_tlb =
  tlb_owner :: nat
  base_gva :: u64
  base_gpa :: u64
  tlb_size :: u64
  tlb_perms :: u32
  tlb_gen :: u64

definition guest_tlb_flush :: "gva_tlb \<Rightarrow> gva_tlb" where
  "guest_tlb_flush tlb = tlb\<lparr>tlb_size := 0\<rparr>"

text \<open>The tail the page and the block branch share: permissions, target, backing, cache fill.\<close>

definition translate_leaf ::
  "nat \<Rightarrow> 'a pt_guest_scheme \<Rightarrow> u64 \<Rightarrow> u32 \<Rightarrow> u64 \<Rightarrow> u32 \<Rightarrow> u64 \<Rightarrow> u64 \<Rightarrow> gva_tlb \<Rightarrow> (u64 \<times> u64) option \<times> gva_tlb" where
  "translate_leaf self g gva required_perms gen perms ipa granule tlb =
     (if perms AND MEM_PERM_EL1_ONLY \<noteq> 0 then (None, tlb)
      else if perms AND required_perms \<noteq> required_perms then (None, tlb)
      else case gva_leaf_target ipa (ipa_base g) gva granule of
             None \<Rightarrow> (None, tlb)
           | Some (gpa, chunk) \<Rightarrow>
               if gpa \<ge> guest_size g \<and> guest_find_mapping g gpa = None \<and> guest_find_overflow g gpa = None
               then (None, tlb)
               else (Some (gpa, chunk),
                     \<lparr>tlb_owner = self, base_gva = gva AND NOT (granule - 1), base_gpa = ipa - ipa_base g,
                      tlb_size = granule, tlb_perms = perms, tlb_gen = gen\<rparr>))"

definition tlb_hit :: "nat \<Rightarrow> u64 \<Rightarrow> u64 \<Rightarrow> u32 \<Rightarrow> gva_tlb \<Rightarrow> bool" where
  "tlb_hit self gen gva required_perms tlb \<longleftrightarrow>
     tlb_size tlb \<noteq> 0 \<and> tlb_owner tlb = self \<and> tlb_gen tlb = gen \<and> gva \<ge> base_gva tlb
     \<and> gva - base_gva tlb < tlb_size tlb \<and> required_perms AND tlb_perms tlb = required_perms"

definition gva_translate_perm ::
  "nat \<Rightarrow> 'a pt_guest_scheme \<Rightarrow> u64 \<Rightarrow> u32 \<Rightarrow> gva_tlb \<Rightarrow> ((u64 \<times> u64) option \<times> gva_tlb) option" where
  "gva_translate_perm self g gva required_perms tlb =
     (let gen = pt_gen g; base = ipa_base g in
      if tlb_hit self gen gva required_perms tlb
      then Some (Some (base_gpa tlb + (gva - base_gva tlb), (base_gva tlb + tlb_size tlb) - gva), tlb)
      else do {
        l0 \<leftarrow> pt_at g (ttbr0 g - base);
        let l0_idx = unat (gva div (512 * BLOCK_1GIB));
        if l0_idx \<ge> 512 then Some (None, tlb)
        else let l0e = pte g l0 l0_idx in
        if \<not> pt_valid l0e then Some (None, tlb)
        else case gva_pt_table_offset l0e base (guest_size g) of None \<Rightarrow> Some (None, tlb)
        | Some l1_off \<Rightarrow> do {
          l1 \<leftarrow> pt_at g l1_off;
          let l1e = pte g l1 (unat ((gva div BLOCK_1GIB) mod 512));
          if \<not> pt_valid l1e then Some (None, tlb)
          else case gva_pt_table_offset l1e base (guest_size g) of None \<Rightarrow> Some (None, tlb)
          | Some l2_off \<Rightarrow> do {
            l2 \<leftarrow> pt_at g l2_off;
            let l2e = pte g l2 (unat ((gva div BLOCK_2MIB) mod 512));
            if \<not> pt_valid l2e then Some (None, tlb)
            else if l2e AND PT_TABLE \<noteq> 0 then
              case gva_pt_table_offset l2e base (guest_size g) of None \<Rightarrow> Some (None, tlb)
              | Some l3_off \<Rightarrow> do {
                l3 \<leftarrow> pt_at g l3_off;
                let l3e = pte g l3 (unat ((gva div PAGE_SIZE) mod 512));
                if \<not> pt_valid l3e then Some (None, tlb)
                else Some (translate_leaf self g gva required_perms gen (desc_to_perms l3e)
                             (l3e AND GVA_PT_ADDR_MASK) PAGE_SIZE tlb)
              }
            else Some (translate_leaf self g gva required_perms gen (desc_to_perms l2e)
                         (l2e AND L2_BLOCK_ADDR_MASK) BLOCK_2MIB tlb)
          }
        }
      })"

section \<open>Contiguity and resolution\<close>

text \<open>The end of the backing region a guest physical address lies in.\<close>

definition region_end :: "'a pt_guest_scheme \<Rightarrow> u64 \<Rightarrow> u64 option" where
  "region_end g gpa =
     (if gpa < guest_size g then Some (guest_size g)
      else case guest_find_mapping g gpa of
             Some m \<Rightarrow> Some (m_gpa m + m_size m)
           | None \<Rightarrow> (case guest_find_overflow g gpa of
                        Some s \<Rightarrow> Some (ipa_start s + o_size s)
                      | None \<Rightarrow> None))"

partial_function (option) avail_loop ::
  "nat \<Rightarrow> 'a pt_guest_scheme \<Rightarrow> u32 \<Rightarrow> u64 \<Rightarrow> u64 \<Rightarrow> u64 \<Rightarrow> u64 \<Rightarrow> u64 \<times> u64 \<Rightarrow> gva_tlb \<Rightarrow> (u64 \<times> gva_tlb) option" where
  "avail_loop self g required_perms limit tot next_gva expect_gpa cur tlb =
     (case region_end g (fst cur) of
        None \<Rightarrow> Some (tot, tlb)
      | Some re \<Rightarrow>
          if re \<le> fst cur then Some (tot, tlb)
          else
            let chunk = gva_chunk_clamp (snd cur) (fst cur) re limit tot;
                tot = tot + chunk
            in if tot = limit \<or> chunk < snd cur \<or> next_gva > UINT64_MAX - chunk
                  \<or> expect_gpa > UINT64_MAX - chunk
               then Some (tot, tlb)
               else do {
                 (res, tlb') \<leftarrow> gva_translate_perm self g (next_gva + chunk) required_perms tlb;
                 (case res of
                    None \<Rightarrow> Some (tot, tlb')
                  | Some cur' \<Rightarrow>
                      if fst cur' \<noteq> expect_gpa + chunk then Some (tot, tlb')
                      else avail_loop self g required_perms limit tot (next_gva + chunk) (expect_gpa + chunk) cur' tlb')
               })"

definition gva_contiguous_avail ::
  "nat \<Rightarrow> 'a pt_guest_scheme \<Rightarrow> u64 \<Rightarrow> u32 \<Rightarrow> u64 \<times> u64 \<Rightarrow> u64 \<Rightarrow> gva_tlb \<Rightarrow> (u64 \<times> gva_tlb) option" where
  "gva_contiguous_avail self g gva required_perms first limit tlb =
     (if limit = 0 then Some (0, tlb)
      else avail_loop self g required_perms limit 0 gva (fst first) first tlb)"

text \<open>
  The host pointer and, when the caller passes an \<open>avail\<close> pointer, the bytes available there (0
  otherwise).
\<close>

definition gva_resolve_perm ::
  "nat \<Rightarrow> 'a pt_guest_scheme \<Rightarrow> u64 \<Rightarrow> bool \<Rightarrow> u32 \<Rightarrow> u64 \<Rightarrow> gva_tlb \<Rightarrow> ((u64 \<times> u64) option \<times> gva_tlb) option" where
  "gva_resolve_perm self g gva avail required_perms avail_limit tlb =
     do {
       (res, tlb1) \<leftarrow> gva_translate_perm self g gva required_perms tlb;
       (case res of
          None \<Rightarrow> Some (None, tlb1)
        | Some first \<Rightarrow> do {
            (bytes, tlb2) \<leftarrow> (if avail then gva_contiguous_avail self g gva required_perms first avail_limit tlb1
                              else Some (0, tlb1));
            let capped = (\<lambda>cap. if avail then (if bytes < cap then bytes else cap) else 0);
            if fst first < guest_size g
            then Some (Some (host_base g + fst first, capped (guest_size g - fst first)), tlb2)
            else case guest_find_mapping g (fst first) of
                   Some m \<Rightarrow> Some (Some (m_host_va m + (fst first - m_gpa m),
                                          capped ((m_gpa m + m_size m) - fst first)), tlb2)
                 | None \<Rightarrow>
                     (case guest_find_overflow g (fst first) of
                        Some s \<Rightarrow> Some (Some (o_host_base s + (fst first - ipa_start s),
                                               capped ((ipa_start s + o_size s) - fst first)), tlb2)
                      | None \<Rightarrow> Some (None, tlb2))
          })
     }"

definition guest_ptr :: "nat \<Rightarrow> 'a pt_guest_scheme \<Rightarrow> u64 \<Rightarrow> gva_tlb \<Rightarrow> (u64 option \<times> gva_tlb) option" where
  "guest_ptr self g gva tlb =
     do { (r, tlb') \<leftarrow> gva_resolve_perm self g gva False MEM_PERM_R UINT64_MAX tlb; Some (map_option fst r, tlb') }"

definition guest_ptr_w :: "nat \<Rightarrow> 'a pt_guest_scheme \<Rightarrow> u64 \<Rightarrow> gva_tlb \<Rightarrow> (u64 option \<times> gva_tlb) option" where
  "guest_ptr_w self g gva tlb =
     do { (r, tlb') \<leftarrow> gva_resolve_perm self g gva False MEM_PERM_W UINT64_MAX tlb; Some (map_option fst r, tlb') }"

section \<open>Copies\<close>

type_synonym host_mem = "u64 \<Rightarrow> u8"

text \<open>
  The loop of \<open>guest_copy\<close>: \<open>move ptr copied chunk s\<close> is the guarded \<^verbatim>\<open>memcpy\<close> of the direction
  asked for, \<open>Inl\<close> when it faulted; the result is the return code, the state and the TLB.
\<close>

partial_function (option) copy_loop ::
  "nat \<Rightarrow> 'a pt_guest_scheme \<Rightarrow> (u64 \<Rightarrow> u64 \<Rightarrow> u64 \<Rightarrow> 's \<Rightarrow> 's + 's) \<Rightarrow> u64 \<Rightarrow> u64 \<Rightarrow> u32 \<Rightarrow> u64 \<Rightarrow> 's \<Rightarrow> gva_tlb
   \<Rightarrow> (int \<times> 's \<times> gva_tlb) option" where
  "copy_loop self g move gva len required_perms copied s tlb =
     (if copied < len then
        do {
          (r, tlb1) \<leftarrow> gva_resolve_perm self g (gva + copied) True required_perms (len - copied) tlb;
          (case r of
             None \<Rightarrow> Some (-1, s, tlb1)
           | Some (ptr, avail) \<Rightarrow>
               let chunk = (if len - copied > avail then avail else len - copied) in
               (case move ptr copied chunk s of
                  Inl s' \<Rightarrow> Some (-1, s', tlb1)
                | Inr s' \<Rightarrow> copy_loop self g move gva len required_perms (copied + chunk) s' tlb1))
        }
      else Some (0, s, tlb))"

definition guest_copy ::
  "nat \<Rightarrow> 'a pt_guest_scheme \<Rightarrow> (u64 \<Rightarrow> u64 \<Rightarrow> u64 \<Rightarrow> 's \<Rightarrow> 's + 's) \<Rightarrow> bool \<Rightarrow> u64 \<Rightarrow> u64 \<Rightarrow> u32 \<Rightarrow> 's \<Rightarrow> gva_tlb
   \<Rightarrow> (int \<times> 's \<times> gva_tlb) option" where
  "guest_copy self g move null gva len required_perms s tlb =
     (if len = 0 then Some (0, s, tlb)
      else if null then Some (-1, s, tlb)
      else if \<not> gva_span_ok gva len then Some (-1, s, tlb)
      else copy_loop self g move gva len required_perms 0 s tlb)"

text \<open>Reading appends to the bytes stored at \<^verbatim>\<open>dst\<close>; a faulted copy leaves them unspecified.\<close>

definition host_faults :: "(u64 \<Rightarrow> bool) \<Rightarrow> u64 \<Rightarrow> u64 \<Rightarrow> bool" where
  "host_faults sigbus ptr n = list_ex (\<lambda>i. sigbus (ptr + word_of_nat i)) [0..<unat n]"

definition read_move :: "(u64 \<Rightarrow> bool) \<Rightarrow> host_mem \<Rightarrow> u64 \<Rightarrow> u64 \<Rightarrow> u64 \<Rightarrow> u8 list \<Rightarrow> u8 list + u8 list" where
  "read_move sigbus mem ptr copied chunk dst =
     (if host_faults sigbus ptr chunk then Inl dst
      else Inr (dst @ map (\<lambda>i. mem (ptr + word_of_nat i)) [0..<unat chunk]))"

definition guest_read ::
  "(u64 \<Rightarrow> bool) \<Rightarrow> host_mem \<Rightarrow> nat \<Rightarrow> 'a pt_guest_scheme \<Rightarrow> u64 \<Rightarrow> bool \<Rightarrow> u64 \<Rightarrow> gva_tlb \<Rightarrow> (int \<times> u8 list \<times> gva_tlb) option" where
  "guest_read sigbus mem self g gva dst_null len tlb =
     guest_copy self g (read_move sigbus mem) dst_null gva len MEM_PERM_R [] tlb"

text \<open>Writing: \<open>torn mem ptr bytes\<close> is the memory after a \<^verbatim>\<open>memcpy\<close> that faulted part way.\<close>

definition write_move ::
  "(u64 \<Rightarrow> bool) \<Rightarrow> (host_mem \<Rightarrow> u64 \<Rightarrow> u8 list \<Rightarrow> host_mem) \<Rightarrow> u8 list \<Rightarrow> u64 \<Rightarrow> u64 \<Rightarrow> u64 \<Rightarrow> host_mem \<Rightarrow> host_mem + host_mem" where
  "write_move sigbus torn src ptr copied chunk mem =
     (let bytes = take (unat chunk) (drop (unat copied) src) in
      if host_faults sigbus ptr chunk then Inl (torn mem ptr bytes)
      else Inr (\<lambda>a. if unat (a - ptr) < length bytes then bytes ! unat (a - ptr) else mem a))"

definition guest_write ::
  "(u64 \<Rightarrow> bool) \<Rightarrow> (host_mem \<Rightarrow> u64 \<Rightarrow> u8 list \<Rightarrow> host_mem) \<Rightarrow> nat \<Rightarrow> 'a pt_guest_scheme \<Rightarrow> u64 \<Rightarrow> u8 list \<Rightarrow> bool
   \<Rightarrow> host_mem \<Rightarrow> gva_tlb \<Rightarrow> (int \<times> host_mem \<times> gva_tlb) option" where
  "guest_write sigbus torn self g gva src src_null mem tlb =
     guest_copy self g (write_move sigbus torn src) src_null gva (word_of_nat (length src)) MEM_PERM_W mem tlb"

end
