(* ===== verification/Guest_Access_Laws.thy ===== *)
theory Guest_Access_Laws
  imports Guest_Access
begin

text \<open>
  Correctness of the host's access to guest memory: the walk computes the translation the tables
  define, the cached entry never disagrees with them, and copies move exactly the bytes behind the
  addresses.
\<close>

section \<open>What an address means\<close>

definition allowed :: "u32 \<Rightarrow> u32 \<Rightarrow> bool" where
  "allowed req c \<longleftrightarrow> c AND MEM_PERM_EL1_ONLY = 0 \<and> c AND req = req"

text \<open>The guest physical address of a byte the guest may access with \<open>req\<close>.\<close>

definition gva_gpa :: "u32 \<Rightarrow> 'a pt_guest_scheme \<Rightarrow> nat \<Rightarrow> u64 option" where
  "gva_gpa req g a =
     (if a < 2 ^ 48 then
        (case leaf g (a div 4096) of
           Some (pa, c) \<Rightarrow> if allowed req c then Some (pa + word_of_nat (a mod 4096)) else None
         | None \<Rightarrow> None)
      else None)"

text \<open>The host address of such a byte.\<close>

definition gva_host :: "u32 \<Rightarrow> 'a pt_guest_scheme \<Rightarrow> nat \<Rightarrow> u64 option" where
  "gva_host req g a = Option.bind (gva_gpa req g a) (host_of g)"

text \<open>An aligned stretch of \<open>len\<close> bytes from \<open>b\<close> that is mapped to \<open>ipa\<close> with one set of permissions.\<close>

definition maps_to :: "'a pt_guest_scheme \<Rightarrow> nat \<Rightarrow> nat \<Rightarrow> u64 \<Rightarrow> u32 \<Rightarrow> bool" where
  "maps_to g b len ipa c \<longleftrightarrow> 4096 dvd b \<and> b + len \<le> 2 ^ 48
     \<and> (\<forall>a. b \<le> a \<and> a < b + len \<longrightarrow> leaf g (a div 4096) = Some (ipa + word_of_nat (a div 4096 * 4096 - b), c))"

lemma maps_to_gpa:
  assumes "maps_to g b len ipa c" "allowed req c" "b \<le> a" "a < b + len"
  shows "gva_gpa req g a = Some (ipa + word_of_nat (a - b))"
proof -
  obtain k where k: "b = 4096 * k" using assms(1) by (auto simp: maps_to_def elim: dvdE)
  have "b div 4096 \<le> a div 4096" using assms(3) by (rule div_le_mono)
  then have "a div 4096 * 4096 - b + a mod 4096 = a - b" using k div_mult_mod_eq [of a 4096] by simp
  then have "word_of_nat (a div 4096 * 4096 - b) + (word_of_nat (a mod 4096) :: u64) = word_of_nat (a - b)"
    by (simp only: of_nat_add [symmetric])
  then show ?thesis
    using assms by (auto simp: maps_to_def gva_gpa_def add.assoc)
qed

section \<open>The cached entry\<close>

definition tlb_ok :: "nat \<Rightarrow> 'a pt_guest_scheme \<Rightarrow> gva_tlb \<Rightarrow> bool" where
  "tlb_ok self g tlb \<longleftrightarrow> (tlb_size tlb \<noteq> 0 \<and> tlb_owner tlb = self \<and> tlb_gen tlb = pt_gen g \<longrightarrow>
     maps_to g (unat (base_gva tlb)) (unat (tlb_size tlb)) (base_gpa tlb) (tlb_perms tlb)
     \<and> tlb_perms tlb AND MEM_PERM_EL1_ONLY = 0)"

text \<open>What a translation may answer.\<close>

definition translates :: "u32 \<Rightarrow> 'a pt_guest_scheme \<Rightarrow> u64 \<Rightarrow> (u64 \<times> u64) option \<Rightarrow> bool" where
  "translates req g gva res \<longleftrightarrow>
     (case res of None \<Rightarrow> gva_host req g (unat gva) = None
      | Some (gpa, chunk) \<Rightarrow> chunk \<noteq> 0 \<and> unat gva + unat chunk \<le> 2 ^ 48
          \<and> (\<forall>i < unat chunk. gva_gpa req g (unat gva + i) = Some (gpa + word_of_nat i)))"

lemma maps_to_translates:
  assumes m: "maps_to g b len ipa c" "allowed req c" and a: "b \<le> unat gva" "unat gva < b + len"
    and r: "gpa = ipa + word_of_nat (unat gva - b)" "unat chunk = b + len - unat gva"
  shows "translates req g gva (Some (gpa, chunk))"
proof -
  have "gva_gpa req g (unat gva + i) = Some (gpa + word_of_nat i)" if "i < unat chunk" for i
  proof -
    have "unat gva + i - b = (unat gva - b) + i" using a by simp
    then show ?thesis using maps_to_gpa [OF m, of "unat gva + i"] that a r by (simp add: add.assoc)
  qed
  moreover have "chunk \<noteq> 0" using a r(2) by auto
  ultimately show ?thesis using m(1) a r(2) by (simp add: translates_def maps_to_def)
qed

lemma translates_at: "translates req g gva (Some (gpa, chunk)) \<Longrightarrow> gva_gpa req g (unat gva) = Some gpa"
proof -
  assume t: "translates req g gva (Some (gpa, chunk))"
  then have "0 < unat chunk" by (simp add: translates_def unat_gt_0)
  moreover have "\<forall>i < unat chunk. gva_gpa req g (unat gva + i) = Some (gpa + word_of_nat i)"
    using t by (simp add: translates_def)
  ultimately show ?thesis by (auto dest: spec [of _ 0])
qed

lemma tlb_hit_translates:
  assumes ok: "tlb_ok self g tlb" and hit: "tlb_hit self (pt_gen g) gva req tlb"
  shows "translates req g gva (Some (base_gpa tlb + (gva - base_gva tlb), base_gva tlb + tlb_size tlb - gva))"
proof (rule maps_to_translates)
  have m: "maps_to g (unat (base_gva tlb)) (unat (tlb_size tlb)) (base_gpa tlb) (tlb_perms tlb)"
    "tlb_perms tlb AND MEM_PERM_EL1_ONLY = 0" using ok hit by (auto simp: tlb_ok_def tlb_hit_def)
  then show "maps_to g (unat (base_gva tlb)) (unat (tlb_size tlb)) (base_gpa tlb) (tlb_perms tlb)" by simp
  show "allowed req (tlb_perms tlb)" using m(2) hit by (simp add: allowed_def tlb_hit_def and.commute)
  have le: "base_gva tlb \<le> gva" and lt: "gva - base_gva tlb < tlb_size tlb" using hit by (auto simp: tlb_hit_def)
  have d: "unat (gva - base_gva tlb) = unat gva - unat (base_gva tlb)" by (rule unat_sub [OF le])
  show "unat (base_gva tlb) \<le> unat gva" using le by (simp add: word_le_nat_alt)
  then show lt': "unat gva < unat (base_gva tlb) + unat (tlb_size tlb)" using lt d by (simp add: word_less_nat_alt)
  show "base_gpa tlb + (gva - base_gva tlb) = base_gpa tlb + word_of_nat (unat gva - unat (base_gva tlb))"
    by (simp flip: d)
  have "unat (base_gva tlb + tlb_size tlb) = unat (base_gva tlb) + unat (tlb_size tlb)"
    using m(1) by (simp add: maps_to_def unat_add_u64)
  then show "unat (base_gva tlb + tlb_size tlb - gva) = unat (base_gva tlb) + unat (tlb_size tlb) - unat gva"
    using lt' by (simp add: unat_sub word_le_nat_alt)
qed

section \<open>The walk\<close>

lemma host_of_None: "host_of g gpa = None \<longleftrightarrow>
    gpa \<ge> guest_size g \<and> guest_find_mapping g gpa = None \<and> guest_find_overflow g gpa = None"
  by (auto simp: host_of_def not_less split: option.splits)

lemma block_around:
  "(n :: nat) div 2 ^ k * 2 ^ k \<le> n" "n < n div 2 ^ k * 2 ^ k + 2 ^ k" "n - n div 2 ^ k * 2 ^ k = n mod 2 ^ k"
proof -
  show "n div 2 ^ k * 2 ^ k \<le> n" by simp
  show "n - n div 2 ^ k * 2 ^ k = n mod 2 ^ k" by (rule minus_div_mult_eq_mod)
  have "n mod 2 ^ k < 2 ^ k" by simp
  then show "n < n div 2 ^ k * 2 ^ k + 2 ^ k" using div_mult_mod_eq [of n "2 ^ k"] by linarith
qed

lemma translate_leaf_spec:
  assumes G: "unat granule = 2 ^ k" and mask: "granule - 1 = mask k" and base: "ipa_base g = 0"
    and m: "maps_to g (unat gva div 2 ^ k * 2 ^ k) (2 ^ k) ipa c"
    and r: "translate_leaf self g gva req (pt_gen g) c ipa granule tlb = (res, tlb')"
    and ok: "tlb_ok self g tlb"
  shows "translates req g gva res \<and> tlb_ok self g tlb'"
proof (cases "allowed req c")
  case False
  then have "translate_leaf self g gva req (pt_gen g) c ipa granule tlb = (None, tlb)"
    by (auto simp: translate_leaf_def allowed_def)
  then have "res = None" "tlb' = tlb" using r by auto
  moreover have "leaf g (unat gva div 4096) = Some (ipa + word_of_nat (unat gva div 4096 * 4096 - unat gva div 2 ^ k * 2 ^ k), c)"
    using m block_around [of "unat gva" k] by (simp add: maps_to_def)
  ultimately show ?thesis using False ok by (simp add: translates_def gva_host_def gva_gpa_def)
next
  case True
  let ?B = "unat gva div 2 ^ k * 2 ^ k"
  have o: "unat (gva mod granule) = unat gva mod 2 ^ k" by (simp add: unat_mod G)
  note gB = block_around [of "unat gva" k]
  let ?gpa = "ipa + gva mod granule" and ?chunk = "granule - gva mod granule"
  have gpa: "?gpa = ipa + word_of_nat (unat gva - ?B)" by (simp add: gB(3) flip: o)
  have le: "gva mod granule \<le> granule" using mod_less_divisor [of "2 ^ k" "unat gva"] by (simp add: word_le_nat_alt o G less_imp_le)
  have chunk: "unat ?chunk = ?B + 2 ^ k - unat gva" 
    using gB(1,2) unfolding unat_sub [OF le] o G gB(3) [symmetric] by linarith
  note tr = maps_to_translates [OF m True gB(1,2) gpa chunk]
  have bg: "unat (gva AND NOT (granule - 1)) = ?B" using and_not_mask_unat [of gva k] mask by simp
  have eq: "translate_leaf self g gva req (pt_gen g) c ipa granule tlb =
    (if host_of g ?gpa = None then (None, tlb)
     else (Some (?gpa, ?chunk), \<lparr>tlb_owner = self, base_gva = gva AND NOT (granule - 1), base_gpa = ipa,
             tlb_size = granule, tlb_perms = c, tlb_gen = pt_gen g\<rparr>))"
    using True by (auto simp: translate_leaf_def allowed_def gva_leaf_target_def base host_of_None Let_def)
  show ?thesis
  proof (cases "host_of g ?gpa = None")
    case True
    have "gva_gpa req g (unat gva) = Some ?gpa" by (rule translates_at [OF tr])
    then show ?thesis using True eq r ok by (simp add: translates_def gva_host_def)
  next
    case False
    then have res: "res = Some (?gpa, ?chunk)" and t': "tlb' = \<lparr>tlb_owner = self, base_gva = gva AND NOT (granule - 1),
        base_gpa = ipa, tlb_size = granule, tlb_perms = c, tlb_gen = pt_gen g\<rparr>" using eq r by auto
    have "tlb_ok self g tlb'" using m True by (simp add: t' tlb_ok_def bg G allowed_def)
    then show ?thesis using tr res by simp
  qed
qed

lemma walk_index:
  assumes "unat va div 4096 = p"
  shows "unat ((va div BLOCK_1GIB) mod 512) = idx (Suc 0) p"
    "unat ((va div BLOCK_2MIB) mod 512) = idx 2 p" "unat ((va div PAGE_SIZE) mod 512) = idx 3 p"
proof -
  have "unat va div 1073741824 = p div 262144" "unat va div 2097152 = p div 512"
    using assms div_mult2_eq [of "unat va" 4096 262144] div_mult2_eq [of "unat va" 4096 512] by simp_all
  then show "unat ((va div BLOCK_1GIB) mod 512) = idx (Suc 0) p" "unat ((va div BLOCK_2MIB) mod 512) = idx 2 p"
    "unat ((va div PAGE_SIZE) mod 512) = idx 3 p"
    using assms by (simp_all add: idx_def unat_div unat_mod BLOCK_1GIB_def BLOCK_2MIB_def PAGE_SIZE_def)
qed

lemma pool_table_offset:
  assumes "pool_ok g" "pool_page g (daddr d)"
  shows "gva_pt_table_offset d 0 (guest_size g) = Some (daddr d)"
  using pt_at_pool [OF assms]
  by (auto simp: gva_pt_table_offset_def pt_at_def GVA_PT_ADDR_MASK_def daddr_def Let_def split: if_splits)

lemma desc_table_bit: "(d :: u64) AND 3 = 3 \<longleftrightarrow> d AND 1 \<noteq> 0 \<and> d AND 2 \<noteq> 0"
proof -
  have b: "d AND 1 = (d AND 3) AND 1" "d AND 2 = (d AND 3) AND 2" by (simp_all add: and.assoc)
  have m: "(3 :: u64) = mask 2" by (simp add: mask_eq_exp_minus_1)
  have "unat (d AND 3) < 4" unfolding m and_mask_unat by simp
  then have "unat (d AND 3) = 0 \<or> unat (d AND 3) = 1 \<or> unat (d AND 3) = 2 \<or> unat (d AND 3) = 3" by linarith
  then have "d AND 3 = 0 \<or> d AND 3 = 1 \<or> d AND 3 = 2 \<or> d AND 3 = 3" by (simp add: word_unat_eq_iff)
  then show ?thesis using b by auto
qed

text \<open>The walk as the tables define it.\<close>

lemma gva_walk:
  assumes inv: "pt_inv g" and va: "unat gva < 2 ^ 48" "unat gva div 4096 = p"
    and miss: "\<not> tlb_hit self (pt_gen g) gva req tlb"
  shows "gva_translate_perm self g gva req tlb = Some (
    case tab g 3 p of
      Some t3 \<Rightarrow> if pte g t3 (idx 3 p) AND 1 = 0 then (None, tlb)
        else translate_leaf self g gva req (pt_gen g) (desc_to_perms (pte g t3 (idx 3 p))) (daddr (pte g t3 (idx 3 p))) PAGE_SIZE tlb
    | None \<Rightarrow> (case tab g 2 p of None \<Rightarrow> (None, tlb)
        | Some t2 \<Rightarrow> if pte g t2 (idx 2 p) AND 1 = 0 then (None, tlb)
            else translate_leaf self g gva req (pt_gen g) (desc_to_perms (pte g t2 (idx 2 p)))
                   (pte g t2 (idx 2 p) AND L2_BLOCK_ADDR_MASK) BLOCK_2MIB tlb))"
proof -
  have wf: "pt_wf g" using inv by (simp add: pt_inv_def)
  note ok = pt_wfD(1) [OF wf]
  have base: "ipa_base g = 0" using ok by (simp add: pool_ok_def)
  note ix = walk_indices(1) [OF va(2,1)] walk_index [OF va(2)]
  have i: "\<not> 512 \<le> idx n p" for n by (simp add: idx_def not_le)
  have at: "pt_at g t = Some t" if "n \<le> 3" "tab g n p = Some t" for n t
    using pt_at_pool [OF ok pt_wfD(2) [OF wf that]] .
  have off: "gva_pt_table_offset d 0 (guest_size g) = Some (daddr d)" "pt_at g (daddr d) = Some (daddr d)"
    if "n < 3" "tab g (Suc n) p = Some (daddr d)" for n d
    using pool_table_offset [OF ok pt_wfD(2) [OF wf _ that(2)]] at [OF _ that(2)] that(1) by (simp_all del: tab.simps)
  let ?e0 = "pte g (ttbr0 g) (idx 0 p)"
  have l0: "pt_at g (ttbr0 g - 0) = Some (ttbr0 g)" using at [of 0 "ttbr0 g"] by simp
  note unf = gva_translate_perm_def base Let_def if_not_P [OF miss] l0 bind.bind_lunit ix if_not_P [OF i]
  show ?thesis
  proof (cases "tab g (Suc 0) p")
    case None
    then have "tab g 2 p = None" "tab g 3 p = None" by (auto intro: tab_mono simp del: tab.simps)
    moreover have "\<not> pt_valid ?e0" using None by (simp add: is_tab_def PT_VALID_def split: if_splits)
    ultimately show ?thesis unfolding unf by (simp del: tab.simps)
  next
    case (Some t1)
    then have v0: "pt_valid ?e0" and t1: "t1 = daddr ?e0" by (auto simp: is_tab_def PT_VALID_def split: if_splits)
    note o1 = off [of 0, OF _ Some [unfolded t1]]
    let ?e1 = "pte g t1 (idx (Suc 0) p)"
    show ?thesis
    proof (cases "tab g 2 p")
      case None
      then have "tab g 3 p = None" by (rule tab_mono) simp
      moreover have "\<not> pt_valid ?e1" using None Some by (simp add: tab_next(1) is_tab_def PT_VALID_def split: if_splits del: tab.simps)
      ultimately show ?thesis unfolding unf using v0 o1 t1 None by (simp del: tab.simps)
    next
      case (Some t2)
      with \<open>tab g (Suc 0) p = Some t1\<close> have v1: "pt_valid ?e1" and t2: "t2 = daddr ?e1"
        by (auto simp: tab_next(1) is_tab_def PT_VALID_def split: if_splits simp del: tab.simps)
      have s2: "tab g (Suc (Suc 0)) p = Some (daddr ?e1)" using Some t2 by (simp only: numeral_2_eq_2)
      note o2 = off [of "Suc 0", OF _ s2]
      let ?e2 = "pte g t2 (idx 2 p)"
      show ?thesis
      proof (cases "tab g 3 p")
        case None
        have "?e2 AND 3 \<noteq> 3" using None Some by (simp add: tab_next(2) is_tab_def split: if_splits del: tab.simps)
        then have "pt_valid ?e2 \<Longrightarrow> ?e2 AND PT_TABLE = 0" using desc_table_bit by (simp add: PT_VALID_def PT_TABLE_def)
        then show ?thesis unfolding unf using v0 o1 t1 v1 o2 t2 None Some by (simp add: PT_VALID_def del: tab.simps)
      next
        case s3: (Some t3)
        then have e3: "?e2 AND 3 = 3" and t3: "t3 = daddr ?e2"
          using Some by (auto simp: tab_next(2) is_tab_def split: if_splits simp del: tab.simps)
        then have v2: "pt_valid ?e2" "?e2 AND PT_TABLE \<noteq> 0" using desc_table_bit by (auto simp: PT_VALID_def PT_TABLE_def)
        have "tab g (Suc 2) p = Some (daddr ?e2)" using s3 t3 by (simp only: numeral_3_eq_3 numeral_2_eq_2)
        note o3 = off [of 2, OF _ this]
        show ?thesis
          unfolding unf using v0 o1 t1 v1 o2 t2 v2 o3 t3 s3
          by (simp add: PT_VALID_def daddr_def GVA_PT_ADDR_MASK_def del: tab.simps)
      qed
    qed
  qed
qed

lemma page_maps_to:
  assumes "tab g 3 p = Some t3" "pte g t3 (idx 3 p) AND 1 \<noteq> 0" "p < pages48" "unat gva div 4096 = p"
  shows "maps_to g (unat gva div 2 ^ 12 * 2 ^ 12) (2 ^ 12) (daddr (pte g t3 (idx 3 p))) (desc_to_perms (pte g t3 (idx 3 p)))"
proof -
  have "leaf g p = Some (daddr (pte g t3 (idx 3 p)), desc_to_perms (pte g t3 (idx 3 p)))"
    using assms(1,2) by (simp add: leaf_def page_leaf_def del: tab.simps)
  moreover have "a div 4096 = p" if "p * 4096 \<le> a" "a < p * 4096 + 4096" for a
    using that by (intro div_nat_eqI) (simp_all add: mult.commute)
  ultimately show ?thesis using assms(3,4) by (simp add: maps_to_def pages48_def)
qed

lemma block_maps_to:
  assumes "tab g 2 p = Some t2" "tab g 3 p = None" "pte g t2 (idx 2 p) AND 1 \<noteq> 0" "p < pages48" "unat gva div 4096 = p"
  shows "maps_to g (unat gva div 2 ^ 21 * 2 ^ 21) (2 ^ 21) (pte g t2 (idx 2 p) AND L2_BLOCK_ADDR_MASK)
    (desc_to_perms (pte g t2 (idx 2 p)))"
proof -
  let ?d = "pte g t2 (idx 2 p)"
  have n3: "?d AND 3 \<noteq> 3" using assms(1,2) by (simp add: tab_next(2) is_tab_def split: if_splits del: tab.simps)
  define k where "k = p div 512"
  have B: "unat gva div 2 ^ 21 * 2 ^ 21 = k * 2097152"
    using assms(5) div_mult2_eq [of "unat gva" 4096 512] by (simp add: k_def)
  have k: "k < 134217728" using assms(4) by (simp add: k_def pages48_def div_less_iff_less_mult)
  have "leaf g (a div 4096) = Some ((?d AND L2_BLOCK_ADDR_MASK) + word_of_nat (a div 4096 * 4096 - k * 2097152), desc_to_perms ?d)"
    if a: "k * 2097152 \<le> a" "a < k * 2097152 + 2097152" for a
  proof -
    let ?q = "a div 4096"
    have q: "?q div 512 = k"
      unfolding div_mult2_eq [symmetric] using a by (intro div_nat_eqI) (simp_all add: mult.commute)
    then have qk: "?q = k * 512 + ?q mod 512" using div_mult_mod_eq [of ?q 512] by simp
    have "?q < pages48" using a(2) k by (simp add: pages48_def div_less_iff_less_mult)
    then have "leaf g ?q = block_leaf ?d ?q"
      using l2_entry_leaf(1) [OF assms(1,4) _ _ n3, of ?q] q by (simp add: k_def)
    moreover have "?q * 4096 - k * 2097152 = ?q mod 512 * 4096" by (subst qk) simp
    ultimately show ?thesis using assms(3) by (simp add: block_leaf_def PAGE_SIZE_def)
  qed
  moreover have "4096 dvd k * 2097152" by (rule dvd_mult) simp
  ultimately show ?thesis unfolding B using k by (simp add: maps_to_def del: of_nat_diff)
qed

theorem gva_translate_spec:
  assumes inv: "pt_inv g" and ok: "tlb_ok self g tlb"
  shows "\<exists>res tlb'. gva_translate_perm self g gva req tlb = Some (res, tlb')
    \<and> translates req g gva res \<and> tlb_ok self g tlb'"
proof (cases "tlb_hit self (pt_gen g) gva req tlb")
  case True
  then have "gva_translate_perm self g gva req tlb =
      Some (Some (base_gpa tlb + (gva - base_gva tlb), base_gva tlb + tlb_size tlb - gva), tlb)"
    by (simp add: gva_translate_perm_def Let_def)
  then show ?thesis using tlb_hit_translates [OF ok True] ok by blast
next
  case miss: False
  define p where "p = unat gva div 4096"
  have np: "gva_host req g (unat gva) = None" if "leaf g p = None \<or> \<not> unat gva < 2 ^ 48"
    using that by (auto simp: gva_host_def gva_gpa_def p_def)
  show ?thesis
  proof (cases "unat gva < 2 ^ 48")
    case False
    have wf: "pt_wf g" using inv by (simp add: pt_inv_def)
    have "pt_at g (ttbr0 g) = Some (ttbr0 g)"
      by (rule pt_at_pool [OF pt_wfD(1) [OF wf] pt_wfD(2) [OF wf, of 0 0]]) simp_all
    moreover have "ipa_base g = 0" using pt_wfD(1) [OF wf] by (simp add: pool_ok_def)
    moreover have "512 \<le> unat (gva div (512 * BLOCK_1GIB))"
      using False by (simp add: unat_div BLOCK_1GIB_def less_eq_div_iff_mult_less_eq)
    ultimately have "gva_translate_perm self g gva req tlb = Some (None, tlb)"
      using miss by (simp add: gva_translate_perm_def Let_def)
    then show ?thesis using np ok False by (simp add: translates_def)
  next
    case True
    have p: "p < pages48" using True by (simp add: p_def pages48_def div_less_iff_less_mult)
    note walk = gva_walk [OF inv True p_def [symmetric] miss]
    have base: "ipa_base g = 0" using inv by (simp add: pt_inv_def pt_wf_def pool_ok_def)
    show ?thesis
    proof (cases "tab g 3 p")
      case (Some t3)
      let ?d = "pte g t3 (idx 3 p)"
      show ?thesis
      proof (cases "?d AND 1 = 0")
        case True
        then have "leaf g p = None" using Some by (simp add: leaf_def page_leaf_def del: tab.simps)
        then show ?thesis using walk Some True np ok by (simp add: translates_def)
      next
        case False
        have "unat PAGE_SIZE = 2 ^ 12" "PAGE_SIZE - 1 = mask 12" by (simp_all add: PAGE_SIZE_def mask_eq_exp_minus_1)
        note tl = translate_leaf_spec [OF this base page_maps_to [OF Some False p p_def [symmetric]] prod.collapse [symmetric] ok]
        show ?thesis using walk Some False tl [of req] by (simp add: exI [of _ "fst _"] prod_eq_iff)
      qed
    next
      case None
      show ?thesis
      proof (cases "\<exists>t2. tab g 2 p = Some t2 \<and> pte g t2 (idx 2 p) AND 1 \<noteq> 0")
        case False
        then have "leaf g p = None" using None by (auto simp: leaf_def block_leaf_def simp del: tab.simps split: option.split)
        then show ?thesis using walk None False np ok by (auto simp: translates_def split: option.split)
      next
        case True
        then obtain t2 where t2: "tab g 2 p = Some t2" "pte g t2 (idx 2 p) AND 1 \<noteq> 0" by blast
        have "unat BLOCK_2MIB = 2 ^ 21" "BLOCK_2MIB - 1 = mask 21" by (simp_all add: BLOCK_2MIB_def mask_eq_exp_minus_1)
        note tl = translate_leaf_spec [OF this base block_maps_to [OF t2(1) None t2(2) p p_def [symmetric]] prod.collapse [symmetric] ok]
        show ?thesis using walk None t2 tl [of req] by (simp add: prod_eq_iff)
      qed
    qed
  qed
qed

section \<open>Contiguity\<close>

lemma extent_in_bounds: "backing_wf g \<Longrightarrow> x \<in> set (extents g) \<Longrightarrow> snd x < 2 ^ 64"
  by (auto simp: backing_wf_def extent_ok_def)

lemma region_end_spec:
  assumes wf: "backing_wf g" and h: "host_of g gpa = Some h"
  shows "\<exists>re. region_end g gpa = Some re \<and> gpa < re
    \<and> (\<forall>i. unat gpa + i < unat re \<longrightarrow> host_of g (gpa + word_of_nat i) = Some (h + word_of_nat i))"
  using wf h
proof (cases rule: host_of_cases)
  case slab
  have "host_of g (gpa + word_of_nat i) = Some (h + word_of_nat i)" if "unat gpa + i < unat (guest_size g)" for i
  proof -
    have "unat (gpa + word_of_nat i) = unat gpa + i" using that u64_unat_less [of "guest_size g"] by (simp add: unat_add_u64 unat_of_nat)
    then show ?thesis using slab that by (simp add: host_of_def word_less_nat_alt add.assoc)
  qed
  then show ?thesis using slab by (simp add: region_end_def)
next
  case (mapping m)
  have sum: "unat (m_gpa m + m_size m) = snd (m_extent m)"
    using extent_in_bounds [OF wf, of "m_extent m"] mapping(1)
    by (simp add: extents_def) (simp add: m_extent_def extent_sum)
  have "\<not> gpa < guest_size g" using backing_above [OF wf _ mapping(2)] mapping(1) by (simp add: extents_def)
  moreover have "guest_find_mapping g gpa = Some m" using mapping guest_find_mapping_spec [OF wf] by blast
  moreover have "host_of g (gpa + word_of_nat i) = Some (h + word_of_nat i)" if "unat gpa + i < unat (m_gpa m + m_size m)" for i
  proof -
    have "unat (gpa + word_of_nat i) = unat gpa + i" using that u64_unat_less [of "m_gpa m + m_size m"] by (simp add: unat_add_u64 unat_of_nat)
    then show ?thesis
      using host_of_mapping [OF wf mapping(1), of "gpa + word_of_nat i"] that mapping(2,4) sum by (simp add: algebra_simps)
  qed
  ultimately show ?thesis using mapping(3) sum by (simp add: region_end_def word_less_nat_alt)
next
  case (segment s)
  have sum: "unat (ipa_start s + o_size s) = snd (o_extent s)"
    using extent_in_bounds [OF wf, of "o_extent s"] segment(1)
    by (simp add: extents_def) (simp add: o_extent_def extent_sum)
  have "\<not> gpa < guest_size g" using backing_above [OF wf _ segment(2)] segment(1) by (simp add: extents_def)
  moreover have "guest_find_overflow g gpa = Some s" using segment guest_find_overflow_spec [OF wf] by blast
  moreover have "guest_find_mapping g gpa = None" using mapping_not_overflow [OF wf segment(1-3)] .
  moreover have "host_of g (gpa + word_of_nat i) = Some (h + word_of_nat i)" if "unat gpa + i < unat (ipa_start s + o_size s)" for i
  proof -
    have "unat (gpa + word_of_nat i) = unat gpa + i" using that u64_unat_less [of "ipa_start s + o_size s"] by (simp add: unat_add_u64 unat_of_nat)
    then show ?thesis
      using host_of_overflow [OF wf segment(1), of "gpa + word_of_nat i"] that segment(2,4) sum by (simp add: algebra_simps)
  qed
  ultimately show ?thesis using segment(3) sum by (simp add: region_end_def word_less_nat_alt)
qed

lemma gva_chunk_clamp_unat:
  assumes "gpa < re" "tot < limit"
  shows "unat (gva_chunk_clamp chunk gpa re limit tot) = min (min (unat chunk) (unat re - unat gpa)) (unat limit - unat tot)"
proof -
  have "unat (re - gpa) = unat re - unat gpa" "unat (limit - tot) = unat limit - unat tot"
    using assms by (simp_all add: unat_sub less_imp_le)
  then show ?thesis by (simp add: gva_chunk_clamp_def Let_def word_less_nat_alt min_def)
qed

lemma avail_loop_spec:
  assumes inv: "pt_inv g" and "tlb_ok self g tlb" "translates req g next_gva (Some cur)" "tot < limit"
    and "unat next_gva = unat gva0 + unat tot" "expect = gpa0 + tot" "fst cur = expect"
    and "\<forall>i < unat tot. gva_gpa req g (unat gva0 + i) = Some (gpa0 + word_of_nat i)"
  shows "\<exists>r tlb'. avail_loop self g req limit tot next_gva expect cur tlb = Some (r, tlb') \<and> tlb_ok self g tlb'
    \<and> tot \<le> r \<and> r \<le> limit \<and> (\<forall>i < unat r. gva_gpa req g (unat gva0 + i) = Some (gpa0 + word_of_nat i))
    \<and> (\<forall>re. region_end g (fst cur) = Some re \<and> fst cur < re \<longrightarrow> tot < r)"
  using assms(2-8)
proof (induction "unat limit - unat tot" arbitrary: tot next_gva expect cur tlb rule: less_induct)
  case less
  obtain gpa chunk0 where cur: "cur = (gpa, chunk0)" by (rule prod.exhaust)
  show ?case
  proof (cases "\<exists>re. region_end g gpa = Some re \<and> gpa < re")
    case False
    then have "avail_loop self g req limit tot next_gva expect cur tlb = Some (tot, tlb)"
      by (subst avail_loop.simps) (auto simp: cur not_less split: option.split)
    then show ?thesis using less.prems False by (auto simp: cur)
  next
    case True
    then obtain re where re: "region_end g gpa = Some re" "gpa < re" by blast
    define chunk where "chunk = gva_chunk_clamp chunk0 gpa re limit tot"
    note cl = gva_chunk_clamp_unat [OF re(2) less.prems(3), of chunk0, folded chunk_def]
    have tr: "chunk0 \<noteq> 0" "unat next_gva + unat chunk0 \<le> 2 ^ 48"
      "\<And>i. i < unat chunk0 \<Longrightarrow> gva_gpa req g (unat next_gva + i) = Some (gpa + word_of_nat i)"
      using less.prems(2) by (auto simp: translates_def cur)
    have pos: "0 < unat chunk" "unat chunk \<le> unat chunk0" "unat chunk \<le> unat limit - unat tot"
      using cl tr(1) re(2) less.prems(3) by (auto simp: word_less_nat_alt unat_gt_0)
    have tot': "unat (tot + chunk) = unat tot + unat chunk"
      using pos(3) u64_unat_less [of limit] less.prems(3) by (intro extent_sum) (simp add: word_less_nat_alt)
    have nx: "unat (next_gva + chunk) = unat next_gva + unat chunk"
      using tr(2) pos(2) by (intro extent_sum) simp
    have all: "gva_gpa req g (unat gva0 + i) = Some (gpa0 + word_of_nat i)" if "i < unat (tot + chunk)" for i
    proof (cases "i < unat tot")
      case False
      then have "unat gva0 + i = unat next_gva + (i - unat tot)" "i - unat tot < unat chunk0"
        using less.prems(4) that tot' pos(2) by auto
      then show ?thesis using tr(3) [of "i - unat tot"] less.prems(5,6) False by (simp add: cur)
    qed (use less.prems(7) in simp)
    have lim: "tot < tot + chunk" "tot + chunk \<le> limit"
      using tot' pos by (simp_all add: word_less_nat_alt word_le_nat_alt)
    let ?stop = "tot + chunk = limit \<or> chunk < chunk0 \<or> next_gva > UINT64_MAX - chunk \<or> expect > UINT64_MAX - chunk"
    have eq: "avail_loop self g req limit tot next_gva expect cur tlb =
      (if ?stop then Some (tot + chunk, tlb) else do {
         (res, tlb') \<leftarrow> gva_translate_perm self g (next_gva + chunk) req tlb;
         (case res of None \<Rightarrow> Some (tot + chunk, tlb')
          | Some cur' \<Rightarrow> if fst cur' \<noteq> expect + chunk then Some (tot + chunk, tlb')
              else avail_loop self g req limit (tot + chunk) (next_gva + chunk) (expect + chunk) cur' tlb') })"
    proof -
      have n: "(re \<le> gpa) = False" using re(2) by simp
      show ?thesis
        by (subst avail_loop.simps)
          (simp only: cur fst_conv snd_conv re(1) option.case n if_False Let_def chunk_def [symmetric])
    qed
    obtain res tlb' where t: "gva_translate_perm self g (next_gva + chunk) req tlb = Some (res, tlb')"
      "translates req g (next_gva + chunk) res" "tlb_ok self g tlb'"
      using gva_translate_spec [OF inv less.prems(1), of "next_gva + chunk" req] by blast
    show ?thesis
    proof (cases "?stop \<or> res = None \<or> fst (the res) \<noteq> expect + chunk")
      case True
      then have "avail_loop self g req limit tot next_gva expect cur tlb = Some (tot + chunk, if ?stop then tlb else tlb')"
        using eq t(1) by (auto split: option.splits)
      then show ?thesis using less.prems(1) t(3) lim all by auto
    next
      case False
      then obtain cur' where c: "res = Some cur'" "fst cur' = expect + chunk" "\<not> ?stop" by auto
      have l: "tot + chunk < limit" using lim(2) c(3) by auto
      have dec: "unat limit - unat (tot + chunk) < unat limit - unat tot" using lim(1) l by (simp add: word_less_nat_alt)
      have tr': "translates req g (next_gva + chunk) (Some cur')" using t(2) c(1) by simp
      have n': "unat (next_gva + chunk) = unat gva0 + unat (tot + chunk)" using nx tot' less.prems(4) by simp
      have e': "expect + chunk = gpa0 + (tot + chunk)" using less.prems(5) by (simp add: add.assoc)
      from less.hyps [OF dec t(3) tr' l n' e' c(2)] all obtain r tlb2 where
        r: "avail_loop self g req limit (tot + chunk) (next_gva + chunk) (expect + chunk) cur' tlb' = Some (r, tlb2)"
          "tlb_ok self g tlb2" "tot + chunk \<le> r" "r \<le> limit"
          "\<forall>i < unat r. gva_gpa req g (unat gva0 + i) = Some (gpa0 + word_of_nat i)" by blast
      moreover have "avail_loop self g req limit tot next_gva expect cur tlb = Some (r, tlb2)"
        using eq t(1) c r(1) by simp
      moreover have "tot < r" using lim(1) r(3) by (rule less_le_trans)
      ultimately show ?thesis by (auto simp: less_imp_le)
    qed
  qed
qed

section \<open>Resolution\<close>

definition resolves :: "u32 \<Rightarrow> 'a pt_guest_scheme \<Rightarrow> u64 \<Rightarrow> u64 \<Rightarrow> (u64 \<times> u64) option \<Rightarrow> bool" where
  "resolves req g gva limit r \<longleftrightarrow>
     (case r of None \<Rightarrow> gva_host req g (unat gva) = None
      | Some (ptr, av) \<Rightarrow> av \<noteq> 0 \<and> av \<le> limit
          \<and> (\<forall>i < unat av. gva_host req g (unat gva + i) = Some (ptr + word_of_nat i)))"

text \<open>The three branches of the resolution as one.\<close>

lemma gva_resolve_eq:
  assumes t: "gva_translate_perm self g gva req tlb = Some (Some first, tlb1)"
    and a: "gva_contiguous_avail self g gva req first limit tlb1 = Some (bytes, tlb2)"
  shows "gva_resolve_perm self g gva True req limit tlb = Some (
    (case (host_of g (fst first), region_end g (fst first)) of
       (Some h, Some re) \<Rightarrow> Some (h, if bytes < re - fst first then bytes else re - fst first)
     | _ \<Rightarrow> None), tlb2)"
  using assms
  by (simp add: gva_resolve_perm_def host_of_def region_end_def Let_def split: option.split)

lemma gva_resolve_spec:
  assumes inv: "pt_inv g" and wf: "backing_wf g" and ok: "tlb_ok self g tlb" and lim: "limit \<noteq> 0"
  shows "\<exists>r tlb'. gva_resolve_perm self g gva True req limit tlb = Some (r, tlb')
    \<and> resolves req g gva limit r \<and> tlb_ok self g tlb'"
proof -
  obtain res tlb1 where t: "gva_translate_perm self g gva req tlb = Some (res, tlb1)"
    "translates req g gva res" "tlb_ok self g tlb1" using gva_translate_spec [OF inv ok] by blast
  show ?thesis
  proof (cases res)
    case None
    then show ?thesis using t by (simp add: gva_resolve_perm_def resolves_def translates_def)
  next
    case (Some first)
    let ?gpa = "fst first"
    have at: "gva_gpa req g (unat gva) = Some ?gpa" using t(2) Some translates_at by (metis prod.collapse)
    have l0: "0 < limit" using lim by (simp add: word_gt_0)
    have "\<exists>r tlb'. avail_loop self g req limit 0 gva ?gpa first tlb1 = Some (r, tlb') \<and> tlb_ok self g tlb'
      \<and> 0 \<le> r \<and> r \<le> limit \<and> (\<forall>i < unat r. gva_gpa req g (unat gva + i) = Some (?gpa + word_of_nat i))
      \<and> (\<forall>re. region_end g ?gpa = Some re \<and> ?gpa < re \<longrightarrow> 0 < r)"
      by (rule avail_loop_spec [OF inv t(3) _ l0]) (use t(2) Some in simp_all)
    then obtain bytes tlb2 where a: "gva_contiguous_avail self g gva req first limit tlb1 = Some (bytes, tlb2)"
      "tlb_ok self g tlb2" "bytes \<le> limit" "\<forall>i < unat bytes. gva_gpa req g (unat gva + i) = Some (?gpa + word_of_nat i)"
      "\<forall>re. region_end g ?gpa = Some re \<and> ?gpa < re \<longrightarrow> 0 < bytes"
      using lim by (auto simp: gva_contiguous_avail_def)
    note eq = gva_resolve_eq [OF t(1) [unfolded Some] a(1)]
    show ?thesis
    proof (cases "host_of g ?gpa")
      case None
      then show ?thesis using eq a(2) at by (simp add: resolves_def gva_host_def)
    next
      case (Some h)
      obtain re where re: "region_end g ?gpa = Some re" "?gpa < re"
        "\<forall>i. unat ?gpa + i < unat re \<longrightarrow> host_of g (?gpa + word_of_nat i) = Some (h + word_of_nat i)"
        using region_end_spec [OF wf Some] by blast
      let ?av = "if bytes < re - ?gpa then bytes else re - ?gpa"
      have cap: "unat (re - ?gpa) = unat re - unat ?gpa" by (rule unat_sub) (use re(2) in simp)
      have "0 < bytes" using a(5) re by blast
      moreover have "re - ?gpa \<noteq> 0" using re(2) by auto
      ultimately have "?av \<noteq> 0" "?av \<le> limit" using a(3) by auto
      moreover have "gva_host req g (unat gva + i) = Some (h + word_of_nat i)" if "i < unat ?av" for i
      proof -
        have "i < unat bytes" "unat ?gpa + i < unat re"
          using that cap by (auto simp: word_less_nat_alt split: if_splits)
        then show ?thesis using a(4) re(3) by (simp add: gva_host_def)
      qed
      ultimately have "resolves req g gva limit (Some (h, ?av))" by (simp add: resolves_def)
      then show ?thesis using eq Some re(1) a(2) by simp
    qed
  qed
qed

section \<open>Copies\<close>

text \<open>
  The contract the two directions of \<open>guest_copy\<close> share: moving a chunk whose bytes lie at
  consecutive host addresses takes the state after \<open>copied\<close> bytes to the state after
  \<open>copied + chunk\<close>, unless one of the addresses faults.
\<close>

locale copy_direction =
  fixes move :: "u64 \<Rightarrow> u64 \<Rightarrow> u64 \<Rightarrow> 's \<Rightarrow> 's + 's" and host :: "nat \<Rightarrow> u64 option" and st :: "nat \<Rightarrow> 's"
    and sigbus :: "u64 \<Rightarrow> bool" and n :: nat and keeps :: "'s \<Rightarrow> bool"
  assumes move_all: "\<lbrakk>unat copied + unat chunk \<le> n;
      \<forall>i < unat chunk. host (unat copied + i) = Some (ptr + word_of_nat i);
      \<forall>i < unat chunk. \<not> sigbus (ptr + word_of_nat i)\<rbrakk>
      \<Longrightarrow> move ptr copied chunk (st (unat copied)) = Inr (st (unat copied + unat chunk))"
    and move_fault: "\<lbrakk>unat copied + unat chunk \<le> n;
      \<forall>i < unat chunk. host (unat copied + i) = Some (ptr + word_of_nat i);
      i < unat chunk; sigbus (ptr + word_of_nat i)\<rbrakk>
      \<Longrightarrow> \<exists>s'. move ptr copied chunk (st (unat copied)) = Inl s' \<and> keeps s'"
    and st_keeps: "k \<le> n \<Longrightarrow> keeps (st k)"
begin

lemma copy_loop_spec:
  assumes inv: "pt_inv g" and wf: "backing_wf g" and host: "host = (\<lambda>i. gva_host req g (unat gva + i))"
    and len: "unat len \<le> n" "unat gva + unat len < 2 ^ 64"
    and "tlb_ok self g tlb" "copied \<le> len" "\<forall>i < unat copied. \<exists>h. host i = Some h \<and> \<not> sigbus h"
  shows "\<exists>rc s' tlb'. copy_loop self g move gva len req copied (st (unat copied)) tlb = Some (rc, s', tlb')
    \<and> tlb_ok self g tlb'
    \<and> (rc = 0 \<and> s' = st (unat len) \<and> (\<forall>i < unat len. \<exists>h. host i = Some h \<and> \<not> sigbus h)
       \<or> rc = -1 \<and> keeps s' \<and> (\<exists>i < unat len. \<forall>h. host i = Some h \<longrightarrow> sigbus h))"
  using assms(6-8)
proof (induction "unat len - unat copied" arbitrary: copied tlb rule: less_induct)
  case less
  show ?case
  proof (cases "copied < len")
    case False
    then have "copied = len" using less.prems(2) by simp
    then show ?thesis using less.prems by (subst copy_loop.simps) auto
  next
    case True
    have lim: "len - copied \<noteq> 0" using True by auto
    have d: "unat (len - copied) = unat len - unat copied" using True by (simp add: unat_sub)
    have ga: "unat (gva + copied) = unat gva + unat copied"
      using len(2) less.prems(2) by (intro extent_sum) (simp add: word_le_nat_alt)
    obtain r tlb1 where r: "gva_resolve_perm self g (gva + copied) True req (len - copied) tlb = Some (r, tlb1)"
      "resolves req g (gva + copied) (len - copied) r" "tlb_ok self g tlb1"
      using gva_resolve_spec [OF inv wf less.prems(1) lim] by blast
    show ?thesis
    proof (cases r)
      case None
      then have "host (unat copied) = None" using r(2) ga by (simp add: resolves_def host)
      moreover have "copy_loop self g move gva len req copied (st (unat copied)) tlb = Some (-1, st (unat copied), tlb1)"
        using True r(1) None by (subst copy_loop.simps) simp
      moreover have cl: "unat copied < unat len" using True by (simp add: word_less_nat_alt)
      moreover have "keeps (st (unat copied))" using st_keeps [of "unat copied"] len(1) cl by simp
      ultimately show ?thesis using r(3) by auto
    next
      case (Some pa)
      then obtain ptr av where pa: "r = Some (ptr, av)" by (cases pa) auto
      have av: "av \<noteq> 0" "av \<le> len - copied" "\<forall>i < unat av. host (unat copied + i) = Some (ptr + word_of_nat i)"
        using r(2) pa ga by (auto simp: resolves_def host add.assoc)
      have avn: "unat copied + unat av \<le> unat len" "0 < unat av"
        using av(1,2) d True by (simp_all add: word_le_nat_alt word_less_nat_alt unat_gt_0)
      have c': "unat (copied + av) = unat copied + unat av" using avn(1) u64_unat_less [of len] by (intro extent_sum) simp
      have step: "copy_loop self g move gva len req copied (st (unat copied)) tlb =
        (case move ptr copied av (st (unat copied)) of Inl s' \<Rightarrow> Some (-1, s', tlb1)
         | Inr s' \<Rightarrow> copy_loop self g move gva len req (copied + av) s' tlb1)"
      proof -
        have "(if len - copied > av then av else len - copied) = av" using av(2) by auto
        then show ?thesis using True r(1) pa by (subst copy_loop.simps) (simp only: bind.bind_lunit prod.case option.case if_True Let_def)
      qed
      show ?thesis
      proof (cases "\<exists>i < unat av. sigbus (ptr + word_of_nat i)")
        case True
        then obtain i where i: "i < unat av" "sigbus (ptr + word_of_nat i)" by blast
        obtain s' where "move ptr copied av (st (unat copied)) = Inl s'" "keeps s'"
          using move_fault [OF _ av(3) i] avn(1) len(1) by auto
        moreover have "unat copied + i < unat len" "host (unat copied + i) = Some (ptr + word_of_nat i)"
          using i(1) av(3) avn(1) by auto
        ultimately show ?thesis using step r(3) i(2) by auto
      next
        case False
        then have mv: "move ptr copied av (st (unat copied)) = Inr (st (unat (copied + av)))"
          using move_all [of copied av ptr] av(3) avn(1) len(1) c' by auto
        have "host i \<noteq> None \<and> \<not> sigbus (the (host i))" if "i < unat (copied + av)" for i
        proof (cases "i < unat copied")
          case True
          then show ?thesis using less.prems(3) by auto
        next
          case F: False
          then obtain j where j: "i = unat copied + j" by (metis le_Suc_ex not_less)
          then have "j < unat av" using that c' by simp
          then show ?thesis using av(3) False by (simp add: j)
        qed
        then have acc: "\<forall>i < unat (copied + av). \<exists>h. host i = Some h \<and> \<not> sigbus h" by (metis option.exhaust_sel)
        have dec: "unat len - unat (copied + av) < unat len - unat copied" using c' avn by simp
        have le: "copied + av \<le> len" using c' avn(1) by (simp add: word_le_nat_alt)
        from less.hyps [OF dec r(3) le acc] show ?thesis using step mv by simp
      qed
    qed
  qed
qed

end

text \<open>Reading collects the bytes in order.\<close>

definition bytes_at :: "host_mem \<Rightarrow> (nat \<Rightarrow> u64 option) \<Rightarrow> nat \<Rightarrow> u8 list" where
  "bytes_at mem host n = map (\<lambda>i. mem (the (host i))) [0..<n]"

lemma host_faults_iff: "host_faults sigbus ptr n \<longleftrightarrow> (\<exists>i < unat n. sigbus (ptr + word_of_nat i))"
  by (auto simp: host_faults_def list_ex_iff)

interpretation reading: copy_direction "read_move sigbus mem" host "bytes_at mem host" sigbus n "\<lambda>_. True"
  for sigbus mem host n
proof
  fix copied chunk ptr :: u64
  assume *: "\<forall>i < unat chunk. host (unat copied + i) = Some (ptr + word_of_nat i)"
    "\<forall>i < unat chunk. \<not> sigbus (ptr + word_of_nat i)"
  have "[0..<unat copied + unat chunk] = [0..<unat copied] @ map (\<lambda>i. i + unat copied) [0..<unat chunk]"
    using upt_add_eq_append [of 0 "unat copied" "unat chunk"] by (simp add: map_add_upt add.commute)
  then show "read_move sigbus mem ptr copied chunk (bytes_at mem host (unat copied)) =
      Inr (bytes_at mem host (unat copied + unat chunk))"
    using * by (simp add: read_move_def host_faults_iff bytes_at_def add.commute)
qed (auto simp: read_move_def host_faults_iff)

text \<open>Writing stores the bytes in order.\<close>

definition store_byte :: "u8 list \<Rightarrow> (nat \<Rightarrow> u64 option) \<Rightarrow> nat \<Rightarrow> host_mem \<Rightarrow> host_mem" where
  "store_byte src host i m = (case host i of Some a \<Rightarrow> m(a := src ! i) | None \<Rightarrow> m)"

definition stored :: "host_mem \<Rightarrow> u8 list \<Rightarrow> (nat \<Rightarrow> u64 option) \<Rightarrow> nat \<Rightarrow> host_mem" where
  "stored mem src host n = fold (store_byte src host) [0..<n] mem"

lemma store_run:
  assumes "k < 2 ^ 64" "\<forall>i < k. host (c + i) = Some (ptr + word_of_nat i :: u64)" "c + k \<le> length src"
  shows "fold (store_byte src host) [c..<c + k] mem =
    (\<lambda>a. if unat (a - ptr) < k then take k (drop c src) ! unat (a - ptr) else mem a)"
  using assms
proof (induction k)
  case (Suc k)
  have h: "store_byte src host (c + k) m = m(ptr + word_of_nat k := src ! (c + k))" for m
    using Suc.prems(2) by (simp add: store_byte_def)
  have kk: "unat (word_of_nat k :: u64) = k" using Suc.prems(1) by (simp add: unat_of_nat)
  have u: "unat (a - ptr) = k \<longleftrightarrow> a = ptr + word_of_nat k" for a :: u64
  proof -
    have "unat (a - ptr) = k \<longleftrightarrow> a - ptr = word_of_nat k"
      using Suc.prems(1) by (auto simp: unat_of_nat word_unat_eq_iff)
    also have "\<dots> \<longleftrightarrow> a = ptr + word_of_nat k" by (auto simp: algebra_simps)
    finally show ?thesis .
  qed
  show ?case
    using Suc.IH Suc.prems h u kk by (auto simp: fun_eq_iff less_Suc_eq nth_append take_Suc_conv_app_nth)
qed simp

lemma stored_outside: "\<forall>i < k. host i \<noteq> Some a \<Longrightarrow> stored mem src host k a = mem a"
  by (induction k) (auto simp: stored_def store_byte_def split: option.split)

text \<open>A torn copy changes nothing outside its target.\<close>

definition torn_local :: "(host_mem \<Rightarrow> u64 \<Rightarrow> u8 list \<Rightarrow> host_mem) \<Rightarrow> bool" where
  "torn_local torn \<longleftrightarrow> (\<forall>mem ptr bytes a. unat (a - ptr) \<ge> length bytes \<longrightarrow> torn mem ptr bytes a = mem a)"

definition outside_same :: "host_mem \<Rightarrow> (nat \<Rightarrow> u64 option) \<Rightarrow> nat \<Rightarrow> host_mem \<Rightarrow> bool" where
  "outside_same mem host n m \<longleftrightarrow> (\<forall>a. (\<forall>i < n. host i \<noteq> Some a) \<longrightarrow> m a = mem a)"

lemma stored_outside_same:
  "k \<le> n \<Longrightarrow> outside_same mem host n (stored mem src host k)"
  by (auto simp: outside_same_def intro!: stored_outside)

lemma writing_direction:
  assumes "torn_local torn" "length src < 2 ^ 64"
  shows "copy_direction (write_move sigbus torn src) host (stored mem src host) sigbus (length src)
    (outside_same mem host (length src))"
proof
  fix copied chunk ptr :: u64
  assume *: "unat copied + unat chunk \<le> length src"
    "\<forall>i < unat chunk. host (unat copied + i) = Some (ptr + word_of_nat i)"
  have split: "stored mem src host (unat copied + unat chunk) =
      fold (store_byte src host) [unat copied..<unat copied + unat chunk] (stored mem src host (unat copied))"
    using upt_add_eq_append [of 0 "unat copied" "unat chunk"] by (simp add: stored_def)
  show "write_move sigbus torn src ptr copied chunk (stored mem src host (unat copied)) =
      Inr (stored mem src host (unat copied + unat chunk))"
    if "\<forall>i < unat chunk. \<not> sigbus (ptr + word_of_nat i)"
    using that *(1) by (simp add: write_move_def host_faults_iff split store_run [OF u64_unat_less *(2,1)] Let_def)
  fix i
  assume f: "i < unat chunk" "sigbus (ptr + word_of_nat i)"
  show "\<exists>s'. write_move sigbus torn src ptr copied chunk (stored mem src host (unat copied)) = Inl s'
      \<and> outside_same mem host (length src) s'"
  proof (intro exI conjI)
    let ?bytes = "take (unat chunk) (drop (unat copied) src)"
    show "write_move sigbus torn src ptr copied chunk (stored mem src host (unat copied)) =
        Inl (torn (stored mem src host (unat copied)) ptr ?bytes)"
      using f by (auto simp: write_move_def host_faults_iff Let_def)
    have len: "length ?bytes = unat chunk" using *(1) by simp
    have "torn (stored mem src host (unat copied)) ptr ?bytes a = mem a" if "\<forall>i < length src. host i \<noteq> Some a" for a
    proof -
      have "unat chunk \<le> unat (a - ptr)"
      proof (rule ccontr)
        assume "\<not> ?thesis"
        then have "host (unat copied + unat (a - ptr)) = Some a" "unat copied + unat (a - ptr) < length src"
          using * by auto
        then show False using that by blast
      qed
      then have "torn (stored mem src host (unat copied)) ptr ?bytes a = stored mem src host (unat copied) a"
        using assms(1) len by (simp add: torn_local_def)
      then show ?thesis using stored_outside [of "unat copied" host a] that *(1) by simp
    qed
    then show "outside_same mem host (length src) (torn (stored mem src host (unat copied)) ptr ?bytes)"
      by (simp add: outside_same_def)
  qed
qed (rule stored_outside_same)

end
