(* ===== verification/Guest_Access_Theorems.thy ===== *)
theory Guest_Access_Theorems
  imports Guest_Access_Laws
begin

text \<open>What the host's accessors to guest memory promise, and that the cached translation stays right
  while the page tables change.\<close>

section \<open>The cached entry and the page table operations\<close>

text \<open>
  The translations a thread may have cached lag behind the tables when an edit of a mapped page has not
  been followed by a move of the generation counter.
\<close>

definition lags :: "bool \<Rightarrow> 'a pt_guest_scheme \<Rightarrow> 'a pt_guest_scheme \<Rightarrow> bool" where
  "lags lag g g' \<longleftrightarrow> pt_gen g' = pt_gen g \<and> (lag \<or> (\<exists>q < pages48. leaf g q \<noteq> None \<and> leaf g' q \<noteq> leaf g q))"

text \<open>
  What a page table operation owes the walker: it keeps the invariant, whether or not it succeeds; it
  leaves the generation counter alone or moves it by one; and when it succeeds, no cached translation
  lags behind it. \<open>valid\<close> collects what the operation's own arguments must satisfy.
\<close>

locale pt_operation =
  fixes valid :: bool and operation :: "'a pt_guest_scheme \<Rightarrow> (int \<times> 'a pt_guest_scheme) option"
  assumes keeps_inv: "valid \<Longrightarrow> pt_inv g \<Longrightarrow> operation g = Some (rc, g') \<Longrightarrow> pt_inv g'"
    and counts: "valid \<Longrightarrow> pt_inv g \<Longrightarrow> operation g = Some (rc, g') \<Longrightarrow> pt_gen g' = pt_gen g + 1 \<or> pt_gen g' = pt_gen g"
    and publishes: "valid \<Longrightarrow> pt_inv g \<Longrightarrow> operation g = Some (0, g') \<Longrightarrow> \<not> lags False g g'"
begin

lemma cached_entry_survives:
  assumes v: valid and inv: "pt_inv g" and s: "operation g = Some (rc, g')"
    and ok: "\<not> lag \<Longrightarrow> tlb_ok self g tlb" and gen: "tlb_gen tlb \<le> pt_gen g" "pt_gen g < UINT64_MAX"
  shows "(\<not> lags lag g g' \<longrightarrow> tlb_ok self g' tlb) \<and> tlb_gen tlb \<le> pt_gen g'"
  using counts [OF v inv s]
proof
  assume b: "pt_gen g' = pt_gen g + 1"
  have "pt_gen g < pt_gen g + 1" using gen(2) by (simp add: word_less_nat_alt unat_add_u64 unat_UINT64_MAX)
  then show ?thesis using gen(1) b by (auto simp: tlb_ok_def)
next
  assume b: "pt_gen g' = pt_gen g"
  have "tlb_ok self g' tlb" if n: "\<not> lags lag g g'"
  proof -
    have same: "leaf g' q = leaf g q" if "q < pages48" "leaf g q \<noteq> None" for q using n b that by (auto simp: lags_def)
    have "maps_to g' (unat (base_gva tlb)) (unat (tlb_size tlb)) (base_gpa tlb) (tlb_perms tlb)"
      if m: "maps_to g (unat (base_gva tlb)) (unat (tlb_size tlb)) (base_gpa tlb) (tlb_perms tlb)"
    proof -
      have "a div 4096 < pages48" if "a < unat (base_gva tlb) + unat (tlb_size tlb)" for a
        using m that by (auto simp: maps_to_def pages48_def div_less_iff_less_mult)
      then show ?thesis using m same by (fastforce simp: maps_to_def)
    qed
    then show ?thesis using ok n b by (auto simp: tlb_ok_def lags_def)
  qed
  then show ?thesis using b gen(1) by simp
qed

end

lemma range_empty:
  assumes "unat e \<le> 2 ^ 48" "\<not> first_page s < end_page e"
  shows "guest_invalidate_ptes s e g = Some (0, g)" "guest_update_perms s e perms g = Some (0, g)"
  using assms(2) range_pages(1,5) [OF assms(1)] by (simp_all add: guest_invalidate_ptes_def guest_update_perms_def Let_def not_less)

interpretation invalidate: pt_operation "unat e \<le> 2 ^ 48" "guest_invalidate_ptes s e" for s e
proof
  fix g g' :: "'a pt_guest_scheme" and rc
  assume a: "unat e \<le> 2 ^ 48" "pt_inv g" "guest_invalidate_ptes s e g = Some (rc, g')"
  note c = guest_invalidate_ptes_correct [OF a(2,1), of s]
  have empty: "g' = g" if "\<not> first_page s < end_page e"
    using a(3) by (simp add: range_empty [OF a(1) that])
  show "pt_inv g'" using c a(3) by auto
  show "pt_gen g' = pt_gen g + 1 \<or> pt_gen g' = pt_gen g" using c a(3) empty by auto
next
  fix g g' :: "'a pt_guest_scheme"
  assume a: "unat e \<le> 2 ^ 48" "pt_inv g" "guest_invalidate_ptes s e g = Some (0, g')"
  have "g' = g" if "\<not> first_page s < end_page e"
    using a(3) by (simp add: range_empty [OF a(1) that])
  then show "\<not> lags False g g'" using guest_invalidate_ptes_correct [OF a(2,1), of s] a(3) by (auto simp: lags_def)
qed

interpretation update: pt_operation "unat e \<le> 2 ^ 48" "guest_update_perms s e perms" for s e perms
proof
  fix g g' :: "'a pt_guest_scheme" and rc
  assume a: "unat e \<le> 2 ^ 48" "pt_inv g" "guest_update_perms s e perms g = Some (rc, g')"
  note c = guest_update_perms_correct [OF a(2,1), of s perms]
  have empty: "g' = g" if "\<not> first_page s < end_page e"
    using a(3) by (simp add: range_empty [OF a(1) that])
  show "pt_inv g'" using c a(3) by auto
  show "pt_gen g' = pt_gen g + 1 \<or> pt_gen g' = pt_gen g" using c a(3) empty by auto
next
  fix g g' :: "'a pt_guest_scheme"
  assume a: "unat e \<le> 2 ^ 48" "pt_inv g" "guest_update_perms s e perms g = Some (0, g')"
  have "g' = g" if "\<not> first_page s < end_page e"
    using a(3) by (simp add: range_empty [OF a(1) that])
  then show "\<not> lags False g g'" using guest_update_perms_correct [OF a(2,1), of s perms] a(3) by (auto simp: lags_def)
qed

text \<open>Extending only maps what was not mapped, so nothing cached lags behind it, even when it fails.\<close>

lemma extend_never_lags:
  assumes "pt_inv g" "unat e \<le> 2 ^ 48" "s \<le> e" "guest_extend_page_tables s e perms g = Some (rc, g')"
  shows "pt_inv g'" "pt_gen g' = pt_gen g + 1 \<or> pt_gen g' = pt_gen g" "\<not> lags False g g'"
proof -
  from guest_extend_page_tables_correct [OF assms(1-3), of perms] obtain rc' h where
    "Some (rc, g') = Some (rc', h)" "pt_inv h" "\<forall>q < pages48. leaf h q \<noteq> leaf g q \<longrightarrow> leaf g q = None"
    "rc' = 0 \<or> rc' = -1" "rc' = 0 \<longrightarrow> pt_gen h = pt_gen g + 1" "rc' = -1 \<longrightarrow> pt_gen h = pt_gen g"
    unfolding assms(4) by blast
  then show "pt_inv g'" "pt_gen g' = pt_gen g + 1 \<or> pt_gen g' = pt_gen g" "\<not> lags False g g'"
    by (auto simp: lags_def)
qed






text \<open>An edit is left waiting only by an unmapping or a change of permissions that reports failure.\<close>

lemma lags_only_after_failure:
  assumes "pt_inv g"
  shows "unat e \<le> 2 ^ 48 \<Longrightarrow> guest_invalidate_ptes s e g = Some (rc, g') \<Longrightarrow> lags False g g' \<Longrightarrow> rc = -1"
    and "unat e \<le> 2 ^ 48 \<Longrightarrow> guest_update_perms s e perms g = Some (rc, g') \<Longrightarrow> lags False g g' \<Longrightarrow> rc = -1"
    and "unat e \<le> 2 ^ 48 \<Longrightarrow> s \<le> e \<Longrightarrow> guest_extend_page_tables s e perms g = Some (rc, g') \<Longrightarrow> \<not> lags False g g'"
    and "unat va < 2 ^ 48 \<Longrightarrow> guest_split_block va g = Some (rc, g') \<Longrightarrow> \<not> lags False g g'"
proof -
  show "unat e \<le> 2 ^ 48 \<Longrightarrow> guest_invalidate_ptes s e g = Some (rc, g') \<Longrightarrow> lags False g g' \<Longrightarrow> rc = -1"
    using invalidate.publishes [OF _ assms] guest_invalidate_ptes_correct [OF assms, of e s] by fastforce
  show "unat e \<le> 2 ^ 48 \<Longrightarrow> guest_update_perms s e perms g = Some (rc, g') \<Longrightarrow> lags False g g' \<Longrightarrow> rc = -1"
    using update.publishes [OF _ assms] guest_update_perms_correct [OF assms, of e s perms] by fastforce
  show "unat e \<le> 2 ^ 48 \<Longrightarrow> s \<le> e \<Longrightarrow> guest_extend_page_tables s e perms g = Some (rc, g') \<Longrightarrow> \<not> lags False g g'"
    by (rule extend_never_lags(3) [OF assms])
  show "unat va < 2 ^ 48 \<Longrightarrow> guest_split_block va g = Some (rc, g') \<Longrightarrow> \<not> lags False g g'"
    using guest_split_block_total [OF assms _ refl] by (fastforce simp: lags_def)
qed

section \<open>Translation\<close>


definition example_tlb :: gva_tlb where
  "example_tlb = \<lparr>tlb_owner = 0, base_gva = 0, base_gpa = 0, tlb_size = 0, tlb_perms = 0, tlb_gen = 0\<rparr>"

lemma example_gpa: "0x400000 \<le> a \<Longrightarrow> a < 0x600000 \<Longrightarrow> gva_gpa MEM_PERM_R example_pt a = Some (word_of_nat a)"
proof -
  assume a: "0x400000 \<le> a" "a < 0x600000"
  let ?q = "a div 4096"
  have q: "?q div 512 = 2" "?q div 262144 = 0" "?q div 134217728 = 0" using a by simp_all
  have "?q = 1024 + ?q mod 512" using div_mult_mod_eq [of ?q 512] q(1) by simp
  then have "a = 0x400000 + ?q mod 512 * 4096 + a mod 4096" using div_mult_mod_eq [of a 4096] by linarith
  then have "(word_of_nat a :: u64) = word_of_nat (0x400000 + ?q mod 512 * 4096 + a mod 4096)" by simp
  then have "0x400000 + word_of_nat (?q mod 512) * PAGE_SIZE + word_of_nat (a mod 4096) = (word_of_nat a :: u64)"
    by (simp add: PAGE_SIZE_def)
  then show ?thesis
    using a q by (simp add: gva_gpa_def example_leaf idx_def allowed_def mem_perms)
qed

lemma example_backing_wf [simp]: "backing_wf example_pt"
  by (simp add: backing_wf_def extents_def)

lemma example_host:
  "0x400000 \<le> a \<Longrightarrow> a < 0x600000 \<Longrightarrow> gva_host MEM_PERM_R example_pt a = Some (0x10000000000 + word_of_nat a)"
  by (simp add: gva_host_def example_gpa host_of_def word_less_nat_alt unat_of_nat)


text \<open>
  The edit that is left waiting: two mapped blocks, no table page left. Unmapping the first block and a
  page of the second clears the first block's entry, fails to split the second and returns without a
  move of the counter; a thread that had translated an address of the first block still translates it.
\<close>

definition full_pt :: pt_guest where
  "full_pt = example_pt\<lparr>pt_pool_next := 0x110000,
     pte := (\<lambda>t i. if t = 0x102000 \<and> i = 3 then make_block_desc 0x600000 (MEM_PERM_R OR MEM_PERM_W) else example_pte t i)\<rparr>"

declare invalidate_loop.simps [code]

lemma failed_unmap_leaves_stale_translation:
  "(case gva_translate_perm 1 full_pt 0x400FF0 MEM_PERM_R example_tlb of
      Some (Some (gpa, _), tlb) \<Rightarrow>
        (case guest_invalidate_ptes 0x400000 0x601000 full_pt of
           Some (rc, g') \<Rightarrow> rc = -1 \<and> gpa = 0x400FF0 \<and> pte g' 0x102000 2 = 0
             \<and> map_option fst (gva_translate_perm 1 g' 0x400FF0 MEM_PERM_R tlb) = Some (Some (0x400FF0, 0x1FF010))
             \<and> map_option fst (gva_translate_perm 1 g' 0x400FF0 MEM_PERM_R (guest_tlb_flush tlb)) = Some None
         | None \<Rightarrow> False)
    | _ \<Rightarrow> False)"
  by code_simp

section \<open>Copies\<close>

lemma gva_span_ok_iff: "gva_span_ok gva len \<longleftrightarrow> len \<noteq> 0 \<and> unat gva + unat len < 2 ^ 64"
  using add_no_wrap_le [of gva len] by (simp add: gva_span_ok_def add.commute)

lemma guest_read_spec:
  assumes inv: "pt_inv g" and wf: "backing_wf g" and ok: "tlb_ok self g tlb"
  shows "\<exists>rc bs tlb'. guest_read sigbus mem self g gva False len tlb = Some (rc, bs, tlb') \<and> tlb_ok self g tlb'
    \<and> (rc = 0 \<or> rc = -1)
    \<and> (rc = 0 \<longleftrightarrow> len = 0 \<or> unat gva + unat len < 2 ^ 64
        \<and> (\<forall>i < unat len. \<exists>h. gva_host MEM_PERM_R g (unat gva + i) = Some h \<and> \<not> sigbus h))
    \<and> (rc = 0 \<longrightarrow> bs = map (\<lambda>i. mem (the (gva_host MEM_PERM_R g (unat gva + i)))) [0..<unat len])"
proof (cases "gva_span_ok gva len")
  case False
  then have "guest_read sigbus mem self g gva False len tlb = Some (if len = 0 then 0 else -1, [], tlb)"
    by (simp add: guest_read_def guest_copy_def)
  then show ?thesis using False ok by (auto simp: gva_span_ok_iff)
next
  case True
  then have s: "len \<noteq> 0" "unat gva + unat len < 2 ^ 64" by (auto simp: gva_span_ok_iff)
  let ?host = "\<lambda>i. gva_host MEM_PERM_R g (unat gva + i)"
  have "guest_read sigbus mem self g gva False len tlb =
      copy_loop self g (read_move sigbus mem) gva len MEM_PERM_R 0 (bytes_at mem ?host (unat 0)) tlb"
    using True s(1) by (simp add: guest_read_def guest_copy_def bytes_at_def)
  moreover obtain rc bs tlb' where
    "copy_loop self g (read_move sigbus mem) gva len MEM_PERM_R 0 (bytes_at mem ?host (unat 0)) tlb = Some (rc, bs, tlb')"
    "tlb_ok self g tlb'"
    "rc = 0 \<and> bs = bytes_at mem ?host (unat len) \<and> (\<forall>i < unat len. \<exists>h. ?host i = Some h \<and> \<not> sigbus h)
      \<or> rc = -1 \<and> True \<and> (\<exists>i < unat len. \<forall>h. ?host i = Some h \<longrightarrow> sigbus h)"
    using reading.copy_loop_spec [OF inv wf refl order.refl s(2) ok, where req = MEM_PERM_R and copied = 0 and sigbus = sigbus and mem = mem]
    by auto
  ultimately show ?thesis using s by (auto simp: bytes_at_def)
qed

text \<open>
  C7. Reading guest memory always returns, and succeeds exactly when the span does not wrap, every
  byte of it is readable by the guest and none faults on the host; the bytes are then the ones at the
  host addresses behind the guest addresses, in order, across page, block and backing boundaries.
\<close>

theorem guest_read_exact:
  assumes inv: "pt_inv g" and wf: "backing_wf g" and ok: "tlb_ok self g tlb"
  shows "\<exists>rc bs tlb'. guest_read sigbus mem self g gva False len tlb = Some (rc, bs, tlb') \<and> tlb_ok self g tlb'
    \<and> (rc = 0 \<or> rc = -1)
    \<and> (rc = 0 \<longleftrightarrow> len = 0 \<or> unat gva + unat len < 2 ^ 64
        \<and> (\<forall>i < unat len. \<exists>h. gva_host MEM_PERM_R g (unat gva + i) = Some h \<and> \<not> sigbus h))
    \<and> (rc = 0 \<longrightarrow> bs = map (\<lambda>i. mem (the (gva_host MEM_PERM_R g (unat gva + i)))) [0..<unat len])"
  by (rule guest_read_spec [OF inv wf ok])

theorem guest_read_exact_witness:
  "\<exists>bs tlb'. guest_read (\<lambda>_. False) (\<lambda>a. word_of_nat (unat a div 16)) 1 example_pt 0x400FF0 False 0x20 example_tlb
     = Some (0, bs, tlb') \<and> length bs = 0x20 \<and> bs ! 0x10 = 0"
proof -
  have ok: "tlb_ok 1 example_pt example_tlb" by (simp add: tlb_ok_def example_tlb_def)
  have h: "gva_host MEM_PERM_R example_pt (unat (0x400FF0 :: u64) + i) = Some (0x10000000000 + word_of_nat (0x400FF0 + i))"
    if "i < 0x20" for i
    using example_host [of "0x400FF0 + i"] that by simp
  from guest_read_exact [OF example_pt_inv example_backing_wf ok, of "\<lambda>_. False" "\<lambda>a. word_of_nat (unat a div 16)"
        "0x400FF0" "0x20"] h obtain bs tlb' where
    "guest_read (\<lambda>_. False) (\<lambda>a. word_of_nat (unat a div 16)) 1 example_pt 0x400FF0 False 0x20 example_tlb = Some (0, bs, tlb')"
    "bs = map (\<lambda>i. word_of_nat (unat (the (gva_host MEM_PERM_R example_pt (unat (0x400FF0 :: u64) + i))) div 16)) [0..<0x20]"
    by auto
  moreover have "bs ! 0x10 = 0" using calculation(2) h [of "0x10"] by simp
  ultimately show ?thesis by auto
qed

lemma guest_write_spec:
  assumes inv: "pt_inv g" and wf: "backing_wf g" and ok: "tlb_ok self g tlb"
    and torn: "torn_local torn" and len: "length src < 2 ^ 64"
  shows "\<exists>rc mem' tlb'. guest_write sigbus torn self g gva src False mem tlb = Some (rc, mem', tlb') \<and> tlb_ok self g tlb'
    \<and> (rc = 0 \<or> rc = -1)
    \<and> (rc = 0 \<longleftrightarrow> src = [] \<or> unat gva + length src < 2 ^ 64
        \<and> (\<forall>i < length src. \<exists>h. gva_host MEM_PERM_W g (unat gva + i) = Some h \<and> \<not> sigbus h))
    \<and> (rc = 0 \<longrightarrow> mem' = stored mem src (\<lambda>i. gva_host MEM_PERM_W g (unat gva + i)) (length src))
    \<and> (\<forall>a. (\<forall>i < length src. gva_host MEM_PERM_W g (unat gva + i) \<noteq> Some a) \<longrightarrow> mem' a = mem a)"
proof -
  let ?n = "word_of_nat (length src) :: u64"
  have n: "unat ?n = length src" using len by (simp add: unat_of_nat)
  have n0: "?n = 0 \<longleftrightarrow> src = []" using n by (metis length_0_conv unat_eq_zero)
  show ?thesis
  proof (cases "gva_span_ok gva ?n")
    case False
    then have "guest_write sigbus torn self g gva src False mem tlb = Some (if ?n = 0 then 0 else -1, mem, tlb)"
      by (simp add: guest_write_def guest_copy_def)
    then show ?thesis using False ok n n0 by (auto simp: gva_span_ok_iff stored_def)
  next
    case True
    then have s: "?n \<noteq> 0" "unat gva + unat ?n < 2 ^ 64" by (auto simp: gva_span_ok_iff)
    let ?host = "\<lambda>i. gva_host MEM_PERM_W g (unat gva + i)"
    have eq: "guest_write sigbus torn self g gva src False mem tlb =
        copy_loop self g (write_move sigbus torn src) gva ?n MEM_PERM_W 0 (stored mem src ?host (unat 0)) tlb"
      using True s(1) by (simp add: guest_write_def guest_copy_def stored_def)
    obtain rc mem' tlb' where
      r: "copy_loop self g (write_move sigbus torn src) gva ?n MEM_PERM_W 0 (stored mem src ?host (unat 0)) tlb
        = Some (rc, mem', tlb')" "tlb_ok self g tlb'"
      "rc = 0 \<and> mem' = stored mem src ?host (unat ?n) \<and> (\<forall>i < unat ?n. \<exists>h. ?host i = Some h \<and> \<not> sigbus h)
        \<or> rc = -1 \<and> outside_same mem ?host (length src) mem' \<and> (\<exists>i < unat ?n. \<forall>h. ?host i = Some h \<longrightarrow> sigbus h)"
      using copy_direction.copy_loop_spec [OF writing_direction [OF torn len, where host = ?host and mem = mem and sigbus = sigbus] inv wf refl _ s(2) ok, of 0]
        n by auto
    have "outside_same mem ?host (length src) mem'" using r(3) stored_outside_same [of "length src" "length src"] n by auto
    then show ?thesis using eq r s n n0 by (auto simp: outside_same_def)
  qed
qed

text \<open>
  C18. Writing guest memory always returns, and succeeds exactly when the span does not wrap, every
  byte of it is writable by the guest and none faults on the host; the bytes are then stored at the
  host addresses behind the guest addresses, in order. Even a write that fails part way changes no
  host byte other than those behind the span.
\<close>

theorem guest_write_exact:
  assumes inv: "pt_inv g" and wf: "backing_wf g" and ok: "tlb_ok self g tlb"
    and torn: "torn_local torn" and len: "length src < 2 ^ 64"
  shows "\<exists>rc mem' tlb'. guest_write sigbus torn self g gva src False mem tlb = Some (rc, mem', tlb') \<and> tlb_ok self g tlb'
    \<and> (rc = 0 \<or> rc = -1)
    \<and> (rc = 0 \<longleftrightarrow> src = [] \<or> unat gva + length src < 2 ^ 64
        \<and> (\<forall>i < length src. \<exists>h. gva_host MEM_PERM_W g (unat gva + i) = Some h \<and> \<not> sigbus h))
    \<and> (rc = 0 \<longrightarrow> mem' = stored mem src (\<lambda>i. gva_host MEM_PERM_W g (unat gva + i)) (length src))
    \<and> (\<forall>a. (\<forall>i < length src. gva_host MEM_PERM_W g (unat gva + i) \<noteq> Some a) \<longrightarrow> mem' a = mem a)"
  by (rule guest_write_spec [OF inv wf ok torn len])

theorem guest_write_exact_witness:
  "\<exists>mem' tlb'. guest_write (\<lambda>_. False) (\<lambda>m p b. m) 1 example_pt 0x400FFF [7, 9] False (\<lambda>_. 0) example_tlb
     = Some (0, mem', tlb') \<and> mem' 0x10000401000 = 9 \<and> mem' 0x10000401001 = 0"
proof -
  have ok: "tlb_ok 1 example_pt example_tlb" by (simp add: tlb_ok_def example_tlb_def)
  have torn: "torn_local (\<lambda>m p b. m)" by (simp add: torn_local_def)
  have len: "length [7, 9 :: u8] < 2 ^ 64" by simp
  have g: "gva_host MEM_PERM_W example_pt a = Some (0x10000000000 + word_of_nat a)" if "a = 0x400FFF \<or> a = 0x401000" for a
    using that by (auto simp: gva_host_def gva_gpa_def example_leaf idx_def allowed_def mem_perms PAGE_SIZE_def host_of_def)
  then have h: "gva_host MEM_PERM_W example_pt (unat (0x400FFF :: u64) + i) = Some (0x10000000000 + word_of_nat (0x400FFF + i))"
    if "i < 2" for i using that by (auto simp: less_2_cases_iff)
  have st: "stored (\<lambda>_. 0) [7, 9] (\<lambda>i. gva_host MEM_PERM_W example_pt (unat (0x400FFF :: u64) + i)) 2 =
      (\<lambda>_. 0)(0x10000400FFF := 7, 0x10000401000 := 9)"
    using h [of 0] h [of 1] by (simp add: stored_def store_byte_def upt_rec)
  have all: "\<forall>i < length [7, 9 :: u8]. \<exists>h. gva_host MEM_PERM_W example_pt (unat (0x400FFF :: u64) + i) = Some h \<and> \<not> False"
    using h by (auto simp: numeral_2_eq_2)
  from guest_write_exact [OF example_pt_inv example_backing_wf ok torn len, of "\<lambda>_. False" "0x400FFF" "\<lambda>_. 0"]
  obtain rc mem' tlb' where
    r: "guest_write (\<lambda>_. False) (\<lambda>m p b. m) 1 example_pt 0x400FFF [7, 9] False (\<lambda>_. 0) example_tlb = Some (rc, mem', tlb')"
    "rc = 0" "mem' = stored (\<lambda>_. 0) [7, 9] (\<lambda>i. gva_host MEM_PERM_W example_pt (unat (0x400FFF :: u64) + i)) (length [7, 9 :: u8])"
    using all by fastforce
  then have "mem' = (\<lambda>_. 0)(0x10000400FFF := 7, 0x10000401000 := 9)" using st by (simp add: numeral_2_eq_2)
  then show ?thesis using r(1,2) by simp
qed

end
