(* ===== verification/Guest_Small.thy ===== *)
theory Guest_Small
  imports Guest_Access_Theorems
begin

text \<open>
  The remaining accessors to guest memory of \<^verbatim>\<open>src/src/core/guest.c\<close>: the single-window fast paths
  \<^verbatim>\<open>guest_read_small\<close> and \<^verbatim>\<open>guest_write_small\<close>, the partial write that reports how far it got, and the
  reads of C strings. The fast paths are shown to agree with the general ones.
\<close>

section \<open>Fast paths\<close>

definition guest_read_small ::
  "(u64 \<Rightarrow> bool) \<Rightarrow> host_mem \<Rightarrow> nat \<Rightarrow> 'a pt_guest_scheme \<Rightarrow> u64 \<Rightarrow> u64 \<Rightarrow> gva_tlb \<Rightarrow> (int \<times> u8 list \<times> gva_tlb) option" where
  "guest_read_small sigbus mem self g gva len tlb =
     do {
       (r, tlb1) \<leftarrow> gva_resolve_perm self g gva True MEM_PERM_R len tlb;
       (case r of
          Some (src, avail) \<Rightarrow>
            if avail \<ge> len
            then (case read_move sigbus mem src 0 len [] of
                    Inl dst \<Rightarrow> Some (-1, dst, tlb1) | Inr dst \<Rightarrow> Some (0, dst, tlb1))
            else guest_read sigbus mem self g gva False len tlb1
        | None \<Rightarrow> guest_read sigbus mem self g gva False len tlb1)
     }"

definition guest_write_small ::
  "(u64 \<Rightarrow> bool) \<Rightarrow> (host_mem \<Rightarrow> u64 \<Rightarrow> u8 list \<Rightarrow> host_mem) \<Rightarrow> nat \<Rightarrow> 'a pt_guest_scheme \<Rightarrow> u64 \<Rightarrow> u8 list
   \<Rightarrow> host_mem \<Rightarrow> gva_tlb \<Rightarrow> (int \<times> host_mem \<times> gva_tlb) option" where
  "guest_write_small sigbus torn self g gva src mem tlb =
     (let len = word_of_nat (length src) in
      do {
        (r, tlb1) \<leftarrow> gva_resolve_perm self g gva True MEM_PERM_W len tlb;
        (case r of
           Some (dst, avail) \<Rightarrow>
             if avail \<ge> len
             then (case write_move sigbus torn src dst 0 len mem of
                     Inl mem' \<Rightarrow> Some (-1, mem', tlb1) | Inr mem' \<Rightarrow> Some (0, mem', tlb1))
             else guest_write sigbus torn self g gva src False mem tlb1
         | None \<Rightarrow> guest_write sigbus torn self g gva src False mem tlb1)
      })"

section \<open>Strings\<close>

text \<open>
  \<^verbatim>\<open>memchr\<close> for the NUL byte: it reads in order and stops at the first match, so a host fault counts
  only before that. The result is the offset of the NUL and whether it faulted.
\<close>

definition guest_host_memchr :: "(u64 \<Rightarrow> bool) \<Rightarrow> host_mem \<Rightarrow> u64 \<Rightarrow> u64 \<Rightarrow> nat option \<times> bool" where
  "guest_host_memchr sigbus mem src len =
     (case find (\<lambda>i. sigbus (src + word_of_nat i) \<or> mem (src + word_of_nat i) = 0) [0..<unat len] of
        None \<Rightarrow> (None, False)
      | Some i \<Rightarrow> if sigbus (src + word_of_nat i) then (None, True) else (Some i, False))"

text \<open>The return value is a \<^verbatim>\<open>size_t\<close> cast to \<^verbatim>\<open>int\<close>.\<close>

definition int_of_size :: "u64 \<Rightarrow> int" where
  "int_of_size n = sint (ucast n :: u32)"

partial_function (option) read_str_loop ::
  "(u64 \<Rightarrow> bool) \<Rightarrow> host_mem \<Rightarrow> nat \<Rightarrow> 'a pt_guest_scheme \<Rightarrow> u64 \<Rightarrow> u64 \<Rightarrow> u64 \<Rightarrow> u8 list \<Rightarrow> gva_tlb
   \<Rightarrow> (int \<times> u8 list \<times> gva_tlb) option" where
  "read_str_loop sigbus mem self g gva limit copied dst tlb =
     (if copied < limit then
        if gva > UINT64_MAX - copied then Some (-1, dst @ [0], tlb)
        else do {
          (r, tlb1) \<leftarrow> gva_resolve_perm self g (gva + copied) True MEM_PERM_R (limit - copied) tlb;
          (case r of
             None \<Rightarrow> Some (-1, dst @ [0], tlb1)
           | Some (src, avail) \<Rightarrow>
               let remain = limit - copied; chunk = (if avail < remain then avail else remain) in
               let (nul, faulted) = guest_host_memchr sigbus mem src chunk in
               if faulted then Some (-2, dst @ [0], tlb1)
               else case nul of
                      Some slen \<Rightarrow>
                        (case read_move sigbus mem src copied (word_of_nat slen + 1) dst of
                           Inl _ \<Rightarrow> Some (-2, dst @ [0], tlb1)
                         | Inr dst' \<Rightarrow> Some (int_of_size (copied + word_of_nat slen), dst', tlb1))
                    | None \<Rightarrow>
                        (case read_move sigbus mem src copied chunk dst of
                           Inl _ \<Rightarrow> Some (-2, dst @ [0], tlb1)
                         | Inr dst' \<Rightarrow> read_str_loop sigbus mem self g gva limit (copied + chunk) dst' tlb1))
        }
      else Some (-1, dst @ [0], tlb))"

definition guest_read_str ::
  "(u64 \<Rightarrow> bool) \<Rightarrow> host_mem \<Rightarrow> nat \<Rightarrow> 'a pt_guest_scheme \<Rightarrow> u64 \<Rightarrow> u64 \<Rightarrow> gva_tlb \<Rightarrow> (int \<times> u8 list \<times> gva_tlb) option" where
  "guest_read_str sigbus mem self g gva maxlen tlb =
     (if maxlen = 0 then Some (-1, [], tlb)
      else read_str_loop sigbus mem self g gva (maxlen - 1) 0 [] tlb)"

definition guest_read_str_small ::
  "(u64 \<Rightarrow> bool) \<Rightarrow> host_mem \<Rightarrow> nat \<Rightarrow> 'a pt_guest_scheme \<Rightarrow> u64 \<Rightarrow> u64 \<Rightarrow> gva_tlb \<Rightarrow> (int \<times> u8 list \<times> gva_tlb) option" where
  "guest_read_str_small sigbus mem self g gva maxlen tlb =
     (if maxlen = 0 then Some (-1, [], tlb)
      else let limit = maxlen - 1 in
      do {
        (r, tlb1) \<leftarrow> gva_resolve_perm self g gva True MEM_PERM_R limit tlb;
        (case r of
           Some (src, avail) \<Rightarrow>
             if avail \<ge> limit
             then let (nul, faulted) = guest_host_memchr sigbus mem src limit in
                  (case nul of
                     Some slen \<Rightarrow>
                       (case read_move sigbus mem src 0 (word_of_nat slen + 1) [] of
                          Inl _ \<Rightarrow> Some (-2, [0], tlb1)
                        | Inr dst \<Rightarrow> Some (int_of_size (word_of_nat slen), dst, tlb1))
                   | None \<Rightarrow> if faulted then Some (-2, [0], tlb1)
                             else guest_read_str sigbus mem self g gva maxlen tlb1)
             else guest_read_str sigbus mem self g gva maxlen tlb1
         | None \<Rightarrow> guest_read_str sigbus mem self g gva maxlen tlb1)
      })"

section \<open>Partial writes\<close>

text \<open>
  One step of \<^verbatim>\<open>guest_host_copy_partial\<close> ends at the next page boundary of either side. A step that
  faults leaves the count at its start; \<open>torn\<close> is the memory then.
\<close>

definition copy_unit :: "u64 \<Rightarrow> u64 \<Rightarrow> u64 \<Rightarrow> u64 \<Rightarrow> u64" where
  "copy_unit d s dn len =
     (let to_d = GUEST_PAGE_SIZE - ((d + dn) AND (GUEST_PAGE_SIZE - 1));
          to_s = GUEST_PAGE_SIZE - ((s + dn) AND (GUEST_PAGE_SIZE - 1));
          unit = (if to_d < to_s then to_d else to_s)
      in if unit > len - dn then len - dn else unit)"

lemma page_offset_bound: "(x :: u64) AND (GUEST_PAGE_SIZE - 1) < GUEST_PAGE_SIZE"
proof -
  have "x AND (GUEST_PAGE_SIZE - 1) \<le> GUEST_PAGE_SIZE - 1" by (rule word_and_le1)
  moreover have "GUEST_PAGE_SIZE - 1 < GUEST_PAGE_SIZE" by (simp add: GUEST_PAGE_SIZE_def)
  ultimately show ?thesis by (rule le_less_trans)
qed

lemma to_page_end: "GUEST_PAGE_SIZE - ((x :: u64) AND (GUEST_PAGE_SIZE - 1)) \<noteq> 0"
  using page_offset_bound [of x] by auto

lemma copy_unit_bounds: "dn < len \<Longrightarrow> copy_unit d s dn len \<noteq> 0 \<and> copy_unit d s dn len \<le> len - dn"
  using to_page_end [of "d + dn"] to_page_end [of "s + dn"] by (auto simp: copy_unit_def Let_def not_less)

lemma copy_unit_advances:
  assumes "dn < len"
  shows "unat (dn + copy_unit d s dn len) = unat dn + unat (copy_unit d s dn len)"
    and "dn + copy_unit d s dn len \<le> len" "unat dn < unat (dn + copy_unit d s dn len)"
proof -
  have u: "unat (copy_unit d s dn len) \<le> unat len - unat dn" "copy_unit d s dn len \<noteq> 0"
    using copy_unit_bounds [OF assms, of d s] by (auto simp: word_le_nat_alt unat_sub [OF less_imp_le [OF assms]])
  have l: "unat dn < unat len" using assms by (simp add: word_less_nat_alt)
  show a: "unat (dn + copy_unit d s dn len) = unat dn + unat (copy_unit d s dn len)"
    using u l u64_unat_less [of len] by (intro extent_sum) linarith
  show "dn + copy_unit d s dn len \<le> len" using a u l by (simp add: word_le_nat_alt)
  show "unat dn < unat (dn + copy_unit d s dn len)" using a u(2) by (simp add: unat_gt_0)
qed

function copy_partial_loop ::
  "(u64 \<Rightarrow> bool) \<Rightarrow> (host_mem \<Rightarrow> u64 \<Rightarrow> u8 list \<Rightarrow> host_mem) \<Rightarrow> u64 \<Rightarrow> u64 \<Rightarrow> u64 \<Rightarrow> u64 \<Rightarrow> host_mem \<Rightarrow> u64 \<times> host_mem" where
  "copy_partial_loop sigbus torn d s len dn mem =
     (if dn < len then
        let unit = copy_unit d s dn len;
            bytes = map (\<lambda>i. mem (s + dn + word_of_nat i)) [0..<unat unit] in
        if host_faults sigbus (s + dn) unit then (dn, torn mem (d + dn) bytes)
        else case write_move sigbus torn bytes (d + dn) 0 unit mem of
               Inl mem' \<Rightarrow> (dn, mem')
             | Inr mem' \<Rightarrow> copy_partial_loop sigbus torn d s len (dn + unit) mem'
      else (dn, mem))"
  by auto
termination
proof (relation "measure (\<lambda>(_, _, _, _, len, dn, _). unat len - unat dn)", goal_cases)
  case (2 sigbus torn d s len dn mem unit bytes mem')
  then have "unat dn < unat (dn + unit)" "unat dn < unat len"
    using copy_unit_advances(3) [of dn len d s] by (auto simp: word_less_nat_alt)
  then show ?case by simp
qed simp

declare copy_partial_loop.simps [simp del]

definition guest_host_copy_partial ::
  "(u64 \<Rightarrow> bool) \<Rightarrow> (host_mem \<Rightarrow> u64 \<Rightarrow> u8 list \<Rightarrow> host_mem) \<Rightarrow> u64 \<Rightarrow> u64 \<Rightarrow> u64 \<Rightarrow> host_mem \<Rightarrow> u64 \<times> host_mem" where
  "guest_host_copy_partial sigbus torn d s len mem = copy_partial_loop sigbus torn d s len 0 mem"

partial_function (option) write_partial_loop ::
  "(u64 \<Rightarrow> bool) \<Rightarrow> (host_mem \<Rightarrow> u64 \<Rightarrow> u8 list \<Rightarrow> host_mem) \<Rightarrow> nat \<Rightarrow> 'a pt_guest_scheme \<Rightarrow> u64 \<Rightarrow> u64 \<Rightarrow> u64 \<Rightarrow> u64
   \<Rightarrow> host_mem \<Rightarrow> gva_tlb \<Rightarrow> (u64 \<times> host_mem \<times> gva_tlb) option" where
  "write_partial_loop sigbus torn self g gva src len dn mem tlb =
     (if dn < len then
        do {
          (r, tlb1) \<leftarrow> gva_resolve_perm self g (gva + dn) True MEM_PERM_W (len - dn) tlb;
          (case r of
             None \<Rightarrow> Some (dn, mem, tlb1)
           | Some (dst, avail) \<Rightarrow>
               let chunk = (if len - dn > avail then avail else len - dn);
                   (moved, mem') = guest_host_copy_partial sigbus torn dst (src + dn) chunk mem
               in if moved < chunk then Some (dn + moved, mem', tlb1)
                  else write_partial_loop sigbus torn self g gva src len (dn + moved) mem' tlb1)
        }
      else Some (dn, mem, tlb))"

definition guest_write_partial ::
  "(u64 \<Rightarrow> bool) \<Rightarrow> (host_mem \<Rightarrow> u64 \<Rightarrow> u8 list \<Rightarrow> host_mem) \<Rightarrow> nat \<Rightarrow> 'a pt_guest_scheme \<Rightarrow> u64 \<Rightarrow> u64 \<Rightarrow> u64
   \<Rightarrow> host_mem \<Rightarrow> gva_tlb \<Rightarrow> (u64 \<times> host_mem \<times> gva_tlb) option" where
  "guest_write_partial sigbus torn self g gva src len mem tlb =
     write_partial_loop sigbus torn self g gva src len 0 mem tlb"

section \<open>The fast paths agree with the general ones\<close>

definition reads :: "(u64 \<Rightarrow> bool) \<Rightarrow> host_mem \<Rightarrow> 'a pt_guest_scheme \<Rightarrow> u64 \<Rightarrow> u64 \<Rightarrow> int \<Rightarrow> u8 list \<Rightarrow> bool" where
  "reads sigbus mem g gva len rc bs \<longleftrightarrow> (rc = 0 \<or> rc = -1)
    \<and> (rc = 0 \<longleftrightarrow> len = 0 \<or> unat gva + unat len < 2 ^ 64
        \<and> (\<forall>i < unat len. \<exists>h. gva_host MEM_PERM_R g (unat gva + i) = Some h \<and> \<not> sigbus h))
    \<and> (rc = 0 \<longrightarrow> bs = map (\<lambda>i. mem (the (gva_host MEM_PERM_R g (unat gva + i)))) [0..<unat len])"

definition writes :: "(u64 \<Rightarrow> bool) \<Rightarrow> host_mem \<Rightarrow> 'a pt_guest_scheme \<Rightarrow> u64 \<Rightarrow> u8 list \<Rightarrow> int \<Rightarrow> host_mem \<Rightarrow> bool" where
  "writes sigbus mem g gva src rc mem' \<longleftrightarrow> (rc = 0 \<or> rc = -1)
    \<and> (rc = 0 \<longleftrightarrow> src = [] \<or> unat gva + length src < 2 ^ 64
        \<and> (\<forall>i < length src. \<exists>h. gva_host MEM_PERM_W g (unat gva + i) = Some h \<and> \<not> sigbus h))
    \<and> (rc = 0 \<longrightarrow> mem' = stored mem src (\<lambda>i. gva_host MEM_PERM_W g (unat gva + i)) (length src))
    \<and> (\<forall>a. (\<forall>i < length src. gva_host MEM_PERM_W g (unat gva + i) \<noteq> Some a) \<longrightarrow> mem' a = mem a)"

lemma gva_host_bound: "gva_host req g a = Some h \<Longrightarrow> a < 2 ^ 48"
  by (auto simp: gva_host_def gva_gpa_def split: if_splits)

lemma gva_resolve_total:
  assumes "pt_inv g" "backing_wf g" "tlb_ok self g tlb"
  shows "\<exists>r tlb'. gva_resolve_perm self g gva True req limit tlb = Some (r, tlb') \<and> tlb_ok self g tlb'
    \<and> (limit \<noteq> 0 \<longrightarrow> resolves req g gva limit r)"
proof (cases "limit = 0")
  case False
  then show ?thesis using gva_resolve_spec [OF assms, of limit] by blast
next
  case True
  obtain res tlb1 where t: "gva_translate_perm self g gva req tlb = Some (res, tlb1)" "tlb_ok self g tlb1"
    using gva_translate_spec [OF assms(1,3)] by blast
  then show ?thesis
    using True by (auto simp: gva_resolve_perm_def gva_contiguous_avail_def Let_def split: option.split)
qed

lemma window_host:
  assumes "resolves req g gva len (Some (ptr, avail))" "len \<noteq> 0" "avail \<ge> len"
  shows "\<forall>i < unat len. gva_host req g (unat gva + i) = Some (ptr + word_of_nat i)" "unat gva + unat len < 2 ^ 64"
proof -
  have "avail = len" using assms by (auto simp: resolves_def)
  then show h: "\<forall>i < unat len. gva_host req g (unat gva + i) = Some (ptr + word_of_nat i)"
    using assms(1) by (simp add: resolves_def)
  have "unat len - 1 < unat len" using assms(2) by (simp add: unat_gt_0)
  then have "unat gva + (unat len - 1) < 2 ^ 48" using h gva_host_bound by blast
  then show "unat gva + unat len < 2 ^ 64" by simp
qed

lemma guest_read_small_spec:
  assumes inv: "pt_inv g" and wf: "backing_wf g" and ok: "tlb_ok self g tlb"
  shows "\<exists>rc bs tlb'. guest_read_small sigbus mem self g gva len tlb = Some (rc, bs, tlb') \<and> tlb_ok self g tlb'
    \<and> reads sigbus mem g gva len rc bs"
proof -
  obtain r tlb1 where r: "gva_resolve_perm self g gva True MEM_PERM_R len tlb = Some (r, tlb1)" "tlb_ok self g tlb1"
    "len \<noteq> 0 \<longrightarrow> resolves MEM_PERM_R g gva len r" using gva_resolve_total [OF assms] by blast
  have slow: "\<exists>rc bs tlb'. guest_read sigbus mem self g gva False len tlb1 = Some (rc, bs, tlb') \<and> tlb_ok self g tlb'
    \<and> reads sigbus mem g gva len rc bs"
    unfolding reads_def by (rule guest_read_spec [OF inv wf r(2)])
  consider (slow) "\<forall>src avail. r = Some (src, avail) \<longrightarrow> \<not> avail \<ge> len" | (empty) src avail where "r = Some (src, avail)" "len = 0"
    | (fast) src avail where "r = Some (src, avail)" "avail \<ge> len" "len \<noteq> 0" by blast
  then show ?thesis
  proof cases
    case slow
    then show ?thesis using \<open>\<exists>rc bs tlb'. _ \<and> _ \<and> _\<close> r(1) by (auto simp: guest_read_small_def split: option.split)
  next
    case empty
    then show ?thesis using r by (simp add: guest_read_small_def read_move_def host_faults_def reads_def)
  next
    case fast
    note w = window_host [OF r(3) [rule_format, OF fast(3), unfolded fast(1)] fast(3,2)]
    show ?thesis
      using r(1,2) fast w by (auto simp: guest_read_small_def read_move_def host_faults_iff reads_def)
  qed
qed

lemma guest_write_small_spec:
  assumes inv: "pt_inv g" and wf: "backing_wf g" and ok: "tlb_ok self g tlb"
    and torn: "torn_local torn" and len: "length src < 2 ^ 64"
  shows "\<exists>rc mem' tlb'. guest_write_small sigbus torn self g gva src mem tlb = Some (rc, mem', tlb') \<and> tlb_ok self g tlb'
    \<and> writes sigbus mem g gva src rc mem'"
proof -
  let ?n = "word_of_nat (length src) :: u64" and ?host = "\<lambda>i. gva_host MEM_PERM_W g (unat gva + i)"
  have n: "unat ?n = length src" using len by (simp add: unat_of_nat)
  obtain r tlb1 where r: "gva_resolve_perm self g gva True MEM_PERM_W ?n tlb = Some (r, tlb1)" "tlb_ok self g tlb1"
    "?n \<noteq> 0 \<longrightarrow> resolves MEM_PERM_W g gva ?n r" using gva_resolve_total [OF inv wf ok] by blast
  have sl: "\<exists>rc mem' tlb'. guest_write sigbus torn self g gva src False mem tlb1 = Some (rc, mem', tlb') \<and> tlb_ok self g tlb'
    \<and> writes sigbus mem g gva src rc mem'"
    unfolding writes_def by (rule guest_write_spec [OF inv wf r(2) torn len])
  consider (slow) "\<forall>dst avail. r = Some (dst, avail) \<longrightarrow> \<not> avail \<ge> ?n" | (empty) dst avail where "r = Some (dst, avail)" "?n = 0"
    | (fast) dst avail where "r = Some (dst, avail)" "avail \<ge> ?n" "?n \<noteq> 0" by blast
  then show ?thesis
  proof cases
    case slow
    then show ?thesis using sl r(1) by (auto simp: guest_write_small_def Let_def split: option.split)
  next
    case empty
    then have "src = []" using n by simp
    then show ?thesis
      using r empty by (simp add: guest_write_small_def Let_def write_move_def host_faults_def writes_def stored_def)
  next
    case fast
    note w = window_host [OF r(3) [rule_format, OF fast(3), unfolded fast(1)] fast(3,2), unfolded n]
    note dir = writing_direction [OF torn len, where host = ?host and mem = mem and sigbus = sigbus]
    have eq: "guest_write_small sigbus torn self g gva src mem tlb =
        (case write_move sigbus torn src dst 0 ?n (stored mem src ?host 0) of
           Inl mem' \<Rightarrow> Some (-1, mem', tlb1) | Inr mem' \<Rightarrow> Some (0, mem', tlb1))"
      using r(1) fast by (simp add: guest_write_small_def Let_def stored_def)
    show ?thesis
    proof (cases "\<exists>i < length src. sigbus (dst + word_of_nat i)")
      case True
      then obtain i where "i < length src" "sigbus (dst + word_of_nat i)" by blast
      with copy_direction.move_fault [OF dir, of 0 ?n dst i] obtain s' where
        "write_move sigbus torn src dst 0 ?n (stored mem src ?host 0) = Inl s'" "outside_same mem ?host (length src) s'"
        using w n by auto
      then show ?thesis using eq r(2) w True by (auto simp: writes_def outside_same_def)
    next
      case False
      then have "write_move sigbus torn src dst 0 ?n (stored mem src ?host 0) = Inr (stored mem src ?host (length src))"
        using copy_direction.move_all [OF dir, of 0 ?n dst] w n by simp
      moreover have "outside_same mem ?host (length src) (stored mem src ?host (length src))"
        by (rule stored_outside_same) simp
      ultimately show ?thesis using eq r(2) w False by (auto simp: writes_def outside_same_def)
    qed
  qed
qed

section \<open>String reads\<close>

text \<open>
  Where the scan of a string stops: at a byte the guest may not read, at one that faults on the host,
  or at the NUL. The code the read answers is determined by the first such byte below the limit.
\<close>

definition str_stop :: "(u64 \<Rightarrow> bool) \<Rightarrow> host_mem \<Rightarrow> 'a pt_guest_scheme \<Rightarrow> nat \<Rightarrow> bool" where
  "str_stop sigbus mem g a \<longleftrightarrow>
     (case gva_host MEM_PERM_R g a of None \<Rightarrow> True | Some h \<Rightarrow> sigbus h \<or> mem h = 0)"

definition str_rc :: "(u64 \<Rightarrow> bool) \<Rightarrow> host_mem \<Rightarrow> 'a pt_guest_scheme \<Rightarrow> nat \<Rightarrow> nat \<Rightarrow> int" where
  "str_rc sigbus mem g a limit =
     (case find (\<lambda>i. str_stop sigbus mem g (a + i)) [0..<limit] of
        None \<Rightarrow> -1
      | Some k \<Rightarrow> (case gva_host MEM_PERM_R g (a + k) of
                     None \<Rightarrow> -1
                   | Some h \<Rightarrow> if sigbus h then -2 else int k))"

lemma find_upt_Some: "\<lbrakk>P k; \<forall>i < k. \<not> P i; k < n\<rbrakk> \<Longrightarrow> find P [0..<n] = Some k"
  by (auto simp: find_Some_iff intro!: exI [of _ k])

lemma find_upt_SomeD: "find P [0..<n] = Some k \<Longrightarrow> P k \<and> k < n \<and> (\<forall>i < k. \<not> P i)"
  by (auto simp: find_Some_iff)

lemma find_upt_None: "find P [0..<n] = None \<longleftrightarrow> (\<forall>i < n. \<not> P i)"
  by (auto simp: find_None_iff)

lemma str_rc_at:
  "\<lbrakk>str_stop sigbus mem g (a + k); \<forall>i < k. \<not> str_stop sigbus mem g (a + i); k < n\<rbrakk> \<Longrightarrow>
   str_rc sigbus mem g a n = (case gva_host MEM_PERM_R g (a + k) of
      None \<Rightarrow> -1 | Some h \<Rightarrow> if sigbus h then -2 else int k)"
  by (simp add: str_rc_def find_upt_Some [of "\<lambda>i. str_stop sigbus mem g (a + i)" k n])

lemma str_rc_none: "\<forall>i < n. \<not> str_stop sigbus mem g (a + i) \<Longrightarrow> str_rc sigbus mem g a n = -1"
  by (simp add: str_rc_def iffD2 [OF find_upt_None])

lemma int_of_size_small: "unat n < 2 ^ 31 \<Longrightarrow> int_of_size n = int (unat n)"
proof -
  assume n: "unat n < 2 ^ 31"
  have "unat (ucast n :: u32) = unat n"
    using n by (simp add: unsigned_ucast_eq take_bit_nat_eq_self)
  then have u: "uint (ucast n :: u32) = int (unat n)" by (metis int_nat_eq uint_ge_0 unat_eq_nat_uint)
  have "int (unat n) < int (2 ^ 31)" using n by (simp only: of_nat_less_iff)
  then show "int_of_size n = int (unat n)"
    unfolding int_of_size_def sint_uint u by (intro signed_take_bit_int_eq_self) (simp_all add: order_trans [OF _ uint_ge_0])
qed

text \<open>One window of the scan.\<close>

definition window :: "(u64 \<Rightarrow> bool) \<Rightarrow> host_mem \<Rightarrow> 'a pt_guest_scheme \<Rightarrow> nat \<Rightarrow> u64 \<Rightarrow> u64 \<Rightarrow> bool" where
  "window sigbus mem g a ptr chunk \<longleftrightarrow>
     (\<forall>i < unat chunk. gva_host MEM_PERM_R g (a + i) = Some (ptr + word_of_nat i))"

lemma memchr_stop:
  assumes "window sigbus mem g a ptr chunk" "guest_host_memchr sigbus mem ptr chunk = (nul, faulted)"
  shows "faulted \<Longrightarrow> \<exists>k < unat chunk. str_stop sigbus mem g (a + k) \<and> (\<forall>i < k. \<not> str_stop sigbus mem g (a + i))
          \<and> sigbus (ptr + word_of_nat k)"
    and "nul = Some k \<Longrightarrow> \<not> faulted \<and> k < unat chunk \<and> str_stop sigbus mem g (a + k)
          \<and> (\<forall>i < k. \<not> str_stop sigbus mem g (a + i)) \<and> (\<forall>i < Suc k. \<not> sigbus (ptr + word_of_nat i))"
    and "nul = None \<Longrightarrow> \<not> faulted \<Longrightarrow> \<forall>i < unat chunk. \<not> str_stop sigbus mem g (a + i) \<and> \<not> sigbus (ptr + word_of_nat i)"
proof -
  let ?P = "\<lambda>i. sigbus (ptr + word_of_nat i) \<or> mem (ptr + word_of_nat i) = 0"
  have s: "i < unat chunk \<Longrightarrow> str_stop sigbus mem g (a + i) \<longleftrightarrow> ?P i" for i
    using assms(1) by (simp add: window_def str_stop_def)
  show "\<exists>k < unat chunk. str_stop sigbus mem g (a + k) \<and> (\<forall>i < k. \<not> str_stop sigbus mem g (a + i))
          \<and> sigbus (ptr + word_of_nat k)" if "faulted"
    using that assms(2) s
    by (auto simp: guest_host_memchr_def dest!: find_upt_SomeD split: option.splits if_splits intro!: exI)
  show "\<not> faulted \<and> k < unat chunk \<and> str_stop sigbus mem g (a + k)
          \<and> (\<forall>i < k. \<not> str_stop sigbus mem g (a + i)) \<and> (\<forall>i < Suc k. \<not> sigbus (ptr + word_of_nat i))" if "nul = Some k"
    using that assms(2) s
    by (auto simp: guest_host_memchr_def less_Suc_eq dest!: find_upt_SomeD split: option.splits if_splits)
  show "\<forall>i < unat chunk. \<not> str_stop sigbus mem g (a + i) \<and> \<not> sigbus (ptr + word_of_nat i)" if "nul = None" "\<not> faulted"
    using that assms(2) s by (auto simp: guest_host_memchr_def find_upt_None split: option.splits if_splits)
qed

lemma window_take: "window sigbus mem g a ptr chunk \<Longrightarrow> unat m \<le> unat chunk \<Longrightarrow> window sigbus mem g a ptr m"
  by (auto simp: window_def)

lemma window_read:
  assumes "window sigbus mem g (a + unat copied) ptr m" "\<forall>i < unat m. \<not> sigbus (ptr + word_of_nat i)"
  shows "read_move sigbus mem ptr copied m (bytes_at mem (\<lambda>i. gva_host MEM_PERM_R g (a + i)) (unat copied)) =
    Inr (bytes_at mem (\<lambda>i. gva_host MEM_PERM_R g (a + i)) (unat copied + unat m))"
  using assms by (intro reading.move_all [where n = "unat copied + unat m"]) (auto simp: window_def add.assoc)

lemma str_rc_from:
  assumes "\<forall>i < c. \<not> str_stop sigbus mem g (a + i)" "\<forall>i < k. \<not> str_stop sigbus mem g (a + c + i)"
    and "str_stop sigbus mem g (a + c + k)" "c + k < n"
  shows "str_rc sigbus mem g a n = (case gva_host MEM_PERM_R g (a + c + k) of
      None \<Rightarrow> -1 | Some h \<Rightarrow> if sigbus h then -2 else int (c + k))"
proof -
  have "\<not> str_stop sigbus mem g (a + i)" if "i < c + k" for i
    using assms(1,2) that by (cases "i < c") (auto simp: not_less le_iff_add add.assoc)
  then show ?thesis using assms(3,4) str_rc_at [of sigbus mem g a "c + k" n] by (simp add: add.assoc)
qed

text \<open>A window either settles the answer or is copied whole.\<close>

lemma read_str_window:
  fixes g :: "'a pt_guest_scheme" and gva limit :: u64 and mem :: host_mem and sigbus :: "u64 \<Rightarrow> bool"
  defines "b \<equiv> bytes_at mem (\<lambda>i. gva_host MEM_PERM_R g (unat gva + i))"
    and "stop \<equiv> \<lambda>i. str_stop sigbus mem g (unat gva + i)"
    and "rc \<equiv> str_rc sigbus mem g (unat gva) (unat limit)"
  assumes cl: "copied < limit" and nowrap: "\<not> gva > UINT64_MAX - copied" and lim: "unat limit < 2 ^ 31"
    and r: "gva_resolve_perm self g (gva + copied) True MEM_PERM_R (limit - copied) tlb = Some (Some (src, avail), tlb1)"
    and av: "avail \<le> limit - copied" and w: "window sigbus mem g (unat gva + unat copied) src avail"
    and before: "\<forall>i < unat copied. \<not> stop i"
  shows "(\<exists>dst. read_str_loop sigbus mem self g gva limit copied (b (unat copied)) tlb = Some (rc, dst, tlb1)
          \<and> (\<forall>k. rc = int k \<longrightarrow> dst = b (Suc k)))
      \<or> (\<forall>i < unat copied + unat avail. \<not> stop i)
        \<and> read_str_loop sigbus mem self g gva limit copied (b (unat copied)) tlb =
          read_str_loop sigbus mem self g gva limit (copied + avail) (b (unat copied + unat avail)) tlb1"
proof -
  obtain nul faulted where mc: "guest_host_memchr sigbus mem src avail = (nul, faulted)" by fastforce
  have ch: "(if avail < limit - copied then avail else limit - copied) = avail" using av by auto
  note step = read_str_loop.simps [of sigbus mem self g gva limit copied "b (unat copied)" tlb, simplified ch r mc Let_def
      if_P [OF cl] if_not_P [OF nowrap] option.simps bind.bind_lunit prod.case]
  have n: "unat copied + unat avail \<le> unat limit"
    using av cl by (simp add: word_le_nat_alt unat_sub less_imp_le word_less_nat_alt)
  have rc_at: "k < unat avail \<Longrightarrow> str_stop sigbus mem g (unat gva + unat copied + k) \<Longrightarrow>
      \<forall>i < k. \<not> str_stop sigbus mem g (unat gva + unat copied + i) \<Longrightarrow>
      rc = (if sigbus (src + word_of_nat k) then -2 else int (unat copied + k))" for k
    using str_rc_from [of "unat copied" sigbus mem g "unat gva" k "unat limit"] before n w
    by (simp add: rc_def stop_def window_def)
  consider (fault) "faulted" | (nul) k where "nul = Some k" | (more) "nul = None" "\<not> faulted" by fastforce
  then show ?thesis
  proof cases
    case fault
    then obtain k where "rc = -2" using memchr_stop(1) [OF w mc] rc_at by fastforce
    then show ?thesis using step fault by simp
  next
    case (nul k)
    note kk = memchr_stop(2) [OF w mc nul]
    have u: "unat (word_of_nat k :: u64) = k" using kk n lim by (simp add: unat_of_nat)
    have u1: "unat (word_of_nat k + 1 :: u64) = Suc k" using extent_sum [of "word_of_nat k" 1] u kk n lim by simp
    have uc: "unat (copied + word_of_nat k) = unat copied + k" using extent_sum [of copied "word_of_nat k"] u kk n lim by simp
    define m where "m = unat copied + k"
    have "read_move sigbus mem src copied (word_of_nat k + 1) (b (unat copied)) = Inr (b (Suc m))"
      using window_read [of sigbus mem g "unat gva" copied src "word_of_nat k + 1"]
        window_take [OF w, of "word_of_nat k + 1"] u1 kk by (simp add: b_def m_def)
    moreover have "rc = int m" using rc_at [of k] kk by (simp add: m_def)
    moreover have "int_of_size (copied + word_of_nat k) = int m"
      using uc kk n lim by (simp add: int_of_size_small m_def)
    ultimately show ?thesis using step nul kk by simp
  next
    case more
    note none = memchr_stop(3) [OF w mc more]
    have "read_move sigbus mem src copied avail (b (unat copied)) = Inr (b (unat copied + unat avail))"
      using window_read [OF w] none by (simp add: b_def)
    moreover have "\<not> stop i" if "i < unat copied + unat avail" for i
      using before none that by (cases "i < unat copied") (auto simp: stop_def not_less le_iff_add add.assoc)
    ultimately show ?thesis using step more by simp
  qed
qed

lemma read_str_loop_spec:
  assumes inv: "pt_inv g" and wf: "backing_wf g" and lim: "unat limit < 2 ^ 31"
    and "tlb_ok self g tlb" "copied \<le> limit" "\<forall>i < unat copied. \<not> str_stop sigbus mem g (unat gva + i)"
  shows "\<exists>dst tlb'. read_str_loop sigbus mem self g gva limit copied
        (bytes_at mem (\<lambda>i. gva_host MEM_PERM_R g (unat gva + i)) (unat copied)) tlb
      = Some (str_rc sigbus mem g (unat gva) (unat limit), dst, tlb') \<and> tlb_ok self g tlb'
    \<and> (\<forall>k. str_rc sigbus mem g (unat gva) (unat limit) = int k \<longrightarrow>
         dst = bytes_at mem (\<lambda>i. gva_host MEM_PERM_R g (unat gva + i)) (Suc k))"
  using assms(4-6)
proof (induction "unat limit - unat copied" arbitrary: copied tlb rule: less_induct)
  case less
  let ?host = "\<lambda>i. gva_host MEM_PERM_R g (unat gva + i)" and ?rc = "str_rc sigbus mem g (unat gva) (unat limit)"
  note before = less.prems(3)
  have here: "?rc = -1" if "?host (unat copied) = None" "copied < limit"
    using that str_rc_at [of sigbus mem g "unat gva" "unat copied" "unat limit"] before
    by (simp add: str_stop_def word_less_nat_alt)
  have nw: "gva > UINT64_MAX - copied \<longleftrightarrow> unat gva + unat copied \<ge> 2 ^ 64"
    using add_no_wrap_le [of gva copied] by (auto simp: not_le [symmetric] add.commute)
  consider (full) "copied = limit" | (wrap) "copied < limit" "gva > UINT64_MAX - copied"
    | (look) "copied < limit" "\<not> gva > UINT64_MAX - copied"
    using less.prems(2) by fastforce
  then show ?case
  proof cases
    case full
    then have "?rc = -1" using before str_rc_none [of "unat limit" sigbus mem g "unat gva"] by simp
    then show ?thesis using less.prems(1) full by (subst read_str_loop.simps) simp
  next
    case wrap
    then have "?host (unat copied) = None"
      using gva_host_bound [of MEM_PERM_R g "unat gva + unat copied"] nw by (cases "?host (unat copied)") auto
    then show ?thesis using wrap here less.prems(1) by (subst read_str_loop.simps) simp
  next
    case look
    have ga: "unat (gva + copied) = unat gva + unat copied" using look(2) nw by (intro extent_sum) simp
    obtain r tlb1 where r: "gva_resolve_perm self g (gva + copied) True MEM_PERM_R (limit - copied) tlb = Some (r, tlb1)"
      "resolves MEM_PERM_R g (gva + copied) (limit - copied) r" "tlb_ok self g tlb1"
      using gva_resolve_spec [OF inv wf less.prems(1), of "limit - copied" "gva + copied" MEM_PERM_R] look(1) by auto
    show ?thesis
    proof (cases r)
      case None
      then have "?host (unat copied) = None" using r(2) ga by (simp add: resolves_def)
      then show ?thesis using look None r here by (subst read_str_loop.simps) simp
    next
      case (Some pa)
      obtain src avail where pa: "r = Some (src, avail)" using Some by (cases pa) simp
      have av: "avail \<noteq> 0" "avail \<le> limit - copied" and w: "window sigbus mem g (unat gva + unat copied) src avail"
        using r(2) pa ga by (auto simp: resolves_def window_def)
      have n: "unat copied + unat avail \<le> unat limit" "unat copied < unat limit"
        using av(2) look(1) by (simp_all add: word_le_nat_alt unat_sub less_imp_le word_less_nat_alt)
      have ca: "unat (copied + avail) = unat copied + unat avail" using n lim by (intro extent_sum) simp
      moreover have "0 < unat avail" using av(1) by (simp add: unat_gt_0)
      ultimately have "unat limit - unat (copied + avail) < unat limit - unat copied" "copied + avail \<le> limit"
        using n by (simp_all add: word_le_nat_alt)
      then show ?thesis
        using read_str_window [OF look lim r(1) [unfolded pa] av(2) w before] less.hyps [of "copied + avail" tlb1] r(3) ca
        by auto
    qed
  qed
qed

lemma guest_read_str_spec:
  assumes "pt_inv g" "backing_wf g" "tlb_ok self g tlb" "maxlen \<noteq> 0" "unat maxlen \<le> 2 ^ 31"
  shows "\<exists>dst tlb'. guest_read_str sigbus mem self g gva maxlen tlb
      = Some (str_rc sigbus mem g (unat gva) (unat maxlen - 1), dst, tlb') \<and> tlb_ok self g tlb'
    \<and> (\<forall>k. str_rc sigbus mem g (unat gva) (unat maxlen - 1) = int k \<longrightarrow>
         dst = bytes_at mem (\<lambda>i. gva_host MEM_PERM_R g (unat gva + i)) (Suc k))"
proof -
  have m: "unat (maxlen - 1) = unat maxlen - 1" using assms(4) by (simp add: unat_minus_one)
  have "unat (maxlen - 1) < 2 ^ 31" using m assms(5) unat_gt_0 [of maxlen] assms(4) by linarith
  from read_str_loop_spec [OF assms(1,2) this assms(3), of 0 sigbus mem gva] show ?thesis
    using assms(4) by (simp add: guest_read_str_def m bytes_at_def)
qed

lemma guest_read_str_small_spec:
  assumes inv: "pt_inv g" and wf: "backing_wf g" and ok: "tlb_ok self g tlb"
    and m: "maxlen \<noteq> 0" "unat maxlen \<le> 2 ^ 31"
  shows "\<exists>dst tlb'. guest_read_str_small sigbus mem self g gva maxlen tlb
      = Some (str_rc sigbus mem g (unat gva) (unat maxlen - 1), dst, tlb') \<and> tlb_ok self g tlb'
    \<and> (\<forall>k. str_rc sigbus mem g (unat gva) (unat maxlen - 1) = int k \<longrightarrow>
         dst = bytes_at mem (\<lambda>i. gva_host MEM_PERM_R g (unat gva + i)) (Suc k))"
proof -
  let ?rc = "str_rc sigbus mem g (unat gva) (unat maxlen - 1)" and ?limit = "maxlen - 1"
  let ?b = "bytes_at mem (\<lambda>i. gva_host MEM_PERM_R g (unat gva + i))"
  obtain r tlb1 where r: "gva_resolve_perm self g gva True MEM_PERM_R ?limit tlb = Some (r, tlb1)" "tlb_ok self g tlb1"
    "?limit \<noteq> 0 \<longrightarrow> resolves MEM_PERM_R g gva ?limit r" using gva_resolve_total [OF inv wf ok] by blast
  have l: "unat ?limit = unat maxlen - 1" using m(1) by (simp add: unat_minus_one)
  show ?thesis
  proof (cases "\<exists>src avail nul faulted. r = Some (src, avail) \<and> avail \<ge> ?limit
      \<and> guest_host_memchr sigbus mem src ?limit = (nul, faulted) \<and> (nul \<noteq> None \<or> faulted)")
    case False
    then show ?thesis
      using r(1) guest_read_str_spec [OF inv wf r(2) m, of sigbus mem gva] m(1)
      by (auto simp: guest_read_str_small_def Let_def split: option.split prod.split)
  next
    case True
    then obtain src avail nul faulted where a: "r = Some (src, avail)" "avail \<ge> ?limit"
      "guest_host_memchr sigbus mem src ?limit = (nul, faulted)" "nul \<noteq> None \<or> faulted" by blast
    have l0: "?limit \<noteq> 0" using a(3,4) by (auto simp: guest_host_memchr_def)
    have w: "window sigbus mem g (unat gva + unat (0 :: u64)) src ?limit"
      using window_host(1) [OF r(3) [rule_format, OF l0, unfolded a(1)] l0 a(2)] by (simp add: window_def)
    note mc = memchr_stop [OF w a(3)]
    show ?thesis
    proof (cases nul)
      case None
      then obtain k where k: "k < unat ?limit" "str_stop sigbus mem g (unat gva + k)"
        "\<forall>i < k. \<not> str_stop sigbus mem g (unat gva + i)" "sigbus (src + word_of_nat k)"
        using a(4) mc(1) by auto
      then have "?rc = -2" using str_rc_at [OF k(2,3), of "unat ?limit"] w l by (simp add: window_def)
      then show ?thesis using None a r(1,2) m(1) by (simp add: guest_read_str_small_def Let_def)
    next
      case (Some k)
      note kk = mc(2) [OF Some]
      have lim: "unat ?limit < 2 ^ 31" using m l unat_gt_0 [of maxlen] by linarith
      have u: "unat (word_of_nat k :: u64) = k" using kk lim by (simp add: unat_of_nat)
      have u1: "unat (word_of_nat k + 1 :: u64) = Suc k" using extent_sum [of "word_of_nat k" 1] u kk lim by simp
      have "?rc = int k" using str_rc_at [of sigbus mem g "unat gva" k "unat ?limit"] kk w l by (simp add: window_def)
      moreover have "read_move sigbus mem src 0 (word_of_nat k + 1) [] = Inr (?b (Suc k))"
        using window_read [of sigbus mem g "unat gva" 0 src "word_of_nat k + 1"]
          window_take [OF w, of "word_of_nat k + 1"] u1 kk by (simp add: bytes_at_def)
      moreover have "int_of_size (word_of_nat k) = int k" using u kk lim by (simp add: int_of_size_small)
      ultimately show ?thesis using Some a r(1,2) m(1) by (simp add: guest_read_str_small_def Let_def)
    qed
  qed
qed

text \<open>
  C39. Reading a C string from guest memory always returns, whatever the page tables and the host do,
  and its answer is decided by the first byte at which the scan has to stop: the length when that is
  the NUL, with the bytes copied in order and terminated; -2 when it faults on the host; -1 when the
  guest may not read it or no NUL comes within the buffer. The single-window fast path answers the same.
\<close>

theorem guest_read_str_exact:
  assumes inv: "pt_inv g" and wf: "backing_wf g" and ok: "tlb_ok self g tlb"
    and m: "maxlen \<noteq> 0" "unat maxlen \<le> 2 ^ 31"
    and f: "f = guest_read_str \<or> f = guest_read_str_small"
  shows "\<exists>rc dst tlb'. f sigbus mem self g gva maxlen tlb = Some (rc, dst, tlb') \<and> tlb_ok self g tlb'
    \<and> rc = str_rc sigbus mem g (unat gva) (unat maxlen - 1)
    \<and> (rc \<ge> 0 \<longrightarrow> dst = bytes_at mem (\<lambda>i. gva_host MEM_PERM_R g (unat gva + i)) (Suc (nat rc)))"
  using f guest_read_str_spec [OF inv wf ok m, of sigbus mem gva]
    guest_read_str_small_spec [OF inv wf ok m, of sigbus mem gva] by (metis int_nat_eq)

theorem guest_read_str_exact_witness:
  "\<exists>dst tlb'. guest_read_str (\<lambda>_. False) (\<lambda>a. if a = 0x10000400FFF then 65 else 0) 1 example_pt 0x400FFF 16 example_tlb
     = Some (1, dst, tlb') \<and> dst = [65, 0]"
proof -
  let ?mem = "\<lambda>a :: u64. if a = 0x10000400FFF then 65 else 0 :: u8"
  have ok: "tlb_ok 1 example_pt example_tlb" by (simp add: tlb_ok_def example_tlb_def)
  have h: "gva_host MEM_PERM_R example_pt (unat (0x400FFF :: u64) + i) = Some (0x10000000000 + word_of_nat (0x400FFF + i))"
    if "i < 2" for i using example_host [of "0x400FFF + i"] that by simp
  have "str_stop (\<lambda>_. False) ?mem example_pt (unat (0x400FFF :: u64) + 1)"
    "\<forall>i < 1. \<not> str_stop (\<lambda>_. False) ?mem example_pt (unat (0x400FFF :: u64) + i)"
    using h [of 0] h [of 1] by (simp_all add: str_stop_def)
  from str_rc_at [OF this, of "unat (16 :: u64) - 1"] h [of 1]
  have rc: "str_rc (\<lambda>_. False) ?mem example_pt (unat (0x400FFF :: u64)) (unat (16 :: u64) - 1) = 1" by simp
  have b: "bytes_at ?mem (\<lambda>i. gva_host MEM_PERM_R example_pt (unat (0x400FFF :: u64) + i)) (Suc (nat 1)) = [65, 0]"
    using h [of 0] h [of 1] by (simp add: bytes_at_def upt_rec)
  from guest_read_str_exact [OF example_pt_inv example_backing_wf ok, of 16 guest_read_str "\<lambda>_. False" ?mem "0x400FFF"]
  show ?thesis unfolding rc using b by auto
qed

section \<open>Partial writes\<close>

text \<open>The memory after one step that does not fault.\<close>

definition unit_moved :: "u64 \<Rightarrow> u64 \<Rightarrow> u64 \<Rightarrow> u64 \<Rightarrow> host_mem \<Rightarrow> host_mem" where
  "unit_moved d s dn u mem =
     (\<lambda>a. if unat (a - (d + dn)) < unat u then mem (s + dn + (a - (d + dn))) else mem a)"

lemma unit_moved_outside:
  assumes "unat dn + unat u < 2 ^ 64" "unat (a - d) < unat dn \<or> unat dn + unat u \<le> unat (a - d)"
  shows "unit_moved d s dn u mem a = mem a"
proof -
  have "unat (a - d) = unat dn + unat (a - (d + dn))" if "unat (a - (d + dn)) < unat u"
  proof -
    have "a - d = dn + (a - (d + dn))" by simp
    then show ?thesis using extent_sum [of dn "a - (d + dn)"] that assms(1) by simp
  qed
  then show ?thesis using assms(2) by (auto simp: unit_moved_def)
qed

lemma unit_moved_inside:
  assumes "unat dn \<le> i" "i < unat dn + unat u"
  shows "unit_moved d s dn u mem (d + word_of_nat i) = mem (s + word_of_nat i)"
proof -
  obtain k where k: "i = unat dn + k" "k < unat u" using assms by (auto simp: le_iff_add)
  have "unat (word_of_nat k :: u64) = k" using k(2) u64_unat_less [of u] by (simp add: unat_of_nat)
  then show ?thesis using k by (simp add: unit_moved_def add.assoc)
qed

lemma copy_partial_step:
  assumes "dn < len"
  shows "copy_partial_loop sigbus torn d s len dn mem =
     (let u = copy_unit d s dn len in
      if host_faults sigbus (s + dn) u \<or> host_faults sigbus (d + dn) u
      then (dn, torn mem (d + dn) (map (\<lambda>i. mem (s + dn + word_of_nat i)) [0..<unat u]))
      else copy_partial_loop sigbus torn d s len (dn + u) (unit_moved d s dn u mem))"
proof -
  let ?u = "copy_unit d s dn len"
  have "(\<lambda>a. if unat (a - (d + dn)) < unat ?u then map (\<lambda>i. mem (s + dn + word_of_nat i)) [0..<unat ?u] ! unat (a - (d + dn)) else mem a)
      = unit_moved d s dn ?u mem"
    by (auto simp: unit_moved_def fun_eq_iff)
  then show ?thesis
    using assms by (subst copy_partial_loop.simps) (simp add: Let_def write_move_def)
qed

text \<open>
  The stepped copy stops in front of a step that faults; every byte before it has landed, and nothing
  outside the target is touched.
\<close>

definition copied_to :: "(u64 \<Rightarrow> bool) \<Rightarrow> u64 \<Rightarrow> u64 \<Rightarrow> u64 \<Rightarrow> u64 \<Rightarrow> host_mem \<Rightarrow> u64 \<Rightarrow> host_mem \<Rightarrow> bool" where
  "copied_to sigbus d s len dn mem n mem' \<longleftrightarrow> dn \<le> n \<and> n \<le> len
    \<and> (\<forall>i. unat dn \<le> i \<and> i < unat n \<longrightarrow>
         \<not> sigbus (d + word_of_nat i) \<and> \<not> sigbus (s + word_of_nat i) \<and> mem' (d + word_of_nat i) = mem (s + word_of_nat i))
    \<and> (\<forall>a. unat (a - d) < unat dn \<or> unat (a - d) \<ge> unat len \<longrightarrow> mem' a = mem a)
    \<and> (n < len \<longrightarrow> (\<exists>i < unat (copy_unit d s n len). sigbus (d + n + word_of_nat i) \<or> sigbus (s + n + word_of_nat i)))"

definition apart :: "u64 \<Rightarrow> u64 \<Rightarrow> u64 \<Rightarrow> bool" where
  "apart d s len \<longleftrightarrow> (\<forall>i < unat len. unat (s + word_of_nat i - d) \<ge> unat len)"

lemma copied_to_step:
  fixes d s len dn :: u64
  defines "u \<equiv> copy_unit d s dn len"
  assumes dn: "dn < len" and ap: "apart d s len" and nf: "\<not> host_faults sigbus (d + dn) u" "\<not> host_faults sigbus (s + dn) u"
    and rest: "copied_to sigbus d s len (dn + u) (unit_moved d s dn u mem) n mem'"
  shows "copied_to sigbus d s len dn mem n mem'"
proof -
  note adv = copy_unit_advances [OF dn, of d s, folded u_def]
  have le: "unat dn + unat u \<le> unat len" using adv(1,2) by (simp add: word_le_nat_alt)
  have lt: "unat dn + unat u < 2 ^ 64" using le u64_unat_less [of len] by linarith
  have m0: "unit_moved d s dn u mem a = mem a" if "unat (a - d) < unat dn \<or> unat (a - d) \<ge> unat len" for a
  proof (rule unit_moved_outside [OF lt])
    show "unat (a - d) < unat dn \<or> unat dn + unat u \<le> unat (a - d)" using that le by (elim disjE) simp_all
  qed
  have m: "unit_moved d s dn u mem (s + word_of_nat i) = mem (s + word_of_nat i)" if "i < unat len" for i
    using ap that by (intro m0) (simp add: apart_def)
  have r1: "dn + u \<le> n" "n \<le> len"
    and r2: "\<And>i. unat dn + unat u \<le> i \<Longrightarrow> i < unat n \<Longrightarrow>
      \<not> sigbus (d + word_of_nat i) \<and> \<not> sigbus (s + word_of_nat i) \<and> mem' (d + word_of_nat i) = unit_moved d s dn u mem (s + word_of_nat i)"
    and r3: "\<And>a. unat (a - d) < unat dn + unat u \<or> unat (a - d) \<ge> unat len \<Longrightarrow> mem' a = unit_moved d s dn u mem a"
    and r4: "n < len \<longrightarrow> (\<exists>i < unat (copy_unit d s n len). sigbus (d + n + word_of_nat i) \<or> sigbus (s + n + word_of_nat i))"
    using rest unfolding copied_to_def adv(1) by blast+
  have nl: "unat n \<le> unat len" using r1(2) by (simp add: word_le_nat_alt)
  have "\<not> sigbus (d + word_of_nat i) \<and> \<not> sigbus (s + word_of_nat i) \<and> mem' (d + word_of_nat i) = mem (s + word_of_nat i)"
    if i: "unat dn \<le> i" "i < unat n" for i
  proof (cases "i < unat dn + unat u")
    case True
    obtain k where k: "i = unat dn + k" "k < unat u" using i(1) True by (auto simp: le_iff_add)
    have "\<not> sigbus (d + dn + word_of_nat k)" "\<not> sigbus (s + dn + word_of_nat k)" using nf k(2) by (simp_all add: host_faults_iff)
    then have "\<not> sigbus (d + word_of_nat i)" "\<not> sigbus (s + word_of_nat i)" by (simp_all add: k(1) add.assoc)
    moreover have "unat (word_of_nat i :: u64) = i" using i nl u64_unat_less [of len] by (simp add: unat_of_nat)
    then have "mem' (d + word_of_nat i) = unit_moved d s dn u mem (d + word_of_nat i)" using True by (intro r3) simp
    ultimately show ?thesis using unit_moved_inside [OF i(1) True] by simp
  next
    case False
    then show ?thesis using r2 [of i] i nl m [of i] by simp
  qed
  moreover have "unat dn \<le> unat n" using r1(1) adv(3) by (simp add: word_le_nat_alt)
  then have "dn \<le> n" by (simp add: word_le_nat_alt)
  moreover have "mem' a = mem a" if "unat (a - d) < unat dn \<or> unat len \<le> unat (a - d)" for a
    using r3 [of a] m0 [OF that] that by (metis trans_less_add1)
  ultimately show ?thesis using r1(2) r4 unfolding copied_to_def by blast
qed

lemma copy_partial_loop_spec:
  assumes "torn_local torn" "apart d s len" "dn \<le> len" "copy_partial_loop sigbus torn d s len dn mem = (n, mem')"
  shows "copied_to sigbus d s len dn mem n mem'"
  using assms
proof (induction "unat len - unat dn" arbitrary: dn mem rule: less_induct)
  case less
  show ?case
  proof (cases "dn < len")
    case False
    then have "dn = len" using less.prems(3) by simp
    then show ?thesis using less.prems(4) by (subst (asm) copy_partial_loop.simps) (auto simp: copied_to_def)
  next
    case True
    let ?u = "copy_unit d s dn len"
    note adv = copy_unit_advances [OF True, of d s]
    note eq = copy_partial_step [OF True, of sigbus torn d s mem, unfolded Let_def less.prems(4)]
    show ?thesis
    proof (cases "host_faults sigbus (s + dn) ?u \<or> host_faults sigbus (d + dn) ?u")
      case f: True
      then have n: "n = dn" "mem' = torn mem (d + dn) (map (\<lambda>i. mem (s + dn + word_of_nat i)) [0..<unat ?u])"
        using eq by simp_all
      have "mem' a = mem a" if "unat (a - d) < unat dn \<or> unat len \<le> unat (a - d)" for a
      proof -
        have "unat (a - (d + dn)) \<ge> unat ?u"
        proof (rule ccontr)
          assume *: "\<not> ?thesis"
          have "a - d = dn + (a - (d + dn))" by simp
          then have "unat (a - d) = unat dn + unat (a - (d + dn))"
            using extent_sum [of dn "a - (d + dn)"] * adv(1) u64_unat_less [of "dn + ?u"] by simp
          then show False using that * adv(1,2) by (auto simp: word_le_nat_alt)
        qed
        then show ?thesis using less.prems(1) n(2) by (simp add: torn_local_def)
      qed
      then show ?thesis using n(1) f True by (auto simp: copied_to_def host_faults_iff)
    next
      case nf: False
      have "unat len - unat (dn + ?u) < unat len - unat dn" using adv(3) True by (simp add: word_less_nat_alt)
      from less.hyps [OF this less.prems(1,2) adv(2)] nf eq
      have "copied_to sigbus d s len (dn + ?u) (unit_moved d s dn ?u mem) n mem'" by simp
      then show ?thesis using copied_to_step [OF True less.prems(2)] nf by blast
    qed
  qed
qed

text \<open>
  What the first \<open>n\<close> bytes of a partial write leave behind: they are at the host addresses of the
  target, neither side of them faulted, and no byte outside the target has changed.
\<close>

definition landed :: "(u64 \<Rightarrow> bool) \<Rightarrow> (nat \<Rightarrow> u64 option) \<Rightarrow> u64 \<Rightarrow> u64 \<Rightarrow> host_mem \<Rightarrow> nat \<Rightarrow> host_mem \<Rightarrow> bool" where
  "landed sigbus host src len mem n mem' \<longleftrightarrow>
     (\<forall>i < n. \<exists>h. host i = Some h \<and> \<not> sigbus h \<and> \<not> sigbus (src + word_of_nat i) \<and> mem' h = mem (src + word_of_nat i))
     \<and> (\<forall>a. (\<forall>i < unat len. host i \<noteq> Some a) \<longrightarrow> mem' a = mem a)"

definition separate :: "(nat \<Rightarrow> u64 option) \<Rightarrow> u64 \<Rightarrow> u64 \<Rightarrow> bool" where
  "separate host src len \<longleftrightarrow>
     (\<forall>i < unat len. \<forall>j < unat len. host j \<noteq> Some (src + word_of_nat i) \<and> (host i = host j \<and> host i \<noteq> None \<longrightarrow> i = j))"

lemma separate_inj:
  "separate host src len \<Longrightarrow> i < unat len \<Longrightarrow> j < unat len \<Longrightarrow> host i = Some x \<Longrightarrow> host j = Some x \<Longrightarrow> i = j"
  by (simp add: separate_def)

lemma separate_src: "separate host src len \<Longrightarrow> i < unat len \<Longrightarrow> j < unat len \<Longrightarrow> host j \<noteq> Some (src + word_of_nat i)"
  by (simp add: separate_def)

text \<open>A step lies within a single page on either side.\<close>

definition same_page :: "u64 \<Rightarrow> u64 \<Rightarrow> bool" where
  "same_page a b \<longleftrightarrow> unat a div 4096 = unat b div 4096"

lemma to_page_end_unat: "unat (GUEST_PAGE_SIZE - ((x :: u64) AND (GUEST_PAGE_SIZE - 1))) = 4096 - unat x mod 4096"
proof -
  have "GUEST_PAGE_SIZE - 1 = (mask 12 :: u64)" by (simp add: GUEST_PAGE_SIZE_def mask_eq_exp_minus_1)
  then have "unat (x AND (GUEST_PAGE_SIZE - 1)) = unat x mod 4096"
    by (simp add: take_bit_eq_mask [symmetric] take_bit_eq_mod unat_mod)
  then show ?thesis
    using unat_sub [OF less_imp_le [OF page_offset_bound [of x]]] by (simp add: GUEST_PAGE_SIZE_def)
qed

lemma same_page_offset:
  assumes "i < 4096 - unat x mod 4096"
  shows "same_page x (x + word_of_nat i)"
proof -
  have top: "unat x div 4096 < 2 ^ 52" using u64_unat_less [of x] by (simp add: less_mult_imp_div_less)
  have split: "unat x + i = unat x div 4096 * 4096 + (unat x mod 4096 + i)" using div_mult_mod_eq [of "unat x" 4096] by linarith
  have "unat x div 4096 * 4096 + (unat x mod 4096 + i) < (2 ^ 52 - 1) * 4096 + 4096"
    using top assms by (intro add_le_less_mono mult_le_mono1) linarith+
  then have "unat x + i < 2 ^ 64" unfolding split by simp
  then have "unat (x + word_of_nat i) = unat x + i" by (simp add: unat_word_ariths unat_of_nat)
  moreover have "(unat x + i) div 4096 = unat x div 4096" unfolding split
    using assms div_mult_self3 [of 4096 "unat x div 4096" "unat x mod 4096 + i"] by simp
  ultimately show ?thesis by (simp add: same_page_def)
qed

lemma copy_unit_page:
  assumes "i < unat (copy_unit d s dn len)"
  shows "same_page (d + dn) (d + dn + word_of_nat i)" "same_page (s + dn) (s + dn + word_of_nat i)"
proof -
  have le: "copy_unit d s dn len \<le> GUEST_PAGE_SIZE - ((d + dn) AND (GUEST_PAGE_SIZE - 1))"
    "copy_unit d s dn len \<le> GUEST_PAGE_SIZE - ((s + dn) AND (GUEST_PAGE_SIZE - 1))"
    by (auto simp: copy_unit_def Let_def not_less)
  show "same_page (d + dn) (d + dn + word_of_nat i)"
    using assms le(1) by (intro same_page_offset) (simp add: word_le_nat_alt to_page_end_unat)
  show "same_page (s + dn) (s + dn + word_of_nat i)"
    using assms le(2) by (intro same_page_offset) (simp add: word_le_nat_alt to_page_end_unat)
qed

text \<open>Byte \<open>n\<close> cannot be moved: the guest may not write it, or the host page of its target or of its source faults.\<close>

definition blocked :: "(u64 \<Rightarrow> bool) \<Rightarrow> (nat \<Rightarrow> u64 option) \<Rightarrow> u64 \<Rightarrow> u64 \<Rightarrow> bool" where
  "blocked sigbus host src n \<longleftrightarrow>
     (case host (unat n) of
        None \<Rightarrow> True
      | Some h \<Rightarrow> \<exists>f. sigbus f \<and> (same_page h f \<or> same_page (src + n) f))"

lemma near_offset: "unat (a - ptr) < k \<Longrightarrow> a = ptr + word_of_nat (unat (a - ptr))" for a ptr :: u64
  by simp

lemma landed_chunk:
  assumes l: "landed sigbus host src len mem (unat dn) mem1" and sep: "separate host src len"
    and h: "\<forall>i < unat chunk. host (unat dn + i) = Some (ptr + word_of_nat i)"
    and n: "unat dn + unat chunk \<le> unat len"
    and c: "copied_to sigbus ptr (src + dn) chunk 0 mem1 moved mem'"
  shows "landed sigbus host src len mem (unat dn + unat moved) mem'"
proof -
  have mv: "unat moved \<le> unat chunk" using c by (simp add: copied_to_def word_le_nat_alt)
  have out: "mem' a = mem1 a" if "\<forall>i < unat chunk. host (unat dn + i) \<noteq> Some a" for a
  proof -
    have "unat chunk \<le> unat (a - ptr)"
    proof (rule ccontr)
      assume "\<not> ?thesis"
      then show False using h that near_offset [of a ptr "unat chunk"] by (auto simp: not_le)
    qed
    then show ?thesis using c by (simp add: copied_to_def)
  qed
  have "\<exists>x. host i = Some x \<and> \<not> sigbus x \<and> \<not> sigbus (src + word_of_nat i) \<and> mem' x = mem (src + word_of_nat i)" if i: "i < unat dn + unat moved" for i
  proof (cases "i < unat dn")
    case True
    then obtain x where x: "host i = Some x" "\<not> sigbus x" "\<not> sigbus (src + word_of_nat i)" "mem1 x = mem (src + word_of_nat i)"
      using l by (auto simp: landed_def)
    have "host (unat dn + j) \<noteq> Some x" if "j < unat chunk" for j
    proof
      assume "host (unat dn + j) = Some x"
      then have "i = unat dn + j" using separate_inj [OF sep _ _ x(1)] True that n by simp
      then show False using True by simp
    qed
    then show ?thesis using x out by auto
  next
    case False
    then obtain k where k: "i = unat dn + k" "k < unat moved" using i by (auto simp: not_less le_iff_add)
    then have "\<not> sigbus (ptr + word_of_nat k) \<and> \<not> sigbus (src + dn + word_of_nat k) \<and> mem' (ptr + word_of_nat k) = mem1 (src + dn + word_of_nat k)"
      using c unfolding copied_to_def by simp
    moreover have "\<forall>j < unat len. host j \<noteq> Some (src + word_of_nat i)"
      using separate_src [OF sep, of i] k mv n by auto
    then have "mem1 (src + word_of_nat i) = mem (src + word_of_nat i)" using l unfolding landed_def by blast
    ultimately show ?thesis using h k mv by (simp add: add.assoc)
  qed
  moreover have "mem' a = mem a" if "\<forall>i < unat len. host i \<noteq> Some a" for a
    using out [of a] that l n by (simp add: landed_def)
  ultimately show ?thesis unfolding landed_def by blast
qed

lemma chunk_apart:
  assumes "separate host src len" "\<forall>i < unat chunk. host (unat dn + i) = Some (ptr + word_of_nat i)"
    "unat dn + unat chunk \<le> unat len"
  shows "apart ptr (src + dn) chunk"
  unfolding apart_def
proof (intro allI impI, rule ccontr)
  fix i assume i: "i < unat chunk" "\<not> unat chunk \<le> unat (src + dn + word_of_nat i - ptr)"
  let ?a = "src + word_of_nat (unat dn + i)"
  have "unat (?a - ptr) < unat chunk" using i(2) by (simp add: add.assoc)
  then have "host (unat dn + unat (?a - ptr)) = Some ?a" using assms(2) by simp
  then show False
    using separate_src [OF assms(1), of "unat dn + i" "unat dn + unat (?a - ptr)"] assms(3) i(1)
      \<open>unat (?a - ptr) < unat chunk\<close> by linarith
qed

lemma write_partial_loop_spec:
  fixes g :: "'a pt_guest_scheme" and gva :: u64
  defines "host \<equiv> \<lambda>i. gva_host MEM_PERM_W g (unat gva + i)"
  assumes inv: "pt_inv g" and wf: "backing_wf g" and torn: "torn_local torn" and sep: "separate host src len"
    and "tlb_ok self g tlb" "dn \<le> len" "landed sigbus host src len mem (unat dn) mem1"
    and "unat gva + unat dn < 2 ^ 64"
  shows "\<exists>n mem' tlb'. write_partial_loop sigbus torn self g gva src len dn mem1 tlb = Some (n, mem', tlb')
    \<and> tlb_ok self g tlb' \<and> n \<le> len \<and> landed sigbus host src len mem (unat n) mem'
    \<and> (n < len \<longrightarrow> blocked sigbus host src n)"
  using assms(6-9)
proof (induction "unat len - unat dn" arbitrary: dn mem1 tlb rule: less_induct)
  case less
  show ?case
  proof (cases "dn < len")
    case False
    then show ?thesis using less.prems by (subst write_partial_loop.simps) auto
  next
    case True
    have ga: "unat (gva + dn) = unat gva + unat dn" using less.prems(4) by (rule extent_sum)
    obtain r tlb1 where r: "gva_resolve_perm self g (gva + dn) True MEM_PERM_W (len - dn) tlb = Some (r, tlb1)"
      "resolves MEM_PERM_W g (gva + dn) (len - dn) r" "tlb_ok self g tlb1"
      using gva_resolve_spec [OF inv wf less.prems(1), of "len - dn" "gva + dn" MEM_PERM_W] True by auto
    show ?thesis
    proof (cases r)
      case None
      then have "host (unat dn) = None" using r(2) ga by (simp add: resolves_def host_def)
      then show ?thesis using True None r less.prems by (subst write_partial_loop.simps) (simp add: blocked_def)
    next
      case (Some pa)
      obtain ptr avail where pa: "r = Some (ptr, avail)" using Some by (cases pa) simp
      have av: "avail \<noteq> 0" "avail \<le> len - dn"
        and h: "\<forall>i < unat avail. host (unat dn + i) = Some (ptr + word_of_nat i)"
        using r(2) pa ga by (auto simp: resolves_def host_def add.assoc)
      have n: "unat dn + unat avail \<le> unat len"
        using av(2) True by (simp add: word_le_nat_alt unat_sub less_imp_le word_less_nat_alt)
      obtain moved mem' where c: "guest_host_copy_partial sigbus torn ptr (src + dn) avail mem1 = (moved, mem')" by fastforce
      have cp: "copied_to sigbus ptr (src + dn) avail 0 mem1 moved mem'"
        using copy_partial_loop_spec [OF torn chunk_apart [OF sep h n]] c by (simp add: guest_host_copy_partial_def)
      have mv: "unat moved \<le> unat avail" using cp by (simp add: copied_to_def word_le_nat_alt)
      have l: "landed sigbus host src len mem (unat dn + unat moved) mem'" by (rule landed_chunk [OF less.prems(3) sep h n cp])
      have dm: "unat (dn + moved) = unat dn + unat moved"
        using mv n u64_unat_less [of len] by (intro extent_sum) linarith
      have dl: "dn + moved \<le> len" using dm mv n by (simp add: word_le_nat_alt)
      have eq: "write_partial_loop sigbus torn self g gva src len dn mem1 tlb =
          (if moved < avail then Some (dn + moved, mem', tlb1)
           else write_partial_loop sigbus torn self g gva src len (dn + moved) mem' tlb1)"
        using True r(1) pa av(2) c
        by (subst write_partial_loop.simps) (auto simp: Let_def not_less dest: order.antisym)
      show ?thesis
      proof (cases "moved < avail")
        case short: True
        then obtain i where i: "i < unat (copy_unit ptr (src + dn) moved avail)"
          "sigbus (ptr + moved + word_of_nat i) \<or> sigbus (src + dn + moved + word_of_nat i)"
          using cp unfolding copied_to_def by blast
        have "host (unat (dn + moved)) = Some (ptr + moved)" using h short dm by (simp add: word_less_nat_alt)
        then have "blocked sigbus host src (dn + moved)"
          using i(2) copy_unit_page [OF i(1)] by (auto simp: blocked_def add.assoc)
        then show ?thesis using eq short l dm dl r(3) by simp
      next
        case False
        have m: "unat moved = unat avail" using mv False by (simp add: word_less_nat_alt)
        have "0 < unat avail" using av(1) by (simp add: unat_gt_0)
        moreover from this have "host (unat dn + (unat avail - 1)) = Some (ptr + word_of_nat (unat avail - 1))"
          using h [rule_format, of "unat avail - 1"] by linarith
        then have "unat gva + (unat dn + (unat avail - 1)) < 2 ^ 48" unfolding host_def by (rule gva_host_bound)
        moreover have "unat dn < unat len" using True by (simp add: word_less_nat_alt)
        ultimately have "unat len - unat (dn + moved) < unat len - unat dn" "unat gva + unat (dn + moved) < 2 ^ 64"
          using dm m n power_strict_increasing [of 48 64 "2 :: nat"] by linarith+
        from less.hyps [OF this(1) r(3) dl _ this(2), of mem'] l dm show ?thesis using eq False by simp
      qed
    qed
  qed
qed

text \<open>
  C40. The partial write always returns and reports exactly how far it got: the reported bytes are all
  in place and none of them faulted on either side; it stops short only in front of a byte that the
  guest may not write, or whose own host page faults, on the side of the target or of the source; and
  no byte outside the target changes. The source and the target must not overlap, and no two target
  bytes may share a host byte.
\<close>

theorem guest_write_partial_exact:
  assumes "pt_inv g" "backing_wf g" "torn_local torn" "tlb_ok self g tlb"
    and "separate (\<lambda>i. gva_host MEM_PERM_W g (unat gva + i)) src len"
  shows "\<exists>n mem' tlb'. guest_write_partial sigbus torn self g gva src len mem tlb = Some (n, mem', tlb')
    \<and> tlb_ok self g tlb' \<and> n \<le> len
    \<and> landed sigbus (\<lambda>i. gva_host MEM_PERM_W g (unat gva + i)) src len mem (unat n) mem'
    \<and> (n < len \<longrightarrow> blocked sigbus (\<lambda>i. gva_host MEM_PERM_W g (unat gva + i)) src n)"
  unfolding guest_write_partial_def
  by (rule write_partial_loop_spec [OF assms(1-3,5,4)]) (use u64_unat_less [of gva] in \<open>simp_all add: landed_def\<close>)

theorem guest_write_partial_exact_witness:
  "\<exists>mem' tlb'. guest_write_partial (\<lambda>_. False) (\<lambda>m p b. m) 1 example_pt 0x400FFF 0x20000000000 2 (\<lambda>a. ucast (a + 7)) example_tlb
     = Some (2, mem', tlb') \<and> mem' 0x10000401000 = 8"
proof -
  let ?host = "\<lambda>i. gva_host MEM_PERM_W example_pt (unat (0x400FFF :: u64) + i)"
  have ok: "tlb_ok 1 example_pt example_tlb" by (simp add: tlb_ok_def example_tlb_def)
  have torn: "torn_local (\<lambda>m p b. m)" by (simp add: torn_local_def)
  have g: "gva_host MEM_PERM_W example_pt a = Some (0x10000000000 + word_of_nat a)" if "a = 0x400FFF \<or> a = 0x401000" for a
    using that by (auto simp: gva_host_def gva_gpa_def example_leaf idx_def allowed_def mem_perms PAGE_SIZE_def host_of_def)
  have h: "?host 0 = Some 0x10000400FFF" "?host 1 = Some 0x10000401000" using g [of "0x400FFF"] g [of "0x401000"] by simp_all
  have two: "i < unat (2 :: u64) \<longleftrightarrow> i = 0 \<or> i = 1" for i by auto
  have sep: "separate ?host 0x20000000000 2"
    unfolding separate_def two using h by auto
  obtain n mem' tlb' where
    r: "guest_write_partial (\<lambda>_. False) (\<lambda>m p b. m) 1 example_pt 0x400FFF 0x20000000000 2 (\<lambda>a. ucast (a + 7)) example_tlb
     = Some (n, mem', tlb')" "n \<le> 2" "landed (\<lambda>_. False) ?host 0x20000000000 2 (\<lambda>a. ucast (a + 7)) (unat n) mem'"
    "n < 2 \<longrightarrow> ?host (unat n) = None"
    using guest_write_partial_exact [OF example_pt_inv example_backing_wf torn ok sep, of "\<lambda>_. False" "\<lambda>a. ucast (a + 7)"]
    by (auto simp: blocked_def split: option.splits)
  have "unat n = 2"
  proof (rule ccontr)
    assume "unat n \<noteq> 2"
    then have "n < 2" "unat n = 0 \<or> unat n = 1" using r(2) two [of "unat n"] by (auto simp: word_le_nat_alt word_less_nat_alt)
    then show False using r(4) h by auto
  qed
  then have "n = 2" by (simp add: word_unat_eq_iff)
  then show ?thesis using r(1) r(3) [unfolded landed_def, THEN conjunct1, rule_format, of 1] h(2) by auto
qed

end
