(* ===== verification/Initial_Stack.thy ===== *)
theory Initial_Stack
  imports Guest_Small
begin

text \<open>
  The initial stack of a Linux process: the arithmetic of \<^verbatim>\<open>src/src/proved/stack.h\<close> and
  \<^verbatim>\<open>build_linux_stack\<close> of \<^verbatim>\<open>src/src/core/stack.c\<close>, which writes argument and environment strings, the
  auxiliary vector and the pointer arrays through the accessors of \<open>Guest_Small\<close>. What the guest then
  reads at the stack pointer is the layout the Linux ABI prescribes.
\<close>

section \<open>Stack arithmetic\<close>

definition STACK_ALIGN :: u64 where "STACK_ALIGN = 16"

definition STACK_WORD :: u64 where "STACK_WORD = 8"

definition stack_take :: "u64 \<Rightarrow> u64 \<Rightarrow> u64 \<Rightarrow> u64 option" where
  "stack_take ptr fl bytes = (if bytes > ptr - fl then None else Some (ptr - bytes))"

definition stack_align_down :: "u64 \<Rightarrow> u64" where
  "stack_align_down sp = sp - sp mod STACK_ALIGN"

definition stack_pushed_words :: "u64 \<Rightarrow> u64" where
  "stack_pushed_words entries = entries + entries mod 2"

definition stack_final_sp :: "u64 \<Rightarrow> u64 \<Rightarrow> u64 \<Rightarrow> u64 option" where
  "stack_final_sp base fl words =
     (let bytes = words * STACK_WORD in if bytes > base - fl then None else Some (base - bytes))"

section \<open>Constants\<close>

definition STACK_GUARD_SIZE :: u64 where "STACK_GUARD_SIZE = 0x1000"

definition ELFUSE_MAX_ARG_STRINGS :: int where "ELFUSE_MAX_ARG_STRINGS = 131072"

definition LINUX_MINSIGSTKSZ :: u64 where "LINUX_MINSIGSTKSZ = 5120"

definition LINUX_STACK_AUXV_WORDS_MAX :: nat where "LINUX_STACK_AUXV_WORDS_MAX = 48"

definition AT_NULL :: u64 where "AT_NULL = 0"
definition AT_EXECFD :: u64 where "AT_EXECFD = 2"
definition AT_PHDR :: u64 where "AT_PHDR = 3"
definition AT_PHENT :: u64 where "AT_PHENT = 4"
definition AT_PHNUM :: u64 where "AT_PHNUM = 5"
definition AT_PAGESZ :: u64 where "AT_PAGESZ = 6"
definition AT_BASE :: u64 where "AT_BASE = 7"
definition AT_ENTRY :: u64 where "AT_ENTRY = 9"
definition AT_UID :: u64 where "AT_UID = 11"
definition AT_EUID :: u64 where "AT_EUID = 12"
definition AT_GID :: u64 where "AT_GID = 13"
definition AT_EGID :: u64 where "AT_EGID = 14"
definition AT_PLATFORM :: u64 where "AT_PLATFORM = 15"
definition AT_HWCAP :: u64 where "AT_HWCAP = 16"
definition AT_CLKTCK :: u64 where "AT_CLKTCK = 17"
definition AT_SECURE :: u64 where "AT_SECURE = 23"
definition AT_RANDOM :: u64 where "AT_RANDOM = 25"
definition AT_HWCAP2 :: u64 where "AT_HWCAP2 = 26"
definition AT_EXECFN :: u64 where "AT_EXECFN = 31"
definition AT_SYSINFO_EHDR :: u64 where "AT_SYSINFO_EHDR = 33"
definition AT_MINSIGSTKSZ :: u64 where "AT_MINSIGSTKSZ = 51"

text \<open>The capability bits, by position.\<close>

definition hwcap_bits :: "nat list" where
  "hwcap_bits = [0, 1, 3, 4, 5, 6, 21, 7, 8, 9, 10, 11, 12, 13, 14, 15, 26, 16, 17, 20, 23, 24, 27, 29, 30, 31]"

definition query_hwcap :: u64 where
  "query_hwcap = fold (\<lambda>i w. w OR push_bit i 1) hwcap_bits 0"

definition query_hwcap2 :: u64 where
  "query_hwcap2 = push_bit 0 1 OR push_bit 7 1 OR push_bit 8 1 OR push_bit 14 1"

section \<open>The builder\<close>

text \<open>
  The guest the stack is built in: its page tables and backing with the thread's view of host faults.
  The state is the host memory with the thread's cached translation.
\<close>

record 'a access_env =
  faulty :: "u64 \<Rightarrow> bool"
  tearing :: "host_mem \<Rightarrow> u64 \<Rightarrow> u8 list \<Rightarrow> host_mem"
  thread :: nat
  tables :: "'a pt_guest_scheme"

type_synonym access_state = "host_mem \<times> gva_tlb"

type_synonym cstr = "u8 list"

definition put_bytes :: "'a access_env \<Rightarrow> u64 \<Rightarrow> u8 list \<Rightarrow> access_state \<Rightarrow> (int \<times> access_state) option" where
  "put_bytes E gva bs st = guest_write (faulty E) (tearing E) (thread E) (tables E) gva bs False (fst st) (snd st)"

definition put_small :: "'a access_env \<Rightarrow> u64 \<Rightarrow> u8 list \<Rightarrow> access_state \<Rightarrow> (int \<times> access_state) option" where
  "put_small E gva bs st = guest_write_small (faulty E) (tearing E) (thread E) (tables E) gva bs (fst st) (snd st)"

definition le_bytes :: "u64 \<Rightarrow> u8 list" where
  "le_bytes v = map (\<lambda>i. ucast (drop_bit (8 * i) v)) [0..<8]"

definition push_u64 :: "'a access_env \<Rightarrow> u64 \<Rightarrow> u64 \<Rightarrow> access_state \<Rightarrow> (u64 \<times> int \<times> access_state) option" where
  "push_u64 E sp val st = do { (rc, st') \<leftarrow> put_small E (sp - 8) (le_bytes val) st; Some (sp - 8, rc, st') }"

definition write_str :: "'a access_env \<Rightarrow> u64 \<Rightarrow> cstr \<Rightarrow> access_state \<Rightarrow> (int \<times> access_state) option" where
  "write_str E gva s st = put_bytes E gva (s @ [0]) st"

text \<open>
  The two string loops run from the last string to the first, so they take the reversed list. The
  inner \<open>None\<close> is the exit when the strings do not fit.
\<close>

fun put_strings ::
  "'a access_env \<Rightarrow> u64 \<Rightarrow> cstr list \<Rightarrow> u64 list \<Rightarrow> u64 \<Rightarrow> bool \<Rightarrow> access_state
   \<Rightarrow> ((u64 list \<times> u64) option \<times> bool \<times> access_state) option" where
  "put_strings E fl [] ptrs str_ptr str_err st = Some (Some (ptrs, str_ptr), str_err, st)"
| "put_strings E fl (s # ss) ptrs str_ptr str_err st =
     (case stack_take str_ptr fl (word_of_nat (length s) + 1) of
        None \<Rightarrow> Some (None, str_err, st)
      | Some p \<Rightarrow> do {
          (rc, st') \<leftarrow> write_str E p s st;
          put_strings E fl ss (p # ptrs) p (str_err \<or> rc \<noteq> 0) st'
        })"

fun push_all :: "'a access_env \<Rightarrow> u64 list \<Rightarrow> u64 \<Rightarrow> bool \<Rightarrow> access_state \<Rightarrow> (u64 \<times> bool \<times> access_state) option" where
  "push_all E [] sp stack_err st = Some (sp, stack_err, st)"
| "push_all E (v # vs) sp stack_err st =
     do { (sp', rc, st') \<leftarrow> push_u64 E sp v st; push_all E vs sp' (stack_err \<or> rc \<noteq> 0) st' }"

text \<open>The \<^verbatim>\<open>AUX\<close> macro: it refuses an entry past the end of the word array.\<close>

fun aux_words :: "(u64 \<times> u64) list \<Rightarrow> u64 list \<Rightarrow> u64 list option" where
  "aux_words [] ws = Some ws"
| "aux_words ((k, v) # es) ws =
     (if length ws + 2 > LINUX_STACK_AUXV_WORDS_MAX then None else aux_words es (ws @ [k, v]))"

record elf_info =
  phdr_valid :: bool
  phdr_gpa :: u64
  phentsize :: "16 word"
  phnum :: "16 word"
  entry :: u64

record stack_request =
  stack_base :: u64
  stack_top :: u64
  argc :: int
  argv :: "cstr list"
  envp :: "cstr list"
  elf :: elf_info
  elf_load_base :: u64
  interp_base :: u64
  vdso_base :: u64
  execfd :: int
  execfn :: "cstr option"

text \<open>What the builder asks of the host: random bytes, the process identity, and two allocations.\<close>

record stack_host =
  random_bytes :: "u8 list"
  uid :: u32
  euid :: u32
  gid :: u32
  egid :: u32
  calloc_ok :: bool

definition auxv_entries :: "stack_request \<Rightarrow> stack_host \<Rightarrow> u64 \<Rightarrow> u64 \<Rightarrow> u64 \<Rightarrow> (u64 \<times> u64) list" where
  "auxv_entries q h random_ptr execfn_ptr platform_ptr =
     (if execfd q \<ge> 0 then [(AT_EXECFD, word_of_int (execfd q))] else [])
     @ [(AT_BASE, interp_base q)]
     @ (if vdso_base q \<noteq> 0 then [(AT_SYSINFO_EHDR, vdso_base q)] else [])
     @ [(AT_PAGESZ, 4096),
        (AT_PHDR, if phdr_valid (elf q) then phdr_gpa (elf q) + elf_load_base q else 0),
        (AT_PHENT, ucast (phentsize (elf q))),
        (AT_PHNUM, ucast (phnum (elf q))),
        (AT_ENTRY, entry (elf q) + elf_load_base q),
        (AT_UID, ucast (uid h)),
        (AT_EUID, ucast (euid h)),
        (AT_GID, ucast (gid h)),
        (AT_EGID, ucast (egid h)),
        (AT_SECURE, 0),
        (AT_HWCAP2, query_hwcap2),
        (AT_HWCAP, query_hwcap),
        (AT_CLKTCK, 100),
        (AT_MINSIGSTKSZ, LINUX_MINSIGSTKSZ),
        (AT_RANDOM, random_ptr),
        (AT_EXECFN, execfn_ptr),
        (AT_PLATFORM, platform_ptr),
        (AT_NULL, 0)]"

text \<open>
  The second phase, below the aligned end of the strings: the word count, the expected stack pointer,
  and the pushes. The result is the stack pointer, 0 on failure, and the words stored in
  \<^verbatim>\<open>auxv_out\<close>, if it got that far.
\<close>

definition push_structure ::
  "'a access_env \<Rightarrow> u64 \<Rightarrow> int \<Rightarrow> u64 list \<Rightarrow> u64 list \<Rightarrow> u64 list \<Rightarrow> u64 \<Rightarrow> bool \<Rightarrow> access_state
   \<Rightarrow> (u64 \<times> u64 list option \<times> access_state) option" where
  "push_structure E fl nargs arg_ptrs env_ptrs words str_ptr str_err st =
     (let total_entries = int (length words) + 3 + nargs + int (length env_ptrs);
          pushed_words = stack_pushed_words (word_of_int total_entries)
      in case stack_final_sp str_ptr fl pushed_words of
           None \<Rightarrow> Some (0, None, st)
         | Some expect_sp \<Rightarrow> do {
             (sp, stack_err, st') \<leftarrow>
               push_all E ((if pushed_words \<noteq> word_of_int total_entries then [0] else [])
                           @ rev words @ [0] @ rev env_ptrs @ [0] @ rev arg_ptrs @ [word_of_int nargs])
                 str_ptr str_err st;
             Some (if sp \<noteq> expect_sp then 0 else if stack_err then 0 else sp, Some words, st')
           })"

definition AARCH64 :: cstr where
  "AARCH64 = [0x61, 0x61, 0x72, 0x63, 0x68, 0x36, 0x34]"

text \<open>The pointer array loops and the second phase, after the fixed strings.\<close>

definition build_vectors ::
  "'a access_env \<Rightarrow> stack_request \<Rightarrow> stack_host \<Rightarrow> u64 \<Rightarrow> u64 \<Rightarrow> u64 \<Rightarrow> u64 \<Rightarrow> u64 \<Rightarrow> bool \<Rightarrow> access_state
   \<Rightarrow> (u64 \<times> u64 list option \<times> access_state) option" where
  "build_vectors E q h fl random_ptr platform_ptr execfn_ptr str_ptr str_err st =
     (if \<not> calloc_ok h then Some (0, None, st)
      else do {
        (env, err1, st1) \<leftarrow> put_strings E fl (rev (envp q)) [] str_ptr str_err st;
        (case env of
           None \<Rightarrow> Some (0, None, st1)
         | Some (env_ptrs, p1) \<Rightarrow> do {
             (arg, err2, st2) \<leftarrow> put_strings E fl (rev (take (nat (argc q)) (argv q))) [] p1 err1 st1;
             (case arg of
                None \<Rightarrow> Some (0, None, st2)
              | Some (arg_ptrs, p2) \<Rightarrow>
                  let execfn_ptr' = (if execfn_ptr = 0 \<and> argc q > 0 then arg_ptrs ! 0 else execfn_ptr)
                  in case aux_words (auxv_entries q h random_ptr execfn_ptr' platform_ptr) [] of
                       None \<Rightarrow> Some (0, None, st2)
                     | Some words \<Rightarrow>
                         push_structure E fl (argc q) arg_ptrs env_ptrs words (stack_align_down p2) err2 st2)
           })
      })"

definition build_linux_stack ::
  "'a access_env \<Rightarrow> stack_request \<Rightarrow> stack_host \<Rightarrow> access_state \<Rightarrow> (u64 \<times> u64 list option \<times> access_state) option" where
  "build_linux_stack E q h st =
     (let fl = stack_base q + STACK_GUARD_SIZE in
      if argc q < 0 \<or> argc q > ELFUSE_MAX_ARG_STRINGS \<or> int (length (envp q)) > ELFUSE_MAX_ARG_STRINGS
      then Some (0, None, st)
      else if stack_top q < fl then Some (0, None, st)
      else case stack_take (stack_top q) fl 16 of
        None \<Rightarrow> Some (0, None, st)
      | Some random_ptr \<Rightarrow> do {
          (rc1, st1) \<leftarrow> put_small E random_ptr (random_bytes h) st;
          (case stack_take random_ptr fl 8 of
             None \<Rightarrow> Some (0, None, st1)
           | Some platform_ptr \<Rightarrow> do {
               (rc2, st2) \<leftarrow> write_str E platform_ptr AARCH64 st1;
               (case execfn q of
                  None \<Rightarrow> build_vectors E q h fl random_ptr platform_ptr 0 platform_ptr (rc1 \<noteq> 0 \<or> rc2 \<noteq> 0) st2
                | Some s \<Rightarrow>
                    (case stack_take platform_ptr fl (word_of_nat (length s) + 1) of
                       None \<Rightarrow> Some (0, None, st2)
                     | Some execfn_ptr \<Rightarrow> do {
                         (rc3, st3) \<leftarrow> write_str E execfn_ptr s st2;
                         build_vectors E q h fl random_ptr platform_ptr execfn_ptr execfn_ptr
                           (rc1 \<noteq> 0 \<or> rc2 \<noteq> 0 \<or> rc3 \<noteq> 0) st3
                       }))
             })
        })"

end
