(* ===== verification/Initial_Stack_Theorems.thy ===== *)
theory Initial_Stack_Theorems
  imports Initial_Stack
begin

text \<open>
  What the guest finds on its initial stack. The locale \<open>byte_window\<close> is the contract the builder
  needs from the accessors: a stretch of guest addresses whose bytes can be set one by one. It is
  interpreted on \<^verbatim>\<open>guest_write\<close> and on \<^verbatim>\<open>guest_write_small\<close>.
\<close>

section \<open>The window\<close>

definition cstr_at :: "(nat \<Rightarrow> u8) \<Rightarrow> nat \<Rightarrow> cstr \<Rightarrow> bool" where
  "cstr_at b a s \<longleftrightarrow> (\<forall>i < length s. b (a + i) = s ! i) \<and> b (a + length s) = 0"

definition word_at :: "(nat \<Rightarrow> u8) \<Rightarrow> nat \<Rightarrow> u64 \<Rightarrow> bool" where
  "word_at b a v \<longleftrightarrow> (\<forall>i < 8. b (a + i) = le_bytes v ! i)"

lemma cstr_at_cong: "(\<And>x. a \<le> x \<Longrightarrow> x \<le> a + length s \<Longrightarrow> b x = b' x) \<Longrightarrow> cstr_at b a s \<longleftrightarrow> cstr_at b' a s"
  by (simp add: cstr_at_def)

lemma word_at_cong: "(\<And>x. a \<le> x \<Longrightarrow> x < a + 8 \<Longrightarrow> b x = b' x) \<Longrightarrow> word_at b a v \<longleftrightarrow> word_at b' a v"
  by (simp add: word_at_def)

lemma length_le_bytes [simp]: "length (le_bytes v) = 8"
  by (simp add: le_bytes_def)

text \<open>A word is determined by its bytes.\<close>

lemma le_bytes_inj: "le_bytes v = le_bytes w \<longleftrightarrow> v = w"
proof
  assume eq: "le_bytes v = le_bytes w"
  show "v = w"
  proof (rule bit_eqI)
    fix n assume "possible_bit TYPE(64 word) n"
    then have n: "n < 64" by simp
    have "le_bytes v ! (n div 8) = le_bytes w ! (n div 8)" using eq by simp
    moreover have "[0..<8] ! (n div 8) = n div 8" using n by (intro nth_upt [where i = 0, simplified]) simp
    ultimately have "(ucast (drop_bit (8 * (n div 8)) v) :: u8) = ucast (drop_bit (8 * (n div 8)) w)"
      using n by (simp add: le_bytes_def del: upt_Suc)
    then have "bit (ucast (drop_bit (8 * (n div 8)) v) :: u8) (n mod 8) = bit (ucast (drop_bit (8 * (n div 8)) w) :: u8) (n mod 8)"
      by simp
    then show "bit v n = bit w n" by (simp add: bit_ucast_iff bit_drop_bit_eq)
  qed
qed simp

lemma word_at_unique: "word_at b a v \<Longrightarrow> word_at b a w \<Longrightarrow> v = w"
  by (subst le_bytes_inj [symmetric]) (simp add: word_at_def list_eq_iff_nth_eq)

locale byte_window =
  fixes put :: "u64 \<Rightarrow> u8 list \<Rightarrow> 's \<Rightarrow> (int \<times> 's) option" and ok :: "'s \<Rightarrow> bool" and byte :: "'s \<Rightarrow> nat \<Rightarrow> u8"
    and lo hi :: nat
  assumes put_ok: "ok st \<Longrightarrow> lo \<le> unat a \<Longrightarrow> unat a + length bs \<le> hi \<Longrightarrow>
    \<exists>st'. put a bs st = Some (0, st') \<and> ok st' \<and>
      (\<forall>x. lo \<le> x \<and> x < hi \<longrightarrow>
         byte st' x = (if unat a \<le> x \<and> x < unat a + length bs then bs ! (x - unat a) else byte st x))"
begin

lemma put_str:
  assumes "ok st" "lo \<le> unat a" "unat a + length s < hi"
  shows "\<exists>st'. put a (s @ [0]) st = Some (0, st') \<and> ok st' \<and> cstr_at (byte st') (unat a) s
    \<and> (\<forall>x. unat a + length s < x \<and> x < hi \<longrightarrow> byte st' x = byte st x)"
  using put_ok [OF assms(1,2), of "s @ [0]"] assms(2,3) by (fastforce simp: cstr_at_def nth_append)

lemma put_word:
  assumes "ok st" "lo \<le> unat a" "unat a + 8 \<le> hi"
  shows "\<exists>st'. put a (le_bytes v) st = Some (0, st') \<and> ok st' \<and> word_at (byte st') (unat a) v
    \<and> (\<forall>x. unat a + 8 \<le> x \<and> x < hi \<longrightarrow> byte st' x = byte st x)"
  using put_ok [OF assms(1,2), of "le_bytes v"] assms(2,3) by (fastforce simp: word_at_def)

end

text \<open>
  The stretch the stack lies in: writable and readable through the same host bytes, none of which
  faults, and no two guest addresses share one.
\<close>

definition stack_window :: "'a access_env \<Rightarrow> nat \<Rightarrow> nat \<Rightarrow> access_state \<Rightarrow> bool" where
  "stack_window E lo hi st \<longleftrightarrow>
     pt_inv (tables E) \<and> backing_wf (tables E) \<and> torn_local (tearing E) \<and> tlb_ok (thread E) (tables E) (snd st)
     \<and> hi < 2 ^ 48
     \<and> (\<forall>a. lo \<le> a \<and> a < hi \<longrightarrow> (\<exists>h. gva_host MEM_PERM_W (tables E) a = Some h
          \<and> gva_host MEM_PERM_R (tables E) a = Some h \<and> \<not> faulty E h))
     \<and> inj_on (gva_host MEM_PERM_W (tables E)) {lo..<hi}"

definition seen :: "'a access_env \<Rightarrow> access_state \<Rightarrow> nat \<Rightarrow> u8" where
  "seen E st a = fst st (the (gva_host MEM_PERM_R (tables E) a))"

lemma stored_at:
  assumes "\<forall>i < n. \<forall>j < n. host i = host j \<longrightarrow> i = j" "i < n" "host i = Some a"
  shows "stored mem src host n a = src ! i"
  using assms
proof (induction n)
  case (Suc n)
  show ?case
  proof (cases "i = n")
    case True
    then show ?thesis using Suc.prems by (simp add: stored_def store_byte_def)
  next
    case False
    then have "host n \<noteq> Some a" using Suc.prems by (metis lessI)
    moreover have "stored mem src host n a = src ! i" using Suc False by simp
    ultimately show ?thesis by (auto simp: stored_def store_byte_def split: option.split)
  qed
qed simp

lemma window_write:
  assumes w: "stack_window E lo hi st" and a: "lo \<le> unat a" "unat a + length bs \<le> hi"
    and r: "writes (faulty E) (fst st) (tables E) a bs rc mem'" "tlb_ok (thread E) (tables E) tlb'"
  shows "rc = 0" "stack_window E lo hi (mem', tlb')"
    "\<forall>x. lo \<le> x \<and> x < hi \<longrightarrow>
       seen E (mem', tlb') x = (if unat a \<le> x \<and> x < unat a + length bs then bs ! (x - unat a) else seen E st x)"
proof -
  let ?W = "gva_host MEM_PERM_W (tables E)" and ?R = "gva_host MEM_PERM_R (tables E)"
  let ?host = "\<lambda>i. ?W (unat a + i)"
  have W: "\<exists>h. ?W x = Some h \<and> ?R x = Some h \<and> \<not> faulty E h" if "lo \<le> x" "x < hi" for x
    using w that by (simp add: stack_window_def)
  have inj: "x = y" if "?W x = ?W y" "lo \<le> x" "x < hi" "lo \<le> y" "y < hi" for x y
    using w that by (auto simp: stack_window_def inj_on_def)
  have "\<exists>h. ?host i = Some h \<and> \<not> faulty E h" if "i < length bs" for i using W [of "unat a + i"] that a by auto
  moreover have "unat a + length bs < 2 ^ 64" using a(2) w by (simp add: stack_window_def)
  ultimately show rc: "rc = 0" using r(1) unfolding writes_def by blast
  show "stack_window E lo hi (mem', tlb')" using w r(2) by (simp add: stack_window_def)
  have m: "mem' = stored (fst st) bs ?host (length bs)" using r(1) rc by (simp add: writes_def)
  have "mem' h = (if unat a \<le> x \<and> x < unat a + length bs then bs ! (x - unat a) else fst st h)"
    if x: "lo \<le> x" "x < hi" "?W x = Some h" for x h
  proof (cases "unat a \<le> x \<and> x < unat a + length bs")
    case True
    have d: "\<forall>i < length bs. \<forall>j < length bs. ?host i = ?host j \<longrightarrow> i = j" using inj a by fastforce
    have k: "x - unat a < length bs" "?host (x - unat a) = Some h" using True x(3) by auto
    show ?thesis using True m stored_at [OF d k, of "fst st" bs] by simp
  next
    case False
    have "\<forall>i < length bs. ?host i \<noteq> Some h"
    proof (intro allI impI notI)
      fix i assume "i < length bs" "?host i = Some h"
      then have "unat a + i = x" using inj [of "unat a + i" x] x a by simp
      then show False using False \<open>i < length bs\<close> by simp
    qed
    then show ?thesis using False stored_outside m by auto
  qed
  then show "\<forall>x. lo \<le> x \<and> x < hi \<longrightarrow>
       seen E (mem', tlb') x = (if unat a \<le> x \<and> x < unat a + length bs then bs ! (x - unat a) else seen E st x)"
    using W by (fastforce simp: seen_def)
qed

lemma guest_write_writes:
  assumes "pt_inv g" "backing_wf g" "tlb_ok self g tlb" "torn_local torn" "length src < 2 ^ 64"
  shows "\<exists>rc mem' tlb'. guest_write sigbus torn self g gva src False mem tlb = Some (rc, mem', tlb') \<and> tlb_ok self g tlb'
    \<and> writes sigbus mem g gva src rc mem'"
  unfolding writes_def by (rule guest_write_spec [OF assms])

interpretation gw: byte_window "put_bytes E" "stack_window E lo hi" "seen E" lo hi for E lo hi
proof
  fix st and a :: u64 and bs :: "u8 list"
  assume w: "stack_window E lo hi st" and a: "lo \<le> unat a" "unat a + length bs \<le> hi"
  have "length bs < 2 ^ 64" using a w by (simp add: stack_window_def)
  then obtain rc mem' tlb' where "put_bytes E a bs st = Some (rc, mem', tlb')" "tlb_ok (thread E) (tables E) tlb'"
    "writes (faulty E) (fst st) (tables E) a bs rc mem'"
    using guest_write_writes [of "tables E" "thread E" "snd st" "tearing E" bs "faulty E" a "fst st"] w
    by (auto simp: stack_window_def put_bytes_def)
  with window_write [OF w a this(3,2)]
  show "\<exists>st'. put_bytes E a bs st = Some (0, st') \<and> stack_window E lo hi st' \<and>
      (\<forall>x. lo \<le> x \<and> x < hi \<longrightarrow>
         seen E st' x = (if unat a \<le> x \<and> x < unat a + length bs then bs ! (x - unat a) else seen E st x))" by auto
qed

interpretation gs: byte_window "put_small E" "stack_window E lo hi" "seen E" lo hi for E lo hi
proof
  fix st and a :: u64 and bs :: "u8 list"
  assume w: "stack_window E lo hi st" and a: "lo \<le> unat a" "unat a + length bs \<le> hi"
  have "length bs < 2 ^ 64" using a w by (simp add: stack_window_def)
  then obtain rc mem' tlb' where "put_small E a bs st = Some (rc, mem', tlb')" "tlb_ok (thread E) (tables E) tlb'"
    "writes (faulty E) (fst st) (tables E) a bs rc mem'"
    using guest_write_small_spec [of "tables E" "thread E" "snd st" "tearing E" bs "faulty E" a "fst st"] w
    by (auto simp: stack_window_def put_small_def)
  with window_write [OF w a this(3,2)]
  show "\<exists>st'. put_small E a bs st = Some (0, st') \<and> stack_window E lo hi st' \<and>
      (\<forall>x. lo \<le> x \<and> x < hi \<longrightarrow>
         seen E st' x = (if unat a \<le> x \<and> x < unat a + length bs then bs ! (x - unat a) else seen E st x))" by auto
qed

section \<open>Strings and words\<close>

definition str_bytes :: "cstr list \<Rightarrow> nat" where
  "str_bytes ss = (\<Sum>s \<leftarrow> ss. length s + 1)"

definition str_len_ok :: "cstr list \<Rightarrow> bool" where
  "str_len_ok ss \<longleftrightarrow> (\<forall>s \<in> set ss. length s + 1 < 2 ^ 64)"

lemma str_bytes_simps [simp]:
  "str_bytes [] = 0" "str_bytes (s # ss) = length s + 1 + str_bytes ss" "str_bytes (rev ss) = str_bytes ss"
  "str_bytes (ss @ ts) = str_bytes ss + str_bytes ts"
  by (simp_all add: str_bytes_def rev_map [symmetric])

lemma stack_take_unat:
  assumes "unat fl \<le> unat p" "n < 2 ^ 64"
  shows "n \<le> unat p - unat fl \<Longrightarrow> \<exists>p'. stack_take p fl (word_of_nat n) = Some p' \<and> unat p' = unat p - n"
    and "\<not> n \<le> unat p - unat fl \<Longrightarrow> stack_take p fl (word_of_nat n) = None"
proof -
  have u: "unat (word_of_nat n :: u64) = n" using assms(2) by (simp add: unat_of_nat)
  have d: "unat (p - fl) = unat p - unat fl" using assms(1) by (simp add: unat_sub word_le_nat_alt)
  show "\<exists>p'. stack_take p fl (word_of_nat n) = Some p' \<and> unat p' = unat p - n" if "n \<le> unat p - unat fl"
    using that u d by (auto simp: stack_take_def word_less_nat_alt unat_sub word_le_nat_alt)
  show "stack_take p fl (word_of_nat n) = None" if "\<not> n \<le> unat p - unat fl"
    using that u d by (simp add: stack_take_def word_less_nat_alt)
qed

lemma stack_take_room:
  assumes "unat fl + n \<le> unat p"
  shows "\<exists>p'. stack_take p fl (word_of_nat n) = Some p' \<and> unat p' = unat p - n"
  by (intro stack_take_unat(1)) (use assms u64_unat_less [of p] in linarith)+

lemma stack_take_no_room:
  assumes "unat fl \<le> unat p" "n < 2 ^ 64" "\<not> unat fl + n \<le> unat p"
  shows "stack_take p fl (word_of_nat n) = None"
  by (intro stack_take_unat(2)) (use assms in linarith)+

lemma take_str: "word_of_nat (length s) + 1 = (word_of_nat (length s + 1) :: u64)"
  by simp

text \<open>A string placed below \<open>p\<close>, not below \<open>p'\<close>.\<close>

definition placed :: "(nat \<Rightarrow> u8) \<Rightarrow> nat \<Rightarrow> nat \<Rightarrow> u64 \<Rightarrow> cstr \<Rightarrow> bool" where
  "placed b p' p q s \<longleftrightarrow> p' \<le> unat q \<and> unat q + length s < p \<and> cstr_at b (unat q) s"

lemma placed_mono:
  assumes "placed b m p q s" "m' \<le> m" "p \<le> p''" "\<And>x. m \<le> x \<Longrightarrow> x < p \<Longrightarrow> b' x = b x"
  shows "placed b' m' p'' q s"
  using assms cstr_at_cong [of "unat q" s b' b] by (simp add: placed_def)

lemma put_strings_fit:
  assumes "stack_window E (unat fl) hi st" "unat fl \<le> unat p" "unat p \<le> hi" "str_len_ok ss"
    "str_bytes ss \<le> unat p - unat fl"
  shows "\<exists>new p' st'. put_strings E fl ss ptrs p err st = Some (Some (new @ ptrs, p'), err, st')
    \<and> stack_window E (unat fl) hi st' \<and> unat p' = unat p - str_bytes ss
    \<and> list_all2 (placed (seen E st') (unat p') (unat p)) new (rev ss)
    \<and> (\<forall>x. unat p \<le> x \<and> x < hi \<longrightarrow> seen E st' x = seen E st x)"
  using assms
proof (induction ss arbitrary: ptrs p st)
  case (Cons s ss)
  have "length s + 1 < 2 ^ 64" "length s + 1 \<le> unat p - unat fl" using Cons.prems by (simp_all add: str_len_ok_def)
  then obtain p1 where p1: "stack_take p fl (word_of_nat (length s) + 1) = Some p1" "unat p1 = unat p - (length s + 1)"
    using stack_take_unat(1) [OF Cons.prems(2), of "length s + 1"] by (auto simp: take_str)
  have b: "unat fl \<le> unat p1" "unat p1 + length s < unat p" "unat p1 + length s < hi"
    using p1(2) Cons.prems(2,3,5) by simp_all
  obtain st1 where st1: "write_str E p1 s st = Some (0, st1)" "stack_window E (unat fl) hi st1"
    "cstr_at (seen E st1) (unat p1) s" "\<forall>x. unat p1 + length s < x \<and> x < hi \<longrightarrow> seen E st1 x = seen E st x"
    using gw.put_str [OF Cons.prems(1) b(1,3)] by (auto simp: write_str_def)
  have "unat p1 \<le> hi" "str_len_ok ss" "str_bytes ss \<le> unat p1 - unat fl"
    using b p1(2) Cons.prems(4,5) by (simp_all add: str_len_ok_def)
  from Cons.IH [OF st1(2) b(1) this, of "p1 # ptrs"] obtain new p' st' where
    r: "put_strings E fl ss (p1 # ptrs) p1 err st1 = Some (Some (new @ p1 # ptrs, p'), err, st')"
      "stack_window E (unat fl) hi st'" "unat p' = unat p1 - str_bytes ss"
      "list_all2 (placed (seen E st') (unat p') (unat p1)) new (rev ss)"
      "\<forall>x. unat p1 \<le> x \<and> x < hi \<longrightarrow> seen E st' x = seen E st1 x" by blast
  have "placed (seen E st') (unat p') (unat p) p1 s"
    using placed_mono [of "seen E st1" "unat p1" "unat p" p1 s "unat p'" "unat p" "seen E st'"] r(3,5) b st1(3) Cons.prems(3)
    by (simp add: placed_def)
  moreover have "list_all2 (placed (seen E st') (unat p') (unat p)) new (rev ss)"
    using r(4) b(2) by (elim list_all2_mono) (auto intro: placed_mono)
  ultimately have "list_all2 (placed (seen E st') (unat p') (unat p)) (new @ [p1]) (rev (s # ss))"
    by (simp add: list_all2_appendI)
  moreover have "put_strings E fl (s # ss) ptrs p err st = Some (Some ((new @ [p1]) @ ptrs, p'), err, st')"
    using p1(1) st1(1) r(1) by simp
  moreover have "unat p' = unat p - str_bytes (s # ss)" using r(3) p1(2) by simp
  moreover have "\<forall>x. unat p \<le> x \<and> x < hi \<longrightarrow> seen E st' x = seen E st x" using r(5) st1(4) b(2) by auto
  ultimately show ?case using r(2) by blast
qed auto

lemma put_strings_unfit:
  assumes "stack_window E (unat fl) hi st" "unat fl \<le> unat p" "unat p \<le> hi" "str_len_ok ss"
    "\<not> str_bytes ss \<le> unat p - unat fl"
  shows "\<exists>err' st'. put_strings E fl ss ptrs p err st = Some (None, err', st')"
  using assms
proof (induction ss arbitrary: ptrs p st err)
  case (Cons s ss)
  have l: "length s + 1 < 2 ^ 64" using Cons.prems by (simp add: str_len_ok_def)
  show ?case
  proof (cases "length s + 1 \<le> unat p - unat fl")
    case False
    then show ?thesis using stack_take_unat(2) [OF Cons.prems(2) l] by (simp add: take_str)
  next
    case True
    then obtain p1 where p1: "stack_take p fl (word_of_nat (length s) + 1) = Some p1" "unat p1 = unat p - (length s + 1)"
      using stack_take_unat(1) [OF Cons.prems(2) l] by (auto simp: take_str)
    have b: "unat fl \<le> unat p1" "unat p1 + length s < hi" "unat p1 \<le> hi" using p1(2) True Cons.prems(2,3) by simp_all
    obtain st1 where st1: "write_str E p1 s st = Some (0, st1)" "stack_window E (unat fl) hi st1"
      using gw.put_str [OF Cons.prems(1) b(1,2)] by (auto simp: write_str_def)
    have "str_len_ok ss" "\<not> str_bytes ss \<le> unat p1 - unat fl"
      using True p1(2) Cons.prems(4,5) by (simp_all add: str_len_ok_def)
    from Cons.IH [OF st1(2) b(1,3) this, of "p1 # ptrs" err] show ?thesis using p1(1) st1(1) by auto
  qed
qed simp

lemma push_all_fit:
  assumes "stack_window E lo hi st" "lo + 8 * length ws \<le> unat sp" "unat sp \<le> hi"
  shows "\<exists>sp' st'. push_all E ws sp err st = Some (sp', err, st') \<and> stack_window E lo hi st'
    \<and> unat sp' = unat sp - 8 * length ws
    \<and> (\<forall>i < length ws. word_at (seen E st') (unat sp - 8 * Suc i) (ws ! i))
    \<and> (\<forall>x. unat sp \<le> x \<and> x < hi \<longrightarrow> seen E st' x = seen E st x)"
  using assms
proof (induction ws arbitrary: sp st)
  case (Cons v ws)
  have s8: "unat (sp - 8) = unat sp - 8" using Cons.prems(2) by (simp add: unat_sub word_le_nat_alt)
  have b: "lo \<le> unat (sp - 8)" "unat (sp - 8) + 8 \<le> hi" using Cons.prems s8 by simp_all
  obtain st1 where st1: "put_small E (sp - 8) (le_bytes v) st = Some (0, st1)" "stack_window E lo hi st1"
    "word_at (seen E st1) (unat (sp - 8)) v" "\<forall>x. unat (sp - 8) + 8 \<le> x \<and> x < hi \<longrightarrow> seen E st1 x = seen E st x"
    using gs.put_word [OF Cons.prems(1) b] by blast
  have "lo + 8 * length ws \<le> unat (sp - 8)" "unat (sp - 8) \<le> hi" using Cons.prems s8 by simp_all
  from Cons.IH [OF st1(2) this] obtain sp' st' where
    r: "push_all E ws (sp - 8) err st1 = Some (sp', err, st')" "stack_window E lo hi st'"
      "unat sp' = unat (sp - 8) - 8 * length ws"
      "\<forall>i < length ws. word_at (seen E st') (unat (sp - 8) - 8 * Suc i) (ws ! i)"
      "\<forall>x. unat (sp - 8) \<le> x \<and> x < hi \<longrightarrow> seen E st' x = seen E st1 x" by blast
  have "word_at (seen E st') (unat (sp - 8)) v"
    using st1(3) r(5) b word_at_cong [of "unat (sp - 8)" "seen E st'" "seen E st1" v] by simp
  then have "word_at (seen E st') (unat sp - 8 * Suc i) ((v # ws) ! i)" if "i < length (v # ws)" for i
    using that r(4) s8 by (cases i) (auto simp: algebra_simps)
  moreover have "push_all E (v # ws) sp err st = Some (sp', err, st')" using st1(1) r(1) by (simp add: push_u64_def)
  moreover have "unat sp' = unat sp - 8 * length (v # ws)" using r(3) s8 by simp
  moreover have "\<forall>x. unat sp \<le> x \<and> x < hi \<longrightarrow> seen E st' x = seen E st x" using r(5) st1(4) s8 Cons.prems(2) by auto
  ultimately show ?case using r(2) by blast
qed auto

section \<open>The structured area\<close>

definition even_up :: "nat \<Rightarrow> nat" where
  "even_up n = n + n mod 2"

lemma even_up_bounds: "even_up n \<le> n + 1" "n \<le> even_up n" "even_up n = n \<or> even_up n = n + 1" "even (even_up n)"
  by (auto simp: even_up_def mod2_eq_if)

lemma stack_pushed_words_unat:
  assumes "n < 2 ^ 20"
  shows "stack_pushed_words (word_of_nat n) = word_of_nat (even_up n)"
proof -
  have "(word_of_nat n :: u64) mod 2 = word_of_nat (n mod 2)"
    using assms by (simp add: word_unat_eq_iff unat_mod unat_of_nat)
  then show ?thesis by (simp add: stack_pushed_words_def even_up_def)
qed

lemma stack_final_sp_unat:
  assumes "unat fl \<le> unat base" "n \<le> 2 ^ 20"
  shows "8 * n \<le> unat base - unat fl \<Longrightarrow> \<exists>sp. stack_final_sp base fl (word_of_nat n) = Some sp \<and> unat sp = unat base - 8 * n"
    and "\<not> 8 * n \<le> unat base - unat fl \<Longrightarrow> stack_final_sp base fl (word_of_nat n) = None"
proof -
  have "word_of_nat n * STACK_WORD = (word_of_nat (8 * n) :: u64)" by (simp add: STACK_WORD_def)
  then have "stack_final_sp base fl (word_of_nat n) = stack_take base fl (word_of_nat (8 * n))"
    by (simp only: stack_final_sp_def stack_take_def Let_def)
  then show "8 * n \<le> unat base - unat fl \<Longrightarrow> \<exists>sp. stack_final_sp base fl (word_of_nat n) = Some sp \<and> unat sp = unat base - 8 * n"
    and "\<not> 8 * n \<le> unat base - unat fl \<Longrightarrow> stack_final_sp base fl (word_of_nat n) = None"
    using stack_take_unat [OF assms(1), of "8 * n"] assms(2) by auto
qed

lemma align_keeps: "16 dvd n \<Longrightarrow> n \<le> m \<Longrightarrow> n \<le> m - m mod 16" for n m :: nat
  by (auto simp: minus_mod_eq_mult_div less_eq_div_iff_mult_less_eq mult.commute elim!: dvdE)

lemma stack_align_down_unat: "unat (stack_align_down p) = unat p - unat p mod 16"
proof -
  have "p mod STACK_ALIGN \<le> p" by (simp add: word_le_nat_alt unat_mod)
  then show ?thesis by (simp add: stack_align_down_def unat_sub unat_mod STACK_ALIGN_def)
qed

text \<open>The words from the stack pointer up.\<close>

definition stack_vector :: "u64 list \<Rightarrow> u64 list \<Rightarrow> u64 list \<Rightarrow> u64 list" where
  "stack_vector arg_ptrs env_ptrs words = word_of_nat (length arg_ptrs) # arg_ptrs @ [0] @ env_ptrs @ [0] @ words"

lemma push_structure_unfit:
  assumes "unat fl \<le> unat p" "even_up (length (stack_vector arg_ptrs env_ptrs words)) \<le> 2 ^ 19"
    "\<not> 8 * even_up (length (stack_vector arg_ptrs env_ptrs words)) \<le> unat p - unat fl"
  shows "push_structure E fl (int (length arg_ptrs)) arg_ptrs env_ptrs words p err st = Some (0, None, st)"
proof -
  let ?n = "length (stack_vector arg_ptrs env_ptrs words)"
  have t: "int (length words) + 3 + int (length arg_ptrs) + int (length env_ptrs) = int ?n" by (simp add: stack_vector_def)
  have "?n < 2 ^ 20" using assms(2) even_up_bounds(2) [of ?n] by simp
  then show ?thesis
    using stack_final_sp_unat(2) [OF assms(1) _ assms(3)] assms(2)
    by (simp add: push_structure_def t Let_def stack_pushed_words_unat)
qed

lemma push_structure_fit:
  fixes arg_ptrs env_ptrs words :: "u64 list"
  defines "V \<equiv> stack_vector arg_ptrs env_ptrs words"
  assumes w: "stack_window E (unat fl) hi st" and p: "unat fl \<le> unat p" "unat p \<le> hi" and n: "even_up (length V) \<le> 2 ^ 19"
    and fit: "8 * even_up (length V) \<le> unat p - unat fl" and lo: "0 < unat fl"
  shows "\<exists>sp st'. push_structure E fl (int (length arg_ptrs)) arg_ptrs env_ptrs words p False st = Some (sp, Some words, st')
    \<and> sp \<noteq> 0 \<and> unat sp = unat p - 8 * even_up (length V)
    \<and> (\<forall>j < length V. word_at (seen E st') (unat sp + 8 * j) (V ! j))
    \<and> (\<forall>x. unat p \<le> x \<and> x < hi \<longrightarrow> seen E st' x = seen E st x)"
proof -
  define pad where "pad = (if even_up (length V) \<noteq> length V then [0 :: u64] else [])"
  let ?ws = "rev (V @ pad)"
  have len: "length ?ws = even_up (length V)" using even_up_bounds(3) [of "length V"] by (auto simp: pad_def)
  have l20: "length V < 2 ^ 20" using n even_up_bounds(2) [of "length V"] by simp
  have t: "int (length words) + 3 + int (length arg_ptrs) + int (length env_ptrs) = int (length V)"
    by (simp add: V_def stack_vector_def)
  obtain esp where esp: "stack_final_sp p fl (word_of_nat (even_up (length V))) = Some esp" "unat esp = unat p - 8 * even_up (length V)"
    using stack_final_sp_unat(1) [OF p(1) _ fit] n by auto
  have "(word_of_nat (even_up (length V)) :: u64) = word_of_nat (length V) \<longleftrightarrow> even_up (length V) = length V"
    using n l20 by (simp add: word_unat_eq_iff unat_of_nat)
  then have ws: "(if (word_of_nat (even_up (length V)) :: u64) \<noteq> word_of_nat (length V) then [0] else [])
      @ rev words @ [0] @ rev env_ptrs @ [0] @ rev arg_ptrs @ [word_of_nat (length arg_ptrs)] = ?ws"
    by (simp add: pad_def V_def stack_vector_def)
  have "unat fl + 8 * length ?ws \<le> unat p" using fit len p(1) by linarith
  from push_all_fit [OF w this p(2), of False] obtain sp st' where
    r: "push_all E ?ws p False st = Some (sp, False, st')" "unat sp = unat p - 8 * length ?ws"
      "\<forall>i < length ?ws. word_at (seen E st') (unat p - 8 * Suc i) (?ws ! i)"
      "\<forall>x. unat p \<le> x \<and> x < hi \<longrightarrow> seen E st' x = seen E st x" by blast
  have "sp = esp" using r(2) esp(2) len by (simp add: word_unat_eq_iff)
  moreover have "sp \<noteq> 0" using r(2) len fit lo p(1) by (auto simp: word_unat_eq_iff)
  moreover have "word_at (seen E st') (unat sp + 8 * j) (V ! j)" if "j < length V" for j
  proof -
    have j: "j < length ?ws" using that by simp
    have "?ws ! (length ?ws - Suc j) = (V @ pad) ! j" using j by (simp add: rev_nth del: rev_append)
    moreover have "unat p - 8 * Suc (length ?ws - Suc j) = unat sp + 8 * j"
      using r(2) j fit len p(1) by (simp del: length_append length_rev)
    moreover have "length ?ws - Suc j < length ?ws" using j by simp
    ultimately show ?thesis using r(3) that by (metis nth_append)
  qed
  ultimately show ?thesis
    using r(1,2,4) esp(1) len
    by (simp add: push_structure_def t Let_def stack_pushed_words_unat [OF l20] ws [simplified])
qed

lemma aux_words_ok:
  "length ws + 2 * length es \<le> LINUX_STACK_AUXV_WORDS_MAX \<Longrightarrow>
   aux_words es ws = Some (ws @ concat (map (\<lambda>(k, v). [k, v]) es))"
  by (induction es ws rule: aux_words.induct) auto

definition aux_count :: "stack_request \<Rightarrow> nat" where
  "aux_count q = 38 + (if execfd q \<ge> 0 then 2 else 0) + (if vdso_base q \<noteq> 0 then 2 else 0)"

definition auxv_words :: "stack_request \<Rightarrow> stack_host \<Rightarrow> u64 \<Rightarrow> u64 \<Rightarrow> u64 \<Rightarrow> u64 list" where
  "auxv_words q h r e p = concat (map (\<lambda>(k, v). [k, v]) (auxv_entries q h r e p))"

lemma length_auxv_words [simp]: "length (auxv_words q h r e p) = aux_count q"
  by (simp add: auxv_words_def auxv_entries_def aux_count_def)

lemma aux_words_entries: "aux_words (auxv_entries q h r e p) [] = Some (auxv_words q h r e p)"
proof -
  have "2 * length (auxv_entries q h r e p) \<le> LINUX_STACK_AUXV_WORDS_MAX"
    by (simp add: auxv_entries_def LINUX_STACK_AUXV_WORDS_MAX_def)
  then show ?thesis using aux_words_ok [of "[]"] by (simp add: auxv_words_def)
qed

definition vector_words :: "stack_request \<Rightarrow> nat" where
  "vector_words q = even_up (aux_count q + 3 + length (argv q) + length (envp q))"

lemma length_stack_vector:
  "length arg_ptrs = length (argv q) \<Longrightarrow> length env_ptrs = length (envp q) \<Longrightarrow>
   even_up (length (stack_vector arg_ptrs env_ptrs (auxv_words q h r e pl))) = vector_words q"
  unfolding vector_words_def by (rule arg_cong [of _ _ even_up]) (simp add: stack_vector_def)

text \<open>Room for the strings of the vectors below \<open>p\<close>, and for the words below those.\<close>

definition vectors_fit :: "nat \<Rightarrow> stack_request \<Rightarrow> nat \<Rightarrow> bool" where
  "vectors_fit lo q p \<longleftrightarrow>
     (let n = str_bytes (envp q) + str_bytes (argv q) in
      lo + n \<le> p \<and> lo + 8 * vector_words q \<le> (p - n) - (p - n) mod 16)"

definition request_ok :: "stack_request \<Rightarrow> stack_host \<Rightarrow> bool" where
  "request_ok q h \<longleftrightarrow> argc q = int (length (argv q)) \<and> length (argv q) \<le> 131072 \<and> length (envp q) \<le> 131072
     \<and> str_len_ok (argv q) \<and> str_len_ok (envp q) \<and> (case execfn q of None \<Rightarrow> True | Some s \<Rightarrow> str_len_ok [s])
     \<and> length (random_bytes h) = 16 \<and> calloc_ok h"

lemma vector_words_bound: "request_ok q h \<Longrightarrow> vector_words q \<le> 2 ^ 19"
  using even_up_bounds(1) [of "aux_count q + 3 + length (argv q) + length (envp q)"]
  by (simp add: request_ok_def vector_words_def aux_count_def split: if_splits)

text \<open>What the vectors leave in memory: pointers to the strings, the words above the stack pointer.\<close>

definition vectors_at :: "(nat \<Rightarrow> u8) \<Rightarrow> nat \<Rightarrow> stack_request \<Rightarrow> u64 list \<Rightarrow> u64 list \<Rightarrow> u64 list \<Rightarrow> bool" where
  "vectors_at b sp q arg_ptrs env_ptrs words \<longleftrightarrow>
     list_all2 (\<lambda>p s. cstr_at b (unat p) s) arg_ptrs (argv q)
     \<and> list_all2 (\<lambda>p s. cstr_at b (unat p) s) env_ptrs (envp q)
     \<and> (\<forall>j < length (stack_vector arg_ptrs env_ptrs words).
          word_at b (sp + 8 * j) (stack_vector arg_ptrs env_ptrs words ! j))"

lemma placed_strings:
  assumes "list_all2 (placed b m p) ptrs ss" "\<And>x. m \<le> x \<Longrightarrow> x < p \<Longrightarrow> b' x = b x"
  shows "list_all2 (\<lambda>q s. cstr_at b' (unat q) s) ptrs ss"
  using assms(1)
proof (rule list_all2_mono)
  fix q s assume "placed b m p q s"
  then have "placed b' m p q s" by (rule placed_mono) (simp_all add: assms(2))
  then show "cstr_at b' (unat q) s" by (simp add: placed_def)
qed

lemma build_vectors_fit:
  assumes w: "stack_window E (unat fl) hi st" and p: "unat fl \<le> unat p" "unat p \<le> hi" and q: "request_ok q h"
    and fl: "0 < unat fl" and fit: "vectors_fit (unat fl) q (unat p)"
  shows "\<exists>sp st' arg_ptrs env_ptrs words.
    build_vectors E q h fl random_ptr platform_ptr execfn_ptr p False st = Some (sp, Some words, st')
    \<and> sp \<noteq> 0 \<and> unat sp mod 16 = 0 \<and> unat fl \<le> unat sp
    \<and> words = auxv_words q h random_ptr (if execfn_ptr = 0 \<and> argv q \<noteq> [] then arg_ptrs ! 0 else execfn_ptr) platform_ptr
    \<and> vectors_at (seen E st') (unat sp) q arg_ptrs env_ptrs words
    \<and> (\<forall>x. unat p \<le> x \<and> x < hi \<longrightarrow> seen E st' x = seen E st x)"
proof -
  have q': "argc q = int (length (argv q))" "str_len_ok (rev (argv q))" "str_len_ok (rev (envp q))" "calloc_ok h"
    using q by (auto simp: request_ok_def str_len_ok_def)
  have fit2: "unat fl + (str_bytes (envp q) + str_bytes (argv q)) \<le> unat p"
    "unat fl + 8 * vector_words q \<le> (unat p - (str_bytes (envp q) + str_bytes (argv q)))
       - (unat p - (str_bytes (envp q) + str_bytes (argv q))) mod 16"
    using fit unfolding vectors_fit_def Let_def by blast+
  then have "str_bytes (rev (envp q)) \<le> unat p - unat fl" by simp
  from put_strings_fit [OF w p q'(3) this, of "[]" False] obtain env_ptrs p1 st1 where
    e: "put_strings E fl (rev (envp q)) [] p False st = Some (Some (env_ptrs, p1), False, st1)"
      "stack_window E (unat fl) hi st1" "unat p1 = unat p - str_bytes (envp q)"
      "list_all2 (placed (seen E st1) (unat p1) (unat p)) env_ptrs (envp q)"
      "\<forall>x. unat p \<le> x \<and> x < hi \<longrightarrow> seen E st1 x = seen E st x" by auto
  have p1: "unat fl \<le> unat p1" "unat p1 \<le> hi" "str_bytes (rev (argv q)) \<le> unat p1 - unat fl"
    using fit2(1) e(3) p by simp_all
  from put_strings_fit [OF e(2) p1(1,2) q'(2) p1(3), of "[]" False] obtain arg_ptrs p2 st2 where
    a: "put_strings E fl (rev (argv q)) [] p1 False st1 = Some (Some (arg_ptrs, p2), False, st2)"
      "stack_window E (unat fl) hi st2" "unat p2 = unat p1 - str_bytes (argv q)"
      "list_all2 (placed (seen E st2) (unat p2) (unat p1)) arg_ptrs (argv q)"
      "\<forall>x. unat p1 \<le> x \<and> x < hi \<longrightarrow> seen E st2 x = seen E st1 x" by auto
  let ?ep = "if execfn_ptr = 0 \<and> argv q \<noteq> [] then arg_ptrs ! 0 else execfn_ptr"
  let ?ws = "auxv_words q h random_ptr ?ep platform_ptr" and ?b = "stack_align_down p2"
  have len: "length arg_ptrs = length (argv q)" "length env_ptrs = length (envp q)"
    using a(4) e(4) by (auto dest: list_all2_lengthD)
  have n: "even_up (length (stack_vector arg_ptrs env_ptrs ?ws)) = vector_words q" using len by (rule length_stack_vector)
  have ba: "unat ?b = unat p2 - unat p2 mod 16" by (rule stack_align_down_unat)
  have p2: "unat p2 = unat p - (str_bytes (envp q) + str_bytes (argv q))" using a(3) e(3) by simp
  have f: "unat fl + 8 * vector_words q \<le> unat ?b" using fit2(2) unfolding ba p2 .
  have b: "unat fl \<le> unat ?b" "unat ?b \<le> unat p2" "unat ?b \<le> hi" "unat p2 \<le> unat p1" "unat p1 \<le> unat p"
  proof -
    show "unat ?b \<le> unat p2" "unat p2 \<le> unat p1" "unat p1 \<le> unat p" by (simp_all only: ba a(3) e(3) diff_le_self)
    then show "unat ?b \<le> hi" "unat fl \<le> unat ?b" using p1(2) f by linarith+
  qed
  have "8 * vector_words q \<le> unat ?b - unat fl" using f by linarith
  from push_structure_fit [OF a(2) b(1,3), of arg_ptrs env_ptrs ?ws, unfolded n, OF vector_words_bound [OF q] this fl] obtain sp st' where
    s: "push_structure E fl (int (length arg_ptrs)) arg_ptrs env_ptrs ?ws ?b False st2 = Some (sp, Some ?ws, st')"
      "sp \<noteq> 0" "unat sp = unat ?b - 8 * vector_words q"
      "\<forall>j < length (stack_vector arg_ptrs env_ptrs ?ws). word_at (seen E st') (unat sp + 8 * j) (stack_vector arg_ptrs env_ptrs ?ws ! j)"
      "\<forall>x. unat ?b \<le> x \<and> x < hi \<longrightarrow> seen E st' x = seen E st2 x" by blast
  have "build_vectors E q h fl random_ptr platform_ptr execfn_ptr p False st = Some (sp, Some ?ws, st')"
    using e(1) a(1) s(1) q'(1,4) len(1)
    by (auto simp: build_vectors_def Let_def aux_words_entries)
  moreover have "16 dvd unat sp"
  proof -
    have "16 dvd unat ?b" unfolding ba by (rule dvd_minus_mod)
    moreover have "16 dvd 8 * vector_words q" using even_up_bounds(4) by (auto simp: vector_words_def elim!: evenE)
    ultimately show ?thesis using s(3) by (simp add: dvd_diff_nat)
  qed
  moreover have "vectors_at (seen E st') (unat sp) q arg_ptrs env_ptrs ?ws"
    unfolding vectors_at_def
  proof (intro conjI)
    show "list_all2 (\<lambda>p s. cstr_at (seen E st') (unat p) s) arg_ptrs (argv q)"
      using a(4) by (rule placed_strings) (use s(5) b p1 in auto)
    show "list_all2 (\<lambda>p s. cstr_at (seen E st') (unat p) s) env_ptrs (envp q)"
      using e(4) by (rule placed_strings) (use s(5) a(5) b p in auto)
  qed (rule s(4))
  moreover have "\<forall>x. unat p \<le> x \<and> x < hi \<longrightarrow> seen E st' x = seen E st x" using s(5) a(5) e(5) b by auto
  moreover have "unat fl \<le> unat sp" using s(3) f by simp
  ultimately show ?thesis using s(2) by (intro exI conjI) (auto simp: dvd_eq_mod_eq_0)
qed

lemma build_vectors_unfit:
  assumes w: "stack_window E (unat fl) hi st" and p: "unat fl \<le> unat p" "unat p \<le> hi" and q: "request_ok q h"
    and fl: "16 dvd unat fl" and fit: "\<not> vectors_fit (unat fl) q (unat p)"
  shows "\<exists>aux st'. build_vectors E q h fl random_ptr platform_ptr execfn_ptr p False st = Some (0, aux, st')"
proof -
  have q': "argc q = int (length (argv q))" "str_len_ok (rev (argv q))" "str_len_ok (rev (envp q))" "calloc_ok h"
    using q by (auto simp: request_ok_def str_len_ok_def)
  show ?thesis
  proof (cases "str_bytes (rev (envp q)) \<le> unat p - unat fl")
    case False
    then show ?thesis using put_strings_unfit [OF w p q'(3) False, of "[]" False] q'(4)
      by (auto simp: build_vectors_def)
  next
    case True
    from put_strings_fit [OF w p q'(3) True, of "[]" False] obtain env_ptrs p1 st1 where
      e: "put_strings E fl (rev (envp q)) [] p False st = Some (Some (env_ptrs, p1), False, st1)"
        "stack_window E (unat fl) hi st1" "unat p1 = unat p - str_bytes (envp q)"
        "list_all2 (placed (seen E st1) (unat p1) (unat p)) env_ptrs (envp q)" by auto
    have p1: "unat fl \<le> unat p1" "unat p1 \<le> hi" using True e(3) p by simp_all
    show ?thesis
    proof (cases "str_bytes (rev (argv q)) \<le> unat p1 - unat fl")
      case no: False
      then show ?thesis using put_strings_unfit [OF e(2) p1 q'(2) no, of "[]" False] q'(1,4) e(1)
        by (auto simp: build_vectors_def)
    next
      case yes: True
      from put_strings_fit [OF e(2) p1 q'(2) yes, of "[]" False] obtain arg_ptrs p2 st2 where
        a: "put_strings E fl (rev (argv q)) [] p1 False st1 = Some (Some (arg_ptrs, p2), False, st2)"
          "unat p2 = unat p1 - str_bytes (argv q)"
          "list_all2 (placed (seen E st2) (unat p2) (unat p1)) arg_ptrs (argv q)" by auto
      let ?b = "stack_align_down p2"
      have len: "length arg_ptrs = length (argv q)" "length env_ptrs = length (envp q)"
        using a(3) e(4) by (auto dest: list_all2_lengthD)
      have p2: "unat p2 = unat p - (str_bytes (envp q) + str_bytes (argv q))" "unat fl \<le> unat p2"
        using a(2) e(3) yes p1(1) by simp_all
      have ba: "unat ?b = unat p2 - unat p2 mod 16" by (rule stack_align_down_unat)
      have fb: "unat fl \<le> unat ?b" unfolding ba by (rule align_keeps [OF fl p2(2)])
      have "\<not> 8 * vector_words q \<le> unat ?b - unat fl"
      proof
        assume "8 * vector_words q \<le> unat ?b - unat fl"
        then have "unat fl + 8 * vector_words q \<le> unat ?b" using fb by linarith
        moreover have "unat fl + (str_bytes (envp q) + str_bytes (argv q)) \<le> unat p" using True yes e(3) p(1) p1(1) by simp
        ultimately show False using fit unfolding vectors_fit_def Let_def ba p2(1) by blast
      qed
      then have "push_structure E fl (int (length arg_ptrs)) arg_ptrs env_ptrs (auxv_words q h r e pl) ?b False st2 = Some (0, None, st2)"
        for r e pl
        using push_structure_unfit [OF fb, of arg_ptrs env_ptrs "auxv_words q h r e pl" E False st2]
          length_stack_vector [OF len, of h r e pl] vector_words_bound [OF q] by simp
      then show ?thesis
        using e(1) a(1) q'(1,4) len(1) by (cases st2) (auto simp: build_vectors_def Let_def aux_words_entries)
    qed
  qed
qed

section \<open>The whole stack\<close>

definition fixed_bytes :: "stack_request \<Rightarrow> nat" where
  "fixed_bytes q = 24 + (case execfn q of None \<Rightarrow> 0 | Some s \<Rightarrow> length s + 1)"

definition stack_fits :: "stack_request \<Rightarrow> bool" where
  "stack_fits q \<longleftrightarrow> (let lo = unat (stack_base q + STACK_GUARD_SIZE) in
     lo + fixed_bytes q \<le> unat (stack_top q) \<and> vectors_fit lo q (unat (stack_top q) - fixed_bytes q))"

text \<open>The initial stack of the Linux ABI, read through the guest's addresses.\<close>

definition stack_layout :: "(nat \<Rightarrow> u8) \<Rightarrow> nat \<Rightarrow> stack_request \<Rightarrow> stack_host \<Rightarrow> u64 list \<Rightarrow> bool" where
  "stack_layout b sp q h words \<longleftrightarrow>
     (\<exists>arg_ptrs env_ptrs random_ptr execfn_ptr platform_ptr.
        vectors_at b sp q arg_ptrs env_ptrs words
        \<and> words = auxv_words q h random_ptr execfn_ptr platform_ptr
        \<and> (\<forall>i < 16. b (unat random_ptr + i) = random_bytes h ! i)
        \<and> cstr_at b (unat platform_ptr) AARCH64
        \<and> (case execfn q of Some s \<Rightarrow> cstr_at b (unat execfn_ptr) s
           | None \<Rightarrow> argv q \<noteq> [] \<longrightarrow> execfn_ptr = arg_ptrs ! 0))"

text \<open>The random bytes and the platform string.\<close>

definition two_strings :: "(nat \<Rightarrow> u8) \<Rightarrow> stack_host \<Rightarrow> nat \<Rightarrow> nat \<Rightarrow> u64 \<Rightarrow> u64 \<Rightarrow> bool" where
  "two_strings b h p hi random_ptr platform_ptr \<longleftrightarrow>
     p \<le> unat random_ptr \<and> unat random_ptr + 16 \<le> hi \<and> (\<forall>i < 16. b (unat random_ptr + i) = random_bytes h ! i)
     \<and> p \<le> unat platform_ptr \<and> unat platform_ptr + 7 < hi \<and> cstr_at b (unat platform_ptr) AARCH64"

lemma two_strings_mono:
  assumes "two_strings b h m hi r pl" "m' \<le> m" "\<And>x. m \<le> x \<Longrightarrow> x < hi \<Longrightarrow> b' x = b x"
  shows "two_strings b' h m' hi r pl"
  using assms cstr_at_cong [of "unat pl" AARCH64 b' b] by (simp add: two_strings_def AARCH64_def)

text \<open>The builder after its two fixed strings.\<close>

definition build_named ::
  "'a access_env \<Rightarrow> stack_request \<Rightarrow> stack_host \<Rightarrow> u64 \<Rightarrow> u64 \<Rightarrow> access_state \<Rightarrow> (u64 \<times> u64 list option \<times> access_state) option" where
  "build_named E q h random_ptr platform_ptr st =
     (let fl = stack_base q + STACK_GUARD_SIZE in
      case execfn q of
        None \<Rightarrow> build_vectors E q h fl random_ptr platform_ptr 0 platform_ptr False st
      | Some s \<Rightarrow>
          (case stack_take platform_ptr fl (word_of_nat (length s) + 1) of
             None \<Rightarrow> Some (0, None, st)
           | Some execfn_ptr \<Rightarrow> do {
               (rc3, st3) \<leftarrow> write_str E execfn_ptr s st;
               build_vectors E q h fl random_ptr platform_ptr execfn_ptr execfn_ptr (rc3 \<noteq> 0) st3
             }))"

lemma build_head:
  fixes q :: stack_request
  defines "fl \<equiv> stack_base q + STACK_GUARD_SIZE" and "hi \<equiv> unat (stack_top q)"
  assumes w: "stack_window E (unat fl) hi st" and q: "request_ok q h"
  shows "\<not> unat fl + 24 \<le> hi \<Longrightarrow> \<exists>st'. build_linux_stack E q h st = Some (0, None, st')"
    and "unat fl + 24 \<le> hi \<Longrightarrow> \<exists>st' random_ptr platform_ptr.
      build_linux_stack E q h st = build_named E q h random_ptr platform_ptr st'
      \<and> stack_window E (unat fl) hi st' \<and> unat platform_ptr = hi - 24
      \<and> two_strings (seen E st') h (hi - 24) hi random_ptr platform_ptr"
proof -
  have g: "\<not> (argc q < 0 \<or> argc q > ELFUSE_MAX_ARG_STRINGS \<or> int (length (envp q)) > ELFUSE_MAX_ARG_STRINGS)"
    using q by (simp add: request_ok_def ELFUSE_MAX_ARG_STRINGS_def)
  have rb: "length (random_bytes h) = 16" using q by (simp add: request_ok_def)
  have top: "stack_top q < fl \<longleftrightarrow> \<not> unat fl \<le> hi" by (simp add: word_less_nat_alt hi_def not_le)
  have one: "\<exists>r st1. stack_take (stack_top q) fl 16 = Some r \<and> unat r = hi - 16 \<and> put_small E r (random_bytes h) st = Some (0, st1)
      \<and> stack_window E (unat fl) hi st1 \<and> (\<forall>i < 16. seen E st1 (unat r + i) = random_bytes h ! i)"
    if f: "unat fl + 16 \<le> hi"
  proof -
    obtain r where r: "stack_take (stack_top q) fl 16 = Some r" "unat r = hi - 16"
      using stack_take_room [of fl 16 "stack_top q"] f by (auto simp: hi_def)
    have b: "unat fl \<le> unat r" "unat r + length (random_bytes h) \<le> hi" using r(2) f rb by simp_all
    from gs.put_ok [OF w b] obtain st1 where st1: "put_small E r (random_bytes h) st = Some (0, st1)" "stack_window E (unat fl) hi st1"
      "\<forall>x. unat fl \<le> x \<and> x < hi \<longrightarrow> seen E st1 x =
        (if unat r \<le> x \<and> x < unat r + length (random_bytes h) then random_bytes h ! (x - unat r) else seen E st x)" by blast
    moreover have "\<forall>i < 16. seen E st1 (unat r + i) = random_bytes h ! i" using st1(3) b rb by simp
    ultimately show ?thesis using r by blast
  qed
  have two: "\<exists>pl st2. stack_take r fl 8 = Some pl \<and> unat pl = hi - 24 \<and> write_str E pl AARCH64 st1 = Some (0, st2)
      \<and> stack_window E (unat fl) hi st2 \<and> two_strings (seen E st2) h (hi - 24) hi r pl"
    if f: "unat fl + 24 \<le> hi" and r: "unat r = hi - 16" "stack_window E (unat fl) hi st1"
      "\<forall>i < 16. seen E st1 (unat r + i) = random_bytes h ! i" for r st1
  proof -
    have "unat fl + 8 \<le> unat r" using f r(1) by simp
    from stack_take_room [OF this] obtain pl where pl: "stack_take r fl 8 = Some pl" "unat pl = unat r - 8" by auto
    have b: "unat fl \<le> unat pl" "unat pl + length AARCH64 < hi" "unat pl + 8 = unat r"
      using pl(2) f r(1) by (simp_all add: AARCH64_def)
    from gw.put_str [OF r(2) b(1,2)] obtain st2 where st2: "write_str E pl AARCH64 st1 = Some (0, st2)"
      "stack_window E (unat fl) hi st2" "cstr_at (seen E st2) (unat pl) AARCH64"
      "\<forall>x. unat pl + length AARCH64 < x \<and> x < hi \<longrightarrow> seen E st2 x = seen E st1 x"
      by (auto simp: write_str_def)
    have rh: "unat r + 16 = hi" using r(1) f by simp
    have "seen E st2 (unat r + i) = random_bytes h ! i" if "i < 16" for i
      using st2(4) [rule_format, of "unat r + i"] b(3) r(3) rh that by (simp add: AARCH64_def)
    moreover have "hi - 24 = unat pl" using rh b(3) by simp
    ultimately have "two_strings (seen E st2) h (hi - 24) hi r pl"
      using st2(3) b rh by (simp add: two_strings_def AARCH64_def)
    moreover have "unat pl = hi - 24" using pl(2) r(1) by simp
    ultimately show ?thesis using pl(1) st2(1,2) by blast
  qed
  show "\<exists>st'. build_linux_stack E q h st = Some (0, None, st')" if no: "\<not> unat fl + 24 \<le> hi"
  proof (cases "unat fl + 16 \<le> hi")
    case False
    then show ?thesis
      using stack_take_no_room [of fl "stack_top q" 16] top by (auto simp: build_linux_stack_def g fl_def [symmetric] hi_def)
  next
    case True
    from one [OF this] obtain r st1 where r: "stack_take (stack_top q) fl 16 = Some r" "unat r = hi - 16"
      "put_small E r (random_bytes h) st = Some (0, st1)" by blast
    moreover have "stack_take r fl 8 = None" using stack_take_no_room [of fl r 8] r(2) True no by simp
    ultimately show ?thesis using top True by (cases st1) (simp add: build_linux_stack_def g fl_def [symmetric])
  qed
  show "\<exists>st' random_ptr platform_ptr.
      build_linux_stack E q h st = build_named E q h random_ptr platform_ptr st'
      \<and> stack_window E (unat fl) hi st' \<and> unat platform_ptr = hi - 24
      \<and> two_strings (seen E st') h (hi - 24) hi random_ptr platform_ptr" if f: "unat fl + 24 \<le> hi"
  proof -
    from f have "unat fl + 16 \<le> hi" by simp
    from one [OF this] obtain r st1 where r: "stack_take (stack_top q) fl 16 = Some r" "unat r = hi - 16"
      "put_small E r (random_bytes h) st = Some (0, st1)" "stack_window E (unat fl) hi st1"
      "\<forall>i < 16. seen E st1 (unat r + i) = random_bytes h ! i" by blast
    from two [OF f r(2,4,5)] obtain pl st2 where p: "stack_take r fl 8 = Some pl" "unat pl = hi - 24"
      "write_str E pl AARCH64 st1 = Some (0, st2)" "stack_window E (unat fl) hi st2"
      "two_strings (seen E st2) h (hi - 24) hi r pl" by blast
    have "build_linux_stack E q h st = build_named E q h r pl st2"
      using r(1,3) p(1,3) top f
      by (simp add: build_linux_stack_def build_named_def g fl_def [symmetric] Let_def split: option.split)
    then show ?thesis using p by blast
  qed
qed

lemma layout_from_vectors:
  assumes v: "vectors_at b sp q arg_ptrs env_ptrs words"
    and ws: "words = auxv_words q h r (if e = 0 \<and> argv q \<noteq> [] then arg_ptrs ! 0 else e) pl"
    and t: "two_strings b h m hi r pl"
    and e: "case execfn q of None \<Rightarrow> e = 0 | Some s \<Rightarrow> e \<noteq> 0 \<and> cstr_at b (unat e) s"
  shows "stack_layout b sp q h words"
  unfolding stack_layout_def
proof (intro exI conjI)
  show "vectors_at b sp q arg_ptrs env_ptrs words" by (rule v)
  show "words = auxv_words q h r (if e = 0 \<and> argv q \<noteq> [] then arg_ptrs ! 0 else e) pl" by (rule ws)
  show "\<forall>i < 16. b (unat r + i) = random_bytes h ! i" "cstr_at b (unat pl) AARCH64" using t by (simp_all add: two_strings_def)
  show "case execfn q of Some s \<Rightarrow> cstr_at b (unat (if e = 0 \<and> argv q \<noteq> [] then arg_ptrs ! 0 else e)) s
    | None \<Rightarrow> argv q \<noteq> [] \<longrightarrow> (if e = 0 \<and> argv q \<noteq> [] then arg_ptrs ! 0 else e) = arg_ptrs ! 0"
    using e by (auto split: option.splits)
qed

lemma build_named_spec:
  fixes q :: stack_request
  defines "fl \<equiv> stack_base q + STACK_GUARD_SIZE" and "hi \<equiv> unat (stack_top q)"
  assumes w: "stack_window E (unat fl) hi st" and q: "request_ok q h" and fl: "16 dvd unat fl" "0 < unat fl"
    and pl: "unat pl = hi - 24" "unat fl + 24 \<le> hi" and t: "two_strings (seen E st) h (hi - 24) hi r pl"
  shows "\<exists>ret aux st'. build_named E q h r pl st = Some (ret, aux, st') \<and> (ret \<noteq> 0 \<longleftrightarrow> stack_fits q)
    \<and> (stack_fits q \<longrightarrow> unat ret mod 16 = 0 \<and> unat fl \<le> unat ret
        \<and> (\<exists>words. aux = Some words \<and> stack_layout (seen E st') (unat ret) q h words))"
proof -
  have sf: "stack_fits q \<longleftrightarrow> unat fl + fixed_bytes q \<le> hi \<and> vectors_fit (unat fl) q (hi - fixed_bytes q)"
    by (simp add: stack_fits_def Let_def fl_def hi_def)
  have core: "\<exists>ret aux st'. build_vectors E q h fl r pl e p False st1 = Some (ret, aux, st')
      \<and> (ret \<noteq> 0 \<longleftrightarrow> vectors_fit (unat fl) q (unat p))
      \<and> (vectors_fit (unat fl) q (unat p) \<longrightarrow> unat ret mod 16 = 0 \<and> unat fl \<le> unat ret
        \<and> (\<exists>words. aux = Some words \<and> stack_layout (seen E st') (unat ret) q h words))"
    if st1: "stack_window E (unat fl) hi st1" and p: "unat fl \<le> unat p" "unat p \<le> hi" "unat p \<le> hi - 24"
      and t1: "two_strings (seen E st1) h (hi - 24) hi r pl"
      and e: "case execfn q of None \<Rightarrow> e = 0 | Some s \<Rightarrow> e \<noteq> 0 \<and> unat p \<le> unat e \<and> unat e + length s < hi \<and> cstr_at (seen E st1) (unat e) s"
    for e p st1
  proof (cases "vectors_fit (unat fl) q (unat p)")
    case False
    then show ?thesis using build_vectors_unfit [OF st1 p(1,2) q fl(1) False] by auto
  next
    case True
    from build_vectors_fit [OF st1 p(1,2) q fl(2) True, of r pl e] obtain sp st' arg_ptrs env_ptrs words where
      b: "build_vectors E q h fl r pl e p False st1 = Some (sp, Some words, st')" "sp \<noteq> 0" "unat sp mod 16 = 0" "unat fl \<le> unat sp"
        "words = auxv_words q h r (if e = 0 \<and> argv q \<noteq> [] then arg_ptrs ! 0 else e) pl"
        "vectors_at (seen E st') (unat sp) q arg_ptrs env_ptrs words"
        "\<forall>x. unat p \<le> x \<and> x < hi \<longrightarrow> seen E st' x = seen E st1 x" by (elim exE conjE) (rule that)
    have "two_strings (seen E st') h (hi - 24) hi r pl" using t1 by (rule two_strings_mono) (use b(7) p(3) in auto)
    moreover have "case execfn q of None \<Rightarrow> e = 0 | Some s \<Rightarrow> e \<noteq> 0 \<and> cstr_at (seen E st') (unat e) s"
      using e b(7) cstr_at_cong [of "unat e" _ "seen E st'" "seen E st1"] by (auto split: option.splits)
    ultimately have "stack_layout (seen E st') (unat sp) q h words" by (rule layout_from_vectors [OF b(6,5)])
    then show ?thesis using b(1-4) True by (intro exI [of _ sp] exI [of _ "Some words"] exI [of _ st']) simp
  qed
  show ?thesis
  proof (cases "execfn q")
    case None
    then have "fixed_bytes q = 24" by (simp add: fixed_bytes_def)
    then show ?thesis
      using core [OF w, of pl 0] pl t None sf by (simp add: build_named_def Let_def fl_def [symmetric])
  next
    case (Some s)
    have l: "length s + 1 < 2 ^ 64" using q Some by (simp add: request_ok_def str_len_ok_def)
    have fb: "fixed_bytes q = 24 + (length s + 1)" using Some by (simp add: fixed_bytes_def)
    show ?thesis
    proof (cases "unat fl + (length s + 1) \<le> unat pl")
      case False
      then have "stack_take pl fl (word_of_nat (length s) + 1) = None"
        using stack_take_no_room [OF _ l False] pl by (simp add: take_str)
      moreover have "\<not> unat fl + fixed_bytes q \<le> hi" using False fb pl by linarith
      then have "\<not> stack_fits q" using sf by blast
      ultimately show ?thesis using Some by (cases st) (simp add: build_named_def Let_def fl_def [symmetric])
    next
      case True
      from stack_take_room [OF this] obtain e where e: "stack_take pl fl (word_of_nat (length s) + 1) = Some e"
        "unat e = unat pl - (length s + 1)" by (auto simp: take_str)
      have b: "unat fl \<le> unat e" "unat e + length s < hi" "unat e + length s < unat pl" using e(2) True pl by simp_all
      from gw.put_str [OF w b(1,2)] obtain st1 where s1: "write_str E e s st = Some (0, st1)" "stack_window E (unat fl) hi st1"
        "cstr_at (seen E st1) (unat e) s" "\<forall>x. unat e + length s < x \<and> x < hi \<longrightarrow> seen E st1 x = seen E st x"
        by (auto simp: write_str_def)
      have t1: "two_strings (seen E st1) h (hi - 24) hi r pl"
        using t by (rule two_strings_mono) (use s1(4) b(3) pl(1) in auto)
      have "e \<noteq> 0" using b(1) fl(2) by auto
      moreover have "unat e = hi - fixed_bytes q" "unat fl + fixed_bytes q \<le> hi" using e(2) pl fb True by simp_all
      ultimately show ?thesis
        using core [OF s1(2), of e e] b t1 s1(1,3) e(1) Some sf pl(1)
        by (simp add: build_named_def Let_def fl_def [symmetric])
    qed
  qed
qed

text \<open>
  C4. The stack a program starts on is the one the Linux ABI prescribes. When the strings, the
  auxiliary vector and the pointers fit above the guard page, the builder returns a 16-byte aligned
  stack pointer at which the guest reads argc, then argv and envp, each a list of pointers to the
  strings passed in, closed by a null word, then the auxiliary vector with the addresses of the random
  bytes, the platform name and the program name; otherwise, and only then, it returns 0.
\<close>

theorem build_linux_stack_layout:
  fixes q :: stack_request
  defines "fl \<equiv> stack_base q + STACK_GUARD_SIZE"
  assumes "stack_window E (unat fl) (unat (stack_top q)) st" "request_ok q h" "16 dvd unat fl" "0 < unat fl"
  shows "\<exists>ret aux st'. build_linux_stack E q h st = Some (ret, aux, st') \<and> (ret \<noteq> 0 \<longleftrightarrow> stack_fits q)
    \<and> (stack_fits q \<longrightarrow> unat ret mod 16 = 0 \<and> unat fl \<le> unat ret
        \<and> (\<exists>words. aux = Some words \<and> stack_layout (seen E st') (unat ret) q h words))"
proof (cases "unat fl + 24 \<le> unat (stack_top q)")
  case False
  then have "\<not> stack_fits q" by (auto simp: stack_fits_def Let_def fixed_bytes_def fl_def)
  then show ?thesis using build_head(1) [OF assms(2,3) [unfolded fl_def]] False fl_def by auto
next
  case True
  then show ?thesis
    using build_head(2) [OF assms(2,3) [unfolded fl_def]] build_named_spec [OF _ assms(3) assms(4,5) [unfolded fl_def]] fl_def
    by (metis (no_types, lifting))
qed

definition example_env :: "unit access_env" where
  "example_env = \<lparr>faulty = (\<lambda>_. False), tearing = (\<lambda>m p b. m), thread = 1, tables = example_pt\<rparr>"

definition example_request :: stack_request where
  "example_request = \<lparr>stack_base = 0x4FF000, stack_top = 0x510000, argc = 1, argv = [[0x6C, 0x73]], envp = [],
     elf = \<lparr>phdr_valid = True, phdr_gpa = 0x400040, phentsize = 56, phnum = 3, entry = 0x401000\<rparr>,
     elf_load_base = 0, interp_base = 0, vdso_base = 0, execfd = -1, execfn = None\<rparr>"

definition example_identity :: stack_host where
  "example_identity = \<lparr>random_bytes = replicate 16 7, uid = 0, euid = 0, gid = 0, egid = 0, calloc_ok = True\<rparr>"

lemma example_write_host:
  "0x400000 \<le> a \<Longrightarrow> a < 0x600000 \<Longrightarrow> gva_host MEM_PERM_W example_pt a = Some (0x10000000000 + word_of_nat a)"
proof -
  have "gva_host MEM_PERM_W example_pt a = gva_host MEM_PERM_R example_pt a"
    by (simp add: gva_host_def gva_gpa_def example_leaf allowed_def mem_perms)
  then show "0x400000 \<le> a \<Longrightarrow> a < 0x600000 \<Longrightarrow> ?thesis" by (simp add: example_host)
qed

lemma example_stack_window: "stack_window example_env 0x500000 0x510000 (\<lambda>_. 0, example_tlb)"
proof -
  have "inj_on (gva_host MEM_PERM_W example_pt) {0x500000..<0x510000}"
  proof (rule inj_onI)
    fix x y assume "x \<in> {0x500000..<0x510000 :: nat}" "y \<in> {0x500000..<0x510000}"
      "gva_host MEM_PERM_W example_pt x = gva_host MEM_PERM_W example_pt y"
    then have "(word_of_nat x :: u64) = word_of_nat y" "x < 2 ^ 64" "y < 2 ^ 64" by (simp_all add: example_write_host)
    then show "x = y" by (simp add: word_unat_eq_iff unat_of_nat)
  qed
  moreover have "tlb_ok 1 example_pt example_tlb" by (simp add: tlb_ok_def example_tlb_def)
  ultimately show ?thesis
    by (simp add: stack_window_def example_env_def torn_local_def example_write_host example_host)
qed

theorem build_linux_stack_layout_witness:
  "\<exists>sp words st'. build_linux_stack example_env example_request example_identity (\<lambda>_. 0, example_tlb) = Some (sp, Some words, st')
     \<and> unat sp mod 16 = 0 \<and> word_at (seen example_env st') (unat sp) 1"
proof -
  have w: "stack_window example_env (unat (stack_base example_request + STACK_GUARD_SIZE)) (unat (stack_top example_request)) (\<lambda>_. 0, example_tlb)"
    using example_stack_window by (simp add: example_request_def STACK_GUARD_SIZE_def)
  have q: "request_ok example_request example_identity"
    by (simp add: request_ok_def example_request_def example_identity_def str_len_ok_def)
  have f: "stack_fits example_request"
    by (simp add: stack_fits_def example_request_def STACK_GUARD_SIZE_def fixed_bytes_def vectors_fit_def vector_words_def
        aux_count_def even_up_def Let_def)
  have "16 dvd unat (stack_base example_request + STACK_GUARD_SIZE)" "0 < unat (stack_base example_request + STACK_GUARD_SIZE)"
    by (simp_all add: example_request_def STACK_GUARD_SIZE_def)
  from build_linux_stack_layout [OF w q this] f obtain sp words st' where
    r: "build_linux_stack example_env example_request example_identity (\<lambda>_. 0, example_tlb) = Some (sp, Some words, st')"
      "unat sp mod 16 = 0" "stack_layout (seen example_env st') (unat sp) example_request example_identity words" by auto
  from r(3) obtain arg_ptrs env_ptrs where "vectors_at (seen example_env st') (unat sp) example_request arg_ptrs env_ptrs words"
    by (auto simp: stack_layout_def)
  then have "length arg_ptrs = 1" "word_at (seen example_env st') (unat sp) (word_of_nat (length arg_ptrs))"
    by (auto simp: vectors_at_def stack_vector_def example_request_def dest!: list_all2_lengthD)
  then show ?thesis using r(1,2) by auto
qed

end
