(* ===== verification/Initial_Stack_Safety.thy ===== *)
theory Initial_Stack_Safety
  imports Initial_Stack_Theorems
begin

text \<open>
  The stack builder stays inside its stack whatever the page tables say: even when writes fail part
  way, no host byte changes that does not lie behind an address between the guard page and the top.
\<close>

definition access_ok :: "'a access_env \<Rightarrow> access_state \<Rightarrow> bool" where
  "access_ok E st \<longleftrightarrow> pt_inv (tables E) \<and> backing_wf (tables E) \<and> torn_local (tearing E) \<and> tlb_ok (thread E) (tables E) (snd st)"

definition kept :: "'a access_env \<Rightarrow> nat \<Rightarrow> nat \<Rightarrow> access_state \<Rightarrow> access_state \<Rightarrow> bool" where
  "kept E lo hi st st' \<longleftrightarrow>
     (\<forall>a. (\<forall>x. lo \<le> x \<and> x < hi \<longrightarrow> gva_host MEM_PERM_W (tables E) x \<noteq> Some a) \<longrightarrow> fst st' a = fst st a)"

lemma kept_refl [simp]: "kept E lo hi st st"
  by (simp add: kept_def)

lemma kept_trans: "kept E lo hi st st' \<Longrightarrow> kept E lo hi st' st'' \<Longrightarrow> kept E lo hi st st''"
  by (simp add: kept_def)

text \<open>A write inside the stretch, whatever its outcome.\<close>

locale confined_writer =
  fixes put :: "u64 \<Rightarrow> u8 list \<Rightarrow> 's \<Rightarrow> (int \<times> 's) option" and ok :: "'s \<Rightarrow> bool"
    and same :: "nat \<Rightarrow> nat \<Rightarrow> 's \<Rightarrow> 's \<Rightarrow> bool"
  assumes put_confined: "ok st \<Longrightarrow> lo \<le> unat a \<Longrightarrow> unat a + length bs \<le> hi \<Longrightarrow> hi < 2 ^ 64 \<Longrightarrow>
    \<exists>rc st'. put a bs st = Some (rc, st') \<and> ok st' \<and> same lo hi st st'"

lemma writes_kept:
  "writes (faulty E) (fst st) (tables E) a bs rc mem' \<Longrightarrow> lo \<le> unat a \<Longrightarrow> unat a + length bs \<le> hi \<Longrightarrow>
   kept E lo hi st (mem', tlb')"
  by (auto simp: writes_def kept_def)

interpretation cw: confined_writer "put_bytes E" "access_ok E" "kept E" for E
proof
  fix st and a :: u64 and bs :: "u8 list" and lo hi :: nat
  assume ok: "access_ok E st" and a: "lo \<le> unat a" "unat a + length bs \<le> hi" "hi < 2 ^ 64"
  then obtain rc mem' tlb' where "put_bytes E a bs st = Some (rc, mem', tlb')" "tlb_ok (thread E) (tables E) tlb'"
    "writes (faulty E) (fst st) (tables E) a bs rc mem'"
    using guest_write_writes [of "tables E" "thread E" "snd st" "tearing E" bs "faulty E" a "fst st"]
    by (auto simp: access_ok_def put_bytes_def)
  then show "\<exists>rc st'. put_bytes E a bs st = Some (rc, st') \<and> access_ok E st' \<and> kept E lo hi st st'"
    using writes_kept [OF _ a(1,2), of E st rc mem' tlb'] ok by (auto simp: access_ok_def)
qed

interpretation cs: confined_writer "put_small E" "access_ok E" "kept E" for E
proof
  fix st and a :: u64 and bs :: "u8 list" and lo hi :: nat
  assume ok: "access_ok E st" and a: "lo \<le> unat a" "unat a + length bs \<le> hi" "hi < 2 ^ 64"
  then obtain rc mem' tlb' where "put_small E a bs st = Some (rc, mem', tlb')" "tlb_ok (thread E) (tables E) tlb'"
    "writes (faulty E) (fst st) (tables E) a bs rc mem'"
    using guest_write_small_spec [of "tables E" "thread E" "snd st" "tearing E" bs "faulty E" a "fst st"]
    by (auto simp: access_ok_def put_small_def)
  then show "\<exists>rc st'. put_small E a bs st = Some (rc, st') \<and> access_ok E st' \<and> kept E lo hi st st'"
    using writes_kept [OF _ a(1,2), of E st rc mem' tlb'] ok by (auto simp: access_ok_def)
qed

lemma put_strings_kept:
  assumes "access_ok E st" "unat fl \<le> unat p" "unat p \<le> hi" "hi < 2 ^ 64" "str_len_ok ss"
  shows "\<exists>r err' st'. put_strings E fl ss ptrs p err st = Some (r, err', st') \<and> access_ok E st' \<and> kept E (unat fl) hi st st'
    \<and> (\<forall>ptrs' p'. r = Some (ptrs', p') \<longrightarrow> unat fl \<le> unat p' \<and> unat p' \<le> unat p \<and> length ptrs' = length ss + length ptrs)"
  using assms
proof (induction ss arbitrary: ptrs p err st)
  case (Cons s ss)
  have l: "length s + 1 < 2 ^ 64" using Cons.prems(5) by (simp add: str_len_ok_def)
  show ?case
  proof (cases "unat fl + (length s + 1) \<le> unat p")
    case False
    then have "stack_take p fl (word_of_nat (length s) + 1) = None"
      using stack_take_no_room [OF Cons.prems(2) l] by (simp add: take_str)
    then show ?thesis using Cons.prems(1) by (cases st) simp
  next
    case True
    from stack_take_room [OF this] obtain p1 where
      p1: "stack_take p fl (word_of_nat (length s) + 1) = Some p1" "unat p1 = unat p - (length s + 1)" by (auto simp: take_str)
    have b: "unat fl \<le> unat p1" "unat p1 \<le> unat p" "unat p1 + length (s @ [0]) \<le> hi" using p1(2) True Cons.prems(3) by simp_all
    from cw.put_confined [OF Cons.prems(1) b(1,3) Cons.prems(4)] obtain rc st1 where
      s1: "write_str E p1 s st = Some (rc, st1)" "access_ok E st1" "kept E (unat fl) hi st st1" by (auto simp: write_str_def)
    have "unat p1 \<le> hi" "str_len_ok ss" using b Cons.prems(3,5) by (simp_all add: str_len_ok_def)
    from Cons.IH [OF s1(2) b(1) this(1) Cons.prems(4) this(2), of "p1 # ptrs" "err \<or> rc \<noteq> 0"]
    show ?thesis using p1(1) s1(1,3) b(2) by (fastforce intro: kept_trans)
  qed
qed auto

lemma push_all_kept:
  assumes "access_ok E st" "lo + 8 * length ws \<le> unat sp" "unat sp \<le> hi" "hi < 2 ^ 64"
  shows "\<exists>sp' err' st'. push_all E ws sp err st = Some (sp', err', st') \<and> access_ok E st' \<and> kept E lo hi st st'"
  using assms
proof (induction ws arbitrary: sp err st)
  case (Cons v ws)
  have s8: "unat (sp - 8) = unat sp - 8" using Cons.prems(2) by (simp add: unat_sub word_le_nat_alt)
  have b: "lo \<le> unat (sp - 8)" "unat (sp - 8) + length (le_bytes v) \<le> hi" "lo + 8 * length ws \<le> unat (sp - 8)" "unat (sp - 8) \<le> hi"
    using Cons.prems s8 by simp_all
  from cs.put_confined [OF Cons.prems(1) b(1,2) Cons.prems(4)] obtain rc st1 where
    s1: "put_small E (sp - 8) (le_bytes v) st = Some (rc, st1)" "access_ok E st1" "kept E lo hi st st1" by blast
  from Cons.IH [OF s1(2) b(3,4) Cons.prems(4), of "err \<or> rc \<noteq> 0"] show ?case
    using s1 by (fastforce simp: push_u64_def intro: kept_trans)
qed auto

lemma push_structure_kept:
  assumes "access_ok E st" "unat fl \<le> unat p" "unat p \<le> hi" "hi < 2 ^ 64"
    "length (stack_vector arg_ptrs env_ptrs words) < 2 ^ 19"
  shows "\<exists>ret aux st'. push_structure E fl (int (length arg_ptrs)) arg_ptrs env_ptrs words p err st = Some (ret, aux, st')
    \<and> kept E (unat fl) hi st st'"
proof -
  let ?n = "length (stack_vector arg_ptrs env_ptrs words)"
  have e: "even_up ?n \<le> 2 ^ 19" using assms(5) even_up_bounds(1) [of ?n] by linarith
  show ?thesis
  proof (cases "8 * even_up ?n \<le> unat p - unat fl")
    case False
    have "push_structure E fl (int (length arg_ptrs)) arg_ptrs env_ptrs words p err st = Some (0, None, st)"
      by (rule push_structure_unfit [OF assms(2) e False])
    then show ?thesis using kept_refl by blast
  next
    case True
    have t: "int (length words) + 3 + int (length arg_ptrs) + int (length env_ptrs) = int ?n" by (simp add: stack_vector_def)
    have l20: "?n < 2 ^ 20" using assms(5) by simp
    obtain esp where esp: "stack_final_sp p fl (word_of_nat (even_up ?n)) = Some esp"
      using stack_final_sp_unat(1) [OF assms(2) _ True] e by auto
    let ?ws = "(if (word_of_nat (even_up ?n) :: u64) \<noteq> word_of_nat ?n then [0] else [])
      @ rev words @ [0] @ rev env_ptrs @ [0] @ rev arg_ptrs @ [word_of_nat (length arg_ptrs)]"
    have "length ?ws \<le> even_up ?n"
      using even_up_bounds(3) [of ?n] by (auto simp: stack_vector_def)
    then have "unat fl + 8 * length ?ws \<le> unat p" using True assms(2) by linarith
    from push_all_kept [OF assms(1) this assms(3,4), of err] obtain sp' err' st' where
      "push_all E ?ws p err st = Some (sp', err', st')" "kept E (unat fl) hi st st'" by blast
    then show ?thesis
      using esp by (simp add: push_structure_def t Let_def stack_pushed_words_unat [OF l20] del: push_all.simps)
  qed
qed

lemma build_vectors_kept:
  assumes ok: "access_ok E st" and p: "unat fl \<le> unat p" "unat p \<le> hi" "hi < 2 ^ 64" and q: "request_ok q h" and fl: "16 dvd unat fl"
  shows "\<exists>ret aux st'. build_vectors E q h fl r pl e p err st = Some (ret, aux, st') \<and> kept E (unat fl) hi st st'"
proof -
  have q': "argc q = int (length (argv q))" "str_len_ok (rev (argv q))" "str_len_ok (rev (envp q))" "calloc_ok h"
    using q by (auto simp: request_ok_def str_len_ok_def)
  obtain r1 err1 st1 where s1: "put_strings E fl (rev (envp q)) [] p err st = Some (r1, err1, st1)" "access_ok E st1"
    "kept E (unat fl) hi st st1"
    "\<forall>ptrs' p'. r1 = Some (ptrs', p') \<longrightarrow> unat fl \<le> unat p' \<and> unat p' \<le> unat p \<and> length ptrs' = length (envp q)"
    using put_strings_kept [OF ok p q'(3), of "[]" err] by auto
  show ?thesis
  proof (cases r1)
    case None
    then show ?thesis using s1(1,3) q'(4) by (cases st1) (auto simp: build_vectors_def)
  next
    case (Some e1)
    obtain env_ptrs p1 where e1: "r1 = Some (env_ptrs, p1)" using Some by (cases e1) simp
    have p1: "unat fl \<le> unat p1" "unat p1 \<le> hi" "length env_ptrs = length (envp q)" using s1(4) e1 p(2) by auto
    obtain r2 err2 st2 where s2: "put_strings E fl (rev (argv q)) [] p1 err1 st1 = Some (r2, err2, st2)" "access_ok E st2"
      "kept E (unat fl) hi st1 st2"
      "\<forall>ptrs' p'. r2 = Some (ptrs', p') \<longrightarrow> unat fl \<le> unat p' \<and> unat p' \<le> unat p1 \<and> length ptrs' = length (argv q)"
      using put_strings_kept [OF s1(2) p1(1,2) p(3) q'(2), of "[]" err1] by auto
    note k2 = kept_trans [OF s1(3) s2(3)]
    show ?thesis
    proof (cases r2)
      case None
      then show ?thesis using s1(1) s2(1) e1 k2 q'(1,4) by (cases st2) (auto simp: build_vectors_def)
    next
      case (Some e2)
      obtain arg_ptrs p2 where e2: "r2 = Some (arg_ptrs, p2)" using Some by (cases e2) simp
      have p2: "unat fl \<le> unat p2" "unat p2 \<le> hi" "length arg_ptrs = length (argv q)" using s2(4) e2 p1(2) by auto
      let ?b = "stack_align_down p2"
      have b: "unat fl \<le> unat ?b" "unat ?b \<le> hi"
        using align_keeps [OF fl p2(1)] p2(2) by (auto simp: stack_align_down_unat)
      have "length (stack_vector arg_ptrs env_ptrs (auxv_words q h a b c)) < 2 ^ 19" for a b c
        using q p1(3) p2(3) by (simp add: stack_vector_def request_ok_def aux_count_def)
      from push_structure_kept [OF s2(2) b p(3) this, where err = err2]
      have "\<exists>ret aux st'. push_structure E fl (int (length arg_ptrs)) arg_ptrs env_ptrs (auxv_words q h a b' c) ?b err2 st2
          = Some (ret, aux, st') \<and> kept E (unat fl) hi st2 st'" for a b' c .
      moreover have "build_vectors E q h fl r pl e p err st =
          push_structure E fl (int (length arg_ptrs)) arg_ptrs env_ptrs
            (auxv_words q h r (if e = 0 \<and> argc q > 0 then arg_ptrs ! 0 else e) pl) ?b err2 st2"
        using s1(1) s2(1) e1 e2 q'(1,4) p2(3) by (simp add: build_vectors_def Let_def aux_words_entries)
      ultimately show ?thesis using kept_trans [OF k2] by metis
    qed
  qed
qed

lemma build_tail_kept:
  fixes q :: stack_request
  defines "fl \<equiv> stack_base q + STACK_GUARD_SIZE" and "hi \<equiv> unat (stack_top q)"
  assumes ok: "access_ok E st" and p: "unat fl \<le> unat pl" "unat pl \<le> hi" and q: "request_ok q h" and fl: "16 dvd unat fl"
  shows "\<exists>ret aux st'.
    (case execfn q of
       None \<Rightarrow> build_vectors E q h fl r pl 0 pl err st
     | Some s \<Rightarrow>
         (case stack_take pl fl (word_of_nat (length s) + 1) of
            None \<Rightarrow> Some (0, None, st)
          | Some e \<Rightarrow> do { (rc3, st3) \<leftarrow> write_str E e s st; build_vectors E q h fl r pl e e (err3 rc3) st3 }))
    = Some (ret, aux, st') \<and> kept E (unat fl) hi st st'"
proof -
  have hi: "hi < 2 ^ 64" by (simp only: hi_def u64_unat_less)
  show ?thesis
  proof (cases "execfn q")
    case None
    then show ?thesis using build_vectors_kept [OF ok p hi q fl] by simp
  next
    case (Some s)
    have l: "length s + 1 < 2 ^ 64" using q Some by (simp add: request_ok_def str_len_ok_def)
    show ?thesis
    proof (cases "unat fl + (length s + 1) \<le> unat pl")
      case False
      then have "stack_take pl fl (word_of_nat (length s) + 1) = None"
        using stack_take_no_room [OF p(1) l] by (simp add: take_str)
      then show ?thesis using Some by (cases st) simp
    next
      case True
      from stack_take_room [OF this] obtain e where
        e: "stack_take pl fl (word_of_nat (length s) + 1) = Some e" "unat e = unat pl - (length s + 1)" by (auto simp: take_str)
      have b: "unat fl \<le> unat e" "unat e + length (s @ [0]) \<le> hi" "unat e \<le> hi" using e(2) True p(2) by simp_all
      from cw.put_confined [OF ok b(1,2) hi] obtain rc st1 where
        s1: "write_str E e s st = Some (rc, st1)" "access_ok E st1" "kept E (unat fl) hi st st1" by (auto simp: write_str_def)
      from build_vectors_kept [OF s1(2) b(1,3) hi q fl, of r pl e "err3 rc"] show ?thesis
        using e(1) s1 Some by (fastforce intro: kept_trans)
    qed
  qed
qed

text \<open>
  C12. Whatever the page tables map and however writes fail, building the stack changes no host byte
  except those behind guest addresses above the guard page and below the top of the stack; in
  particular the guard page and everything under it stay as they were.
\<close>

theorem build_linux_stack_confined:
  fixes q :: stack_request
  defines "fl \<equiv> stack_base q + STACK_GUARD_SIZE"
  assumes ok: "access_ok E st" and q: "request_ok q h" and fl: "16 dvd unat fl"
  shows "\<exists>ret aux st'. build_linux_stack E q h st = Some (ret, aux, st')
    \<and> (\<forall>a. (\<forall>x. unat fl \<le> x \<and> x < unat (stack_top q) \<longrightarrow> gva_host MEM_PERM_W (tables E) x \<noteq> Some a) \<longrightarrow> fst st' a = fst st a)"
proof -
  let ?hi = "unat (stack_top q)"
  have hi: "?hi < 2 ^ 64" by (rule u64_unat_less)
  have g: "\<not> (argc q < 0 \<or> argc q > ELFUSE_MAX_ARG_STRINGS \<or> int (length (envp q)) > ELFUSE_MAX_ARG_STRINGS)"
    using q by (simp add: request_ok_def ELFUSE_MAX_ARG_STRINGS_def)
  have rb: "length (random_bytes h) = 16" using q by (simp add: request_ok_def)
  note unf = build_linux_stack_def [of E q h st, folded fl_def, unfolded Let_def if_not_P [OF g]]
  have "\<exists>ret aux st'. build_linux_stack E q h st = Some (ret, aux, st') \<and> kept E (unat fl) ?hi st st'"
  proof (cases "unat fl + 16 \<le> ?hi")
    case False
    then have "stack_take (stack_top q) fl 16 = None" if "\<not> stack_top q < fl"
      using stack_take_no_room [of fl "stack_top q" 16] that by (simp add: word_less_nat_alt)
    then show ?thesis unfolding unf by (cases st) auto
  next
    case True
    then have nt: "\<not> stack_top q < fl" by (simp add: word_less_nat_alt)
    from stack_take_room [OF True] obtain r where r: "stack_take (stack_top q) fl 16 = Some r" "unat r = ?hi - 16" by auto
    have b: "unat fl \<le> unat r" "unat r + length (random_bytes h) \<le> ?hi" using r(2) True rb by simp_all
    from cs.put_confined [OF ok b hi] obtain rc1 st1 where
      s1: "put_small E r (random_bytes h) st = Some (rc1, st1)" "access_ok E st1" "kept E (unat fl) ?hi st st1" by blast
    show ?thesis
    proof (cases "unat fl + 8 \<le> unat r")
      case False
      then have "stack_take r fl 8 = None" using stack_take_no_room [OF b(1), of 8] by simp
      then show ?thesis using r(1) s1 nt unfolding unf by (cases st1) simp
    next
      case True
      from stack_take_room [OF True] obtain pl where pl: "stack_take r fl 8 = Some pl" "unat pl = unat r - 8" by auto
      have b2: "unat fl \<le> unat pl" "unat pl + length (AARCH64 @ [0]) \<le> ?hi" "unat pl \<le> ?hi"
        using pl(2) True b(2) by (simp_all add: AARCH64_def)
      from cw.put_confined [OF s1(2) b2(1,2) hi] obtain rc2 st2 where
        s2: "write_str E pl AARCH64 st1 = Some (rc2, st2)" "access_ok E st2" "kept E (unat fl) ?hi st1 st2"
        by (auto simp: write_str_def)
      from build_tail_kept [OF s2(2) b2(1,3) [unfolded fl_def] q fl [unfolded fl_def], folded fl_def,
          of r "rc1 \<noteq> 0 \<or> rc2 \<noteq> 0" "\<lambda>rc3. rc1 \<noteq> 0 \<or> rc2 \<noteq> 0 \<or> rc3 \<noteq> 0"]
      obtain ret aux st' where t: "(case execfn q of
       None \<Rightarrow> build_vectors E q h fl r pl 0 pl (rc1 \<noteq> 0 \<or> rc2 \<noteq> 0) st2
     | Some s \<Rightarrow>
         (case stack_take pl fl (word_of_nat (length s) + 1) of
            None \<Rightarrow> Some (0, None, st2)
          | Some e \<Rightarrow> do { (rc3, st3) \<leftarrow> write_str E e s st2;
                          build_vectors E q h fl r pl e e (rc1 \<noteq> 0 \<or> rc2 \<noteq> 0 \<or> rc3 \<noteq> 0) st3 })) = Some (ret, aux, st')"
        "kept E (unat fl) ?hi st2 st'" by blast
      have "build_linux_stack E q h st = Some (ret, aux, st')"
        using r(1) s1(1) pl(1) s2(1) nt t(1) unfolding unf by simp
      then show ?thesis using kept_trans [OF kept_trans [OF s1(3) s2(3)] t(2)] by blast
    qed
  qed
  then show ?thesis by (simp add: kept_def)
qed

theorem build_linux_stack_confined_witness:
  "\<exists>ret aux st'. build_linux_stack example_env example_request example_identity (\<lambda>_. 5, example_tlb) = Some (ret, aux, st')
     \<and> fst st' 0x100004FFFFF = 5"
proof -
  have ok: "access_ok example_env (\<lambda>_. 5, example_tlb)"
    by (simp add: access_ok_def example_env_def torn_local_def tlb_ok_def example_tlb_def)
  have q: "request_ok example_request example_identity"
    by (simp add: request_ok_def example_request_def example_identity_def str_len_ok_def)
  have fl: "stack_base example_request + STACK_GUARD_SIZE = 0x500000" "stack_top example_request = 0x510000"
    by (simp_all add: example_request_def STACK_GUARD_SIZE_def)
  have "gva_host MEM_PERM_W (tables example_env) x \<noteq> Some 0x100004FFFFF" if "0x500000 \<le> x" "x < 0x510000" for x
  proof
    assume "gva_host MEM_PERM_W (tables example_env) x = Some 0x100004FFFFF"
    then have "0x10000000000 + word_of_nat x = (0x100004FFFFF :: u64)"
      using example_write_host [of x] that by (simp add: example_env_def)
    then have "word_of_nat x = (0x100004FFFFF - 0x10000000000 :: u64)" by (metis add_diff_cancel_left')
    then show False using that by (simp add: word_unat_eq_iff unat_of_nat)
  qed
  with build_linux_stack_confined [OF ok q] show ?thesis unfolding fl by fastforce
qed

end
