(* ===== verification/Casefold.thy ===== *)
theory Casefold
  imports Prelude
begin

text \<open>
  The filename codec of \<^verbatim>\<open>src/src/syscall/casefold.c\<close>: guest names that a case- and
  normalization-blind volume could confuse are stored under an escaped spelling, hexadecimal for
  short names and 12-bit symbols of the CJK block for long ones. A C string is the list of its bytes
  without the terminating NUL, a pointer argument is assumed non-NULL, and an out buffer is the bytes
  written before the NUL. The \<^verbatim>\<open>uint32_t\<close> accumulators are natural numbers: they stay below
  \<open>2 ^ 20\<close>.
\<close>

type_synonym name = "u8 list"

datatype cf_errno = CF_EINVAL | CF_ENAMETOOLONG

definition CASEFOLD_PREFIX :: name where "CASEFOLD_PREFIX = [0x2E, 0x65, 0x66, 0x3D]"
definition CASEFOLD_GUEST_NAME_MAX :: nat where "CASEFOLD_GUEST_NAME_MAX = 255"
definition CASEFOLD_UNIT_MAX :: nat where "CASEFOLD_UNIT_MAX = 255"
definition CASEFOLD_HEX_MAX :: nat where
  "CASEFOLD_HEX_MAX = (CASEFOLD_UNIT_MAX - length CASEFOLD_PREFIX) div 2"
definition CASEFOLD_SYM_BITS :: nat where "CASEFOLD_SYM_BITS = 12"
definition CASEFOLD_SYMBOLS :: "nat \<Rightarrow> nat" where
  "CASEFOLD_SYMBOLS n = 1 + (8 * n + CASEFOLD_SYM_BITS - 1) div CASEFOLD_SYM_BITS"
definition CASEFOLD_HOST_NAME_MAX :: nat where
  "CASEFOLD_HOST_NAME_MAX = length CASEFOLD_PREFIX + 3 * CASEFOLD_SYMBOLS CASEFOLD_GUEST_NAME_MAX"
definition CASEFOLD_SYM_BASE :: nat where "CASEFOLD_SYM_BASE = 0x4E00"
definition CASEFOLD_SYM_COUNT :: nat where "CASEFOLD_SYM_COUNT = push_bit CASEFOLD_SYM_BITS 1"

lemma casefold_sizes [simp]:
  "length CASEFOLD_PREFIX = 4" "CASEFOLD_HEX_MAX = 125" "CASEFOLD_GUEST_NAME_MAX = 255"
  "CASEFOLD_SYM_COUNT = 4096" "CASEFOLD_SYM_BASE = 0x4E00" "CASEFOLD_SYM_BITS = 12"
  by (simp_all add: CASEFOLD_PREFIX_def CASEFOLD_HEX_MAX_def CASEFOLD_UNIT_MAX_def CASEFOLD_GUEST_NAME_MAX_def
      CASEFOLD_SYM_COUNT_def CASEFOLD_SYM_BITS_def CASEFOLD_SYM_BASE_def)

section \<open>Digits and symbols\<close>

definition is_hex_digit :: "u8 \<Rightarrow> bool" where
  "is_hex_digit c \<longleftrightarrow> (c \<ge> 0x30 \<and> c \<le> 0x39) \<or> (c \<ge> 0x61 \<and> c \<le> 0x66)"

definition hex_value :: "u8 \<Rightarrow> nat" where
  "hex_value c = (if c \<le> 0x39 then unat c - 0x30 else unat c - 0x61 + 10)"

definition hex_digit :: "nat \<Rightarrow> u8" where
  "hex_digit v = [0x30, 0x31, 0x32, 0x33, 0x34, 0x35, 0x36, 0x37, 0x38, 0x39, 0x61, 0x62, 0x63, 0x64, 0x65, 0x66] ! v"

definition symbol_read :: "u8 \<Rightarrow> u8 \<Rightarrow> u8 \<Rightarrow> nat option" where
  "symbol_read p0 p1 p2 =
     (if p0 AND 0xF0 \<noteq> 0xE0 \<or> p1 AND 0xC0 \<noteq> 0x80 \<or> p2 AND 0xC0 \<noteq> 0x80 then None
      else let cp = push_bit 12 (unat (p0 AND 0x0F)) OR push_bit 6 (unat (p1 AND 0x3F)) OR unat (p2 AND 0x3F) in
           if cp < CASEFOLD_SYM_BASE \<or> cp \<ge> CASEFOLD_SYM_BASE + CASEFOLD_SYM_COUNT then None
           else Some (cp - CASEFOLD_SYM_BASE))"

definition symbol_write :: "nat \<Rightarrow> name" where
  "symbol_write value =
     (let cp = CASEFOLD_SYM_BASE + value in
      [word_of_nat (0xE0 OR drop_bit 12 cp), word_of_nat (0x80 OR (drop_bit 6 cp AND 0x3F)),
       word_of_nat (0x80 OR (cp AND 0x3F))])"

definition bit_at :: "name \<Rightarrow> nat \<Rightarrow> nat" where
  "bit_at bytes pos =
     (if pos div 8 \<ge> length bytes then 0
      else drop_bit (7 - pos mod 8) (unat (bytes ! (pos div 8))) AND 1)"

section \<open>Decoding\<close>

fun hex_pairs :: "name \<Rightarrow> name" where
  "hex_pairs (a # b # rest) = word_of_nat (push_bit 4 (hex_value a) OR hex_value b) # hex_pairs rest"
| "hex_pairs _ = []"

text \<open>The scan of the symbols: \<open>None\<close> for too many, a truncated or a foreign one.\<close>

fun read_symbols :: "nat \<Rightarrow> name \<Rightarrow> nat list option" where
  "read_symbols nsym [] = Some []"
| "read_symbols nsym (a # b # c # rest) =
     (if nsym \<ge> CASEFOLD_SYMBOLS CASEFOLD_GUEST_NAME_MAX then None
      else case symbol_read a b c of
             None \<Rightarrow> None
           | Some v \<Rightarrow> map_option ((#) v) (read_symbols (nsym + 1) rest))"
| "read_symbols nsym _ = None"

text \<open>The drain: \<open>todo\<close> is \<^verbatim>\<open>n - produced\<close>; the result is the bytes, what is left to produce and the accumulator.\<close>

fun drain_bytes :: "nat \<Rightarrow> nat \<Rightarrow> nat \<Rightarrow> name \<times> nat \<times> nat" where
  "drain_bytes todo acc acc_bits =
     (if acc_bits \<ge> 8 \<and> todo > 0 then
        (case drain_bytes (todo - 1) acc (acc_bits - 8) of
           (bs, todo', bits) \<Rightarrow> (word_of_nat (drop_bit (acc_bits - 8) acc AND 0xFF) # bs, todo', bits))
      else ([], todo, acc_bits))"

declare drain_bytes.simps [simp del]

fun drain :: "nat \<Rightarrow> nat \<Rightarrow> nat \<Rightarrow> nat list \<Rightarrow> name \<times> nat \<times> nat" where
  "drain todo acc acc_bits [] = ([], todo, acc)"
| "drain todo acc acc_bits (s # syms) =
     (let acc1 = push_bit CASEFOLD_SYM_BITS acc OR s in
      case drain_bytes todo acc1 (acc_bits + CASEFOLD_SYM_BITS) of
        (bs, todo', bits) \<Rightarrow>
          (case drain todo' (acc1 AND (push_bit bits 1 - 1)) bits syms of
             (bs', todo'', acc'') \<Rightarrow> (bs @ bs', todo'', acc'')))"

definition decode_payload :: "name \<Rightarrow> name option" where
  "decode_payload host =
     (if take (length CASEFOLD_PREFIX) host \<noteq> CASEFOLD_PREFIX then None
      else let tail = drop (length CASEFOLD_PREFIX) host in
        if tail = [] then None
        else if is_hex_digit (hd tail) then
          (let len = length tail; n = len div 2 in
           if len mod 2 \<noteq> 0 \<or> n = 0 \<or> n > CASEFOLD_HEX_MAX then None
           else if \<not> list_all is_hex_digit tail then None
           else Some (hex_pairs tail))
        else case read_symbols 0 tail of
               None \<Rightarrow> None
             | Some syms \<Rightarrow>
                 (let n = hd syms in
                  if n \<le> CASEFOLD_HEX_MAX \<or> n > CASEFOLD_GUEST_NAME_MAX then None
                  else if length syms \<noteq> CASEFOLD_SYMBOLS n then None
                  else case drain n 0 0 (tl syms) of
                         (out, todo, acc) \<Rightarrow> if todo \<noteq> 0 then None else if acc \<noteq> 0 then None else Some out))"

definition decoded_is_legal :: "name \<Rightarrow> bool" where
  "decoded_is_legal nm =
     (if length nm = 0 \<or> length nm > CASEFOLD_GUEST_NAME_MAX then False
      else if list_ex (\<lambda>c. c = 0x2F \<or> c = 0) nm then False
      else if length nm = 1 \<and> nm ! 0 = 0x2E then False
      else if length nm = 2 \<and> nm ! 0 = 0x2E \<and> nm ! 1 = 0x2E then False
      else True)"

definition casefold_is_escaped :: "name \<Rightarrow> bool" where
  "casefold_is_escaped host =
     (case decode_payload host of None \<Rightarrow> False | Some nm \<Rightarrow> length nm > 0 \<and> decoded_is_legal nm)"

definition casefold_needs_escape :: "name \<Rightarrow> bool" where
  "casefold_needs_escape nm =
     (if nm = [] then False
      else if list_ex (\<lambda>c. c \<ge> 0x80 \<or> (c \<ge> 0x41 \<and> c \<le> 0x5A)) nm then True
      else casefold_is_escaped nm)"

section \<open>Encoding\<close>

definition hex_spelling :: "name \<Rightarrow> name" where
  "hex_spelling g = concat (map (\<lambda>c. [hex_digit (drop_bit 4 (unat c)), hex_digit (unat c AND 0x0F)]) g)"

definition symbol_value :: "name \<Rightarrow> nat \<Rightarrow> nat" where
  "symbol_value g i =
     fold (\<lambda>k value. push_bit 1 value OR bit_at g ((i - 1) * CASEFOLD_SYM_BITS + k)) [0..<CASEFOLD_SYM_BITS] 0"

definition casefold_escape :: "name \<Rightarrow> nat \<Rightarrow> cf_errno + name" where
  "casefold_escape guest outsz =
     (let n = length guest in
      if n = 0 \<or> n > CASEFOLD_GUEST_NAME_MAX \<or> 0x2F \<in> set guest then Inl CF_EINVAL
      else if guest = [0x2E] \<or> guest = [0x2E, 0x2E] then Inl CF_EINVAL
      else if n \<le> CASEFOLD_HEX_MAX then
        (if length CASEFOLD_PREFIX + 2 * n + 1 > outsz then Inl CF_ENAMETOOLONG
         else Inr (CASEFOLD_PREFIX @ hex_spelling guest))
      else
        let nsym = CASEFOLD_SYMBOLS n in
        if length CASEFOLD_PREFIX + 3 * nsym + 1 > outsz then Inl CF_ENAMETOOLONG
        else Inr (CASEFOLD_PREFIX @ symbol_write n @ concat (map (\<lambda>i. symbol_write (symbol_value guest i)) [1..<nsym])))"

definition casefold_to_guest :: "name \<Rightarrow> nat \<Rightarrow> cf_errno + name" where
  "casefold_to_guest host outsz =
     (if outsz = 0 then Inl CF_EINVAL
      else case decode_payload host of
             Some nm \<Rightarrow>
               if length nm > 0 \<and> decoded_is_legal nm
               then (if length nm + 1 > outsz then Inl CF_ENAMETOOLONG else Inr nm)
               else (if length host + 1 > outsz then Inl CF_ENAMETOOLONG else Inr host)
           | None \<Rightarrow> if length host + 1 > outsz then Inl CF_ENAMETOOLONG else Inr host)"

text \<open>The spelling rule of \<^verbatim>\<open>src/src/syscall/casefold-walk.c\<close>: what a new entry is created under.\<close>

definition name_by_rule :: "name \<Rightarrow> nat \<Rightarrow> cf_errno + name" where
  "name_by_rule guest outsz =
     (if \<not> casefold_needs_escape guest
      then (if length guest + 1 > outsz then Inl CF_ENAMETOOLONG else Inr guest)
      else casefold_escape guest outsz)"

section \<open>Facts on digits and symbols\<close>

lemma push_or_add: "y < 2 ^ n \<Longrightarrow> push_bit n x OR y = x * 2 ^ n + (y :: nat)"
proof -
  assume "y < 2 ^ n"
  then have t: "take_bit n y = y"
    by (rule take_bit_nat_eq_self)
  have "push_bit n x AND take_bit n y = 0"
    by (rule bit_eqI) (auto simp: bit_simps)
  then show ?thesis
    using disjunctive_add_eq_or [of "push_bit n x" y] by (simp add: t push_bit_eq_mult)
qed

lemma upt_16: "[0..<16] = [0, 1, 2, 3, 4, 5, 6, 7, 8, 9, 10, 11, 12, 13, 14, 15]"
  by code_simp

lemma upt_64:
  "[0..<64] = [0, 1, 2, 3, 4, 5, 6, 7, 8, 9, 10, 11, 12, 13, 14, 15, 16, 17, 18, 19, 20, 21, 22, 23, 24, 25, 26, 27,
     28, 29, 30, 31, 32, 33, 34, 35, 36, 37, 38, 39, 40, 41, 42, 43, 44, 45, 46, 47, 48, 49, 50, 51, 52, 53, 54, 55,
     56, 57, 58, 59, 60, 61, 62, 63]"
  by code_simp

lemma small_exhaust: "list_all P [0..<m] \<Longrightarrow> n < m \<Longrightarrow> P n"
  by (simp add: list_all_iff)

lemma hex_digit_value: "v < 16 \<Longrightarrow> is_hex_digit (hex_digit v) \<and> hex_value (hex_digit v) = v"
  by (rule small_exhaust [of _ 16], simp add: upt_16 is_hex_digit_def hex_value_def hex_digit_def)

lemma hex_digit_plain: "v < 16 \<Longrightarrow> hex_digit v < 0x80 \<and> \<not> (hex_digit v \<ge> 0x41 \<and> hex_digit v \<le> 0x5A)"
  by (rule small_exhaust [of _ 16], simp add: upt_16 hex_digit_def)

lemma hex_digit_codes:
  "v < 16 \<Longrightarrow> unat (hex_digit v) = [48, 49, 50, 51, 52, 53, 54, 55, 56, 57, 97, 98, 99, 100, 101, 102] ! v"
  by (rule small_exhaust [of _ 16], simp add: upt_16 hex_digit_def)

lemma is_hex_digit_cases: "is_hex_digit c \<Longrightarrow> \<exists>v<16. c = hex_digit v"
proof -
  let ?L = "[48 :: nat, 49, 50, 51, 52, 53, 54, 55, 56, 57, 97, 98, 99, 100, 101, 102]"
  assume h: "is_hex_digit c"
  have "unat c \<ge> 48 \<and> unat c \<le> 57 \<or> unat c \<ge> 97 \<and> unat c \<le> 102"
    using h by (auto simp: is_hex_digit_def word_le_nat_alt)
  then have "unat c \<in> set ?L"
    by (simp, presburger)
  then obtain v where v: "v < length ?L" "?L ! v = unat c"
    unfolding in_set_conv_nth by blast
  then have "v < 16" by simp
  moreover have "unat (hex_digit v) = ?L ! v"
    by (rule hex_digit_codes [OF \<open>v < 16\<close>])
  ultimately have "v < 16 \<and> c = hex_digit v"
    using v(2) by (simp only: word_unat_eq_iff simp_thms)
  then show ?thesis by (rule exI)
qed

lemma hex_value_digit: "is_hex_digit c \<Longrightarrow> hex_value c < 16 \<and> hex_digit (hex_value c) = c"
  using is_hex_digit_cases [of c] hex_digit_value by auto

lemma lead_byte:
  "x < 16 \<Longrightarrow> (word_of_nat (0xE0 OR x) :: u8) AND 0xF0 = 0xE0 \<and> unat ((word_of_nat (0xE0 OR x) :: u8) AND 0x0F) = x"
  by (rule small_exhaust [of _ 16], simp add: upt_16)

lemma lead_not_hex: "x < 16 \<Longrightarrow> \<not> is_hex_digit (word_of_nat (0xE0 OR x))"
  by (rule small_exhaust [of _ 16], simp add: upt_16 is_hex_digit_def)

lemma continuation_byte:
  "x < 64 \<Longrightarrow> (word_of_nat (0x80 OR x) :: u8) AND 0xC0 = 0x80 \<and> unat ((word_of_nat (0x80 OR x) :: u8) AND 0x3F) = x"
  by (rule small_exhaust [of _ 64], simp add: upt_64)

lemma byte_ones: "(0xFF :: u8) = - 1"
  by simp

lemma lead_byte_inverse:
  assumes "c AND 0xF0 = (0xE0 :: u8)"
  shows "word_of_nat (0xE0 OR unat (c AND 0x0F)) = c" and "unat (c AND 0x0F) < 16"
proof -
  have "c = (c AND 0xF0) OR (c AND 0x0F)"
    by (simp add: bit.conj_disj_distrib [symmetric] byte_ones)
  then show "word_of_nat (0xE0 OR unat (c AND 0x0F)) = c"
    using assms by (simp add: of_nat_or_eq)
  show "unat (c AND 0x0F) < 16"
    using and_mask_unat [of c 4] by (simp add: mask_eq_exp_minus_1)
qed

lemma continuation_byte_inverse:
  assumes "c AND 0xC0 = (0x80 :: u8)"
  shows "word_of_nat (0x80 OR unat (c AND 0x3F)) = c" and "unat (c AND 0x3F) < 64"
proof -
  have "c = (c AND 0xC0) OR (c AND 0x3F)"
    by (simp add: bit.conj_disj_distrib [symmetric] byte_ones)
  then show "word_of_nat (0x80 OR unat (c AND 0x3F)) = c"
    using assms by (simp add: of_nat_or_eq)
  show "unat (c AND 0x3F) < 64"
    using and_mask_unat [of c 6] by (simp add: mask_eq_exp_minus_1)
qed

section \<open>The hexadecimal tier\<close>

lemma nat_low_bits: "(n :: nat) AND 15 = n mod 16" "(n :: nat) AND 63 = n mod 64" "(n :: nat) AND 255 = n mod 256"
  using take_bit_eq_mask [of 4 n] take_bit_eq_mask [of 6 n] take_bit_eq_mask [of 8 n]
  by (simp_all add: mask_eq_exp_minus_1 take_bit_eq_mod)

lemma byte_less: "unat (c :: u8) < 256"
  using unsigned_less [of c, where ?'a = nat] by simp

lemma nibbles: "unat (c :: u8) div 16 < 16" "unat c mod 16 < 16"
  using byte_less [of c] by auto

lemma hex_spelling_Cons [simp]:
  "hex_spelling [] = []"
  "hex_spelling (c # g) = hex_digit (unat c div 16) # hex_digit (unat c mod 16) # hex_spelling g"
  by (simp_all add: hex_spelling_def drop_bit_eq_div nat_low_bits)

lemma length_hex_spelling [simp]: "length (hex_spelling g) = 2 * length g"
  by (induction g) auto

lemma hex_spelling_digits: "list_all is_hex_digit (hex_spelling g)"
  by (induction g) (auto simp: hex_digit_value nibbles)

lemma hex_pairs_spelling: "hex_pairs (hex_spelling g) = g"
  by (induction g) (simp_all add: hex_digit_value nibbles push_or_add)

lemma hex_spelling_pairs: "even (length t) \<Longrightarrow> list_all is_hex_digit t \<Longrightarrow> hex_spelling (hex_pairs t) = t"
proof (induction t rule: hex_pairs.induct)
  case (1 a b rest)
  have v: "hex_value a < 16" "hex_value b < 16" "hex_digit (hex_value a) = a" "hex_digit (hex_value b) = b"
    using 1 hex_value_digit by auto
  have "unat (word_of_nat (push_bit 4 (hex_value a) OR hex_value b) :: u8) = hex_value a * 16 + hex_value b"
    using v by (simp add: push_or_add unat_of_nat take_bit_nat_eq_self del: of_nat_add of_nat_mult)
  with v 1 show ?case by simp
qed auto

lemma length_hex_pairs: "length (hex_pairs t) = length t div 2"
  by (induction t rule: hex_pairs.induct) auto

section \<open>The symbol tier\<close>

lemma utf8_value: "(x :: nat) < 16 \<Longrightarrow> y < 64 \<Longrightarrow> z < 64 \<Longrightarrow>
    push_bit 12 x OR push_bit 6 y OR z = x * 4096 + y * 64 + z"
proof -
  assume a: "x < 16" "y < 64" "z < 64"
  have "push_bit 6 y OR z = y * 64 + z"
    using push_or_add [of z 6 y] a by simp
  moreover have "push_bit 12 x OR (y * 64 + z) = x * 4096 + (y * 64 + z)"
    using push_or_add [of "y * 64 + z" 12 x] a by simp
  ultimately show ?thesis by (simp add: or.assoc)
qed

lemma utf8_parts:
  assumes "(x :: nat) < 16" "y < 64" "z < 64"
  shows "(x * 4096 + y * 64 + z) div 4096 = x" "(x * 4096 + y * 64 + z) div 64 mod 64 = y"
    "(x * 4096 + y * 64 + z) mod 64 = z"
proof -
  have e: "x * 4096 + y * 64 + z = (x * 64 + y) * 64 + z"
    by simp
  then have d: "(x * 4096 + y * 64 + z) div 64 = x * 64 + y"
    using assms by simp
  then show "(x * 4096 + y * 64 + z) div 64 mod 64 = y"
    using assms by simp
  show "(x * 4096 + y * 64 + z) mod 64 = z"
    unfolding e using assms by (simp only: mod_mult_self3 mod_less)
  show "(x * 4096 + y * 64 + z) div 4096 = x"
    using d assms div_mult2_eq [of "x * 4096 + y * 64 + z" 64 64] by simp
qed

lemma symbol_read_write:
  assumes "v < 4096"
  shows "\<exists>a b c. symbol_write v = [a, b, c] \<and> symbol_read a b c = Some v \<and> \<not> is_hex_digit a"
proof -
  define cp where "cp = 0x4E00 + v"
  have d: "cp div 4096 < 16" "cp div 64 mod 64 < 64" "cp mod 64 < 64"
    using assms by (auto simp: cp_def)
  let ?a = "word_of_nat (0xE0 OR cp div 4096) :: u8" and ?b = "word_of_nat (0x80 OR cp div 64 mod 64) :: u8"
    and ?c = "word_of_nat (0x80 OR cp mod 64) :: u8"
  have w: "symbol_write v = [?a, ?b, ?c]"
    by (simp add: symbol_write_def cp_def drop_bit_eq_div nat_low_bits Let_def)
  have c: "cp div 4096 * 4096 + cp div 64 mod 64 * 64 + cp mod 64 = cp"
    using div_mult_mod_eq [of "cp div 64" 64] div_mult_mod_eq [of cp 64] div_mult2_eq [of cp 64 64, simplified]
    by linarith
  note l = lead_byte [OF d(1)] continuation_byte [OF d(2)] continuation_byte [OF d(3)]
  have "symbol_read ?a ?b ?c = (if cp < 0x4E00 \<or> cp \<ge> 0x4E00 + 4096 then None else Some (cp - 0x4E00))"
    unfolding symbol_read_def Let_def l [THEN conjunct2] utf8_value [OF d] c
    by (simp only: l [THEN conjunct1] casefold_sizes not_True_eq_False simp_thms if_False)
  then have r: "symbol_read ?a ?b ?c = Some v"
    using assms by (simp add: cp_def)
  have "\<not> is_hex_digit ?a"
    by (rule lead_not_hex [OF d(1)])
  with w r show ?thesis by blast
qed

lemma symbol_write_read:
  assumes "symbol_read a b c = Some v"
  shows "v < 4096 \<and> symbol_write v = [a, b, c]"
proof -
  have h: "a AND 0xF0 = 0xE0" "b AND 0xC0 = 0x80" "c AND 0xC0 = 0x80"
    using assms by (auto simp: symbol_read_def split: if_splits)
  let ?x = "unat (a AND 0x0F)" and ?y = "unat (b AND 0x3F)" and ?z = "unat (c AND 0x3F)"
  note i = lead_byte_inverse [OF h(1)] continuation_byte_inverse [OF h(2)] continuation_byte_inverse [OF h(3)]
  define cp where "cp = ?x * 4096 + ?y * 64 + ?z"
  have v: "v < 4096" "0x4E00 + v = cp"
    using assms h i(2,4,6) by (auto simp: symbol_read_def utf8_value Let_def cp_def split: if_splits)
  have "cp div 4096 = ?x" "cp div 64 mod 64 = ?y" "cp mod 64 = ?z"
    using utf8_parts [OF i(2,4,6)] by (simp_all add: cp_def)
  with v i(1,3,5) show ?thesis
    by (simp add: symbol_write_def drop_bit_eq_div nat_low_bits Let_def)
qed

lemma read_symbols_write:
  "list_all (\<lambda>v. v < 4096) vs \<Longrightarrow> k + length vs \<le> CASEFOLD_SYMBOLS CASEFOLD_GUEST_NAME_MAX \<Longrightarrow>
    read_symbols k (concat (map symbol_write vs)) = Some vs"
proof (induction vs arbitrary: k)
  case (Cons v vs)
  obtain a b c where "symbol_write v = [a, b, c]" "symbol_read a b c = Some v"
    using Cons.prems symbol_read_write [of v] by auto
  with Cons.IH [of "k + 1"] Cons.prems show ?case by simp
qed simp

lemma write_read_symbols:
  "read_symbols k t = Some vs \<Longrightarrow> t = concat (map symbol_write vs) \<and> list_all (\<lambda>v. v < 4096) vs"
proof (induction k t arbitrary: vs rule: read_symbols.induct)
  case (2 nsym a b c rest)
  then obtain v vs' where "symbol_read a b c = Some v" "read_symbols (nsym + 1) rest = Some vs'" "vs = v # vs'"
    "\<not> nsym \<ge> CASEFOLD_SYMBOLS CASEFOLD_GUEST_NAME_MAX"
    by (auto simp del: casefold_sizes split: if_splits option.splits)
  with 2 symbol_write_read [of a b c v] show ?case by auto
qed auto

text \<open>Three bytes are two symbols; a tail of one or two bytes is padded with zero bits.\<close>

fun pack :: "nat list \<Rightarrow> nat list" where
  "pack (a # b # c # rest) = (a * 16 + b div 16) # (b mod 16 * 256 + c) # pack rest"
| "pack [a, b] = [a * 16 + b div 16, b mod 16 * 256]"
| "pack [a] = [a * 16]"
| "pack [] = []"

lemma length_pack: "length (pack bs) = (8 * length bs + 11) div 12"
  by (induction bs rule: pack.induct) auto

lemma pack_less: "list_all (\<lambda>b. b < 256) bs \<Longrightarrow> list_all (\<lambda>v. v < 4096) (pack bs)"
  by (induction bs rule: pack.induct) auto

text \<open>Reading a run of bits of a number, most significant first.\<close>

lemma fold_bits:
  "k \<le> m \<Longrightarrow> fold (\<lambda>j v. 2 * v + n div 2 ^ (m - 1 - j) mod 2) [0..<k] (x :: nat) = x * 2 ^ k + n div 2 ^ (m - k) mod 2 ^ k"
proof (induction k)
  case (Suc k)
  let ?y = "n div 2 ^ (m - Suc k)"
  have "n div 2 ^ (m - k) = ?y div 2"
    using Suc.prems by (simp add: div_mult2_eq [symmetric] mult.commute flip: power_Suc Suc_diff_Suc)
  moreover have "?y mod 2 ^ Suc k = 2 * (?y div 2 mod 2 ^ k) + ?y mod 2"
    by (simp add: mod_mult2_eq)
  ultimately show ?case
    using Suc by simp
qed simp

definition byte_at :: "nat list \<Rightarrow> nat \<Rightarrow> nat" where
  "byte_at bs i = (if i < length bs then bs ! i else 0)"

lemma byte_at_Cons [simp]:
  "byte_at [] i = 0" "byte_at (b # bs) 0 = b" "byte_at (b # bs) (Suc i) = byte_at bs i"
  by (simp_all add: byte_at_def)

lemma byte_at_3: "byte_at (a # b # c # bs) (3 + i) = byte_at bs i"
  by (simp add: numeral_3_eq_3)

lemma bit_at_byte: "bit_at g pos = byte_at (map unat g) (pos div 8) div 2 ^ (7 - pos mod 8) mod 2"
  by (simp add: bit_at_def byte_at_def drop_bit_eq_div and_one_eq)

lemma nth_pack:
  "i < length (pack bs) \<Longrightarrow> pack bs ! i =
    (if even i then byte_at bs (3 * (i div 2)) * 16 + byte_at bs (3 * (i div 2) + 1) div 16
     else byte_at bs (3 * (i div 2) + 1) mod 16 * 256 + byte_at bs (3 * (i div 2) + 2))"
proof (induction bs arbitrary: i rule: pack.induct)
  case (1 a b c rest)
  consider "i = 0" | "i = 1" | j where "i = j + 2"
    by (metis One_nat_def Suc_1 add_2_eq_Suc' not0_implies_Suc)
  then show ?case
  proof cases
    case 3
    then have "pack (a # b # c # rest) ! i = pack rest ! j" "j < length (pack rest)"
      using 1(2) by auto
    moreover have "even i = even j" "3 * (i div 2) = 3 + 3 * (j div 2)"
      using 3 by auto
    ultimately show ?thesis
      using 1(1) [of j] by (simp only: byte_at_3 add.assoc)
  qed (simp_all add: numeral_2_eq_2)
qed (auto simp: less_Suc_eq numeral_2_eq_2)

lemma fold_bit_at:
  "fold (\<lambda>k value. push_bit 1 value OR bit_at g (p + k)) ks (x :: nat) = fold (\<lambda>k v. 2 * v + bit_at g (p + k)) ks x"
  by (rule fold_cong) (auto simp: bit_at_byte push_or_add [of _ 1, simplified] intro!: ext)

lemma fold_shift: "fold f [m..<m + k] x = fold (\<lambda>j. f (m + j)) [0..<k] x"
proof -
  have "[m..<m + k] = map (\<lambda>j. m + j) [0..<k]"
    using map_add_upt [of m k] by (simp add: add.commute)
  then show ?thesis by (simp add: fold_map o_def)
qed

lemma byte_run:
  assumes "p = 8 * i + (8 - m)" "k \<le> m" "m \<le> 8"
  shows "fold (\<lambda>j v. 2 * v + bit_at g (p + j)) [0..<k] x = x * 2 ^ k + byte_at (map unat g) i div 2 ^ (m - k) mod 2 ^ k"
proof -
  have "(p + j) div 8 = i \<and> 7 - (p + j) mod 8 = m - 1 - j" if j: "j < k" for j
  proof -
    obtain r where "p + j = 8 * i + r" "r < 8" "7 - r = m - 1 - j"
      using assms j by (intro that [of "8 - m + j"]) auto
    then show ?thesis by simp
  qed
  then have "fold (\<lambda>j v. 2 * v + bit_at g (p + j)) [0..<k] x
      = fold (\<lambda>j v. 2 * v + byte_at (map unat g) i div 2 ^ (m - 1 - j) mod 2) [0..<k] x"
    by (intro fold_cong) (auto simp: bit_at_byte intro!: ext)
  then show ?thesis using fold_bits [OF assms(2)] by simp
qed

lemma symbol_value_pack:
  assumes "m < length (pack (map unat g))"
  shows "symbol_value g (Suc m) = pack (map unat g) ! m"
proof -
  let ?B = "byte_at (map unat g)"
  have B: "?B i < 256" for i
    using byte_less by (simp add: byte_at_def)
  let ?f = "\<lambda>p k v. 2 * v + bit_at g (p + k)"
  have v: "symbol_value g (Suc m) = fold (?f (m * 12)) [0..<12] 0"
    unfolding symbol_value_def by (simp only: casefold_sizes fold_bit_at diff_Suc_1)
  have split: "fold (?f p) [0..<12] 0 = fold (?f (p + l)) [0..<12 - l] (fold (?f p) [0..<l] 0)" if "l \<le> 12" for p l
    using upt_add_eq_append [of 0 l "12 - l"] fold_shift [of "?f p" l "12 - l"] that by (simp add: add.assoc)
  show ?thesis
  proof (cases "even m")
    case True
    define j where "j = m div 2"
    have m: "m * 12 = 24 * j"
      using True by (auto simp: j_def)
    have "symbol_value g (Suc m) = ?B (3 * j) * 16 + ?B (3 * j + 1) div 16"
      unfolding v m split [of 8, simplified]
      using byte_run [of "24 * j" "3 * j" 8 8 g 0] byte_run [of "24 * j + 8" "3 * j + 1" 8 4 g "?B (3 * j)"]
        B [of "3 * j"] B [of "3 * j + 1"] by simp
    then show ?thesis
      using nth_pack [OF assms] True by (simp add: j_def)
  next
    case False
    define j where "j = m div 2"
    have m: "m * 12 = 24 * j + 12"
      using False by (auto simp: j_def elim!: oddE)
    have "symbol_value g (Suc m) = ?B (3 * j + 1) mod 16 * 256 + ?B (3 * j + 2)"
      unfolding v m split [of 4, simplified]
      using byte_run [of "24 * j + 12" "3 * j + 1" 4 4 g 0]
        byte_run [of "16 + 24 * j" "3 * j + 2" 8 8 g "?B (3 * j + 1) mod 16"]
        B [of "3 * j + 1"] B [of "3 * j + 2"] by simp
    then show ?thesis
      using nth_pack [OF assms] False by (simp add: j_def)
  qed
qed

lemma symbol_values: "map (symbol_value g) [1..<CASEFOLD_SYMBOLS (length g)] = pack (map unat g)"
proof (rule nth_equalityI)
  have n: "CASEFOLD_SYMBOLS (length g) - 1 = length (pack (map unat g))"
    by (simp add: CASEFOLD_SYMBOLS_def length_pack add.commute)
  show "length (map (symbol_value g) [1..<CASEFOLD_SYMBOLS (length g)]) = length (pack (map unat g))"
    using n by simp
  then show "map (symbol_value g) [1..<CASEFOLD_SYMBOLS (length g)] ! i = pack (map unat g) ! i"
    if "i < length (map (symbol_value g) [1..<CASEFOLD_SYMBOLS (length g)])" for i
    using that symbol_value_pack [of i g] by simp
qed

lemma low_mask: "x AND (push_bit n 1 - 1) = x mod 2 ^ n" for x :: nat
  using take_bit_eq_mask [of n x] by (simp add: mask_eq_exp_minus_1 take_bit_eq_mod push_bit_eq_mult)

lemma drain_first:
  assumes "s < 4096"
  shows "drain (Suc n) 0 0 (s # r) =
    (case drain n (s mod 16) 4 r of (bs, t, acc) \<Rightarrow> (word_of_nat (s div 16) # bs, t, acc))"
  using assms
  by (simp add: drain_bytes.simps [of "Suc n"] drain_bytes.simps [of n s 4] low_mask nat_low_bits drop_bit_eq_div
      del: push_bit_of_1 split: prod.splits)

lemma drain_second:
  assumes "s < 4096" "x < 16"
  shows "drain (Suc (Suc n)) x 4 (s # r) =
    (case drain n 0 0 r of (bs, t, acc) \<Rightarrow> (word_of_nat (x * 16 + s div 256) # word_of_nat (s mod 256) # bs, t, acc))"
    and "drain (Suc 0) x 4 [s] = ([word_of_nat (x * 16 + s div 256)], 0, s mod 256)"
proof -
  have a: "push_bit 12 x OR s = x * 4096 + s"
    using push_or_add [of s 12 x] assms by simp
  have "x * 4096 + s = s + 256 * (x * 16)" by simp
  then have q: "(x * 4096 + s) div 256 = x * 16 + s div 256" "(x * 4096 + s) mod 256 = s mod 256"
    by (simp_all only: mod_mult_self2 div_mult_self2)
  have b: "(x * 16 + s div 256) mod 256 = x * 16 + s div 256"
    using assms by simp
  have eq: "drain_bytes (Suc (Suc n)) (x * 4096 + s) 16 = ([word_of_nat (x * 16 + s div 256), word_of_nat (s mod 256)], n, 0)"
    by (simp add: drain_bytes.simps [of "Suc (Suc n)"] drain_bytes.simps [of "Suc n"] drain_bytes.simps [of n _ 0]
        nat_low_bits drop_bit_eq_div q b)
  have eq1: "drain_bytes (Suc 0) (x * 4096 + s) 16 = ([word_of_nat (x * 16 + s div 256)], 0, 8)"
    by (simp add: drain_bytes.simps [of "Suc 0"] drain_bytes.simps [of 0] nat_low_bits drop_bit_eq_div q b)
  show "drain (Suc (Suc n)) x 4 (s # r) =
    (case drain n 0 0 r of (bs, t, acc) \<Rightarrow> (word_of_nat (x * 16 + s div 256) # word_of_nat (s mod 256) # bs, t, acc))"
    by (simp add: a eq Let_def split: prod.splits)
  show "drain (Suc 0) x 4 [s] = ([word_of_nat (x * 16 + s div 256)], 0, s mod 256)"
    using low_mask [of "x * 4096 + s" 8] by (simp add: a eq1 q Let_def)
qed

lemma pack_inverse:
  assumes "a < 256" "b < 256" "c < (256 :: nat)"
  shows "a * 16 + b div 16 < 4096" "b mod 16 * 256 + c < 4096" "(a * 16 + b div 16) div 16 = a"
    "(a * 16 + b div 16) mod 16 = b div 16" "b div 16 * 16 + (b mod 16 * 256 + c) div 256 = b"
    "(b mod 16 * 256 + c) mod 256 = c"
  using assms by auto

lemma drain_two:
  assumes "s1 < 4096" "s2 < 4096"
  shows "drain (Suc (Suc (Suc n))) 0 0 (s1 # s2 # r) =
    (case drain n 0 0 r of (bs, t, acc) \<Rightarrow>
       (word_of_nat (s1 div 16) # word_of_nat (s1 mod 16 * 16 + s2 div 256) # word_of_nat (s2 mod 256) # bs, t, acc))"
    and "drain (Suc (Suc 0)) 0 0 [s1, s2] =
      ([word_of_nat (s1 div 16), word_of_nat (s1 mod 16 * 16 + s2 div 256)], 0, s2 mod 256)"
proof -
  have x: "s1 mod 16 < 16" by simp
  show "drain (Suc (Suc (Suc n))) 0 0 (s1 # s2 # r) =
    (case drain n 0 0 r of (bs, t, acc) \<Rightarrow>
       (word_of_nat (s1 div 16) # word_of_nat (s1 mod 16 * 16 + s2 div 256) # word_of_nat (s2 mod 256) # bs, t, acc))"
    unfolding drain_first [OF assms(1)] drain_second(1) [OF assms(2) x] by (simp only: split: prod.splits) simp
  show "drain (Suc (Suc 0)) 0 0 [s1, s2] =
      ([word_of_nat (s1 div 16), word_of_nat (s1 mod 16 * 16 + s2 div 256)], 0, s2 mod 256)"
    unfolding drain_first [OF assms(1)] drain_second(2) [OF assms(2) x] by (simp only: prod.case)
qed

lemma drain_pack: "list_all (\<lambda>b. b < 256) bs \<Longrightarrow> drain (length bs) 0 0 (pack bs) = (map word_of_nat bs, 0, 0)"
proof (induction bs rule: pack.induct)
  case (1 a b c rest)
  then have l: "a < 256" "b < 256" "c < 256" and IH: "drain (length rest) 0 0 (pack rest) = (map word_of_nat rest, 0, 0)"
    by auto
  note i = pack_inverse [OF l]
  show ?case
    using drain_two(1) [OF i(1,2), of "length rest" "pack rest", unfolded i(3-6) IH] by (simp only: pack.simps) simp
next
  case (2 a b)
  then have "a < 256" "b < 256" "0 < (256 :: nat)"
    by auto
  note i = pack_inverse [OF this]
  show ?case
    using drain_two(2) [OF i(1,2), unfolded i(3-6)] by (simp only: pack.simps) simp
qed (simp_all add: drain_first del: drain.simps(2))

lemma unat_byte: "n < 256 \<Longrightarrow> unat (word_of_nat n :: u8) = n"
  by (simp add: unat_of_nat take_bit_nat_eq_self)

lemma unpack_bytes:
  assumes "s1 < 4096" "s2 < (4096 :: nat)"
  shows "unat (word_of_nat (s1 div 16) :: u8) = s1 div 16"
    "unat (word_of_nat (s1 mod 16 * 16 + s2 div 256) :: u8) = s1 mod 16 * 16 + s2 div 256"
    "unat (word_of_nat (s2 mod 256) :: u8) = s2 mod 256"
    "s1 div 16 * 16 + (s1 mod 16 * 16 + s2 div 256) div 16 = s1"
    "(s1 mod 16 * 16 + s2 div 256) mod 16 * 256 + s2 mod 256 = s2"
proof -
  have "s2 div 256 < 16" "s1 div 16 < 256"
    using assms by auto
  moreover from this have "s1 mod 16 * 16 + s2 div 256 < 256"
    using mod_less_divisor [of 16 s1] by linarith
  ultimately show "unat (word_of_nat (s1 div 16) :: u8) = s1 div 16"
    "unat (word_of_nat (s1 mod 16 * 16 + s2 div 256) :: u8) = s1 mod 16 * 16 + s2 div 256"
    "unat (word_of_nat (s2 mod 256) :: u8) = s2 mod 256"
    "s1 div 16 * 16 + (s1 mod 16 * 16 + s2 div 256) div 16 = s1"
    "(s1 mod 16 * 16 + s2 div 256) mod 16 * 256 + s2 mod 256 = s2"
    by (simp_all only: unat_byte mod_less_divisor zero_less_numeral) simp_all
qed

lemma pack_drain:
  "length syms = (8 * n + 11) div 12 \<Longrightarrow> list_all (\<lambda>v. v < 4096) syms \<Longrightarrow> drain n 0 0 syms = (out, todo, acc) \<Longrightarrow>
    todo = 0 \<and> length out = n \<and> (acc = 0 \<longrightarrow> syms = pack (map unat out))"
proof (induction n arbitrary: syms out rule: less_induct)
  case (less n)
  consider "n = 0" | "n = 1" | "n = 2" | k where "n = Suc (Suc (Suc k))"
    by (metis One_nat_def Suc_1 not0_implies_Suc)
  then show ?case
  proof cases
    case 1
    with less.prems show ?thesis by simp
  next
    case 2
    then have "length syms = Suc 0"
      using less.prems(1) by simp
    then obtain s1 where s: "syms = [s1]" "s1 < 4096"
      using less.prems(2) by (auto simp: length_Suc_conv)
    then have "out = [word_of_nat (s1 div 16)]" "todo = 0" "acc = s1 mod 16"
      using less.prems(3) 2 drain_first [of s1 0 "[]"] by auto
    then show ?thesis
      using unpack_bytes(1) [of s1 0] s 2 by (simp, presburger)
  next
    case 3
    then have "length syms = Suc (Suc 0)"
      using less.prems(1) by simp
    then obtain s1 s2 where s: "syms = [s1, s2]" "s1 < 4096" "s2 < 4096"
      using less.prems(2) by (auto simp: length_Suc_conv)
    then have "out = [word_of_nat (s1 div 16), word_of_nat (s1 mod 16 * 16 + s2 div 256)]" "todo = 0" "acc = s2 mod 256"
      using less.prems(3) 3 drain_two(2) [of s1 s2] by (simp_all only: numeral_2_eq_2 prod.inject)
    then show ?thesis
      using unpack_bytes [OF s(2,3)] s 3 by (simp del: of_nat_add of_nat_mult)
  next
    case 4
    then have "length syms = Suc (Suc ((8 * k + 11) div 12))"
      using less.prems(1) by simp
    then obtain s1 s2 r where s: "syms = s1 # s2 # r" "s1 < 4096" "s2 < 4096" "length r = (8 * k + 11) div 12"
      "list_all (\<lambda>v. v < 4096) r"
      using less.prems(2) by (auto simp: length_Suc_conv)
    obtain out' where d: "drain k 0 0 r = (out', todo, acc)"
      "out = word_of_nat (s1 div 16) # word_of_nat (s1 mod 16 * 16 + s2 div 256) # word_of_nat (s2 mod 256) # out'"
      using less.prems(3) s 4
      by (auto simp: drain_two(1) simp del: drain.simps(2) of_nat_add of_nat_mult split: prod.splits)
    then show ?thesis
      using less.IH [OF _ s(4,5) d(1)] 4 s unpack_bytes [OF s(2,3)]
      by (auto simp del: of_nat_add of_nat_mult)
  qed
qed

section \<open>The codec\<close>

text \<open>The payload a name is spelled with, whatever the buffer.\<close>

definition spelling :: "name \<Rightarrow> name" where
  "spelling g = CASEFOLD_PREFIX @
     (if length g \<le> 125 then hex_spelling g else concat (map symbol_write (length g # pack (map unat g))))"

lemma CASEFOLD_SYMBOLS_pack: "CASEFOLD_SYMBOLS (length g) = Suc (length (pack (map unat g)))"
  by (simp add: CASEFOLD_SYMBOLS_def length_pack add.commute)

lemma pack_bytes_less: "list_all (\<lambda>v. v < 4096) (pack (map unat (g :: name)))"
  by (rule pack_less) (simp add: list_all_iff byte_less)

lemma length_symbol_write: "length (symbol_write v) = 3"
  by (simp add: symbol_write_def Let_def)

lemma length_symbols: "length (concat (map symbol_write vs)) = 3 * length vs"
  by (induction vs) (simp_all add: length_symbol_write)

lemma length_spelling:
  "length (spelling g) = 4 + (if length g \<le> 125 then 2 * length g else 3 * CASEFOLD_SYMBOLS (length g))"
  unfolding spelling_def CASEFOLD_SYMBOLS_pack by (simp add: length_symbols length_symbol_write)

lemma casefold_escape_spelling:
  "casefold_escape g outsz =
     (if length g = 0 \<or> length g > 255 \<or> 0x2F \<in> set g \<or> g = [0x2E] \<or> g = [0x2E, 0x2E] then Inl CF_EINVAL
      else if length (spelling g) + 1 > outsz then Inl CF_ENAMETOOLONG else Inr (spelling g))"
proof -
  have "concat (map (\<lambda>i. symbol_write (symbol_value g i)) [1..<CASEFOLD_SYMBOLS (length g)])
      = concat (map symbol_write (pack (map unat g)))"
    unfolding symbol_values [symmetric] by (simp only: map_map o_def)
  then have l: "CASEFOLD_PREFIX @ symbol_write (length g) @
      concat (map (\<lambda>i. symbol_write (symbol_value g i)) [1..<CASEFOLD_SYMBOLS (length g)]) = spelling g"
    if "\<not> length g \<le> 125"
    using that by (simp only: spelling_def if_False list.map concat.simps)
  show ?thesis
  proof (cases "length g \<le> 125")
    case True
    then show ?thesis
      by (auto simp add: casefold_escape_def Let_def spelling_def)
  next
    case False
    show ?thesis
      unfolding casefold_escape_def Let_def l [OF False] using False by (auto simp add: length_spelling)
  qed
qed

lemma decode_spelling:
  assumes "0 < length g" "length g \<le> 255"
  shows "decode_payload (spelling g) = Some g"
proof (cases "length g \<le> 125")
  case True
  have "is_hex_digit (hd (hex_spelling g))" "hex_spelling g \<noteq> []"
    using assms hex_spelling_digits [of g] by (cases g; simp add: hex_digit_value nibbles)+
  then show ?thesis
    using True assms hex_spelling_digits [of g]
    by (simp add: decode_payload_def spelling_def Let_def hex_pairs_spelling)
next
  case False
  let ?vs = "length g # pack (map unat g)"
  have "length ?vs \<le> CASEFOLD_SYMBOLS CASEFOLD_GUEST_NAME_MAX"
    using assms(2) by (simp add: length_pack CASEFOLD_SYMBOLS_def)
  then have r: "read_symbols 0 (concat (map symbol_write ?vs)) = Some ?vs"
    using assms(2) pack_bytes_less by (intro read_symbols_write) (auto simp del: casefold_sizes)
  obtain a t where a: "concat (map symbol_write ?vs) = a # t" "\<not> is_hex_digit a"
    using symbol_read_write [of "length g"] assms(2) by auto
  have d: "drain (length g) 0 0 (pack (map unat g)) = (g, 0, 0)"
    using drain_pack [of "map unat g"] by (simp add: list_all_iff byte_less o_def)
  have "length ?vs = CASEFOLD_SYMBOLS (length g)"
    by (simp add: CASEFOLD_SYMBOLS_pack)
  with False assms a r d show ?thesis
    by (simp add: decode_payload_def spelling_def Let_def del: concat.simps list.map)
qed

lemma spelling_decode:
  assumes "decode_payload h = Some g"
  shows "h = spelling g" and "0 < length g" and "length g \<le> 255"
proof -
  define t where "t = drop 4 h"
  have "take 4 h = CASEFOLD_PREFIX" and t: "t \<noteq> []"
    using assms by (auto simp: decode_payload_def t_def Let_def split: if_splits)
  then have h: "h = CASEFOLD_PREFIX @ t" "t \<noteq> []"
    using append_take_drop_id [of 4 h] by (simp_all add: t_def)
  have "h = spelling g \<and> 0 < length g \<and> length g \<le> 255"
  proof (cases "is_hex_digit (hd t)")
    case True
    then have "g = hex_pairs t" "even (length t)" "0 < length t div 2" "length t div 2 \<le> 125" "list_all is_hex_digit t"
      using assms h by (auto simp: decode_payload_def Let_def split: if_splits)
    then show ?thesis
      using h hex_spelling_pairs [of t] by (simp add: spelling_def length_hex_pairs)
  next
    case False
    then obtain syms todo acc where r: "read_symbols 0 t = Some syms" and n: "125 < hd syms" "hd syms \<le> 255"
      "length syms = CASEFOLD_SYMBOLS (hd syms)" and d: "drain (hd syms) 0 0 (tl syms) = (g, todo, acc)" "acc = 0"
      using assms h by (auto simp: decode_payload_def Let_def split: if_splits option.splits prod.splits)
    note w = write_read_symbols [OF r]
    then obtain v vs where s: "syms = v # vs"
      using h(2) by (cases syms) auto
    have "length vs = (8 * v + 11) div 12" "list_all (\<lambda>v. v < 4096) vs"
      using n w s by (simp_all add: CASEFOLD_SYMBOLS_def add.commute)
    from pack_drain [OF this d(1) [unfolded s list.sel]] have "length g = v" "vs = pack (map unat g)"
      using d(2) by auto
    then show ?thesis
      using h w s n by (simp add: spelling_def)
  qed
  then show "h = spelling g" "0 < length g" "length g \<le> 255" by auto
qed

lemma decoded_is_legal_iff:
  "decoded_is_legal g \<longleftrightarrow> \<not> (length g = 0 \<or> length g > 255 \<or> 0x2F \<in> set g \<or> g = [0x2E] \<or> g = [0x2E, 0x2E]) \<and> 0 \<notin> set g"
  by (auto simp: decoded_is_legal_def list_ex_iff length_Suc_conv numeral_2_eq_2)

lemma legal_length: "decoded_is_legal g \<Longrightarrow> 0 < length g \<and> length g \<le> 255"
  by (simp add: decoded_is_legal_iff)

lemma escape_legal: "decoded_is_legal g \<Longrightarrow> casefold_escape g outsz = Inr h \<longleftrightarrow> h = spelling g \<and> length h < outsz"
  by (auto simp: casefold_escape_spelling decoded_is_legal_iff)

lemma is_escaped_iff: "casefold_is_escaped h \<longleftrightarrow> (\<exists>g. decoded_is_legal g \<and> h = spelling g)"
proof
  assume "casefold_is_escaped h"
  then obtain g where "decode_payload h = Some g" "decoded_is_legal g"
    by (auto simp: casefold_is_escaped_def split: option.splits)
  then show "\<exists>g. decoded_is_legal g \<and> h = spelling g"
    using spelling_decode by blast
next
  assume "\<exists>g. decoded_is_legal g \<and> h = spelling g"
  then obtain g where "decoded_is_legal g" "h = spelling g" by blast
  then show "casefold_is_escaped h"
    using decode_spelling [of g] by (simp add: casefold_is_escaped_def decoded_is_legal_iff)
qed

lemma to_guest_spelling: "decoded_is_legal g \<Longrightarrow>
    casefold_to_guest (spelling g) outsz =
      (if outsz = 0 then Inl CF_EINVAL else if length g + 1 > outsz then Inl CF_ENAMETOOLONG else Inr g)"
  using decode_spelling [of g] by (auto simp: casefold_to_guest_def decoded_is_legal_iff)

lemma to_guest_plain: "\<not> casefold_is_escaped h \<Longrightarrow>
    casefold_to_guest h outsz =
      (if outsz = 0 then Inl CF_EINVAL else if length h + 1 > outsz then Inl CF_ENAMETOOLONG else Inr h)"
  by (auto simp: casefold_to_guest_def casefold_is_escaped_def split: option.splits)

section \<open>What the volume sees of a spelling\<close>

definition ascii_lower :: "u8 \<Rightarrow> u8" where
  "ascii_lower c = (if c \<ge> 0x41 \<and> c \<le> 0x5A then c + 0x20 else c)"

text \<open>UTF-16 code units of a UTF-8 name within the basic plane: every byte but a continuation byte starts one.\<close>

definition utf16_units :: "name \<Rightarrow> nat" where
  "utf16_units h = length (filter (\<lambda>c. c AND 0xC0 \<noteq> 0x80) h)"

lemma lead_fold: "x < 16 \<Longrightarrow> ascii_lower (word_of_nat (0xE0 OR x)) = word_of_nat (0xE0 OR x) \<and> (word_of_nat (0xE0 OR x) :: u8) AND 0xC0 \<noteq> 0x80"
  by (rule small_exhaust [of _ 16], simp add: upt_16 ascii_lower_def)

lemma continuation_fold: "x < 64 \<Longrightarrow> ascii_lower (word_of_nat (0x80 OR x)) = word_of_nat (0x80 OR x)"
  by (rule small_exhaust [of _ 64], simp add: upt_64 ascii_lower_def)

lemma hex_digit_fold: "v < 16 \<Longrightarrow> ascii_lower (hex_digit v) = hex_digit v \<and> hex_digit v AND 0xC0 \<noteq> 0x80"
  by (rule small_exhaust [of _ 16], simp add: upt_16 ascii_lower_def hex_digit_def)

lemma symbol_write_seen:
  assumes "v < 4096"
  shows "map ascii_lower (symbol_write v) = symbol_write v \<and> utf16_units (symbol_write v) = 1"
proof -
  define cp where "cp = 0x4E00 + v"
  have d: "cp div 4096 < 16" "cp div 64 mod 64 < 64" "cp mod 64 < 64"
    using assms by (auto simp: cp_def)
  have "symbol_write v = [word_of_nat (0xE0 OR cp div 4096), word_of_nat (0x80 OR cp div 64 mod 64), word_of_nat (0x80 OR cp mod 64)]"
    by (simp add: symbol_write_def cp_def drop_bit_eq_div nat_low_bits Let_def)
  then show ?thesis
    using lead_fold [OF d(1)] continuation_fold [OF d(2)] continuation_fold [OF d(3)]
      continuation_byte [OF d(2)] continuation_byte [OF d(3)] by (simp add: utf16_units_def)
qed

lemma utf16_units_append: "utf16_units (a @ b) = utf16_units a + utf16_units b"
  by (simp add: utf16_units_def)

lemma symbols_seen: "list_all (\<lambda>v. v < 4096) vs \<Longrightarrow>
    map ascii_lower (concat (map symbol_write vs)) = concat (map symbol_write vs) \<and>
    utf16_units (concat (map symbol_write vs)) = length vs"
  by (induction vs) (auto simp: symbol_write_seen utf16_units_append simp del: map_concat, simp add: utf16_units_def)

lemma hex_seen: "map ascii_lower (hex_spelling g) = hex_spelling g \<and> utf16_units (hex_spelling g) = 2 * length g"
  by (induction g) (auto simp: hex_digit_fold nibbles utf16_units_def)

lemma spelling_seen:
  assumes "length g \<le> 255"
  shows "map ascii_lower (spelling g) = spelling g" and "utf16_units (spelling g) \<le> CASEFOLD_UNIT_MAX"
proof -
  have p: "map ascii_lower CASEFOLD_PREFIX = CASEFOLD_PREFIX" "utf16_units CASEFOLD_PREFIX = 4"
    by (simp_all add: CASEFOLD_PREFIX_def ascii_lower_def utf16_units_def)
  have "list_all (\<lambda>v. v < 4096) (length g # pack (map unat g))"
    using assms pack_bytes_less by simp
  note symbols_seen [OF this] 
  moreover have "length (pack (map unat g)) \<le> 170"
    using assms by (simp add: length_pack)
  ultimately show "map ascii_lower (spelling g) = spelling g" "utf16_units (spelling g) \<le> CASEFOLD_UNIT_MAX"
    using hex_seen [of g] p
    by (auto simp: spelling_def utf16_units_append CASEFOLD_UNIT_MAX_def simp del: list.map concat.simps map_concat)
qed

section \<open>The naming contract\<close>

text \<open>
  What a directory needs of an escape: distinct legal names are spelled apart, and exactly the
  spellings are recognised. A rule that escapes at least every spelling then never gives two guest
  names one host name, and reading a host name back is unambiguous.
\<close>

locale name_codec =
  fixes legal :: "name \<Rightarrow> bool" and enc :: "name \<Rightarrow> name" and escaped :: "name \<Rightarrow> bool"
    and dec :: "name \<Rightarrow> name option"
  assumes dec_enc: "legal g \<Longrightarrow> dec (enc g) = Some g"
    and escaped_iff: "escaped h \<longleftrightarrow> (\<exists>g. legal g \<and> h = enc g)"
begin

lemma enc_inj: "legal g \<Longrightarrow> legal g' \<Longrightarrow> enc g = enc g' \<Longrightarrow> g = g'"
  using dec_enc by (metis option.inject)

lemma rule_inj:
  assumes "legal g" "legal g'" "\<And>h. escaped h \<Longrightarrow> needs h"
    "(if needs g then enc g else g) = (if needs g' then enc g' else g')"
  shows "g = g'"
proof (cases "needs g = needs g'")
  case True
  then show ?thesis using assms enc_inj by (auto split: if_splits)
next
  case False
  then show ?thesis using assms(1-4) escaped_iff by (auto split: if_splits)
qed

end

interpretation cf: name_codec decoded_is_legal spelling casefold_is_escaped decode_payload
  by unfold_locales (blast dest: legal_length intro: decode_spelling, rule is_escaped_iff)

lemma needs_escape_escaped: "casefold_is_escaped h \<Longrightarrow> casefold_needs_escape h"
proof -
  assume e: "casefold_is_escaped h"
  have "decode_payload [] = None"
    by (simp add: decode_payload_def CASEFOLD_PREFIX_def)
  then have "h \<noteq> []"
    using e by (auto simp: casefold_is_escaped_def)
  then show ?thesis
    using e by (simp add: casefold_needs_escape_def)
qed

lemma plain_seen:
  assumes "\<not> casefold_needs_escape g"
  shows "map ascii_lower g = g" and "utf16_units g = length g"
proof -
  have c: "\<not> (c \<ge> 0x80 \<or> (c \<ge> 0x41 \<and> c \<le> 0x5A))" if "c \<in> set g" for c
    using assms that by (auto simp: casefold_needs_escape_def list_ex_iff split: if_splits)
  show "map ascii_lower g = g"
    using c by (intro map_idI) (auto simp: ascii_lower_def)
  have "c AND 0xC0 \<noteq> 0x80" if "c \<in> set g" for c
  proof
    assume "c AND 0xC0 = 0x80"
    then have "0x80 \<le> c"
      using word_and_le1 [of c "0xC0"] word_and_le2 [of c "0xC0"] by simp
    with c [OF that] show False by simp
  qed
  then show "utf16_units g = length g"
    by (simp add: utf16_units_def)
qed

lemma name_by_rule_legal:
  "decoded_is_legal g \<Longrightarrow> name_by_rule g outsz = Inr h \<longleftrightarrow>
     h = (if casefold_needs_escape g then spelling g else g) \<and> length h < outsz"
  by (auto simp: name_by_rule_def escape_legal)

section \<open>Properties\<close>

text \<open>
  C11. Escaping then reading back is the identity: the host name \<open>casefold_escape\<close> writes for a legal
  guest name (not empty, at most 255 bytes, no slash, no NUL, not dot or dot-dot) is recognised as
  an escape, and \<open>casefold_to_guest\<close> into a buffer that holds the name returns exactly that name, in the
  hexadecimal and in the symbol tier.
\<close>

theorem casefold_round_trip:
  assumes "decoded_is_legal g" "casefold_escape g outsz = Inr h" "length g < insz"
  shows "casefold_is_escaped h \<and> casefold_to_guest h insz = Inr g"
proof -
  have h: "h = spelling g"
    using assms(1,2) escape_legal by blast
  then have "casefold_is_escaped h"
    using assms(1) is_escaped_iff by blast
  then show ?thesis
    using to_guest_spelling [OF assms(1), of insz] assms(3) h by simp
qed

theorem casefold_round_trip_witness:
  "casefold_is_escaped [0x2E, 0x65, 0x66, 0x3D, 0x34, 0x36, 0x36, 0x66] \<and>
   casefold_to_guest [0x2E, 0x65, 0x66, 0x3D, 0x34, 0x36, 0x36, 0x66] 3 = Inr [0x46, 0x6F]"
  by (rule casefold_round_trip [where outsz = 9])
    (simp_all add: decoded_is_legal_def casefold_escape_def hex_digit_def CASEFOLD_PREFIX_def)

text \<open>
  C29. Every escape is the only spelling of its name: a host name that counts as an escape decodes
  to a legal guest name, and escaping that name gives back the very same host bytes. No two host
  names of a directory can therefore list as one guest name through the codec.
\<close>

theorem casefold_canonical:
  assumes "casefold_is_escaped h" "length h < outsz"
  shows "\<exists>g. decoded_is_legal g \<and> casefold_to_guest h (CASEFOLD_GUEST_NAME_MAX + 1) = Inr g \<and> casefold_escape g outsz = Inr h"
proof -
  obtain g where "decoded_is_legal g" "h = spelling g"
    using assms(1) is_escaped_iff by blast
  with assms(2) show ?thesis
    using to_guest_spelling [of g 256] escape_legal [of g outsz h] by (auto simp: decoded_is_legal_iff)
qed

theorem casefold_canonical_witness:
  "\<exists>g. decoded_is_legal g \<and>
     casefold_to_guest [0x2E, 0x65, 0x66, 0x3D, 0x34, 0x36, 0x36, 0x66] (CASEFOLD_GUEST_NAME_MAX + 1) = Inr g \<and>
     casefold_escape g 9 = Inr [0x2E, 0x65, 0x66, 0x3D, 0x34, 0x36, 0x36, 0x66]"
  by (rule casefold_canonical)
    (simp_all add: casefold_is_escaped_def decode_payload_def CASEFOLD_PREFIX_def is_hex_digit_def hex_value_def Let_def
      decoded_is_legal_def push_or_add)

text \<open>
  C30. Two guest names never meet on a case-blind volume: if the host names that \<open>name_by_rule\<close>
  chooses for two legal guest names agree up to the case of ASCII letters, the guest names are the same, and
  reading the host name back gives the guest name.
\<close>

theorem name_by_rule_distinct:
  assumes "decoded_is_legal g1" "decoded_is_legal g2" "name_by_rule g1 sz1 = Inr h1" "name_by_rule g2 sz2 = Inr h2"
    and "map ascii_lower h1 = map ascii_lower h2"
  shows "g1 = g2 \<and> casefold_to_guest h1 (CASEFOLD_GUEST_NAME_MAX + 1) = Inr g1"
proof -
  have h: "h1 = (if casefold_needs_escape g1 then spelling g1 else g1)" "h2 = (if casefold_needs_escape g2 then spelling g2 else g2)"
    using assms name_by_rule_legal by blast+
  have l: "length g1 \<le> 255" "length g2 \<le> 255"
    using assms(1,2) by (auto simp: decoded_is_legal_iff)
  then have "map ascii_lower h1 = h1" "map ascii_lower h2 = h2"
    unfolding h using spelling_seen(1) plain_seen(1) by auto
  then have "g1 = g2"
    using cf.rule_inj [OF assms(1,2) needs_escape_escaped] assms(5) h by simp
  moreover have "casefold_to_guest h1 256 = Inr g1"
    using h(1) l to_guest_spelling [OF assms(1), of 256] to_guest_plain [of g1 256] needs_escape_escaped [of g1]
    by (auto split: if_splits)
  ultimately show ?thesis by simp
qed

theorem name_by_rule_distinct_witness:
  "[0x46, 0x6F] = [0x46, 0x6F :: u8] \<and>
   casefold_to_guest [0x2E, 0x65, 0x66, 0x3D, 0x34, 0x36, 0x36, 0x66] (CASEFOLD_GUEST_NAME_MAX + 1) = Inr [0x46, 0x6F]"
  by (rule name_by_rule_distinct [where ?sz1.0 = 9 and ?sz2.0 = 100 and ?h2.0 = "[0x2E, 0x65, 0x66, 0x3D, 0x34, 0x36, 0x36, 0x66]"])
    (simp_all add: decoded_is_legal_def name_by_rule_def casefold_needs_escape_def casefold_escape_def hex_digit_def CASEFOLD_PREFIX_def)

text \<open>
  Every legal guest name fits: with a buffer of more than \<open>CASEFOLD_HOST_NAME_MAX\<close> bytes the rule
  produces a host name, of at most that many bytes and of at most 255 UTF-16 code units, the
  volume's limit on a name.
\<close>

theorem name_by_rule_fits:
  assumes "decoded_is_legal g" "CASEFOLD_HOST_NAME_MAX < outsz"
  shows "\<exists>h. name_by_rule g outsz = Inr h \<and> length h \<le> CASEFOLD_HOST_NAME_MAX \<and> utf16_units h \<le> CASEFOLD_UNIT_MAX"
proof -
  let ?h = "if casefold_needs_escape g then spelling g else g"
  have g: "length g \<le> 255"
    using assms(1) by (simp add: decoded_is_legal_iff)
  have "length ?h \<le> CASEFOLD_HOST_NAME_MAX"
    using g by (auto simp: length_spelling CASEFOLD_HOST_NAME_MAX_def CASEFOLD_SYMBOLS_def)
  moreover have "utf16_units ?h \<le> CASEFOLD_UNIT_MAX"
    using g spelling_seen(2) plain_seen(2) by (simp add: CASEFOLD_UNIT_MAX_def)
  ultimately show ?thesis
    using assms name_by_rule_legal [of g outsz ?h] by auto
qed

theorem name_by_rule_fits_witness:
  "\<exists>h. name_by_rule [0x46, 0x6F] 600 = Inr h \<and> length h \<le> CASEFOLD_HOST_NAME_MAX \<and> utf16_units h \<le> CASEFOLD_UNIT_MAX"
  by (rule name_by_rule_fits) (simp_all add: decoded_is_legal_def CASEFOLD_HOST_NAME_MAX_def CASEFOLD_SYMBOLS_def)

text \<open>
  The refusals of the codec: for a NUL-free name, \<open>casefold_escape\<close> fails with EINVAL exactly when
  the name is not legal, and with ENAMETOOLONG exactly when the name is legal and its spelling with the
  terminator does not fit; \<open>casefold_to_guest\<close> fails with EINVAL exactly on an empty buffer.
\<close>

theorem casefold_refusals:
  assumes "0 \<notin> set g"
  shows "(casefold_escape g outsz = Inl CF_EINVAL \<longleftrightarrow> \<not> decoded_is_legal g) \<and>
    (casefold_escape g outsz = Inl CF_ENAMETOOLONG \<longleftrightarrow> decoded_is_legal g \<and>
       outsz \<le> length CASEFOLD_PREFIX +
         (if length g \<le> CASEFOLD_HEX_MAX then 2 * length g else 3 * CASEFOLD_SYMBOLS (length g))) \<and>
    (casefold_to_guest g outsz = Inl CF_EINVAL \<longleftrightarrow> outsz = 0)"
proof -
  have "casefold_escape g outsz = Inl CF_EINVAL \<longleftrightarrow> \<not> decoded_is_legal g"
    using assms by (simp add: casefold_escape_spelling decoded_is_legal_iff)
  moreover have "casefold_escape g outsz = Inl CF_ENAMETOOLONG \<longleftrightarrow> decoded_is_legal g \<and> outsz \<le> length (spelling g)"
    using assms by (auto simp: casefold_escape_spelling decoded_is_legal_iff)
  moreover have "casefold_to_guest g outsz = Inl CF_EINVAL \<longleftrightarrow> outsz = 0"
    by (simp add: casefold_to_guest_def split: option.split)
  ultimately show ?thesis
    by (simp add: length_spelling)
qed

theorem casefold_refusals_witness:
  "(casefold_escape [0x2E] 10 = Inl CF_EINVAL \<longleftrightarrow> \<not> decoded_is_legal [0x2E]) \<and>
    (casefold_escape [0x2E] 10 = Inl CF_ENAMETOOLONG \<longleftrightarrow> decoded_is_legal [0x2E] \<and>
       10 \<le> length CASEFOLD_PREFIX +
         (if length [0x2E :: u8] \<le> CASEFOLD_HEX_MAX then 2 * length [0x2E :: u8] else 3 * CASEFOLD_SYMBOLS (length [0x2E :: u8]))) \<and>
    (casefold_to_guest [0x2E] 10 = Inl CF_EINVAL \<longleftrightarrow> (10 :: nat) = 0)"
  by (rule casefold_refusals) simp

end
