(* ===== verification/Bit_Scan.thy ===== *)
theory Bit_Scan
  imports Prelude
begin

text \<open>
  Scanning the set bits of a 64-bit word, as the descriptor bitmaps and the pending signal sets do:
  \<^verbatim>\<open>bit_ctz64\<close> of \<^verbatim>\<open>src/src/utils.h\<close> and the loop \<^verbatim>\<open>for (; bits; bits &= bits - 1)\<close> around it. The loop is
  shown to visit exactly the set bits, lowest first.
\<close>

definition bit_ctz64 :: "u64 \<Rightarrow> nat" where
  "bit_ctz64 w = length (takeWhile (\<lambda>n. \<not> bit w n) [0..<64])"

text \<open>The set bits of a word, lowest first: the loop that clears the lowest set bit each time.\<close>

definition set_bits_of :: "u64 \<Rightarrow> nat list" where
  "set_bits_of w = filter (bit w) [0..<64]"

lemma bit_ctz64_least:
  assumes "w \<noteq> 0"
  shows "bit_ctz64 w < 64" and "bit w (bit_ctz64 w)" and "\<And>n. n < bit_ctz64 w \<Longrightarrow> \<not> bit w n"
proof -
  let ?P = "\<lambda>n. \<not> bit w n"
  have "\<exists>n. bit w n"
    using assms bit_eq_iff [of w 0] by auto
  then obtain n where n: "bit w n" "n < 64"
    using bit_imp_le_length [of w] by fastforce
  have len: "length (takeWhile ?P [0..<64]) < length [0..<64]"
  proof (rule ccontr)
    assume "\<not> ?thesis"
    then have "takeWhile ?P [0..<64] = [0..<64]"
      by (metis length_takeWhile_le linorder_neqE_nat not_less takeWhile_eq_take take_all_iff)
    then have "\<forall>x\<in>set [0..<64]. ?P x"
      by (simp add: takeWhile_eq_all_conv)
    with n show False by auto
  qed
  then show lt: "bit_ctz64 w < 64"
    by (simp add: bit_ctz64_def)
  show "bit w (bit_ctz64 w)"
    using nth_length_takeWhile [OF len] lt by (simp add: bit_ctz64_def)
  show "\<not> bit w m" if "m < bit_ctz64 w" for m
  proof -
    have "m \<in> set (takeWhile ?P [0..<64])"
      using that lt takeWhile_nth [of m ?P "[0..<64]"] nth_mem [of m "takeWhile ?P [0..<64]"]
      by (simp add: bit_ctz64_def)
    then show ?thesis
      using set_takeWhileD by metis
  qed
qed

text \<open>Clearing the lowest set bit, and the loop.\<close>

lemma bit_above: "w \<noteq> 0 \<Longrightarrow> w = (w AND NOT (mask (Suc (bit_ctz64 w)))) OR 2 ^ bit_ctz64 w"
  for w :: u64
  using bit_ctz64_least [of w]
  by (intro bit_eqI) (auto simp: bit_simps less_Suc_eq)

lemma clear_lowest:
  fixes w :: u64
  assumes "w \<noteq> 0"
  shows "w AND (w - 1) = w AND NOT (mask (Suc (bit_ctz64 w)))"
proof -
  let ?k = "bit_ctz64 w" and ?h = "w AND NOT (mask (Suc (bit_ctz64 w)))"
  have k: "?k < 64" using bit_ctz64_least(1) [OF assms] .
  have "?h AND 2 ^ ?k = 0" "?h AND mask ?k = 0"
    by (intro bit_eqI; auto simp: bit_simps)+
  then have "w = ?h + 2 ^ ?k" "?h OR mask ?k = ?h + mask ?k"
    using bit_above [OF assms] by (simp_all add: disjunctive_add_eq_or)
  then have minus: "w - 1 = ?h OR mask ?k"
    by (metis add_diff_eq mask_eq_decr_exp)
  show ?thesis
    using bit_ctz64_least(3) [OF assms]
    by (intro bit_eqI) (auto simp: minus bit_simps)
qed

lemma bit_clear_lowest: "w \<noteq> 0 \<Longrightarrow> bit (w AND (w - 1)) n \<longleftrightarrow> bit w n \<and> n \<noteq> bit_ctz64 w"
  for w :: u64
  using bit_ctz64_least(3) [of w n] bit_imp_le_length [of w n]
  by (auto simp: clear_lowest bit_simps less_Suc_eq)

function bit_loop :: "u64 \<Rightarrow> nat list" where
  "bit_loop bits = (if bits = 0 then [] else bit_ctz64 bits # bit_loop (bits AND (bits - 1)))"
  by pat_completeness auto
termination
proof (relation "measure unat")
  fix bits :: u64 assume nz: "bits \<noteq> 0"
  have "bits AND (bits - 1) \<le> bits" by (rule word_and_le2)
  moreover have "bits AND (bits - 1) \<noteq> bits"
    using bit_clear_lowest [OF nz, of "bit_ctz64 bits"] bit_ctz64_least(2) [OF nz] by auto
  ultimately have "bits AND (bits - 1) < bits"
    by (simp add: order_less_le)
  then show "(bits AND (bits - 1), bits) \<in> measure unat"
    by (simp add: word_less_nat_alt)
qed simp

declare bit_loop.simps [simp del]

lemma set_bits_of_Cons:
  assumes "w \<noteq> 0"
  shows "set_bits_of w = bit_ctz64 w # set_bits_of (w AND (w - 1))"
proof -
  let ?k = "bit_ctz64 w"
  note k = bit_ctz64_least [OF assms]
  have split: "[0..<64] = [0..<?k] @ ?k # [Suc ?k..<64]"
    using k(1) upt_add_eq_append [of 0 ?k "64 - ?k"] upt_conv_Cons [of ?k 64] by simp
  have "filter (bit w) [0..<?k] = []" "filter (bit (w AND (w - 1))) [0..<?k] = []"
    using k(3) by (auto simp: filter_empty_conv bit_clear_lowest [OF assms])
  moreover have "filter (bit w) [Suc ?k..<64] = filter (bit (w AND (w - 1))) [Suc ?k..<64]"
    by (rule filter_cong) (auto simp: bit_clear_lowest [OF assms])
  ultimately show ?thesis
    using k(2) bit_clear_lowest [OF assms, of ?k] by (simp add: set_bits_of_def split)
qed

lemma set_bits_of_zero: "set_bits_of 0 = []"
  by (simp add: set_bits_of_def)

lemma bit_loop_eq: "bit_loop w = set_bits_of w"
proof (induction w rule: bit_loop.induct)
  case (1 bits)
  then show ?case
    by (cases "bits = 0") (simp_all add: bit_loop.simps [of bits] bit_loop.simps [of 0] set_bits_of_Cons set_bits_of_zero)
qed

lemma set_bits_of_props [simp]:
  "set (set_bits_of w) = {n. bit w n}" "distinct (set_bits_of w)" "sorted (set_bits_of w)"
  using bit_imp_le_length [of w] by (auto simp: set_bits_of_def intro: sorted_filter [of id, simplified])

end
