(* ===== verification/Fd_Table.thy ===== *)
theory Fd_Table
  imports Bit_Scan
begin

text \<open>
  The guest descriptor table of \<^verbatim>\<open>src/src/syscall/fdtable.c\<close>: the bitmap allocator, the slots,
  the lifetimes that pin a host descriptor across a blocking call, and the close paths of
  \<^verbatim>\<open>src/src/syscall/fs.c\<close> that end in \<open>fd_cleanup_entry\<close>.

  The C globals are one record. A pointer to a lifetime or to a directory stream is a natural number
  naming an object of a heap, \<open>None\<close> is NULL; a function pointer is the number of the function. The
  host's descriptor table is part of the record: \<open>host_flags\<close> gives the status flags
  \<^verbatim>\<open>fcntl(F_GETFL)\<close> answers for an open host descriptor and \<open>None\<close> for a number that is not open. Calls into
  other modules (epoll, pty side tables, per-type teardown) are recorded in \<open>calls\<close>. What fstat and
  F_SETFL answer, whether one thread is active, the soft limit, and the addresses malloc returns are arguments.
\<close>

section \<open>Constants\<close>

definition FD_CLOSED :: int where "FD_CLOSED = 0"
definition FD_STDIO :: int where "FD_STDIO = 1"
definition FD_REGULAR :: int where "FD_REGULAR = 2"
definition FD_DIR :: int where "FD_DIR = 3"
definition FD_PIPE :: int where "FD_PIPE = 4"
definition FD_SOCKET :: int where "FD_SOCKET = 5"
definition FD_EPOLL :: int where "FD_EPOLL = 6"
definition FD_TIMERFD :: int where "FD_TIMERFD = 7"
definition FD_EVENTFD :: int where "FD_EVENTFD = 8"
definition FD_SIGNALFD :: int where "FD_SIGNALFD = 9"
definition FD_INOTIFY :: int where "FD_INOTIFY = 10"
definition FD_PATH :: int where "FD_PATH = 11"
definition FD_NETLINK :: int where "FD_NETLINK = 12"
definition FD_PIDFD :: int where "FD_PIDFD = 13"
definition FD_URANDOM :: int where "FD_URANDOM = 17"
definition FD_USBDEV :: int where "FD_USBDEV = 18"

definition FD_TABLE_SIZE :: nat where "FD_TABLE_SIZE = 1024"
definition FD_BITMAP_WORDS :: nat where "FD_BITMAP_WORDS = FD_TABLE_SIZE div 64"

definition LINUX_O_WRONLY :: u32 where "LINUX_O_WRONLY = 0x1"
definition LINUX_O_RDWR :: u32 where "LINUX_O_RDWR = 0x2"
definition LINUX_O_ACCMODE :: u32 where "LINUX_O_ACCMODE = 0x3"
definition LINUX_O_APPEND :: u32 where "LINUX_O_APPEND = 0x400"
definition LINUX_O_NONBLOCK :: u32 where "LINUX_O_NONBLOCK = 0x800"
definition LINUX_O_ASYNC :: u32 where "LINUX_O_ASYNC = 0x2000"
definition LINUX_O_DIRECTORY :: u32 where "LINUX_O_DIRECTORY = 0x4000"
definition LINUX_O_NOFOLLOW :: u32 where "LINUX_O_NOFOLLOW = 0x8000"
definition LINUX_O_DIRECT :: u32 where "LINUX_O_DIRECT = 0x10000"
definition LINUX_O_LARGEFILE :: u32 where "LINUX_O_LARGEFILE = 0x20000"
definition LINUX_O_NOATIME :: u32 where "LINUX_O_NOATIME = 0x40000"
definition LINUX_O_CLOEXEC :: u32 where "LINUX_O_CLOEXEC = 0x80000"
definition LINUX_O_PATH :: u32 where "LINUX_O_PATH = 0x200000"

definition FD_DESCRIPTION_FLAGS :: u32 where
  "FD_DESCRIPTION_FLAGS = LINUX_O_ACCMODE OR LINUX_O_PATH OR LINUX_O_DIRECTORY OR LINUX_O_NOFOLLOW OR
     LINUX_O_DIRECT OR LINUX_O_LARGEFILE OR LINUX_O_NONBLOCK OR LINUX_O_ASYNC OR LINUX_O_APPEND OR LINUX_O_NOATIME"

text \<open>The host's \<^verbatim>\<open>O_NONBLOCK\<close> (macOS).\<close>

definition O_NONBLOCK :: u32 where "O_NONBLOCK = 4"

definition FASYNC_OWNER_NONE :: int where "FASYNC_OWNER_NONE = 0"

lemmas fd_types = FD_CLOSED_def FD_STDIO_def FD_REGULAR_def FD_DIR_def FD_PIPE_def FD_SOCKET_def FD_EPOLL_def
  FD_TIMERFD_def FD_EVENTFD_def FD_SIGNALFD_def FD_INOTIFY_def FD_PATH_def FD_NETLINK_def FD_PIDFD_def
  FD_URANDOM_def FD_USBDEV_def

section \<open>State\<close>

record fd_entry =
  ftype :: int
  host_fd :: int
  lifetime :: "nat option"
  ofd_id :: u64
  generation :: u64
  linux_flags :: u32
  dir_ptr :: "nat option"
  proc_path :: string
  path_poll_capable :: bool
  seals :: u32
  can_block :: bool
  foreign_description :: bool
  nonblock_owned :: bool
  fasync_owner_type :: int
  fasync_owner :: int
  sock_valid :: u32
  fcleanup :: "nat option"

record fd_lifetime =
  refs :: nat
  l_host_fd :: int
  l_type :: int
  l_dir :: "nat option"

record dir_stream =
  ds_fd :: int
  ds_refcount :: nat

datatype call =
    epoll_note_fd_closed nat u64
  | epoll_instance_free nat
  | type_cleanup nat nat
  | proc_pty_forget_host_fd int
  | asyncio_disarm int
  | absock_unregister_fd int
  | chown_overlay_clear_closed_unlinked_fd int
  | proc_pty_dup_keepalive int int
  | proc_pty_dup_guest_slave int int
  | pidfd_pin u64
  | pidfd_unpin u64
  | asyncio_arm nat u64 int int

text \<open>
  \<open>urandom\<close> is the bitmap the shim reads, \<open>None\<close> before a guest is registered. \<open>bad_closes\<close> counts
  the closes of a number that was not open: each is a lost race with whoever holds the number next.
\<close>

record fd_state =
  fd_table :: "fd_entry list"
  fd_free_bitmap :: "u64 list"
  fd_next_generation :: u64
  fd_next_ofd_id :: u64
  urandom :: "u64 list option"
  lifetimes :: "nat \<Rightarrow> fd_lifetime option"
  dir_streams :: "nat \<Rightarrow> dir_stream option"
  host_flags :: "int \<Rightarrow> u32 option"
  bad_closes :: nat
  calls :: "call list"

record fd_host =
  fstat_blocks :: "int \<Rightarrow> bool"
  setfl_ok :: "int \<Rightarrow> bool"
  single_active :: bool
  nofile :: u64

record fd_alias_spec =
  a_ofd_id :: u64
  a_linux_flags :: u32
  a_foreign :: bool
  a_nonblock_owned :: bool
  a_path_poll :: bool
  a_src_fd :: int
  a_src_generation :: u64

record fd_host_probe =
  p_can_block :: bool
  p_nonblock_owned :: bool
  p_restore :: "u32 option"

definition RANGE_CHECK :: "int \<Rightarrow> bool" where
  "RANGE_CHECK fd \<longleftrightarrow> 0 \<le> fd \<and> fd < int FD_TABLE_SIZE"

definition slot :: "fd_state \<Rightarrow> nat \<Rightarrow> fd_entry" where
  "slot s fd = fd_table s ! fd"

definition set_slot :: "nat \<Rightarrow> fd_entry \<Rightarrow> fd_state \<Rightarrow> fd_state" where
  "set_slot fd e s = s\<lparr>fd_table := (fd_table s)[fd := e]\<rparr>"

definition emit :: "call \<Rightarrow> fd_state \<Rightarrow> fd_state" where
  "emit c s = s\<lparr>calls := calls s @ [c]\<rparr>"

definition rlimit_nofile_cur :: "fd_host \<Rightarrow> nat" where
  "rlimit_nofile_cur H = (if unat (nofile H) > FD_TABLE_SIZE then FD_TABLE_SIZE else unat (nofile H))"

text \<open>The host's close.\<close>

definition close_host :: "int \<Rightarrow> fd_state \<Rightarrow> fd_state" where
  "close_host h s =
     (if h < 0 then s
      else case host_flags s h of
             Some _ \<Rightarrow> s\<lparr>host_flags := (host_flags s)(h := None)\<rparr>
           | None \<Rightarrow> s\<lparr>bad_closes := bad_closes s + 1\<rparr>)"

section \<open>Bitmaps\<close>

definition fd_bitmap_set_free :: "nat \<Rightarrow> fd_state \<Rightarrow> fd_state" where
  "fd_bitmap_set_free fd s =
     s\<lparr>fd_free_bitmap := (fd_free_bitmap s)[fd div 64 := fd_free_bitmap s ! (fd div 64) OR push_bit (fd mod 64) 1]\<rparr>"

definition fd_bitmap_set_used :: "nat \<Rightarrow> fd_state \<Rightarrow> fd_state" where
  "fd_bitmap_set_used fd s =
     s\<lparr>fd_free_bitmap := (fd_free_bitmap s)[fd div 64 := fd_free_bitmap s ! (fd div 64) AND NOT (push_bit (fd mod 64) 1)]\<rparr>"

definition shim_globals_mark_urandom_fd :: "nat \<Rightarrow> bool \<Rightarrow> fd_state \<Rightarrow> fd_state" where
  "shim_globals_mark_urandom_fd fd is_urandom s =
     (case urandom s of
        None \<Rightarrow> s
      | Some bm \<Rightarrow>
          if fd \<ge> FD_TABLE_SIZE then s
          else let msk = push_bit (fd mod 64) 1; w = bm ! (fd div 64) in
               s\<lparr>urandom := Some (bm[fd div 64 := if is_urandom then w OR msk else w AND NOT msk])\<rparr>)"

definition fdset_slot :: "int \<Rightarrow> (nat \<times> nat) option" where
  "fdset_slot fd = (if fd < 0 \<or> fd \<ge> int FD_TABLE_SIZE then None else Some (nat fd div 64, nat fd mod 64))"

text \<open>The scan over the words: \<open>msk\<close> cuts the first word only.\<close>

fun scan_words :: "u64 list \<Rightarrow> nat \<Rightarrow> u64 \<Rightarrow> nat option" where
  "scan_words [] word msk = None"
| "scan_words (w # ws) word msk =
     (let free_bits = w AND msk in
      if free_bits \<noteq> 0 then Some (word * 64 + bit_ctz64 free_bits) else scan_words ws (word + 1) (NOT 0))"

definition fd_bitmap_find_free :: "int \<Rightarrow> fd_state \<Rightarrow> nat option" where
  "fd_bitmap_find_free minfd0 s =
     (let minfd = if minfd0 < 0 then 0 else minfd0 in
      case fdset_slot minfd of
        None \<Rightarrow> None
      | Some (word, b) \<Rightarrow> scan_words (drop word (fd_free_bitmap s)) word (push_bit b (NOT 0)))"

section \<open>What the type and the host decide\<close>

definition host_fd_may_block :: "fd_host \<Rightarrow> int \<Rightarrow> bool" where
  "host_fd_may_block H h \<longleftrightarrow> h \<ge> 0 \<and> fstat_blocks H h"

definition type_may_block :: "fd_host \<Rightarrow> int \<Rightarrow> int \<Rightarrow> bool" where
  "type_may_block H t h =
     (if t = FD_PIPE \<or> t = FD_SOCKET then True
      else if t = FD_STDIO \<or> t = FD_REGULAR then host_fd_may_block H h
      else False)"

definition fd_type_accmode :: "int \<Rightarrow> u32 option" where
  "fd_type_accmode t =
     (if t \<in> {FD_EVENTFD, FD_SIGNALFD, FD_TIMERFD, FD_EPOLL, FD_PIDFD, FD_NETLINK} then Some LINUX_O_RDWR
      else if t = FD_INOTIFY then Some 0
      else None)"

definition fd_flags_with_accmode :: "int \<Rightarrow> u32 \<Rightarrow> u32" where
  "fd_flags_with_accmode t flags =
     (case fd_type_accmode t of None \<Rightarrow> flags | Some accmode \<Rightarrow> (flags AND NOT LINUX_O_ACCMODE) OR accmode)"

definition fd_type_is_synthetic :: "int \<Rightarrow> bool" where
  "fd_type_is_synthetic t \<longleftrightarrow>
     t = FD_EVENTFD \<or> t = FD_SIGNALFD \<or> t = FD_TIMERFD \<or> t = FD_INOTIFY \<or> t = FD_NETLINK \<or> t = FD_PIDFD \<or>
     t = FD_EPOLL \<or> t = FD_USBDEV"

definition fd_nonblock_shadowed :: "int \<Rightarrow> bool \<Rightarrow> bool" where
  "fd_nonblock_shadowed t owned \<longleftrightarrow> owned \<or> fd_type_is_synthetic t"

text \<open>\<^verbatim>\<open>fcntl(F_SETFL)\<close>, and setting one status flag.\<close>

definition setfl :: "fd_host \<Rightarrow> int \<Rightarrow> u32 \<Rightarrow> fd_state \<Rightarrow> bool \<times> fd_state" where
  "setfl H h flags s =
     (if host_flags s h \<noteq> None \<and> setfl_ok H h then (True, s\<lparr>host_flags := (host_flags s)(h \<mapsto> flags)\<rparr>) else (False, s))"

definition fd_set_nonblock :: "fd_host \<Rightarrow> int \<Rightarrow> fd_state \<Rightarrow> bool \<times> fd_state" where
  "fd_set_nonblock H h s =
     (case host_flags s h of None \<Rightarrow> (False, s) | Some flags \<Rightarrow> setfl H h (flags OR O_NONBLOCK) s)"

definition fd_probe_rollback :: "fd_host \<Rightarrow> fd_host_probe \<Rightarrow> int \<Rightarrow> fd_state \<Rightarrow> fd_state" where
  "fd_probe_rollback H probe h s = (case p_restore probe of None \<Rightarrow> s | Some flags \<Rightarrow> snd (setfl H h flags s))"

text \<open>\<open>al\<close> is the pending inheritance (\<^verbatim>\<open>fd_alias_pending\<close> and \<^verbatim>\<open>fd_alias_spec\<close>, thread-local in C).\<close>

definition fd_probe_host ::
  "fd_host \<Rightarrow> fd_alias_spec option \<Rightarrow> int \<Rightarrow> int \<Rightarrow> fd_state \<Rightarrow> fd_host_probe \<times> fd_state" where
  "fd_probe_host H al t h s =
     (let cb = type_may_block H t h in
      case al of
        Some spec \<Rightarrow> (\<lparr>p_can_block = cb, p_nonblock_owned = a_nonblock_owned spec, p_restore = None\<rparr>, s)
      | None \<Rightarrow>
          if \<not> cb \<or> t = FD_STDIO then (\<lparr>p_can_block = cb, p_nonblock_owned = False, p_restore = None\<rparr>, s)
          else let old = host_flags s h; (owned, s1) = fd_set_nonblock H h s in
               (\<lparr>p_can_block = cb, p_nonblock_owned = owned,
                 p_restore = (case old of
                    Some fl \<Rightarrow> if owned \<and> fl AND O_NONBLOCK = 0 then Some fl else None
                  | None \<Rightarrow> None)\<rparr>, s1))"

section \<open>Filling a slot\<close>

text \<open>The inheritance taken again from the live source, when the source still is the same open file.\<close>

definition alias_refresh :: "fd_alias_spec \<Rightarrow> fd_state \<Rightarrow> fd_alias_spec" where
  "alias_refresh spec s =
     (if a_src_fd spec \<ge> 0 \<and> RANGE_CHECK (a_src_fd spec) then
        (let src = slot s (nat (a_src_fd spec)) in
         if ftype src \<noteq> FD_CLOSED \<and> generation src = a_src_generation spec then
           spec\<lparr>a_ofd_id := ofd_id src,
                a_linux_flags := (a_linux_flags spec AND NOT FD_DESCRIPTION_FLAGS) OR (linux_flags src AND FD_DESCRIPTION_FLAGS),
                a_foreign := foreign_description src,
                a_nonblock_owned := nonblock_owned src,
                a_path_poll := path_poll_capable src\<rparr>
         else spec)
      else spec)"

definition init_flags :: "fd_alias_spec option \<Rightarrow> int \<Rightarrow> u32" where
  "init_flags al t =
     (case al of
        Some spec \<Rightarrow> if a_linux_flags spec \<noteq> 0 then fd_flags_with_accmode t (a_linux_flags spec)
                     else (case fd_type_accmode t of None \<Rightarrow> 0 | Some m \<Rightarrow> m)
      | None \<Rightarrow> (case fd_type_accmode t of None \<Rightarrow> 0 | Some m \<Rightarrow> m))"

definition fd_init_entry ::
  "fd_alias_spec option \<Rightarrow> nat \<Rightarrow> int \<Rightarrow> int \<Rightarrow> nat option \<Rightarrow> fd_host_probe \<Rightarrow> fd_state \<Rightarrow> fd_state" where
  "fd_init_entry al fd t h cleanup probe s =
     (let s1 = fd_bitmap_set_used fd s;
          s2 = set_slot fd ((slot s1 fd)\<lparr>ftype := t, host_fd := h, lifetime := None\<rparr>) s1;
          al' = map_option (\<lambda>spec. alias_refresh spec s2) al;
          inherit_id = (case al' of Some spec \<Rightarrow> a_ofd_id spec \<noteq> 0 | None \<Rightarrow> False);
          oid = (case al' of Some spec \<Rightarrow> if inherit_id then a_ofd_id spec else fd_next_ofd_id s2 | None \<Rightarrow> fd_next_ofd_id s2);
          e = (slot s2 fd)\<lparr>
                ofd_id := oid,
                generation := fd_next_generation s2,
                linux_flags := init_flags al' t,
                dir_ptr := None,
                proc_path := [],
                path_poll_capable := (case al' of Some spec \<Rightarrow> a_path_poll spec | None \<Rightarrow> False),
                seals := 0,
                can_block := p_can_block probe,
                foreign_description := (case al' of Some spec \<Rightarrow> a_foreign spec | None \<Rightarrow> t = FD_STDIO),
                nonblock_owned := (case al' of Some spec \<Rightarrow> a_nonblock_owned spec | None \<Rightarrow> p_nonblock_owned probe),
                fasync_owner_type := FASYNC_OWNER_NONE,
                fasync_owner := 0,
                sock_valid := 0,
                fcleanup := cleanup\<rparr>;
          s3 = set_slot fd e s2
                 \<lparr>fd_next_ofd_id := if inherit_id then fd_next_ofd_id s2 else fd_next_ofd_id s2 + 1,
                  fd_next_generation := fd_next_generation s2 + 1\<rparr>
      in shim_globals_mark_urandom_fd fd False s3)"

definition readable_urandom :: "fd_entry \<Rightarrow> bool" where
  "readable_urandom e \<longleftrightarrow> ftype e = FD_URANDOM \<and> linux_flags e AND LINUX_O_ACCMODE \<noteq> LINUX_O_WRONLY"

definition fd_refresh_urandom_bitmap :: "int \<Rightarrow> fd_state \<Rightarrow> fd_state" where
  "fd_refresh_urandom_bitmap fd s =
     (if \<not> RANGE_CHECK fd then s
      else shim_globals_mark_urandom_fd (nat fd) (readable_urandom (slot s (nat fd))) s)"

definition closed_entry :: fd_entry where
  "closed_entry = \<lparr>ftype = FD_CLOSED, host_fd = 0, lifetime = None, ofd_id = 0, generation = 0, linux_flags = 0,
     dir_ptr = None, proc_path = [], path_poll_capable = False, seals = 0, can_block = False,
     foreign_description = False, nonblock_owned = False, fasync_owner_type = 0, fasync_owner = 0,
     sock_valid = 0, fcleanup = None\<rparr>"

definition stdio_entry :: "fd_host \<Rightarrow> nat \<Rightarrow> fd_entry" where
  "stdio_entry H i = closed_entry\<lparr>ftype := FD_STDIO, host_fd := int i, ofd_id := word_of_nat (i + 1),
     generation := word_of_nat (i + 1), foreign_description := True, can_block := host_fd_may_block H (int i)\<rparr>"

definition fdtable_init :: "fd_host \<Rightarrow> fd_state \<Rightarrow> fd_state" where
  "fdtable_init H s =
     fd_bitmap_set_used 2 (fd_bitmap_set_used 1 (fd_bitmap_set_used 0
       (s\<lparr>fd_table := (replicate FD_TABLE_SIZE closed_entry)[0 := stdio_entry H 0, 1 := stdio_entry H 1, 2 := stdio_entry H 2],
          fd_free_bitmap := replicate FD_BITMAP_WORDS (NOT 0),
          fd_next_generation := 4,
          fd_next_ofd_id := 4\<rparr>)))"

section \<open>Allocation\<close>

definition fd_alloc_locked ::
  "fd_host \<Rightarrow> fd_alias_spec option \<Rightarrow> int \<Rightarrow> int \<Rightarrow> int \<Rightarrow> nat option \<Rightarrow> fd_host_probe \<Rightarrow> fd_state \<Rightarrow> nat option \<times> fd_state" where
  "fd_alloc_locked H al minfd t h cleanup probe s =
     (case fd_bitmap_find_free minfd s of
        Some fd \<Rightarrow>
          if fd \<ge> rlimit_nofile_cur H then (None, fd_probe_rollback H probe h s)
          else (Some fd, fd_init_entry al fd t h cleanup probe s)
      | None \<Rightarrow> (None, fd_probe_rollback H probe h s))"

definition fd_alloc :: "fd_host \<Rightarrow> fd_alias_spec option \<Rightarrow> int \<Rightarrow> int \<Rightarrow> nat option \<Rightarrow> fd_state \<Rightarrow> nat option \<times> fd_state" where
  "fd_alloc H al t h cleanup s = (let (probe, s1) = fd_probe_host H al t h s in fd_alloc_locked H al 0 t h cleanup probe s1)"

text \<open>Publishing \<open>dir\<close> and the flags in the window that fills the slot.\<close>

definition install_dir :: "nat \<Rightarrow> nat option \<Rightarrow> u32 \<Rightarrow> fd_state \<Rightarrow> fd_state" where
  "install_dir fd dir flags s =
     set_slot fd ((slot s fd)\<lparr>dir_ptr := dir, linux_flags := fd_flags_with_accmode (ftype (slot s fd)) flags\<rparr>) s"

definition fd_alloc_dir ::
  "fd_host \<Rightarrow> fd_alias_spec option \<Rightarrow> int \<Rightarrow> int \<Rightarrow> nat option \<Rightarrow> nat option \<Rightarrow> u32 \<Rightarrow> fd_state \<Rightarrow> nat option \<times> fd_state" where
  "fd_alloc_dir H al t h cleanup dir flags s =
     (let (probe, s1) = fd_probe_host H al t h s; (r, s2) = fd_alloc_locked H al 0 t h cleanup probe s1 in
      case r of None \<Rightarrow> (None, s2) | Some fd \<Rightarrow> (Some fd, install_dir fd dir flags s2))"

text \<open>The out parameter \<^verbatim>\<open>*out_gen\<close> is the generation of the slot in the resulting state.\<close>

definition fd_alloc_dir_from ::
  "fd_host \<Rightarrow> fd_alias_spec option \<Rightarrow> int \<Rightarrow> int \<Rightarrow> int \<Rightarrow> nat option \<Rightarrow> nat option \<Rightarrow> u32 \<Rightarrow> fd_state \<Rightarrow> nat option \<times> fd_state" where
  "fd_alloc_dir_from H al minfd t h cleanup dir flags s =
     (let (probe, s1) = fd_probe_host H al t h s; (r, s2) = fd_alloc_locked H al minfd t h cleanup probe s1 in
      case r of None \<Rightarrow> (None, s2) | Some fd \<Rightarrow> (Some fd, install_dir fd dir flags s2))"

definition fd_alloc_from ::
  "fd_host \<Rightarrow> fd_alias_spec option \<Rightarrow> int \<Rightarrow> int \<Rightarrow> int \<Rightarrow> nat option \<Rightarrow> fd_state \<Rightarrow> nat option \<times> fd_state" where
  "fd_alloc_from H al minfd t h cleanup s =
     (let (probe, s1) = fd_probe_host H al t h s in fd_alloc_locked H al minfd t h cleanup probe s1)"

definition fd_alloc_from_relaxed ::
  "fd_host \<Rightarrow> fd_alias_spec option \<Rightarrow> int \<Rightarrow> int \<Rightarrow> int \<Rightarrow> nat option \<Rightarrow> fd_state \<Rightarrow> nat option \<times> fd_state" where
  "fd_alloc_from_relaxed H al minfd t h cleanup s =
     (if \<not> single_active H then fd_alloc_from H al minfd t h cleanup s
      else let (probe, s1) = fd_probe_host H al t h s in fd_alloc_locked H al minfd t h cleanup probe s1)"

definition fd_reserve_ofd_id :: "fd_state \<Rightarrow> u64 \<times> fd_state" where
  "fd_reserve_ofd_id s = (fd_next_ofd_id s, s\<lparr>fd_next_ofd_id := fd_next_ofd_id s + 1\<rparr>)"

definition fd_reexec_slot_available :: "fd_host \<Rightarrow> int \<Rightarrow> fd_state \<Rightarrow> bool" where
  "fd_reexec_slot_available H minfd0 s =
     (let minfd = if minfd0 < 0 then 0 else nat minfd0;
          limit0 = rlimit_nofile_cur H;
          limit = if limit0 > FD_TABLE_SIZE then FD_TABLE_SIZE else limit0 in
      list_ex (\<lambda>i. ftype (slot s i) = FD_CLOSED \<or> linux_flags (slot s i) AND LINUX_O_CLOEXEC \<noteq> 0) [minfd..<limit])"

section \<open>Lifetimes and directory streams\<close>

definition dir_stream_ref_locked :: "nat \<Rightarrow> fd_state \<Rightarrow> fd_state" where
  "dir_stream_ref_locked d s =
     (case dir_streams s d of
        None \<Rightarrow> s
      | Some ds \<Rightarrow> s\<lparr>dir_streams := (dir_streams s)(d \<mapsto> ds\<lparr>ds_refcount := ds_refcount ds + 1\<rparr>)\<rparr>)"

text \<open>The last release runs closedir, which closes the descriptor the stream adopted.\<close>

definition dir_stream_release :: "nat \<Rightarrow> fd_state \<Rightarrow> fd_state" where
  "dir_stream_release d s =
     (case dir_streams s d of
        None \<Rightarrow> s
      | Some ds \<Rightarrow>
          if ds_refcount ds = 1 then close_host (ds_fd ds) (s\<lparr>dir_streams := (dir_streams s)(d := None)\<rparr>)
          else s\<lparr>dir_streams := (dir_streams s)(d \<mapsto> ds\<lparr>ds_refcount := ds_refcount ds - 1\<rparr>)\<rparr>)"

text \<open>
  \<open>spare\<close> is the address of an object allocated outside the lock, \<open>malloc\<close> what an allocation here would
  return; the result is the pinned lifetime (\<open>None\<close> for NULL) and the spare that is left.
\<close>

definition fd_lifetime_pin_spare ::
  "int \<Rightarrow> nat option \<Rightarrow> nat option \<Rightarrow> fd_state \<Rightarrow> nat option \<times> nat option \<times> fd_state" where
  "fd_lifetime_pin_spare fd spare malloc s =
     (if \<not> RANGE_CHECK fd then (None, spare, s)
      else let e = slot s (nat fd) in
        if ftype e = FD_CLOSED \<or> host_fd e < 0 then (None, spare, s)
        else case lifetime e of
          Some l \<Rightarrow>
            (case lifetimes s l of
               None \<Rightarrow> (None, spare, s)
             | Some obj \<Rightarrow> (Some l, spare, s\<lparr>lifetimes := (lifetimes s)(l \<mapsto> obj\<lparr>refs := refs obj + 1\<rparr>)\<rparr>))
        | None \<Rightarrow>
            let (addr, spare') = (case spare of Some a \<Rightarrow> (Some a, None) | None \<Rightarrow> (malloc, None)) in
            case addr of
              None \<Rightarrow> (None, spare, s)
            | Some l \<Rightarrow>
                let d = (if ftype e = FD_DIR then dir_ptr e else None);
                    s1 = (case d of Some ds \<Rightarrow> dir_stream_ref_locked ds s | None \<Rightarrow> s);
                    s2 = set_slot (nat fd) (e\<lparr>lifetime := Some l\<rparr>) s1
                in (Some l, spare',
                    s2\<lparr>lifetimes := (lifetimes s2)(l \<mapsto> \<lparr>refs = 2, l_host_fd = host_fd e, l_type = ftype e, l_dir = d\<rparr>)\<rparr>))"

definition fd_lifetime_pin_locked :: "int \<Rightarrow> nat option \<Rightarrow> fd_state \<Rightarrow> nat option \<times> fd_state" where
  "fd_lifetime_pin_locked fd malloc s = (let (l, _, s1) = fd_lifetime_pin_spare fd None malloc s in (l, s1))"

definition fd_lifetime_release :: "nat \<Rightarrow> fd_state \<Rightarrow> fd_state" where
  "fd_lifetime_release l s =
     (case lifetimes s l of
        None \<Rightarrow> s
      | Some obj \<Rightarrow>
          if refs obj \<noteq> 1 then s\<lparr>lifetimes := (lifetimes s)(l \<mapsto> obj\<lparr>refs := refs obj - 1\<rparr>)\<rparr>
          else let s1 = (case l_dir obj of
                           Some d \<Rightarrow> dir_stream_release d s
                         | None \<Rightarrow> if l_type obj \<noteq> FD_STDIO then close_host (l_host_fd obj) s else s)
               in s1\<lparr>lifetimes := (lifetimes s1)(l := None)\<rparr>)"

section \<open>Closing a slot\<close>

definition fd_mark_closed_unlocked :: "nat \<Rightarrow> fd_state \<Rightarrow> nat option \<times> fd_state" where
  "fd_mark_closed_unlocked fd s =
     (let closing_ofd_id = ofd_id (slot s fd);
          detached = lifetime (slot s fd);
          s1 = shim_globals_mark_urandom_fd fd False s;
          s2 = set_slot fd ((slot s1 fd)\<lparr>ftype := FD_CLOSED, host_fd := -1, lifetime := None, ofd_id := 0,
                 dir_ptr := None, proc_path := [], path_poll_capable := False, linux_flags := 0, seals := 0,
                 fasync_owner_type := FASYNC_OWNER_NONE, fasync_owner := 0\<rparr>) s1;
          s3 = fd_bitmap_set_free fd s2
      in (detached, emit (epoll_note_fd_closed fd closing_ofd_id) s3))"

definition fd_mark_closed :: "nat \<Rightarrow> fd_state \<Rightarrow> nat option \<times> fd_state" where
  "fd_mark_closed fd s = fd_mark_closed_unlocked fd s"

definition fd_snapshot_locked :: "nat \<Rightarrow> bool \<Rightarrow> fd_state \<Rightarrow> fd_entry option \<times> fd_state" where
  "fd_snapshot_locked fd close_it s =
     (if ftype (slot s fd) = FD_CLOSED then (None, s)
      else (Some (slot s fd), if close_it then snd (fd_mark_closed_unlocked fd s) else s))"

definition fd_snapshot_and_close :: "int \<Rightarrow> fd_state \<Rightarrow> fd_entry option \<times> fd_state" where
  "fd_snapshot_and_close fd s = (if \<not> RANGE_CHECK fd then (None, s) else fd_snapshot_locked (nat fd) True s)"

definition fd_snapshot_and_close_relaxed :: "fd_host \<Rightarrow> int \<Rightarrow> fd_state \<Rightarrow> fd_entry option \<times> fd_state" where
  "fd_snapshot_and_close_relaxed H fd s =
     (if \<not> RANGE_CHECK fd then (None, s)
      else if \<not> single_active H then fd_snapshot_and_close fd s
      else fd_snapshot_locked (nat fd) True s)"

definition fd_close_regular_relaxed :: "fd_host \<Rightarrow> int \<Rightarrow> fd_state \<Rightarrow> int option \<times> fd_state" where
  "fd_close_regular_relaxed H fd s =
     (if \<not> RANGE_CHECK fd then (None, s)
      else if \<not> single_active H then (None, s)
      else let e = slot s (nat fd) in
        if ftype e \<noteq> FD_REGULAR \<or> dir_ptr e \<noteq> None \<or> fcleanup e \<noteq> None \<or> lifetime e \<noteq> None then (None, s)
        else (Some (host_fd e), snd (fd_mark_closed_unlocked (nat fd) s)))"

definition fd_cleanup_entry :: "nat \<Rightarrow> fd_entry \<Rightarrow> fd_state \<Rightarrow> fd_state" where
  "fd_cleanup_entry fd snap s =
     (let stream_owns_host_fd = (ftype snap = FD_DIR \<and> dir_ptr snap \<noteq> None);
          s1 = (case dir_ptr snap of Some d \<Rightarrow> if ftype snap = FD_EPOLL then emit (epoll_instance_free d) s else s | None \<Rightarrow> s);
          s2 = (case fcleanup snap of Some f \<Rightarrow> emit (type_cleanup f fd) s1 | None \<Rightarrow> s1);
          s3 = emit (proc_pty_forget_host_fd (host_fd snap)) s2;
          s4 = (if linux_flags snap AND LINUX_O_ASYNC \<noteq> 0 \<or> (ftype snap = FD_SOCKET \<and> fasync_owner_type snap \<noteq> FASYNC_OWNER_NONE)
                then emit (asyncio_disarm (host_fd snap)) s3 else s3);
          s5 = (case lifetime snap of
                  Some l \<Rightarrow> fd_lifetime_release l s4
                | None \<Rightarrow> if \<not> stream_owns_host_fd \<and> ftype snap \<noteq> FD_STDIO then close_host (host_fd snap) s4 else s4)
      in case dir_ptr snap of
           Some d \<Rightarrow> if stream_owns_host_fd then dir_stream_release d s5 else s5
         | None \<Rightarrow> s5)"

definition fd_retire_published :: "int \<Rightarrow> int \<Rightarrow> fd_state \<Rightarrow> fd_state" where
  "fd_retire_published fd h s =
     (if \<not> RANGE_CHECK fd then (if h \<ge> 0 then close_host h s else s)
      else let e = slot s (nat fd); still_ours = (ftype e \<noteq> FD_CLOSED \<and> host_fd e = h);
               (l, s1) = (if still_ours then fd_mark_closed_unlocked (nat fd) s else (None, s))
           in case l of
                Some lt \<Rightarrow> fd_lifetime_release lt s1
              | None \<Rightarrow> if still_ours \<and> h \<ge> 0 then close_host h s1 else s1)"

section \<open>Allocation at a given slot\<close>

text \<open>The window under the lock: the old occupant is handed out for cleanup after the lock is released.\<close>

definition replace_locked ::
  "fd_alias_spec option \<Rightarrow> nat \<Rightarrow> int \<Rightarrow> int \<Rightarrow> nat option \<Rightarrow> fd_host_probe \<Rightarrow> fd_state \<Rightarrow> fd_entry option \<times> fd_state" where
  "replace_locked al fd t h cleanup probe s =
     (let old = slot s fd in
      if ftype old \<noteq> FD_CLOSED
      then (Some old, fd_init_entry al fd t h cleanup probe (emit (epoll_note_fd_closed fd (ofd_id old)) s))
      else (None, fd_init_entry al fd t h cleanup probe s))"

definition cleanup_old :: "nat \<Rightarrow> fd_entry option \<Rightarrow> fd_state \<Rightarrow> fd_state" where
  "cleanup_old fd old s = (case old of None \<Rightarrow> s | Some e \<Rightarrow> fd_cleanup_entry fd e s)"

definition fd_alloc_at ::
  "fd_host \<Rightarrow> fd_alias_spec option \<Rightarrow> int \<Rightarrow> int \<Rightarrow> int \<Rightarrow> nat option \<Rightarrow> fd_state \<Rightarrow> nat option \<times> fd_state" where
  "fd_alloc_at H al fd t h cleanup s =
     (if \<not> RANGE_CHECK fd then (None, s)
      else if fd \<ge> int (rlimit_nofile_cur H) then (None, s)
      else let (probe, s1) = fd_probe_host H al t h s;
               (old, s2) = replace_locked al (nat fd) t h cleanup probe s1
           in (Some (nat fd), cleanup_old (nat fd) old s2))"

definition fd_alloc_dir_at ::
  "fd_host \<Rightarrow> fd_alias_spec option \<Rightarrow> int \<Rightarrow> int \<Rightarrow> int \<Rightarrow> nat option \<Rightarrow> nat option \<Rightarrow> u32 \<Rightarrow> fd_state \<Rightarrow> nat option \<times> fd_state" where
  "fd_alloc_dir_at H al fd t h cleanup dir flags s =
     (if \<not> RANGE_CHECK fd then (None, s)
      else if fd \<ge> int (rlimit_nofile_cur H) then (None, s)
      else let (probe, s1) = fd_probe_host H al t h s;
               (old, s2) = replace_locked al (nat fd) t h cleanup probe s1
           in (Some (nat fd), cleanup_old (nat fd) old (install_dir (nat fd) dir flags s2)))"

definition fd_alloc_at_relaxed ::
  "fd_host \<Rightarrow> fd_alias_spec option \<Rightarrow> int \<Rightarrow> int \<Rightarrow> int \<Rightarrow> nat option \<Rightarrow> fd_state \<Rightarrow> nat option \<times> fd_state" where
  "fd_alloc_at_relaxed H al fd t h cleanup s =
     (if \<not> RANGE_CHECK fd then (None, s)
      else if fd \<ge> int (rlimit_nofile_cur H) then (None, s)
      else if \<not> single_active H then fd_alloc_at H al fd t h cleanup s
      else if ftype (slot s (nat fd)) \<noteq> FD_CLOSED then fd_alloc_at H al fd t h cleanup s
      else let (probe, s1) = fd_probe_host H al t h s in (Some (nat fd), fd_init_entry al (nat fd) t h cleanup probe s1))"

text \<open>The alias entry points bracket a plain allocator with the inheritance.\<close>

definition fd_alloc_alias :: "fd_host \<Rightarrow> fd_alias_spec option \<Rightarrow> int \<Rightarrow> int \<Rightarrow> nat option \<Rightarrow> fd_state \<Rightarrow> nat option \<times> fd_state" where
  "fd_alloc_alias H spec t h cleanup s = fd_alloc H spec t h cleanup s"

definition fd_alloc_alias_at ::
  "fd_host \<Rightarrow> fd_alias_spec option \<Rightarrow> int \<Rightarrow> int \<Rightarrow> int \<Rightarrow> nat option \<Rightarrow> fd_state \<Rightarrow> nat option \<times> fd_state" where
  "fd_alloc_alias_at H spec fd t h cleanup s = fd_alloc_at H spec fd t h cleanup s"

definition fd_alloc_alias_relaxed ::
  "fd_host \<Rightarrow> fd_alias_spec option \<Rightarrow> int \<Rightarrow> int \<Rightarrow> int \<Rightarrow> int \<Rightarrow> nat option \<Rightarrow> fd_state \<Rightarrow> nat option \<times> fd_state" where
  "fd_alloc_alias_relaxed H spec fixed_fd minfd t h cleanup s =
     (if fixed_fd \<ge> 0 then fd_alloc_at_relaxed H spec fixed_fd t h cleanup s
      else fd_alloc_from_relaxed H spec minfd t h cleanup s)"

definition fd_alloc_alias_dir ::
  "fd_host \<Rightarrow> fd_alias_spec option \<Rightarrow> int \<Rightarrow> int \<Rightarrow> int \<Rightarrow> int \<Rightarrow> nat option \<Rightarrow> nat option \<Rightarrow> u32 \<Rightarrow> fd_state \<Rightarrow> nat option \<times> fd_state" where
  "fd_alloc_alias_dir H spec fixed_fd minfd t h cleanup dir flags s =
     (if fixed_fd \<ge> 0 then fd_alloc_dir_at H spec fixed_fd t h cleanup dir flags s
      else fd_alloc_dir_from H spec minfd t h cleanup dir flags s)"

definition fd_alias_of :: "int \<Rightarrow> fd_entry \<Rightarrow> fd_alias_spec" where
  "fd_alias_of src_fd src =
     \<lparr>a_ofd_id = ofd_id src, a_linux_flags = linux_flags src AND FD_DESCRIPTION_FLAGS, a_foreign = foreign_description src,
      a_nonblock_owned = nonblock_owned src, a_path_poll = path_poll_capable src, a_src_fd = src_fd,
      a_src_generation = generation src\<rparr>"

definition fd_alias_host_shared :: "fd_entry \<Rightarrow> fd_alias_spec" where
  "fd_alias_host_shared src =
     \<lparr>a_ofd_id = 0, a_linux_flags = 0, a_foreign = foreign_description src, a_nonblock_owned = nonblock_owned src,
      a_path_poll = path_poll_capable src, a_src_fd = -1, a_src_generation = 0\<rparr>"

definition fd_alias_identity :: "u64 \<Rightarrow> u32 \<Rightarrow> fd_alias_spec" where
  "fd_alias_identity ident flags =
     \<lparr>a_ofd_id = ident, a_linux_flags = flags, a_foreign = False, a_nonblock_owned = False, a_path_poll = False,
      a_src_fd = -1, a_src_generation = 0\<rparr>"

section \<open>Looking up and borrowing\<close>

definition fd_to_host :: "int \<Rightarrow> fd_state \<Rightarrow> int" where
  "fd_to_host fd s =
     (if \<not> RANGE_CHECK fd then -1
      else if ftype (slot s (nat fd)) = FD_CLOSED then -1 else host_fd (slot s (nat fd)))"

definition fd_snapshot :: "int \<Rightarrow> fd_state \<Rightarrow> fd_entry option" where
  "fd_snapshot fd s = (if \<not> RANGE_CHECK fd then None else fst (fd_snapshot_locked (nat fd) False s))"

definition fd_current_generation :: "int \<Rightarrow> fd_state \<Rightarrow> u64" where
  "fd_current_generation fd s = (case fd_snapshot fd s of None \<Rightarrow> 0 | Some snap \<Rightarrow> generation snap)"

text \<open>One pass of the acquire loop under the lock: refused, in need of an allocation, or done.\<close>

datatype acquire = Acq_EBADF | Acq_ENOMEM | Acq_Need | Acq_Ok int nat

definition acquire_pass :: "int \<Rightarrow> nat option \<Rightarrow> fd_state \<Rightarrow> acquire \<times> nat option \<times> fd_state" where
  "acquire_pass fd spare s =
     (case fst (fd_snapshot_locked (nat fd) False s) of
        None \<Rightarrow> (Acq_EBADF, spare, s)
      | Some out \<Rightarrow>
          if host_fd out < 0 then (Acq_EBADF, spare, s)
          else if lifetime out \<noteq> None \<or> spare \<noteq> None then
            (case fd_lifetime_pin_spare fd spare None s of
               (None, spare', s1) \<Rightarrow> (Acq_ENOMEM, spare', s1)
             | (Some l, spare', s1) \<Rightarrow> (Acq_Ok (host_fd out) l, spare', s1))
          else (Acq_Need, None, s))"

text \<open>
  The loop: between two passes the lock is down and the other threads run, \<open>others k\<close> after pass \<open>k\<close>,
  \<open>malloc k\<close> being what the allocation then returns. A loop that goes on for ever has no value.
\<close>

partial_function (option) acquire_loop ::
  "int \<Rightarrow> (nat \<Rightarrow> nat option) \<Rightarrow> (nat \<Rightarrow> fd_state \<Rightarrow> fd_state) \<Rightarrow> nat \<Rightarrow> nat option \<Rightarrow> fd_state \<Rightarrow> (acquire \<times> fd_state) option" where
  "acquire_loop fd malloc others k spare s =
     (case acquire_pass fd spare s of
        (r, _, s1) \<Rightarrow>
          if r \<noteq> Acq_Need then Some (r, s1)
          else case malloc k of
                 None \<Rightarrow> Some (Acq_ENOMEM, s1)
               | Some a \<Rightarrow> acquire_loop fd malloc others (k + 1) (Some a) (others k s1))"

declare acquire_loop.simps [code]

definition fd_host_ref_acquire ::
  "int \<Rightarrow> (nat \<Rightarrow> nat option) \<Rightarrow> (nat \<Rightarrow> fd_state \<Rightarrow> fd_state) \<Rightarrow> fd_state \<Rightarrow> (acquire \<times> fd_state) option" where
  "fd_host_ref_acquire fd malloc others s =
     (if \<not> RANGE_CHECK fd then Some (Acq_EBADF, s) else acquire_loop fd malloc others 0 None s)"

record host_fd_ref =
  ref_fd :: int
  ref_lifetime :: "nat option"

definition host_fd_ref_open ::
  "fd_host \<Rightarrow> int \<Rightarrow> (nat \<Rightarrow> nat option) \<Rightarrow> (nat \<Rightarrow> fd_state \<Rightarrow> fd_state) \<Rightarrow> fd_state \<Rightarrow> ((acquire + host_fd_ref) \<times> fd_state) option" where
  "host_fd_ref_open H fd malloc others s =
     (if single_active H then
        (let h = fd_to_host fd s in
         if h < 0 then Some (Inl Acq_EBADF, s) else Some (Inr \<lparr>ref_fd = h, ref_lifetime = None\<rparr>, s))
      else case fd_host_ref_acquire fd malloc others s of
             None \<Rightarrow> None
           | Some (Acq_Ok h l, s1) \<Rightarrow> Some (Inr \<lparr>ref_fd = h, ref_lifetime = Some l\<rparr>, s1)
           | Some (r, s1) \<Rightarrow> Some (Inl r, s1))"

definition host_fd_ref_close :: "host_fd_ref \<Rightarrow> fd_state \<Rightarrow> fd_state" where
  "host_fd_ref_close ref s = (case ref_lifetime ref of Some l \<Rightarrow> fd_lifetime_release l s | None \<Rightarrow> s)"

text \<open>The duplicating snapshots: \<open>dup\<close> is the descriptor the host's dup returns, \<open>None\<close> when it fails.\<close>

definition host_dup :: "int option \<Rightarrow> int \<Rightarrow> fd_state \<Rightarrow> int \<times> fd_state" where
  "host_dup dup h s =
     (case dup of
        Some h' \<Rightarrow> (h', s\<lparr>host_flags := (host_flags s)(h' := host_flags s h)\<rparr>)
      | None \<Rightarrow> (-1, s))"

definition fd_snapshot_and_dup :: "int option \<Rightarrow> int \<Rightarrow> fd_state \<Rightarrow> int \<times> fd_entry option \<times> fd_state" where
  "fd_snapshot_and_dup dup fd s =
     (if \<not> RANGE_CHECK fd then (-1, None, s)
      else case fst (fd_snapshot_locked (nat fd) False s) of
             None \<Rightarrow> (-1, None, s)
           | Some out \<Rightarrow>
               (let (h, s1) = (if host_fd out \<ge> 0 then host_dup dup (host_fd out) s else (-1, s)) in (h, Some out, s1)))"

definition fd_snapshot_and_dup_or_share_dir ::
  "int option \<Rightarrow> int \<Rightarrow> fd_state \<Rightarrow> int \<times> bool \<times> fd_entry option \<times> fd_state" where
  "fd_snapshot_and_dup_or_share_dir dup fd s =
     (if \<not> RANGE_CHECK fd then (-1, False, None, s)
      else case fst (fd_snapshot_locked (nat fd) False s) of
             None \<Rightarrow> (-1, False, None, s)
           | Some out \<Rightarrow>
               (case (if ftype out = FD_DIR then dir_ptr out else None) of
                  Some d \<Rightarrow> (host_fd out, True, Some out, dir_stream_ref_locked d s)
                | None \<Rightarrow>
                    (let (h, s1) = (if host_fd out \<ge> 0 then host_dup dup (host_fd out) s else (-1, s))
                     in (h, False, Some out, s1))))"

definition fd_to_host_dup :: "int option \<Rightarrow> int \<Rightarrow> fd_state \<Rightarrow> int \<times> fd_state" where
  "fd_to_host_dup dup fd s =
     (if \<not> RANGE_CHECK fd then (-1, s)
      else if ftype (slot s (nat fd)) = FD_CLOSED then (-1, s)
      else host_dup dup (host_fd (slot s (nat fd))) s)"

definition fd_get_type :: "int \<Rightarrow> fd_state \<Rightarrow> int" where
  "fd_get_type fd s = (if \<not> RANGE_CHECK fd then FD_CLOSED else ftype (slot s (nat fd)))"

record fd_block_state =
  b_type :: int
  b_generation :: u64
  b_seals :: u32
  b_can_block :: bool
  b_nonblock_owned :: bool
  b_guest_nonblock :: bool
  b_call_nonblock :: bool

definition fd_block_state_of :: "fd_entry \<Rightarrow> fd_block_state" where
  "fd_block_state_of e =
     \<lparr>b_type = ftype e, b_generation = generation e, b_seals = seals e, b_can_block = can_block e,
      b_nonblock_owned = nonblock_owned e, b_guest_nonblock = (linux_flags e AND LINUX_O_NONBLOCK \<noteq> 0),
      b_call_nonblock = False\<rparr>"

definition fd_block_state :: "int \<Rightarrow> fd_state \<Rightarrow> fd_block_state" where
  "fd_block_state fd s =
     (if \<not> RANGE_CHECK fd
      then \<lparr>b_type = FD_CLOSED, b_generation = 0, b_seals = 0, b_can_block = False, b_nonblock_owned = False, b_guest_nonblock = False, b_call_nonblock = False\<rparr>
      else fd_block_state_of (slot s (nat fd)))"

definition fd_guest_nonblock :: "int \<Rightarrow> fd_state \<Rightarrow> bool" where
  "fd_guest_nonblock fd s = b_guest_nonblock (fd_block_state fd s)"

section \<open>The alias sweep\<close>

definition fd_for_each_alias_locked ::
  "int \<Rightarrow> u64 \<Rightarrow> (nat \<Rightarrow> fd_state \<Rightarrow> fd_state) \<Rightarrow> fd_state \<Rightarrow> fd_state" where
  "fd_for_each_alias_locked fd gen fn s =
     (if \<not> RANGE_CHECK fd then s
      else if ftype (slot s (nat fd)) = FD_CLOSED \<or> generation (slot s (nat fd)) \<noteq> gen then s
      else let oid = ofd_id (slot s (nat fd)) in
        if oid = 0 then s
        else fold (\<lambda>w st. fold (\<lambda>b st'. let i = w * 64 + b in
                      if ftype (slot st' i) \<noteq> FD_CLOSED \<and> ofd_id (slot st' i) = oid then fn i st' else st')
                    (set_bits_of (NOT (fd_free_bitmap st ! w))) st)
               [0..<FD_BITMAP_WORDS] s)"

definition set_shadow_bits_slot :: "u32 \<Rightarrow> u32 \<Rightarrow> nat \<Rightarrow> fd_state \<Rightarrow> fd_state" where
  "set_shadow_bits_slot msk val fd s =
     set_slot fd ((slot s fd)\<lparr>linux_flags := (linux_flags (slot s fd) AND NOT msk) OR (val AND msk)\<rparr>) s"

definition fd_set_shadow_flags :: "int \<Rightarrow> u64 \<Rightarrow> u32 \<Rightarrow> u32 \<Rightarrow> fd_state \<Rightarrow> fd_state" where
  "fd_set_shadow_flags fd gen msk val s = fd_for_each_alias_locked fd gen (set_shadow_bits_slot msk val) s"

definition fd_apply_guest_nonblock :: "int \<Rightarrow> bool \<Rightarrow> fd_state \<Rightarrow> bool \<times> fd_state" where
  "fd_apply_guest_nonblock fd on s =
     (if \<not> RANGE_CHECK fd then (False, s)
      else let e = slot s (nat fd);
               shadowed = (ftype e \<noteq> FD_CLOSED \<and> fd_nonblock_shadowed (ftype e) (nonblock_owned e))
           in (shadowed,
               if shadowed
               then fd_for_each_alias_locked fd (generation e)
                      (set_shadow_bits_slot LINUX_O_NONBLOCK (if on then LINUX_O_NONBLOCK else 0)) s
               else s))"

definition fd_publish_linux_flags :: "int \<Rightarrow> u32 \<Rightarrow> fd_state \<Rightarrow> fd_state" where
  "fd_publish_linux_flags fd flags s =
     (if \<not> RANGE_CHECK fd then s
      else set_slot (nat fd)
             ((slot s (nat fd))\<lparr>linux_flags := fd_flags_with_accmode (ftype (slot s (nat fd))) flags\<rparr>) s)"

section \<open>The type registry\<close>

definition FD_TYPE_REGISTRY_SIZE :: nat where "FD_TYPE_REGISTRY_SIZE = 32"

definition fd_register_cleanup :: "int \<Rightarrow> nat option \<Rightarrow> nat option list \<Rightarrow> nat option list" where
  "fd_register_cleanup t cleanup reg =
     (if t < 0 \<or> t \<ge> int FD_TYPE_REGISTRY_SIZE then reg else reg[nat t := cleanup])"

definition fd_cleanup_for_type :: "int \<Rightarrow> nat option list \<Rightarrow> nat option" where
  "fd_cleanup_for_type t reg = (if t < 0 \<or> t \<ge> int FD_TYPE_REGISTRY_SIZE then None else reg ! nat t)"

section \<open>System calls\<close>

datatype fd_result = Fd_Ok | Fd_EBADF | Fd_EINVAL | Fd_EMFILE | Fd_EFAULT | Fd_Host

text \<open>\<open>Fd_Host\<close> is the host's errno: the close of a number that is not open, a pipe the host refuses.\<close>

definition sys_close :: "fd_host \<Rightarrow> int \<Rightarrow> fd_state \<Rightarrow> fd_result \<times> fd_state" where
  "sys_close H fd s =
     (if \<not> RANGE_CHECK fd then (Fd_EBADF, s)
      else let s1 = emit (absock_unregister_fd fd) s in
        case fd_close_regular_relaxed H fd s1 of
          (Some h, s2) \<Rightarrow>
            (let s3 = emit (chown_overlay_clear_closed_unlinked_fd h) (emit (proc_pty_forget_host_fd h) s2) in
             (if host_flags s3 h = None \<or> h < 0 then Fd_Host else Fd_Ok, close_host h s3))
        | (None, s2) \<Rightarrow>
            (case fd_snapshot_and_close_relaxed H fd s2 of
               (None, s3) \<Rightarrow> (Fd_EBADF, s3)
             | (Some snap, s3) \<Rightarrow>
                 (Fd_Ok, fd_cleanup_entry (nat fd) snap (emit (chown_overlay_clear_closed_unlinked_fd (host_fd snap)) s3))))"

definition LINUX_CLOSE_RANGE_CLOEXEC :: u32 where "LINUX_CLOSE_RANGE_CLOEXEC = 4"

definition close_one :: "nat \<Rightarrow> fd_state \<Rightarrow> fd_state" where
  "close_one i s =
     (case fd_snapshot_and_close (int i) s of (None, s1) \<Rightarrow> s1 | (Some snap, s1) \<Rightarrow> fd_cleanup_entry i snap s1)"

definition mark_cloexec :: "nat \<Rightarrow> fd_state \<Rightarrow> fd_state" where
  "mark_cloexec i s =
     (if ftype (slot s i) \<noteq> FD_CLOSED
      then set_slot i ((slot s i)\<lparr>linux_flags := linux_flags (slot s i) OR LINUX_O_CLOEXEC\<rparr>) s else s)"

definition sys_close_range :: "u32 \<Rightarrow> u32 \<Rightarrow> u32 \<Rightarrow> fd_state \<Rightarrow> fd_result \<times> fd_state" where
  "sys_close_range first last0 flags s =
     (if first > last0 then (Fd_EINVAL, s)
      else if flags AND NOT LINUX_CLOSE_RANGE_CLOEXEC \<noteq> 0 then (Fd_EINVAL, s)
      else let lastfd = (if unat last0 \<ge> FD_TABLE_SIZE then FD_TABLE_SIZE - 1 else unat last0);
               range = [unat first..<min (lastfd + 1) FD_TABLE_SIZE] in
        if flags AND LINUX_CLOSE_RANGE_CLOEXEC \<noteq> 0 then (Fd_Ok, fold mark_cloexec range s)
        else (Fd_Ok, fold close_one range s))"

definition own_nonblock :: "fd_host \<Rightarrow> nat \<Rightarrow> int \<Rightarrow> fd_state \<Rightarrow> fd_state" where
  "own_nonblock H fd h s =
     (if \<not> b_nonblock_owned (fd_block_state (int fd) s) then snd (fd_set_nonblock H h s) else s)"

text \<open>
  \<open>ends\<close> are the two descriptors the host's pipe returned, \<open>None\<close> when that call failed; \<open>write_ok\<close> is whether the pair
  reaches guest memory.
\<close>

definition sys_pipe2 :: "fd_host \<Rightarrow> (int \<times> int) option \<Rightarrow> bool \<Rightarrow> u32 \<Rightarrow> fd_state \<Rightarrow> fd_result \<times> fd_state" where
  "sys_pipe2 H ends write_ok flags s =
     (if flags AND NOT (LINUX_O_CLOEXEC OR LINUX_O_NONBLOCK OR LINUX_O_DIRECT) \<noteq> 0 then (Fd_EINVAL, s)
      else case ends of
        None \<Rightarrow> (Fd_Host, s)
      | Some (h0, h1) \<Rightarrow>
        let s0 = s\<lparr>host_flags := (host_flags s)(h0 \<mapsto> 0, h1 \<mapsto> 0)\<rparr> in
        case fd_alloc H None FD_PIPE h0 None s0 of
          (None, s1) \<Rightarrow> (Fd_EMFILE, close_host h1 (close_host h0 s1))
        | (Some g0, s1) \<Rightarrow>
            (case fd_alloc H None FD_PIPE h1 None s1 of
               (None, s2) \<Rightarrow> (Fd_EMFILE, close_host h1 (fd_retire_published (int g0) h0 s2))
             | (Some g1, s2) \<Rightarrow>
                 (let shadow = flags AND (LINUX_O_CLOEXEC OR LINUX_O_NONBLOCK);
                      s3 = fd_publish_linux_flags (int g1) shadow (fd_publish_linux_flags (int g0) shadow s2);
                      s4 = (if flags AND LINUX_O_NONBLOCK \<noteq> 0 then own_nonblock H g1 h1 (own_nonblock H g0 h0 s3) else s3)
                  in if \<not> write_ok
                     then (Fd_EFAULT, fd_retire_published (int g1) h1 (fd_retire_published (int g0) h0 s4))
                     else (Fd_Ok, s4))))"

end
