(* ===== verification/Fd_Table_Laws.thy ===== *)
theory Fd_Table_Laws
  imports Fd_Table
begin

text \<open>
  Laws of the descriptor table: what the bitmaps mean, that the word scan finds the lowest free
  descriptor, what filling and clearing a slot change, and the invariant that the bitmap, the shim's
  urandom bitmap and the generation stamps agree with the slots.
\<close>

named_theorems fd_frame \<open>what an operation leaves alone\<close>

section \<open>Bitmaps\<close>

definition bit_set :: "u64 list \<Rightarrow> nat \<Rightarrow> bool" where
  "bit_set bm fd = bit (bm ! (fd div 64)) (fd mod 64)"

abbreviation free_fd :: "fd_state \<Rightarrow> nat \<Rightarrow> bool" where
  "free_fd s fd \<equiv> bit_set (fd_free_bitmap s) fd"

lemma fd_sizes [simp]: "FD_TABLE_SIZE = 1024" "FD_BITMAP_WORDS = 16"
  by (simp_all add: FD_TABLE_SIZE_def FD_BITMAP_WORDS_def)

lemma bit_single: "n < 64 \<Longrightarrow> bit (2 ^ n :: u64) m \<longleftrightarrow> m = n"
  by (auto simp: bit_exp_iff)

lemma bit_set_update:
  assumes "length bm = 16" "fd < 1024"
  shows "bit_set (bm[fd div 64 := w]) i \<longleftrightarrow> (if i div 64 = fd div 64 then bit w (i mod 64) else bit_set bm i)"
proof -
  have "fd div 64 < length bm"
    using assms by simp
  then show ?thesis
    by (auto simp: bit_set_def)
qed

lemma same_word: "(i :: nat) div 64 = fd div 64 \<Longrightarrow> i mod 64 = fd mod 64 \<longleftrightarrow> i = fd"
  by (metis div_mult_mod_eq)

lemma bit_set_or:
  assumes "fd < 1024" "length bm = 16"
  shows "bit_set (bm[fd div 64 := bm ! (fd div 64) OR push_bit (fd mod 64) 1]) i \<longleftrightarrow> i = fd \<or> bit_set bm i"
proof (cases "i div 64 = fd div 64")
  case True
  then show ?thesis
    using same_word [OF True] bit_set_update [OF assms(2,1), of "bm ! (fd div 64) OR push_bit (fd mod 64) 1" i]
    by (simp add: bit_or_iff bit_single bit_set_def [of bm] disj_commute)
next
  case False
  then show ?thesis
    using bit_set_update [OF assms(2,1), of "bm ! (fd div 64) OR push_bit (fd mod 64) 1" i] by auto
qed

lemma bit_set_and_not:
  assumes "fd < 1024" "length bm = 16"
  shows "bit_set (bm[fd div 64 := bm ! (fd div 64) AND NOT (push_bit (fd mod 64) 1)]) i \<longleftrightarrow> i \<noteq> fd \<and> bit_set bm i"
proof (cases "i div 64 = fd div 64")
  case True
  then show ?thesis
    using same_word [OF True] bit_set_update [OF assms(2,1), of "bm ! (fd div 64) AND NOT (push_bit (fd mod 64) 1)" i]
    by (simp add: bit_and_iff bit_not_iff bit_single bit_set_def [of bm] conj_commute)
next
  case False
  then show ?thesis
    using bit_set_update [OF assms(2,1), of "bm ! (fd div 64) AND NOT (push_bit (fd mod 64) 1)" i] by auto
qed

section \<open>The scan\<close>

text \<open>\<open>ws\<close> is the bitmap from word \<open>word\<close> on; the mask keeps the bits from \<open>b\<close> on.\<close>

definition hit :: "u64 list \<Rightarrow> u64 \<Rightarrow> nat \<Rightarrow> nat \<Rightarrow> bool" where
  "hit ws msk k n \<longleftrightarrow> bit (ws ! k) n \<and> (k = 0 \<longrightarrow> bit msk n)"

lemma hit_Cons:
  "hit (w # ws) msk 0 n \<longleftrightarrow> bit (w AND msk) n"
  "n < 64 \<Longrightarrow> hit (w # ws) msk (Suc k) n \<longleftrightarrow> hit ws (NOT 0) k n"
  by (auto simp: hit_def bit_and_iff bit_not_iff)

lemma scan_words_sound:
  "scan_words ws word msk = Some fd \<Longrightarrow>
     \<exists>k n. k < length ws \<and> n < 64 \<and> fd = (word + k) * 64 + n \<and> hit ws msk k n \<and>
       (\<forall>j m. m < 64 \<and> (j < k \<or> j = k \<and> m < n) \<longrightarrow> \<not> hit ws msk j m)"
proof (induction ws word msk rule: scan_words.induct)
  case (2 w ws word msk)
  show ?case
  proof (cases "w AND msk = 0")
    case False
    note c = bit_ctz64_least [OF False]
    have "fd = word * 64 + bit_ctz64 (w AND msk)"
      using 2(2) False by simp
    then show ?thesis
      using c by (intro exI [of _ 0] exI [of _ "bit_ctz64 (w AND msk)"]) (auto simp: hit_Cons)
  next
    case True
    with 2 obtain k n where k: "k < length ws" "n < 64" "fd = (word + 1 + k) * 64 + n" "hit ws (NOT 0) k n"
      and low: "\<And>j m. m < 64 \<Longrightarrow> j < k \<or> j = k \<and> m < n \<Longrightarrow> \<not> hit ws (NOT 0) j m"
      by auto
    have "\<not> hit (w # ws) msk j m" if "m < 64" "j < Suc k \<or> j = Suc k \<and> m < n" for j m
      using that low [of m "j - 1"] True by (cases j) (auto simp: hit_Cons)
    then show ?thesis
      using k by (intro exI [of _ "Suc k"] exI [of _ n]) (auto simp: hit_Cons)
  qed
qed simp

lemma scan_words_complete:
  "scan_words ws word msk = None \<Longrightarrow> k < length ws \<Longrightarrow> n < 64 \<Longrightarrow> \<not> hit ws msk k n"
proof (induction ws word msk arbitrary: k rule: scan_words.induct)
  case (2 w ws word msk)
  then have "w AND msk = 0" "scan_words ws (word + 1) (NOT 0) = None"
    by (auto split: if_splits simp: Let_def)
  with 2 show ?case
    by (cases k) (auto simp: hit_Cons)
qed simp

text \<open>The lowest free descriptor from a bound on, when there is one below the table size.\<close>

definition lowest_free :: "(nat \<Rightarrow> bool) \<Rightarrow> nat \<Rightarrow> nat option" where
  "lowest_free free lo = List.find free [lo..<1024]"

lemma lowest_free_Some_iff:
  "lowest_free free lo = Some fd \<longleftrightarrow> lo \<le> fd \<and> fd < 1024 \<and> free fd \<and> (\<forall>i. lo \<le> i \<and> i < fd \<longrightarrow> \<not> free i)"
proof
  assume "lowest_free free lo = Some fd"
  then obtain k where k: "k < length [lo..<1024]" "free ([lo..<1024] ! k)" "fd = [lo..<1024] ! k"
    "\<forall>j<k. \<not> free ([lo..<1024] ! j)"
    by (auto simp: lowest_free_def find_Some_iff)
  have "\<not> free i" if "lo \<le> i" "i < fd" for i
    using k that by (auto dest: spec [of _ "i - lo"])
  then show "lo \<le> fd \<and> fd < 1024 \<and> free fd \<and> (\<forall>i. lo \<le> i \<and> i < fd \<longrightarrow> \<not> free i)"
    using k by auto
next
  assume "lo \<le> fd \<and> fd < 1024 \<and> free fd \<and> (\<forall>i. lo \<le> i \<and> i < fd \<longrightarrow> \<not> free i)"
  then show "lowest_free free lo = Some fd"
    by (auto simp: lowest_free_def find_Some_iff intro!: exI [of _ "fd - lo"])
qed

lemma lowest_free_None_iff: "lowest_free free lo = None \<longleftrightarrow> (\<forall>i. lo \<le> i \<and> i < 1024 \<longrightarrow> \<not> free i)"
  by (auto simp: lowest_free_def find_None_iff)

lemma mask_from: "m < 64 \<Longrightarrow> bit (push_bit b (NOT 0) :: u64) m \<longleftrightarrow> b \<le> m"
  by (auto simp: bit_push_bit_iff bit_not_iff bit_mask_iff)

lemma mask_from': "m < 64 \<Longrightarrow> bit (NOT (mask b) :: u64) m \<longleftrightarrow> b \<le> m"
  by (auto simp: bit_not_iff bit_mask_iff)

lemma lex_64:
  assumes "(n :: nat) < 64" "a * 64 + m < c * 64 + n"
  shows "a < c \<or> a = c \<and> m < n"
proof (cases a c rule: linorder_cases)
  case greater
  then have "(c + 1) * 64 \<le> a * 64" by (intro mult_le_mono1) simp
  with assms show ?thesis by simp
qed (use assms in simp_all)

lemma bit_set_split: "n < 64 \<Longrightarrow> bit_set bm (q * 64 + n) = bit (bm ! q) n"
  by (simp add: bit_set_def)

lemma fd_bitmap_find_free_lowest:
  assumes "length (fd_free_bitmap s) = 16"
  shows "fd_bitmap_find_free minfd s = lowest_free (free_fd s) (nat minfd)"
proof (cases "minfd < 1024")
  case False
  then have "fd_bitmap_find_free minfd s = None" "[nat minfd..<1024] = []"
    by (simp_all add: fd_bitmap_find_free_def fdset_slot_def)
  then show ?thesis
    by (simp only: lowest_free_def find.simps)
next
  case True
  define lo where "lo = nat minfd"
  define word b where wb: "word = lo div 64" "b = lo mod 64"
  let ?ws = "drop word (fd_free_bitmap s)" and ?msk = "push_bit b (NOT 0) :: u64"
  have lo: "lo < 1024" "lo = word * 64 + b" "b < 64" "word < 16"
    using True by (auto simp: lo_def wb)
  have "fdset_slot (if minfd < 0 then 0 else minfd) = Some (word, b)"
    using True by (simp add: fdset_slot_def lo_def wb)
  then have scan: "fd_bitmap_find_free minfd s = scan_words ?ws word ?msk"
    unfolding fd_bitmap_find_free_def Let_def by (simp only: option.case prod.case)
  have at: "hit ?ws ?msk k n \<longleftrightarrow> free_fd s ((word + k) * 64 + n) \<and> (k = 0 \<longrightarrow> b \<le> n)" if "n < 64" "k < length ?ws" for k n
    using that assms bit_set_split [OF that(1), of "fd_free_bitmap s" "word + k"] by (simp add: hit_def mask_from')
  have split: "\<exists>k n. i = (word + k) * 64 + n \<and> n < 64 \<and> k < length ?ws \<and> (k = 0 \<longrightarrow> b \<le> n)" if "lo \<le> i" "i < 1024" for i
  proof (intro exI conjI)
    have "word \<le> i div 64"
      unfolding wb by (rule div_le_mono [OF that(1)])
    then show "i = (word + (i div 64 - word)) * 64 + i mod 64" "i div 64 - word < length ?ws"
      using that(2) assms by auto
    show "i div 64 - word = 0 \<longrightarrow> b \<le> i mod 64"
    proof
      assume "i div 64 - word = 0"
      with \<open>word \<le> i div 64\<close> have "i div 64 = word" by linarith
      with div_mult_mod_eq [of i 64] have "word * 64 + i mod 64 = i" by (simp only:)
      with that(1) lo(2) show "b \<le> i mod 64" by linarith
    qed
  qed simp
  show ?thesis
  proof (cases "scan_words ?ws word ?msk")
    case None
    have "\<not> free_fd s i" if i: "lo \<le> i" "i < 1024" for i
    proof -
      obtain k n where "i = (word + k) * 64 + n" "n < 64" "k < length ?ws" "k = 0 \<longrightarrow> b \<le> n"
        using split [OF i] by blast
      then show ?thesis
        using scan_words_complete [OF None, of k n] at [of n k] by simp
    qed
    then show ?thesis
      using None scan lowest_free_None_iff [of "free_fd s" lo] by (simp add: lo_def)
  next
    case (Some fd)
    from scan_words_sound [OF this] obtain k n where k: "k < length ?ws" "n < 64" "fd = (word + k) * 64 + n"
      "hit ?ws ?msk k n" and low: "\<And>j m. m < 64 \<Longrightarrow> j < k \<or> j = k \<and> m < n \<Longrightarrow> \<not> hit ?ws ?msk j m"
      by blast
    have "\<not> free_fd s i" if i: "lo \<le> i" "i < fd" "i < 1024" for i
    proof -
      obtain j m where j: "i = (word + j) * 64 + m" "m < 64" "j < length ?ws" "j = 0 \<longrightarrow> b \<le> m"
        using split [OF i(1,3)] by blast
      have "j < k \<or> j = k \<and> m < n"
        using i(2) lex_64 [OF k(2), of "word + j" m "word + k"] unfolding j(1) k(3) by simp
      then show ?thesis
        unfolding j(1) using low [OF j(2)] at [OF j(2,3)] j(4) by blast
    qed
    moreover have "free_fd s fd" and kb: "k = 0 \<longrightarrow> b \<le> n"
      unfolding k(3) using at [OF k(2,1)] k(4) by blast+
    moreover have "lo \<le> fd"
      unfolding k(3) lo(2) using kb lo(3) by (cases k) simp_all
    moreover have "word + k < 16"
      using k(1) assms by simp
    then have "(word + k) * 64 \<le> 15 * 64"
      by (intro mult_le_mono1) simp
    then have "fd < 1024"
      using k(2) unfolding k(3) by linarith
    ultimately have "lowest_free (free_fd s) lo = Some fd"
      unfolding lowest_free_Some_iff by (meson less_trans)
    then show ?thesis
      by (simp only: Some scan lo_def)
  qed
qed

section \<open>Field effects\<close>

lemma set_slot_fields [simp]:
  "fd_table (set_slot fd e s) = (fd_table s)[fd := e]"
  "fd_free_bitmap (set_slot fd e s) = fd_free_bitmap s" "fd_next_generation (set_slot fd e s) = fd_next_generation s"
  "fd_next_ofd_id (set_slot fd e s) = fd_next_ofd_id s" "urandom (set_slot fd e s) = urandom s"
  "lifetimes (set_slot fd e s) = lifetimes s" "dir_streams (set_slot fd e s) = dir_streams s"
  "host_flags (set_slot fd e s) = host_flags s" "bad_closes (set_slot fd e s) = bad_closes s"
  "calls (set_slot fd e s) = calls s"
  by (simp_all add: set_slot_def)

lemma emit_fields [simp]:
  "fd_table (emit c s) = fd_table s" "fd_free_bitmap (emit c s) = fd_free_bitmap s"
  "fd_next_generation (emit c s) = fd_next_generation s" "fd_next_ofd_id (emit c s) = fd_next_ofd_id s"
  "urandom (emit c s) = urandom s" "lifetimes (emit c s) = lifetimes s" "dir_streams (emit c s) = dir_streams s"
  "host_flags (emit c s) = host_flags s" "bad_closes (emit c s) = bad_closes s"
  by (simp_all add: emit_def)

lemma bitmap_fields [simp]:
  "fd_table (fd_bitmap_set_free fd s) = fd_table s" "fd_next_generation (fd_bitmap_set_free fd s) = fd_next_generation s"
  "fd_next_ofd_id (fd_bitmap_set_free fd s) = fd_next_ofd_id s" "urandom (fd_bitmap_set_free fd s) = urandom s"
  "lifetimes (fd_bitmap_set_free fd s) = lifetimes s" "dir_streams (fd_bitmap_set_free fd s) = dir_streams s"
  "host_flags (fd_bitmap_set_free fd s) = host_flags s" "bad_closes (fd_bitmap_set_free fd s) = bad_closes s"
  "fd_table (fd_bitmap_set_used fd s) = fd_table s" "fd_next_generation (fd_bitmap_set_used fd s) = fd_next_generation s"
  "fd_next_ofd_id (fd_bitmap_set_used fd s) = fd_next_ofd_id s" "urandom (fd_bitmap_set_used fd s) = urandom s"
  "lifetimes (fd_bitmap_set_used fd s) = lifetimes s" "dir_streams (fd_bitmap_set_used fd s) = dir_streams s"
  "host_flags (fd_bitmap_set_used fd s) = host_flags s" "bad_closes (fd_bitmap_set_used fd s) = bad_closes s"
  by (simp_all add: fd_bitmap_set_free_def fd_bitmap_set_used_def)

lemma mark_urandom_fields [simp]:
  "fd_table (shim_globals_mark_urandom_fd fd b s) = fd_table s"
  "fd_free_bitmap (shim_globals_mark_urandom_fd fd b s) = fd_free_bitmap s"
  "fd_next_generation (shim_globals_mark_urandom_fd fd b s) = fd_next_generation s"
  "fd_next_ofd_id (shim_globals_mark_urandom_fd fd b s) = fd_next_ofd_id s"
  "lifetimes (shim_globals_mark_urandom_fd fd b s) = lifetimes s"
  "dir_streams (shim_globals_mark_urandom_fd fd b s) = dir_streams s"
  "host_flags (shim_globals_mark_urandom_fd fd b s) = host_flags s"
  "bad_closes (shim_globals_mark_urandom_fd fd b s) = bad_closes s"
  by (simp_all add: shim_globals_mark_urandom_fd_def Let_def split: option.split)

lemma slot_cong: "fd_table s = fd_table s' \<Longrightarrow> slot s = slot s'"
  by (simp add: slot_def fun_eq_iff)

lemma slot_set: "fd_table s' = (fd_table s)[fd := e] \<Longrightarrow> i < length (fd_table s) \<Longrightarrow>
    slot s' i = (if i = fd then e else slot s i)"
  by (auto simp: slot_def)

section \<open>The invariant\<close>

definition urandom_ok :: "fd_state \<Rightarrow> bool" where
  "urandom_ok s = (case urandom s of
     None \<Rightarrow> True
   | Some u \<Rightarrow> length u = 16 \<and> (\<forall>fd<1024. bit_set u fd \<longrightarrow> ftype (slot s fd) = FD_URANDOM))"

definition stamps_ok :: "fd_state \<Rightarrow> bool" where
  "stamps_ok s \<longleftrightarrow>
     (\<forall>fd<1024. unat (generation (slot s fd)) < unat (fd_next_generation s) \<and>
        (ftype (slot s fd) \<noteq> FD_CLOSED \<longrightarrow> generation (slot s fd) \<noteq> 0)) \<and>
     (\<forall>i<1024. \<forall>j<1024. i \<noteq> j \<and> generation (slot s i) = generation (slot s j) \<longrightarrow> generation (slot s i) = 0)"

definition fd_inv :: "fd_state \<Rightarrow> bool" where
  "fd_inv s \<longleftrightarrow> length (fd_table s) = 1024 \<and> length (fd_free_bitmap s) = 16 \<and>
     (\<forall>fd<1024. free_fd s fd \<longleftrightarrow> ftype (slot s fd) = FD_CLOSED) \<and> urandom_ok s \<and> stamps_ok s"

lemma fd_invD:
  assumes "fd_inv s"
  shows "length (fd_table s) = 1024" "length (fd_free_bitmap s) = 16" "urandom_ok s" "stamps_ok s"
    "\<And>fd. fd < 1024 \<Longrightarrow> free_fd s fd \<longleftrightarrow> ftype (slot s fd) = FD_CLOSED"
  using assms by (auto simp: fd_inv_def)

text \<open>Steps that touch no slot, and steps that keep a slot's type and stamp.\<close>

lemma fd_inv_same:
  "fd_table s' = fd_table s \<Longrightarrow> fd_free_bitmap s' = fd_free_bitmap s \<Longrightarrow> urandom s' = urandom s \<Longrightarrow>
   fd_next_generation s' = fd_next_generation s \<Longrightarrow> fd_inv s' = fd_inv s"
  using slot_cong [of s' s] by (cases "urandom s") (simp_all add: fd_inv_def urandom_ok_def stamps_ok_def)

lemma fd_inv_same_types:
  assumes "fd_inv s" "length (fd_table s') = 1024" "fd_free_bitmap s' = fd_free_bitmap s" "urandom s' = urandom s"
    "fd_next_generation s' = fd_next_generation s"
    "\<And>i. i < 1024 \<Longrightarrow> ftype (slot s' i) = ftype (slot s i) \<and> generation (slot s' i) = generation (slot s i)"
  shows "fd_inv s'"
  using assms by (auto simp: fd_inv_def urandom_ok_def stamps_ok_def split: option.splits)

lemma fd_inv_set_slot:
  assumes "fd_inv s" "ftype e = ftype (slot s fd)" "generation e = generation (slot s fd)"
  shows "fd_inv (set_slot fd e s)"
proof (rule fd_inv_same_types [OF assms(1)])
  show "ftype (slot (set_slot fd e s) i) = ftype (slot s i) \<and> generation (slot (set_slot fd e s) i) = generation (slot s i)"
    if "i < 1024" for i
    using that assms fd_invD(1) [OF assms(1)] slot_set [of "set_slot fd e s" s fd e i] by auto
qed (use fd_invD(1) [OF assms(1)] in simp_all)

lemma mark_urandom_clear:
  assumes "urandom s = Some u" "length u = 16" "fd < 1024"
  shows "\<exists>u'. urandom (shim_globals_mark_urandom_fd fd False s) = Some u' \<and> length u' = 16 \<and>
    (\<forall>i. bit_set u' i \<longleftrightarrow> i \<noteq> fd \<and> bit_set u i)"
  using assms bit_set_and_not [OF assms(3,2)]
  by (simp add: shim_globals_mark_urandom_fd_def Let_def)

lemma fd_init_entry_fields [simp]:
  "fd_next_generation (fd_init_entry al fd t h cleanup probe s) = fd_next_generation s + 1"
  "lifetimes (fd_init_entry al fd t h cleanup probe s) = lifetimes s"
  "dir_streams (fd_init_entry al fd t h cleanup probe s) = dir_streams s"
  "host_flags (fd_init_entry al fd t h cleanup probe s) = host_flags s"
  "bad_closes (fd_init_entry al fd t h cleanup probe s) = bad_closes s"
  "fd_free_bitmap (fd_init_entry al fd t h cleanup probe s) = fd_free_bitmap (fd_bitmap_set_used fd s)"
  by (simp_all add: fd_init_entry_def Let_def)

lemma fd_init_entry_table:
  "fd_table (fd_init_entry al fd t h cleanup probe s) = (fd_table s)[fd := slot (fd_init_entry al fd t h cleanup probe s) fd]"
  by (cases "fd < length (fd_table s)") (simp_all add: fd_init_entry_def Let_def slot_def list_update_beyond)

lemma fd_init_entry_slot:
  assumes "fd < length (fd_table s)"
  shows "ftype (slot (fd_init_entry al fd t h cleanup probe s) fd) = t"
    "host_fd (slot (fd_init_entry al fd t h cleanup probe s) fd) = h"
    "lifetime (slot (fd_init_entry al fd t h cleanup probe s) fd) = None"
    "dir_ptr (slot (fd_init_entry al fd t h cleanup probe s) fd) = None"
    "generation (slot (fd_init_entry al fd t h cleanup probe s) fd) = fd_next_generation s"
    "fcleanup (slot (fd_init_entry al fd t h cleanup probe s) fd) = cleanup"
    "can_block (slot (fd_init_entry al fd t h cleanup probe s) fd) = p_can_block probe"
    "al = None \<Longrightarrow> nonblock_owned (slot (fd_init_entry al fd t h cleanup probe s) fd) = p_nonblock_owned probe"
  using assms by (simp_all add: fd_init_entry_def Let_def slot_def)

lemma fd_init_entry_urandom:
  assumes "fd < 1024" "urandom s = Some u" "length u = 16"
  shows "\<exists>u'. urandom (fd_init_entry al fd t h cleanup probe s) = Some u' \<and> length u' = 16 \<and>
    (\<forall>i. bit_set u' i \<longleftrightarrow> i \<noteq> fd \<and> bit_set u i)"
  unfolding fd_init_entry_def Let_def by (rule mark_urandom_clear) (use assms in simp_all)

lemma fd_init_entry_urandom_None:
  "urandom s = None \<Longrightarrow> urandom (fd_init_entry al fd t h cleanup probe s) = None"
  by (simp add: fd_init_entry_def Let_def shim_globals_mark_urandom_fd_def)

lemma slot_fd_init_entry:
  assumes "length (fd_table s) = 1024" "i < 1024"
  shows "slot (fd_init_entry al fd t h cleanup probe s) i =
    (if i = fd then slot (fd_init_entry al fd t h cleanup probe s) fd else slot s i)"
  using slot_set [OF fd_init_entry_table] assms by auto

lemma free_fd_used: "fd < 1024 \<Longrightarrow> length (fd_free_bitmap s) = 16 \<Longrightarrow>
    bit_set (fd_free_bitmap (fd_bitmap_set_used fd s)) i \<longleftrightarrow> i \<noteq> fd \<and> free_fd s i"
  using bit_set_and_not by (simp add: fd_bitmap_set_used_def)

lemma free_fd_free: "fd < 1024 \<Longrightarrow> length (fd_free_bitmap s) = 16 \<Longrightarrow>
    bit_set (fd_free_bitmap (fd_bitmap_set_free fd s)) i \<longleftrightarrow> i = fd \<or> free_fd s i"
  using bit_set_or by (simp add: fd_bitmap_set_free_def)

lemma unat_succ: "(x :: u64) \<noteq> UINT64_MAX \<Longrightarrow> unat (x + 1) = unat x + 1"
proof -
  assume x: "x \<noteq> UINT64_MAX"
  have "unat x \<noteq> unat UINT64_MAX"
    using x by (simp only: word_unat_eq_iff [symmetric] not_False_eq_True)
  then have "unat x + 1 < 2 ^ 64"
    using u64_unat_less [of x] by (simp add: unat_UINT64_MAX)
  then show ?thesis
    using unat_add_u64 [of x 1] by simp
qed

lemma fd_inv_init_entry:
  assumes inv: "fd_inv s" and fd: "fd < 1024" and t: "t \<noteq> FD_CLOSED" and room: "fd_next_generation s \<noteq> UINT64_MAX"
  shows "fd_inv (fd_init_entry al fd t h cleanup probe s)"
proof -
  let ?s = "fd_init_entry al fd t h cleanup probe s"
  note [simp] = fd_invD(1,2) [OF inv]
  have sl: "slot ?s i = (if i = fd then slot ?s fd else slot s i)" if "i < 1024" for i
    using slot_fd_init_entry that by simp
  have new: "ftype (slot ?s fd) = t" "generation (slot ?s fd) = fd_next_generation s"
    using fd_init_entry_slot fd by simp_all
  have st: "stamps_ok s" using inv by (rule fd_invD)
  have gen: "unat (fd_next_generation ?s) = unat (fd_next_generation s) + 1"
    using unat_succ [OF room] by simp
  have "unat (generation (slot s 0)) < unat (fd_next_generation s)"
    using st by (simp add: stamps_ok_def)
  then have nz: "fd_next_generation s \<noteq> 0" by auto
  have lt: "generation (slot s i) \<noteq> fd_next_generation s" if "i < 1024" for i
    using st that by (auto simp: stamps_ok_def)
  have "stamps_ok ?s"
    unfolding stamps_ok_def gen
  proof (intro conjI allI impI)
    show "unat (generation (slot ?s i)) < unat (fd_next_generation s) + 1" if "i < 1024" for i
      using st that sl [OF that] new by (auto simp: stamps_ok_def less_Suc_eq)
    show "generation (slot ?s i) \<noteq> 0" if "i < 1024" "ftype (slot ?s i) \<noteq> FD_CLOSED" for i
      using st that sl [OF that(1)] new nz by (auto simp: stamps_ok_def split: if_splits)
    show "generation (slot ?s i) = 0" if "i < 1024" "j < 1024" "i \<noteq> j \<and> generation (slot ?s i) = generation (slot ?s j)" for i j
      using st that sl [OF that(1)] sl [OF that(2)] new lt by (auto simp: stamps_ok_def split: if_splits)
  qed
  moreover have "urandom_ok ?s"
  proof (cases "urandom s")
    case None
    then show ?thesis by (simp add: urandom_ok_def fd_init_entry_urandom_None)
  next
    case (Some u)
    then obtain u' where "urandom ?s = Some u'" "length u' = 16" "\<forall>i. bit_set u' i \<longleftrightarrow> i \<noteq> fd \<and> bit_set u i"
      using fd_init_entry_urandom [OF fd Some, of al t h cleanup probe] fd_invD(3) [OF inv] by (auto simp: urandom_ok_def)
    then show ?thesis
      using Some fd_invD(3) [OF inv] sl by (auto simp: urandom_ok_def)
  qed
  moreover have "length (fd_table ?s) = 1024" "length (fd_free_bitmap ?s) = 16"
    unfolding fd_init_entry_table by (simp_all add: fd_bitmap_set_used_def)
  moreover have "bit_set (fd_free_bitmap ?s) i \<longleftrightarrow> ftype (slot ?s i) = FD_CLOSED" if "i < 1024" for i
    using free_fd_used [OF fd] fd_invD(5) [OF inv that] sl [OF that] new t by auto
  ultimately show ?thesis by (simp add: fd_inv_def)
qed

lemma mark_closed_fields [simp]:
  "fd_next_generation (snd (fd_mark_closed_unlocked fd s)) = fd_next_generation s"
  "lifetimes (snd (fd_mark_closed_unlocked fd s)) = lifetimes s"
  "dir_streams (snd (fd_mark_closed_unlocked fd s)) = dir_streams s"
  "host_flags (snd (fd_mark_closed_unlocked fd s)) = host_flags s"
  "bad_closes (snd (fd_mark_closed_unlocked fd s)) = bad_closes s"
  "fst (fd_mark_closed_unlocked fd s) = lifetime (slot s fd)"
  by (simp_all add: fd_mark_closed_unlocked_def Let_def)

lemma mark_closed_bitmap [simp]:
  "fd_free_bitmap (snd (fd_mark_closed_unlocked fd s)) = fd_free_bitmap (fd_bitmap_set_free fd s)"
  by (simp add: fd_mark_closed_unlocked_def Let_def fd_bitmap_set_free_def)

lemma mark_closed_slot:
  assumes "length (fd_table s) = 1024" "fd < 1024"
  shows "length (fd_table (snd (fd_mark_closed_unlocked fd s))) = 1024"
    and "ftype (slot (snd (fd_mark_closed_unlocked fd s)) fd) = FD_CLOSED"
    and "generation (slot (snd (fd_mark_closed_unlocked fd s)) fd) = generation (slot s fd)"
    and "lifetime (slot (snd (fd_mark_closed_unlocked fd s)) fd) = None"
    and "linux_flags (slot (snd (fd_mark_closed_unlocked fd s)) fd) = 0"
    and "ofd_id (slot (snd (fd_mark_closed_unlocked fd s)) fd) = 0"
    and "i \<noteq> fd \<Longrightarrow> slot (snd (fd_mark_closed_unlocked fd s)) i = slot s i"
  using assms by (simp_all add: fd_mark_closed_unlocked_def Let_def slot_def)

lemma mark_closed_urandom:
  "urandom (snd (fd_mark_closed_unlocked fd s)) = urandom (shim_globals_mark_urandom_fd fd False s)"
  by (simp add: fd_mark_closed_unlocked_def Let_def)

lemma fd_inv_mark_closed:
  assumes inv: "fd_inv s" and fd: "fd < 1024"
  shows "fd_inv (snd (fd_mark_closed_unlocked fd s))"
proof -
  let ?s = "snd (fd_mark_closed_unlocked fd s)"
  note [simp] = fd_invD(1,2) [OF inv]
  note sl = mark_closed_slot [OF fd_invD(1) [OF inv] fd]
  have g: "generation (slot ?s i) = generation (slot s i)" for i
    using sl(3) sl(7) [of i] by (cases "i = fd") simp_all
  have t: "ftype (slot ?s i) = (if i = fd then FD_CLOSED else ftype (slot s i))" for i
    using sl(2) sl(7) [of i] by simp
  have "stamps_ok ?s"
    using fd_invD(4) [OF inv] by (simp add: stamps_ok_def g t)
  moreover have "urandom_ok ?s"
  proof (cases "urandom s")
    case None
    then show ?thesis by (simp add: urandom_ok_def mark_closed_urandom shim_globals_mark_urandom_fd_def)
  next
    case (Some u)
    then obtain u' where "urandom ?s = Some u'" "length u' = 16" "\<forall>i. bit_set u' i \<longleftrightarrow> i \<noteq> fd \<and> bit_set u i"
      using mark_urandom_clear [OF Some _ fd] fd_invD(3) [OF inv] by (auto simp: urandom_ok_def mark_closed_urandom)
    then show ?thesis
      using Some fd_invD(3) [OF inv] t by (auto simp: urandom_ok_def)
  qed
  moreover have "length (fd_free_bitmap ?s) = 16"
    by (simp add: fd_bitmap_set_free_def)
  moreover have "bit_set (fd_free_bitmap ?s) i \<longleftrightarrow> ftype (slot ?s i) = FD_CLOSED" if "i < 1024" for i
    using free_fd_free [OF fd] fd_invD(5) [OF inv that] t by auto
  ultimately show ?thesis
    using sl(1) by (simp add: fd_inv_def)
qed

end
