(* ===== verification/Fd_Ledger.thy ===== *)
theory Fd_Ledger
  imports Fd_Table_Laws
begin

text \<open>
  Who owns a host descriptor, and who holds a reference on a lifetime or a directory stream. The
  ledger relates the table's heap to the holders outside it (slots, snapshots waiting for cleanup,
  borrowers, directory walks, descriptors in flight): every open host descriptor but the launcher's
  three has exactly one owner, and every reference count is the number of holders. Each primitive of
  the code (close, release, first and later pin) is one bookkeeping step.
\<close>

section \<open>Injective ownership and counted references\<close>

definition tracks :: "('a \<Rightarrow> 'h option) \<Rightarrow> 'h set \<Rightarrow> bool" where
  "tracks f S \<longleftrightarrow> inj_on f (dom f) \<and> ran f = S"

lemma tracks_at: "tracks f S \<Longrightarrow> f x = Some h \<Longrightarrow> h \<in> S"
  by (auto simp: tracks_def ran_def)

lemma tracks_inj: "tracks f S \<Longrightarrow> f x = Some h \<Longrightarrow> f y = Some h \<Longrightarrow> x = y"
  by (auto simp: tracks_def inj_on_def dom_def)

lemma tracks_add: "tracks f S \<Longrightarrow> f x = None \<Longrightarrow> h \<notin> S \<Longrightarrow> tracks (f(x \<mapsto> h)) (insert h S)"
proof -
  assume t: "tracks f S" and x: "f x = None" and h: "h \<notin> S"
  have "y = z" if "(f(x \<mapsto> h)) y = Some v" "(f(x \<mapsto> h)) z = Some v" for y z v
    using that tracks_inj [OF t, of y v z] tracks_at [OF t, of y v] tracks_at [OF t, of z v] h by (auto split: if_splits)
  then have "inj_on (f(x \<mapsto> h)) (dom (f(x \<mapsto> h)))"
    unfolding inj_on_def dom_def by (metis (mono_tags, lifting) mem_Collect_eq option.exhaust)
  moreover have "ran (f(x \<mapsto> h)) = insert h S"
    using t x by (simp add: tracks_def ran_map_upd)
  ultimately show ?thesis by (simp add: tracks_def)
qed

lemma tracks_drop: "tracks f S \<Longrightarrow> f x = Some h \<Longrightarrow> tracks (f(x := None)) (S - {h})"
proof -
  assume t: "tracks f S" and x: "f x = Some h"
  have "ran (f(x := None)) = S - {h}"
  proof (intro equalityI subsetI)
    fix v assume "v \<in> ran (f(x := None))"
    then obtain y where "y \<noteq> x" "f y = Some v"
      by (auto simp: ran_def split: if_splits)
    then show "v \<in> S - {h}"
      using tracks_at [OF t] tracks_inj [OF t, of y h x] x by auto
  next
    fix v assume v: "v \<in> S - {h}"
    then obtain y where "f y = Some v"
      using t by (auto simp: tracks_def ran_def)
    moreover from this v x have "y \<noteq> x" by auto
    ultimately show "v \<in> ran (f(x := None))"
      by (auto simp: ran_def)
  qed
  moreover have "inj_on (f(x := None)) (dom (f(x := None)))"
    using tracks_inj [OF t] by (auto simp: inj_on_def split: if_splits)
  ultimately show ?thesis by (simp add: tracks_def)
qed

lemma tracks_move:
  assumes "tracks f S" "f x = Some h" "f y = None"
  shows "tracks (f(x := None, y \<mapsto> h)) S"
proof -
  have "tracks ((f(x := None))(y \<mapsto> h)) (insert h (S - {h}))"
    by (rule tracks_add [OF tracks_drop [OF assms(1,2)]]) (use assms in auto)
  moreover have "insert h (S - {h}) = S"
    using tracks_at [OF assms(1,2)] by auto
  ultimately show ?thesis by simp
qed

definition counted :: "('a \<Rightarrow> 'k option) \<Rightarrow> ('k \<Rightarrow> nat) \<Rightarrow> bool" where
  "counted f n \<longleftrightarrow> (\<forall>k. finite {x. f x = Some k} \<and> card {x. f x = Some k} = n k)"

lemma counted_pos: "counted f n \<Longrightarrow> f x = Some k \<Longrightarrow> n k \<noteq> 0"
  by (metis (mono_tags, lifting) card_eq_0_iff counted_def empty_iff mem_Collect_eq)

lemma counted_one: "counted f n \<Longrightarrow> f x = Some k \<Longrightarrow> n k = 1 \<Longrightarrow> f y = Some k \<Longrightarrow> y = x"
proof -
  assume c: "counted f n" "f x = Some k" "n k = 1" "f y = Some k"
  then have "card {z. f z = Some k} = 1" by (auto simp: counted_def)
  then obtain z where "{z. f z = Some k} = {z}" by (auto simp: card_1_singleton_iff)
  moreover have "x \<in> {z. f z = Some k}" "y \<in> {z. f z = Some k}"
    using c by auto
  ultimately show "y = x" by simp
qed

lemma counted_add: "counted f n \<Longrightarrow> f x = None \<Longrightarrow> counted (f(x \<mapsto> k)) (n(k := n k + 1))"
proof -
  assume c: "counted f n" and x: "f x = None"
  have "{y. (f(x \<mapsto> k)) y = Some j} = (if j = k then insert x {y. f y = Some k} else {y. f y = Some j})" for j
    using x by auto
  with c x show ?thesis by (auto simp: counted_def)
qed

lemma counted_drop: "counted f n \<Longrightarrow> f x = Some k \<Longrightarrow> counted (f(x := None)) (n(k := n k - 1))"
proof -
  assume c: "counted f n" and x: "f x = Some k"
  have "{y. (f(x := None)) y = Some j} = (if j = k then {y. f y = Some k} - {x} else {y. f y = Some j})" for j
    using x by auto
  with c x show ?thesis by (auto simp: counted_def)
qed

lemma counted_move:
  assumes "counted f n" "f x = Some k" "f y = None"
  shows "counted (f(x := None, y \<mapsto> k)) n"
proof -
  have "counted ((f(x := None))(y \<mapsto> k)) ((n(k := n k - 1))(k := (n(k := n k - 1)) k + 1))"
    by (rule counted_add [OF counted_drop [OF assms(1,2)]]) (use assms in auto)
  moreover have "(n(k := n k - 1))(k := (n(k := n k - 1)) k + 1) = n"
    using counted_pos [OF assms(1,2)] by auto
  ultimately show ?thesis by simp
qed

section \<open>The ledger\<close>

datatype 'x party = Ext 'x | Life nat | Stream nat

lemma party_fun_eqI:
  "(\<And>x. f (Ext x) = g (Ext x)) \<Longrightarrow> (\<And>l. f (Life l) = g (Life l)) \<Longrightarrow> (\<And>d. f (Stream d) = g (Stream d)) \<Longrightarrow> f = g"
  by (rule ext, rule party.induct) auto

definition life_owns :: "fd_lifetime \<Rightarrow> int option" where
  "life_owns obj = (if l_dir obj \<noteq> None \<or> l_type obj = FD_STDIO then None else Some (l_host_fd obj))"

fun owner :: "fd_state \<Rightarrow> ('x \<Rightarrow> int option) \<Rightarrow> 'x party \<Rightarrow> int option" where
  "owner s own (Ext x) = own x"
| "owner s own (Life l) = Option.bind (lifetimes s l) life_owns"
| "owner s own (Stream d) = map_option ds_fd (dir_streams s d)"

fun dir_user :: "fd_state \<Rightarrow> ('x \<Rightarrow> nat option) \<Rightarrow> 'x party \<Rightarrow> nat option" where
  "dir_user s dref (Ext x) = dref x"
| "dir_user s dref (Life l) = Option.bind (lifetimes s l) l_dir"
| "dir_user s dref (Stream d) = None"

definition life_count :: "fd_state \<Rightarrow> nat \<Rightarrow> nat" where
  "life_count s l = (case lifetimes s l of None \<Rightarrow> 0 | Some obj \<Rightarrow> refs obj)"

definition dir_count :: "fd_state \<Rightarrow> nat \<Rightarrow> nat" where
  "dir_count s d = (case dir_streams s d of None \<Rightarrow> 0 | Some ds \<Rightarrow> ds_refcount ds)"

definition launcher :: "int set" where
  "launcher = {0, 1, 2}"

definition open_fds :: "fd_state \<Rightarrow> int set" where
  "open_fds s = {h. host_flags s h \<noteq> None}"

text \<open>
  \<open>own\<close>, \<open>lref\<close>, \<open>dref\<close> give for a holder the descriptor it owns, the lifetime and the stream it
  references; \<open>via\<close> is the host descriptor it goes through.
\<close>

definition life_ok :: "fd_state \<Rightarrow> bool" where
  "life_ok s \<longleftrightarrow> (\<forall>l obj. lifetimes s l = Some obj \<longrightarrow> refs obj \<noteq> 0 \<and>
     (l_type obj = FD_STDIO \<longrightarrow> l_host_fd obj \<in> launcher) \<and>
     (\<forall>d. l_dir obj = Some d \<longrightarrow> (\<exists>ds. dir_streams s d = Some ds \<and> ds_fd ds = l_host_fd obj)))"

definition dirs_ok :: "fd_state \<Rightarrow> bool" where
  "dirs_ok s \<longleftrightarrow> (\<forall>d ds. dir_streams s d = Some ds \<longrightarrow> ds_refcount ds \<noteq> 0)"

definition host_ok :: "fd_state \<Rightarrow> bool" where
  "host_ok s \<longleftrightarrow> bad_closes s = 0 \<and> launcher \<subseteq> open_fds s \<and> (\<forall>h\<in>open_fds s. h \<ge> 0)"

definition links :: "fd_state \<Rightarrow> ('x \<Rightarrow> nat option) \<Rightarrow> ('x \<Rightarrow> nat option) \<Rightarrow> ('x \<Rightarrow> int) \<Rightarrow> bool" where
  "links s lref dref via \<longleftrightarrow>
     (\<forall>x l. lref x = Some l \<longrightarrow> (\<exists>obj. lifetimes s l = Some obj \<and> l_host_fd obj = via x)) \<and>
     (\<forall>x d. dref x = Some d \<longrightarrow> (\<exists>ds. dir_streams s d = Some ds \<and> ds_fd ds = via x))"

definition ledger ::
  "fd_state \<Rightarrow> ('x \<Rightarrow> int option) \<Rightarrow> ('x \<Rightarrow> nat option) \<Rightarrow> ('x \<Rightarrow> nat option) \<Rightarrow> ('x \<Rightarrow> int) \<Rightarrow> bool" where
  "ledger s own lref dref via \<longleftrightarrow>
     tracks (owner s own) (open_fds s - launcher) \<and> counted lref (life_count s) \<and> counted (dir_user s dref) (dir_count s) \<and>
     life_ok s \<and> dirs_ok s \<and> host_ok s \<and> links s lref dref via"

lemma ledgerD:
  assumes "ledger s own lref dref via"
  shows "tracks (owner s own) (open_fds s - launcher)" "counted lref (life_count s)"
    "counted (dir_user s dref) (dir_count s)" "life_ok s" "dirs_ok s" "host_ok s" "links s lref dref via"
  using assms by (auto simp: ledger_def)

lemma ledger_lref:
  "ledger s own lref dref via \<Longrightarrow> lref x = Some l \<Longrightarrow> \<exists>obj. lifetimes s l = Some obj \<and> l_host_fd obj = via x"
  by (simp add: ledger_def links_def)

lemma ledger_dref:
  "ledger s own lref dref via \<Longrightarrow> dref x = Some d \<Longrightarrow> \<exists>ds. dir_streams s d = Some ds \<and> ds_fd ds = via x"
  by (simp add: ledger_def links_def)

text \<open>A borrowed descriptor is open, and so is the one behind a stream.\<close>

lemma ledger_stream_open:
  assumes "ledger s own lref dref via" "dir_streams s d = Some ds"
  shows "ds_fd ds \<in> open_fds s"
  using tracks_at [OF ledgerD(1) [OF assms(1)], of "Stream d" "ds_fd ds"] assms(2) by simp

lemma ledger_life_open:
  assumes led: "ledger s own lref dref via" and l: "lifetimes s l = Some obj"
  shows "l_host_fd obj \<in> open_fds s"
proof (cases "l_dir obj")
  case (Some d)
  then show ?thesis
    using ledgerD(4) [OF led] l ledger_stream_open [OF led] by (fastforce simp: life_ok_def)
next
  case None
  show ?thesis
  proof (cases "l_type obj = FD_STDIO")
    case True
    then show ?thesis
      using ledgerD(4,6) [OF led] l by (auto simp: life_ok_def host_ok_def)
  next
    case False
    then show ?thesis
      using tracks_at [OF ledgerD(1) [OF led], of "Life l" "l_host_fd obj"] l None by (simp add: life_owns_def)
  qed
qed

section \<open>Closing\<close>

lemma ledger_same:
  assumes "lifetimes s' = lifetimes s" "dir_streams s' = dir_streams s" "open_fds s' = open_fds s" "bad_closes s' = bad_closes s"
  shows "ledger s' own lref dref via = ledger s own lref dref via"
proof -
  have "owner s' own = owner s own" "dir_user s' dref = dir_user s dref"
    using assms by (auto intro!: party_fun_eqI)
  then show ?thesis
    using assms by (simp add: ledger_def life_ok_def dirs_ok_def host_ok_def links_def life_count_def [abs_def] dir_count_def [abs_def])
qed

lemma close_host_open:
  assumes "h \<in> open_fds s" "host_ok s"
  shows "close_host h s = s\<lparr>host_flags := (host_flags s)(h := None)\<rparr>" "open_fds (close_host h s) = open_fds s - {h}"
  using assms by (auto simp: close_host_def open_fds_def host_ok_def split: if_splits)

lemma close_host_frame [simp]:
  "lifetimes (close_host h s) = lifetimes s" "dir_streams (close_host h s) = dir_streams s"
  "fd_table (close_host h s) = fd_table s" "fd_free_bitmap (close_host h s) = fd_free_bitmap s"
  "urandom (close_host h s) = urandom s" "fd_next_generation (close_host h s) = fd_next_generation s"
  "fd_next_ofd_id (close_host h s) = fd_next_ofd_id s" "calls (close_host h s) = calls s"
  by (simp_all add: close_host_def split: option.split)

lemma host_ok_close:
  assumes "host_ok s" "h \<in> open_fds s - launcher"
  shows "host_ok (close_host h s)"
  using assms close_host_open [of h s] by (auto simp: host_ok_def)

lemma ledger_close:
  assumes led: "ledger s own lref dref via" and x: "own x = Some h"
  shows "ledger (close_host h s) (own(x := None)) lref dref via"
proof -
  have h: "h \<in> open_fds s - launcher"
    using tracks_at [OF ledgerD(1) [OF led], of "Ext x"] x by simp
  have o: "owner (close_host h s) (own(x := None)) = (owner s own)(Ext x := None)"
    by (auto intro!: party_fun_eqI)
  have u: "dir_user (close_host h s) dref = dir_user s dref"
    by (auto intro!: party_fun_eqI)
  have e: "open_fds (close_host h s) - launcher = open_fds s - launcher - {h}"
    using close_host_open [of h s] h ledgerD(6) [OF led] by auto
  have "tracks (owner (close_host h s) (own(x := None))) (open_fds (close_host h s) - launcher)"
    unfolding o e by (rule tracks_drop [OF ledgerD(1) [OF led]]) (simp add: x)
  then show ?thesis
    using ledgerD [OF led] host_ok_close [OF _ h]
    by (simp add: ledger_def u life_ok_def dirs_ok_def links_def life_count_def [abs_def] dir_count_def [abs_def])
qed

lemma dir_release_frame [simp]:
  "lifetimes (dir_stream_release d s) = lifetimes s" "fd_table (dir_stream_release d s) = fd_table s"
  "fd_free_bitmap (dir_stream_release d s) = fd_free_bitmap s" "urandom (dir_stream_release d s) = urandom s"
  "fd_next_generation (dir_stream_release d s) = fd_next_generation s"
  "fd_next_ofd_id (dir_stream_release d s) = fd_next_ofd_id s" "calls (dir_stream_release d s) = calls s"
  by (simp_all add: dir_stream_release_def split: option.split)

text \<open>Dropping a stream reference, whoever held it.\<close>

lemma dir_release_core:
  fixes f :: "'x party \<Rightarrow> int option" and user :: "'x party \<Rightarrow> nat option"
  assumes tr: "tracks f (open_fds s - launcher)" and f: "\<And>d'. f (Stream d') = map_option ds_fd (dir_streams s d')"
    and cnt: "counted user (dir_count s)" and p: "user p = Some d" and ok: "host_ok s" "dirs_ok s"
  defines "s' \<equiv> dir_stream_release d s"
  shows "tracks (\<lambda>q. case q of Stream d' \<Rightarrow> map_option ds_fd (dir_streams s' d') | _ \<Rightarrow> f q) (open_fds s' - launcher)"
    and "counted (user(p := None)) (dir_count s')" and "host_ok s'" and "dirs_ok s'"
    and "\<And>q d' ds'. q \<noteq> p \<Longrightarrow> user q = Some d' \<Longrightarrow> dir_streams s d' = Some ds' \<Longrightarrow>
      \<exists>ds''. dir_streams s' d' = Some ds'' \<and> ds_fd ds'' = ds_fd ds'"
proof -
  obtain ds where ds: "dir_streams s d = Some ds"
    using counted_pos [OF cnt p] by (auto simp: dir_count_def split: option.splits)
  have n: "dir_count s d = ds_refcount ds" by (simp add: dir_count_def ds)
  have h: "ds_fd ds \<in> open_fds s - launcher"
    using tracks_at [OF tr, of "Stream d"] f ds by simp
  let ?g = "\<lambda>q. case q of Stream d' \<Rightarrow> map_option ds_fd (dir_streams s' d') | _ \<Rightarrow> f q"
  have "tracks ?g (open_fds s' - launcher) \<and> counted (user(p := None)) (dir_count s') \<and> host_ok s' \<and> dirs_ok s' \<and>
    (\<forall>q d' ds'. q \<noteq> p \<and> user q = Some d' \<and> dir_streams s d' = Some ds' \<longrightarrow>
      (\<exists>ds''. dir_streams s' d' = Some ds'' \<and> ds_fd ds'' = ds_fd ds'))"
  proof (cases "ds_refcount ds = 1")
    case True
    let ?s0 = "s\<lparr>dir_streams := (dir_streams s)(d := None)\<rparr>"
    have s': "s' = close_host (ds_fd ds) ?s0"
      using True ds by (simp add: s'_def dir_stream_release_def)
    have ok0: "host_ok ?s0" "open_fds ?s0 = open_fds s"
      using ok(1) by (simp_all add: host_ok_def open_fds_def)
    have e: "open_fds s' - launcher = open_fds s - launcher - {ds_fd ds}"
      using close_host_open(2) [of "ds_fd ds" ?s0] ok0 h s' by auto
    have g: "?g = f(Stream d := None)"
      using f s' by (intro party_fun_eqI) auto
    have "tracks ?g (open_fds s' - launcher)"
      unfolding g e by (rule tracks_drop [OF tr]) (simp add: f ds)
    moreover have "dir_count s' = (dir_count s)(d := dir_count s d - 1)"
      using s' True n by (auto simp: fun_eq_iff dir_count_def)
    then have "counted (user(p := None)) (dir_count s')"
      using counted_drop [OF cnt p] by simp
    moreover have "host_ok s'"
      using host_ok_close [OF ok0(1), of "ds_fd ds"] ok0(2) h s' by simp
    moreover have "dirs_ok s'"
      using ok(2) s' by (auto simp: dirs_ok_def split: if_splits)
    moreover have "d' \<noteq> d" if "q \<noteq> p" "user q = Some d'" for q d'
      using counted_one [OF cnt p] n True that by auto
    ultimately show ?thesis
      using s' by auto
  next
    case False
    have s': "s' = s\<lparr>dir_streams := (dir_streams s)(d \<mapsto> ds\<lparr>ds_refcount := ds_refcount ds - 1\<rparr>)\<rparr>"
      using False ds by (simp add: s'_def dir_stream_release_def)
    have g: "?g = f"
      using f ds s' by (intro party_fun_eqI) auto
    have "dir_count s' = (dir_count s)(d := dir_count s d - 1)"
      using s' n by (auto simp: fun_eq_iff dir_count_def)
    then have "counted (user(p := None)) (dir_count s')"
      using counted_drop [OF cnt p] by simp
    moreover have "tracks ?g (open_fds s' - launcher)" "host_ok s'"
      using tr ok(1) unfolding g by (simp_all add: s' open_fds_def host_ok_def)
    moreover have "ds_refcount ds \<noteq> 0"
      using ok(2) ds by (simp add: dirs_ok_def)
    then have "dirs_ok s'"
      using ok(2) False by (auto simp: dirs_ok_def s')
    ultimately show ?thesis
      using ds by (auto simp: s')
  qed
  then show "tracks ?g (open_fds s' - launcher)" "counted (user(p := None)) (dir_count s')" "host_ok s'" "dirs_ok s'"
    "\<And>q d' ds'. q \<noteq> p \<Longrightarrow> user q = Some d' \<Longrightarrow> dir_streams s d' = Some ds' \<Longrightarrow>
      \<exists>ds''. dir_streams s' d' = Some ds'' \<and> ds_fd ds'' = ds_fd ds'"
    by blast+
qed

lemma ledger_dir_release:
  assumes led: "ledger s own lref dref via" and x: "dref x = Some d"
  shows "ledger (dir_stream_release d s) own lref (dref(x := None)) via"
proof -
  let ?s = "dir_stream_release d s"
  have p: "dir_user s dref (Ext x) = Some d" using x by simp
  have f: "owner s own (Stream d') = map_option ds_fd (dir_streams s d')" for d' by simp
  note core = dir_release_core [OF ledgerD(1) [OF led] f ledgerD(3) [OF led] p ledgerD(6,5) [OF led]]
  have o: "owner ?s own = (\<lambda>q. case q of Stream d' \<Rightarrow> map_option ds_fd (dir_streams ?s d') | _ \<Rightarrow> owner s own q)"
    by (rule party_fun_eqI) simp_all
  have u: "dir_user ?s (dref(x := None)) = (dir_user s dref)(Ext x := None)"
    by (rule party_fun_eqI) simp_all
  have "\<exists>ds. dir_streams ?s d' = Some ds \<and> ds_fd ds = via y" if "y \<noteq> x" "dref y = Some d'" for y d'
    using core(5) [of "Ext y" d'] ledgerD(7) [OF led] that by (fastforce simp: links_def)
  then have "links ?s lref (dref(x := None)) via"
    using ledgerD(7) [OF led] by (simp add: links_def)
  moreover have "\<exists>ds. dir_streams ?s d' = Some ds \<and> ds_fd ds = l_host_fd obj"
    if "lifetimes s l = Some obj" "l_dir obj = Some d'" for l obj d'
    using core(5) [of "Life l" d'] ledgerD(4) [OF led] that by (fastforce simp: life_ok_def)
  then have "life_ok ?s"
    using ledgerD(4) [OF led] by (simp add: life_ok_def)
  ultimately show ?thesis
    using core(1-4) ledgerD(2) [OF led] unfolding ledger_def o u by (simp add: life_count_def [abs_def])
qed

lemma life_count_update:
  "life_count (s\<lparr>lifetimes := (lifetimes s)(l := v)\<rparr>) = (life_count s)(l := (case v of None \<Rightarrow> 0 | Some obj \<Rightarrow> refs obj))"
  by (auto simp: life_count_def fun_eq_iff)

text \<open>Dropping a lifetime reference; the last one closes the descriptor or drops the stream.\<close>

lemma ledger_life_drop:
  assumes led: "ledger s own lref dref via" and x: "lref x = Some l" and l: "lifetimes s l = Some obj" and r: "refs obj \<noteq> 1"
  shows "ledger (s\<lparr>lifetimes := (lifetimes s)(l \<mapsto> obj\<lparr>refs := refs obj - 1\<rparr>)\<rparr>) own (lref(x := None)) dref via"
proof -
  let ?s = "s\<lparr>lifetimes := (lifetimes s)(l \<mapsto> obj\<lparr>refs := refs obj - 1\<rparr>)\<rparr>"
  have "owner ?s own = owner s own" "dir_user ?s dref = dir_user s dref"
    using l by (intro party_fun_eqI; simp add: life_owns_def)+
  moreover have "counted (lref(x := None)) (life_count ?s)"
    using counted_drop [OF ledgerD(2) [OF led] x] l by (simp add: life_count_update life_count_def)
  moreover have "refs obj \<noteq> 0"
    using ledgerD(4) [OF led] l by (auto simp: life_ok_def)
  then have "refs obj - 1 \<noteq> 0"
    using r by simp
  then have "life_ok ?s"
    using ledgerD(4) [OF led] l by (simp add: life_ok_def)
  moreover have "links ?s (lref(x := None)) dref via"
    using ledgerD(7) [OF led] l by (fastforce simp: links_def)
  ultimately show ?thesis
    using ledgerD [OF led] by (simp add: ledger_def dirs_ok_def host_ok_def open_fds_def dir_count_def [abs_def])
qed

lemma ledger_life_last:
  assumes led: "ledger s own lref dref via" and x: "lref x = Some l" and l: "lifetimes s l = Some obj" and r: "refs obj = 1"
  shows "ledger (fd_lifetime_release l s) own (lref(x := None)) dref via"
proof -
  let ?s = "fd_lifetime_release l s"
  have only: "l' \<noteq> l" if "y \<noteq> x" "lref y = Some l'" for y l'
    using counted_one [OF ledgerD(2) [OF led] x] l r that by (auto simp: life_count_def)
  have lt: "lifetimes ?s = (lifetimes s)(l := None)"
    using l r by (auto simp: fd_lifetime_release_def Let_def split: option.split)
  have cnt: "counted (lref(x := None)) (life_count ?s)"
  proof -
    have "life_count ?s = (life_count s)(l := life_count s l - 1)"
      using lt l r by (auto simp: life_count_def fun_eq_iff)
    then show ?thesis using counted_drop [OF ledgerD(2) [OF led] x] by simp
  qed
  have lnk: "\<exists>obj'. lifetimes ?s l' = Some obj' \<and> l_host_fd obj' = via y" if "y \<noteq> x" "lref y = Some l'" for y l'
    using only [OF that] ledgerD(7) [OF led] that by (auto simp: links_def lt)
  show ?thesis
  proof (cases "l_dir obj")
    case (Some d)
    have s: "?s = (dir_stream_release d s)\<lparr>lifetimes := (lifetimes s)(l := None)\<rparr>"
      using l r Some by (simp add: fd_lifetime_release_def)
    have p: "dir_user s dref (Life l) = Some d" using l Some by simp
    have f: "owner s own (Stream d') = map_option ds_fd (dir_streams s d')" for d' by simp
    note core = dir_release_core [OF ledgerD(1) [OF led] f ledgerD(3) [OF led] p ledgerD(6,5) [OF led]]
    have o: "owner ?s own = (\<lambda>q. case q of Stream d' \<Rightarrow> map_option ds_fd (dir_streams (dir_stream_release d s) d') | _ \<Rightarrow> owner s own q)"
      using l Some by (intro party_fun_eqI) (auto simp: s life_owns_def)
    have u: "dir_user ?s dref = (dir_user s dref)(Life l := None)"
      by (rule party_fun_eqI) (simp_all add: s)
    have "\<exists>ds. dir_streams ?s d' = Some ds \<and> ds_fd ds = l_host_fd obj'"
      if "l' \<noteq> l" "lifetimes s l' = Some obj'" "l_dir obj' = Some d'" for l' obj' d'
      using core(5) [of "Life l'" d'] ledgerD(4) [OF led] that by (fastforce simp: life_ok_def s)
    then have "life_ok ?s"
      using ledgerD(4) [OF led] by (simp add: life_ok_def lt)
    moreover have "\<exists>ds. dir_streams ?s d' = Some ds \<and> ds_fd ds = via y" if "dref y = Some d'" for y d'
      using core(5) [of "Ext y" d'] ledgerD(7) [OF led] that by (fastforce simp: links_def s)
    then have "links ?s (lref(x := None)) dref via"
      using lnk by (simp add: links_def)
    ultimately show ?thesis
      using core(1-4) cnt unfolding ledger_def o u
      by (simp add: s open_fds_def host_ok_def dirs_ok_def dir_count_def [abs_def])
  next
    case None
    show ?thesis
    proof (cases "l_type obj = FD_STDIO")
      case True
      have s: "?s = s\<lparr>lifetimes := (lifetimes s)(l := None)\<rparr>"
        using l r None True by (simp add: fd_lifetime_release_def)
      have "owner ?s own = owner s own" "dir_user ?s dref = dir_user s dref"
        using l None True by (intro party_fun_eqI; simp add: s life_owns_def)+
      moreover have "life_ok ?s" "links ?s (lref(x := None)) dref via"
        using ledgerD(4,7) [OF led] lnk by (auto simp: life_ok_def links_def s)
      ultimately show ?thesis
        using ledgerD [OF led] cnt by (simp add: ledger_def s open_fds_def host_ok_def dirs_ok_def dir_count_def [abs_def])
    next
      case False
      have s: "?s = (close_host (l_host_fd obj) s)\<lparr>lifetimes := (lifetimes s)(l := None)\<rparr>"
        using l r None False by (simp add: fd_lifetime_release_def)
      have own: "owner s own (Life l) = Some (l_host_fd obj)"
        using l None False by (simp add: life_owns_def)
      then have h: "l_host_fd obj \<in> open_fds s - launcher"
        by (rule tracks_at [OF ledgerD(1) [OF led]])
      have o: "owner ?s own = (owner s own)(Life l := None)"
        by (rule party_fun_eqI) (simp_all add: s)
      have u: "dir_user ?s dref = dir_user s dref"
        using l None by (intro party_fun_eqI) (simp_all add: s)
      have e: "open_fds ?s - launcher = open_fds s - launcher - {l_host_fd obj}"
        using close_host_open(2) [of "l_host_fd obj" s] h ledgerD(6) [OF led] by (auto simp: s open_fds_def)
      have "tracks (owner ?s own) (open_fds ?s - launcher)"
        unfolding o e by (rule tracks_drop [OF ledgerD(1) [OF led] own])
      moreover have "life_ok ?s" "links ?s (lref(x := None)) dref via"
        using ledgerD(4,7) [OF led] lnk by (auto simp: life_ok_def links_def s)
      moreover have "host_ok ?s"
        using host_ok_close [OF ledgerD(6) [OF led] h] by (simp add: s host_ok_def open_fds_def)
      ultimately show ?thesis
        using ledgerD [OF led] cnt by (simp add: ledger_def u) (simp add: s dirs_ok_def dir_count_def [abs_def])
    qed
  qed
qed

lemma ledger_life_release:
  assumes "ledger s own lref dref via" "lref x = Some l"
  shows "ledger (fd_lifetime_release l s) own (lref(x := None)) dref via"
proof -
  obtain obj where l: "lifetimes s l = Some obj"
    using counted_pos [OF ledgerD(2) [OF assms(1)] assms(2)] by (auto simp: life_count_def split: option.splits)
  show ?thesis
    using ledger_life_last [OF assms l] ledger_life_drop [OF assms l] l by (cases "refs obj = 1") (simp_all add: fd_lifetime_release_def)
qed

section \<open>Taking references\<close>

lemma ledger_life_ref:
  assumes led: "ledger s own lref dref via" and x: "lref x = Some l" and y: "lref y = None"
    and l: "lifetimes s l = Some obj" and v: "via y = via x"
  shows "ledger (s\<lparr>lifetimes := (lifetimes s)(l \<mapsto> obj\<lparr>refs := refs obj + 1\<rparr>)\<rparr>) own (lref(y \<mapsto> l)) dref via"
proof -
  let ?s = "s\<lparr>lifetimes := (lifetimes s)(l \<mapsto> obj\<lparr>refs := refs obj + 1\<rparr>)\<rparr>"
  have "owner ?s own = owner s own" "dir_user ?s dref = dir_user s dref"
    using l by (intro party_fun_eqI; simp add: life_owns_def)+
  moreover have "counted (lref(y \<mapsto> l)) (life_count ?s)"
    using counted_add [OF ledgerD(2) [OF led] y, of l] l by (simp add: life_count_update life_count_def)
  moreover have "life_ok ?s"
    using ledgerD(4) [OF led] l by (auto simp: life_ok_def)
  moreover have "l_host_fd obj = via x"
    using ledger_lref [OF led x] l by auto
  then have "links ?s (lref(y \<mapsto> l)) dref via"
    using ledgerD(7) [OF led] l v by (fastforce simp: links_def)
  ultimately show ?thesis
    using ledgerD [OF led] by (simp add: ledger_def dirs_ok_def host_ok_def open_fds_def dir_count_def [abs_def])
qed

lemma ledger_dir_ref:
  assumes led: "ledger s own lref dref via" and x: "dref x = Some d" and y: "dref y = None" and v: "via y = via x"
  shows "ledger (dir_stream_ref_locked d s) own lref (dref(y \<mapsto> d)) via"
proof -
  obtain ds where ds: "dir_streams s d = Some ds" "ds_fd ds = via x"
    using ledger_dref [OF led x] by blast
  let ?s = "dir_stream_ref_locked d s"
  have s: "?s = s\<lparr>dir_streams := (dir_streams s)(d \<mapsto> ds\<lparr>ds_refcount := ds_refcount ds + 1\<rparr>)\<rparr>"
    using ds by (simp add: dir_stream_ref_locked_def)
  have o: "owner ?s own = owner s own"
    using ds by (intro party_fun_eqI) (simp_all add: s)
  have u: "dir_user ?s (dref(y \<mapsto> d)) = (dir_user s dref)(Ext y \<mapsto> d)"
    by (rule party_fun_eqI) (simp_all add: s)
  have "dir_count ?s = (dir_count s)(d := dir_count s d + 1)"
    using ds by (auto simp: dir_count_def fun_eq_iff s)
  then have "counted (dir_user ?s (dref(y \<mapsto> d))) (dir_count ?s)"
    using counted_add [OF ledgerD(3) [OF led], of "Ext y" d] y unfolding u by simp
  moreover have "life_ok ?s"
    using ledgerD(4) [OF led] ds by (fastforce simp: life_ok_def s)
  moreover have "links ?s lref (dref(y \<mapsto> d)) via"
    using ledgerD(7) [OF led] ds v by (fastforce simp: links_def s)
  moreover have "dirs_ok ?s"
    using ledgerD(5) [OF led] by (simp add: dirs_ok_def s)
  ultimately show ?thesis
    using ledgerD [OF led] by (simp add: ledger_def o) (simp add: s host_ok_def open_fds_def life_count_def [abs_def])
qed

text \<open>The first pin of a slot \<open>x\<close>: the new lifetime takes over the descriptor, or shares the stream.\<close>

lemma ledger_life_new:
  assumes led: "ledger s own lref dref via" and fresh: "lifetimes s l = None" and xy: "lref x = None" "lref y = None" "x \<noteq> y"
    and v: "via y = via x" and ty: "t = FD_STDIO \<Longrightarrow> via x \<in> launcher"
    and own: "d = None \<Longrightarrow> t \<noteq> FD_STDIO \<Longrightarrow> own x = Some (via x)" and noown: "d \<noteq> None \<or> t = FD_STDIO \<Longrightarrow> own x = None"
    and d: "\<And>d'. d = Some d' \<Longrightarrow> dref x = Some d'"
  shows "ledger ((case d of Some d' \<Rightarrow> dir_stream_ref_locked d' s | None \<Rightarrow> s)
      \<lparr>lifetimes := (lifetimes s)(l \<mapsto> \<lparr>refs = 2, l_host_fd = via x, l_type = t, l_dir = d\<rparr>)\<rparr>)
    (own(x := None)) (lref(x \<mapsto> l, y \<mapsto> l)) dref via" (is "ledger ?s _ _ _ _")
proof -
  let ?obj = "\<lparr>refs = 2, l_host_fd = via x, l_type = t, l_dir = d\<rparr>"
  let ?s1 = "case d of Some d' \<Rightarrow> dir_stream_ref_locked d' s | None \<Rightarrow> s"
  have free: "lref z \<noteq> Some l" for z
    using counted_pos [OF ledgerD(2) [OF led], of z l] fresh by (auto simp: life_count_def)
  have lt: "lifetimes ?s1 = lifetimes s" "open_fds ?s1 = open_fds s" "bad_closes ?s1 = bad_closes s"
    by (auto simp: dir_stream_ref_locked_def open_fds_def split: option.split)
  have fds: "map_option ds_fd (dir_streams ?s1 e) = map_option ds_fd (dir_streams s e)" for e
    by (auto simp: dir_stream_ref_locked_def split: option.split)
  have "counted ((lref(x \<mapsto> l))(y \<mapsto> l)) (((life_count s)(l := life_count s l + 1))(l := ((life_count s)(l := life_count s l + 1)) l + 1))"
    by (rule counted_add [OF counted_add [OF ledgerD(2) [OF led]]]) (use xy in auto)
  moreover have "life_count ?s = ((life_count s)(l := life_count s l + 1))(l := ((life_count s)(l := life_count s l + 1)) l + 1)"
    using fresh by (auto simp: life_count_def fun_eq_iff)
  ultimately have cnt: "counted (lref(x \<mapsto> l, y \<mapsto> l)) (life_count ?s)" by simp
  have trk: "tracks (owner ?s (own(x := None))) (open_fds ?s - launcher)"
  proof (cases "own x")
    case None
    then have "life_owns ?obj = None"
      using own by (cases d) (auto simp: life_owns_def)
    then have "owner ?s (own(x := None)) = owner s own"
      using fresh None fds by (intro party_fun_eqI) auto
    then show ?thesis
      using ledgerD(1) [OF led] lt(2) by (simp add: open_fds_def)
  next
    case (Some h)
    then have "life_owns ?obj = Some h" "h = via x"
      using own noown by (cases d; auto simp: life_owns_def)+
    then have "owner ?s (own(x := None)) = (owner s own)(Ext x := None, Life l \<mapsto> h)"
      using fds by (intro party_fun_eqI) auto
    then show ?thesis
      using tracks_move [OF ledgerD(1) [OF led], of "Ext x" h "Life l"] Some fresh lt(2) by (simp add: open_fds_def)
  qed
  have dcnt: "counted (dir_user ?s dref) (dir_count ?s)"
  proof (cases d)
    case None
    then have "dir_user ?s dref = dir_user s dref"
      using fresh by (intro party_fun_eqI) auto
    then show ?thesis
      using ledgerD(3) [OF led] None by (simp add: dir_count_def [abs_def])
  next
    case (Some d')
    then obtain ds where ds: "dir_streams s d' = Some ds"
      using ledger_dref [OF led d] by blast
    have "dir_user ?s dref = (dir_user s dref)(Life l \<mapsto> d')"
      using Some by (intro party_fun_eqI) auto
    moreover have "dir_count ?s = (dir_count s)(d' := dir_count s d' + 1)"
      using Some ds by (auto simp: dir_count_def fun_eq_iff dir_stream_ref_locked_def)
    ultimately show ?thesis
      using counted_add [OF ledgerD(3) [OF led], of "Life l" d'] fresh by simp
  qed
  have keep: "\<exists>ds'. dir_streams ?s e = Some ds' \<and> ds_fd ds' = h" if "\<exists>ds. dir_streams s e = Some ds \<and> ds_fd ds = h" for e h
    using that fds [of e] by (cases "dir_streams ?s1 e") auto
  have "life_ok ?s"
    unfolding life_ok_def
  proof (intro allI impI conjI)
    fix l' obj' assume l': "lifetimes ?s l' = Some obj'"
    show "refs obj' \<noteq> 0"
      using l' ledgerD(4) [OF led] by (auto simp: life_ok_def split: if_splits)
    show "l_host_fd obj' \<in> launcher" if "l_type obj' = FD_STDIO"
      using l' that ty ledgerD(4) [OF led] by (auto simp: life_ok_def split: if_splits)
    show "\<exists>ds. dir_streams ?s d' = Some ds \<and> ds_fd ds = l_host_fd obj'" if "l_dir obj' = Some d'" for d'
      using l' that d ledgerD(4,7) [OF led] by (intro keep) (auto simp: life_ok_def links_def split: if_splits)
  qed
  moreover have "links ?s (lref(x \<mapsto> l, y \<mapsto> l)) dref via"
    unfolding links_def
  proof (intro conjI allI impI)
    fix z l' assume "(lref(x \<mapsto> l, y \<mapsto> l)) z = Some l'"
    then show "\<exists>obj. lifetimes ?s l' = Some obj \<and> l_host_fd obj = via z"
      using ledgerD(7) [OF led] v free [of z] by (auto simp: links_def split: if_splits)
  next
    fix z e assume "dref z = Some e"
    then show "\<exists>ds. dir_streams ?s e = Some ds \<and> ds_fd ds = via z"
      using ledgerD(7) [OF led] by (intro keep) (auto simp: links_def)
  qed
  moreover have "dirs_ok ?s"
    using ledgerD(5) [OF led] by (auto simp: dirs_ok_def dir_stream_ref_locked_def split: option.splits if_splits)
  moreover have "host_ok ?s"
    using ledgerD(6) [OF led] lt by (simp add: host_ok_def open_fds_def)
  ultimately show ?thesis
    using cnt trk dcnt by (simp add: ledger_def)
qed

section \<open>New descriptors and hand-overs\<close>

lemma ledger_via:
  "ledger s own lref dref via \<Longrightarrow> (\<And>z. lref z \<noteq> None \<or> dref z \<noteq> None \<Longrightarrow> via' z = via z) \<Longrightarrow> ledger s own lref dref via'"
  by (simp add: ledger_def links_def)

lemma ledger_open:
  assumes led: "ledger s own lref dref via" and h: "host_flags s h = None" "h \<ge> 0" and x: "own x = None"
  shows "ledger (s\<lparr>host_flags := (host_flags s)(h \<mapsto> fl)\<rparr>) (own(x \<mapsto> h)) lref dref via"
proof -
  let ?s = "s\<lparr>host_flags := (host_flags s)(h \<mapsto> fl)\<rparr>"
  have o: "owner ?s (own(x \<mapsto> h)) = (owner s own)(Ext x \<mapsto> h)" and u: "dir_user ?s dref = dir_user s dref"
    by (rule party_fun_eqI; simp)+
  have op: "open_fds ?s = insert h (open_fds s)"
    by (auto simp: open_fds_def)
  have nl: "h \<notin> launcher"
    using ledgerD(6) [OF led] h(1) by (auto simp: host_ok_def open_fds_def)
  then have "open_fds ?s - launcher = insert h (open_fds s - launcher)"
    unfolding op by auto
  then have "tracks (owner ?s (own(x \<mapsto> h))) (open_fds ?s - launcher)"
    unfolding o using tracks_add [OF ledgerD(1) [OF led], of "Ext x" h] x h(1) by (simp add: open_fds_def)
  moreover have "host_ok ?s"
    using ledgerD(6) [OF led] h(2) by (auto simp: host_ok_def op)
  ultimately show ?thesis
    using ledgerD [OF led] by (simp add: ledger_def u) (simp add: life_ok_def dirs_ok_def links_def life_count_def [abs_def] dir_count_def [abs_def])
qed

text \<open>fdopendir: a new stream adopts a descriptor the caller owns, which keeps one reference on it.\<close>

lemma ledger_dir_new:
  assumes led: "ledger s own lref dref via" and d: "dir_streams s d = None" and x: "own x = Some h" "dref x = None"
    and y: "dref y = None" "via y = h"
  shows "ledger (s\<lparr>dir_streams := (dir_streams s)(d \<mapsto> \<lparr>ds_fd = h, ds_refcount = 1\<rparr>)\<rparr>) (own(x := None)) lref (dref(y \<mapsto> d)) via"
proof -
  let ?s = "s\<lparr>dir_streams := (dir_streams s)(d \<mapsto> \<lparr>ds_fd = h, ds_refcount = 1\<rparr>)\<rparr>"
  have o: "owner ?s (own(x := None)) = (owner s own)(Ext x := None, Stream d \<mapsto> h)"
    by (rule party_fun_eqI) simp_all
  have u: "dir_user ?s (dref(y \<mapsto> d)) = (dir_user s dref)(Ext y \<mapsto> d)"
    by (rule party_fun_eqI) simp_all
  have free: "dir_user s dref q \<noteq> Some d" for q
    using counted_pos [OF ledgerD(3) [OF led], of q d] d by (auto simp: dir_count_def)
  have "tracks (owner ?s (own(x := None))) (open_fds ?s - launcher)"
    unfolding o using tracks_move [OF ledgerD(1) [OF led], of "Ext x" h "Stream d"] x d by (simp add: open_fds_def)
  moreover have "dir_count ?s = (dir_count s)(d := dir_count s d + 1)"
    using d by (auto simp: dir_count_def fun_eq_iff)
  then have "counted (dir_user ?s (dref(y \<mapsto> d))) (dir_count ?s)"
    unfolding u using counted_add [OF ledgerD(3) [OF led], of "Ext y" d] y by simp
  moreover have "life_ok ?s"
  proof -
    have "d' \<noteq> d" if "lifetimes s l = Some obj" "l_dir obj = Some d'" for l obj d'
      using free [of "Life l"] that by auto
    then show ?thesis using ledgerD(4) [OF led] by (fastforce simp: life_ok_def)
  qed
  moreover have "links ?s lref (dref(y \<mapsto> d)) via"
  proof -
    have "d' \<noteq> d" if "dref z = Some d'" for z d'
      using free [of "Ext z"] that by auto
    then show ?thesis using ledgerD(7) [OF led] y by (fastforce simp: links_def)
  qed
  moreover have "dirs_ok ?s"
    using ledgerD(5) [OF led] by (simp add: dirs_ok_def)
  ultimately show ?thesis
    using ledgerD(2,6) [OF led] by (simp add: ledger_def) (simp add: host_ok_def open_fds_def life_count_def [abs_def])
qed

text \<open>A holder hands over what it owns and what it references, each to a holder that had none.\<close>

lemma counted_hand_over:
  assumes c: "counted f n" and xy: "x \<noteq> y" and y: "f y = None"
  shows "counted (f(x := None, y := f x)) n"
proof (cases "f x")
  case None
  then have "f(x := None, y := f x) = f" using y by auto
  then show ?thesis using c by simp
next
  case (Some k)
  then show ?thesis using counted_move [OF c Some y] by simp
qed

lemma tracks_hand_over:
  assumes t: "tracks f S" and xy: "x \<noteq> y" and y: "f y = None"
  shows "tracks (f(x := None, y := f x)) S"
proof (cases "f x")
  case None
  then have "f(x := None, y := f x) = f" using y by auto
  then show ?thesis using t by simp
next
  case (Some h)
  then show ?thesis using tracks_move [OF t Some y] by simp
qed

lemma ledger_hand_over:
  assumes led: "ledger s own lref dref via" and x: "x \<noteq> a" "x \<noteq> b" "x \<noteq> c"
    and y: "own a = None" "lref b = None" "dref b = None" "lref c = None" "dref c = None"
  shows "ledger s (own(x := None, a := own x)) (lref(x := None, b := lref x)) (dref(x := None, c := dref x))
    (via(b := via x, c := via x))"
proof -
  have o: "owner s (own(x := None, a := own x)) = (owner s own)(Ext x := None, Ext a := owner s own (Ext x))"
    by (rule party_fun_eqI) (use x in simp_all)
  have "tracks (owner s (own(x := None, a := own x))) (open_fds s - launcher)"
    unfolding o by (rule tracks_hand_over [OF ledgerD(1) [OF led]]) (use x y in simp_all)
  moreover have "counted (lref(x := None, b := lref x)) (life_count s)"
    by (rule counted_hand_over [OF ledgerD(2) [OF led] x(2) y(2)])
  moreover have u: "dir_user s (dref(x := None, c := dref x)) = (dir_user s dref)(Ext x := None, Ext c := dir_user s dref (Ext x))"
    by (rule party_fun_eqI) (use x in simp_all)
  have "counted (dir_user s (dref(x := None, c := dref x))) (dir_count s)"
    unfolding u by (rule counted_hand_over [OF ledgerD(3) [OF led]]) (use x y in simp_all)
  moreover have "links s (lref(x := None, b := lref x)) (dref(x := None, c := dref x)) (via(b := via x, c := via x))"
    using ledgerD(7) [OF led] x y by (auto simp: links_def)
  ultimately show ?thesis
    using ledgerD(4-6) [OF led] by (simp add: ledger_def)
qed

text \<open>To one other holder, as a slot does to its snapshot.\<close>

lemma ledger_move:
  assumes "ledger s own lref dref via" "x \<noteq> y" "own y = None" "lref y = None" "dref y = None"
  shows "ledger s (own(x := None, y := own x)) (lref(x := None, y := lref x)) (dref(x := None, y := dref x)) (via(y := via x))"
  using ledger_hand_over [OF assms(1) assms(2) assms(2) assms(2) assms(3-5) assms(4,5)] by simp

end
