(* ===== verification/Fd_World.thy ===== *)
theory Fd_World
  imports Fd_Ledger
begin

text \<open>
  The descriptor table shared by threads. A world is the table with what the threads carry between
  their windows under \<^verbatim>\<open>fd_lock\<close>: snapshots of retired slots waiting for cleanup, borrowed lifetimes,
  references on directory streams, and host descriptors not yet published. Every step of a thread is
  one such window of \<^verbatim>\<open>src/src/syscall/fdtable.c\<close>, so a run of the world is an arbitrary interleaving.
  \<open>stray\<close> is not state of the program: it counts the calls of \<^verbatim>\<open>fd_retire_published\<close> that found, under the number
  and host descriptor they were given, a slot whose host descriptor is not the slot's own.
\<close>

record world =
  st :: fd_state
  pend :: "nat \<Rightarrow> (nat \<times> fd_entry) option"
  pins :: "nat \<Rightarrow> (int \<times> nat) option"
  walks :: "nat \<Rightarrow> (int \<times> nat) option"
  held :: "nat \<Rightarrow> int option"
  stray :: nat

datatype holder = Slot nat | Pend nat | Pin nat | Walk nat | Held nat

section \<open>What each holder has\<close>

definition entry_own :: "fd_entry \<Rightarrow> int option" where
  "entry_own e =
     (if ftype e = FD_CLOSED \<or> ftype e = FD_STDIO \<or> lifetime e \<noteq> None \<or> (ftype e = FD_DIR \<and> dir_ptr e \<noteq> None) \<or> host_fd e < 0
      then None else Some (host_fd e))"

text \<open>A slot of the launcher's descriptors, or of a directory, whose descriptor belongs to its stream.\<close>

definition shared_host :: "fd_entry \<Rightarrow> bool" where
  "shared_host e \<longleftrightarrow> ftype e = FD_STDIO \<or> (ftype e = FD_DIR \<and> dir_ptr e \<noteq> None)"

definition entry_lref :: "fd_entry \<Rightarrow> nat option" where
  "entry_lref e = (if ftype e = FD_CLOSED then None else lifetime e)"

definition entry_dref :: "fd_entry \<Rightarrow> nat option" where
  "entry_dref e = (if ftype e = FD_DIR then dir_ptr e else None)"

fun w_own :: "world \<Rightarrow> holder \<Rightarrow> int option" where
  "w_own w (Slot i) = (if i < 1024 then entry_own (slot (st w) i) else None)"
| "w_own w (Pend t) = (case pend w t of None \<Rightarrow> None | Some p \<Rightarrow> entry_own (snd p))"
| "w_own w (Pin t) = None"
| "w_own w (Walk t) = None"
| "w_own w (Held t) = held w t"

fun w_lref :: "world \<Rightarrow> holder \<Rightarrow> nat option" where
  "w_lref w (Slot i) = (if i < 1024 then entry_lref (slot (st w) i) else None)"
| "w_lref w (Pend t) = (case pend w t of None \<Rightarrow> None | Some p \<Rightarrow> entry_lref (snd p))"
| "w_lref w (Pin t) = map_option snd (pins w t)"
| "w_lref w (Walk t) = None"
| "w_lref w (Held t) = None"

fun w_dref :: "world \<Rightarrow> holder \<Rightarrow> nat option" where
  "w_dref w (Slot i) = (if i < 1024 then entry_dref (slot (st w) i) else None)"
| "w_dref w (Pend t) = (case pend w t of None \<Rightarrow> None | Some p \<Rightarrow> entry_dref (snd p))"
| "w_dref w (Pin t) = None"
| "w_dref w (Walk t) = map_option snd (walks w t)"
| "w_dref w (Held t) = None"

fun w_via :: "world \<Rightarrow> holder \<Rightarrow> int" where
  "w_via w (Slot i) = host_fd (slot (st w) i)"
| "w_via w (Pend t) = (case pend w t of None \<Rightarrow> 0 | Some p \<Rightarrow> host_fd (snd p))"
| "w_via w (Pin t) = (case pins w t of None \<Rightarrow> 0 | Some p \<Rightarrow> fst p)"
| "w_via w (Walk t) = (case walks w t of None \<Rightarrow> 0 | Some p \<Rightarrow> fst p)"
| "w_via w (Held t) = 0"

definition entry_ok :: "fd_entry \<Rightarrow> bool" where
  "entry_ok e \<longleftrightarrow> (ftype e = FD_STDIO \<longrightarrow> host_fd e \<in> launcher)"

definition world_inv :: "world \<Rightarrow> bool" where
  "world_inv w \<longleftrightarrow> fd_inv (st w) \<and> ledger (st w) (w_own w) (w_lref w) (w_dref w) (w_via w) \<and>
     (\<forall>i<1024. entry_ok (slot (st w) i)) \<and>
     (\<forall>t fd e. pend w t = Some (fd, e) \<longrightarrow> entry_ok e \<and> ftype e \<noteq> FD_CLOSED) \<and> finite (dom (pend w))"

lemma world_invD:
  assumes "world_inv w"
  shows "fd_inv (st w)" "ledger (st w) (w_own w) (w_lref w) (w_dref w) (w_via w)"
    "\<And>i. i < 1024 \<Longrightarrow> entry_ok (slot (st w) i)"
    "\<And>t fd e. pend w t = Some (fd, e) \<Longrightarrow> entry_ok e \<and> ftype e \<noteq> FD_CLOSED"
    "finite (dom (pend w))"
  using assms by (auto simp: world_inv_def)

lemma ledger_eqI:
  assumes "ledger s own lref dref via" "\<And>x. w_own w x = own x" "\<And>x. w_lref w x = lref x" "\<And>x. w_dref w x = dref x"
    "\<And>x. lref x \<noteq> None \<or> dref x \<noteq> None \<Longrightarrow> w_via w x = via x"
  shows "ledger s (w_own w) (w_lref w) (w_dref w) (w_via w)"
proof -
  have "w_own w = own" "w_lref w = lref" "w_dref w = dref"
    using assms(2-4) by (auto simp: fun_eq_iff)
  then show ?thesis
    using ledger_via [OF assms(1), of "w_via w"] assms(5) by simp
qed

section \<open>The windows\<close>

text \<open>The calls \<open>fd_cleanup_entry\<close> makes before it lets go of the descriptor.\<close>

definition cleanup_calls :: "nat \<Rightarrow> fd_entry \<Rightarrow> fd_state \<Rightarrow> fd_state" where
  "cleanup_calls fd snap s =
     (let s1 = (case dir_ptr snap of Some d \<Rightarrow> if ftype snap = FD_EPOLL then emit (epoll_instance_free d) s else s | None \<Rightarrow> s);
          s2 = (case fcleanup snap of Some f \<Rightarrow> emit (type_cleanup f fd) s1 | None \<Rightarrow> s1);
          s3 = emit (proc_pty_forget_host_fd (host_fd snap)) s2
      in if linux_flags snap AND LINUX_O_ASYNC \<noteq> 0 \<or> (ftype snap = FD_SOCKET \<and> fasync_owner_type snap \<noteq> FASYNC_OWNER_NONE)
         then emit (asyncio_disarm (host_fd snap)) s3 else s3)"

text \<open>
  The cleanup of a snapshot runs whole (\<open>clean_up\<close>), or its calls first (\<open>clean_up_calls\<close>) and then, as windows of
  their own, the release of its lifetime, the close of its descriptor and the release of its stream.
\<close>

inductive fd_step :: "world \<Rightarrow> world \<Rightarrow> bool" where
  host_open:
    "host_flags (st w) h = None \<Longrightarrow> h \<ge> 0 \<Longrightarrow> held w t = None \<Longrightarrow>
     fd_step w (w\<lparr>st := (st w)\<lparr>host_flags := (host_flags (st w))(h \<mapsto> fl)\<rparr>, held := (held w)(t \<mapsto> h)\<rparr>)"
| host_close:
    "held w t = Some h \<Longrightarrow> fd_step w (w\<lparr>st := close_host h (st w), held := (held w)(t := None)\<rparr>)"
| publish:
    "held w t = Some h \<Longrightarrow> ty \<noteq> FD_CLOSED \<Longrightarrow> ty \<noteq> FD_STDIO \<Longrightarrow>
     fd_alloc_from H al minfd ty h cleanup (st w) = (r, s') \<Longrightarrow>
     fd_step w (w\<lparr>st := s', held := (if r = None then held w else (held w)(t := None))\<rparr>)"
| publish_at:
    "held w t = Some h \<Longrightarrow> ty \<noteq> FD_CLOSED \<Longrightarrow> ty \<noteq> FD_STDIO \<Longrightarrow> fd < rlimit_nofile_cur H \<Longrightarrow>
     fd_probe_host H al ty h (st w) = (probe, s1) \<Longrightarrow> replace_locked al fd ty h cleanup probe s1 = (old, s') \<Longrightarrow>
     pend w t' = None \<Longrightarrow>
     fd_step w (w\<lparr>st := s', held := (held w)(t := None), pend := (pend w)(t' := map_option (Pair fd) old)\<rparr>)"
| stream_open:
    "held w t = Some h \<Longrightarrow> dir_streams (st w) d = None \<Longrightarrow> walks w t' = None \<Longrightarrow>
     fd_step w (w\<lparr>st := (st w)\<lparr>dir_streams := (dir_streams (st w))(d \<mapsto> \<lparr>ds_fd = h, ds_refcount = 1\<rparr>)\<rparr>,
       held := (held w)(t := None), walks := (walks w)(t' \<mapsto> (h, d))\<rparr>)"
| publish_dir:
    "walks w t = Some (h, d) \<Longrightarrow> fd_alloc_dir_from H al minfd FD_DIR h cleanup (Some d) flags (st w) = (r, s') \<Longrightarrow>
     fd_step w (w\<lparr>st := s', walks := (if r = None then walks w else (walks w)(t := None))\<rparr>)"
| publish_dir_at:
    "walks w t = Some (h, d) \<Longrightarrow> fd < rlimit_nofile_cur H \<Longrightarrow>
     fd_probe_host H al FD_DIR h (st w) = (probe, s1) \<Longrightarrow> replace_locked al fd FD_DIR h cleanup probe s1 = (old, s2) \<Longrightarrow>
     pend w t' = None \<Longrightarrow>
     fd_step w (w\<lparr>st := install_dir fd (Some d) flags s2, walks := (walks w)(t := None),
       pend := (pend w)(t' := map_option (Pair fd) old)\<rparr>)"
| close_slot:
    "fd_snapshot_and_close fd (st w) = (Some snap, s') \<Longrightarrow> pend w t = None \<Longrightarrow>
     fd_step w (w\<lparr>st := s', pend := (pend w)(t \<mapsto> (nat fd, snap))\<rparr>)"
| close_regular:
    "fd_close_regular_relaxed H fd (st w) = (Some h, s') \<Longrightarrow> held w t = None \<Longrightarrow>
     fd_step w (w\<lparr>st := s', held := (held w)(t := if h < 0 then None else Some h)\<rparr>)"
| clean_up:
    "pend w t = Some (fd, snap) \<Longrightarrow>
     fd_step w (w\<lparr>st := fd_cleanup_entry fd snap (st w), pend := (pend w)(t := None)\<rparr>)"
| clean_up_calls:
    "pend w t = Some (fd, snap) \<Longrightarrow> held w t1 = None \<Longrightarrow> pins w t2 = None \<Longrightarrow> walks w t3 = None \<Longrightarrow>
     fd_step w (w\<lparr>st := cleanup_calls fd snap (st w), pend := (pend w)(t := None), held := (held w)(t1 := entry_own snap),
       pins := (pins w)(t2 := map_option (Pair (host_fd snap)) (entry_lref snap)),
       walks := (walks w)(t3 := map_option (Pair (host_fd snap)) (entry_dref snap))\<rparr>)"
| retire:
    "fd < 1024 \<Longrightarrow> ftype (slot (st w) fd) \<noteq> FD_CLOSED \<Longrightarrow> host_fd (slot (st w) fd) = h \<Longrightarrow>
     fd_mark_closed_unlocked fd (st w) = (l, s') \<Longrightarrow> held w t = None \<Longrightarrow> pins w t' = None \<Longrightarrow>
     fd_step w (w\<lparr>st := s', held := (held w)(t := if l = None \<and> h \<ge> 0 then Some h else None),
       pins := (pins w)(t' := map_option (Pair h) l),
       stray := (if shared_host (slot (st w) fd) then stray w + 1 else stray w)\<rparr>)"
| acquire:
    "RANGE_CHECK fd \<Longrightarrow> (\<And>a. spare = Some a \<Longrightarrow> lifetimes (st w) a = None) \<Longrightarrow>
     acquire_pass fd spare (st w) = (Acq_Ok h l, spare', s') \<Longrightarrow> pins w t = None \<Longrightarrow>
     fd_step w (w\<lparr>st := s', pins := (pins w)(t \<mapsto> (h, l))\<rparr>)"
| release:
    "pins w t = Some (h, l) \<Longrightarrow> fd_step w (w\<lparr>st := fd_lifetime_release l (st w), pins := (pins w)(t := None)\<rparr>)"
| share_dir:
    "fd_snapshot_and_dup_or_share_dir dup fd (st w) = (h, True, Some out, s') \<Longrightarrow> dir_ptr out = Some d \<Longrightarrow> walks w t = None \<Longrightarrow>
     fd_step w (w\<lparr>st := s', walks := (walks w)(t \<mapsto> (h, d))\<rparr>)"
| release_dir:
    "walks w t = Some (h, d) \<Longrightarrow> fd_step w (w\<lparr>st := dir_stream_release d (st w), walks := (walks w)(t := None)\<rparr>)"
| dup:
    "fd_snapshot_and_dup_or_share_dir (Some h) fd (st w) = (h, False, Some out, s') \<Longrightarrow> h \<ge> 0 \<Longrightarrow>
     host_flags (st w) h = None \<Longrightarrow> held w t = None \<Longrightarrow>
     fd_step w (w\<lparr>st := s', held := (held w)(t \<mapsto> h)\<rparr>)"
| publish_flags: "fd_step w (w\<lparr>st := fd_publish_linux_flags fd flags (st w)\<rparr>)"
| shadow_flags: "fd_step w (w\<lparr>st := fd_set_shadow_flags fd gen msk val (st w)\<rparr>)"
| guest_nonblock: "fd_step w (w\<lparr>st := snd (fd_apply_guest_nonblock fd on (st w))\<rparr>)"
| refresh_urandom: "fd_step w (w\<lparr>st := fd_refresh_urandom_bitmap fd (st w)\<rparr>)"
| reserve_id: "fd_step w (w\<lparr>st := snd (fd_reserve_ofd_id (st w))\<rparr>)"

text \<open>Runs, with the number of windows so far, from the table \<open>fdtable_init\<close> builds over the launcher's descriptors.\<close>

definition world0 :: "fd_host \<Rightarrow> fd_state \<Rightarrow> world" where
  "world0 H s = \<lparr>st = fdtable_init H s, pend = \<lambda>_. None, pins = \<lambda>_. None, walks = \<lambda>_. None, held = \<lambda>_. None, stray = 0\<rparr>"

definition boot_state :: "fd_state \<Rightarrow> bool" where
  "boot_state s \<longleftrightarrow> lifetimes s = Map.empty \<and> dir_streams s = Map.empty \<and> open_fds s = launcher \<and> bad_closes s = 0 \<and>
     (case urandom s of None \<Rightarrow> True | Some u \<Rightarrow> u = replicate 16 0)"

inductive fd_run :: "fd_state \<Rightarrow> nat \<Rightarrow> world \<Rightarrow> bool" for s0 where
  start: "boot_state s0 \<Longrightarrow> fd_run s0 0 (world0 H s0)"
| step: "fd_run s0 n w \<Longrightarrow> fd_step w w' \<Longrightarrow> fd_run s0 (n + 1) w'"

end
