(* ===== verification/Fd_World_Laws.thy ===== *)
theory Fd_World_Laws
  imports Fd_World
begin

text \<open>Every window of the descriptor table keeps the ledger and the table's invariant.\<close>

section \<open>Frames\<close>

lemma open_fds_frames [simp]:
  "open_fds (emit c s) = open_fds s" "open_fds (set_slot fd e s) = open_fds s"
  "open_fds (fd_init_entry al fd t h cleanup probe s) = open_fds s" "open_fds (snd (fd_mark_closed_unlocked fd s)) = open_fds s"
  by (simp_all add: open_fds_def)

definition only_host :: "fd_state \<Rightarrow> fd_state \<Rightarrow> bool" where
  "only_host s s' \<longleftrightarrow> fd_table s' = fd_table s \<and> fd_free_bitmap s' = fd_free_bitmap s \<and> urandom s' = urandom s \<and>
     fd_next_generation s' = fd_next_generation s \<and> fd_next_ofd_id s' = fd_next_ofd_id s \<and> lifetimes s' = lifetimes s \<and>
     dir_streams s' = dir_streams s \<and> open_fds s' = open_fds s \<and> bad_closes s' = bad_closes s \<and> calls s' = calls s"

lemma only_host_refl [simp]: "only_host s s"
  by (simp add: only_host_def)

lemma only_host_trans: "only_host s s' \<Longrightarrow> only_host s' s'' \<Longrightarrow> only_host s s''"
  by (simp add: only_host_def)

lemma only_host_setfl: "only_host s (snd (setfl H h fl s))"
  by (auto simp: setfl_def only_host_def open_fds_def)

lemma only_host_nonblock: "only_host s (snd (fd_set_nonblock H h s))"
  by (simp add: fd_set_nonblock_def only_host_setfl split: option.split)

lemma only_host_probe: "only_host s (snd (fd_probe_host H al t h s))"
  using only_host_nonblock [of s H h] by (auto simp: fd_probe_host_def Let_def split: option.split prod.split)

lemma only_host_rollback: "only_host s (fd_probe_rollback H probe h s)"
  by (simp add: fd_probe_rollback_def only_host_setfl split: option.split)

lemma only_host_slot: "only_host s s' \<Longrightarrow> slot s' = slot s"
  by (simp add: only_host_def slot_def fun_eq_iff)

lemma only_host_inv: "only_host s s' \<Longrightarrow> fd_inv s' = fd_inv s"
  by (rule fd_inv_same) (simp_all add: only_host_def)

lemma only_host_ledger: "only_host s s' \<Longrightarrow> ledger s' own lref dref via = ledger s own lref dref via"
  by (rule ledger_same) (simp_all add: only_host_def)

text \<open>A world whose table differs from another one's only in slot \<open>fd\<close>.\<close>

definition slots_but :: "nat \<Rightarrow> fd_state \<Rightarrow> fd_state \<Rightarrow> bool" where
  "slots_but fd s s' \<longleftrightarrow> (\<forall>i<1024. i \<noteq> fd \<longrightarrow> slot s' i = slot s i)"

definition same_table :: "fd_state \<Rightarrow> fd_state \<Rightarrow> bool" where
  "same_table s s' \<longleftrightarrow> fd_table s' = fd_table s \<and> fd_free_bitmap s' = fd_free_bitmap s \<and> urandom s' = urandom s \<and>
     fd_next_generation s' = fd_next_generation s"

lemma same_table_slot: "same_table s s' \<Longrightarrow> slot s' = slot s"
  by (simp add: same_table_def slot_def fun_eq_iff)

lemma same_table_trans: "same_table s s' \<Longrightarrow> same_table s' s'' \<Longrightarrow> same_table s s''"
  by (simp add: same_table_def)

lemma same_table_simps [simp]:
  "same_table s s" "same_table s (close_host h s)" "same_table s (dir_stream_release d s)" "same_table s (emit c s)"
  "same_table s (dir_stream_ref_locked d s)" "same_table s (s\<lparr>host_flags := f\<rparr>)" "same_table s (s\<lparr>dir_streams := g\<rparr>)"
  "same_table s (s\<lparr>lifetimes := l\<rparr>)"
  by (simp_all add: same_table_def dir_stream_ref_locked_def split: option.split)

lemma same_table_life_release [simp]: "same_table s (fd_lifetime_release l s)"
  by (simp add: same_table_def fd_lifetime_release_def Let_def split: option.split)

lemmas slot_frames [simp] = same_table_simps(2-8) [THEN same_table_slot] same_table_life_release [THEN same_table_slot]

lemma world_inv_same_table:
  assumes inv: "world_inv w" and tab: "same_table (st w) (st w')"
    and pend: "\<And>t p. pend w' t = Some p \<Longrightarrow> pend w t = Some p"
    and led: "ledger (st w') own lref dref via" and eqs: "\<And>x. w_own w' x = own x" "\<And>x. w_lref w' x = lref x" "\<And>x. w_dref w' x = dref x"
    "\<And>x. lref x \<noteq> None \<or> dref x \<noteq> None \<Longrightarrow> w_via w' x = via x"
  shows "world_inv w'"
proof -
  have "fd_inv (st w') = fd_inv (st w)"
    by (rule fd_inv_same) (use tab in \<open>simp_all add: same_table_def\<close>)
  moreover have "dom (pend w') \<subseteq> dom (pend w)" using pend by auto
  then have "finite (dom (pend w'))" using world_invD(5) [OF inv] finite_subset by blast
  ultimately show ?thesis
    using inv ledger_eqI [OF led eqs] same_table_slot [OF tab] pend unfolding world_inv_def by metis
qed

lemma world_inv_only_host:
  assumes inv: "world_inv w" and oh: "only_host (st w) s'"
  shows "world_inv (w\<lparr>st := s'\<rparr>)"
proof (rule world_inv_same_table [OF inv])
  show "ledger (st (w\<lparr>st := s'\<rparr>)) (w_own w) (w_lref w) (w_dref w) (w_via w)"
    using world_invD(2) [OF inv] only_host_ledger [OF oh, of "w_own w" "w_lref w" "w_dref w" "w_via w"] by simp
  fix x
  show "w_own (w\<lparr>st := s'\<rparr>) x = w_own w x" "w_lref (w\<lparr>st := s'\<rparr>) x = w_lref w x" "w_dref (w\<lparr>st := s'\<rparr>) x = w_dref w x"
    "w_via (w\<lparr>st := s'\<rparr>) x = w_via w x"
    by (cases x; simp add: only_host_slot [OF oh])+
qed (use oh in \<open>simp_all add: same_table_def only_host_def\<close>)

section \<open>Descriptors in flight\<close>

lemma world_inv_open:
  assumes inv: "world_inv w" and h: "host_flags (st w) h = None" "h \<ge> 0" "held w t = None"
  shows "world_inv (w\<lparr>st := (st w)\<lparr>host_flags := (host_flags (st w))(h \<mapsto> fl)\<rparr>, held := (held w)(t \<mapsto> h)\<rparr>)" (is "world_inv ?w")
proof (rule world_inv_same_table [OF inv])
  show "ledger (st ?w) ((w_own w)(Held t \<mapsto> h)) (w_lref w) (w_dref w) (w_via w)"
    using ledger_open [OF world_invD(2) [OF inv] h(1,2), of "Held t"] h(3) by simp
  fix x
  show "w_own ?w x = ((w_own w)(Held t \<mapsto> h)) x" "w_lref ?w x = w_lref w x" "w_dref ?w x = w_dref w x" "w_via ?w x = w_via w x"
    by (cases x; simp)+
qed simp_all

lemma world_inv_close:
  assumes inv: "world_inv w" and h: "held w t = Some h"
  shows "world_inv (w\<lparr>st := close_host h (st w), held := (held w)(t := None)\<rparr>)" (is "world_inv ?w")
proof (rule world_inv_same_table [OF inv])
  show "ledger (st ?w) ((w_own w)(Held t := None)) (w_lref w) (w_dref w) (w_via w)"
    using ledger_close [OF world_invD(2) [OF inv], of "Held t" h] h by simp
  fix x
  show "w_own ?w x = ((w_own w)(Held t := None)) x" "w_lref ?w x = w_lref w x" "w_dref ?w x = w_dref w x" "w_via ?w x = w_via w x"
    by (cases x; simp)+
qed simp_all

lemma world_inv_release:
  assumes inv: "world_inv w" and p: "pins w t = Some (h, l)"
  shows "world_inv (w\<lparr>st := fd_lifetime_release l (st w), pins := (pins w)(t := None)\<rparr>)" (is "world_inv ?w")
proof (rule world_inv_same_table [OF inv])
  show "ledger (st ?w) (w_own w) ((w_lref w)(Pin t := None)) (w_dref w) (w_via w)"
    using ledger_life_release [OF world_invD(2) [OF inv], of "Pin t" l] p by simp
  fix x
  show "w_own ?w x = w_own w x" "w_lref ?w x = ((w_lref w)(Pin t := None)) x" "w_dref ?w x = w_dref w x"
    by (cases x; simp)+
  show "((w_lref w)(Pin t := None)) x \<noteq> None \<or> w_dref w x \<noteq> None \<Longrightarrow> w_via ?w x = w_via w x"
    by (cases x) auto
qed simp_all

lemma world_inv_release_dir:
  assumes inv: "world_inv w" and p: "walks w t = Some (h, d)"
  shows "world_inv (w\<lparr>st := dir_stream_release d (st w), walks := (walks w)(t := None)\<rparr>)" (is "world_inv ?w")
proof (rule world_inv_same_table [OF inv])
  show "ledger (st ?w) (w_own w) (w_lref w) ((w_dref w)(Walk t := None)) (w_via w)"
    using ledger_dir_release [OF world_invD(2) [OF inv], of "Walk t" d] p by simp
  fix x
  show "w_own ?w x = w_own w x" "w_lref ?w x = w_lref w x" "w_dref ?w x = ((w_dref w)(Walk t := None)) x"
    by (cases x; simp)+
  show "w_lref w x \<noteq> None \<or> ((w_dref w)(Walk t := None)) x \<noteq> None \<Longrightarrow> w_via ?w x = w_via w x"
    by (cases x) auto
qed simp_all

lemma world_inv_stream_open:
  assumes inv: "world_inv w" and h: "held w t = Some h" and d: "dir_streams (st w) d = None" and t': "walks w t' = None"
  shows "world_inv (w\<lparr>st := (st w)\<lparr>dir_streams := (dir_streams (st w))(d \<mapsto> \<lparr>ds_fd = h, ds_refcount = 1\<rparr>)\<rparr>,
    held := (held w)(t := None), walks := (walks w)(t' \<mapsto> (h, d))\<rparr>)" (is "world_inv ?w")
proof (rule world_inv_same_table [OF inv])
  have "ledger (st w) (w_own w) (w_lref w) (w_dref w) ((w_via w)(Walk t' := h))"
    by (rule ledger_via [OF world_invD(2) [OF inv]]) (use t' in auto)
  then show "ledger (st ?w) ((w_own w)(Held t := None)) (w_lref w) ((w_dref w)(Walk t' \<mapsto> d)) ((w_via w)(Walk t' := h))"
    using ledger_dir_new [of "st w" "w_own w" "w_lref w" "w_dref w" _ d "Held t" h "Walk t'"] h d t' by simp
  fix x
  show "w_own ?w x = ((w_own w)(Held t := None)) x" "w_lref ?w x = w_lref w x" "w_dref ?w x = ((w_dref w)(Walk t' \<mapsto> d)) x"
    "w_via ?w x = ((w_via w)(Walk t' := h)) x"
    by (cases x; simp)+
qed simp_all

section \<open>Cleanup of a retired slot\<close>

lemma cleanup_calls_frame [simp]:
  "same_table s (cleanup_calls fd snap s)" "lifetimes (cleanup_calls fd snap s) = lifetimes s"
  "dir_streams (cleanup_calls fd snap s) = dir_streams s" "host_flags (cleanup_calls fd snap s) = host_flags s"
  "bad_closes (cleanup_calls fd snap s) = bad_closes s"
  by (auto simp: cleanup_calls_def Let_def same_table_def split: option.split)

lemma fd_cleanup_entry_cases:
  "fd_cleanup_entry fd snap s =
     (let s1 = cleanup_calls fd snap s;
          s2 = (case lifetime snap of
                  Some l \<Rightarrow> fd_lifetime_release l s1
                | None \<Rightarrow> if entry_dref snap = None \<and> ftype snap \<noteq> FD_STDIO then close_host (host_fd snap) s1 else s1)
      in case entry_dref snap of Some d \<Rightarrow> dir_stream_release d s2 | None \<Rightarrow> s2)"
  unfolding fd_cleanup_entry_def cleanup_calls_def Let_def entry_dref_def
  by (cases "ftype snap = FD_DIR"; cases "dir_ptr snap") (simp_all add: fd_types)

lemma world_inv_cleanup:
  assumes inv: "world_inv w" and p: "pend w t = Some (fd, e)"
  shows "world_inv (w\<lparr>st := fd_cleanup_entry fd e (st w), pend := (pend w)(t := None)\<rparr>)" (is "world_inv ?w")
proof (rule world_inv_same_table [OF inv])
  let ?s1 = "cleanup_calls fd e (st w)" and ?x = "Pend t"
  let ?s2 = "case lifetime e of Some l \<Rightarrow> fd_lifetime_release l ?s1
     | None \<Rightarrow> if entry_dref e = None \<and> ftype e \<noteq> FD_STDIO then close_host (host_fd e) ?s1 else ?s1"
  have e: "ftype e \<noteq> FD_CLOSED" using world_invD(4) [OF inv p] by simp
  have l1: "ledger ?s1 (w_own w) (w_lref w) (w_dref w) (w_via w)"
    using world_invD(2) [OF inv] ledger_same [of ?s1 "st w" "w_own w" "w_lref w" "w_dref w" "w_via w"]
    by (simp add: open_fds_def)
  have l2: "ledger ?s2 ((w_own w)(?x := None)) ((w_lref w)(?x := None)) (w_dref w) (w_via w)"
  proof (cases "lifetime e")
    case (Some l)
    then have "w_lref w ?x = Some l" "(w_own w)(?x := None) = w_own w"
      using p e by (auto simp: entry_lref_def entry_own_def)
    then show ?thesis
      using ledger_life_release [OF l1] Some by simp
  next
    case None
    then have lr: "(w_lref w)(?x := None) = w_lref w"
      using p by (auto simp: entry_lref_def)
    show ?thesis
    proof (cases "w_own w ?x")
      case (Some h)
      then have "entry_dref e = None" "ftype e \<noteq> FD_STDIO" "h = host_fd e"
        using p by (auto simp: entry_own_def entry_dref_def split: if_splits)
      then show ?thesis
        using ledger_close [OF l1 Some] None lr by simp
    next
      case no: None
      then have "(w_own w)(?x := None) = w_own w" by auto
      moreover have "host_fd e < 0" if "entry_dref e = None" "ftype e \<noteq> FD_STDIO"
        using no p e None that by (auto simp: entry_own_def entry_dref_def split: if_splits)
      then have "?s2 = ?s1"
        using None by (auto simp: close_host_def)
      ultimately show ?thesis
        using l1 lr by simp
    qed
  qed
  show "ledger (st ?w) ((w_own w)(?x := None)) ((w_lref w)(?x := None)) ((w_dref w)(?x := None)) (w_via w)"
  proof (cases "entry_dref e")
    case (Some d)
    then have "w_dref w ?x = Some d" using p by simp
    then show ?thesis
      using ledger_dir_release [OF l2, of ?x d] Some by (simp add: fd_cleanup_entry_cases Let_def)
  next
    case None
    then have "(w_dref w)(?x := None) = w_dref w" using p by auto
    then show ?thesis
      using l2 None by (simp add: fd_cleanup_entry_cases Let_def)
  qed
  show tab: "same_table (st w) (st ?w)"
  proof -
    have "same_table ?s1 ?s2"
      by (simp split: option.split)
    then have t2: "same_table (st w) ?s2"
      by (rule same_table_trans [OF cleanup_calls_frame(1)])
    have "st ?w = (case entry_dref e of Some d \<Rightarrow> dir_stream_release d ?s2 | None \<Rightarrow> ?s2)"
      by (simp add: fd_cleanup_entry_cases Let_def)
    then show ?thesis
      using t2 same_table_trans [OF t2 same_table_simps(3)] by (cases "entry_dref e") (simp_all only: option.case)
  qed
  show "\<And>t' q. pend ?w t' = Some q \<Longrightarrow> pend w t' = Some q"
    by (simp split: if_splits)
  fix x
  show "w_own ?w x = ((w_own w)(?x := None)) x" "w_lref ?w x = ((w_lref w)(?x := None)) x" "w_dref ?w x = ((w_dref w)(?x := None)) x"
    using same_table_slot [OF tab] by (cases x; simp)+
  show "((w_lref w)(?x := None)) x \<noteq> None \<or> ((w_dref w)(?x := None)) x \<noteq> None \<Longrightarrow> w_via ?w x = w_via w x"
    using same_table_slot [OF tab] by (cases x) auto
qed

text \<open>The same, with the release, the close and the stream's release left as windows of their own.\<close>

lemma world_inv_cleanup_calls:
  assumes inv: "world_inv w" and p: "pend w t = Some (fd, e)" and free: "held w t1 = None" "pins w t2 = None" "walks w t3 = None"
  shows "world_inv (w\<lparr>st := cleanup_calls fd e (st w), pend := (pend w)(t := None), held := (held w)(t1 := entry_own e),
    pins := (pins w)(t2 := map_option (Pair (host_fd e)) (entry_lref e)),
    walks := (walks w)(t3 := map_option (Pair (host_fd e)) (entry_dref e))\<rparr>)" (is "world_inv ?w")
proof (rule world_inv_same_table [OF inv])
  let ?s = "cleanup_calls fd e (st w)" and ?x = "Pend t" and ?a = "Held t1" and ?b = "Pin t2" and ?c = "Walk t3"
  let ?own = "(w_own w)(?x := None, ?a := w_own w ?x)" and ?lref = "(w_lref w)(?x := None, ?b := w_lref w ?x)"
  let ?dref = "(w_dref w)(?x := None, ?c := w_dref w ?x)" and ?via = "(w_via w)(?b := w_via w ?x, ?c := w_via w ?x)"
  have "ledger (st w) ?own ?lref ?dref ?via"
    by (rule ledger_hand_over [OF world_invD(2) [OF inv]]) (use free in simp_all)
  then show "ledger (st ?w) ?own ?lref ?dref ?via"
    using ledger_same [of ?s "st w" ?own ?lref ?dref ?via] by (simp add: open_fds_def)
  show tab: "same_table (st w) (st ?w)" by simp
  show "\<And>t' q. pend ?w t' = Some q \<Longrightarrow> pend w t' = Some q"
    by (simp split: if_splits)
  fix x
  show "w_own ?w x = ?own x" "w_lref ?w x = ?lref x" "w_dref ?w x = ?dref x"
    using same_table_slot [OF cleanup_calls_frame(1) [of "st w" fd e]] p by (cases x; simp add: option.map_comp o_def option.map_ident)+
  show "?lref x \<noteq> None \<or> ?dref x \<noteq> None \<Longrightarrow> w_via ?w x = ?via x"
    using same_table_slot [OF cleanup_calls_frame(1) [of "st w" fd e]] p by (cases x) (auto split: if_splits option.splits)
qed

section \<open>Filling a slot\<close>

lemma world_invI:
  assumes "fd_inv (st w')" "ledger (st w') own lref dref via" "\<And>x. w_own w' x = own x" "\<And>x. w_lref w' x = lref x"
    "\<And>x. w_dref w' x = dref x" "\<And>x. lref x \<noteq> None \<or> dref x \<noteq> None \<Longrightarrow> w_via w' x = via x"
    "\<And>i. i < 1024 \<Longrightarrow> entry_ok (slot (st w') i)"
    "\<And>t fd e. pend w' t = Some (fd, e) \<Longrightarrow> entry_ok e \<and> ftype e \<noteq> FD_CLOSED" "finite (dom (pend w'))"
  shows "world_inv w'"
  using assms ledger_eqI [OF assms(2-6)] unfolding world_inv_def by blast

lemma closed_entry_none:
  "ftype e = FD_CLOSED \<Longrightarrow> entry_own e = None \<and> entry_lref e = None \<and> entry_dref e = None"
  by (simp add: entry_own_def entry_lref_def entry_dref_def fd_types)

text \<open>
  The window of an allocator: slot \<open>fd\<close> is filled, its old occupant, if any, becomes a snapshot, and
  the new occupant takes over from a holder that had nothing else.
\<close>

lemma world_inv_fill:
  assumes inv: "world_inv w" and fd: "fd < 1024"
    and inv': "fd_inv s'" and s': "lifetimes s' = lifetimes (st w)" "dir_streams s' = dir_streams (st w)"
      "open_fds s' = open_fds (st w)" "bad_closes s' = bad_closes (st w)" "slots_but fd (st w) s'"
    and old: "old = (if ftype (slot (st w) fd) = FD_CLOSED then None else Some (slot (st w) fd))" and t': "pend w t' = None"
    and new: "ftype (slot s' fd) \<noteq> FD_STDIO" "entry_lref (slot s' fd) = None"
    and w': "st w' = s'" "pend w' = (pend w)(t' := map_option (Pair fd) old)" "pins w' = pins w"
    and x: "\<And>i. x \<noteq> Slot i" "\<And>i. x \<noteq> Pend i" "\<And>i. x \<noteq> Pin i" "w_own w x = entry_own (slot s' fd)" "w_dref w x = entry_dref (slot s' fd)"
      "entry_dref (slot s' fd) \<noteq> None \<Longrightarrow> w_via w x = host_fd (slot s' fd)"
    and hw: "\<And>t. w_own w' (Held t) = (if x = Held t then None else held w t)"
      "\<And>t. w_dref w' (Walk t) = (if x = Walk t then None else w_dref w (Walk t))"
      "\<And>t. x \<noteq> Walk t \<Longrightarrow> w_via w' (Walk t) = w_via w (Walk t)"
  shows "world_inv w'"
proof -
  let ?e = "slot s' fd" and ?o = "slot (st w) fd"
  have xl: "w_lref w x = None" using x(1-3) by (cases x) auto
  have sl: "slot s' i = slot (st w) i" if "i < 1024" "i \<noteq> fd" for i
    using s'(5) that by (simp add: slots_but_def)
  have l0: "ledger s' (w_own w) (w_lref w) (w_dref w) (w_via w)"
    using world_invD(2) [OF inv] ledger_same [OF s'(1-4), of "w_own w" "w_lref w" "w_dref w" "w_via w"] by simp
  have l1: "ledger s' ((w_own w)(Slot fd := None, Pend t' := w_own w (Slot fd))) ((w_lref w)(Slot fd := None, Pend t' := w_lref w (Slot fd)))
      ((w_dref w)(Slot fd := None, Pend t' := w_dref w (Slot fd))) ((w_via w)(Pend t' := w_via w (Slot fd)))"
    by (rule ledger_move [OF l0]) (use t' in simp_all)
  note l2 = ledger_move [OF l1, of x "Slot fd"]
  have oldv: "w_own w' (Pend t') = w_own w (Slot fd)" "w_lref w' (Pend t') = w_lref w (Slot fd)" "w_dref w' (Pend t') = w_dref w (Slot fd)"
    using fd old w' closed_entry_none [of ?o] by (cases "ftype ?o = FD_CLOSED"; simp)+
  show ?thesis
  proof (rule world_invI)
    show "fd_inv (st w')" using inv' w'(1) by simp
    show "ledger (st w')
      ((w_own w)(Slot fd := None, Pend t' := w_own w (Slot fd), x := None, Slot fd := w_own w x))
      ((w_lref w)(Slot fd := None, Pend t' := w_lref w (Slot fd), x := None, Slot fd := None))
      ((w_dref w)(Slot fd := None, Pend t' := w_dref w (Slot fd), x := None, Slot fd := w_dref w x))
      ((w_via w)(Pend t' := w_via w (Slot fd), Slot fd := w_via w x))"
      using l2 x(1,2) xl w'(1) by simp
    fix z
    show "w_own w' z = ((w_own w)(Slot fd := None, Pend t' := w_own w (Slot fd), x := None, Slot fd := w_own w x)) z"
      using x(1-4) fd sl w' oldv(1) hw(1) by (cases z) auto
    show "w_lref w' z = ((w_lref w)(Slot fd := None, Pend t' := w_lref w (Slot fd), x := None, Slot fd := None)) z"
      using x(1-3) fd sl w' new oldv(2) by (cases z) auto
    show "w_dref w' z = ((w_dref w)(Slot fd := None, Pend t' := w_dref w (Slot fd), x := None, Slot fd := w_dref w x)) z"
      using x(1-3,5) fd sl w' oldv(3) hw(2) by (cases z) auto
    show "w_via w' z = ((w_via w)(Pend t' := w_via w (Slot fd), Slot fd := w_via w x)) z"
      if "((w_lref w)(Slot fd := None, Pend t' := w_lref w (Slot fd), x := None, Slot fd := None)) z \<noteq> None \<or>
        ((w_dref w)(Slot fd := None, Pend t' := w_dref w (Slot fd), x := None, Slot fd := w_dref w x)) z \<noteq> None"
      using that x fd sl w' old hw(3) closed_entry_none [of ?o] by (cases z) (auto split: if_splits)
    show "entry_ok (slot (st w') i)" if "i < 1024" for i
      using that new(1) sl [of i] world_invD(3) [OF inv that] w'(1) by (cases "i = fd") (auto simp: entry_ok_def)
    show "entry_ok e \<and> ftype e \<noteq> FD_CLOSED" if "pend w' t = Some (f, e)" for t f e
      using that old w'(2) world_invD(3) [OF inv fd] world_invD(4) [OF inv] by (auto split: if_splits)
    show "finite (dom (pend w'))"
      using w'(2) world_invD(5) [OF inv] by (simp add: dom_fun_upd)
  qed
qed

lemma init_entry_slots_but: "length (fd_table s) = 1024 \<Longrightarrow> slots_but fd s (fd_init_entry al fd t h cleanup probe s)"
  by (simp add: slots_but_def slot_fd_init_entry)

lemma slots_but_trans: "slots_but fd s s' \<Longrightarrow> slots_but fd s' s'' \<Longrightarrow> slots_but fd s s''"
  by (simp add: slots_but_def)

lemma held_open:
  assumes "world_inv w" "held w t = Some h"
  shows "h \<ge> 0"
  using tracks_at [OF ledgerD(1) [OF world_invD(2) [OF assms(1)]], of "Ext (Held t)" h] assms(2)
    ledgerD(6) [OF world_invD(2) [OF assms(1)]] by (auto simp: host_ok_def)

lemma world_inv_fill_held:
  assumes inv: "world_inv w" and fd: "fd < 1024" and h: "held w t = Some h" and ty: "ty \<noteq> FD_CLOSED" "ty \<noteq> FD_STDIO"
    and oh: "only_host (st w) s1" and room: "fd_next_generation (st w) \<noteq> UINT64_MAX"
    and s2: "s2 = s1 \<or> s2 = emit c s1"
    and old: "old = (if ftype (slot (st w) fd) = FD_CLOSED then None else Some (slot (st w) fd))" and t': "pend w t' = None"
  shows "world_inv (w\<lparr>st := fd_init_entry al fd ty h cleanup probe s2, held := (held w)(t := None),
    pend := (pend w)(t' := map_option (Pair fd) old)\<rparr>)" (is "world_inv ?w")
proof -
  let ?s = "fd_init_entry al fd ty h cleanup probe s2"
  have i1: "fd_inv s2"
    using world_invD(1) [OF inv] only_host_inv [OF oh] s2 fd_inv_same [of "emit c s1" s1] by auto
  have sl: "slot s2 = slot (st w)"
    using s2 only_host_slot [OF oh] by auto
  have len: "length (fd_table s2) = 1024" using fd_invD(1) [OF i1] .
  have r2: "fd_next_generation s2 \<noteq> UINT64_MAX" "lifetimes s2 = lifetimes (st w)" "dir_streams s2 = dir_streams (st w)"
    "open_fds s2 = open_fds (st w)" "bad_closes s2 = bad_closes (st w)"
    using room oh s2 by (auto simp: only_host_def)
  have new: "ftype (slot ?s fd) = ty" "host_fd (slot ?s fd) = h" "lifetime (slot ?s fd) = None" "dir_ptr (slot ?s fd) = None"
    using fd_init_entry_slot [of fd s2] len fd by auto
  have own: "entry_own (slot ?s fd) = Some h" "entry_lref (slot ?s fd) = None" "entry_dref (slot ?s fd) = None"
    using new ty held_open [OF inv h] by (auto simp: entry_own_def entry_lref_def entry_dref_def)
  show ?thesis
  proof (rule world_inv_fill [OF inv fd, where x = "Held t" and s' = ?s and old = old and t' = t'])
    show "fd_inv ?s"
      by (rule fd_inv_init_entry [OF i1 fd ty(1) r2(1)])
    show "slots_but fd (st w) ?s"
      using init_entry_slots_but [OF len] sl by (simp add: slots_but_def)
  qed (use r2 new own ty h old t' in auto)
qed

lemma world_inv_fill_dir:
  assumes inv: "world_inv w" and fd: "fd < 1024" and h: "walks w t = Some (h, d)"
    and oh: "only_host (st w) s1" and room: "fd_next_generation (st w) \<noteq> UINT64_MAX"
    and s2: "s2 = s1 \<or> s2 = emit c s1"
    and old: "old = (if ftype (slot (st w) fd) = FD_CLOSED then None else Some (slot (st w) fd))" and t': "pend w t' = None"
  shows "world_inv (w\<lparr>st := install_dir fd (Some d) flags (fd_init_entry al fd FD_DIR h cleanup probe s2), walks := (walks w)(t := None),
    pend := (pend w)(t' := map_option (Pair fd) old)\<rparr>)" (is "world_inv ?w")
proof -
  let ?s = "fd_init_entry al fd FD_DIR h cleanup probe s2" and ?s' = "install_dir fd (Some d) flags (fd_init_entry al fd FD_DIR h cleanup probe s2)"
  have i1: "fd_inv s2"
    using world_invD(1) [OF inv] only_host_inv [OF oh] s2 fd_inv_same [of "emit c s1" s1] by auto
  have sl: "slot s2 = slot (st w)"
    using s2 only_host_slot [OF oh] by auto
  have len: "length (fd_table s2) = 1024" using fd_invD(1) [OF i1] .
  have r2: "fd_next_generation s2 \<noteq> UINT64_MAX" "lifetimes s2 = lifetimes (st w)" "dir_streams s2 = dir_streams (st w)"
    "open_fds s2 = open_fds (st w)" "bad_closes s2 = bad_closes (st w)"
    using room oh s2 by (auto simp: only_host_def)
  have i2: "fd_inv ?s"
    by (rule fd_inv_init_entry [OF i1 fd _ r2(1)]) (simp add: fd_types)
  then have len': "length (fd_table ?s) = 1024" by (rule fd_invD)
  have e: "slot ?s' fd = (slot ?s fd)\<lparr>dir_ptr := Some d, linux_flags := fd_flags_with_accmode (ftype (slot ?s fd)) flags\<rparr>"
    using len' fd by (simp add: install_dir_def slot_def)
  have new: "ftype (slot ?s' fd) = FD_DIR" "host_fd (slot ?s' fd) = h" "lifetime (slot ?s' fd) = None" "dir_ptr (slot ?s' fd) = Some d"
    using fd_init_entry_slot [of fd s2] len fd by (auto simp: e)
  have own: "entry_own (slot ?s' fd) = None" "entry_lref (slot ?s' fd) = None" "entry_dref (slot ?s' fd) = Some d"
    using new by (auto simp: entry_own_def entry_lref_def entry_dref_def)
  have fr: "lifetimes ?s' = lifetimes (st w)" "dir_streams ?s' = dir_streams (st w)" "open_fds ?s' = open_fds (st w)"
    "bad_closes ?s' = bad_closes (st w)"
    using r2 by (simp_all add: install_dir_def)
  show ?thesis
  proof (rule world_inv_fill [OF inv fd, where x = "Walk t" and s' = ?s' and old = old and t' = t'])
    show "fd_inv ?s'"
      unfolding install_dir_def by (rule fd_inv_set_slot [OF i2]) simp_all
    show "slots_but fd (st w) ?s'"
      using init_entry_slots_but [OF len, of fd al FD_DIR h cleanup probe] sl len'
      by (auto simp: slots_but_def install_dir_def slot_def)
  qed (use fr new own h old t' in \<open>auto simp: fd_types\<close>)
qed

end
