(* ===== verification/Fd_World_Steps.thy ===== *)
theory Fd_World_Steps
  imports Fd_World_Laws
begin

text \<open>
  The remaining windows: clearing a slot, borrowing its descriptor, sharing its directory stream and
  writing its flags. With them every step of the shared table keeps the invariant, and so does every run.
\<close>

section \<open>Windows that keep a slot's type, descriptor and references\<close>

definition same_links :: "fd_state \<Rightarrow> fd_state \<Rightarrow> bool" where
  "same_links s s' \<longleftrightarrow> length (fd_table s') = length (fd_table s) \<and> fd_free_bitmap s' = fd_free_bitmap s \<and> urandom s' = urandom s \<and>
     fd_next_generation s' = fd_next_generation s \<and> lifetimes s' = lifetimes s \<and> dir_streams s' = dir_streams s \<and>
     open_fds s' = open_fds s \<and> bad_closes s' = bad_closes s \<and>
     (\<forall>i<1024. ftype (slot s' i) = ftype (slot s i) \<and> host_fd (slot s' i) = host_fd (slot s i) \<and>
        lifetime (slot s' i) = lifetime (slot s i) \<and> dir_ptr (slot s' i) = dir_ptr (slot s i) \<and>
        generation (slot s' i) = generation (slot s i))"

lemma same_links_refl [simp]: "same_links s s"
  by (simp add: same_links_def)

lemma same_links_trans [trans]: "same_links s s' \<Longrightarrow> same_links s' s'' \<Longrightarrow> same_links s s''"
  by (simp add: same_links_def)

lemma same_links_fold:
  assumes "\<And>x s. same_links s (f x s)"
  shows "same_links s (fold f xs s)"
proof (induction xs arbitrary: s)
  case (Cons x xs)
  show ?case using same_links_trans [OF assms Cons.IH] by simp
qed simp

lemma same_links_flags: "same_links s (set_slot fd ((slot s fd)\<lparr>linux_flags := fl\<rparr>) s)"
  by (cases "fd < length (fd_table s)") (auto simp: same_links_def slot_def nth_list_update list_update_beyond not_less)

lemma same_links_sweep: "same_links s (fd_for_each_alias_locked fd gen (set_shadow_bits_slot m v) s)"
  unfolding fd_for_each_alias_locked_def Let_def set_shadow_bits_slot_def
  by (auto simp: same_links_flags simp del: fd_sizes intro!: same_links_fold)

lemma same_links_publish: "same_links s (fd_publish_linux_flags fd fl s)"
  by (simp add: fd_publish_linux_flags_def same_links_flags)

lemma same_linksD:
  assumes "same_links s s'" "i < 1024"
  shows "ftype (slot s' i) = ftype (slot s i)" "host_fd (slot s' i) = host_fd (slot s i)" "lifetime (slot s' i) = lifetime (slot s i)"
    "dir_ptr (slot s' i) = dir_ptr (slot s i)" "generation (slot s' i) = generation (slot s i)"
  using assms by (simp_all add: same_links_def)

lemma same_links_inv: "same_links s s' \<Longrightarrow> fd_inv s \<Longrightarrow> fd_inv s'"
  by (rule fd_inv_same_types [of s]) (simp_all add: same_links_def fd_invD(1))

lemma same_links_ledger: "same_links s s' \<Longrightarrow> ledger s' own lref dref via = ledger s own lref dref via"
  by (rule ledger_same) (simp_all add: same_links_def)

lemma same_links_entry:
  assumes "same_links s s'" "i < 1024"
  shows "entry_own (slot s' i) = entry_own (slot s i)" "entry_lref (slot s' i) = entry_lref (slot s i)"
    "entry_dref (slot s' i) = entry_dref (slot s i)" "entry_ok (slot s' i) = entry_ok (slot s i)"
  unfolding entry_own_def entry_lref_def entry_dref_def entry_ok_def by (simp_all only: same_linksD [OF assms])

lemma world_inv_same_links:
  assumes inv: "world_inv w" and sl: "same_links (st w) s'"
  shows "world_inv (w\<lparr>st := s'\<rparr>)" (is "world_inv ?w")
proof (rule world_invI)
  show "fd_inv (st ?w)"
    using same_links_inv [OF sl world_invD(1) [OF inv]] by simp
  show "ledger (st ?w) (w_own w) (w_lref w) (w_dref w) (w_via w)"
    using world_invD(2) [OF inv] same_links_ledger [OF sl, of "w_own w" "w_lref w" "w_dref w" "w_via w"] by simp
  fix z
  show "w_own ?w z = w_own w z" "w_lref ?w z = w_lref w z" "w_dref ?w z = w_dref w z"
    by (cases z; simp add: same_links_entry [OF sl])+
  show "w_via ?w z = w_via w z" if "w_lref w z \<noteq> None \<or> w_dref w z \<noteq> None"
    using that by (cases z) (simp_all add: same_linksD [OF sl] split: if_splits)
  show "entry_ok (slot (st ?w) i)" if "i < 1024" for i
    using that world_invD(3) [OF inv that] by (simp add: same_links_entry [OF sl])
  show "entry_ok e \<and> ftype e \<noteq> FD_CLOSED" if "pend ?w t = Some (f, e)" for t f e
    using world_invD(4) [OF inv, of t f e] that by simp
qed (use world_invD(5) [OF inv] in simp)

section \<open>Clearing a slot\<close>

lemma world_inv_clear:
  assumes inv: "world_inv w" and fd: "fd < 1024" and y: "\<And>i. y \<noteq> Slot i" "w_own w y = None" "w_lref w y = None" "w_dref w y = None"
    and w': "st w' = snd (fd_mark_closed_unlocked fd (st w))"
    and eqs: "\<And>z. (\<And>i. z \<noteq> Slot i) \<Longrightarrow> w_own w' z = ((w_own w)(y := w_own w (Slot fd))) z"
      "\<And>z. (\<And>i. z \<noteq> Slot i) \<Longrightarrow> w_lref w' z = ((w_lref w)(y := w_lref w (Slot fd))) z"
      "\<And>z. (\<And>i. z \<noteq> Slot i) \<Longrightarrow> w_dref w' z = ((w_dref w)(y := w_dref w (Slot fd))) z"
      "\<And>z. (\<And>i. z \<noteq> Slot i) \<Longrightarrow> w_lref w' z \<noteq> None \<or> w_dref w' z \<noteq> None \<Longrightarrow> w_via w' z = ((w_via w)(y := w_via w (Slot fd))) z"
    and pend: "\<And>t f e. pend w' t = Some (f, e) \<Longrightarrow> entry_ok e \<and> ftype e \<noteq> FD_CLOSED" "finite (dom (pend w'))"
  shows "world_inv w'"
proof -
  let ?own = "(w_own w)(Slot fd := None, y := w_own w (Slot fd))" and ?lref = "(w_lref w)(Slot fd := None, y := w_lref w (Slot fd))"
  let ?dref = "(w_dref w)(Slot fd := None, y := w_dref w (Slot fd))" and ?via = "(w_via w)(y := w_via w (Slot fd))"
  note len = fd_invD(1) [OF world_invD(1) [OF inv]]
  note sl = mark_closed_slot [OF len fd, folded w']
  have l: "ledger (st w') ?own ?lref ?dref ?via"
  proof -
    have "ledger (st w) ?own ?lref ?dref ?via"
      by (rule ledger_move [OF world_invD(2) [OF inv]]) (use y in auto)
    then show ?thesis
      using ledger_same [of "st w'" "st w" ?own ?lref ?dref ?via] w' by simp
  qed
  have at: "w_own w' (Slot i) = (if i = fd then None else w_own w (Slot i))" "w_lref w' (Slot i) = (if i = fd then None else w_lref w (Slot i))"
    "w_dref w' (Slot i) = (if i = fd then None else w_dref w (Slot i))" "i \<noteq> fd \<Longrightarrow> w_via w' (Slot i) = w_via w (Slot i)" for i
    using sl(2,7) by (auto simp: entry_own_def entry_lref_def entry_dref_def fd_types)
  have other: "z \<noteq> Slot i" if "\<nexists>i. z = Slot i" for z i
    using that by blast
  show ?thesis
  proof (rule world_invI [OF _ l])
    show "fd_inv (st w')"
      using fd_inv_mark_closed [OF world_invD(1) [OF inv] fd] w' by simp
    fix z
    show "w_own w' z = ?own z"
      using at(1) eqs(1) [of z] y(1) by (cases "\<exists>i. z = Slot i") auto
    show "w_lref w' z = ?lref z"
      using at(2) eqs(2) [of z] y(1) by (cases "\<exists>i. z = Slot i") auto
    show "w_dref w' z = ?dref z"
      using at(3) eqs(3) [of z] y(1) by (cases "\<exists>i. z = Slot i") auto
    show "w_via w' z = ?via z" if "?lref z \<noteq> None \<or> ?dref z \<noteq> None"
      using that at(4) eqs(2-4) [of z] y(1) by (cases "\<exists>i. z = Slot i") (auto split: if_splits)
    show "entry_ok (slot (st w') i)" if "i < 1024" for i
      using that sl(2) sl(7) [of i] world_invD(3) [OF inv that] by (cases "i = fd") (auto simp: entry_ok_def fd_types)
  qed (use pend in blast)+
qed

lemma snapshot_and_closeD:
  assumes "fd_snapshot_and_close fd s = (Some snap, s')"
  shows "RANGE_CHECK fd" "snap = slot s (nat fd)" "ftype (slot s (nat fd)) \<noteq> FD_CLOSED" "s' = snd (fd_mark_closed_unlocked (nat fd) s)"
  using assms by (auto simp: fd_snapshot_and_close_def fd_snapshot_locked_def split: if_splits)

lemma RANGE_CHECK_nat: "RANGE_CHECK fd \<Longrightarrow> nat fd < 1024"
  by (auto simp: RANGE_CHECK_def)

lemma world_inv_close_slot:
  assumes inv: "world_inv w" and c: "fd_snapshot_and_close fd (st w) = (Some snap, s')" and t: "pend w t = None"
  shows "world_inv (w\<lparr>st := s', pend := (pend w)(t \<mapsto> (nat fd, snap))\<rparr>)" (is "world_inv ?w")
proof (rule world_inv_clear [OF inv, where y = "Pend t" and fd = "nat fd"])
  note c' = snapshot_and_closeD [OF c]
  show fd: "nat fd < 1024" using RANGE_CHECK_nat [OF c'(1)] .
  show "st ?w = snd (fd_mark_closed_unlocked (nat fd) (st w))" using c'(4) by simp
  show "entry_ok e \<and> ftype e \<noteq> FD_CLOSED" if "pend ?w u = Some (f, e)" for u f e
    using that c'(2,3) world_invD(3) [OF inv fd] world_invD(4) [OF inv, of u f e] by (auto split: if_splits)
  fix z assume z: "\<And>i. z \<noteq> Slot i"
  show "w_own ?w z = ((w_own w)(Pend t := w_own w (Slot (nat fd)))) z" "w_lref ?w z = ((w_lref w)(Pend t := w_lref w (Slot (nat fd)))) z"
    "w_dref ?w z = ((w_dref w)(Pend t := w_dref w (Slot (nat fd)))) z" "w_via ?w z = ((w_via w)(Pend t := w_via w (Slot (nat fd)))) z"
    using z fd c'(2) by (cases z; simp)+
qed (use t world_invD(5) [OF inv] in simp_all)

text \<open>A descriptor leaves its slot as a bare number: the slot had no lifetime and no stream.\<close>

lemma world_inv_take:
  assumes inv: "world_inv w" and fd: "fd < 1024" and e: "entry_lref (slot (st w) fd) = None" "entry_dref (slot (st w) fd) = None"
    and t: "held w t = None"
  shows "world_inv (w\<lparr>st := snd (fd_mark_closed_unlocked fd (st w)), held := (held w)(t := entry_own (slot (st w) fd))\<rparr>)" (is "world_inv ?w")
proof (rule world_inv_clear [OF inv fd, where y = "Held t"])
  show "entry_ok e \<and> ftype e \<noteq> FD_CLOSED" if "pend ?w u = Some (f, e)" for u f e
    using that world_invD(4) [OF inv, of u f e] by simp
  fix z assume z: "\<And>i. z \<noteq> Slot i"
  show "w_own ?w z = ((w_own w)(Held t := w_own w (Slot fd))) z" "w_lref ?w z = ((w_lref w)(Held t := w_lref w (Slot fd))) z"
    "w_dref ?w z = ((w_dref w)(Held t := w_dref w (Slot fd))) z"
    using z fd e by (cases z; simp)+
  show "w_lref ?w z \<noteq> None \<or> w_dref ?w z \<noteq> None \<Longrightarrow> w_via ?w z = ((w_via w)(Held t := w_via w (Slot fd))) z"
    using z by (cases z) auto
qed (use t world_invD(5) [OF inv] in simp_all)

lemma world_inv_take_pinned:
  assumes inv: "world_inv w" and fd: "fd < 1024" and e: "entry_own (slot (st w) fd) = None" "entry_dref (slot (st w) fd) = None"
    and t: "pins w t = None" and h: "h = host_fd (slot (st w) fd)"
  shows "world_inv (w\<lparr>st := snd (fd_mark_closed_unlocked fd (st w)),
    pins := (pins w)(t := map_option (Pair h) (entry_lref (slot (st w) fd)))\<rparr>)" (is "world_inv ?w")
proof (rule world_inv_clear [OF inv fd, where y = "Pin t"])
  show "entry_ok e \<and> ftype e \<noteq> FD_CLOSED" if "pend ?w u = Some (f, e)" for u f e
    using that world_invD(4) [OF inv, of u f e] by simp
  fix z assume z: "\<And>i. z \<noteq> Slot i"
  show "w_own ?w z = ((w_own w)(Pin t := w_own w (Slot fd))) z" "w_dref ?w z = ((w_dref w)(Pin t := w_dref w (Slot fd))) z"
    using z fd e by (cases z; simp)+
  show "w_lref ?w z = ((w_lref w)(Pin t := w_lref w (Slot fd))) z"
    using z fd by (cases z) (auto simp: option.map_comp o_def option.map_ident)
  show "w_lref ?w z \<noteq> None \<or> w_dref ?w z \<noteq> None \<Longrightarrow> w_via ?w z = ((w_via w)(Pin t := w_via w (Slot fd))) z"
    using z h by (cases z) (auto split: if_splits option.splits)
qed (use t world_invD(5) [OF inv] in simp_all)

lemma close_regularD:
  assumes "fd_close_regular_relaxed H fd s = (Some h, s')"
  shows "RANGE_CHECK fd" "ftype (slot s (nat fd)) = FD_REGULAR" "lifetime (slot s (nat fd)) = None" "h = host_fd (slot s (nat fd))"
    "s' = snd (fd_mark_closed_unlocked (nat fd) s)"
  using assms by (auto simp: fd_close_regular_relaxed_def Let_def split: if_splits)

lemma world_inv_close_regular:
  assumes inv: "world_inv w" and c: "fd_close_regular_relaxed H fd (st w) = (Some h, s')" and t: "held w t = None"
  shows "world_inv (w\<lparr>st := s', held := (held w)(t := if h < 0 then None else Some h)\<rparr>)"
proof -
  note c' = close_regularD [OF c]
  have "entry_own (slot (st w) (nat fd)) = (if h < 0 then None else Some h)" "entry_lref (slot (st w) (nat fd)) = None"
    "entry_dref (slot (st w) (nat fd)) = None"
    using c' by (simp_all add: entry_own_def entry_lref_def entry_dref_def fd_types)
  then show ?thesis
    using world_inv_take [OF inv RANGE_CHECK_nat [OF c'(1)] _ _ t] c'(5) by simp
qed

text \<open>The number of stray retirements is no part of the invariant.\<close>

lemma world_inv_stray: "world_inv (w\<lparr>stray := n\<rparr>) = world_inv w"
proof -
  have "w_own (w\<lparr>stray := n\<rparr>) x = w_own w x" "w_lref (w\<lparr>stray := n\<rparr>) x = w_lref w x" "w_dref (w\<lparr>stray := n\<rparr>) x = w_dref w x"
    "w_via (w\<lparr>stray := n\<rparr>) x = w_via w x" for x
    by (cases x; simp)+
  then have "w_own (w\<lparr>stray := n\<rparr>) = w_own w" "w_lref (w\<lparr>stray := n\<rparr>) = w_lref w" "w_dref (w\<lparr>stray := n\<rparr>) = w_dref w"
    "w_via (w\<lparr>stray := n\<rparr>) = w_via w"
    by (simp_all add: fun_eq_iff)
  then show ?thesis by (simp add: world_inv_def)
qed

lemma world_inv_retire:
  assumes inv: "world_inv w" and fd: "fd < 1024" and ty: "ftype (slot (st w) fd) \<noteq> FD_CLOSED" and own: "\<not> shared_host (slot (st w) fd)"
    and h: "host_fd (slot (st w) fd) = h" and m: "fd_mark_closed_unlocked fd (st w) = (l, s')" and t: "held w t = None" "pins w t' = None"
  shows "world_inv (w\<lparr>st := s', held := (held w)(t := if l = None \<and> h \<ge> 0 then Some h else None),
    pins := (pins w)(t' := map_option (Pair h) l)\<rparr>)"
proof -
  have l: "l = lifetime (slot (st w) fd)" "s' = snd (fd_mark_closed_unlocked fd (st w))"
    using mark_closed_fields(6) [of fd "st w"] m by simp_all
  have d: "entry_dref (slot (st w) fd) = None" and lr: "entry_lref (slot (st w) fd) = l"
    using ty own l by (auto simp: entry_dref_def entry_lref_def shared_host_def)
  have unchanged: "(held w)(t := None) = held w" "(pins w)(t' := None) = pins w"
    using t by (simp_all add: fun_eq_iff)
  show ?thesis
  proof (cases l)
    case None
    then have "entry_own (slot (st w) fd) = (if h \<ge> 0 then Some h else None)"
      using ty own l h by (auto simp: entry_own_def shared_host_def)
    then show ?thesis
      using world_inv_take [OF inv fd _ d t(1)] lr None l(2) unchanged by simp
  next
    case (Some a)
    then have "entry_own (slot (st w) fd) = None"
      using l by (simp add: entry_own_def)
    then show ?thesis
      using world_inv_take_pinned [OF inv fd _ d t(2) h [symmetric]] lr Some l(2) unchanged by simp
  qed
qed

section \<open>Borrowing\<close>

text \<open>The host descriptor of an open slot is open, whoever owns it.\<close>

lemma world_slot_open:
  assumes inv: "world_inv w" and fd: "fd < 1024" and ty: "ftype (slot (st w) fd) \<noteq> FD_CLOSED" and h: "host_fd (slot (st w) fd) \<ge> 0"
  shows "host_fd (slot (st w) fd) \<in> open_fds (st w)"
proof -
  let ?e = "slot (st w) fd"
  note led = world_invD(2) [OF inv]
  have "ftype ?e = FD_STDIO \<or> (\<exists>l. lifetime ?e = Some l) \<or> (\<exists>d. ftype ?e = FD_DIR \<and> dir_ptr ?e = Some d) \<or>
    entry_own ?e = Some (host_fd ?e)"
    using ty h by (auto simp: entry_own_def)
  then consider (stdio) "ftype ?e = FD_STDIO" | (life) l where "lifetime ?e = Some l"
    | (dir) d where "ftype ?e = FD_DIR" "dir_ptr ?e = Some d" | (own) "entry_own ?e = Some (host_fd ?e)"
    by blast
  then show ?thesis
  proof cases
    case stdio
    then show ?thesis
      using world_invD(3) [OF inv fd] ledgerD(6) [OF led] by (auto simp: entry_ok_def host_ok_def)
  next
    case life
    then have "w_lref w (Slot fd) = Some l" using ty fd by (simp add: entry_lref_def)
    then show ?thesis
      using ledger_lref [OF led, of "Slot fd" l] ledger_life_open [OF led, of l] by auto
  next
    case dir
    then have "w_dref w (Slot fd) = Some d" using fd by (simp add: entry_dref_def)
    then show ?thesis
      using ledger_dref [OF led, of "Slot fd" d] ledger_stream_open [OF led, of d] by auto
  next
    case own
    then show ?thesis
      using tracks_at [OF ledgerD(1) [OF led], of "Ext (Slot fd)" "host_fd ?e"] fd by simp
  qed
qed

lemma world_pin_open:
  assumes inv: "world_inv w" and p: "pins w t = Some (h, l)"
  shows "h \<in> open_fds (st w)"
  using ledger_lref [OF world_invD(2) [OF inv], of "Pin t" l] ledger_life_open [OF world_invD(2) [OF inv], of l] p by auto

lemma acquire_passD:
  assumes "acquire_pass fd spare s = (Acq_Ok h l, spare', s')"
  shows "ftype (slot s (nat fd)) \<noteq> FD_CLOSED" "h = host_fd (slot s (nat fd))" "h \<ge> 0"
    "lifetime (slot s (nat fd)) = Some l \<and> (\<exists>obj. lifetimes s l = Some obj \<and> s' = s\<lparr>lifetimes := (lifetimes s)(l \<mapsto> obj\<lparr>refs := refs obj + 1\<rparr>)\<rparr>) \<or>
     lifetime (slot s (nat fd)) = None \<and> spare = Some l \<and>
     s' = set_slot (nat fd) ((slot s (nat fd))\<lparr>lifetime := Some l\<rparr>)
       ((case entry_dref (slot s (nat fd)) of Some d \<Rightarrow> dir_stream_ref_locked d s | None \<Rightarrow> s)
          \<lparr>lifetimes := (lifetimes s)(l \<mapsto> \<lparr>refs = 2, l_host_fd = h, l_type = ftype (slot s (nat fd)), l_dir = entry_dref (slot s (nat fd))\<rparr>)\<rparr>)"
proof -
  let ?e = "slot s (nat fd)"
  have p: "ftype ?e \<noteq> FD_CLOSED" "h = host_fd ?e" "h \<ge> 0" "fd_lifetime_pin_spare fd spare None s = (Some l, spare', s')"
    using assms by (auto simp: acquire_pass_def fd_snapshot_locked_def not_less split: if_splits option.splits prod.splits)
  then show "ftype ?e \<noteq> FD_CLOSED" "h = host_fd ?e" "h \<ge> 0" by simp_all
  have st: "lifetimes (case d of Some ds \<Rightarrow> dir_stream_ref_locked ds s | None \<Rightarrow> s) = lifetimes s" for d
    by (simp add: dir_stream_ref_locked_def split: option.split)
  show "lifetime ?e = Some l \<and> (\<exists>obj. lifetimes s l = Some obj \<and> s' = s\<lparr>lifetimes := (lifetimes s)(l \<mapsto> obj\<lparr>refs := refs obj + 1\<rparr>)\<rparr>) \<or>
     lifetime ?e = None \<and> spare = Some l \<and>
     s' = set_slot (nat fd) (?e\<lparr>lifetime := Some l\<rparr>)
       ((case entry_dref ?e of Some d \<Rightarrow> dir_stream_ref_locked d s | None \<Rightarrow> s)
          \<lparr>lifetimes := (lifetimes s)(l \<mapsto> \<lparr>refs = 2, l_host_fd = h, l_type = ftype ?e, l_dir = entry_dref ?e\<rparr>)\<rparr>)"
  proof (cases "lifetime ?e")
    case (Some a)
    then show ?thesis
      using p(1,2,3,4) by (auto simp: fd_lifetime_pin_spare_def Let_def split: if_splits option.splits)
  next
    case None
    then have "spare = Some l"
      using p(4) by (auto simp: fd_lifetime_pin_spare_def Let_def split: if_splits option.splits prod.splits)
    moreover have "RANGE_CHECK fd"
      using p(4) by (auto simp: fd_lifetime_pin_spare_def split: if_splits)
    ultimately show ?thesis
      using p None st [of "entry_dref ?e"]
      by (auto simp: fd_lifetime_pin_spare_def Let_def entry_dref_def set_slot_def not_less split: if_splits)
  qed
qed

lemma ledger_set_slot [simp]: "ledger (set_slot fd e s) own lref dref via = ledger s own lref dref via"
  by (rule ledger_same) simp_all

lemma world_inv_acquire:
  assumes inv: "world_inv w" and r: "RANGE_CHECK fd" and spare: "\<And>a. spare = Some a \<Longrightarrow> lifetimes (st w) a = None"
    and a: "acquire_pass fd spare (st w) = (Acq_Ok h l, spare', s')" and t: "pins w t = None"
  shows "world_inv (w\<lparr>st := s', pins := (pins w)(t \<mapsto> (h, l))\<rparr>)" (is "world_inv ?w")
proof -
  let ?x = "Slot (nat fd)" and ?y = "Pin t" and ?e = "slot (st w) (nat fd)"
  note a' = acquire_passD [OF a] and fd = RANGE_CHECK_nat [OF r]
  note len = fd_invD(1) [OF world_invD(1) [OF inv]]
  have l0: "ledger (st w) (w_own w) (w_lref w) (w_dref w) ((w_via w)(?y := h))"
    by (rule ledger_via [OF world_invD(2) [OF inv]]) (use t in auto)
  from a'(4) show ?thesis
  proof (elim disjE conjE exE)
    fix obj assume lt: "lifetime ?e = Some l" and obj: "lifetimes (st w) l = Some obj"
      and s': "s' = (st w)\<lparr>lifetimes := (lifetimes (st w))(l \<mapsto> obj\<lparr>refs := refs obj + 1\<rparr>)\<rparr>"
    show ?thesis
    proof (rule world_inv_same_table [OF inv])
      show "ledger (st ?w) (w_own w) ((w_lref w)(?y \<mapsto> l)) (w_dref w) ((w_via w)(?y := h))"
        using ledger_life_ref [OF l0, of ?x l ?y obj] lt obj t a'(1,2) fd s' by (simp add: entry_lref_def)
      fix z
      show "w_own ?w z = w_own w z" "w_lref ?w z = ((w_lref w)(?y \<mapsto> l)) z" "w_dref ?w z = w_dref w z"
        "w_via ?w z = ((w_via w)(?y := h)) z"
        by (cases z; simp add: s')+
    qed (simp_all add: s')
  next
    let ?d = "entry_dref ?e"
    let ?s1 = "(case ?d of Some d \<Rightarrow> dir_stream_ref_locked d (st w) | None \<Rightarrow> st w)
      \<lparr>lifetimes := (lifetimes (st w))(l \<mapsto> \<lparr>refs = 2, l_host_fd = h, l_type = ftype ?e, l_dir = ?d\<rparr>)\<rparr>"
    assume lt: "lifetime ?e = None" and sp: "spare = Some l" and s': "s' = set_slot (nat fd) (?e\<lparr>lifetime := Some l\<rparr>) ?s1"
    have tab: "same_table (st w) ?s1"
      by (simp add: same_table_def dir_stream_ref_locked_def split: option.split)
    have i1: "fd_inv ?s1"
      using world_invD(1) [OF inv] fd_inv_same [of ?s1 "st w"] tab by (simp add: same_table_def)
    have sl: "slot s' i = (if i = nat fd then ?e\<lparr>lifetime := Some l\<rparr> else slot (st w) i)" if "i < 1024" for i
      using tab len fd that by (simp add: s' slot_def same_table_def)
    have led: "ledger ?s1 ((w_own w)(?x := None)) ((w_lref w)(?x \<mapsto> l, ?y \<mapsto> l)) (w_dref w) ((w_via w)(?y := h))"
    proof -
      have own: "w_own w ?x = Some h" if "?d = None" "ftype ?e \<noteq> FD_STDIO"
        using that lt fd a'(1-3) by (auto simp: entry_own_def entry_dref_def split: if_splits)
      have noown: "w_own w ?x = None" if "?d \<noteq> None \<or> ftype ?e = FD_STDIO"
        using that by (auto simp: entry_own_def entry_dref_def split: if_splits)
      have std: "h \<in> launcher" if "ftype ?e = FD_STDIO"
        using that world_invD(3) [OF inv fd] a'(2) by (simp add: entry_ok_def)
      show ?thesis
        using ledger_life_new [OF l0 spare [OF sp], of ?x ?y "ftype ?e" ?d] own noown std lt t fd a'(2)
        by (simp add: entry_lref_def)
    qed
    show ?thesis
    proof (rule world_invI)
      show "fd_inv (st ?w)"
        using fd_inv_set_slot [OF i1, of "?e\<lparr>lifetime := Some l\<rparr>" "nat fd"] same_table_slot [OF tab] by (simp add: s')
      show "ledger (st ?w) ((w_own w)(?x := None)) ((w_lref w)(?x \<mapsto> l, ?y \<mapsto> l)) (w_dref w) ((w_via w)(?y := h))"
        using led by (simp add: s')
      fix z
      show "w_own ?w z = ((w_own w)(?x := None)) z" "w_lref ?w z = ((w_lref w)(?x \<mapsto> l, ?y \<mapsto> l)) z" "w_dref ?w z = w_dref w z"
        using sl fd a'(1) by (cases z; simp add: entry_own_def entry_lref_def entry_dref_def)+
      show "w_via ?w z = ((w_via w)(?y := h)) z" if "((w_lref w)(?x \<mapsto> l, ?y \<mapsto> l)) z \<noteq> None \<or> w_dref w z \<noteq> None"
        using that sl fd by (cases z) (auto split: if_splits)
      show "entry_ok (slot (st ?w) i)" if "i < 1024" for i
        using sl [OF that] world_invD(3) [OF inv that] by (auto simp: entry_ok_def)
      show "entry_ok e \<and> ftype e \<noteq> FD_CLOSED" if "pend ?w u = Some (f, e)" for u f e
        using world_invD(4) [OF inv, of u f e] that by simp
    qed (use world_invD(5) [OF inv] in simp)
  qed
qed

lemma world_inv_share_dir:
  assumes inv: "world_inv w" and d: "fd_snapshot_and_dup_or_share_dir dup fd (st w) = (h, True, Some out, s')" "dir_ptr out = Some d"
    and t: "walks w t = None"
  shows "world_inv (w\<lparr>st := s', walks := (walks w)(t \<mapsto> (h, d))\<rparr>)" (is "world_inv ?w")
proof (rule world_inv_same_table [OF inv])
  let ?e = "slot (st w) (nat fd)"
  have d': "RANGE_CHECK fd" "out = ?e" "ftype ?e = FD_DIR" "h = host_fd ?e" "s' = dir_stream_ref_locked d (st w)"
    using d by (auto simp: fd_snapshot_and_dup_or_share_dir_def fd_snapshot_locked_def Let_def split: if_splits option.splits prod.splits)
  have fd: "nat fd < 1024" using RANGE_CHECK_nat [OF d'(1)] .
  have l0: "ledger (st w) (w_own w) (w_lref w) (w_dref w) ((w_via w)(Walk t := h))"
    by (rule ledger_via [OF world_invD(2) [OF inv]]) (use t in auto)
  show "ledger (st ?w) (w_own w) (w_lref w) ((w_dref w)(Walk t \<mapsto> d)) ((w_via w)(Walk t := h))"
    using ledger_dir_ref [OF l0, of "Slot (nat fd)" d "Walk t"] d(2) d' fd t by (simp add: entry_dref_def)
  fix z
  show "w_own ?w z = w_own w z" "w_lref ?w z = w_lref w z" "w_dref ?w z = ((w_dref w)(Walk t \<mapsto> d)) z"
    "w_via ?w z = ((w_via w)(Walk t := h)) z"
    by (cases z; simp add: d'(5))+
  show "same_table (st w) (st ?w)" by (simp add: d'(5))
qed simp_all

lemma world_inv_dup:
  assumes inv: "world_inv w" and d: "fd_snapshot_and_dup_or_share_dir (Some h) fd (st w) = (h, False, Some out, s')" and h: "h \<ge> 0"
    "host_flags (st w) h = None" and t: "held w t = None"
  shows "world_inv (w\<lparr>st := s', held := (held w)(t \<mapsto> h)\<rparr>)"
proof -
  let ?e = "slot (st w) (nat fd)"
  have d': "RANGE_CHECK fd" "ftype ?e \<noteq> FD_CLOSED" "host_fd ?e \<ge> 0"
    "s' = (st w)\<lparr>host_flags := (host_flags (st w))(h := host_flags (st w) (host_fd ?e))\<rparr>"
    using d h(1) by (auto simp: fd_snapshot_and_dup_or_share_dir_def fd_snapshot_locked_def Let_def host_dup_def
      split: if_splits option.splits prod.splits)
  obtain fl where "host_flags (st w) (host_fd ?e) = Some fl"
    using world_slot_open [OF inv RANGE_CHECK_nat [OF d'(1)] d'(2,3)] by (auto simp: open_fds_def)
  then show ?thesis
    using world_inv_open [OF inv h(2,1) t, of fl] d'(4) by simp
qed

section \<open>Publishing\<close>

lemma find_free_closed:
  assumes "fd_inv s" "fd_bitmap_find_free minfd s = Some fd"
  shows "fd < 1024" "ftype (slot s fd) = FD_CLOSED"
  using assms fd_bitmap_find_free_lowest [OF fd_invD(2) [OF assms(1)]] fd_invD(5) [OF assms(1)]
  by (auto simp: lowest_free_Some_iff)

lemma alloc_lockedD:
  assumes "fd_alloc_locked H al minfd ty h cleanup probe s = (r, s')" "fd_inv s"
  shows "r = None \<and> s' = fd_probe_rollback H probe h s \<or>
    (\<exists>fd. r = Some fd \<and> fd < 1024 \<and> ftype (slot s fd) = FD_CLOSED \<and> s' = fd_init_entry al fd ty h cleanup probe s)"
proof (cases "fd_bitmap_find_free minfd s")
  case None
  then show ?thesis using assms by (simp add: fd_alloc_locked_def)
next
  case (Some fd)
  then have "(r, s') = (if fd \<ge> rlimit_nofile_cur H then (None, fd_probe_rollback H probe h s) else (Some fd, fd_init_entry al fd ty h cleanup probe s))"
    using assms(1) by (simp add: fd_alloc_locked_def)
  then show ?thesis
    using find_free_closed [OF assms(2) Some] by (cases "rlimit_nofile_cur H \<le> fd") simp_all
qed

lemma world_free_pend:
  assumes "world_inv w"
  shows "\<exists>t. pend w t = None"
  using ex_new_if_finite [OF infinite_UNIV_nat world_invD(5) [OF assms]] unfolding domIff not_not .

lemma world_inv_publish:
  assumes inv: "world_inv w" and h: "held w t = Some h" and ty: "ty \<noteq> FD_CLOSED" "ty \<noteq> FD_STDIO"
    and r: "fd_alloc_from H al minfd ty h cleanup (st w) = (r, s')" and room: "fd_next_generation (st w) \<noteq> UINT64_MAX"
  shows "world_inv (w\<lparr>st := s', held := (if r = None then held w else (held w)(t := None))\<rparr>)"
proof -
  obtain probe s1 where p: "fd_probe_host H al ty h (st w) = (probe, s1)" by force
  have oh: "only_host (st w) s1" using only_host_probe [of "st w" H al ty h] p by simp
  have l: "fd_alloc_locked H al minfd ty h cleanup probe s1 = (r, s')" and i1: "fd_inv s1"
    using r p world_invD(1) [OF inv] only_host_inv [OF oh] by (simp_all add: fd_alloc_from_def)
  from alloc_lockedD [OF l i1] show ?thesis
  proof (elim disjE conjE exE)
    assume "r = None" "s' = fd_probe_rollback H probe h s1"
    then show ?thesis
      using world_inv_only_host [OF inv only_host_trans [OF oh only_host_rollback]] by simp
  next
    fix fd assume fd: "r = Some fd" "fd < 1024" "ftype (slot s1 fd) = FD_CLOSED" "s' = fd_init_entry al fd ty h cleanup probe s1"
    then have c: "ftype (slot (st w) fd) = FD_CLOSED" using only_host_slot [OF oh] by simp
    obtain t' where t': "pend w t' = None" using world_free_pend [OF inv] by blast
    then have "(pend w)(t' := None) = pend w" by auto
    then show ?thesis
      using world_inv_fill_held [OF inv fd(2) h ty oh room, of s1 undefined None t' al cleanup probe] c t' fd(1,4) by simp
  qed
qed

lemma replace_lockedD:
  assumes "replace_locked al fd ty h cleanup probe s = (old, s')"
  shows "\<exists>s2. (s2 = s \<or> s2 = emit (epoll_note_fd_closed fd (ofd_id (slot s fd))) s) \<and> s' = fd_init_entry al fd ty h cleanup probe s2"
    "old = (if ftype (slot s fd) = FD_CLOSED then None else Some (slot s fd))"
  using assms by (auto simp: replace_locked_def Let_def split: if_splits)

lemma rlimit_le [simp]: "rlimit_nofile_cur H \<le> 1024"
  by (simp add: rlimit_nofile_cur_def)

lemma world_inv_publish_at:
  assumes inv: "world_inv w" and h: "held w t = Some h" and ty: "ty \<noteq> FD_CLOSED" "ty \<noteq> FD_STDIO" and fd: "fd < rlimit_nofile_cur H"
    and p: "fd_probe_host H al ty h (st w) = (probe, s1)" and r: "replace_locked al fd ty h cleanup probe s1 = (old, s')"
    and t': "pend w t' = None" and room: "fd_next_generation (st w) \<noteq> UINT64_MAX"
  shows "world_inv (w\<lparr>st := s', held := (held w)(t := None), pend := (pend w)(t' := map_option (Pair fd) old)\<rparr>)"
proof -
  have oh: "only_host (st w) s1" using only_host_probe [of "st w" H al ty h] p by simp
  have lt: "fd < 1024" using less_le_trans [OF fd rlimit_le] .
  note r' = replace_lockedD [OF r] and sl = only_host_slot [OF oh]
  from r'(1) obtain s2 where "s2 = s1 \<or> s2 = emit (epoll_note_fd_closed fd (ofd_id (slot s1 fd))) s1" "s' = fd_init_entry al fd ty h cleanup probe s2"
    by blast
  then show ?thesis
    using world_inv_fill_held [OF inv lt h ty oh room, of s2 "epoll_note_fd_closed fd (ofd_id (slot s1 fd))" old t'] r'(2) sl t' by auto
qed

lemma world_inv_publish_dir:
  assumes inv: "world_inv w" and d: "walks w t = Some (h, d)"
    and r: "fd_alloc_dir_from H al minfd FD_DIR h cleanup (Some d) flags (st w) = (r, s')" and room: "fd_next_generation (st w) \<noteq> UINT64_MAX"
  shows "world_inv (w\<lparr>st := s', walks := (if r = None then walks w else (walks w)(t := None))\<rparr>)"
proof -
  obtain probe s1 where p: "fd_probe_host H al FD_DIR h (st w) = (probe, s1)" by force
  have oh: "only_host (st w) s1" using only_host_probe [of "st w" H al FD_DIR h] p by simp
  obtain s2 where l: "fd_alloc_locked H al minfd FD_DIR h cleanup probe s1 = (r, s2)"
    and s': "s' = (case r of None \<Rightarrow> s2 | Some fd \<Rightarrow> install_dir fd (Some d) flags s2)"
    using r p by (auto simp: fd_alloc_dir_from_def split: prod.splits option.splits)
  have i1: "fd_inv s1"
    using world_invD(1) [OF inv] only_host_inv [OF oh] by simp
  from alloc_lockedD [OF l i1] show ?thesis
  proof (elim disjE conjE exE)
    assume "r = None" "s2 = fd_probe_rollback H probe h s1"
    then show ?thesis
      using world_inv_only_host [OF inv only_host_trans [OF oh only_host_rollback]] s' by simp
  next
    fix fd assume fd: "r = Some fd" "fd < 1024" "ftype (slot s1 fd) = FD_CLOSED" "s2 = fd_init_entry al fd FD_DIR h cleanup probe s1"
    then have c: "ftype (slot (st w) fd) = FD_CLOSED" using only_host_slot [OF oh] by simp
    obtain t' where t': "pend w t' = None" using world_free_pend [OF inv] by blast
    then have "(pend w)(t' := None) = pend w" by auto
    then show ?thesis
      using world_inv_fill_dir [OF inv fd(2) d oh room, of s1 undefined None t' flags al cleanup probe] c t' fd(1,4) s' by simp
  qed
qed

lemma world_inv_publish_dir_at:
  assumes inv: "world_inv w" and d: "walks w t = Some (h, d)" and fd: "fd < rlimit_nofile_cur H"
    and p: "fd_probe_host H al FD_DIR h (st w) = (probe, s1)" and r: "replace_locked al fd FD_DIR h cleanup probe s1 = (old, s2)"
    and t': "pend w t' = None" and room: "fd_next_generation (st w) \<noteq> UINT64_MAX"
  shows "world_inv (w\<lparr>st := install_dir fd (Some d) flags s2, walks := (walks w)(t := None),
    pend := (pend w)(t' := map_option (Pair fd) old)\<rparr>)"
proof -
  have oh: "only_host (st w) s1" using only_host_probe [of "st w" H al FD_DIR h] p by simp
  have lt: "fd < 1024" using less_le_trans [OF fd rlimit_le] .
  note r' = replace_lockedD [OF r] and sl = only_host_slot [OF oh]
  from r'(1) obtain s3 where "s3 = s1 \<or> s3 = emit (epoll_note_fd_closed fd (ofd_id (slot s1 fd))) s1"
    "s2 = fd_init_entry al fd FD_DIR h cleanup probe s3"
    by blast
  then show ?thesis
    using world_inv_fill_dir [OF inv lt d oh room, of s3 "epoll_note_fd_closed fd (ofd_id (slot s1 fd))" old t'] r'(2) sl t' by auto
qed

section \<open>The shim's bitmap and the identity counter\<close>

lemma mark_urandom_bits:
  assumes "urandom s = Some u" "length u = 16" "fd < 1024"
  shows "\<exists>u'. urandom (shim_globals_mark_urandom_fd fd b s) = Some u' \<and> length u' = 16 \<and>
    (\<forall>i. bit_set u' i \<longleftrightarrow> (if i = fd then b else bit_set u i))"
  using assms bit_set_or [OF assms(3,2)] bit_set_and_not [OF assms(3,2)]
  by (cases b) (auto simp: shim_globals_mark_urandom_fd_def Let_def)

lemma fd_inv_refresh:
  assumes inv: "fd_inv s"
  shows "fd_inv (fd_refresh_urandom_bitmap fd s)"
proof (cases "RANGE_CHECK fd \<and> urandom s \<noteq> None")
  case True
  then obtain u where u: "urandom s = Some u" by blast
  let ?b = "readable_urandom (slot s (nat fd))"
  let ?s = "shim_globals_mark_urandom_fd (nat fd) ?b s"
  have lt: "nat fd < 1024" using True RANGE_CHECK_nat by blast
  have ok: "length u = 16" "\<And>i. i < 1024 \<Longrightarrow> bit_set u i \<Longrightarrow> ftype (slot s i) = FD_URANDOM"
    using fd_invD(3) [OF inv] u by (simp_all add: urandom_ok_def)
  obtain u' where "urandom ?s = Some u'" "length u' = 16" "\<And>i. bit_set u' i \<longleftrightarrow> (if i = nat fd then ?b else bit_set u i)"
    using mark_urandom_bits [OF u ok(1) lt, of ?b] by blast
  then have "urandom_ok ?s"
    using ok(2) by (auto simp: urandom_ok_def slot_def readable_urandom_def split: if_splits)
  then have "fd_inv ?s"
    using inv by (simp add: fd_inv_def stamps_ok_def slot_def)
  then show ?thesis
    using True by (simp add: fd_refresh_urandom_bitmap_def)
qed (use inv in \<open>auto simp: fd_refresh_urandom_bitmap_def shim_globals_mark_urandom_fd_def\<close>)

lemma world_inv_refresh:
  assumes inv: "world_inv w"
  shows "world_inv (w\<lparr>st := fd_refresh_urandom_bitmap fd (st w)\<rparr>)" (is "world_inv ?w")
proof -
  have fr: "fd_table (fd_refresh_urandom_bitmap fd s) = fd_table s" "lifetimes (fd_refresh_urandom_bitmap fd s) = lifetimes s"
    "dir_streams (fd_refresh_urandom_bitmap fd s) = dir_streams s" "host_flags (fd_refresh_urandom_bitmap fd s) = host_flags s"
    "bad_closes (fd_refresh_urandom_bitmap fd s) = bad_closes s" for s
    by (simp_all add: fd_refresh_urandom_bitmap_def)
  have sl: "slot (st ?w) = slot (st w)"
    by (simp add: slot_def fr fun_eq_iff)
  have "ledger (st ?w) (w_own w) (w_lref w) (w_dref w) (w_via w)"
    using world_invD(2) [OF inv] ledger_same [of "st ?w" "st w" "w_own w" "w_lref w" "w_dref w" "w_via w"] by (simp add: fr open_fds_def)
  then have "ledger (st ?w) (w_own ?w) (w_lref ?w) (w_dref ?w) (w_via ?w)"
  proof (rule ledger_eqI)
    fix z
    show "w_own ?w z = w_own w z" "w_lref ?w z = w_lref w z" "w_dref ?w z = w_dref w z" "w_via ?w z = w_via w z"
      using sl by (cases z; simp)+
  qed
  then show ?thesis
    using inv fd_inv_refresh [OF world_invD(1) [OF inv], of fd] sl unfolding world_inv_def by simp
qed

lemma world_inv_reserve:
  assumes inv: "world_inv w"
  shows "world_inv (w\<lparr>st := snd (fd_reserve_ofd_id (st w))\<rparr>)" (is "world_inv ?w")
proof (rule world_inv_same_links [OF inv])
  show "same_links (st w) (snd (fd_reserve_ofd_id (st w)))"
    by (simp add: same_links_def fd_reserve_ofd_id_def slot_def open_fds_def)
qed

section \<open>Steps and runs\<close>

text \<open>A window that is no stray retirement keeps the invariant.\<close>

lemma fd_step_stray: "fd_step w w' \<Longrightarrow> stray w \<le> stray w'"
  by (induction rule: fd_step.induct) simp_all

lemma fd_step_inv:
  assumes "fd_step w w'" "world_inv w" "fd_next_generation (st w) \<noteq> UINT64_MAX" "stray w' = stray w"
  shows "world_inv w'"
  using assms
proof (induction rule: fd_step.induct)
  case (guest_nonblock w fd on)
  have "same_links (st w) (snd (fd_apply_guest_nonblock fd on (st w)))"
    by (simp add: fd_apply_guest_nonblock_def Let_def same_links_sweep)
  then show ?case by (rule world_inv_same_links [OF guest_nonblock(1)])
next
  case (shadow_flags w fd gen msk val)
  then show ?case
    by (simp add: fd_set_shadow_flags_def world_inv_same_links same_links_sweep)
next
  case (publish_flags w fd flags)
  then show ?case
    by (simp add: world_inv_same_links same_links_publish)
next
  case (retire fd w h l s' t t')
  let ?w = "w\<lparr>st := s', held := (held w)(t := if l = None \<and> h \<ge> 0 then Some h else None), pins := (pins w)(t' := map_option (Pair h) l)\<rparr>"
  have own: "\<not> shared_host (slot (st w) fd)" using retire.prems(3) by (auto split: if_splits)
  have "world_inv ?w"
    by (rule world_inv_retire [OF retire.prems(1) retire.hyps(1,2) own retire.hyps(3-6)])
  then show ?case
    using own world_inv_stray [where w = ?w and n = "stray w"] by simp
qed (blast intro: world_inv_open world_inv_close world_inv_publish world_inv_publish_at world_inv_stream_open world_inv_publish_dir
  world_inv_publish_dir_at world_inv_close_slot world_inv_close_regular world_inv_cleanup world_inv_cleanup_calls world_inv_acquire
  world_inv_release world_inv_share_dir world_inv_release_dir world_inv_dup world_inv_refresh world_inv_reserve)+

text \<open>Every window, a stray retirement too, keeps the table itself well formed.\<close>

lemma fd_inv_same_table: "same_table s s' \<Longrightarrow> fd_inv s \<Longrightarrow> fd_inv s'"
  using fd_inv_same [of s' s] by (simp add: same_table_def)

lemma same_table_cleanup: "same_table s (fd_cleanup_entry fd snap s)"
  using cleanup_calls_frame(1) [of s fd snap] same_table_life_release [of "cleanup_calls fd snap s"]
  by (auto simp: fd_cleanup_entry_cases Let_def same_table_def split: option.split)

lemma fd_inv_install_dir: "fd_inv s \<Longrightarrow> fd_inv (install_dir fd d fl s)"
  unfolding install_dir_def by (rule fd_inv_set_slot) simp_all

lemma only_host_room:
  assumes "only_host s s'" "fd_inv s" "fd_next_generation s \<noteq> UINT64_MAX"
  shows "fd_inv s'" "fd_next_generation s' \<noteq> UINT64_MAX"
  using only_host_inv [OF assms(1)] assms by (simp_all add: only_host_def)

lemma fd_inv_alloc_locked:
  assumes "fd_inv s" "ty \<noteq> FD_CLOSED" "fd_next_generation s \<noteq> UINT64_MAX"
  shows "fd_inv (snd (fd_alloc_locked H al minfd ty h cleanup probe s))"
  using alloc_lockedD [of H al minfd ty h cleanup probe s, OF prod.collapse [symmetric] assms(1)]
    fd_inv_init_entry [OF assms(1) _ assms(2,3)] only_host_inv [OF only_host_rollback [of s H probe h]] assms(1) by auto

lemma fd_inv_replace:
  assumes "replace_locked al fd ty h cleanup probe s = (old, s')" "fd_inv s" "ty \<noteq> FD_CLOSED" "fd_next_generation s \<noteq> UINT64_MAX" "fd < 1024"
  shows "fd_inv s'"
  using replace_lockedD(1) [OF assms(1)] fd_inv_init_entry [OF _ assms(5,3)] assms(2,4) fd_inv_same_table [OF same_table_simps(4)]
  by auto

lemma fd_inv_life_pass:
  assumes "acquire_pass fd spare s = (Acq_Ok h l, spare', s')" "fd_inv s"
  shows "fd_inv s'"
proof -
  have "fd_inv (set_slot (nat fd) ((slot s (nat fd))\<lparr>lifetime := Some l\<rparr>) s1)" if "same_table s s1" for s1
    using fd_inv_set_slot [OF fd_inv_same_table [OF that assms(2)], of "(slot s (nat fd))\<lparr>lifetime := Some l\<rparr>" "nat fd"]
      same_table_slot [OF that] by simp
  then show ?thesis
    using acquire_passD(4) [OF assms(1)] assms(2) fd_inv_same_table [of s]
    by (auto simp: same_table_def dir_stream_ref_locked_def split: option.splits)
qed

lemma same_table_dup_or_share:
  "same_table s (snd (snd (snd (fd_snapshot_and_dup_or_share_dir dup fd s))))"
  by (auto simp: fd_snapshot_and_dup_or_share_dir_def Let_def host_dup_def fd_snapshot_locked_def same_table_def dir_stream_ref_locked_def
    split: option.split prod.split)

text \<open>Each window mints at most one generation.\<close>

lemma alloc_locked_gen:
  "fd_next_generation (snd (fd_alloc_locked H al minfd ty h cleanup probe s)) \<in> {fd_next_generation s, fd_next_generation s + 1}"
  using only_host_rollback [of s H probe h] by (auto simp: fd_alloc_locked_def only_host_def split: option.split)

lemma probe_gen: "fd_next_generation (snd (fd_probe_host H al t h s)) = fd_next_generation s"
  using only_host_probe [of s H al t h] by (simp add: only_host_def)

lemma install_dir_gen [simp]: "fd_next_generation (install_dir fd d fl s) = fd_next_generation s"
  by (simp add: install_dir_def)

lemma cleanup_gen [simp]: "fd_next_generation (fd_cleanup_entry fd snap s) = fd_next_generation s"
  using cleanup_calls_frame(1) [of s fd snap] same_table_life_release [of "cleanup_calls fd snap s"]
  by (auto simp: fd_cleanup_entry_cases Let_def same_table_def split: option.split)

lemma cleanup_calls_gen [simp]: "fd_next_generation (cleanup_calls fd snap s) = fd_next_generation s"
  using cleanup_calls_frame(1) [of s fd snap] by (simp add: same_table_def)

lemma same_links_gen: "same_links s s' \<Longrightarrow> fd_next_generation s' = fd_next_generation s"
  by (simp add: same_links_def)

lemma fd_step_gen:
  assumes "fd_step w w'"
  shows "fd_next_generation (st w') \<in> {fd_next_generation (st w), fd_next_generation (st w) + 1}"
  using assms
proof (cases rule: fd_step.cases)
  case (publish t h ty H al minfd cleanup r s')
  then show ?thesis
    using alloc_locked_gen [of H al minfd ty h cleanup "fst (fd_probe_host H al ty h (st w))" "snd (fd_probe_host H al ty h (st w))"]
      probe_gen [of H al ty h "st w"] by (auto simp: fd_alloc_from_def split: prod.splits)
next
  case (publish_at t h ty fd H al probe s1 cleanup old s' t')
  then show ?thesis
    using probe_gen [of H al ty h "st w"] replace_lockedD(1) [OF publish_at(7)] by auto
next
  case (publish_dir t h d H al minfd cleanup flags r s')
  then show ?thesis
    using alloc_locked_gen [of H al minfd FD_DIR h cleanup "fst (fd_probe_host H al FD_DIR h (st w))" "snd (fd_probe_host H al FD_DIR h (st w))"]
      probe_gen [of H al FD_DIR h "st w"] by (auto simp: fd_alloc_dir_from_def split: prod.splits option.splits)
next
  case (publish_dir_at t h d fd H al probe s1 cleanup old s2 t' flags)
  then show ?thesis
    using probe_gen [of H al FD_DIR h "st w"] replace_lockedD(1) [OF publish_dir_at(5)] by auto
next
  case (close_slot fd snap s' t)
  then show ?thesis using snapshot_and_closeD(4) [OF close_slot(2)] by simp
next
  case (close_regular H fd h s' t)
  then show ?thesis using close_regularD(5) [OF close_regular(2)] by simp
next
  case (retire fd h l s' t t')
  then show ?thesis using mark_closed_fields(1) [of fd "st w"] by simp
next
  case (acquire fd spare h l spare' s' t)
  then show ?thesis using acquire_passD(4) [OF acquire(4)]
    by (auto simp: dir_stream_ref_locked_def split: option.splits)
next
  case (share_dir dup fd h out s' d t)
  then show ?thesis
    by (auto simp: fd_snapshot_and_dup_or_share_dir_def Let_def host_dup_def dir_stream_ref_locked_def split: if_splits option.splits prod.splits)
next
  case (dup h fd out s' t)
  then show ?thesis
    by (auto simp: fd_snapshot_and_dup_or_share_dir_def Let_def host_dup_def dir_stream_ref_locked_def split: if_splits option.splits prod.splits)
next
  case (guest_nonblock fd on)
  then show ?thesis
    using same_links_gen [OF same_links_sweep] by (simp add: fd_apply_guest_nonblock_def Let_def)
next
  case (shadow_flags fd gen msk val)
  then show ?thesis using same_links_gen [OF same_links_sweep] by (simp add: fd_set_shadow_flags_def)
next
  case (publish_flags fd flags)
  then show ?thesis using same_links_gen [OF same_links_publish] by simp
next
  case (release t h l)
  then show ?thesis using same_table_life_release [of "st w" l] by (simp add: same_table_def)
qed (simp_all add: fd_refresh_urandom_bitmap_def fd_reserve_ofd_id_def)

lemma fd_step_fd_inv:
  assumes "fd_step w w'" "fd_inv (st w)" "fd_next_generation (st w) \<noteq> UINT64_MAX"
  shows "fd_inv (st w')"
  using assms(1)
proof (cases rule: fd_step.cases)
  case (publish t h ty H al minfd cleanup r s')
  obtain probe s1 where p: "fd_probe_host H al ty h (st w) = (probe, s1)" by force
  have "only_host (st w) s1" using only_host_probe [of "st w" H al ty h] p by simp
  then have "fd_inv s1" "fd_next_generation s1 \<noteq> UINT64_MAX" by (rule only_host_room [OF _ assms(2,3)])+
  then show ?thesis
    using fd_inv_alloc_locked [OF _ publish(3), of s1 H al minfd h cleanup probe] publish(1,5) p by (simp add: fd_alloc_from_def)
next
  case (publish_at t h ty fd H al probe s1 cleanup old s' t')
  have "only_host (st w) s1" using only_host_probe [of "st w" H al ty h] publish_at(6) by simp
  then have "fd_inv s1" "fd_next_generation s1 \<noteq> UINT64_MAX" by (rule only_host_room [OF _ assms(2,3)])+
  then show ?thesis
    using fd_inv_replace [OF publish_at(7)] publish_at(1,3,5) less_le_trans [OF publish_at(5) rlimit_le] by simp
next
  case (publish_dir t h d H al minfd cleanup flags r s')
  obtain probe s1 where p: "fd_probe_host H al FD_DIR h (st w) = (probe, s1)" by force
  have "only_host (st w) s1" using only_host_probe [of "st w" H al FD_DIR h] p by simp
  then have "fd_inv s1" "fd_next_generation s1 \<noteq> UINT64_MAX" by (rule only_host_room [OF _ assms(2,3)])+
  then have "fd_inv (snd (fd_alloc_locked H al minfd FD_DIR h cleanup probe s1))"
    using fd_inv_alloc_locked by (simp add: fd_types)
  then show ?thesis
    using publish_dir(1,3) p by (auto simp: fd_alloc_dir_from_def fd_inv_install_dir split: prod.splits option.splits)
next
  case (publish_dir_at t h d fd H al probe s1 cleanup old s2 t' flags)
  have "only_host (st w) s1" using only_host_probe [of "st w" H al FD_DIR h] publish_dir_at(4) by simp
  then have "fd_inv s1" "fd_next_generation s1 \<noteq> UINT64_MAX" by (rule only_host_room [OF _ assms(2,3)])+
  then have "fd_inv s2"
    using fd_inv_replace [OF publish_dir_at(5)] less_le_trans [OF publish_dir_at(3) rlimit_le] by (simp add: fd_types)
  then show ?thesis using publish_dir_at(1) fd_inv_install_dir [of s2 fd "Some d" flags] by simp
next
  case (close_slot fd snap s' t)
  then show ?thesis
    using snapshot_and_closeD(1,4) [OF close_slot(2)] fd_inv_mark_closed [OF assms(2) RANGE_CHECK_nat] by simp
next
  case (close_regular H fd h s' t)
  then show ?thesis
    using close_regularD(1,5) [OF close_regular(2)] fd_inv_mark_closed [OF assms(2) RANGE_CHECK_nat] by simp
next
  case (retire fd h l s' t t')
  then show ?thesis using fd_inv_mark_closed [OF assms(2) retire(2)] by simp
next
  case (acquire fd spare h l spare' s' t)
  then show ?thesis using fd_inv_life_pass [OF acquire(4) assms(2)] by simp
next
  case (share_dir dup fd h out s' d t)
  then show ?thesis using fd_inv_same_table [OF same_table_dup_or_share assms(2), of dup fd] by simp
next
  case (dup h fd out s' t)
  then show ?thesis using fd_inv_same_table [OF same_table_dup_or_share assms(2), of "Some h" fd] by simp
next
  case (guest_nonblock fd on)
  then show ?thesis
    using same_links_inv [OF same_links_sweep assms(2)] by (simp add: fd_apply_guest_nonblock_def Let_def assms(2))
next
  case (shadow_flags fd gen msk val)
  then show ?thesis using same_links_inv [OF same_links_sweep assms(2)] by (simp add: fd_set_shadow_flags_def assms(2))
next
  case (publish_flags fd flags)
  then show ?thesis using same_links_inv [OF same_links_publish assms(2)] by simp
next
  case (refresh_urandom fd)
  then show ?thesis using fd_inv_refresh [OF assms(2)] by simp
next
  case (reserve_id)
  then show ?thesis using fd_inv_same_table [OF _ assms(2)] by (simp add: fd_reserve_ofd_id_def same_table_def)
next
  case (clean_up t fd snap)
  then show ?thesis using fd_inv_same_table [OF same_table_cleanup assms(2)] by simp
qed (use fd_inv_same_table [OF _ assms(2)] in simp_all)

end
