(* ===== verification/Fd_Boot.thy ===== *)
theory Fd_Boot
  imports Fd_World_Steps
begin

text \<open>
  The table \<open>fdtable_init\<close> builds satisfies the invariant, so every run from it does, for as long as the
  64-bit generation counter does not wrap: each window mints at most one generation. The table stays well formed
  in every run; the ledger balances in every run without a stray retirement.
\<close>

section \<open>The table at start\<close>

lemma boot_slot:
  assumes "i < 1024"
  shows "slot (fdtable_init H s) i = (if i < 3 then stdio_entry H i else closed_entry)"
proof -
  have "i = 0 \<or> i = 1 \<or> i = 2" if "i < 3" using that by linarith
  then show ?thesis
    using assms by (auto simp: slot_def fdtable_init_def nth_list_update)
qed

lemma set_used_length [simp]: "length (fd_free_bitmap (fd_bitmap_set_used fd s)) = length (fd_free_bitmap s)"
  by (simp add: fd_bitmap_set_used_def)

lemma boot_free:
  assumes "i < 1024"
  shows "free_fd (fdtable_init H s) i \<longleftrightarrow> \<not> i < 3"
proof -
  have all: "bit_set (replicate 16 (NOT 0)) i"
  proof -
    have "i div 64 < 16" using assms by (simp add: less_mult_imp_div_less)
    then show ?thesis by (simp add: bit_set_def bit_not_iff)
  qed
  show ?thesis
    unfolding fdtable_init_def using all by (auto simp: free_fd_used)
qed

lemma boot_type: "i < 1024 \<Longrightarrow> ftype (slot (fdtable_init H s) i) = (if i < 3 then FD_STDIO else FD_CLOSED)"
  by (simp add: boot_slot stdio_entry_def closed_entry_def)

lemma boot_generation: "i < 1024 \<Longrightarrow> generation (slot (fdtable_init H s) i) = (if i < 3 then word_of_nat (i + 1) else 0)"
  by (simp add: boot_slot stdio_entry_def closed_entry_def)

lemma boot_stamp: "i < 1024 \<Longrightarrow> unat (generation (slot (fdtable_init H s) i)) = (if i < 3 then i + 1 else 0)"
  by (simp add: boot_generation unat_of_nat del: of_nat_Suc of_nat_add)

lemma boot_fields [simp]:
  "length (fd_table (fdtable_init H s)) = 1024" "length (fd_free_bitmap (fdtable_init H s)) = 16"
  "fd_next_generation (fdtable_init H s) = 4" "urandom (fdtable_init H s) = urandom s"
  by (simp_all add: fdtable_init_def)

lemma boot_stamps_ok: "stamps_ok (fdtable_init H s)"
  unfolding stamps_ok_def
proof (intro conjI allI impI)
  fix i :: nat assume i: "i < 1024"
  show "unat (generation (slot (fdtable_init H s) i)) < unat (fd_next_generation (fdtable_init H s))"
    using boot_stamp [OF i, of H s] by simp
  show "generation (slot (fdtable_init H s) i) \<noteq> 0" if "ftype (slot (fdtable_init H s) i) \<noteq> FD_CLOSED"
    using that boot_stamp [OF i, of H s] boot_type [OF i, of H s] by (auto split: if_splits)
  fix j :: nat assume j: "j < 1024" and ij: "i \<noteq> j \<and> generation (slot (fdtable_init H s) i) = generation (slot (fdtable_init H s) j)"
  have "\<not> i < 3"
    using ij boot_stamp [OF i, of H s] boot_stamp [OF j, of H s] by (cases "j < 3") auto
  then show "generation (slot (fdtable_init H s) i) = 0"
    using boot_generation [OF i, of H s] by simp
qed

lemma boot_inv:
  assumes "boot_state s"
  shows "fd_inv (fdtable_init H s)"
proof -
  have "\<not> bit_set (replicate 16 0) i" if "i < 1024" for i
  proof -
    have "i div 64 < 16" using that by (simp add: less_mult_imp_div_less)
    then show ?thesis by (simp add: bit_set_def)
  qed
  then have "urandom_ok (fdtable_init H s)"
    using assms by (auto simp: urandom_ok_def boot_state_def split: option.splits)
  then show ?thesis
    using boot_stamps_ok [of H s] boot_free [of _ H s] boot_type [of _ H s] by (simp add: fd_inv_def fd_types)
qed

lemma boot_heap [simp]:
  "lifetimes (fdtable_init H s) = lifetimes s" "dir_streams (fdtable_init H s) = dir_streams s"
  "open_fds (fdtable_init H s) = open_fds s" "bad_closes (fdtable_init H s) = bad_closes s"
  by (simp_all add: fdtable_init_def open_fds_def)

lemma boot_world_inv:
  assumes b: "boot_state s"
  shows "world_inv (world0 H s)" (is "world_inv ?w")
proof -
  have e: "entry_own (slot (fdtable_init H s) i) = None" "entry_lref (slot (fdtable_init H s) i) = None"
    "entry_dref (slot (fdtable_init H s) i) = None" "entry_ok (slot (fdtable_init H s) i)" if "i < 1024" for i
    using boot_slot [OF that, of H s] by (auto simp: stdio_entry_def closed_entry_def entry_own_def entry_lref_def entry_dref_def
      entry_ok_def launcher_def fd_types)
  have none: "w_own ?w z = None" "w_lref ?w z = None" "w_dref ?w z = None" for z
    using e by (cases z; simp add: world0_def)+
  have heap: "lifetimes (st ?w) = Map.empty" "dir_streams (st ?w) = Map.empty" "open_fds (st ?w) = launcher" "bad_closes (st ?w) = 0"
    using b by (simp_all add: world0_def boot_state_def)
  have "owner (st ?w) (w_own ?w) p = None" "dir_user (st ?w) (w_dref ?w) p = None" for p
    using none heap by (cases p; simp)+
  moreover from this have "dom (owner (st ?w) (w_own ?w)) = {}" by (auto simp: dom_def)
  ultimately have "tracks (owner (st ?w) (w_own ?w)) {}" "counted (w_lref ?w) (life_count (st ?w))"
    "counted (dir_user (st ?w) (w_dref ?w)) (dir_count (st ?w))"
    using none heap by (auto simp: tracks_def counted_def life_count_def dir_count_def ran_def)
  then have "ledger (st ?w) (w_own ?w) (w_lref ?w) (w_dref ?w) (w_via ?w)"
    using none heap by (auto simp: ledger_def life_ok_def dirs_ok_def host_ok_def links_def launcher_def)
  then show ?thesis
    using boot_inv [OF b, of H] e(4) by (auto simp: world_inv_def world0_def)
qed

section \<open>Runs\<close>

lemma fd_run_table:
  assumes "fd_run s0 n w" "n < 2 ^ 64 - 5"
  shows "fd_inv (st w) \<and> unat (fd_next_generation (st w)) \<le> 4 + n \<and> (stray w = 0 \<longrightarrow> world_inv w)"
  using assms
proof (induction rule: fd_run.induct)
  case (start H)
  then show ?case
    using boot_world_inv boot_inv by (simp add: world0_def fdtable_init_def)
next
  case (step n w w')
  let ?g = "fd_next_generation (st w)"
  have ih: "fd_inv (st w)" "unat ?g \<le> 4 + n" "stray w = 0 \<longrightarrow> world_inv w" using step by simp_all
  have "unat (UINT64_MAX :: u64) = 2 ^ 64 - 1" by (simp add: UINT64_MAX_def)
  then have room: "?g \<noteq> UINT64_MAX" using ih(2) step.prems by auto
  have "fd_inv (st w')" by (rule fd_step_fd_inv [OF step.hyps(2) ih(1) room])
  moreover have "unat (fd_next_generation (st w')) \<le> 4 + (n + 1)"
    using fd_step_gen [OF step.hyps(2)] unat_succ [OF room] ih(2) by auto
  moreover have "world_inv w'" if "stray w' = 0"
    using that fd_step_stray [OF step.hyps(2)] fd_step_inv [OF step.hyps(2) _ room] ih(3) by simp
  ultimately show ?case by simp
qed

lemma fd_run_inv:
  assumes "fd_run s0 n w" "n < 2 ^ 64 - 5" "stray w = 0"
  shows "world_inv w"
  using fd_run_table [OF assms(1,2)] assms(3) by blast

section \<open>Reference counts stay small\<close>

text \<open>
  The counts are natural numbers here, \<^verbatim>\<open>unsigned int\<close> and \<^verbatim>\<open>int\<close> in the code: a window raises a count by at most one,
  so a run of fewer than \<open>2 ^ 31 - 1\<close> windows never reaches the end of either type.
\<close>

definition counts_below :: "nat \<Rightarrow> fd_state \<Rightarrow> bool" where
  "counts_below k s \<longleftrightarrow> (\<forall>obj\<in>ran (lifetimes s). refs obj \<le> k) \<and> (\<forall>ds\<in>ran (dir_streams s). ds_refcount ds \<le> k)"

lemma counts_below_same:
  "lifetimes s' = lifetimes s \<Longrightarrow> dir_streams s' = dir_streams s \<Longrightarrow> counts_below k s' = counts_below k s"
  by (simp add: counts_below_def)

lemma counts_below_mono: "counts_below k s \<Longrightarrow> k \<le> m \<Longrightarrow> counts_below m s"
  by (fastforce simp: counts_below_def)

lemma counts_below_upd:
  "counts_below k s \<Longrightarrow> L = lifetimes s \<Longrightarrow> refs obj \<le> k \<Longrightarrow> counts_below k (s\<lparr>lifetimes := L(l \<mapsto> obj)\<rparr>)"
  "counts_below k s \<Longrightarrow> ds_refcount ds \<le> k \<Longrightarrow> counts_below k (s\<lparr>dir_streams := (dir_streams s)(d \<mapsto> ds)\<rparr>)"
  "counts_below k s \<Longrightarrow> L = lifetimes s \<Longrightarrow> counts_below k (s\<lparr>lifetimes := L(l := None)\<rparr>)"
  "counts_below k s \<Longrightarrow> counts_below k (s\<lparr>dir_streams := (dir_streams s)(d := None)\<rparr>)"
  by (auto simp: counts_below_def ran_def split: if_splits)

lemma counts_below_at:
  "counts_below k s \<Longrightarrow> lifetimes s l = Some obj \<Longrightarrow> refs obj \<le> k"
  "counts_below k s \<Longrightarrow> dir_streams s d = Some ds \<Longrightarrow> ds_refcount ds \<le> k"
  by (auto simp: counts_below_def ran_def)

lemma counts_below_close [simp]: "counts_below k (close_host h s) = counts_below k s"
  by (rule counts_below_same) simp_all

lemma counts_below_dir_release: "counts_below k s \<Longrightarrow> counts_below k (dir_stream_release d s)"
  using counts_below_at(2) [of k s d]
  by (auto simp: dir_stream_release_def counts_below_upd le_diff_conv split: option.split intro!: counts_below_upd)

lemma counts_below_life_release: "counts_below k s \<Longrightarrow> counts_below k (fd_lifetime_release l s)"
  using counts_below_at(1) [of k s l]
  by (auto simp: fd_lifetime_release_def Let_def le_diff_conv split: option.split intro!: counts_below_upd counts_below_dir_release)

lemma counts_below_cleanup: "counts_below k s \<Longrightarrow> counts_below k (fd_cleanup_entry fd snap s)"
proof -
  assume "counts_below k s"
  then have "counts_below k (cleanup_calls fd snap s)"
    using counts_below_same [of "cleanup_calls fd snap s" s k] by simp
  then show ?thesis
    by (auto simp: fd_cleanup_entry_cases Let_def counts_below_life_release split: option.split intro!: counts_below_dir_release)
qed

lemma counts_below_dir_ref: "counts_below k s \<Longrightarrow> counts_below (k + 1) (dir_stream_ref_locked d s)"
  using counts_below_mono [of k s "k + 1"] counts_below_at(2) [of k s d]
  by (auto simp: dir_stream_ref_locked_def split: option.split intro!: counts_below_upd)

lemma counts_below_acquire:
  assumes a: "acquire_pass fd spare s = (Acq_Ok h l, spare', s')" and c: "counts_below k s" "1 \<le> k"
  shows "counts_below (k + 1) s'"
  using acquire_passD(4) [OF a]
proof (elim disjE conjE exE)
  fix obj assume "lifetimes s l = Some obj" "s' = s\<lparr>lifetimes := (lifetimes s)(l \<mapsto> obj\<lparr>refs := refs obj + 1\<rparr>)\<rparr>"
  then show ?thesis
    using counts_below_at(1) [OF c(1)] counts_below_mono [OF c(1), of "k + 1"] by (auto intro!: counts_below_upd)
next
  let ?d = "entry_dref (slot s (nat fd))"
  let ?s1 = "case ?d of Some d \<Rightarrow> dir_stream_ref_locked d s | None \<Rightarrow> s"
  let ?obj = "\<lparr>refs = 2, l_host_fd = h, l_type = ftype (slot s (nat fd)), l_dir = ?d\<rparr>"
  assume s': "s' = set_slot (nat fd) ((slot s (nat fd))\<lparr>lifetime := Some l\<rparr>) (?s1\<lparr>lifetimes := (lifetimes s)(l \<mapsto> ?obj)\<rparr>)"
  have "counts_below (k + 1) ?s1" "lifetimes ?s1 = lifetimes s"
    using counts_below_dir_ref [OF c(1)] counts_below_mono [OF c(1), of "k + 1"]
    by (auto simp: dir_stream_ref_locked_def split: option.split)
  then have "counts_below (k + 1) (?s1\<lparr>lifetimes := (lifetimes s)(l \<mapsto> ?obj)\<rparr>)"
    using c(2) by (intro counts_below_upd(1)) simp_all
  then show ?thesis
    by (simp add: s' counts_below_def)
qed

lemma only_host_counts: "only_host s s' \<Longrightarrow> counts_below k s' = counts_below k s"
  by (rule counts_below_same) (simp_all add: only_host_def)

lemma counts_below_alloc: "counts_below k (snd (fd_alloc_locked H al minfd ty h cleanup probe s)) = counts_below k s"
proof -
  have "counts_below k (fd_init_entry al fd ty h cleanup probe s) = counts_below k s" for fd
    by (rule counts_below_same) simp_all
  then show ?thesis
    using only_host_counts [OF only_host_rollback [of s H probe h]] by (simp add: fd_alloc_locked_def split: option.split)
qed

lemma counts_below_replace:
  "replace_locked al fd ty h cleanup probe s = (old, s') \<Longrightarrow> counts_below k s' = counts_below k s"
  using replace_lockedD(1) [of al fd ty h cleanup probe s old s'] by (auto intro!: counts_below_same)

lemma counts_below_share:
  assumes "counts_below k s"
  shows "counts_below (k + 1) (snd (snd (snd (fd_snapshot_and_dup_or_share_dir dup fd s))))"
proof -
  have "counts_below (k + 1) (s\<lparr>host_flags := f\<rparr>)" "counts_below (k + 1) s" for f
    using counts_below_mono [OF assms, of "k + 1"] by (simp_all add: counts_below_def)
  then show ?thesis
    using counts_below_dir_ref [OF assms]
    by (auto simp: fd_snapshot_and_dup_or_share_dir_def fd_snapshot_locked_def Let_def host_dup_def split: option.split prod.split)
qed

lemma same_links_counts: "same_links s s' \<Longrightarrow> counts_below k s' = counts_below k s"
  by (rule counts_below_same) (simp_all add: same_links_def)

lemma counts_below_frames:
  "counts_below k (snd (fd_mark_closed_unlocked fd s)) = counts_below k s" "counts_below k (cleanup_calls n snap s) = counts_below k s"
  "counts_below k (s\<lparr>host_flags := f\<rparr>) = counts_below k s" "counts_below k (snd (fd_reserve_ofd_id s)) = counts_below k s"
  "counts_below k (fd_refresh_urandom_bitmap g s) = counts_below k s"
  by (rule counts_below_same; simp add: fd_reserve_ofd_id_def fd_refresh_urandom_bitmap_def)+

lemma fd_step_counts:
  assumes "fd_step w w'" "counts_below k (st w)" "1 \<le> k"
  shows "counts_below (k + 1) (st w')"
proof -
  note up = counts_below_mono [of k _ "k + 1"]
  from assms(1) show ?thesis
  proof (cases rule: fd_step.cases)
    case (publish t h ty H al minfd cleanup r s')
    then have "counts_below k s'"
      using assms(2) only_host_counts [OF only_host_probe [of "st w" H al ty h], of k]
        counts_below_alloc [of k H al minfd ty h cleanup "fst (fd_probe_host H al ty h (st w))" "snd (fd_probe_host H al ty h (st w))"]
      by (simp add: fd_alloc_from_def split: prod.splits)
    then show ?thesis using publish(1) up by simp
  next
    case (publish_at t h ty fd H al probe s1 cleanup old s' t')
    then have "counts_below k s'"
      using assms(2) only_host_counts [OF only_host_probe [of "st w" H al ty h], of k] counts_below_replace [OF publish_at(7)] by simp
    then show ?thesis using publish_at(1) up by simp
  next
    case (stream_open t h d t')
    then have "counts_below k (st w')"
      using assms(2,3) by (simp add: counts_below_upd(2))
    then show ?thesis by (rule up) simp
  next
    case (publish_dir t h d H al minfd cleanup flags r s')
    then have "counts_below k s'"
      using assms(2) only_host_counts [OF only_host_probe [of "st w" H al FD_DIR h], of k]
        counts_below_alloc [of k H al minfd FD_DIR h cleanup "fst (fd_probe_host H al FD_DIR h (st w))" "snd (fd_probe_host H al FD_DIR h (st w))"]
      by (auto simp: fd_alloc_dir_from_def install_dir_def counts_below_def split: prod.splits option.splits)
    then show ?thesis using publish_dir(1) up by simp
  next
    case (publish_dir_at t h d fd H al probe s1 cleanup old s2 t' flags)
    then have "counts_below k s2"
      using assms(2) only_host_counts [OF only_host_probe [of "st w" H al FD_DIR h], of k] counts_below_replace [OF publish_dir_at(5)] by simp
    then have "counts_below k (st w')"
      using publish_dir_at(1) by (simp add: install_dir_def counts_below_def)
    then show ?thesis by (rule up) simp
  next
    case (close_slot fd snap s' t)
    then show ?thesis
      using snapshot_and_closeD(4) [OF close_slot(2)] assms(2) by (intro up) (simp_all add: counts_below_frames)
  next
    case (close_regular H fd h s' t)
    then show ?thesis
      using close_regularD(5) [OF close_regular(2)] assms(2) by (intro up) (simp_all add: counts_below_frames)
  next
    case (retire fd h l s' t t')
    then have "s' = snd (fd_mark_closed_unlocked fd (st w))" by simp
    then show ?thesis
      using retire(1) assms(2) by (intro up) (simp_all add: counts_below_frames)
  next
    case (acquire fd spare h l spare' s' t)
    then show ?thesis using counts_below_acquire [OF acquire(4) assms(2,3)] by simp
  next
    case (share_dir dup fd h out s' d t)
    then show ?thesis using counts_below_share [OF assms(2), of dup fd] by simp
  next
    case (dup h fd out s' t)
    then show ?thesis using counts_below_share [OF assms(2), of "Some h" fd] by simp
  next
    case (guest_nonblock fd on)
    then show ?thesis
      using assms(2) by (intro up) (simp_all add: fd_apply_guest_nonblock_def Let_def same_links_counts [OF same_links_sweep])
  next
    case (shadow_flags fd gen msk val)
    then show ?thesis
      using assms(2) by (intro up) (simp_all add: fd_set_shadow_flags_def same_links_counts [OF same_links_sweep])
  next
    case (publish_flags fd flags)
    then show ?thesis
      using assms(2) by (intro up) (simp_all add: same_links_counts [OF same_links_publish])
  qed (rule up, use assms(2) in \<open>simp add: counts_below_cleanup counts_below_life_release counts_below_dir_release counts_below_frames\<close>, simp)+
qed

lemma fd_run_counts:
  assumes "fd_run s0 n w"
  shows "counts_below (n + 1) (st w)"
  using assms
proof (induction rule: fd_run.induct)
  case (start H)
  then show ?case by (simp add: world0_def boot_state_def counts_below_def)
next
  case (step n w w')
  show ?case using fd_step_counts [OF step.hyps(2) step.IH] by simp
qed

end
