(* ===== verification/Fd_Theorems.thy ===== *)
theory Fd_Theorems
  imports Fd_Boot
begin

text \<open>
  What the descriptor table guarantees: the allocator is the least-number allocator; no interleaving of threads
  closes a descriptor twice, leaks one or lets a borrowed one go, as long as no \<^verbatim>\<open>fd_retire_published\<close> meets a
  replacement that is a directory or one of the launcher's descriptors; what that call does when it does meet one.
\<close>

section \<open>A table to evaluate on\<close>

definition host0 :: fd_host where
  "host0 = \<lparr>fstat_blocks = \<lambda>_. True, setfl_ok = \<lambda>_. True, single_active = False, nofile = 1024\<rparr>"

definition boot0 :: fd_state where
  "boot0 = \<lparr>fd_table = [], fd_free_bitmap = [], fd_next_generation = 0, fd_next_ofd_id = 0, urandom = Some (replicate 16 0),
     lifetimes = Map.empty, dir_streams = Map.empty, host_flags = (\<lambda>h. if 0 \<le> h \<and> h \<le> 2 then Some 2 else None),
     bad_closes = 0, calls = []\<rparr>"

lemma boot0_state: "boot_state boot0"
  by (auto simp: boot_state_def boot0_def open_fds_def launcher_def)

lemma rlimit_host0: "rlimit_nofile_cur host0 = 1024"
  by (simp add: rlimit_nofile_cur_def host0_def)

section \<open>Allocation\<close>

definition open_set :: "fd_state \<Rightarrow> nat set" where
  "open_set s = {fd. fd < 1024 \<and> ftype (slot s fd) \<noteq> FD_CLOSED}"

text \<open>The allocator POSIX asks for, on the set of open descriptors.\<close>

definition spec_alloc :: "nat \<Rightarrow> nat \<Rightarrow> nat set \<Rightarrow> nat option \<times> nat set" where
  "spec_alloc limit lo S =
     (let free = {lo..<limit} - S in if free = {} then (None, S) else (Some (Min free), insert (Min free) S))"

lemma spec_alloc_None: "{lo..<limit} \<subseteq> S \<Longrightarrow> spec_alloc limit lo S = (None, S)"
  by (simp add: spec_alloc_def Let_def)

lemma spec_alloc_Some:
  assumes "lo \<le> fd" "fd < limit" "fd \<notin> S" "\<And>i. lo \<le> i \<Longrightarrow> i < fd \<Longrightarrow> i \<in> S"
  shows "spec_alloc limit lo S = (Some fd, insert fd S)"
proof -
  have "Min ({lo..<limit} - S) = fd"
    by (rule Min_eqI) (use assms in \<open>auto simp: not_less [symmetric]\<close>)
  moreover have "{lo..<limit} - S \<noteq> {}" using assms by auto
  ultimately show ?thesis by (simp add: spec_alloc_def Let_def)
qed

locale fd_allocator =
  fixes inv :: "'s \<Rightarrow> bool" and opens :: "'s \<Rightarrow> nat set" and alloc :: "nat \<Rightarrow> 's \<Rightarrow> nat option \<times> 's"
    and close :: "nat \<Rightarrow> 's \<Rightarrow> 's" and limit :: nat
  assumes alloc: "inv s \<Longrightarrow> map_prod id opens (alloc lo s) = spec_alloc limit lo (opens s)"
    and close: "inv s \<Longrightarrow> opens (close fd s) = opens s - {fd}"
    and inv_close: "inv s \<Longrightarrow> inv (close fd s)"
begin

lemma reuse:
  assumes "inv s" "fd < limit" "\<And>i. i < fd \<Longrightarrow> i \<in> opens s"
  shows "fst (alloc 0 (close fd s)) = Some fd"
proof -
  have "map_prod id opens (alloc 0 (close fd s)) = spec_alloc limit 0 (opens s - {fd})"
    using alloc [OF inv_close [OF assms(1)]] close [OF assms(1)] by simp
  also have "\<dots> = (Some fd, insert fd (opens s - {fd}))"
    by (rule spec_alloc_Some) (use assms in auto)
  finally show ?thesis by (metis fst_conv fst_map_prod id_apply)
qed

end

lemma open_set_cong: "slot s' = slot s \<Longrightarrow> open_set s' = open_set s"
  by (simp add: open_set_def)

lemma ftype_init:
  assumes "fd_inv s" "fd < 1024" "i < 1024"
  shows "ftype (slot (fd_init_entry al fd t h cleanup probe s) i) = (if i = fd then t else ftype (slot s i))"
proof (cases "i = fd")
  case True
  then show ?thesis using fd_init_entry_slot(1) [of fd s] fd_invD(1) [OF assms(1)] assms(2) by simp
next
  case False
  then show ?thesis using slot_fd_init_entry [OF fd_invD(1) [OF assms(1)] assms(3), of al fd] by simp
qed

lemma open_set_init:
  assumes "fd_inv s" "fd < 1024" "t \<noteq> FD_CLOSED"
  shows "open_set (fd_init_entry al fd t h cleanup probe s) = insert fd (open_set s)"
  using assms by (auto simp: open_set_def ftype_init split: if_splits)

lemma ftype_mark_closed:
  assumes "fd_inv s" "fd < 1024"
  shows "ftype (slot (snd (fd_mark_closed_unlocked fd s)) i) = (if i = fd then FD_CLOSED else ftype (slot s i))"
  using mark_closed_slot(2,7) [OF fd_invD(1) [OF assms(1)] assms(2)] by (cases "i = fd") auto

lemma open_set_mark_closed:
  assumes "fd_inv s" "fd < 1024"
  shows "open_set (snd (fd_mark_closed_unlocked fd s)) = open_set s - {fd}"
  using assms by (auto simp: open_set_def ftype_mark_closed)

lemma alloc_from_spec:
  assumes inv: "fd_inv s" and t: "t \<noteq> FD_CLOSED"
  shows "map_prod id open_set (fd_alloc_from H al minfd t h cleanup s) = spec_alloc (rlimit_nofile_cur H) (nat minfd) (open_set s)"
proof -
  obtain probe s1 where p: "fd_probe_host H al t h s = (probe, s1)" by force
  have oh: "only_host s s1" using only_host_probe [of s H al t h] p by simp
  have i1: "fd_inv s1" and os: "open_set s1 = open_set s"
    using inv only_host_inv [OF oh] open_set_cong [OF only_host_slot [OF oh]] by auto
  have r: "open_set (fd_probe_rollback H probe h s1) = open_set s1"
    by (rule open_set_cong [OF only_host_slot [OF only_host_rollback]])
  have low: "fd_bitmap_find_free minfd s1 = lowest_free (free_fd s1) (nat minfd)"
    by (rule fd_bitmap_find_free_lowest [OF fd_invD(2) [OF i1]])
  have free: "free_fd s1 i \<longleftrightarrow> i \<notin> open_set s1" if "i < 1024" for i
    using fd_invD(5) [OF i1 that] that by (simp add: open_set_def)
  show ?thesis
  proof (cases "fd_bitmap_find_free minfd s1")
    case None
    then have "i \<in> open_set s1" if "nat minfd \<le> i" "i < 1024" for i
      using low free that by (simp add: lowest_free_None_iff)
    then have "{nat minfd..<rlimit_nofile_cur H} \<subseteq> open_set s"
      using os less_le_trans [OF _ rlimit_le [of H]] by auto
    then show ?thesis
      using None p r os by (simp add: fd_alloc_from_def fd_alloc_locked_def spec_alloc_None)
  next
    case (Some fd)
    then have fd: "nat minfd \<le> fd" "fd < 1024" "fd \<notin> open_set s" "\<And>i. nat minfd \<le> i \<Longrightarrow> i < fd \<Longrightarrow> i \<in> open_set s"
      using low free os by (auto simp: lowest_free_Some_iff)
    show ?thesis
    proof (cases "fd < rlimit_nofile_cur H")
      case True
      then show ?thesis
        using Some p open_set_init [OF i1 fd(2) t] os spec_alloc_Some [OF fd(1) True fd(3,4)]
        by (simp add: fd_alloc_from_def fd_alloc_locked_def)
    next
      case False
      then have "{nat minfd..<rlimit_nofile_cur H} \<subseteq> open_set s"
        using fd(4) by auto
      then show ?thesis
        using Some False p r os by (simp add: fd_alloc_from_def fd_alloc_locked_def spec_alloc_None)
    qed
  qed
qed

text \<open>Closing a descriptor by the system call.\<close>

lemma same_table_open_set: "same_table s s' \<Longrightarrow> open_set s' = open_set s"
  by (rule open_set_cong [OF same_table_slot])

lemma same_table_inv: "same_table s s' \<Longrightarrow> fd_inv s' = fd_inv s"
  by (rule fd_inv_same) (simp_all add: same_table_def)

lemma cleanup_fields [simp]:
  "fd_table (fd_cleanup_entry fd snap s) = fd_table s" "fd_free_bitmap (fd_cleanup_entry fd snap s) = fd_free_bitmap s"
  "urandom (fd_cleanup_entry fd snap s) = urandom s"
  using same_table_cleanup [of s fd snap] by (simp_all add: same_table_def)

text \<open>Past the range check, every path of \<open>sys_close\<close> clears the slot, or the slot was closed.\<close>

lemma sys_close_table:
  fixes s :: fd_state
  assumes "fd < 1024"
  defines "s1 \<equiv> emit (absock_unregister_fd (int fd)) s"
  shows "same_table (snd (fd_mark_closed_unlocked fd s1)) (snd (sys_close H (int fd) s)) \<or>
    ftype (slot s fd) = FD_CLOSED \<and> same_table s1 (snd (sys_close H (int fd) s))"
proof (cases "fd_close_regular_relaxed H (int fd) s1")
  case (Pair r s2)
  have r: "RANGE_CHECK (int fd)" using assms(1) by (simp add: RANGE_CHECK_def)
  show ?thesis
  proof (cases r)
    case (Some h)
    then have "s2 = snd (fd_mark_closed_unlocked fd s1)"
      using Pair close_regularD(5) [of H "int fd" s1 h s2] by simp
    then show ?thesis
      using Pair Some r by (simp add: sys_close_def Let_def s1_def [symmetric] same_table_def)
  next
    case None
    then have s2: "s2 = s1"
      using Pair by (auto simp: fd_close_regular_relaxed_def Let_def split: if_splits)
    have sl: "slot s1 fd = slot s fd" by (simp add: s1_def)
    have snap: "fd_snapshot_and_close_relaxed H (int fd) s1 = fd_snapshot_locked fd True s1"
      using r by (simp add: fd_snapshot_and_close_relaxed_def fd_snapshot_and_close_def)
    show ?thesis
      using Pair None s2 snap sl r
      by (cases "ftype (slot s fd) = FD_CLOSED") (simp_all add: sys_close_def Let_def s1_def [symmetric] fd_snapshot_locked_def same_table_def)
  qed
qed

lemma sys_close_inv:
  assumes "fd_inv s" "fd < 1024"
  shows "fd_inv (snd (sys_close H (int fd) s))"
proof -
  let ?s1 = "emit (absock_unregister_fd (int fd)) s"
  have "fd_inv ?s1" using assms(1) same_table_inv [of s ?s1] by simp
  then show ?thesis
    using sys_close_table [OF assms(2), of s H] fd_inv_mark_closed [OF _ assms(2), of ?s1] same_table_inv by metis
qed

lemma sys_close_open_set:
  assumes "fd_inv s" "fd < 1024"
  shows "open_set (snd (sys_close H (int fd) s)) = open_set s - {fd}"
proof -
  let ?s1 = "emit (absock_unregister_fd (int fd)) s"
  have i: "fd_inv ?s1" and o: "open_set ?s1 = open_set s"
    using assms(1) same_table_inv [of s ?s1] same_table_open_set [of s ?s1] by simp_all
  from sys_close_table [OF assms(2), of s H] show ?thesis
  proof (elim disjE conjE)
    assume "same_table (snd (fd_mark_closed_unlocked fd ?s1)) (snd (sys_close H (int fd) s))"
    then show ?thesis
      using same_table_open_set open_set_mark_closed [OF i assms(2)] o by metis
  next
    assume "ftype (slot s fd) = FD_CLOSED" "same_table ?s1 (snd (sys_close H (int fd) s))"
    then show ?thesis
      using same_table_open_set [of ?s1] o by (auto simp: open_set_def)
  qed
qed

lemma sys_close_any:
  assumes "fd_inv s"
  shows "fd_inv (snd (sys_close H (int fd) s))" "open_set (snd (sys_close H (int fd) s)) = open_set s - {fd}"
proof -
  have "snd (sys_close H (int fd) s) = s" "fd \<notin> open_set s" if "\<not> fd < 1024"
    using that by (simp_all add: sys_close_def RANGE_CHECK_def open_set_def)
  then show "fd_inv (snd (sys_close H (int fd) s))" "open_set (snd (sys_close H (int fd) s)) = open_set s - {fd}"
    using sys_close_inv [OF assms] sys_close_open_set [OF assms] assms by (cases "fd < 1024"; auto)+
qed

interpretation fa: fd_allocator fd_inv open_set "\<lambda>lo. fd_alloc_from H al (int lo) FD_REGULAR h cleanup"
  "\<lambda>fd s. snd (sys_close H (int fd) s)" "rlimit_nofile_cur H" for H al h cleanup
  by unfold_locales (use alloc_from_spec [where t = FD_REGULAR] sys_close_any in \<open>auto simp: fd_types\<close>)

text \<open>
  C10. An allocation refines the least-number allocator: the descriptor returned is the least closed one
  that is at least the minimum and below the soft limit, it is the only one the table opens, and the
  allocation fails exactly when there is none.
\<close>

theorem fd_alloc_from_refines:
  assumes "fd_inv s" "t \<noteq> FD_CLOSED"
  shows "map_prod id open_set (fd_alloc_from H al minfd t h cleanup s) = spec_alloc (rlimit_nofile_cur H) (nat minfd) (open_set s)"
  by (rule alloc_from_spec [OF assms])

lemma boot_open_set: "open_set (fdtable_init H s) = {0, 1, 2}"
  by (auto simp: open_set_def boot_type fd_types split: if_splits)

theorem fd_alloc_from_refines_witness:
  "fst (fd_alloc_from host0 None 0 FD_PIPE 5 None (fdtable_init host0 boot0)) = Some 3"
proof -
  have "spec_alloc 1024 0 {0, 1, 2} = (Some 3, insert 3 {0, 1, 2})"
    by (rule spec_alloc_Some) auto
  then show ?thesis
    using fd_alloc_from_refines [OF boot_inv [OF boot0_state, of host0], of FD_PIPE host0 None 0 5 None]
    by (auto simp: boot_open_set rlimit_host0 fd_types map_prod_def split: prod.splits)
qed

text \<open>
  The redirection idiom works: after a close of a descriptor below which every descriptor is open, the
  next open returns that very descriptor.
\<close>

theorem close_then_open_reuses:
  assumes "fd_inv s" "fd < rlimit_nofile_cur H" "\<forall>i<fd. ftype (slot s i) \<noteq> FD_CLOSED"
  shows "fst (fd_alloc_from H al 0 FD_REGULAR h cleanup (snd (sys_close H (int fd) s))) = Some fd"
proof -
  have "i \<in> open_set s" if "i < fd" for i
    using that assms(2,3) less_le_trans [OF assms(2) rlimit_le] by (simp add: open_set_def)
  then show ?thesis
    using fa.reuse [OF assms(1,2), of al h cleanup] by simp
qed

theorem close_then_open_reuses_witness:
  "fst (fd_alloc_from host0 None 0 FD_REGULAR 7 None (snd (sys_close host0 (int 1) (fdtable_init host0 boot0)))) = Some 1"
  by (rule close_then_open_reuses [OF boot_inv [OF boot0_state]]) (simp_all add: rlimit_host0 boot_type fd_types)

lemma set_bit_or: "bit (fl :: u32) n \<Longrightarrow> fl OR 2 ^ n = fl"
  by (intro bit_eqI) (auto simp: bit_or_iff bit_exp_iff)

lemma O_NONBLOCK_set: "fl AND O_NONBLOCK \<noteq> 0 \<Longrightarrow> fl OR O_NONBLOCK = fl"
  using set_bit_or [of fl 2] and_exp_eq_0_iff_not_bit [of fl 2] by (simp add: O_NONBLOCK_def)

lemma setfl_restore:
  assumes "host_flags s h = Some fl" "setfl_ok H h"
  shows "snd (setfl H h fl (snd (setfl H h fl' s))) = s"
  using assms by (simp add: setfl_def fun_upd_idem)

lemma alloc_from_refused:
  assumes "fd_alloc_from H al minfd t h cleanup s = (None, s')"
  shows "s' = s"
proof -
  obtain probe s1 where p: "fd_probe_host H al t h s = (probe, s1)" by force
  have s': "s' = fd_probe_rollback H probe h s1"
    using assms p by (auto simp: fd_alloc_from_def fd_alloc_locked_def split: option.splits if_splits)
  show ?thesis
  proof (cases "al = None \<and> type_may_block H t h \<and> t \<noteq> FD_STDIO \<and> setfl_ok H h")
    case False
    then show ?thesis
      using p s' by (auto simp: fd_probe_host_def Let_def fd_set_nonblock_def setfl_def fd_probe_rollback_def split: option.splits if_splits)
  next
    case True
    show ?thesis
    proof (cases "host_flags s h")
      case None
      then show ?thesis
        using p s' True by (auto simp: fd_probe_host_def Let_def fd_set_nonblock_def fd_probe_rollback_def)
    next
      case (Some fl)
      then have s1: "s1 = snd (setfl H h (fl OR O_NONBLOCK) s)" and
        pr: "p_restore probe = (if fl AND O_NONBLOCK = 0 then Some fl else None)"
        using p True by (auto simp: fd_probe_host_def Let_def fd_set_nonblock_def setfl_def)
      show ?thesis
        using O_NONBLOCK_set [of fl] s' s1 pr Some True setfl_restore [OF Some, of H "fl OR O_NONBLOCK"]
        by (auto simp: fd_probe_rollback_def setfl_def fun_upd_idem split: if_splits)
    qed
  qed
qed

text \<open>
  A refused allocation leaves no trace: the table, the counters and the host descriptor's status flags, which
  the probe may have changed to non-blocking, are those from before the call.
\<close>

theorem fd_alloc_from_refused:
  assumes "fd_alloc_from H al minfd t h cleanup s = (None, s')"
  shows "s' = s"
  by (rule alloc_from_refused [OF assms])

theorem fd_alloc_from_refused_witness:
  "snd (fd_alloc_from (host0\<lparr>nofile := 0\<rparr>) None 0 FD_PIPE 1 None (fdtable_init host0 boot0)) = fdtable_init host0 boot0"
proof -
  let ?r = "fd_alloc_from (host0\<lparr>nofile := 0\<rparr>) None 0 FD_PIPE 1 None (fdtable_init host0 boot0)"
  have "fst ?r = fst (map_prod id open_set ?r)" by simp
  also have "\<dots> = None"
    using alloc_from_spec [OF boot_inv [OF boot0_state, of host0], of FD_PIPE "host0\<lparr>nofile := 0\<rparr>" None 0 1 None]
    by (simp add: rlimit_nofile_cur_def spec_alloc_def fd_types)
  finally show ?thesis
    by (intro fd_alloc_from_refused [of "host0\<lparr>nofile := 0\<rparr>" None 0 FD_PIPE 1 None]) (simp add: prod_eq_iff)
qed

section \<open>Interleavings\<close>

text \<open>
  A run to evaluate on: one thread opens host descriptor 5 and publishes it, another borrows it with the object at
  address 9, a third closes the guest descriptor.
\<close>

lemma run_opened: "\<exists>w. fd_run boot0 1 w \<and> st w = (fdtable_init host0 boot0)\<lparr>host_flags := (host_flags boot0)(5 \<mapsto> 2)\<rparr> \<and>
    held w = Map.empty(0 \<mapsto> 5) \<and> pend w = Map.empty \<and> pins w = Map.empty \<and> walks w = Map.empty \<and> stray w = 0"
proof -
  have hf: "host_flags (fdtable_init host0 boot0) = host_flags boot0" by (simp add: fdtable_init_def)
  let ?w = "world0 host0 boot0\<lparr>st := (st (world0 host0 boot0))\<lparr>host_flags := (host_flags (st (world0 host0 boot0)))(5 \<mapsto> 2)\<rparr>,
    held := (held (world0 host0 boot0))(0 \<mapsto> 5)\<rparr>"
  have "fd_step (world0 host0 boot0) ?w"
    by (rule fd_step.host_open) (simp_all add: world0_def hf, simp add: boot0_def)
  then have "fd_run boot0 1 ?w"
    using fd_run.step [OF fd_run.start [OF boot0_state, of host0]] by fastforce
  then show ?thesis
    by (intro exI [of _ ?w]) (simp add: world0_def hf)
qed

lemma run_published: "\<exists>w. fd_run boot0 2 w \<and> fd_inv (st w) \<and> ftype (slot (st w) 3) = FD_PIPE \<and> host_fd (slot (st w) 3) = 5 \<and>
    lifetime (slot (st w) 3) = None \<and> lifetimes (st w) = Map.empty \<and> held w = Map.empty \<and> pend w = Map.empty \<and> pins w = Map.empty \<and> walks w = Map.empty \<and> stray w = 0"
proof -
  obtain w where w: "fd_run boot0 1 w" and s: "st w = (fdtable_init host0 boot0)\<lparr>host_flags := (host_flags boot0)(5 \<mapsto> 2)\<rparr>"
    and rest: "held w = Map.empty(0 \<mapsto> 5)" "pend w = Map.empty" "pins w = Map.empty" "walks w = Map.empty" "stray w = 0"
    using run_opened by blast
  obtain probe s1 where p: "fd_probe_host host0 None FD_PIPE 5 (st w) = (probe, s1)" by force
  have oh: "only_host (st w) s1" using only_host_probe [of "st w" host0 None FD_PIPE 5] p by simp
  have inv: "world_inv w" using fd_run_inv [OF w] rest(5) by simp
  have i1: "fd_inv s1" using world_invD(1) [OF inv] only_host_inv [OF oh] by simp
  have os: "open_set s1 = {0, 1, 2}"
    using open_set_cong [OF only_host_slot [OF oh]] same_table_open_set [of "fdtable_init host0 boot0" "st w"] s boot_open_set by simp
  let ?s = "fd_init_entry None 3 FD_PIPE 5 None probe s1"
  have find: "fd_bitmap_find_free 0 s1 = Some 3"
  proof -
    have free: "free_fd s1 i \<longleftrightarrow> i \<notin> {0, 1, 2}" if "i < 1024" for i
      using fd_invD(5) [OF i1 that] that os [symmetric] by (simp add: open_set_def)
    have "lowest_free (free_fd s1) 0 = Some 3"
      unfolding lowest_free_Some_iff using free by auto
    then show ?thesis
      using fd_bitmap_find_free_lowest [OF fd_invD(2) [OF i1], of 0] by simp
  qed
  then have "fd_alloc_from host0 None 0 FD_PIPE 5 None (st w) = (Some 3, ?s)"
    using p by (simp add: fd_alloc_from_def fd_alloc_locked_def rlimit_host0)
  from fd_step.publish [OF _ _ _ this, of 0] rest
  have st: "fd_step w (w\<lparr>st := ?s, held := Map.empty\<rparr>)"
    by (simp add: fd_types)
  have g: "fd_next_generation s1 \<noteq> UINT64_MAX"
    using oh s by (simp add: only_host_def UINT64_MAX_def)
  have "fd_inv ?s" by (rule fd_inv_init_entry [OF i1 _ _ g]) (simp_all add: fd_types)
  then show ?thesis
    using fd_run.step [OF w st] fd_init_entry_slot [of 3 s1 None FD_PIPE 5 None probe] fd_invD(1) [OF i1] rest oh s
    by (intro exI [of _ "w\<lparr>st := ?s, held := Map.empty\<rparr>"]) (simp add: only_host_def boot0_def numeral_2_eq_2)
qed


lemma run_borrowed: "\<exists>w. fd_run boot0 4 w \<and> stray w = 0 \<and> pins w 0 = Some (5, 9) \<and> ftype (slot (st w) 3) = FD_CLOSED"
proof -
  obtain w where w: "fd_run boot0 2 w" and inv: "fd_inv (st w)"
    and sl: "ftype (slot (st w) 3) = FD_PIPE" "host_fd (slot (st w) 3) = 5" "lifetime (slot (st w) 3) = None"
    and rest: "lifetimes (st w) = Map.empty" "held w = Map.empty" "pend w = Map.empty" "pins w = Map.empty" "walks w = Map.empty" "stray w = 0"
    using run_published by blast
  let ?s = "set_slot 3 ((slot (st w) 3)\<lparr>lifetime := Some 9\<rparr>) (st w)"
  let ?s1 = "?s\<lparr>lifetimes := (lifetimes (st w))(9 \<mapsto> \<lparr>refs = 2, l_host_fd = 5, l_type = FD_PIPE, l_dir = None\<rparr>)\<rparr>"
  let ?w1 = "w\<lparr>st := ?s1, pins := (pins w)(0 \<mapsto> (5, 9))\<rparr>"
  have "acquire_pass 3 (Some 9) (st w) = (Acq_Ok 5 9, None, ?s1)"
    using sl by (simp add: acquire_pass_def fd_snapshot_locked_def fd_lifetime_pin_spare_def RANGE_CHECK_def Let_def fd_types)
  from fd_step.acquire [OF _ _ this, of 0] rest have "fd_step w ?w1" by (simp add: RANGE_CHECK_def)
  then have w1: "fd_run boot0 3 ?w1"
    using fd_run.step [OF w] by fastforce
  have t1: "length (fd_table (st ?w1)) = 1024" using fd_invD(1) [OF inv] by simp
  have ty: "ftype (slot (st ?w1) 3) = FD_PIPE" using sl t1 by (simp add: slot_def)
  let ?w2 = "?w1\<lparr>st := snd (fd_mark_closed_unlocked 3 (st ?w1)), pend := (pend ?w1)(1 \<mapsto> (nat 3, slot (st ?w1) 3))\<rparr>"
  have "fd_snapshot_and_close 3 (st ?w1) = (Some (slot (st ?w1) 3), snd (fd_mark_closed_unlocked 3 (st ?w1)))"
    using ty by (simp add: fd_snapshot_and_close_def fd_snapshot_locked_def RANGE_CHECK_def fd_types)
  from fd_step.close_slot [OF this, of 1] rest have "fd_step ?w1 ?w2" by simp
  then have "fd_run boot0 4 ?w2" using fd_run.step [OF w1] by fastforce
  then show ?thesis
    using mark_closed_slot(2) [OF t1, of 3] rest(6) by (intro exI [of _ ?w2]) simp
qed

text \<open>
  C31. However the threads' windows interleave, the table stays well formed: the free bitmap names exactly the
  closed slots, the shim's urandom bitmap marks only urandom slots, and the generations of open slots are
  distinct, non-zero and already minted.
\<close>

theorem fd_run_well_formed:
  assumes "fd_run s0 n w" "n < 2 ^ 64 - 5"
  shows "fd_inv (st w)"
  using fd_run_table [OF assms] by blast

text \<open>
  C1. However the threads' windows interleave, no host descriptor number is ever closed when it is not open, so none is
  closed twice and no close hits a number somebody else has been given since. The run may retire published slots at any
  time, replacements by a sibling included, except that no retirement finds a directory with a stream or one of the
  launcher's descriptors under the number and host descriptor it was given.
\<close>

theorem fd_run_no_stray_close:
  assumes "fd_run s0 n w" "n < 2 ^ 64 - 5" "stray w = 0"
  shows "bad_closes (st w) = 0"
  using ledgerD(6) [OF world_invD(2) [OF fd_run_inv [OF assms]]] by (simp add: host_ok_def)

text \<open>
  C21. A borrowed host descriptor stays open until its borrower lets go, whatever the other threads close or replace, in a
  run in which no \<open>fd_retire_published\<close> found a directory with a stream or one of the launcher's descriptors.
\<close>

theorem fd_run_borrow_open:
  assumes "fd_run s0 n w" "n < 2 ^ 64 - 5" "stray w = 0" "pins w t = Some (h, l)"
  shows "host_flags (st w) h \<noteq> None"
  using world_pin_open [OF fd_run_inv [OF assms(1-3)], of t h l] assms(4) by (auto simp: open_fds_def)

theorem fd_run_well_formed_witness: "\<exists>w. fd_run boot0 4 w \<and> fd_inv (st w)"
  using run_borrowed fd_run_well_formed [of boot0 4] by auto

theorem fd_run_no_stray_close_witness: "\<exists>w. fd_run boot0 4 w \<and> stray w = 0 \<and> bad_closes (st w) = 0"
  using run_borrowed fd_run_no_stray_close [of boot0 4] by auto

theorem fd_run_borrow_open_witness:
  "\<exists>w. fd_run boot0 4 w \<and> ftype (slot (st w) 3) = FD_CLOSED \<and> host_flags (st w) 5 \<noteq> None"
proof -
  obtain w where w: "fd_run boot0 4 w" "stray w = 0" "pins w 0 = Some (5, 9)" "ftype (slot (st w) 3) = FD_CLOSED"
    using run_borrowed by blast
  have "host_flags (st w) 5 \<noteq> None"
    by (rule fd_run_borrow_open [OF w(1) _ w(2,3)]) simp
  then show ?thesis using w by blast
qed

text \<open>With no window outstanding, only slots hold anything.\<close>

lemma quiescent_holders:
  assumes "pend w = Map.empty" "pins w = Map.empty" "walks w = Map.empty" "held w = Map.empty"
  shows "w_own w x = Some h \<Longrightarrow> \<exists>i. x = Slot i" "w_lref w x = Some l \<Longrightarrow> \<exists>i. x = Slot i" "w_dref w x = Some d \<Longrightarrow> \<exists>i. x = Slot i"
  using assms by (cases x; simp)+

lemma quiescent_life:
  assumes inv: "world_inv w" and q: "pend w = Map.empty" "pins w = Map.empty" "walks w = Map.empty" "held w = Map.empty"
    and l: "lifetimes (st w) l = Some obj"
  shows "\<exists>fd<1024. ftype (slot (st w) fd) \<noteq> FD_CLOSED \<and> host_fd (slot (st w) fd) = l_host_fd obj"
proof -
  note led = world_invD(2) [OF inv]
  have "card {x. w_lref w x = Some l} \<noteq> 0"
    using ledgerD(2,4) [OF led] l by (simp add: counted_def life_count_def life_ok_def)
  then obtain x where x: "w_lref w x = Some l" by (metis (mono_tags, lifting) card.empty empty_Collect_eq)
  obtain i where i: "x = Slot i" using quiescent_holders(2) [OF q x] by blast
  then have "i < 1024" "ftype (slot (st w) i) \<noteq> FD_CLOSED" using x by (auto simp: entry_lref_def split: if_splits)
  then show ?thesis
    using ledger_lref [OF led x] l i by auto
qed

lemma quiescent_stream:
  assumes inv: "world_inv w" and q: "pend w = Map.empty" "pins w = Map.empty" "walks w = Map.empty" "held w = Map.empty"
    and d: "dir_streams (st w) d = Some ds"
  shows "\<exists>fd<1024. ftype (slot (st w) fd) \<noteq> FD_CLOSED \<and> host_fd (slot (st w) fd) = ds_fd ds"
proof -
  note led = world_invD(2) [OF inv]
  have "card {p. dir_user (st w) (w_dref w) p = Some d} \<noteq> 0"
    using ledgerD(3,5) [OF led] d by (simp add: counted_def dir_count_def dirs_ok_def)
  then obtain p where p: "dir_user (st w) (w_dref w) p = Some d" by (metis (mono_tags, lifting) card.empty empty_Collect_eq)
  show ?thesis
  proof (cases p)
    case (Ext x)
    then have x: "w_dref w x = Some d" using p by simp
    obtain i where i: "x = Slot i" using quiescent_holders(3) [OF q x] by blast
    then have "i < 1024" "ftype (slot (st w) i) \<noteq> FD_CLOSED" using x by (auto simp: entry_dref_def fd_types split: if_splits)
    then show ?thesis
      using ledger_dref [OF led x] d i by auto
  next
    case (Life l)
    then obtain obj where obj: "lifetimes (st w) l = Some obj" "l_dir obj = Some d"
      using p by (auto split: bind_splits)
    then have "ds_fd ds = l_host_fd obj"
      using ledgerD(4) [OF led, unfolded life_ok_def, rule_format, OF obj(1)] obj(2) d by auto
    then show ?thesis
      using quiescent_life [OF inv q obj(1)] by simp
  qed (use p in simp)
qed

text \<open>
  C22. Nothing leaks: in a run with no call in flight, in which no \<open>fd_retire_published\<close> found a directory with a stream or
  one of the launcher's descriptors, every open host descriptor but the launcher's three is the descriptor of some open
  guest slot.
\<close>

theorem fd_run_no_leak:
  assumes "fd_run s0 n w" "n < 2 ^ 64 - 5" "stray w = 0"
    "pend w = Map.empty" "pins w = Map.empty" "walks w = Map.empty" "held w = Map.empty" "host_flags (st w) h \<noteq> None" "h \<notin> launcher"
  shows "\<exists>fd<1024. ftype (slot (st w) fd) \<noteq> FD_CLOSED \<and> host_fd (slot (st w) fd) = h"
proof -
  have inv: "world_inv w" by (rule fd_run_inv [OF assms(1-3)])
  have "h \<in> ran (owner (st w) (w_own w))"
    using ledgerD(1) [OF world_invD(2) [OF inv]] assms(8,9) by (simp add: tracks_def open_fds_def)
  then obtain p where p: "owner (st w) (w_own w) p = Some h" by (auto simp: ran_def)
  show ?thesis
  proof (cases p)
    case (Ext x)
    then obtain i where "x = Slot i" using quiescent_holders(1) [OF assms(4-7), of x h] p by auto
    then show ?thesis using Ext p by (auto simp: entry_own_def split: if_splits)
  next
    case (Life l)
    then obtain obj where "lifetimes (st w) l = Some obj" "l_host_fd obj = h"
      using p by (auto simp: life_owns_def split: bind_splits if_splits)
    then show ?thesis using quiescent_life [OF inv assms(4-7)] by blast
  next
    case (Stream d)
    then obtain ds where "dir_streams (st w) d = Some ds" "ds_fd ds = h" using p by auto
    then show ?thesis using quiescent_stream [OF inv assms(4-7)] by blast
  qed
qed

theorem fd_run_no_leak_witness:
  "\<exists>w. fd_run boot0 2 w \<and> (\<exists>fd<1024. ftype (slot (st w) fd) \<noteq> FD_CLOSED \<and> host_fd (slot (st w) fd) = 5)"
proof -
  obtain w where w: "fd_run boot0 2 w" "ftype (slot (st w) 3) = FD_PIPE" "host_fd (slot (st w) 3) = 5"
    and rest: "stray w = 0" "pend w = Map.empty" "pins w = Map.empty" "walks w = Map.empty" "held w = Map.empty"
    using run_published by blast
  have inv: "world_inv w" using fd_run_inv [OF w(1)] rest(1) by simp
  have "host_flags (st w) 5 \<noteq> None"
    using world_slot_open [OF inv, of 3] w(2,3) by (simp add: open_fds_def fd_types)
  then show ?thesis
    using fd_run_no_leak [OF w(1) _ rest, of 5] w(1) by (auto simp: launcher_def)
qed

section \<open>A retirement that meets a replacement\<close>

text \<open>
  \<open>fd_retire_published\<close> compares the slot's type and host descriptor only. When a sibling closed the published slot and
  a directory came to stand in its place under the same two numbers, the call closes the descriptor of the directory's
  stream: an alias of the directory that the guest holds is left with a closed host descriptor, and retiring the alias in
  the same way closes that number a second time.
\<close>

lemma retire_directory:
  assumes "length (fd_table s) = 1024" "a < 1024" "ftype (slot s a) = FD_DIR" "lifetime (slot s a) = None" "host_fd (slot s a) = h" "h \<ge> 0"
  shows "fd_retire_published (int a) h s = close_host h (snd (fd_mark_closed_unlocked a s))"
  using assms mark_closed_fields(6) [of a s]
  by (cases "fd_mark_closed_unlocked a s") (simp add: fd_retire_published_def RANGE_CHECK_def fd_types)

lemma retire_closes_alias:
  assumes len: "length (fd_table s) = 1024" and ab: "a < 1024" "b < 1024" "a \<noteq> b"
    and a: "ftype (slot s a) = FD_DIR" "lifetime (slot s a) = None" "host_fd (slot s a) = h"
    and b: "ftype (slot s b) = FD_DIR" "lifetime (slot s b) = None" "host_fd (slot s b) = h"
    and h: "h \<ge> 0" "host_flags s h \<noteq> None"
  defines "s1 \<equiv> fd_retire_published (int a) h s"
  shows "slot s1 b = slot s b" "host_flags s1 h = None" "bad_closes (fd_retire_published (int b) h s1) = bad_closes s + 1"
proof -
  let ?m = "snd (fd_mark_closed_unlocked a s)"
  have s1: "s1 = close_host h ?m" unfolding s1_def by (rule retire_directory [OF len ab(1) a h(1)])
  have f: "host_flags ?m = host_flags s" "bad_closes ?m = bad_closes s" "length (fd_table ?m) = 1024"
    using len by (simp_all add: fd_mark_closed_unlocked_def Let_def)
  show sl: "slot s1 b = slot s b" using s1 mark_closed_slot(7) [OF len ab(1), of b] ab(3) by simp
  show none: "host_flags s1 h = None" using s1 f h by (auto simp: close_host_def)
  have "bad_closes s1 = bad_closes s" using s1 f h by (auto simp: close_host_def)
  moreover have "fd_retire_published (int b) h s1 = close_host h (snd (fd_mark_closed_unlocked b s1))"
    by (rule retire_directory) (use s1 f(3) ab b sl h in simp_all)
  moreover have "host_flags (snd (fd_mark_closed_unlocked b s1)) = host_flags s1" "bad_closes (snd (fd_mark_closed_unlocked b s1)) = bad_closes s1"
    by (simp_all add: fd_mark_closed_unlocked_def Let_def)
  ultimately show "bad_closes (fd_retire_published (int b) h s1) = bad_closes s + 1"
    using none h(1) by (simp add: close_host_def)
qed

end
