(* ===== verification/Fd_Calls.thy ===== *)
theory Fd_Calls
  imports Fd_Theorems
begin

text \<open>
  The calls built on the descriptor table: \<^verbatim>\<open>dup\<close>, \<^verbatim>\<open>dup3\<close> and \<^verbatim>\<open>close_range\<close> of
  \<^verbatim>\<open>src/src/syscall/fs.c\<close>, the borrow loop, and the sweep over the names of one open file description.
  A call that drops the lock between two windows takes the other threads' work there as an argument.
\<close>

section \<open>Duplicating a descriptor\<close>

definition FD_FUSE_DEV :: int where "FD_FUSE_DEV = 14"
definition FD_FUSE_FILE :: int where "FD_FUSE_FILE = 15"
definition FD_FUSE_DIR :: int where "FD_FUSE_DIR = 16"

lemmas fuse_types = FD_FUSE_DEV_def FD_FUSE_FILE_def FD_FUSE_DIR_def

text \<open>
  \<open>Dup_fuse\<close>, \<open>Dup_eventfd\<close> and \<open>Dup_epoll\<close> are the tail calls into the modules that share their own
  state between the two names; \<open>Dup_host\<close> is the host's errno.
\<close>

datatype dup_result = Dup_fd nat | Dup_EBADF | Dup_EINVAL | Dup_EMFILE | Dup_host | Dup_fuse | Dup_eventfd int u64 | Dup_epoll int u64

definition install_fd_alias_metadata_atomic ::
  "nat \<Rightarrow> int \<Rightarrow> int \<Rightarrow> fd_entry \<Rightarrow> u64 \<Rightarrow> fd_state \<Rightarrow> bool \<times> fd_state" where
  "install_fd_alias_metadata_atomic dst expected_type expected_host_fd snap expected_gen s =
     (let e = slot s dst in
      if ftype e = expected_type \<and> host_fd e = expected_host_fd \<and> generation e = expected_gen then
        (let s1 = set_slot dst (e\<lparr>fasync_owner_type := fasync_owner_type snap, fasync_owner := fasync_owner snap,
                    seals := seals snap, proc_path := proc_path snap\<rparr>) s;
             readable = (expected_type = FD_URANDOM \<and> linux_flags (slot s1 dst) AND LINUX_O_ACCMODE \<noteq> LINUX_O_WRONLY)
         in (True, shim_globals_mark_urandom_fd dst readable s1))
      else (False, s))"

text \<open>The state after the snapshot window, and what the allocation of the alias is given.\<close>

definition dup_spec :: "int \<Rightarrow> fd_entry \<Rightarrow> u32 \<Rightarrow> fd_alias_spec" where
  "dup_spec src_fd snap flags =
     (fd_alias_of src_fd snap)\<lparr>a_linux_flags := a_linux_flags (fd_alias_of src_fd snap) OR flags\<rparr>"

definition dup_alloc ::
  "fd_host \<Rightarrow> nat option list \<Rightarrow> int \<Rightarrow> int \<Rightarrow> int \<Rightarrow> bool \<Rightarrow> fd_entry \<Rightarrow> int \<Rightarrow> u32 \<Rightarrow> fd_state \<Rightarrow> nat option \<times> fd_state" where
  "dup_alloc H reg src_fd minfd fixed shared snap h flags s =
     (let t = (if ftype snap = FD_STDIO then FD_REGULAR else ftype snap);
          cleanup = fd_cleanup_for_type t reg;
          spec = dup_spec src_fd snap flags
      in case (if shared then dir_ptr snap else None) of
           Some ds \<Rightarrow> fd_alloc_alias_dir H (Some spec) fixed minfd t h cleanup (Some ds) (a_linux_flags spec) s
         | None \<Rightarrow> fd_alloc_alias_relaxed H (Some spec) fixed minfd t h cleanup s)"

definition dup_undo :: "bool \<Rightarrow> fd_entry \<Rightarrow> int \<Rightarrow> fd_state \<Rightarrow> fd_state" where
  "dup_undo shared snap h s =
     (case (if shared then dir_ptr snap else None) of
        Some ds \<Rightarrow> dir_stream_release ds s
      | None \<Rightarrow> close_host h (emit (proc_pty_forget_host_fd h) s))"

definition duplicate_guest_fd ::
  "fd_host \<Rightarrow> nat option list \<Rightarrow> int option \<Rightarrow> bool \<Rightarrow> (fd_state \<Rightarrow> fd_state) \<Rightarrow> (fd_state \<Rightarrow> fd_state) \<Rightarrow>
   int \<Rightarrow> int \<Rightarrow> int option \<Rightarrow> u32 \<Rightarrow> fd_state \<Rightarrow> dup_result \<times> fd_state" where
  "duplicate_guest_fd H reg dup pin_ok others others' src_fd minfd fixed flags s =
     (case fd_snapshot_and_dup_or_share_dir dup src_fd s of
        (h, shared, None, s1) \<Rightarrow> (Dup_EBADF, s1)
      | (h, shared, Some snap, s1) \<Rightarrow>
          let t = ftype snap; dropped = (if h \<ge> 0 then close_host h s1 else s1) in
          if t = FD_FUSE_DEV \<or> t = FD_FUSE_FILE \<or> t = FD_FUSE_DIR then (Dup_fuse, dropped)
          else if t = FD_USBDEV then (Dup_EBADF, dropped)
          else if t = FD_EVENTFD then (Dup_eventfd (host_fd snap) (generation snap), dropped)
          else if t = FD_EPOLL then (Dup_epoll (host_fd snap) (generation snap), dropped)
          else if h < 0 then (Dup_host, s1)
          else
            let s2 = (if t = FD_PIDFD then emit (pidfd_pin (ofd_id snap)) s1 else s1) in
            if t = FD_PIDFD \<and> \<not> pin_ok then (Dup_EBADF, close_host h s2)
            else
              let s3 = (if shared then s2
                        else emit (proc_pty_dup_guest_slave (host_fd snap) h) (emit (proc_pty_dup_keepalive (host_fd snap) h) s2));
                  unpin = (\<lambda>st. if t = FD_PIDFD then emit (pidfd_unpin (ofd_id snap)) st else st);
                  (r, s4) = dup_alloc H reg src_fd minfd (case fixed of Some f \<Rightarrow> f | None \<Rightarrow> -1) shared snap h flags (others s3)
              in case r of
                   None \<Rightarrow> (if fixed = None then Dup_EMFILE else Dup_EBADF, unpin (dup_undo shared snap h s4))
                 | Some g \<Rightarrow>
                     let gen = generation (slot s4 g);
                         new_type = (if t = FD_STDIO then FD_REGULAR else t);
                         (installed, s5) = install_fd_alias_metadata_atomic g new_type h snap gen (others' (unpin s4));
                         s6 = (if installed \<and> (linux_flags snap AND LINUX_O_ASYNC \<noteq> 0 \<or> t = FD_SOCKET \<and> fasync_owner_type snap \<noteq> FASYNC_OWNER_NONE)
                               then emit (asyncio_arm g gen h new_type) s5 else s5)
                     in (Dup_fd g, s6))"

definition sys_dup ::
  "fd_host \<Rightarrow> nat option list \<Rightarrow> int option \<Rightarrow> bool \<Rightarrow> (fd_state \<Rightarrow> fd_state) \<Rightarrow> (fd_state \<Rightarrow> fd_state) \<Rightarrow> int \<Rightarrow> fd_state \<Rightarrow> dup_result \<times> fd_state" where
  "sys_dup H reg dup pin_ok others others' oldfd s = duplicate_guest_fd H reg dup pin_ok others others' oldfd 0 None 0 s"

definition sys_dup3 ::
  "fd_host \<Rightarrow> nat option list \<Rightarrow> int option \<Rightarrow> bool \<Rightarrow> (fd_state \<Rightarrow> fd_state) \<Rightarrow> (fd_state \<Rightarrow> fd_state) \<Rightarrow> int \<Rightarrow> int \<Rightarrow> u32 \<Rightarrow> fd_state \<Rightarrow>
   dup_result \<times> fd_state" where
  "sys_dup3 H reg dup pin_ok others others' oldfd newfd flags s =
     (if flags AND NOT LINUX_O_CLOEXEC \<noteq> 0 then (Dup_EINVAL, s)
      else if \<not> RANGE_CHECK oldfd then (Dup_EBADF, s)
      else if \<not> RANGE_CHECK newfd then (Dup_EBADF, s)
      else if oldfd = newfd then (Dup_EINVAL, s)
      else duplicate_guest_fd H reg dup pin_ok others others' oldfd 0 (Some newfd) (flags AND LINUX_O_CLOEXEC) s)"

section \<open>The sweep over the names of a description\<close>

text \<open>What the sweep does to one slot; doing it twice is doing it once.\<close>

definition relabel :: "u64 \<Rightarrow> u32 \<Rightarrow> u32 \<Rightarrow> fd_entry \<Rightarrow> fd_entry" where
  "relabel oid msk val e =
     (if ftype e \<noteq> FD_CLOSED \<and> ofd_id e = oid then e\<lparr>linux_flags := (linux_flags e AND NOT msk) OR (val AND msk)\<rparr> else e)"

lemma bits_idem: "(((f :: u32) AND NOT m OR v AND m) AND NOT m) OR v AND m = f AND NOT m OR v AND m"
  by (rule bit_eqI) (auto simp: bit_simps)

lemma relabel_idem [simp]: "relabel oid m v (relabel oid m v e) = relabel oid m v e"
  by (simp add: relabel_def bits_idem)

lemma set_slot_id: "set_slot i (slot s i) s = s"
  by (simp add: set_slot_def slot_def)

lemma sweep_one:
  "(if ftype (slot s i) \<noteq> FD_CLOSED \<and> ofd_id (slot s i) = oid then set_shadow_bits_slot m v i s else s) =
   set_slot i (relabel oid m v (slot s i)) s"
  by (simp add: relabel_def set_shadow_bits_slot_def set_slot_id)

lemma fold_set_slot:
  assumes "\<And>e. f (f e) = f e" "j < length (fd_table s)"
  shows "slot (fold (\<lambda>i st. set_slot i (f (slot st i)) st) xs s) j = (if j \<in> set xs then f (slot s j) else slot s j)"
  using assms(2)
proof (induction xs arbitrary: s)
  case (Cons i xs)
  have "slot (set_slot i (f (slot s i)) s) j = (if j = i then f (slot s j) else slot s j)"
    using Cons.prems by (auto simp: slot_def nth_list_update)
  then show ?case
    using Cons.IH [of "set_slot i (f (slot s i)) s"] Cons.prems assms(1) by auto
qed simp

text \<open>The nested loop over words and set bits visits the slots of the flattened list.\<close>

lemma nested_fold:
  assumes "\<And>i st. fd_free_bitmap (g i st) = fd_free_bitmap st"
  shows "fold (\<lambda>w st. fold (\<lambda>b. g (w * 64 + b)) (bits (fd_free_bitmap st ! w)) st) ws s =
    fold g (concat (map (\<lambda>w. map (\<lambda>b. w * 64 + b) (bits (fd_free_bitmap s ! w))) ws)) s"
proof (induction ws arbitrary: s)
  case (Cons w ws)
  have inner: "fold (\<lambda>b. g (w * 64 + b)) bs s = fold g (map (\<lambda>b. w * 64 + b) bs) s" for bs s
    by (induction bs arbitrary: s) simp_all
  have frame: "fd_free_bitmap (fold g xs s) = fd_free_bitmap s" for xs s
    by (induction xs arbitrary: s) (simp_all add: assms)
  show ?case
    by (simp add: Cons.IH inner frame)
qed simp

lemma visited:
  assumes "fd_inv s" "i < 1024" "ftype (slot s i) \<noteq> FD_CLOSED"
  shows "i \<in> set (concat (map (\<lambda>w. map (\<lambda>b. w * 64 + b) (set_bits_of (NOT (fd_free_bitmap s ! w)))) [0..<FD_BITMAP_WORDS]))"
proof -
  have w: "i div 64 < FD_BITMAP_WORDS" using assms(2) by (simp add: less_mult_imp_div_less)
  have b: "i mod 64 \<in> set (set_bits_of (NOT (fd_free_bitmap s ! (i div 64))))"
    using fd_invD(5) [OF assms(1,2)] assms(3) by (simp add: set_bits_of_def bit_set_def bit_not_iff)
  have "i div 64 * 64 + i mod 64 = i" by simp
  then have "i \<in> set (map (\<lambda>b. i div 64 * 64 + b) (set_bits_of (NOT (fd_free_bitmap s ! (i div 64)))))"
    using b by (metis image_eqI set_map)
  then show ?thesis
    using w by (auto simp del: fd_sizes)
qed

text \<open>
  A status-flag change reaches every name of the open file description and nothing else: every open slot
  with the source's description identity gets the masked bits, every other slot is untouched.
\<close>

theorem fd_set_shadow_flags_exact:
  assumes inv: "fd_inv s" and fd: "RANGE_CHECK fd" "ftype (slot s (nat fd)) \<noteq> FD_CLOSED" "ofd_id (slot s (nat fd)) \<noteq> 0" and i: "i < 1024"
  shows "slot (fd_set_shadow_flags fd (generation (slot s (nat fd))) msk val s) i = relabel (ofd_id (slot s (nat fd))) msk val (slot s i)"
proof -
  let ?oid = "ofd_id (slot s (nat fd))" and ?g = "\<lambda>i st. set_slot i (relabel (ofd_id (slot s (nat fd))) msk val (slot st i)) st"
  let ?xs = "concat (map (\<lambda>w. map (\<lambda>b. w * 64 + b) (set_bits_of (NOT (fd_free_bitmap s ! w)))) [0..<FD_BITMAP_WORDS])"
  have "fd_set_shadow_flags fd (generation (slot s (nat fd))) msk val s = fold ?g ?xs s"
    using fd nested_fold [of ?g "\<lambda>w. set_bits_of (NOT w)" "[0..<FD_BITMAP_WORDS]" s]
    by (simp add: fd_set_shadow_flags_def fd_for_each_alias_locked_def Let_def sweep_one del: fd_sizes)
  moreover have "relabel ?oid msk val (slot s i) = slot s i" if "i \<notin> set ?xs"
    using that visited [OF inv i] by (auto simp: relabel_def simp del: fd_sizes)
  ultimately show ?thesis
    using fold_set_slot [of "relabel ?oid msk val" i s ?xs] fd_invD(1) [OF inv] i by (simp del: fd_sizes)
qed

theorem fd_set_shadow_flags_exact_witness:
  "slot (fd_set_shadow_flags 0 1 LINUX_O_NONBLOCK LINUX_O_NONBLOCK (fdtable_init host0 boot0)) 1 = stdio_entry host0 1"
  using fd_set_shadow_flags_exact [OF boot_inv [OF boot0_state, of host0], of 0 1 LINUX_O_NONBLOCK LINUX_O_NONBLOCK]
  by (simp add: boot_slot stdio_entry_def closed_entry_def fd_types RANGE_CHECK_def relabel_def)

section \<open>The borrow loop\<close>

lemma acquire_pass_spare: "fst (acquire_pass fd (Some a) s) \<noteq> Acq_Need"
  by (auto simp: acquire_pass_def split: option.split prod.split)

text \<open>
  C32. Borrowing a descriptor always returns: whatever the other threads do while the lock is down, the second pass
  at the latest has an answer.
\<close>

theorem fd_host_ref_acquire_returns: "\<exists>r s'. fd_host_ref_acquire fd malloc others s = Some (r, s') \<and> r \<noteq> Acq_Need"
proof -
  obtain r sp s1 where p1: "acquire_pass fd None s = (r, sp, s1)" by (cases "acquire_pass fd None s") auto
  have two: "\<exists>r s'. acquire_loop fd malloc others k (Some a) s = Some (r, s') \<and> r \<noteq> Acq_Need" for k a s
    using acquire_pass_spare [of fd a s] by (subst acquire_loop.simps) (auto split: prod.split)
  have "\<exists>r s'. acquire_loop fd malloc others 0 None s = Some (r, s') \<and> r \<noteq> Acq_Need"
    using p1 two by (subst acquire_loop.simps) (auto split: option.split)
  then show ?thesis by (simp add: fd_host_ref_acquire_def)
qed

section \<open>Closing a range\<close>

lemma close_one_cases:
  assumes "i < 1024"
  shows "ftype (slot s i) = FD_CLOSED \<and> close_one i s = s \<or>
    ftype (slot s i) \<noteq> FD_CLOSED \<and> same_table (snd (fd_mark_closed_unlocked i s)) (close_one i s)"
  using assms same_table_cleanup by (simp add: close_one_def fd_snapshot_and_close_def fd_snapshot_locked_def RANGE_CHECK_def)

lemma close_one_effect:
  assumes inv: "fd_inv s" and i: "i < 1024"
  shows "fd_inv (close_one i s) \<and> open_set (close_one i s) = open_set s - {i}"
  using close_one_cases [OF i, of s]
proof (elim disjE conjE)
  assume "ftype (slot s i) = FD_CLOSED" "close_one i s = s"
  then show ?thesis using inv by (auto simp: open_set_def)
next
  assume "same_table (snd (fd_mark_closed_unlocked i s)) (close_one i s)"
  then show ?thesis
    using same_table_inv fd_inv_mark_closed [OF inv i] same_table_open_set open_set_mark_closed [OF inv i] by metis
qed

lemma close_many:
  assumes "fd_inv s" "\<And>i. i \<in> set is \<Longrightarrow> i < 1024"
  shows "fd_inv (fold close_one is s) \<and> open_set (fold close_one is s) = open_set s - set is"
  using assms
proof (induction "is" arbitrary: s)
  case (Cons i "is")
  then show ?case using close_one_effect [of s i] by auto
qed simp

text \<open>
  C13. \<^verbatim>\<open>close_range\<close> closes every descriptor of the range and no other, however far the range reaches past
  the table.
\<close>

theorem sys_close_range_closes:
  assumes "fd_inv s" "first \<le> last0"
  shows "open_set (snd (sys_close_range first last0 0 s)) = open_set s - {unat first..unat last0}"
proof -
  let ?last = "if unat last0 \<ge> FD_TABLE_SIZE then FD_TABLE_SIZE - 1 else unat last0"
  let ?r = "[unat first..<min (?last + 1) FD_TABLE_SIZE]"
  have r: "snd (sys_close_range first last0 0 s) = fold close_one ?r s"
    unfolding sys_close_range_def Let_def using leD [OF assms(2)] by simp
  have mem: "i \<in> set ?r \<longleftrightarrow> unat first \<le> i \<and> i \<le> unat last0 \<and> i < 1024" for i
    by (cases "unat last0 \<ge> 1024") (simp_all, linarith+)
  have "open_set (fold close_one ?r s) = open_set s - set ?r"
    using close_many [OF assms(1), of ?r] mem by blast
  also have "\<dots> = open_set s - {unat first..unat last0}"
    unfolding set_eq_iff Diff_iff mem by (auto simp: open_set_def)
  finally show ?thesis using r by simp
qed

theorem sys_close_range_closes_witness:
  "open_set (snd (sys_close_range 1 5000 0 (fdtable_init host0 boot0))) = {0}"
proof -
  have "(1 :: u32) \<le> 5000" by (simp add: word_le_nat_alt)
  from sys_close_range_closes [OF boot_inv [OF boot0_state, of host0] this]
  have "open_set (snd (sys_close_range 1 5000 0 (fdtable_init host0 boot0))) = {0, 1, 2} - {1..5000}"
    by (simp add: boot_open_set)
  also have "\<dots> = {0}" by (simp add: insert_Diff_if)
  finally show ?thesis .
qed

section \<open>Pipes\<close>

text \<open>What a fresh allocation of a pipe end changes, and what retiring it takes back.\<close>

definition only_flag :: "int \<Rightarrow> fd_state \<Rightarrow> fd_state \<Rightarrow> bool" where
  "only_flag h s s' \<longleftrightarrow> only_host s s' \<and> (\<forall>x. x \<noteq> h \<longrightarrow> host_flags s' x = host_flags s x)"

lemma only_flag_nonblock: "only_flag h s (snd (fd_set_nonblock H h s))"
  using only_host_nonblock [of s H h] by (auto simp: only_flag_def fd_set_nonblock_def setfl_def split: option.split)

lemma only_flag_probe: "only_flag h s (snd (fd_probe_host H None t h s))"
  using only_flag_nonblock [of h s H] by (auto simp: only_flag_def fd_probe_host_def Let_def split: prod.split)

lemma only_flag_own: "only_flag h s (own_nonblock H g h s)"
  using only_flag_nonblock [of h s H] by (simp add: own_nonblock_def only_flag_def)

definition pipe_end :: "nat \<Rightarrow> int \<Rightarrow> fd_state \<Rightarrow> bool" where
  "pipe_end g h s \<longleftrightarrow> g < 1024 \<and> ftype (slot s g) = FD_PIPE \<and> host_fd (slot s g) = h \<and> lifetime (slot s g) = None"

lemma fd_alloc_pipe:
  assumes a: "fd_alloc H None FD_PIPE h None s = (Some g, s')" and inv: "fd_inv s" and room: "fd_next_generation s \<noteq> UINT64_MAX"
  shows "fd_inv s'" "g \<notin> open_set s" "open_set s' = insert g (open_set s)" "pipe_end g h s'"
    "\<And>g' h'. g' \<in> open_set s \<Longrightarrow> pipe_end g' h' s \<Longrightarrow> pipe_end g' h' s'"
    "\<And>x. x \<noteq> h \<Longrightarrow> host_flags s' x = host_flags s x" "open_fds s' = open_fds s" "bad_closes s' = bad_closes s"
    "fd_next_generation s' = fd_next_generation s + 1"
proof -
  obtain probe s1 where p: "fd_probe_host H None FD_PIPE h s = (probe, s1)" by force
  have of: "only_flag h s s1" using only_flag_probe [of h s H FD_PIPE] p by simp
  then have oh: "only_host s s1" by (simp add: only_flag_def)
  have i1: "fd_inv s1" using inv only_host_inv [OF oh] by simp
  have "fd_alloc_locked H None 0 FD_PIPE h None probe s1 = (Some g, s')"
    using a p by (simp add: fd_alloc_def)
  from alloc_lockedD [OF this i1] have g: "g < 1024" "ftype (slot s1 g) = FD_CLOSED" and s': "s' = fd_init_entry None g FD_PIPE h None probe s1"
    by auto
  have len: "length (fd_table s1) = 1024" using fd_invD(1) [OF i1] .
  have sl: "slot s1 = slot s" using only_host_slot [OF oh] .
  show "fd_inv s'"
    unfolding s' by (rule fd_inv_init_entry [OF i1 g(1)]) (use room oh in \<open>simp_all add: only_host_def fd_types\<close>)
  show "g \<notin> open_set s" using g sl by (simp add: open_set_def)
  show "open_set s' = insert g (open_set s)"
    using open_set_init [OF i1 g(1), of FD_PIPE] open_set_cong [OF sl] s' by (simp add: fd_types)
  show "pipe_end g h s'"
    using fd_init_entry_slot [of g s1] len g(1) s' by (simp add: pipe_end_def)
  show "pipe_end g' h' s'" if "g' \<in> open_set s" "pipe_end g' h' s" for g' h'
  proof -
    have "g' \<noteq> g" using that(1) g sl by (auto simp: open_set_def)
    then show ?thesis
      using that(2) slot_fd_init_entry [OF len, of g' None g FD_PIPE h None probe] s' sl by (simp add: pipe_end_def)
  qed
  show "host_flags s' x = host_flags s x" if "x \<noteq> h" for x
    using of that s' by (simp add: only_flag_def)
  show "open_fds s' = open_fds s" "bad_closes s' = bad_closes s" "fd_next_generation s' = fd_next_generation s + 1"
    using oh s' by (simp_all add: only_host_def)
qed

lemma retire_pipe_end:
  assumes inv: "fd_inv s" and p: "pipe_end g h s" and h: "h \<ge> 0" "host_flags s h \<noteq> None"
  defines "s' \<equiv> fd_retire_published (int g) h s"
  shows "fd_inv s'" "open_set s' = open_set s - {g}" "host_flags s' = (host_flags s)(h := None)" "bad_closes s' = bad_closes s"
    "\<And>g' h'. g' \<noteq> g \<Longrightarrow> pipe_end g' h' s \<Longrightarrow> pipe_end g' h' s'"
proof -
  have g: "g < 1024" using p by (simp add: pipe_end_def)
  let ?m = "snd (fd_mark_closed_unlocked g s)"
  obtain l m where m: "fd_mark_closed_unlocked g s = (l, m)" by force
  moreover have "l = None" using mark_closed_fields(6) [of g s] m p by (simp add: pipe_end_def)
  ultimately have s': "s' = close_host h ?m"
    using p h(1) g by (simp add: s'_def fd_retire_published_def RANGE_CHECK_def pipe_end_def fd_types)
  have tab: "same_table ?m s'" using s' by simp
  show "fd_inv s'" using same_table_inv [OF tab] fd_inv_mark_closed [OF inv g] by simp
  show "open_set s' = open_set s - {g}" using same_table_open_set [OF tab] open_set_mark_closed [OF inv g] by simp
  obtain fl where "host_flags ?m h = Some fl" using h(2) by auto
  then show "host_flags s' = (host_flags s)(h := None)" "bad_closes s' = bad_closes s"
    using s' h(1) by (simp_all add: close_host_def)
  show "pipe_end g' h' s'" if "g' \<noteq> g" "pipe_end g' h' s" for g' h'
    using that same_table_slot [OF tab] mark_closed_slot(7) [OF fd_invD(1) [OF inv] g, of g'] by (simp add: pipe_end_def)
qed

lemma fd_alloc_from_0: "fd_alloc H al t h cleanup s = fd_alloc_from H al 0 t h cleanup s"
  by (simp add: fd_alloc_def fd_alloc_from_def)

lemma pipe_end_publish: "pipe_end g h (fd_publish_linux_flags fd fl s) = pipe_end g h s"
  using same_linksD [OF same_links_publish [of s fd fl]] by (auto simp: pipe_end_def)

lemma open_set_publish: "open_set (fd_publish_linux_flags fd fl s) = open_set s"
  using same_linksD [OF same_links_publish [of s fd fl]] by (auto simp: open_set_def)

lemma publish_frame [simp]:
  "host_flags (fd_publish_linux_flags fd fl s) = host_flags s" "bad_closes (fd_publish_linux_flags fd fl s) = bad_closes s"
  by (simp_all add: fd_publish_linux_flags_def)

lemma only_flag_pipe:
  assumes "only_flag h s s'"
  shows "fd_inv s' = fd_inv s" "pipe_end g h' s' = pipe_end g h' s" "open_set s' = open_set s" "open_fds s' = open_fds s" "bad_closes s' = bad_closes s"
    "x \<noteq> h \<Longrightarrow> host_flags s' x = host_flags s x"
proof -
  have oh: "only_host s s'" and x: "\<And>x. x \<noteq> h \<Longrightarrow> host_flags s' x = host_flags s x" using assms by (simp_all add: only_flag_def)
  show "fd_inv s' = fd_inv s" by (rule only_host_inv [OF oh])
  show "pipe_end g h' s' = pipe_end g h' s" by (simp add: pipe_end_def only_host_slot [OF oh])
  show "open_set s' = open_set s" by (rule open_set_cong [OF only_host_slot [OF oh]])
  show "open_fds s' = open_fds s" "bad_closes s' = bad_closes s" using oh by (simp_all add: only_host_def)
  show "x \<noteq> h \<Longrightarrow> host_flags s' x = host_flags s x" by (rule x)
qed

text \<open>Both ends retired from a state that differs from the one before the pipe only in them.\<close>

lemma retire_both:
  assumes inv: "fd_inv s'" and p: "pipe_end g0 h0 s'" "pipe_end g1 h1 s'" "g0 \<noteq> g1" and h: "h0 \<ge> 0" "h1 \<ge> 0" "h0 \<noteq> h1"
    and hf: "host_flags s' h0 \<noteq> None" "host_flags s' h1 \<noteq> None" "\<And>x. x \<noteq> h0 \<Longrightarrow> x \<noteq> h1 \<Longrightarrow> host_flags s' x = host_flags s x"
    and s: "host_flags s h0 = None" "host_flags s h1 = None" "bad_closes s' = bad_closes s"
    and os: "open_set s' = insert g1 (insert g0 (open_set s))" "g0 \<notin> open_set s" "g1 \<notin> open_set s"
  defines "s2 \<equiv> fd_retire_published (int g1) h1 (fd_retire_published (int g0) h0 s')"
  shows "(open_set s2, host_flags s2, bad_closes s2) = (open_set s, host_flags s, bad_closes s)"
proof -
  let ?s1 = "fd_retire_published (int g0) h0 s'"
  note r0 = retire_pipe_end [OF inv p(1) h(1) hf(1)]
  have "pipe_end g1 h1 ?s1" using r0(5) [of g1 h1] p(2,3) by simp
  moreover have "host_flags ?s1 h1 \<noteq> None" using r0(3) hf(2) h(3) by simp
  ultimately have r1: "open_set s2 = open_set ?s1 - {g1}" "host_flags s2 = (host_flags ?s1)(h1 := None)" "bad_closes s2 = bad_closes ?s1"
    using retire_pipe_end [OF r0(1), of g1 h1] h(2) by (simp_all add: s2_def)
  have "host_flags s2 = host_flags s"
    using r0(3) r1(2) hf(3) s(1,2) by (auto simp: fun_eq_iff)
  moreover have "open_set s2 = open_set s"
    using r0(2) r1(1) os p(3) by auto
  ultimately show ?thesis using r0(4) r1(3) s(3) by simp
qed

definition traces :: "fd_state \<Rightarrow> nat set \<times> (int \<Rightarrow> u32 option) \<times> nat" where
  "traces s = (open_set s, host_flags s, bad_closes s)"

definition with_pipe :: "int \<Rightarrow> int \<Rightarrow> fd_state \<Rightarrow> fd_state" where
  "with_pipe h0 h1 s = s\<lparr>host_flags := (host_flags s)(h0 \<mapsto> 0, h1 \<mapsto> 0)\<rparr>"

lemma with_pipe_frame [simp]:
  "fd_inv (with_pipe h0 h1 s) = fd_inv s" "fd_next_generation (with_pipe h0 h1 s) = fd_next_generation s"
  "open_set (with_pipe h0 h1 s) = open_set s" "bad_closes (with_pipe h0 h1 s) = bad_closes s"
  by (simp_all add: with_pipe_def fd_inv_same [of "s\<lparr>host_flags := _\<rparr>" s] open_set_def slot_def)

lemma open_set_close_host [simp]: "open_set (close_host h s) = open_set s"
  by (rule same_table_open_set) simp

lemma pipe2_no_first:
  assumes "h0 \<ge> 0" "h1 \<ge> 0" "h0 \<noteq> h1" "host_flags s h0 = None" "host_flags s h1 = None"
  shows "traces (close_host h1 (close_host h0 (with_pipe h0 h1 s))) = traces s"
proof -
  have "open_set (close_host h1 (close_host h0 (with_pipe h0 h1 s))) = open_set s" by simp
  moreover have "close_host h1 (close_host h0 (with_pipe h0 h1 s)) = s"
    using assms by (simp add: close_host_def with_pipe_def fun_upd_idem fun_upd_twist)
  ultimately show ?thesis by simp
qed

lemma pipe2_no_second:
  assumes a: "fd_alloc H None FD_PIPE h0 None (with_pipe h0 h1 s) = (Some g0, s1)" and inv: "fd_inv s" and room: "fd_next_generation s \<noteq> UINT64_MAX"
    and h: "h0 \<ge> 0" "h1 \<ge> 0" "h0 \<noteq> h1" and hf: "host_flags s h0 = None" "host_flags s h1 = None"
  shows "traces (close_host h1 (fd_retire_published (int g0) h0 s1)) = traces s"
proof -
  let ?s2 = "fd_retire_published (int g0) h0 s1"
  have inv': "fd_inv (with_pipe h0 h1 s)" and room': "fd_next_generation (with_pipe h0 h1 s) \<noteq> UINT64_MAX" using inv room by simp_all
  note f = fd_alloc_pipe [OF a inv' room']
  have o: "host_flags s1 h0 \<noteq> None" using f(7) by (auto simp: open_fds_def set_eq_iff with_pipe_def)
  note r = retire_pipe_end [OF f(1,4) h(1) o]
  have h1: "host_flags ?s2 h1 = Some 0" using r(3) f(6) [of h1] h(3) by (simp add: with_pipe_def)
  have "host_flags (close_host h1 ?s2) x = host_flags s x" for x
    using h1 r(3) f(6) [of x] h hf by (cases "x = h0 \<or> x = h1") (auto simp: close_host_def with_pipe_def)
  moreover have "open_set (close_host h1 ?s2) = open_set s" using r(2) f(2,3) by simp
  moreover have "bad_closes (close_host h1 ?s2) = bad_closes s" using h1 r(4) f(8) h(2) by (simp add: close_host_def)
  ultimately show ?thesis by (auto simp: traces_def)
qed

lemma retire_both_traces:
  assumes "fd_inv s'" "pipe_end g0 h0 s'" "pipe_end g1 h1 s'" "g0 \<noteq> g1" "h0 \<ge> 0" "h1 \<ge> 0" "h0 \<noteq> h1"
    "host_flags s' h0 \<noteq> None" "host_flags s' h1 \<noteq> None" "\<And>x. x \<noteq> h0 \<Longrightarrow> x \<noteq> h1 \<Longrightarrow> host_flags s' x = host_flags s x"
    "host_flags s h0 = None" "host_flags s h1 = None" "bad_closes s' = bad_closes s"
    "open_set s' = insert g1 (insert g0 (open_set s))" "g0 \<notin> open_set s" "g1 \<notin> open_set s"
  shows "traces (fd_retire_published (int g1) h1 (fd_retire_published (int g0) h0 s')) = traces s"
  unfolding traces_def by (rule retire_both) (use assms in auto)

text \<open>The state \<^verbatim>\<open>pipe2\<close> has reached when it writes the pair to the guest.\<close>

definition piped :: "fd_state \<Rightarrow> nat \<Rightarrow> int \<Rightarrow> nat \<Rightarrow> int \<Rightarrow> fd_state \<Rightarrow> bool" where
  "piped s g0 h0 g1 h1 s' \<longleftrightarrow> fd_inv s' \<and> pipe_end g0 h0 s' \<and> pipe_end g1 h1 s' \<and> host_flags s' h0 \<noteq> None \<and> host_flags s' h1 \<noteq> None \<and>
     (\<forall>x. x \<noteq> h0 \<and> x \<noteq> h1 \<longrightarrow> host_flags s' x = host_flags s x) \<and> bad_closes s' = bad_closes s \<and>
     open_set s' = insert g1 (insert g0 (open_set s)) \<and> g0 \<notin> open_set s \<and> g1 \<notin> open_set s \<and> g0 \<noteq> g1"

lemma piped_allocs:
  assumes a: "fd_alloc H None FD_PIPE h0 None (with_pipe h0 h1 s) = (Some g0, s1)" "fd_alloc H None FD_PIPE h1 None s1 = (Some g1, s2)"
    and inv: "fd_inv s" and room: "fd_next_generation s \<noteq> UINT64_MAX" "fd_next_generation s + 1 \<noteq> UINT64_MAX" and h: "h0 \<noteq> h1"
  shows "piped s g0 h0 g1 h1 s2"
proof -
  have inv': "fd_inv (with_pipe h0 h1 s)" and room': "fd_next_generation (with_pipe h0 h1 s) \<noteq> UINT64_MAX" using inv room by simp_all
  note f = fd_alloc_pipe [OF a(1) inv' room']
  have "fd_next_generation s1 \<noteq> UINT64_MAX" using f(9) room(2) by simp
  note f' = fd_alloc_pipe [OF a(2) f(1) this]
  have "open_fds s2 = open_fds (with_pipe h0 h1 s)" using f(7) f'(7) by simp
  then have "host_flags s2 h0 \<noteq> None" "host_flags s2 h1 \<noteq> None"
    by (auto simp: open_fds_def set_eq_iff with_pipe_def)
  moreover have "host_flags s2 x = host_flags s x" if "x \<noteq> h0" "x \<noteq> h1" for x
    using f(6) f'(6) that by (simp add: with_pipe_def)
  moreover have "pipe_end g0 h0 s2" using f'(5) [of g0 h0] f(3,4) by simp
  ultimately show ?thesis
    using f f' by (auto simp: piped_def)
qed

lemma piped_flags: "piped s g0 h0 g1 h1 s' \<Longrightarrow> piped s g0 h0 g1 h1 (fd_publish_linux_flags fd fl s')"
  using same_links_inv [OF same_links_publish [of s' fd fl]] by (auto simp: piped_def pipe_end_publish open_set_publish)

lemma piped_nonblock:
  assumes "piped s g0 h0 g1 h1 s'" "only_flag h s' s''" "h = h0 \<or> h = h1"
  shows "piped s g0 h0 g1 h1 s''"
proof -
  note o = only_flag_pipe [OF assms(2)]
  have "host_flags s'' x \<noteq> None \<longleftrightarrow> host_flags s' x \<noteq> None" for x using o(4) by (auto simp: open_fds_def set_eq_iff)
  then show ?thesis
    using assms(1,3) o by (auto simp: piped_def)
qed

lemma piped_retired:
  assumes "piped s g0 h0 g1 h1 s'" "h0 \<ge> 0" "h1 \<ge> 0" "h0 \<noteq> h1" "host_flags s h0 = None" "host_flags s h1 = None"
  shows "traces (fd_retire_published (int g1) h1 (fd_retire_published (int g0) h0 s')) = traces s"
  using assms retire_both_traces [of s' g0 h0 g1 h1 s] by (auto simp: piped_def)

lemma pipe2_failed:
  assumes call: "sys_pipe2 H (Some (h0, h1)) write_ok flags s = (r, s')" and fail: "r \<noteq> Fd_Ok"
    and inv: "fd_inv s" and g: "fd_next_generation s \<noteq> UINT64_MAX" "fd_next_generation s + 1 \<noteq> UINT64_MAX"
    and h: "h0 \<ge> 0" "h1 \<ge> 0" "h0 \<noteq> h1" and hf: "host_flags s h0 = None" "host_flags s h1 = None"
  shows "traces s' = traces s"
proof -
  let ?bad = "flags AND NOT (LINUX_O_CLOEXEC OR LINUX_O_NONBLOCK OR LINUX_O_DIRECT) \<noteq> 0"
  note call' = call [unfolded sys_pipe2_def Let_def option.case prod.case, folded with_pipe_def]
  obtain r0 s1 where a0: "fd_alloc H None FD_PIPE h0 None (with_pipe h0 h1 s) = (r0, s1)" by force
  obtain r1 s2 where a1: "fd_alloc H None FD_PIPE h1 None s1 = (r1, s2)" by force
  consider "?bad" | "\<not> ?bad" "r0 = None" | g0 where "\<not> ?bad" "r0 = Some g0" "r1 = None" | g0 g1 where "\<not> ?bad" "r0 = Some g0" "r1 = Some g1"
    by (cases r0; cases r1) auto
  then show ?thesis
  proof cases
    case 1
    then show ?thesis using call' by simp
  next
    case 2
    then have "s1 = with_pipe h0 h1 s" using alloc_from_refused a0 by (simp add: fd_alloc_from_0)
    then show ?thesis using call' a0 2 pipe2_no_first [OF h hf] by auto
  next
    case 3
    then have "s2 = s1" using alloc_from_refused a1 by (simp add: fd_alloc_from_0)
    then show ?thesis using call' a0 a1 3 pipe2_no_second [OF a0 [unfolded 3(2)] inv g(1) h hf] by auto
  next
    case 4
    let ?sh = "flags AND (LINUX_O_CLOEXEC OR LINUX_O_NONBLOCK)"
    let ?s3 = "fd_publish_linux_flags (int g1) ?sh (fd_publish_linux_flags (int g0) ?sh s2)"
    have p: "piped s g0 h0 g1 h1 ?s3"
      by (intro piped_flags piped_allocs [OF a0 [unfolded 4(2)] a1 [unfolded 4(3)] inv g h(3)])
    then have "piped s g0 h0 g1 h1 (own_nonblock H g1 h1 (own_nonblock H g0 h0 ?s3))"
      by (intro piped_nonblock [OF piped_nonblock [OF p only_flag_own] only_flag_own]) simp_all
    with p show ?thesis
      using call' a0 a1 4 fail piped_retired [OF _ h hf] by (auto split: if_splits)
  qed
qed

text \<open>
  C33. \<^verbatim>\<open>pipe2\<close> is all or nothing: when it fails, because the host has no pipe, for want of a first or a second slot or
  because the pair cannot be written to the guest, no guest descriptor and no host descriptor is left behind and none is
  closed twice.
\<close>

theorem sys_pipe2_all_or_nothing:
  assumes call: "sys_pipe2 H ends write_ok flags s = (r, s')" and fail: "r \<noteq> Fd_Ok"
    and inv: "fd_inv s" and room: "unat (fd_next_generation s) + 2 < 2 ^ 64"
    and new: "\<And>h0 h1. ends = Some (h0, h1) \<Longrightarrow> h0 \<ge> 0 \<and> h1 \<ge> 0 \<and> h0 \<noteq> h1 \<and> host_flags s h0 = None \<and> host_flags s h1 = None"
  shows "traces s' = traces s"
proof (cases ends)
  case None
  then show ?thesis using call by (auto simp: sys_pipe2_def split: if_splits)
next
  case (Some p)
  obtain h0 h1 where e: "ends = Some (h0, h1)" using Some by (cases p) simp
  have "fd_next_generation s \<noteq> UINT64_MAX" "fd_next_generation s + 1 \<noteq> UINT64_MAX"
    using room unat_succ [of "fd_next_generation s"] by (auto simp: UINT64_MAX_def)
  then show ?thesis
    using pipe2_failed [OF call [unfolded e] fail inv] new [OF e] by simp
qed

theorem sys_pipe2_all_or_nothing_witness:
  "traces (snd (sys_pipe2 host0 (Some (5, 6)) False 0 (fdtable_init host0 boot0))) = traces (fdtable_init host0 boot0)"
proof (rule sys_pipe2_all_or_nothing [of host0 "Some (5, 6)" False 0 _ "fst (sys_pipe2 host0 (Some (5, 6)) False 0 (fdtable_init host0 boot0))"])
  show "fst (sys_pipe2 host0 (Some (5, 6)) False 0 (fdtable_init host0 boot0)) \<noteq> Fd_Ok"
    by (simp add: sys_pipe2_def Let_def split: prod.split option.split)
  show "h0 \<ge> 0 \<and> h1 \<ge> 0 \<and> h0 \<noteq> h1 \<and> host_flags (fdtable_init host0 boot0) h0 = None \<and> host_flags (fdtable_init host0 boot0) h1 = None"
    if "Some (5, 6) = Some (h0, h1)" for h0 h1 :: int
    using that by (simp add: fdtable_init_def boot0_def)
qed (simp_all add: boot_inv [OF boot0_state])

section \<open>Duplicates share the description\<close>

lemma flags_with_accmode_0: "fd_flags_with_accmode t 0 = (case fd_type_accmode t of None \<Rightarrow> 0 | Some m \<Rightarrow> m)"
  by (simp add: fd_flags_with_accmode_def split: option.split)

lemma init_flags_alias: "init_flags (Some spec) t = fd_flags_with_accmode t (a_linux_flags spec)"
  by (simp add: init_flags_def flags_with_accmode_0)

text \<open>The state the refresh of the inheritance reads: the slot already has its new type.\<close>

definition half_filled :: "nat \<Rightarrow> int \<Rightarrow> int \<Rightarrow> fd_state \<Rightarrow> fd_state" where
  "half_filled fd t h s = set_slot fd ((slot s fd)\<lparr>ftype := t, host_fd := h, lifetime := None\<rparr>) (fd_bitmap_set_used fd s)"

lemma init_entry_alias:
  fixes spec :: fd_alias_spec and t h :: int and s :: fd_state
  assumes "fd < length (fd_table s)"
  defines "spec' \<equiv> alias_refresh spec (half_filled fd t h s)"
  shows "linux_flags (slot (fd_init_entry (Some spec) fd t h cleanup probe s) fd) = fd_flags_with_accmode t (a_linux_flags spec')"
    "ofd_id (slot (fd_init_entry (Some spec) fd t h cleanup probe s) fd) = (if a_ofd_id spec' \<noteq> 0 then a_ofd_id spec' else fd_next_ofd_id s)"
  using assms(1) by (simp_all add: fd_init_entry_def Let_def half_filled_def spec'_def init_flags_alias slot_def)

lemma alloc_from_relaxed_eq: "fd_alloc_from_relaxed H al minfd t h cleanup s = fd_alloc_from H al minfd t h cleanup s"
  by (simp add: fd_alloc_from_relaxed_def fd_alloc_from_def)

lemma probe_alias: "\<exists>probe. fd_probe_host H (Some spec) t h s = (probe, s)"
  by (simp add: fd_probe_host_def Let_def)

lemma install_metadata_keeps:
  assumes "install_fd_alias_metadata_atomic dst t h snap gen s = (ok, s')" "dst < length (fd_table s)"
  shows "linux_flags (slot s' dst) = linux_flags (slot s dst)" "ofd_id (slot s' dst) = ofd_id (slot s dst)"
  using assms by (auto simp: install_fd_alias_metadata_atomic_def Let_def slot_def split: if_splits)

text \<open>The types \<open>duplicate_guest_fd\<close> handles itself and that carry no directory stream.\<close>

definition plain :: "int \<Rightarrow> bool" where
  "plain t \<longleftrightarrow> t \<notin> {FD_CLOSED, FD_DIR, FD_EPOLL, FD_EVENTFD, FD_PIDFD, FD_USBDEV, FD_FUSE_DEV, FD_FUSE_FILE, FD_FUSE_DIR}"

definition dup_start :: "int \<Rightarrow> int \<Rightarrow> fd_state \<Rightarrow> fd_state" where
  "dup_start src_host h s =
     emit (proc_pty_dup_guest_slave src_host h) (emit (proc_pty_dup_keepalive src_host h)
       (s\<lparr>host_flags := (host_flags s)(h := host_flags s src_host)\<rparr>))"

lemma dup_start_table: "same_table s (dup_start a h s)"
  by (simp add: dup_start_def same_table_def)

lemma duplicate_plain:
  assumes src: "src < 1024" "plain (ftype (slot s src))" "host_fd (slot s src) \<ge> 0" and h: "h \<ge> 0"
    and t: "t = (if ftype (slot s src) = FD_STDIO then FD_REGULAR else ftype (slot s src))"
    and a: "fd_alloc_from H (Some (dup_spec (int src) (slot s src) fl)) minfd t h (fd_cleanup_for_type t reg)
      (others (dup_start (host_fd (slot s src)) h s)) = (Some g, s4)" and g: "g < length (fd_table s4)"
  shows "\<exists>s'. duplicate_guest_fd H reg (Some h) pin_ok others id (int src) minfd None fl s = (Dup_fd g, s') \<and>
    linux_flags (slot s' g) = linux_flags (slot s4 g) \<and> ofd_id (slot s' g) = ofd_id (slot s4 g)"
proof -
  let ?e = "slot s src"
  obtain ok s5 where i: "install_fd_alias_metadata_atomic g t h ?e (generation (slot s4 g)) s4 = (ok, s5)" by force
  note keep = install_metadata_keeps [OF i g]
  let ?c = "ok \<and> (linux_flags ?e AND LINUX_O_ASYNC \<noteq> 0 \<or> ftype ?e = FD_SOCKET \<and> fasync_owner_type ?e \<noteq> FASYNC_OWNER_NONE)"
  have snap: "fd_snapshot_and_dup_or_share_dir (Some h) (int src) s =
    (h, False, Some ?e, s\<lparr>host_flags := (host_flags s)(h := host_flags s (host_fd ?e))\<rparr>)"
    using src by (simp add: fd_snapshot_and_dup_or_share_dir_def fd_snapshot_locked_def RANGE_CHECK_def plain_def host_dup_def)
  have "duplicate_guest_fd H reg (Some h) pin_ok others id (int src) minfd None fl s =
    (Dup_fd g, if ?c then emit (asyncio_arm g (generation (slot s4 g)) h t) s5 else s5)"
    using src h a i t
    by (simp add: duplicate_guest_fd_def snap plain_def Let_def dup_alloc_def fd_alloc_alias_relaxed_def alloc_from_relaxed_eq
      dup_start_def [symmetric]) blast
  then show ?thesis
    using keep by simp
qed

text \<open>An alias allocation takes the lowest free slot and changes nothing before it fills it.\<close>

lemma alias_alloc_lowest:
  assumes inv: "fd_inv s" and g: "g < rlimit_nofile_cur H" "ftype (slot s g) = FD_CLOSED" "\<And>i. i < g \<Longrightarrow> ftype (slot s i) \<noteq> FD_CLOSED"
  shows "\<exists>probe. fd_alloc_from H (Some spec) 0 t h cleanup s = (Some g, fd_init_entry (Some spec) g t h cleanup probe s)"
proof -
  have lt: "g < 1024" using less_le_trans [OF g(1) rlimit_le] .
  have "lowest_free (free_fd s) 0 = Some g"
    unfolding lowest_free_Some_iff using fd_invD(5) [OF inv] lt g(2,3) less_trans [OF _ lt] by blast
  then have "fd_bitmap_find_free 0 s = Some g"
    using fd_bitmap_find_free_lowest [OF fd_invD(2) [OF inv], of 0] by simp
  then show ?thesis
    using probe_alias [of H spec t h s] g(1) by (auto simp: fd_alloc_from_def fd_alloc_locked_def)
qed

lemma refresh_live:
  assumes "src < 1024" "ftype (slot s src) \<noteq> FD_CLOSED" "slot s' src = slot s src" "fl AND FD_DESCRIPTION_FLAGS = 0"
  shows "alias_refresh (dup_spec (int src) (slot s src) fl) s' = dup_spec (int src) (slot s src) fl"
proof -
  have "((a AND D OR fl) AND NOT D) OR (a AND D) = a AND D OR fl" if "fl AND D = 0" for a D :: u32
  proof (rule bit_eqI)
    fix n
    have "bit fl n \<Longrightarrow> \<not> bit D n" using that by (metis bit_0_eq bit_and_iff bot_apply bot_bool_def)
    then show "bit (((a AND D OR fl) AND NOT D) OR (a AND D)) n = bit (a AND D OR fl) n"
      using bit_imp_le_length [of fl n] by (auto simp: bit_simps)
  qed
  then show ?thesis
    using assms by (simp add: alias_refresh_def dup_spec_def fd_alias_of_def RANGE_CHECK_def Let_def)
qed

text \<open>
  \<^verbatim>\<open>dup\<close> with no other thread in the way returns the lowest free descriptor, and the new name
  shares the open file description: the same identity and the same description flags, close-on-exec cleared.
\<close>

theorem sys_dup_shares:
  assumes inv: "fd_inv s" and src: "src < 1024" "plain (ftype (slot s src))" "host_fd (slot s src) \<ge> 0" "ofd_id (slot s src) \<noteq> 0" and h: "h \<ge> 0"
    and g: "g < rlimit_nofile_cur H" "ftype (slot s g) = FD_CLOSED" "\<forall>i<g. ftype (slot s i) \<noteq> FD_CLOSED"
  shows "\<exists>s'. sys_dup H reg (Some h) pin_ok id id (int src) s = (Dup_fd g, s') \<and>
    linux_flags (slot s' g) = fd_flags_with_accmode (if ftype (slot s src) = FD_STDIO then FD_REGULAR else ftype (slot s src))
      (linux_flags (slot s src) AND FD_DESCRIPTION_FLAGS) \<and> ofd_id (slot s' g) = ofd_id (slot s src)"
proof -
  let ?s = "dup_start (host_fd (slot s src)) h s" and ?e = "slot s src" and ?t = "if ftype (slot s src) = FD_STDIO then FD_REGULAR else ftype (slot s src)"
  have sl: "slot ?s = slot s" and i: "fd_inv ?s"
    using same_table_slot [OF dup_start_table] same_table_inv [OF dup_start_table] inv by auto
  have lt: "g < 1024" using less_le_trans [OF g(1) rlimit_le] .
  have len: "length (fd_table ?s) = 1024" using fd_invD(1) [OF i] .
  let ?spec = "dup_spec (int src) ?e 0"
  obtain probe where a: "fd_alloc_from H (Some ?spec) 0 ?t h (fd_cleanup_for_type ?t reg) ?s =
    (Some g, fd_init_entry (Some ?spec) g ?t h (fd_cleanup_for_type ?t reg) probe ?s)"
    using alias_alloc_lowest [OF i g(1), of ?spec ?t h "fd_cleanup_for_type ?t reg"] g(2,3) sl by auto
  let ?s4 = "fd_init_entry (Some ?spec) g ?t h (fd_cleanup_for_type ?t reg) probe ?s"
  have ne: "src \<noteq> g" and opn: "ftype ?e \<noteq> FD_CLOSED" using src(2) g(2) by (auto simp: plain_def)
  have r: "alias_refresh ?spec (half_filled g ?t h ?s) = ?spec"
    by (rule refresh_live [OF src(1) opn]) (use ne sl len src(1) in \<open>simp_all add: half_filled_def slot_def fun_eq_iff\<close>)
  have g4: "g < length (fd_table ?s4)" using fd_init_entry_table [of "Some ?spec" g ?t h _ probe ?s] len lt by (metis length_list_update)
  have "linux_flags (slot ?s4 g) = fd_flags_with_accmode ?t (linux_flags ?e AND FD_DESCRIPTION_FLAGS)" "ofd_id (slot ?s4 g) = ofd_id ?e"
    using init_entry_alias [of g ?s ?spec ?t h] r len lt src(4) by (simp_all add: dup_spec_def fd_alias_of_def)
  then show ?thesis
    using duplicate_plain [OF src(1-3) h refl, of H 0 0 reg id g ?s4 pin_ok] a g4 by (auto simp: sys_dup_def)
qed

theorem sys_dup_shares_witness:
  "\<exists>s'. sys_dup host0 [] (Some 9) True id id (int 1) (fdtable_init host0 boot0) = (Dup_fd 3, s') \<and> ofd_id (slot s' 3) = 2"
proof -
  let ?s = "fdtable_init host0 boot0"
  have "\<forall>i<3. ftype (slot ?s i) \<noteq> FD_CLOSED" by (simp add: boot_type fd_types)
  then show ?thesis
    using sys_dup_shares [OF boot_inv [OF boot0_state, of host0], of 1 9 3 host0 "[]" True]
    by (auto simp: boot_slot stdio_entry_def closed_entry_def plain_def fd_types fuse_types rlimit_host0)
qed

text \<open>
  Clearing a slot keeps its generation, so a slot filled again at once still passes the check the refresh makes of its
  source, and gives the cleared flags.
\<close>

lemma refresh_own_slot:
  assumes "src < 1024" "length (fd_table s) = 1024" "t \<noteq> FD_CLOSED" "generation (slot s src) = a_src_generation spec" "a_src_fd spec = int src"
    "linux_flags (slot s src) = 0"
  shows "a_linux_flags (alias_refresh spec (half_filled src t h s)) = a_linux_flags spec AND NOT FD_DESCRIPTION_FLAGS"
  using assms by (simp add: alias_refresh_def half_filled_def RANGE_CHECK_def slot_def Let_def)

lemma mask_out: "((a AND D) AND NOT D :: u32) = 0"
  by (rule bit_eqI) (auto simp: bit_simps)

text \<open>
  C34. The refresh of a duplicate can read the slot it is filling: when another thread closes the source after the
  snapshot and the duplicate lands on the source's own number, the new name of the description has all its
  description flags (access mode, append, non-blocking) cleared, whatever the source's were.
\<close>

theorem sys_dup_close_race:
  assumes inv: "fd_inv s" and src: "src < rlimit_nofile_cur H" "ftype (slot s src) = FD_REGULAR" "host_fd (slot s src) \<ge> 0" and h: "h \<ge> 0"
    and low: "\<forall>i < src. ftype (slot s i) \<noteq> FD_CLOSED"
  shows "\<exists>s'. sys_dup H reg (Some h) pin_ok (\<lambda>st. snd (sys_close H (int src) st)) id (int src) s = (Dup_fd src, s') \<and>
    linux_flags (slot s' src) = 0"
proof -
  let ?s = "dup_start (host_fd (slot s src)) h s" and ?e = "slot s src"
  let ?c = "snd (sys_close H (int src) ?s)" and ?spec = "dup_spec (int src) (slot s src) 0"
  have lt: "src < 1024" using less_le_trans [OF src(1) rlimit_le] .
  have sl: "slot ?s = slot s" and i: "fd_inv ?s"
    using same_table_slot [OF dup_start_table] same_table_inv [OF dup_start_table] inv by auto
  have tab: "same_table (snd (fd_mark_closed_unlocked src (emit (absock_unregister_fd (int src)) ?s))) ?c"
    using sys_close_table [OF lt, of ?s H] sl src(2) by (simp add: fd_types)
  let ?s1 = "emit (absock_unregister_fd (int src)) ?s"
  have i1: "fd_inv ?s1" using same_table_inv [of ?s ?s1] i by simp
  have ic: "fd_inv ?c" by (rule sys_close_inv [OF i lt])
  note m = mark_closed_slot [OF fd_invD(1) [OF i1] lt]
  have c: "ftype (slot ?c src) = FD_CLOSED" "generation (slot ?c src) = generation ?e" "linux_flags (slot ?c src) = 0"
    "\<And>i. i \<noteq> src \<Longrightarrow> slot ?c i = slot s i"
    using m same_table_slot [OF tab] sl by simp_all
  obtain probe where a: "fd_alloc_from H (Some ?spec) 0 FD_REGULAR h (fd_cleanup_for_type FD_REGULAR reg) ?c =
    (Some src, fd_init_entry (Some ?spec) src FD_REGULAR h (fd_cleanup_for_type FD_REGULAR reg) probe ?c)"
    using alias_alloc_lowest [OF ic src(1) c(1), of ?spec FD_REGULAR h "fd_cleanup_for_type FD_REGULAR reg"] c(4) low by auto
  let ?s4 = "fd_init_entry (Some ?spec) src FD_REGULAR h (fd_cleanup_for_type FD_REGULAR reg) probe ?c"
  have len: "length (fd_table ?c) = 1024" using fd_invD(1) [OF ic] .
  have g4: "src < length (fd_table ?s4)" using fd_init_entry_table [of "Some ?spec" src FD_REGULAR h _ probe ?c] len lt by (metis length_list_update)
  have "a_linux_flags (alias_refresh ?spec (half_filled src FD_REGULAR h ?c)) = 0"
    using refresh_own_slot [OF lt len, of FD_REGULAR ?spec h] c(2,3) by (simp add: dup_spec_def fd_alias_of_def mask_out fd_types)
  then have "linux_flags (slot ?s4 src) = 0"
    using init_entry_alias(1) [of src ?c ?spec FD_REGULAR h] len lt by (simp add: fd_flags_with_accmode_def fd_type_accmode_def fd_types)
  then show ?thesis
    using duplicate_plain [OF lt _ src(3) h, of FD_REGULAR H 0 0 reg "\<lambda>st. snd (sys_close H (int src) st)" src ?s4 pin_ok] a g4 src(2)
    by (auto simp: sys_dup_def plain_def fd_types fuse_types)
qed

text \<open>A file opened for appending on descriptor 3.\<close>

definition append_file :: fd_state where
  "append_file = fd_publish_linux_flags 3 (LINUX_O_WRONLY OR LINUX_O_APPEND)
     (fd_init_entry None 3 FD_REGULAR 5 None \<lparr>p_can_block = False, p_nonblock_owned = False, p_restore = None\<rparr> (fdtable_init host0 boot0))"

lemma append_file_facts:
  "fd_inv append_file" "ftype (slot append_file 3) = FD_REGULAR" "host_fd (slot append_file 3) = 5"
  "linux_flags (slot append_file 3) = 0x401" "\<forall>i < 3. ftype (slot append_file i) \<noteq> FD_CLOSED"
proof -
  let ?p = "\<lparr>p_can_block = False, p_nonblock_owned = False, p_restore = None\<rparr>"
  let ?b = "fdtable_init host0 boot0" and ?s = "fd_init_entry None 3 FD_REGULAR 5 None ?p (fdtable_init host0 boot0)"
  have b: "fd_inv ?b" by (rule boot_inv [OF boot0_state])
  have i: "fd_inv ?s" by (rule fd_inv_init_entry [OF b]) (simp_all add: fd_types UINT64_MAX_def)
  have l: "same_links ?s append_file" unfolding append_file_def by (rule same_links_publish)
  show "fd_inv append_file" by (rule same_links_inv [OF l i])
  have sl: "ftype (slot ?s 3) = FD_REGULAR" "host_fd (slot ?s 3) = 5" using fd_init_entry_slot [of 3 ?b] by simp_all
  then show "ftype (slot append_file 3) = FD_REGULAR" "host_fd (slot append_file 3) = 5" using same_linksD [OF l, of 3] by simp_all
  have "length (fd_table ?s) = 1024" using fd_invD(1) [OF i] .
  then show "linux_flags (slot append_file 3) = 0x401"
    using sl by (simp add: append_file_def fd_publish_linux_flags_def RANGE_CHECK_def slot_def fd_flags_with_accmode_def
      fd_type_accmode_def LINUX_O_WRONLY_def LINUX_O_APPEND_def fd_types)
  show "\<forall>i < 3. ftype (slot append_file i) \<noteq> FD_CLOSED"
  proof (intro allI impI)
    fix i :: nat assume "i < 3"
    then show "ftype (slot append_file i) \<noteq> FD_CLOSED"
      using same_linksD(1) [OF l, of i] slot_fd_init_entry [of ?b i None 3 FD_REGULAR 5 None ?p] boot_type [of i host0 boot0] by (simp add: fd_types)
  qed
qed

theorem sys_dup_close_race_witness:
  "linux_flags (slot append_file 3) = 0x401 \<and>
   (\<exists>s'. sys_dup host0 [] (Some 9) True (\<lambda>st. snd (sys_close host0 (int 3) st)) id (int 3) append_file = (Dup_fd 3, s') \<and>
     linux_flags (slot s' 3) = 0)"
proof -
  have "(3 :: nat) < rlimit_nofile_cur host0" by (simp add: rlimit_host0)
  then show ?thesis
    using sys_dup_close_race [OF append_file_facts(1) _ append_file_facts(2), of host0 9] append_file_facts(3-5) by simp
qed

end
