(* ===== verification/Futex_Words.thy ===== *)
theory Futex_Words
  imports Prelude "HOL-Library.Signed_Division"
begin

text \<open>
  The arithmetic of the futex component: the bucket hash and the requeue, wake-op, PI-word
  and lock-order helpers of \<^verbatim>\<open>src/src/proved/futex*.h\<close>, the timespec conversions of
  \<^verbatim>\<open>src/src/proved/timespec.h\<close> and \<^verbatim>\<open>src/src/utils.h\<close>, and the deadline functions of
  \<^verbatim>\<open>src/src/runtime/futex.c\<close> that are built from them.

  A signed C integer is an \<open>int\<close>; the lemmas of the last section bound every intermediate
  value of the deadline functions, so none of them leaves its C type.
\<close>

section \<open>Bucket hash (proved/futexhash.h)\<close>

definition FUTEX_HASH_MULT :: u64 where "FUTEX_HASH_MULT = 0x9E3779B97F4A7C15"

definition futex_bucket_index :: "u64 \<Rightarrow> u32 \<Rightarrow> nat" where
  "futex_bucket_index uaddr nbuckets =
     (let mixed = drop_bit 32 (drop_bit 2 uaddr * FUTEX_HASH_MULT)
      in unat (ucast (mixed mod ucast nbuckets) :: u32))"

text \<open>The same index in the registers of \<open>futex_wake_shape\<close>: shift, four moves, multiply, shift, mask.\<close>

definition shim_bucket_index :: "u64 \<Rightarrow> nat" where
  "shim_bucket_index uaddr =
     (let m0 = 0x7C15;
          m1 = m0 OR push_bit 16 0x7F4A;
          m2 = m1 OR push_bit 32 0x79B9;
          m3 = m2 OR push_bit 48 0x9E37;
          x15 = drop_bit 2 uaddr * m3
      in unat (drop_bit 32 x15 AND 1023))"

section \<open>Requeue and wake budgets (proved/futexreq.h)\<close>

definition FUTEX_COUNT_LIMIT :: u32 where "FUTEX_COUNT_LIMIT = 0x80000000"

definition futex_requeue_counts_valid :: "u32 \<Rightarrow> u32 \<Rightarrow> bool" where
  "futex_requeue_counts_valid nr_wake nr_requeue \<longleftrightarrow>
     nr_wake < FUTEX_COUNT_LIMIT \<and> nr_requeue < FUTEX_COUNT_LIMIT"

definition futex_requeue_budget :: "u32 \<Rightarrow> u32 \<Rightarrow> u64" where
  "futex_requeue_budget nr_wake nr_requeue = ucast nr_wake + ucast nr_requeue"

definition futex_wake_budget :: "u32 \<Rightarrow> u32" where
  "futex_wake_budget val = (if val = 0 \<or> val > 0x7fffffff then 1 else val)"

datatype futex_req = FUTEX_REQ_STOP | FUTEX_REQ_WAKE | FUTEX_REQ_MOVE

definition futex_requeue_step :: "u32 \<Rightarrow> u32 \<Rightarrow> u32 \<Rightarrow> u32 \<Rightarrow> futex_req" where
  "futex_requeue_step woken requeued nr_wake nr_requeue =
     (if woken < nr_wake then FUTEX_REQ_WAKE
      else if requeued < nr_requeue then FUTEX_REQ_MOVE
      else FUTEX_REQ_STOP)"

section \<open>The wake-op operand (proved/futexop.h, proved/futexwakeop.h)\<close>

definition futex_op_sign_extend12 :: "u32 \<Rightarrow> int" where
  "futex_op_sign_extend12 raw =
     (let v = raw mod 0x1000 in if v < 0x800 then uint v else uint v - 0x1000)"

definition futex_op_shift_arg_mask :: "int \<Rightarrow> nat" where
  "futex_op_shift_arg_mask arg = unat ((word_of_int arg :: u32) mod 32)"

definition futex_wake_op_supported :: "u32 \<Rightarrow> bool" where
  "futex_wake_op_supported op \<longleftrightarrow> op \<le> 4"

definition futex_wake_cmp_supported :: "u32 \<Rightarrow> bool" where
  "futex_wake_cmp_supported cmp \<longleftrightarrow> cmp \<le> 5"

definition futex_wake_op_apply :: "u32 \<Rightarrow> u32 \<Rightarrow> u32 \<Rightarrow> u32" where
  "futex_wake_op_apply old_val op op_val =
     (if op = 0 then op_val
      else if op = 1 then old_val + op_val
      else if op = 2 then old_val OR op_val
      else if op = 3 then old_val AND NOT op_val
      else old_val XOR op_val)"

definition futex_wake_op_cmp :: "int \<Rightarrow> u32 \<Rightarrow> int \<Rightarrow> bool" where
  "futex_wake_op_cmp old_val cmp cmp_arg =
     (if cmp = 0 then old_val = cmp_arg
      else if cmp = 1 then old_val \<noteq> cmp_arg
      else if cmp = 2 then old_val < cmp_arg
      else if cmp = 3 then old_val \<le> cmp_arg
      else if cmp = 4 then old_val > cmp_arg
      else old_val \<ge> cmp_arg)"

section \<open>The PI word (proved/futexpi.h)\<close>

definition FUTEX_PI_TID_MASK :: u32 where "FUTEX_PI_TID_MASK = 0x3FFFFFFF"
definition FUTEX_PI_OWNER_DIED :: u32 where "FUTEX_PI_OWNER_DIED = 0x40000000"
definition FUTEX_PI_WAITERS :: u32 where "FUTEX_PI_WAITERS = 0x80000000"

definition futex_pi_owner_tid :: "u32 \<Rightarrow> u32" where
  "futex_pi_owner_tid word = word AND FUTEX_PI_TID_MASK"

definition futex_pi_unowned :: "u32 \<Rightarrow> bool" where
  "futex_pi_unowned word \<longleftrightarrow> word AND FUTEX_PI_TID_MASK = 0"

definition futex_pi_owner_died :: "u32 \<Rightarrow> bool" where
  "futex_pi_owner_died word \<longleftrightarrow> word AND FUTEX_PI_OWNER_DIED \<noteq> 0"

definition futex_pi_has_waiters :: "u32 \<Rightarrow> bool" where
  "futex_pi_has_waiters word \<longleftrightarrow> word \<ge> FUTEX_PI_WAITERS"

definition futex_pi_set_waiters :: "u32 \<Rightarrow> u32" where
  "futex_pi_set_waiters word = word mod FUTEX_PI_WAITERS + FUTEX_PI_WAITERS"

definition futex_pi_clear_waiters :: "u32 \<Rightarrow> u32" where
  "futex_pi_clear_waiters word = word mod FUTEX_PI_WAITERS"

definition futex_pi_mark_owner_died :: "u32 \<Rightarrow> u32" where
  "futex_pi_mark_owner_died word =
     (if word \<ge> FUTEX_PI_WAITERS then FUTEX_PI_WAITERS else 0) OR FUTEX_PI_OWNER_DIED"

section \<open>The lock order of a wait set (proved/futexwaitv.h)\<close>

text \<open>
  \<open>futex_bucket_insert\<close> works in place on the first \<open>n\<close> of \<open>cap\<close> array elements; here the
  list is that prefix. The scan stops at the first element not below \<open>idx\<close>.
\<close>

fun futex_bucket_insert :: "nat list \<Rightarrow> nat \<Rightarrow> nat list" where
  "futex_bucket_insert [] idx = [idx]"
| "futex_bucket_insert (i # ids) idx =
     (if i < idx then i # futex_bucket_insert ids idx
      else if i = idx then i # ids
      else idx # i # ids)"

definition waitv_collect_buckets :: "nat list \<Rightarrow> nat list" where
  "waitv_collect_buckets hashes = fold (\<lambda>idx ids. futex_bucket_insert ids idx) hashes []"

section \<open>Timespecs (proved/timespec.h, utils.h)\<close>

record timespec =
  tv_sec :: int
  tv_nsec :: int

definition INT64_MAX :: int where "INT64_MAX = 0x7FFFFFFFFFFFFFFF"
definition INT32_MAX :: int where "INT32_MAX = 0x7FFFFFFF"
definition TIMESPEC_NSEC_PER_SEC :: int where "TIMESPEC_NSEC_PER_SEC = 1000000000"
definition TIMESPEC_NSEC_PER_MSEC :: int where "TIMESPEC_NSEC_PER_MSEC = 1000000"
definition TIMESPEC_SEC_MAX :: int where "TIMESPEC_SEC_MAX = INT64_MAX div TIMESPEC_NSEC_PER_SEC"

definition timespec_valid :: "int \<Rightarrow> int \<Rightarrow> bool" where
  "timespec_valid sec nsec \<longleftrightarrow> sec \<ge> 0 \<and> nsec \<ge> 0 \<and> nsec < TIMESPEC_NSEC_PER_SEC"

definition timespec_valid_capped :: "int \<Rightarrow> int \<Rightarrow> int \<Rightarrow> bool" where
  "timespec_valid_capped sec nsec cap \<longleftrightarrow> timespec_valid sec nsec \<and> sec \<le> cap"

definition timespec_to_ns_sat :: "int \<Rightarrow> int \<Rightarrow> int" where
  "timespec_to_ns_sat sec nsec =
     (if sec < 0 \<or> nsec < 0 then 0
      else if sec > TIMESPEC_SEC_MAX then INT64_MAX
      else let whole = sec * TIMESPEC_NSEC_PER_SEC in
           if nsec > INT64_MAX - whole then INT64_MAX else whole + nsec)"

definition timespec_to_poll_ms :: "int \<Rightarrow> int \<Rightarrow> int" where
  "timespec_to_poll_ms sec nsec =
     (let ns = timespec_to_ns_sat sec nsec;
          ms = ns div TIMESPEC_NSEC_PER_MSEC;
          ms' = (if ns mod TIMESPEC_NSEC_PER_MSEC \<noteq> 0 then ms + 1 else ms)
      in if ms' > INT32_MAX then INT32_MAX else ms')"

definition timespec_normalize :: "timespec \<Rightarrow> timespec" where
  "timespec_normalize ts =
     (let sec = tv_sec ts + (tv_nsec ts sdiv TIMESPEC_NSEC_PER_SEC);
          nsec = tv_nsec ts smod TIMESPEC_NSEC_PER_SEC
      in if nsec < 0 then \<lparr>tv_sec = sec - 1, tv_nsec = nsec + TIMESPEC_NSEC_PER_SEC\<rparr>
         else \<lparr>tv_sec = sec, tv_nsec = nsec\<rparr>)"

text \<open>\<open>now\<close> is what \<open>clock_gettime(CLOCK_REALTIME)\<close> returned.\<close>

definition timespec_deadline_in_ms :: "timespec \<Rightarrow> int \<Rightarrow> timespec" where
  "timespec_deadline_in_ms now rel_ms =
     timespec_normalize \<lparr>tv_sec = tv_sec now + rel_ms sdiv 1000,
                         tv_nsec = tv_nsec now + (rel_ms smod 1000) * 1000000\<rparr>"

section \<open>Deadlines (runtime/futex.c)\<close>

definition FUTEX_POLL_QUANTUM_NS :: int where "FUTEX_POLL_QUANTUM_NS = 100 * 1000 * 1000"
definition FUTEX_TIMESPEC_SEC_MAX :: int where "FUTEX_TIMESPEC_SEC_MAX = INT64_MAX div 4"

definition linux_timespec_is_valid :: "timespec \<Rightarrow> bool" where
  "linux_timespec_is_valid lts \<longleftrightarrow>
     timespec_valid_capped (tv_sec lts) (tv_nsec lts) FUTEX_TIMESPEC_SEC_MAX"

text \<open>
  The timespec the guest pointer holds is \<open>None\<close> when the read faults. \<open>now\<close> is
  \<open>gettimeofday\<close> with its microseconds already in nanoseconds. \<open>Inl\<close> carries the -1 or -2 return.
\<close>

definition futex_make_deadline :: "timespec \<Rightarrow> timespec option \<Rightarrow> bool \<Rightarrow> int + timespec" where
  "futex_make_deadline now arg is_absolute =
     (case arg of
        None \<Rightarrow> Inl (-1)
      | Some lts \<Rightarrow>
          if \<not> linux_timespec_is_valid lts then Inl (-2)
          else if is_absolute then Inr lts
          else Inr (timespec_normalize \<lparr>tv_sec = tv_sec now + tv_sec lts,
                                        tv_nsec = tv_nsec now + tv_nsec lts\<rparr>))"

text \<open>The result is the remainder and the clock reading it was measured against.\<close>

definition futex_remaining_ns :: "timespec \<Rightarrow> timespec \<Rightarrow> int \<Rightarrow> int \<times> int" where
  "futex_remaining_ns now deadline cap_ns =
     (let deadline_ns = timespec_to_ns_sat (tv_sec deadline) (tv_nsec deadline);
          now_ns = timespec_to_ns_sat (tv_sec now) (tv_nsec now)
      in if deadline_ns \<le> now_ns then (0, now_ns)
         else let rem = deadline_ns - now_ns
              in (if rem < cap_ns then rem else cap_ns, now_ns))"

definition futex_quantum_deadline :: "timespec \<Rightarrow> timespec \<Rightarrow> timespec option" where
  "futex_quantum_deadline now deadline =
     (case futex_remaining_ns now deadline FUTEX_POLL_QUANTUM_NS of
        (rem_ns, now_ns) \<Rightarrow>
          if rem_ns = 0 then None
          else
            let bounded = (if rem_ns > FUTEX_POLL_QUANTUM_NS then FUTEX_POLL_QUANTUM_NS else rem_ns);
                at_ns = (if now_ns > INT64_MAX - bounded then INT64_MAX else now_ns + bounded)
            in Some \<lparr>tv_sec = at_ns div TIMESPEC_NSEC_PER_SEC, tv_nsec = at_ns mod TIMESPEC_NSEC_PER_SEC\<rparr>)"

text \<open>The deadline of \<open>sys_futex_waitv\<close>; a monotonic one is carried over to the realtime clock.\<close>

definition waitv_deadline :: "timespec \<Rightarrow> timespec \<Rightarrow> bool \<Rightarrow> timespec \<Rightarrow> timespec" where
  "waitv_deadline now mono_now monotonic lts =
     timespec_normalize
       (if monotonic
        then \<lparr>tv_sec = tv_sec now + (tv_sec lts - tv_sec mono_now),
              tv_nsec = tv_nsec now + (tv_nsec lts - tv_nsec mono_now)\<rparr>
        else lts)"

section \<open>Facts on the hash and the operands\<close>

named_theorems pi_word \<open>how the edits of a PI word change its three fields\<close>

lemma futex_bucket_index_lt: "futex_bucket_index uaddr 1024 < 1024"
proof -
  let ?m = "drop_bit 32 (drop_bit 2 uaddr * FUTEX_HASH_MULT) mod 1024"
  have "unat ?m < 1024"
    by (simp add: unat_mod)
  then have "unat (ucast ?m :: u32) < 1024"
    by (simp add: unsigned_ucast_eq le_less_trans [OF take_bit_nat_less_eq_self])
  then show ?thesis
    by (simp add: futex_bucket_index_def Let_def)
qed

lemma word_mod_1024: "(x :: u64) mod 1024 = x AND 1023"
proof -
  have "(x :: u64) mod 2 ^ 10 = take_bit 10 x"
    by (simp add: take_bit_eq_mod)
  then show ?thesis
    by (simp add: take_bit_eq_mask mask_eq_exp_minus_1)
qed

lemma shim_bucket_index_eq: "shim_bucket_index uaddr = futex_bucket_index uaddr 1024"
proof -
  let ?m = "drop_bit 32 (drop_bit 2 uaddr * FUTEX_HASH_MULT) AND 1023"
  have "unat ?m \<le> unat (1023 :: u64)"
    by (rule word_le_nat_alt [THEN iffD1], rule word_and_le1)
  then have "unat ?m < 2 ^ 32" by simp
  then have "unat (ucast ?m :: u32) = unat ?m"
    by (simp add: unsigned_ucast_eq take_bit_nat_eq_self_iff)
  then show ?thesis
    by (simp add: shim_bucket_index_def futex_bucket_index_def Let_def FUTEX_HASH_MULT_def word_mod_1024)
qed

lemma futex_op_sign_extend12_bounds:
  "- 2048 \<le> futex_op_sign_extend12 raw \<and> futex_op_sign_extend12 raw \<le> 2047"
proof -
  have "raw mod 0x1000 < (0x1000 :: u32)"
    by (rule word_mod_less_divisor) simp
  then have lt: "uint (raw mod 0x1000) < 0x1000"
    by (simp add: word_less_def)
  have ge: "0 \<le> uint (raw mod 0x1000)" by (rule unsigned_greater_eq)
  show ?thesis
  proof (cases "raw mod 0x1000 < 0x800")
    case True
    then have "uint (raw mod 0x1000) < 0x800" by (simp add: word_less_def)
    then show ?thesis
      using ge True unfolding futex_op_sign_extend12_def Let_def if_P [OF True] by linarith
  next
    case False
    then have "\<not> uint (raw mod 0x1000) < 0x800" by (simp add: word_less_def)
    then show ?thesis
      using lt unfolding futex_op_sign_extend12_def Let_def if_not_P [OF False] by linarith
  qed
qed

lemma futex_op_shift_arg_mask_lt: "futex_op_shift_arg_mask arg < 32"
  by (simp add: futex_op_shift_arg_mask_def unat_mod)

lemma futex_wake_budget_bounds: "0 < futex_wake_budget val \<and> futex_wake_budget val \<le> 0x7fffffff"
  by (auto simp: futex_wake_budget_def word_gt_0 not_less)

section \<open>Facts on the PI word\<close>

lemma mod_waiters: "word mod FUTEX_PI_WAITERS = take_bit 31 (word :: u32)"
  by (simp add: FUTEX_PI_WAITERS_def take_bit_eq_mod)

lemma ge_waiters: "word \<ge> FUTEX_PI_WAITERS \<longleftrightarrow> bit (word :: u32) 31"
proof -
  have "bit word 31 \<longleftrightarrow> \<not> uint word < 2 ^ 31"
  proof -
    have "uint word < 2 ^ 31 \<longleftrightarrow> take_bit 31 (uint word) = uint word"
      by (simp add: take_bit_int_eq_self_iff)
    also have "\<dots> \<longleftrightarrow> \<not> bit word 31"
    proof
      assume "take_bit 31 (uint word) = uint word"
      then have "bit (take_bit 31 (uint word)) 31 = bit (uint word) 31" by simp
      then show "\<not> bit word 31" by (simp add: bit_take_bit_iff bit_uint_iff)
    next
      assume nb: "\<not> bit word 31"
      show "take_bit 31 (uint word) = uint word"
      proof (rule bit_eqI)
        fix n
        show "bit (take_bit 31 (uint word)) n = bit (uint word) n"
        proof (cases "n < 31")
          case False
          then have "\<not> bit word n"
            using nb bit_imp_le_length [of word n] by (cases "n = 31") auto
          then show ?thesis by (simp add: bit_take_bit_iff bit_uint_iff)
        qed (simp add: bit_take_bit_iff)
      qed
    qed
    finally show ?thesis by blast
  qed
  then show ?thesis
    by (simp add: FUTEX_PI_WAITERS_def word_le_def not_less)
qed

lemma waiters_exp: "FUTEX_PI_WAITERS = 2 ^ 31"
  by (simp add: FUTEX_PI_WAITERS_def)

lemma died_exp: "FUTEX_PI_OWNER_DIED = 2 ^ 30"
  by (simp add: FUTEX_PI_OWNER_DIED_def)

lemma tid_mask: "FUTEX_PI_TID_MASK = mask 30"
  by (simp add: FUTEX_PI_TID_MASK_def mask_eq_exp_minus_1)

lemma bit_waiters: "bit FUTEX_PI_WAITERS n \<longleftrightarrow> n = 31"
  unfolding waiters_exp bit_exp_iff by auto

lemma bit_died: "bit FUTEX_PI_OWNER_DIED n \<longleftrightarrow> n = 30"
  unfolding died_exp bit_exp_iff by auto

lemma bit_tid_mask: "bit FUTEX_PI_TID_MASK n \<longleftrightarrow> n < 30"
  unfolding tid_mask bit_mask_iff by auto

lemma set_waiters_or: "futex_pi_set_waiters word = take_bit 31 word OR FUTEX_PI_WAITERS"
proof -
  have "take_bit 31 word AND FUTEX_PI_WAITERS = 0"
    by (rule bit_eqI) (auto simp: bit_take_bit_iff bit_and_iff bit_waiters)
  then show ?thesis
    by (simp add: futex_pi_set_waiters_def mod_waiters disjunctive_add_eq_or)
qed

lemmas pi_bits = bit_waiters bit_died bit_tid_mask bit_take_bit_iff bit_and_iff bit_or_iff

lemma has_waiters_bit: "futex_pi_has_waiters word \<longleftrightarrow> bit word 31"
  by (simp add: futex_pi_has_waiters_def ge_waiters)

lemma set_waiters_has [pi_word]: "futex_pi_has_waiters (futex_pi_set_waiters word)"
  by (simp add: has_waiters_bit set_waiters_or pi_bits)

lemma set_waiters_owner [pi_word]: "futex_pi_owner_tid (futex_pi_set_waiters word) = futex_pi_owner_tid word"
  unfolding futex_pi_owner_tid_def set_waiters_or by (rule bit_eqI) (auto simp: pi_bits)

lemma clear_waiters_owner [pi_word]: "futex_pi_owner_tid (futex_pi_clear_waiters word) = futex_pi_owner_tid word"
  unfolding futex_pi_owner_tid_def futex_pi_clear_waiters_def mod_waiters
  by (rule bit_eqI) (auto simp: pi_bits)

lemma unowned_owner: "futex_pi_unowned word \<longleftrightarrow> futex_pi_owner_tid word = 0"
  by (simp add: futex_pi_unowned_def futex_pi_owner_tid_def)

lemma mark_died_owner [pi_word]: "futex_pi_owner_tid (futex_pi_mark_owner_died word) = 0"
  unfolding futex_pi_owner_tid_def futex_pi_mark_owner_died_def
  by (rule bit_eqI) (auto simp: pi_bits)

lemma mark_died_died [pi_word]: "futex_pi_owner_died (futex_pi_mark_owner_died word)"
proof -
  have "bit (futex_pi_mark_owner_died word AND FUTEX_PI_OWNER_DIED) 30"
    by (simp add: futex_pi_mark_owner_died_def pi_bits)
  then show ?thesis
    by (auto simp: futex_pi_owner_died_def)
qed

lemma mark_died_nonzero [pi_word]: "futex_pi_mark_owner_died word \<noteq> 0"
  using mark_died_died [of word] by (auto simp: futex_pi_owner_died_def)

lemma mark_died_waiters [pi_word]:
  "futex_pi_has_waiters (futex_pi_mark_owner_died word) = futex_pi_has_waiters word"
  by (simp add: has_waiters_bit futex_pi_mark_owner_died_def ge_waiters pi_bits)

lemma waiters_word [pi_word]:
  "futex_pi_owner_tid FUTEX_PI_WAITERS = 0" "futex_pi_has_waiters FUTEX_PI_WAITERS"
  "futex_pi_owner_tid 0 = 0" "\<not> futex_pi_has_waiters 0"
  by (simp_all add: futex_pi_owner_tid_def futex_pi_has_waiters_def FUTEX_PI_WAITERS_def FUTEX_PI_TID_MASK_def)

text \<open>A thread id as the word holds it.\<close>

definition tid_ok :: "u32 \<Rightarrow> bool" where
  "tid_ok tid \<longleftrightarrow> tid \<noteq> 0 \<and> tid AND FUTEX_PI_TID_MASK = tid"

lemma tid_ok_owner [pi_word]: "tid_ok tid \<Longrightarrow> futex_pi_owner_tid tid = tid"
  by (simp add: tid_ok_def futex_pi_owner_tid_def)

lemma tid_ok_died_owner [pi_word]:
  "tid_ok tid \<Longrightarrow> futex_pi_owner_tid (tid OR (cur AND FUTEX_PI_OWNER_DIED)) = tid"
proof -
  assume t: "tid_ok tid"
  have "(tid OR (cur AND FUTEX_PI_OWNER_DIED)) AND FUTEX_PI_TID_MASK = tid AND FUTEX_PI_TID_MASK"
    by (rule bit_eqI) (auto simp: pi_bits)
  then show ?thesis
    using t by (simp add: futex_pi_owner_tid_def tid_ok_def)
qed

section \<open>Facts on the lock order\<close>

lemma set_futex_bucket_insert: "set (futex_bucket_insert ids idx) = insert idx (set ids)"
  by (induction ids) auto

lemma futex_bucket_insert_sorted:
  "sorted_wrt (<) ids \<Longrightarrow> sorted_wrt (<) (futex_bucket_insert ids idx)"
proof (induction ids)
  case (Cons i ids)
  then show ?case
    by (auto simp: set_futex_bucket_insert dest: less_trans)
qed simp

lemma fold_bucket_insert:
  "sorted_wrt (<) ids \<Longrightarrow>
     sorted_wrt (<) (fold (\<lambda>idx ids. futex_bucket_insert ids idx) hs ids) \<and>
     set (fold (\<lambda>idx ids. futex_bucket_insert ids idx) hs ids) = set hs \<union> set ids"
  by (induction hs arbitrary: ids) (auto simp: futex_bucket_insert_sorted set_futex_bucket_insert)

lemma waitv_collect_buckets_sorted:
  "sorted_wrt (<) (waitv_collect_buckets hs) \<and> set (waitv_collect_buckets hs) = set hs"
  using fold_bucket_insert [of "[]" hs] by (simp add: waitv_collect_buckets_def)

section \<open>Facts on deadlines\<close>

definition ts_ns :: "timespec \<Rightarrow> int" where
  "ts_ns ts = tv_sec ts * TIMESPEC_NSEC_PER_SEC + tv_nsec ts"

definition ts_ok :: "timespec \<Rightarrow> bool" where
  "ts_ok ts \<longleftrightarrow> 0 \<le> tv_sec ts \<and> 0 \<le> tv_nsec ts \<and> tv_nsec ts < TIMESPEC_NSEC_PER_SEC"

lemma timespec_normalize_ns: "ts_ns (timespec_normalize ts) = ts_ns ts"
proof -
  have "tv_nsec ts sdiv 1000000000 * 1000000000 + tv_nsec ts smod 1000000000 = tv_nsec ts"
    by (rule sdiv_mult_smod_eq)
  then show ?thesis
    by (simp add: timespec_normalize_def ts_ns_def TIMESPEC_NSEC_PER_SEC_def Let_def algebra_simps)
qed

lemma timespec_normalize_range:
  "0 \<le> tv_nsec (timespec_normalize ts) \<and> tv_nsec (timespec_normalize ts) < TIMESPEC_NSEC_PER_SEC"
proof -
  have "\<bar>tv_nsec ts smod 1000000000\<bar> < 1000000000"
    by (simp add: modulo_int_def signed_modulo_int_def abs_mult sgn_if)
  then show ?thesis
    by (auto simp: timespec_normalize_def TIMESPEC_NSEC_PER_SEC_def Let_def)
qed

lemma timespec_to_ns_sat_ok:
  "ts_ok ts \<Longrightarrow> timespec_to_ns_sat (tv_sec ts) (tv_nsec ts) = min INT64_MAX (ts_ns ts)"
  by (simp add: timespec_to_ns_sat_def ts_ok_def ts_ns_def Let_def min_def TIMESPEC_SEC_MAX_def
      INT64_MAX_def TIMESPEC_NSEC_PER_SEC_def)

lemma timespec_to_ns_sat_range:
  "0 \<le> timespec_to_ns_sat sec nsec \<and> timespec_to_ns_sat sec nsec \<le> INT64_MAX"
  by (auto simp: timespec_to_ns_sat_def Let_def INT64_MAX_def TIMESPEC_NSEC_PER_SEC_def)

lemma futex_quantum_deadline_split:
  assumes "d = timespec_to_ns_sat (tv_sec deadline) (tv_nsec deadline)"
    and "n = timespec_to_ns_sat (tv_sec now) (tv_nsec now)"
  shows "futex_quantum_deadline now deadline =
    (if d \<le> n then None
     else Some \<lparr>tv_sec = min d (n + FUTEX_POLL_QUANTUM_NS) div TIMESPEC_NSEC_PER_SEC,
                tv_nsec = min d (n + FUTEX_POLL_QUANTUM_NS) mod TIMESPEC_NSEC_PER_SEC\<rparr>)"
proof -
  have "d \<le> INT64_MAX" using assms timespec_to_ns_sat_range by simp
  moreover have "min d (n + FUTEX_POLL_QUANTUM_NS) =
      n + (if d - n < FUTEX_POLL_QUANTUM_NS then d - n else FUTEX_POLL_QUANTUM_NS)"
    by (simp add: min_def)
  ultimately show ?thesis
    using assms(1) [symmetric] assms(2) [symmetric]
    by (simp add: futex_quantum_deadline_def futex_remaining_ns_def Let_def FUTEX_POLL_QUANTUM_NS_def)
qed

lemma ts_ns_div_mod:
  "ts_ns \<lparr>tv_sec = x div TIMESPEC_NSEC_PER_SEC, tv_nsec = x mod TIMESPEC_NSEC_PER_SEC\<rparr> = x"
  by (simp add: ts_ns_def)

lemma futex_quantum_deadline_ns:
  assumes "ts_ok deadline" "ts_ok now" "ts_ns now < INT64_MAX" "ts_ns now < ts_ns deadline"
  shows "\<exists>q. futex_quantum_deadline now deadline = Some q \<and>
    ts_ns q = min (min INT64_MAX (ts_ns deadline)) (ts_ns now + FUTEX_POLL_QUANTUM_NS)"
  using assms
  by (simp add: futex_quantum_deadline_split [OF refl refl] timespec_to_ns_sat_ok ts_ns_div_mod min_def)

end
