(* ===== verification/Futex.thy ===== *)
theory Futex
  imports Futex_Words
begin

text \<open>
  The state and the operations of \<^verbatim>\<open>src/src/runtime/futex.c\<close>: wait queues keyed by guest
  address in 1024 buckets, and the futex paths of \<^verbatim>\<open>src/src/core/shim.S\<close> that answer from the
  published waiter counts.

  A waiter node lives on the stack of the waiting thread; here it is a number that indexes
  \<open>waiters\<close>, and a bucket's linked list is the list of its node numbers, head first. Every
  definition that stands for code under a bucket lock is one function from state to state:
  the code between taking and releasing that lock. A wait is therefore several functions
  (charge, enqueue, leave, discharge), which the world theory interleaves.

  Guest memory is the 32-bit words at the aligned addresses. \<open>None\<close> is an address that
  \<open>guest_ptr\<close> does not resolve or whose load raises the guarded SIGBUS: both are EFAULT to
  every caller. \<open>writable\<close> is what \<open>guest_ptr_w\<close> resolves.
\<close>

section \<open>State\<close>

definition FUTEX_BUCKETS :: u32 where "FUTEX_BUCKETS = 1024"
definition SHIM_FUTEX_BUCKETS :: nat where "SHIM_FUTEX_BUCKETS = 1024"
definition FUTEX_BITSET_MATCH_ANY :: u32 where "FUTEX_BITSET_MATCH_ANY = 0xFFFFFFFF"

type_synonym wid = nat

datatype futex_err =
  FX_EINVAL | FX_EFAULT | FX_EAGAIN | FX_ENOSYS | FX_EPERM | FX_EDEADLK | FX_ESRCH | FX_EINTR | FX_ETIMEDOUT

type_synonym futex_ret = "futex_err + nat"

record futex_waiter =
  w_uaddr :: u64
  w_bitset :: u32
  woken :: bool
  grouped :: bool
  pub_bucket :: nat
  pub_follows :: bool
  home :: nat

text \<open>The condition variables a wake signals: the waiter's own, and the group's of a \<open>futex_waitv\<close>.\<close>

datatype cond = Cond wid | Group_cond wid

record futex_state =
  chains :: "nat \<Rightarrow> wid list"
  waiters :: "wid \<Rightarrow> futex_waiter"
  pub :: "nat \<Rightarrow> u32"
  mem :: "u64 \<Rightarrow> u32 option"
  writable :: "u64 \<Rightarrow> bool"
  signals :: "cond list"

definition futex_hash :: "u64 \<Rightarrow> nat" where
  "futex_hash uaddr = futex_bucket_index uaddr FUTEX_BUCKETS"

definition futex_uaddr_is_aligned :: "u64 \<Rightarrow> bool" where
  "futex_uaddr_is_aligned uaddr \<longleftrightarrow> uaddr AND 3 = 0"

definition shim_globals_futex_waiters_get :: "nat \<Rightarrow> futex_state \<Rightarrow> u32" where
  "shim_globals_futex_waiters_get bucket s = (if bucket \<ge> SHIM_FUTEX_BUCKETS then 0 else pub s bucket)"

definition shim_globals_futex_waiters_add :: "nat \<Rightarrow> int \<Rightarrow> futex_state \<Rightarrow> futex_state" where
  "shim_globals_futex_waiters_add bucket delta s =
     (if bucket \<ge> SHIM_FUTEX_BUCKETS then s
      else s\<lparr>pub := (pub s)(bucket := pub s bucket + word_of_int delta)\<rparr>)"

definition futex_init :: "futex_state \<Rightarrow> futex_state" where
  "futex_init s = s\<lparr>chains := (\<lambda>i. if i < unat FUTEX_BUCKETS then [] else chains s i)\<rparr>"

section \<open>Guest words\<close>

definition futex_word_load :: "u64 \<Rightarrow> futex_state \<Rightarrow> u32 option" where
  "futex_word_load a s = mem s a"

text \<open>\<open>None\<close> is the fault; otherwise whether the exchange won, the value seen, and the state.\<close>

definition futex_word_cas :: "u64 \<Rightarrow> u32 \<Rightarrow> u32 \<Rightarrow> futex_state \<Rightarrow> (bool \<times> u32 \<times> futex_state) option" where
  "futex_word_cas a expected desired s =
     (case mem s a of
        None \<Rightarrow> None
      | Some v \<Rightarrow> if v = expected then Some (True, v, s\<lparr>mem := (mem s)(a \<mapsto> desired)\<rparr>) else Some (False, v, s))"

text \<open>
  A load and compare-exchange loop that repeats until the exchange wins. A lost exchange
  leaves the word alone, so the loop is the atomic update at the turn that wins.
\<close>

definition futex_word_update :: "u64 \<Rightarrow> (u32 \<Rightarrow> u32) \<Rightarrow> futex_state \<Rightarrow> (u32 \<times> futex_state) option" where
  "futex_word_update a f s =
     (case futex_word_load a s of
        None \<Rightarrow> None
      | Some v \<Rightarrow> (case futex_word_cas a v (f v) s of None \<Rightarrow> None | Some (won, seen, s') \<Rightarrow> Some (v, s')))"

definition futex_should_block :: "u64 \<Rightarrow> u32 \<Rightarrow> futex_state \<Rightarrow> futex_err option" where
  "futex_should_block uaddr expected s =
     (case futex_word_load uaddr s of
        None \<Rightarrow> Some FX_EFAULT
      | Some current \<Rightarrow> if current \<noteq> expected then Some FX_EAGAIN else None)"

definition FUTEX_SPIN_ITERS :: nat where "FUTEX_SPIN_ITERS = 4096"

text \<open>The spin: the successive loads, each possibly after a guest store; \<open>None\<close> is the fault that ends it.\<close>

fun spin_loads :: "u32 \<Rightarrow> u32 option list \<Rightarrow> bool" where
  "spin_loads expected [] = False"
| "spin_loads expected (None # seen) = False"
| "spin_loads expected (Some v # seen) = (v \<noteq> expected \<or> spin_loads expected seen)"

definition futex_spin_word_moved :: "u32 \<Rightarrow> u32 option list \<Rightarrow> bool" where
  "futex_spin_word_moved expected seen = spin_loads expected (take FUTEX_SPIN_ITERS seen)"

text \<open>Unaligned reads go through \<open>guest_read_small\<close>, byte by byte.\<close>

definition load_byte :: "futex_state \<Rightarrow> u64 \<Rightarrow> u8 option" where
  "load_byte s a = map_option (\<lambda>v. ucast (drop_bit (8 * unat (a AND 3)) v)) (mem s (a AND NOT 3))"

fun load_bytes :: "futex_state \<Rightarrow> u64 \<Rightarrow> nat \<Rightarrow> u64 option" where
  "load_bytes s a 0 = Some 0"
| "load_bytes s a (Suc n) =
     (case (load_byte s a, load_bytes s (a + 1) n) of
        (Some b, Some rest) \<Rightarrow> Some (ucast b OR push_bit 8 rest)
      | _ \<Rightarrow> None)"

section \<open>Bucket lists\<close>

definition set_chain :: "nat \<Rightarrow> wid list \<Rightarrow> futex_state \<Rightarrow> futex_state" where
  "set_chain i ws s = s\<lparr>chains := (chains s)(i := ws)\<rparr>"

definition set_waiter :: "wid \<Rightarrow> futex_waiter \<Rightarrow> futex_state \<Rightarrow> futex_state" where
  "set_waiter w n s = s\<lparr>waiters := (waiters s)(w := n)\<rparr>"

definition bucket_unlink_locked :: "nat \<Rightarrow> wid \<Rightarrow> futex_state \<Rightarrow> futex_state" where
  "bucket_unlink_locked b w s = set_chain b (remove1 w (chains s b)) s"

definition bucket_has_uaddr_locked :: "nat \<Rightarrow> u64 \<Rightarrow> futex_state \<Rightarrow> bool" where
  "bucket_has_uaddr_locked b uaddr s = list_ex (\<lambda>w. w_uaddr (waiters s w) = uaddr) (chains s b)"

definition futex_waiter_notify_group :: "wid \<Rightarrow> futex_state \<Rightarrow> futex_state" where
  "futex_waiter_notify_group w s =
     (if grouped (waiters s w) then s\<lparr>signals := Group_cond w # signals s\<rparr> else s)"

text \<open>\<open>futex_wake_waiter_locked\<close> after its unlink, which the walks below do to the list they rebuild.\<close>

definition mark_woken :: "wid \<Rightarrow> futex_state \<Rightarrow> futex_state" where
  "mark_woken w s =
     futex_waiter_notify_group w
       ((set_waiter w ((waiters s w)\<lparr>woken := True\<rparr>) s)\<lparr>signals := Cond w # signals s\<rparr>)"

text \<open>A walk that wakes up to \<open>n\<close> matching nodes: what stays queued, and the nodes woken, in order.\<close>

fun wake_walk :: "(wid \<Rightarrow> bool) \<Rightarrow> nat \<Rightarrow> wid list \<Rightarrow> wid list \<times> wid list" where
  "wake_walk match n [] = ([], [])"
| "wake_walk match n (w # ws) =
     (if n = 0 then (w # ws, [])
      else if match w then (case wake_walk match (n - 1) ws of (kept, hit) \<Rightarrow> (kept, w # hit))
      else (case wake_walk match n ws of (kept, hit) \<Rightarrow> (w # kept, hit)))"

definition wake_bucket :: "nat \<Rightarrow> (wid \<Rightarrow> bool) \<Rightarrow> nat \<Rightarrow> futex_state \<Rightarrow> nat \<times> futex_state" where
  "wake_bucket b match n s =
     (case wake_walk match n (chains s b) of
        (kept, hit) \<Rightarrow> (length hit, fold mark_woken hit (set_chain b kept s)))"

definition futex_wake_first_locked :: "nat \<Rightarrow> u64 \<Rightarrow> futex_state \<Rightarrow> futex_state" where
  "futex_wake_first_locked b uaddr s = snd (wake_bucket b (\<lambda>w. w_uaddr (waiters s w) = uaddr) 1 s)"

section \<open>FUTEX_WAKE\<close>

definition matches :: "futex_state \<Rightarrow> u64 \<Rightarrow> u32 \<Rightarrow> wid \<Rightarrow> bool" where
  "matches s uaddr bitset w \<longleftrightarrow> w_uaddr (waiters s w) = uaddr \<and> w_bitset (waiters s w) AND bitset \<noteq> 0"

fun pi_within :: "(wid \<Rightarrow> bool) \<Rightarrow> (wid \<Rightarrow> bool) \<Rightarrow> nat \<Rightarrow> wid list \<Rightarrow> bool" where
  "pi_within follows match budget [] = False"
| "pi_within follows match budget (w # ws) =
     (budget \<noteq> 0 \<and>
      (if \<not> match w then pi_within follows match budget ws
       else if \<not> follows w then True
       else pi_within follows match (budget - 1) ws))"

definition futex_pi_waiter_within :: "nat \<Rightarrow> u64 \<Rightarrow> u32 \<Rightarrow> u32 \<Rightarrow> futex_state \<Rightarrow> bool" where
  "futex_pi_waiter_within b uaddr bitset budget s =
     pi_within (\<lambda>w. pub_follows (waiters s w)) (matches s uaddr bitset) (unat budget) (chains s b)"

definition futex_wake :: "u64 \<Rightarrow> u32 \<Rightarrow> u32 \<Rightarrow> futex_state \<Rightarrow> futex_ret \<times> futex_state" where
  "futex_wake uaddr val0 bitset s =
     (if bitset = 0 then (Inl FX_EINVAL, s)
      else if \<not> futex_uaddr_is_aligned uaddr then (Inl FX_EINVAL, s)
      else
        let val = futex_wake_budget val0; b = futex_hash uaddr in
        if futex_pi_waiter_within b uaddr bitset val s then (Inl FX_EINVAL, s)
        else case wake_bucket b (matches s uaddr bitset) (unat val) s of (n, s') \<Rightarrow> (Inr n, s'))"

definition futex_wake_one :: "u64 \<Rightarrow> futex_state \<Rightarrow> futex_ret \<times> futex_state" where
  "futex_wake_one uaddr s = futex_wake uaddr 1 FUTEX_BITSET_MATCH_ANY s"

section \<open>FUTEX_REQUEUE and FUTEX_CMP_REQUEUE\<close>

definition requeue_move :: "nat \<Rightarrow> u64 \<Rightarrow> wid \<Rightarrow> futex_state \<Rightarrow> futex_state" where
  "requeue_move idx_dst uaddr2 w s =
     (let n = waiters s w;
          s1 = (if pub_follows n
                then set_waiter w (n\<lparr>pub_bucket := idx_dst\<rparr>)
                       (shim_globals_futex_waiters_add (pub_bucket n) (-1)
                         (shim_globals_futex_waiters_add idx_dst 1 s))
                else s);
          s2 = set_chain idx_dst (w # chains s1 idx_dst)
                 (set_waiter w ((waiters s1 w)\<lparr>w_uaddr := uaddr2, home := idx_dst\<rparr>) s1)
      in s2\<lparr>signals := Cond w # signals s2\<rparr>)"

text \<open>
  The walk of the source list: \<open>pre\<close> is what the cursor has passed and left in place, the
  list argument what it has not reached.
\<close>

fun requeue_walk ::
  "u64 \<Rightarrow> u64 \<Rightarrow> nat \<Rightarrow> nat \<Rightarrow> u32 \<Rightarrow> u32 \<Rightarrow> u32 \<Rightarrow> u32 \<Rightarrow> wid list \<Rightarrow> wid list \<Rightarrow> futex_state
   \<Rightarrow> u32 \<times> u32 \<times> futex_state" where
  "requeue_walk uaddr uaddr2 src dst nw nr hit moved pre [] s = (hit, moved, set_chain src pre s)"
| "requeue_walk uaddr uaddr2 src dst nw nr hit moved pre (w # ws) s =
     (if w_uaddr (waiters s w) \<noteq> uaddr
      then requeue_walk uaddr uaddr2 src dst nw nr hit moved (pre @ [w]) ws s
      else case futex_requeue_step hit moved nw nr of
        FUTEX_REQ_STOP \<Rightarrow> (hit, moved, set_chain src (pre @ w # ws) s)
      | FUTEX_REQ_WAKE \<Rightarrow> requeue_walk uaddr uaddr2 src dst nw nr (hit + 1) moved pre ws (mark_woken w s)
      | FUTEX_REQ_MOVE \<Rightarrow>
          if src = dst
          then requeue_walk uaddr uaddr2 src dst nw nr hit (moved + 1) (pre @ [w]) ws
                 (set_waiter w ((waiters s w)\<lparr>w_uaddr := uaddr2\<rparr>) s)
          else requeue_walk uaddr uaddr2 src dst nw nr hit (moved + 1) pre ws (requeue_move dst uaddr2 w s))"

definition futex_requeue ::
  "u64 \<Rightarrow> u32 \<Rightarrow> u32 \<Rightarrow> u64 \<Rightarrow> bool \<Rightarrow> u32 \<Rightarrow> futex_state \<Rightarrow> futex_ret \<times> futex_state" where
  "futex_requeue uaddr wake_count requeue_count uaddr2 do_cmp expected s =
     (if \<not> futex_requeue_counts_valid wake_count requeue_count then (Inl FX_EINVAL, s)
      else if \<not> futex_uaddr_is_aligned uaddr \<or> \<not> futex_uaddr_is_aligned uaddr2 then (Inl FX_EINVAL, s)
      else
        let src = futex_hash uaddr; dst = futex_hash uaddr2 in
        case (if do_cmp then futex_should_block uaddr expected s else None) of
          Some e \<Rightarrow> (Inl e, s)
        | None \<Rightarrow>
            if pi_within (\<lambda>w. pub_follows (waiters s w)) (\<lambda>w. w_uaddr (waiters s w) = uaddr)
                 (unat (futex_requeue_budget wake_count requeue_count)) (chains s src)
            then (Inl FX_EINVAL, s)
            else case requeue_walk uaddr uaddr2 src dst wake_count requeue_count 0 0 [] (chains s src) s of
                   (hit, moved, s') \<Rightarrow> (Inr (unat hit + unat moved), s'))"

section \<open>FUTEX_WAKE_OP\<close>

definition wake_op_operand :: "u32 \<Rightarrow> u32 \<times> u32 \<times> u32 \<times> int" where
  "wake_op_operand val3 =
     (let wake_op = drop_bit 28 val3 AND 0xF;
          wake_cmp = drop_bit 24 val3 AND 0xF;
          op_arg = futex_op_sign_extend12 (drop_bit 12 val3);
          cmp_arg = futex_op_sign_extend12 val3;
          op_val = (if wake_op AND 8 \<noteq> 0 then push_bit (futex_op_shift_arg_mask op_arg) 1
                    else word_of_int op_arg)
      in (wake_op AND 7, op_val, wake_cmp, cmp_arg))"

definition futex_wake_op ::
  "u64 \<Rightarrow> u32 \<Rightarrow> u64 \<Rightarrow> u32 \<Rightarrow> u32 \<Rightarrow> futex_state \<Rightarrow> futex_ret \<times> futex_state" where
  "futex_wake_op uaddr val0 uaddr2 val20 val3 s =
     (if \<not> futex_uaddr_is_aligned uaddr \<or> \<not> futex_uaddr_is_aligned uaddr2 then (Inl FX_EINVAL, s)
      else
        let val = futex_wake_budget val0; val2 = futex_wake_budget val20 in
        case wake_op_operand val3 of (wake_op, op_val, wake_cmp, cmp_arg) \<Rightarrow>
        if \<not> futex_wake_op_supported wake_op then (Inl FX_ENOSYS, s)
        else if \<not> writable s uaddr2 then (Inl FX_EFAULT, s)
        else case futex_word_update uaddr2 (\<lambda>old. futex_wake_op_apply old wake_op op_val) s of
          None \<Rightarrow> (Inl FX_EFAULT, s)
        | Some (old_val, s1) \<Rightarrow>
            if \<not> futex_wake_cmp_supported wake_cmp then (Inl FX_ENOSYS, s1)
            else
              let b1 = futex_hash uaddr; b2 = futex_hash uaddr2;
                  cond_met = futex_wake_op_cmp (sint old_val) wake_cmp cmp_arg
              in if futex_pi_waiter_within b1 uaddr FUTEX_BITSET_MATCH_ANY val s1
                    \<or> (cond_met \<and> futex_pi_waiter_within b2 uaddr2 FUTEX_BITSET_MATCH_ANY val2 s1)
                 then (Inl FX_EINVAL, s1)
                 else
                   (case wake_bucket b1 (\<lambda>w. w_uaddr (waiters s1 w) = uaddr) (unat val) s1 of (woken1, s2) \<Rightarrow>
                    if cond_met
                    then (case wake_bucket b2 (\<lambda>w. w_uaddr (waiters s2 w) = uaddr2) (unat val2) s2 of
                            (woken2, s3) \<Rightarrow> (Inr (woken1 + woken2), s3))
                    else (Inr woken1, s2)))"

section \<open>FUTEX_WAIT and FUTEX_WAIT_BITSET\<close>

text \<open>
  \<open>futex_wait_inner\<close> in its windows: the checks before the bucket lock, the enqueue under it,
  one pass of the sleep loop, and the dequeue under the lock of the bucket that holds the
  waiter then. \<open>arg\<close> is \<open>None\<close> for an untimed wait, else what reading the guest's timespec gave.
\<close>

definition futex_wait_checks ::
  "u64 \<Rightarrow> u32 \<Rightarrow> timespec option option \<Rightarrow> bool \<Rightarrow> timespec \<Rightarrow> futex_err + timespec option" where
  "futex_wait_checks uaddr bitset arg is_absolute now =
     (if bitset = 0 then Inl FX_EINVAL
      else if \<not> futex_uaddr_is_aligned uaddr then Inl FX_EINVAL
      else case arg of
        None \<Rightarrow> Inr None
      | Some lts \<Rightarrow>
          (case futex_make_deadline now lts is_absolute of
             Inl rc \<Rightarrow> Inl (if rc = -1 then FX_EFAULT else FX_EINVAL)
           | Inr deadline \<Rightarrow> Inr (Some deadline)))"

text \<open>\<open>seen\<close> is \<open>None\<close> when \<open>guest_ptr\<close> fails, else the loads of the spin; \<open>now\<close> is its clock reading.\<close>

definition futex_wait_spin :: "timespec option \<Rightarrow> timespec \<Rightarrow> u32 \<Rightarrow> u32 option list option \<Rightarrow> bool" where
  "futex_wait_spin deadline now expected seen =
     ((case deadline of None \<Rightarrow> True | Some d \<Rightarrow> fst (futex_remaining_ns now d FUTEX_POLL_QUANTUM_NS) > 0)
      \<and> (case seen of None \<Rightarrow> False | Some l \<Rightarrow> futex_spin_word_moved expected l))"

definition enqueue :: "wid \<Rightarrow> futex_waiter \<Rightarrow> nat \<Rightarrow> futex_state \<Rightarrow> futex_state" where
  "enqueue w n b s = set_chain b (w # chains s b) (set_waiter w n s)"

definition futex_wait_enqueue ::
  "wid \<Rightarrow> u64 \<Rightarrow> u32 \<Rightarrow> u32 \<Rightarrow> bool \<Rightarrow> futex_state \<Rightarrow> futex_err option \<times> futex_state" where
  "futex_wait_enqueue w uaddr expected bitset in_group s =
     (let idx = futex_hash uaddr in
      case futex_should_block uaddr expected s of
        Some e \<Rightarrow> (Some e, s)
      | None \<Rightarrow>
          (None, enqueue w \<lparr>w_uaddr = uaddr, w_bitset = bitset, woken = False, grouped = in_group,
                            pub_bucket = idx, pub_follows = True, home = idx\<rparr> idx s))"

text \<open>
  What one pass of the loop observes, in the order it looks: the flag at the top, an expired
  deadline, a teardown or interrupt after the sleep, the flag again, a claimed signal, and
  the flag once more after the signal poll.
\<close>

record wait_pass =
  at_top :: bool
  expired :: bool
  stopping :: bool
  after_sleep :: bool
  sig_ready :: bool
  after_poll :: bool

datatype wait_next = Again | Leave "futex_err option"

definition futex_wait_pass :: "bool \<Rightarrow> wait_pass \<Rightarrow> wait_next" where
  "futex_wait_pass has_timeout p =
     (if at_top p then Leave None
      else if has_timeout then
        (if expired p then Leave (Some FX_ETIMEDOUT)
         else if stopping p then Leave (Some FX_EINTR)
         else if after_sleep p then Leave None
         else if after_poll p then Leave None
         else if sig_ready p then Leave (Some FX_EINTR)
         else Again)
      else
        (if stopping p then Leave (Some FX_EINTR)
         else if after_poll p then Leave None
         else if sig_ready p then Leave (Some FX_EINTR)
         else Again))"

text \<open>
  The last window, under the lock of the bucket \<open>home\<close> names: the call's result, whether an
  SVC restart is forbidden, the bucket whose count the wrapper drops, and the state.
\<close>

definition futex_wait_leave ::
  "wid \<Rightarrow> futex_err option \<Rightarrow> bool \<Rightarrow> bool \<Rightarrow> futex_state \<Rightarrow> futex_ret \<times> bool \<times> nat \<times> futex_state" where
  "futex_wait_leave w ret has_timeout is_absolute s =
     (let n = waiters s w;
          s' = (if woken n then s else bucket_unlink_locked (home n) w s)
      in (if woken n then Inr 0 else (case ret of None \<Rightarrow> Inr 0 | Some e \<Rightarrow> Inl e),
          \<not> woken n \<and> ret = Some FX_EINTR \<and> has_timeout \<and> \<not> is_absolute,
          pub_bucket n, s'))"

text \<open>The charge and the discharge of the wrapper \<open>futex_wait\<close> (and of \<open>futex_lock_pi\<close>).\<close>

definition futex_charge :: "u64 \<Rightarrow> futex_state \<Rightarrow> futex_state" where
  "futex_charge uaddr s = shim_globals_futex_waiters_add (futex_hash uaddr) 1 s"

definition futex_discharge :: "nat \<Rightarrow> futex_state \<Rightarrow> futex_state" where
  "futex_discharge b s = shim_globals_futex_waiters_add b (-1) s"

text \<open>
  A whole \<open>futex_wait\<close> during which no other thread runs: the call returns at once with an
  error, or parks. \<open>seen\<close> is the spin's loads.
\<close>

definition futex_wait_alone ::
  "wid \<Rightarrow> u64 \<Rightarrow> u32 \<Rightarrow> timespec option option \<Rightarrow> u32 \<Rightarrow> bool \<Rightarrow> timespec \<Rightarrow> futex_state
   \<Rightarrow> futex_err option \<times> futex_state" where
  "futex_wait_alone w uaddr expected arg bitset is_absolute now s =
     (let s1 = futex_charge uaddr s; undo = futex_discharge (futex_hash uaddr) in
      case futex_wait_checks uaddr bitset arg is_absolute now of
        Inl e \<Rightarrow> (Some e, undo s1)
      | Inr deadline \<Rightarrow>
          if futex_wait_spin deadline now expected
               (Some (replicate FUTEX_SPIN_ITERS (futex_word_load uaddr s1)))
          then (Some FX_EAGAIN, undo s1)
          else case futex_wait_enqueue w uaddr expected bitset False s1 of
                 (Some e, s2) \<Rightarrow> (Some e, undo s2)
               | (None, s2) \<Rightarrow> (None, s2))"

section \<open>PI locks\<close>

datatype pi_next = Pi_return futex_ret | Pi_go | Pi_retry | Pi_parked

text \<open>The fast path of \<open>futex_lock_pi_inner\<close> and the two tests on the owner it finds.\<close>

definition lock_pi_fast :: "(u32 \<Rightarrow> bool) \<Rightarrow> u32 \<Rightarrow> u64 \<Rightarrow> futex_state \<Rightarrow> pi_next \<times> futex_state" where
  "lock_pi_fast thread_find tid uaddr s =
     (case futex_word_cas uaddr 0 tid s of
        None \<Rightarrow> (Pi_return (Inl FX_EFAULT), s)
      | Some (True, seen, s') \<Rightarrow> (Pi_return (Inr 0), s')
      | Some (False, seen, s') \<Rightarrow>
          if futex_pi_owner_tid seen = tid then (Pi_return (Inl FX_EDEADLK), s')
          else if futex_pi_owner_tid seen \<noteq> 0 \<and> \<not> thread_find (futex_pi_owner_tid seen)
          then (Pi_return (Inl FX_ESRCH), s')
          else (Pi_go, s'))"

text \<open>The checks before the loop.\<close>

definition lock_pi_checks :: "u64 \<Rightarrow> timespec option option \<Rightarrow> timespec \<Rightarrow> futex_state \<Rightarrow> futex_err + timespec option" where
  "lock_pi_checks uaddr arg now s =
     (if \<not> futex_uaddr_is_aligned uaddr then Inl FX_EINVAL
      else if \<not> writable s uaddr then Inl FX_EFAULT
      else case arg of
        None \<Rightarrow> Inr None
      | Some lts \<Rightarrow>
          (case futex_make_deadline now lts True of
             Inl rc \<Rightarrow> Inl (if rc = -1 then FX_EFAULT else FX_EINVAL)
           | Inr deadline \<Rightarrow> Inr (Some deadline)))"

text \<open>
  The window under the bucket lock: take an unowned word over, or set FUTEX_WAITERS on an
  owned one and enqueue.
\<close>

definition pi_waiter :: "u64 \<Rightarrow> futex_waiter" where
  "pi_waiter uaddr = \<lparr>w_uaddr = uaddr, w_bitset = FUTEX_BITSET_MATCH_ANY, woken = False, grouped = False,
     pub_bucket = futex_hash uaddr, pub_follows = False, home = 0\<rparr>"

definition lock_pi_window :: "wid \<Rightarrow> u32 \<Rightarrow> u64 \<Rightarrow> futex_state \<Rightarrow> pi_next \<times> futex_state" where
  "lock_pi_window w tid uaddr s =
     (let b = futex_hash uaddr in
      case futex_word_load uaddr s of
        None \<Rightarrow> (Pi_return (Inl FX_EFAULT), s)
      | Some cur \<Rightarrow>
          if futex_pi_unowned cur then
            if cur \<noteq> 0 then
              let want0 = tid OR (cur AND FUTEX_PI_OWNER_DIED);
                  want = (if bucket_has_uaddr_locked b uaddr s then futex_pi_set_waiters want0 else want0)
              in case futex_word_cas uaddr cur want s of
                   None \<Rightarrow> (Pi_return (Inl FX_EFAULT), s)
                 | Some (taken, seen, s') \<Rightarrow> if taken then (Pi_return (Inr 0), s') else (Pi_retry, s')
            else (Pi_retry, s)
          else
            case (if futex_pi_has_waiters cur then Some s
                  else map_option (\<lambda>(marked, seen, s'). s')
                         (futex_word_cas uaddr cur (futex_pi_set_waiters cur) s)) of
              None \<Rightarrow> (Pi_return (Inl FX_EFAULT), s)
            | Some s1 \<Rightarrow> (Pi_parked, enqueue w (pi_waiter uaddr) b s1))"

text \<open>One pass of the sleep loop; \<open>Leave None\<close> retries the acquisition.\<close>

record pi_pass = wait_pass +
  check :: "u32 option"
  owner_alive :: bool

definition lock_pi_pass :: "bool \<Rightarrow> pi_pass \<Rightarrow> wait_next" where
  "lock_pi_pass has_timeout p =
     (if at_top p then Leave None
      else if has_timeout \<and> expired p then Leave (Some FX_ETIMEDOUT)
      else if after_sleep p then Leave None
      else if stopping p then Leave (Some FX_EINTR)
      else if after_poll p then Leave None
      else if sig_ready p then Leave (Some FX_EINTR)
      else case check p of
        None \<Rightarrow> Leave (Some FX_EFAULT)
      | Some v \<Rightarrow> if futex_pi_unowned v then Leave None
                  else if \<not> owner_alive p then Leave (Some FX_ESRCH) else Again)"

definition futex_clear_waiters_bit :: "u64 \<Rightarrow> futex_state \<Rightarrow> futex_state" where
  "futex_clear_waiters_bit uaddr s =
     (case futex_word_load uaddr s of
        None \<Rightarrow> s
      | Some v \<Rightarrow>
          if \<not> futex_pi_has_waiters v then s
          else case futex_word_cas uaddr v (futex_pi_clear_waiters v) s of
                 None \<Rightarrow> s | Some (cleared, seen, s') \<Rightarrow> s')"

definition lock_pi_leave :: "wid \<Rightarrow> u64 \<Rightarrow> futex_err option \<Rightarrow> futex_state \<Rightarrow> futex_state" where
  "lock_pi_leave w uaddr rc s =
     (let b = futex_hash uaddr; s1 = bucket_unlink_locked b w s in
      if rc = Some FX_ETIMEDOUT \<and> \<not> bucket_has_uaddr_locked b uaddr s1
      then futex_clear_waiters_bit uaddr s1 else s1)"

definition futex_trylock_pi :: "u32 \<Rightarrow> u64 \<Rightarrow> futex_state \<Rightarrow> futex_ret \<times> futex_state" where
  "futex_trylock_pi tid uaddr s =
     (if \<not> futex_uaddr_is_aligned uaddr then (Inl FX_EINVAL, s)
      else if \<not> writable s uaddr then (Inl FX_EFAULT, s)
      else case futex_word_cas uaddr 0 tid s of
        None \<Rightarrow> (Inl FX_EFAULT, s)
      | Some (acquired, seen, s') \<Rightarrow> if acquired then (Inr 0, s') else (Inl FX_EAGAIN, s'))"

definition unlock_pi_check :: "u32 \<Rightarrow> u64 \<Rightarrow> futex_state \<Rightarrow> futex_err option" where
  "unlock_pi_check tid uaddr s =
     (case load_bytes s uaddr 4 of
        None \<Rightarrow> Some FX_EFAULT
      | Some cur \<Rightarrow>
          if futex_pi_owner_tid (ucast cur) \<noteq> tid then Some FX_EPERM
          else if \<not> futex_uaddr_is_aligned uaddr then Some FX_EINVAL
          else if \<not> writable s uaddr then Some FX_EFAULT
          else None)"

definition unlock_pi_release :: "u64 \<Rightarrow> futex_state \<Rightarrow> futex_ret \<times> futex_state" where
  "unlock_pi_release uaddr s =
     (let b = futex_hash uaddr;
          s1 = futex_wake_first_locked b uaddr s;
          released = (if bucket_has_uaddr_locked b uaddr s1 then FUTEX_PI_WAITERS else 0)
      in case futex_word_update uaddr (\<lambda>_. released) s1 of
           None \<Rightarrow> (Inl FX_EFAULT, s1)
         | Some (v, s2) \<Rightarrow> (Inr 0, s2))"

definition futex_unlock_pi :: "u32 \<Rightarrow> u64 \<Rightarrow> futex_state \<Rightarrow> futex_ret \<times> futex_state" where
  "futex_unlock_pi tid uaddr s =
     (case unlock_pi_check tid uaddr s of Some e \<Rightarrow> (Inl e, s) | None \<Rightarrow> unlock_pi_release uaddr s)"

section \<open>Robust lists\<close>

definition ROBUST_LIST_LIMIT :: nat where "ROBUST_LIST_LIMIT = 2048"

definition futex_wake_owner_died :: "u64 \<Rightarrow> futex_state \<Rightarrow> futex_state" where
  "futex_wake_owner_died uaddr s = futex_wake_first_locked (futex_hash uaddr) uaddr s"

definition robust_gva :: "u64 \<Rightarrow> u64 \<Rightarrow> u64" where
  "robust_gva entry off = (if sint off \<ge> 0 then entry + off else entry - (- off))"

definition robust_skipped :: "u64 \<Rightarrow> bool" where
  "robust_skipped gva \<longleftrightarrow> gva > 0x0000FFFFFFFFFFFF \<or> \<not> futex_uaddr_is_aligned gva"

definition robust_mark :: "u32 \<Rightarrow> u64 \<Rightarrow> futex_state \<Rightarrow> futex_state" where
  "robust_mark tid gva s =
     (case load_bytes s gva 4 of
        None \<Rightarrow> s
      | Some v \<Rightarrow>
          if futex_pi_owner_tid (ucast v) = tid then
            if \<not> writable s gva then s
            else futex_wake_owner_died gva (s\<lparr>mem := (mem s)(gva \<mapsto> futex_pi_mark_owner_died (ucast v))\<rparr>)
          else s)"

fun robust_loop :: "nat \<Rightarrow> u32 \<Rightarrow> u64 \<Rightarrow> u64 \<Rightarrow> u64 \<Rightarrow> futex_state \<Rightarrow> futex_state" where
  "robust_loop 0 tid head_entry off list_ptr s = s"
| "robust_loop (Suc left) tid head_entry off list_ptr s =
     (if list_ptr = head_entry then s
      else
        let gva = robust_gva list_ptr off;
            s1 = (if robust_skipped gva then s else robust_mark tid gva s)
        in case load_bytes s1 list_ptr 8 of
             None \<Rightarrow> s1
           | Some nxt \<Rightarrow> robust_loop left tid head_entry off (nxt AND NOT 1) s1)"

definition robust_list_walk :: "u32 \<Rightarrow> u64 \<Rightarrow> futex_state \<Rightarrow> futex_state" where
  "robust_list_walk tid head_gva s =
     (if head_gva = 0 then s
      else case (load_bytes s head_gva 8, load_bytes s (head_gva + 8) 8, load_bytes s (head_gva + 16) 8) of
        (Some h0, Some off, Some h2) \<Rightarrow>
          let pending = h2 AND NOT 1;
              s1 = robust_loop ROBUST_LIST_LIMIT tid head_gva off (h0 AND NOT 1) s
          in if pending \<noteq> 0 \<and> pending \<noteq> head_gva then
               let gva = robust_gva pending off in
               if robust_skipped gva then s1 else robust_mark tid gva s1
             else s1
      | _ \<Rightarrow> s)"

section \<open>futex_waitv\<close>

definition FUTEX_WAITV_MAX :: nat where "FUTEX_WAITV_MAX = 128"
definition FUTEX2_SIZE_U32 :: u32 where "FUTEX2_SIZE_U32 = 2"
definition FUTEX2_SIZE_MASK :: u32 where "FUTEX2_SIZE_MASK = 3"
definition FUTEX2_PRIVATE :: u32 where "FUTEX2_PRIVATE = 0x80"
definition FUTEX2_VALID_FLAGS :: u32 where "FUTEX2_VALID_FLAGS = FUTEX2_SIZE_MASK OR FUTEX2_PRIVATE"

record futex_waitv =
  v_val :: u64
  v_uaddr :: u64
  v_flags :: u32
  v_reserved :: u32

definition waitv_elt_ok :: "futex_waitv \<Rightarrow> bool" where
  "waitv_elt_ok e \<longleftrightarrow>
     v_reserved e = 0 \<and> v_flags e AND NOT FUTEX2_VALID_FLAGS = 0
     \<and> v_flags e AND FUTEX2_SIZE_MASK = FUTEX2_SIZE_U32 \<and> futex_uaddr_is_aligned (v_uaddr e)"

text \<open>
  The checks, in the order of the code. \<open>arg\<close> is \<open>None\<close> without a timeout, else what reading
  the timespec gave; \<open>elts\<close> is \<open>None\<close> when the array cannot be read.
\<close>

definition waitv_checks ::
  "u64 \<Rightarrow> nat \<Rightarrow> u32 \<Rightarrow> timespec option option \<Rightarrow> int \<Rightarrow> timespec \<Rightarrow> timespec \<Rightarrow> futex_waitv list option
   \<Rightarrow> futex_err + timespec option \<times> futex_waitv list" where
  "waitv_checks waiters_gva nr_futexes flags arg clockid now mono_now elts =
     (if flags \<noteq> 0 then Inl FX_EINVAL
      else if nr_futexes = 0 \<or> nr_futexes > FUTEX_WAITV_MAX \<or> waiters_gva = 0 then Inl FX_EINVAL
      else if arg \<noteq> None \<and> clockid \<noteq> 0 \<and> clockid \<noteq> 1 then Inl FX_EINVAL
      else case arg of
        Some None \<Rightarrow> Inl FX_EFAULT
      | Some (Some lts) \<Rightarrow>
          if \<not> linux_timespec_is_valid lts then Inl FX_EINVAL
          else (case elts of None \<Rightarrow> Inl FX_EFAULT
                | Some es \<Rightarrow> if list_all waitv_elt_ok es
                             then Inr (Some (waitv_deadline now mono_now (clockid = 1) lts), es)
                             else Inl FX_EINVAL)
      | None \<Rightarrow>
          (case elts of None \<Rightarrow> Inl FX_EFAULT
           | Some es \<Rightarrow> if list_all waitv_elt_ok es then Inr (None, es) else Inl FX_EINVAL))"

text \<open>One count per element, published before any word is checked.\<close>

definition waitv_charge :: "futex_waitv list \<Rightarrow> futex_state \<Rightarrow> futex_state" where
  "waitv_charge es s = fold (\<lambda>e. futex_charge (v_uaddr e)) es s"

text \<open>
  The window under every bucket lock of the set. Element \<open>i\<close> is node \<open>w + i\<close>. The result is
  the error of the first word that does not match, and how many elements were enqueued.
\<close>

fun waitv_enqueue :: "wid \<Rightarrow> futex_waitv list \<Rightarrow> futex_state \<Rightarrow> futex_err option \<times> nat \<times> futex_state" where
  "waitv_enqueue w [] s = (None, 0, s)"
| "waitv_enqueue w (e # es) s =
     (case futex_wait_enqueue w (v_uaddr e) (ucast (v_val e)) FUTEX_BITSET_MATCH_ANY True s of
        (Some err, s1) \<Rightarrow> (Some err, 0, s1)
      | (None, s1) \<Rightarrow> (case waitv_enqueue (Suc w) es s1 of (r, k, s2) \<Rightarrow> (r, Suc k, s2)))"

definition waitv_unlink :: "wid \<Rightarrow> futex_state \<Rightarrow> futex_state" where
  "waitv_unlink w s = bucket_unlink_locked (home (waiters s w)) w s"

definition waitv_first_woken :: "wid \<Rightarrow> nat \<Rightarrow> futex_state \<Rightarrow> nat option" where
  "waitv_first_woken w n s = List.find (\<lambda>i. woken (waiters s (w + i))) [0..<n]"

text \<open>
  One pass of the poll: the scan at its top, a teardown, and after the sleep a passed
  deadline, which scans once more. \<open>Some (Inr i)\<close> is the index of the woken element.
\<close>

definition waitv_pass :: "nat option \<Rightarrow> bool \<Rightarrow> bool \<Rightarrow> nat option \<Rightarrow> futex_ret option" where
  "waitv_pass scan stop past rescan =
     (case scan of
        Some i \<Rightarrow> Some (Inr i)
      | None \<Rightarrow>
          if stop then Some (Inl FX_EINTR)
          else if past then (case rescan of Some i \<Rightarrow> Some (Inr i) | None \<Rightarrow> Some (Inl FX_ETIMEDOUT))
          else None)"

text \<open>The sleep of a pass: 100 ms from \<open>now\<close>, or the deadline when that is sooner.\<close>

definition waitv_until :: "timespec \<Rightarrow> timespec option \<Rightarrow> timespec" where
  "waitv_until now deadline =
     (let wait_ts = timespec_deadline_in_ms now 100 in
      case deadline of
        None \<Rightarrow> wait_ts
      | Some d \<Rightarrow>
          if tv_sec d < tv_sec wait_ts \<or> (tv_sec d = tv_sec wait_ts \<and> tv_nsec d < tv_nsec wait_ts)
          then d else wait_ts)"

definition waitv_finish :: "wid \<Rightarrow> nat \<Rightarrow> futex_state \<Rightarrow> futex_state" where
  "waitv_finish w n s =
     (let s1 = fold waitv_unlink [w..<w + n] s
      in fold (\<lambda>k. futex_discharge (pub_bucket (waiters s1 k))) [w..<w + n] s1)"

definition waitv_abort :: "wid \<Rightarrow> nat \<Rightarrow> futex_waitv list \<Rightarrow> futex_state \<Rightarrow> futex_state" where
  "waitv_abort w enqueued es s =
     (let s1 = fold waitv_unlink (rev [w..<w + enqueued]) s
      in fold (\<lambda>i. futex_discharge (if i < enqueued then pub_bucket (waiters s1 (w + i))
                                    else futex_hash (v_uaddr (es ! i)))) [0..<length es] s1)"

section \<open>System call dispatch\<close>

datatype futex_call =
    Wait u64 u32 u64 u32 bool
  | Wake u64 u32 u32
  | Requeue u64 u32 u32 u64 bool u32
  | Wake_op u64 u32 u64 u32 u32
  | Lock_pi u64 u64
  | Unlock_pi u64
  | Trylock_pi u64
  | Not_implemented

definition FUTEX_CMD_MASK :: u32 where "FUTEX_CMD_MASK = 0x7F"

definition sys_futex :: "u64 \<Rightarrow> u32 \<Rightarrow> u32 \<Rightarrow> u64 \<Rightarrow> u64 \<Rightarrow> u32 \<Rightarrow> futex_call" where
  "sys_futex uaddr op val timeout_gva uaddr2 val3 =
     (let cmd = op AND FUTEX_CMD_MASK in
      if cmd = 0 then Wait uaddr val timeout_gva FUTEX_BITSET_MATCH_ANY False
      else if cmd = 1 then Wake uaddr val FUTEX_BITSET_MATCH_ANY
      else if cmd = 3 then Requeue uaddr val (ucast timeout_gva) uaddr2 False 0
      else if cmd = 4 then Requeue uaddr val (ucast timeout_gva) uaddr2 True val3
      else if cmd = 5 then Wake_op uaddr val uaddr2 (ucast timeout_gva) val3
      else if cmd = 9 then Wait uaddr val timeout_gva val3 True
      else if cmd = 10 then Wake uaddr val val3
      else if cmd = 6 then Lock_pi uaddr timeout_gva
      else if cmd = 7 then Unlock_pi uaddr
      else if cmd = 8 then Trylock_pi uaddr
      else Not_implemented)"

section \<open>The shim's fast paths\<close>

text \<open>
  \<open>futex_wait_fast\<close> and the wake shapes beside it, on the saved SVC frame. \<open>Bail\<close> leaves the
  call to the host. A load at EL0 permissions is a sample, \<open>None\<close> when it faults; each turn
  of the spin has its sample and what the attention word read then.
\<close>

datatype shim_answer = Bail | Answer futex_ret

fun shim_spin :: "nat \<Rightarrow> u32 \<Rightarrow> (u32 option \<times> bool) list \<Rightarrow> shim_answer" where
  "shim_spin left expected [] = Bail"
| "shim_spin left expected ((None, attn) # samples) = Answer (Inl FX_EFAULT)"
| "shim_spin left expected ((Some v, attn) # samples) =
     (if v \<noteq> expected then Answer (Inl FX_EAGAIN)
      else if left - 1 = 0 then Bail
      else if (left - 1) mod 64 = 0 \<and> attn then Bail
      else shim_spin (left - 1) expected samples)"

definition FUTEX_EL1_SPIN_ITERS :: nat where "FUTEX_EL1_SPIN_ITERS = 4096"

definition shim_tagged :: "u64 \<Rightarrow> bool" where
  "shim_tagged a \<longleftrightarrow> a AND 0xFF00000000000000 \<noteq> 0"

text \<open>\<open>ts\<close> is what loading the two timespec fields gave.\<close>

definition shim_futex_wait_fast ::
  "bool \<Rightarrow> (u64 \<times> u64) option \<Rightarrow> (u32 option \<times> bool) list \<Rightarrow> u64 \<Rightarrow> u32 \<Rightarrow> u32 \<Rightarrow> u64 \<Rightarrow> u32 \<Rightarrow> shim_answer" where
  "shim_futex_wait_fast attn ts samples uaddr op val timeout val3 =
     (let cmd = op AND 0x7f in
      if cmd = 9 \<and> val3 = 0 then Bail
      else if uaddr AND 3 \<noteq> 0 then Bail
      else if timeout \<noteq> 0 \<and> timeout AND 7 \<noteq> 0 then Bail
      else if timeout \<noteq> 0 \<and> shim_tagged timeout then Bail
      else if shim_tagged uaddr then Bail
      else if attn then Bail
      else if timeout = 0 then shim_spin FUTEX_EL1_SPIN_ITERS val samples
      else case ts of
        None \<Rightarrow> Answer (Inl FX_EFAULT)
      | Some (sec, nsec) \<Rightarrow>
          if sec AND 0xFFFFFFFF80000000 \<noteq> 0 then Bail
          else if nsec \<ge> 1000000000 then Bail
          else shim_spin 1 val samples)"

text \<open>\<open>counts\<close> is the array the host publishes, as the shim loads it after its barrier.\<close>

definition shim_futex_wake_fast :: "bool \<Rightarrow> (nat \<Rightarrow> u32) \<Rightarrow> u64 \<Rightarrow> u32 \<Rightarrow> u32 \<Rightarrow> shim_answer" where
  "shim_futex_wake_fast attn counts uaddr op val3 =
     (let cmd = op AND 0x7f in
      if cmd = 10 \<and> val3 = 0 then Bail
      else if uaddr AND 3 \<noteq> 0 then Bail
      else if attn then Bail
      else if counts (shim_bucket_index uaddr) \<noteq> 0 then Bail
      else Answer (Inr 0))"

definition shim_futex ::
  "bool \<Rightarrow> (nat \<Rightarrow> u32) \<Rightarrow> (u64 \<times> u64) option \<Rightarrow> (u32 option \<times> bool) list \<Rightarrow> u64 \<Rightarrow> u32 \<Rightarrow> u32 \<Rightarrow> u64 \<Rightarrow> u32 \<Rightarrow> shim_answer" where
  "shim_futex attn counts ts samples uaddr op val timeout val3 =
     (let cmd = op AND 0x7f in
      if cmd = 0 \<or> cmd = 9 then shim_futex_wait_fast attn ts samples uaddr op val timeout val3
      else if cmd = 1 \<or> cmd = 10 then shim_futex_wake_fast attn counts uaddr op val3
      else Bail)"

end
