(* ===== verification/Futex_Laws.thy ===== *)
theory Futex_Laws
  imports Futex
begin

text \<open>
  What the walks of the futex component do to the state: closed forms of the wake walk and
  of the requeue walk in terms of the waiters that match, and frame facts for every
  operation that leaves the queues alone.
\<close>

section \<open>Lenses\<close>

named_theorems futex_frame \<open>fields a futex operation leaves alone\<close>

lemma set_chain_fields [futex_frame]:
  "chains (set_chain i ws s) = (chains s)(i := ws)" "waiters (set_chain i ws s) = waiters s"
  "pub (set_chain i ws s) = pub s" "mem (set_chain i ws s) = mem s"
  "writable (set_chain i ws s) = writable s" "signals (set_chain i ws s) = signals s"
  by (simp_all add: set_chain_def)

lemma set_waiter_fields [futex_frame]:
  "chains (set_waiter w n s) = chains s" "waiters (set_waiter w n s) = (waiters s)(w := n)"
  "pub (set_waiter w n s) = pub s" "mem (set_waiter w n s) = mem s"
  "writable (set_waiter w n s) = writable s" "signals (set_waiter w n s) = signals s"
  by (simp_all add: set_waiter_def)

lemma waiters_add_fields [futex_frame]:
  "chains (shim_globals_futex_waiters_add b d s) = chains s"
  "waiters (shim_globals_futex_waiters_add b d s) = waiters s"
  "mem (shim_globals_futex_waiters_add b d s) = mem s"
  "writable (shim_globals_futex_waiters_add b d s) = writable s"
  "signals (shim_globals_futex_waiters_add b d s) = signals s"
  "pub (shim_globals_futex_waiters_add b d s) =
     (if b < 1024 then (pub s)(b := pub s b + word_of_int d) else pub s)"
  by (simp_all add: shim_globals_futex_waiters_add_def SHIM_FUTEX_BUCKETS_def)

lemma mark_woken_fields [futex_frame]:
  "chains (mark_woken w s) = chains s"
  "waiters (mark_woken w s) = (waiters s)(w := (waiters s w)\<lparr>woken := True\<rparr>)"
  "pub (mark_woken w s) = pub s" "mem (mark_woken w s) = mem s" "writable (mark_woken w s) = writable s"
  by (simp_all add: mark_woken_def futex_waiter_notify_group_def futex_frame)

lemma futex_hash_lt [simp]: "futex_hash uaddr < 1024"
  using futex_bucket_index_lt [of uaddr] by (simp add: futex_hash_def FUTEX_BUCKETS_def)

lemma set_chain_same: "set_chain i (chains s i) s = s"
  by (simp add: set_chain_def)

section \<open>The wake walk\<close>

lemma wake_walk_hit: "snd (wake_walk match n ws) = take n (filter match ws)"
  by (induction match n ws rule: wake_walk.induct) (auto simp: take_Cons' split: prod.splits)

lemma wake_walk_kept:
  "distinct ws \<Longrightarrow>
     fst (wake_walk match n ws) = filter (\<lambda>w. w \<notin> set (take n (filter match ws))) ws"
proof (induction match n ws rule: wake_walk.induct)
  case (2 match n w ws)
  consider "n = 0" | "n \<noteq> 0" "match w" | "n \<noteq> 0" "\<not> match w" by blast
  then show ?case
  proof cases
    case 2
    have eq: "filter (\<lambda>x. x \<notin> set (take n (filter match (w # ws)))) (w # ws) =
        filter (\<lambda>x. x \<notin> set (take (n - 1) (filter match ws))) ws"
      using 2 "2.prems" by (auto simp: take_Cons' intro!: filter_cong)
    show ?thesis
      unfolding eq using 2 "2.IH"(1) [OF 2] "2.prems" by (simp add: case_prod_beta)
  next
    case 3
    have "w \<notin> set (take n (filter match ws))"
      using "2.prems" by (auto dest: in_set_takeD)
    then show ?thesis
      using 3 "2.IH"(2) [OF 3] "2.prems" by (simp add: case_prod_beta)
  qed simp
qed simp

lemma fold_mark_woken [futex_frame]:
  "chains (fold mark_woken ws s) = chains s"
  "pub (fold mark_woken ws s) = pub s" "mem (fold mark_woken ws s) = mem s"
  "writable (fold mark_woken ws s) = writable s"
  "waiters (fold mark_woken ws s) =
     (\<lambda>w. if w \<in> set ws then (waiters s w)\<lparr>woken := True\<rparr> else waiters s w)"
  by (induction ws arbitrary: s) (auto simp: futex_frame fun_eq_iff)

definition wake_targets :: "nat \<Rightarrow> (wid \<Rightarrow> bool) \<Rightarrow> nat \<Rightarrow> futex_state \<Rightarrow> wid list" where
  "wake_targets b match n s = take n (filter match (chains s b))"

lemma set_wake_targets: "set (wake_targets b match n s) \<subseteq> {w \<in> set (chains s b). match w}"
  by (auto simp: wake_targets_def dest: in_set_takeD)

lemma wake_bucket_eq:
  assumes "distinct (chains s b)"
  shows "wake_bucket b match n s =
    (length (wake_targets b match n s),
     fold mark_woken (wake_targets b match n s)
       (set_chain b (filter (\<lambda>w. w \<notin> set (wake_targets b match n s)) (chains s b)) s))"
  using wake_walk_hit [of match n "chains s b"] wake_walk_kept [OF assms, of match n]
  by (simp add: wake_bucket_def wake_targets_def case_prod_beta)

lemma length_wake_targets: "length (wake_targets b match n s) = min n (length (filter match (chains s b)))"
  by (simp add: wake_targets_def)

lemma pi_within_follows:
  "\<not> pi_within follows match n ws \<Longrightarrow> w \<in> set (take n (filter match ws)) \<Longrightarrow> follows w"
  by (induction follows match n ws rule: pi_within.induct) (auto simp: take_Cons' split: if_splits)

lemma pi_within_iff:
  "pi_within follows match n ws \<longleftrightarrow> (\<exists>w \<in> set (take n (filter match ws)). \<not> follows w)"
  by (induction follows match n ws rule: pi_within.induct) (auto simp: take_Cons' split: if_splits)

section \<open>The requeue walk\<close>

text \<open>What a requeue does to one moved waiter, in the same bucket or into another.\<close>

definition requeue_one :: "nat \<Rightarrow> nat \<Rightarrow> u64 \<Rightarrow> wid \<Rightarrow> futex_state \<Rightarrow> futex_state" where
  "requeue_one src dst uaddr2 w s =
     (if src = dst then set_waiter w ((waiters s w)\<lparr>w_uaddr := uaddr2\<rparr>) s else requeue_move dst uaddr2 w s)"

lemma requeue_move_other_waiter: "w' \<noteq> w \<Longrightarrow> waiters (requeue_move dst ua2 w s) w' = waiters s w'"
  by (simp add: requeue_move_def Let_def futex_frame)

lemma requeue_one_other_waiter: "w' \<noteq> w \<Longrightarrow> waiters (requeue_one src dst ua2 w s) w' = waiters s w'"
  by (simp add: requeue_one_def requeue_move_other_waiter futex_frame)

lemma filter_uaddr_cong:
  "(\<And>w. w \<in> set ws \<Longrightarrow> w_uaddr (waiters s' w) = w_uaddr (waiters s w)) \<Longrightarrow>
     filter (\<lambda>w. w_uaddr (waiters s' w) = ua) ws = filter (\<lambda>w. w_uaddr (waiters s w) = ua) ws"
  by (rule filter_cong) simp_all

lemma unat_inc: "a < b \<Longrightarrow> unat (a + 1 :: u32) = unat a + 1"
proof -
  assume "a < b"
  then have "a \<noteq> - 1" by auto
  then have "a + 1 \<noteq> 0" by (simp add: eq_neg_iff_add_eq_0)
  then show ?thesis using unatSuc [of a] by (simp add: add.commute)
qed

lemma requeue_walk_eq:
  assumes "distinct ws" "hit \<le> nw" "moved \<le> nr"
    and "M = filter (\<lambda>w. w_uaddr (waiters s w) = ua) ws"
    and "H = take (unat nw - unat hit) M"
    and "R = take (unat nr - unat moved) (drop (unat nw - unat hit) M)"
  shows "\<exists>hit' moved'. requeue_walk ua ua2 src dst nw nr hit moved pre ws s =
      (hit', moved', set_chain src (pre @ filter (\<lambda>w. w \<notin> set H \<and> (src = dst \<or> w \<notin> set R)) ws)
         (fold (requeue_one src dst ua2) R (fold mark_woken H s)))
    \<and> unat hit' = unat hit + length H \<and> unat moved' = unat moved + length R"
  using assms
proof (induction ws arbitrary: hit moved pre s M H R)
  case (Cons w ws)
  let ?M = "filter (\<lambda>w. w_uaddr (waiters s w) = ua) ws"
  show ?case
  proof (cases "w_uaddr (waiters s w) = ua")
    case False
    then have M: "M = ?M" using Cons.prems(4) by simp
    have "w \<notin> set H" "w \<notin> set R"
      using Cons.prems(1) unfolding Cons.prems(5,6) M by (auto dest!: in_set_takeD in_set_dropD)
    then show ?thesis
      using False Cons.IH [OF _ Cons.prems(2,3) M Cons.prems(5,6), of "pre @ [w]"] Cons.prems(1) by simp
  next
    case True
    then have M: "M = w # ?M" using Cons.prems(4) by simp
    have nin: "w \<notin> set ?M" using Cons.prems(1) by simp
    consider "hit < nw" | "\<not> hit < nw" "moved < nr" | "\<not> hit < nw" "\<not> moved < nr" by blast
    then show ?thesis
    proof cases
      case 1
      let ?s = "mark_woken w s" and ?H = "take (unat nw - unat (hit + 1)) ?M"
        and ?R = "take (unat nr - unat moved) (drop (unat nw - unat (hit + 1)) ?M)"
      have suc: "unat nw - unat hit = Suc (unat nw - unat (hit + 1))"
        using 1 unat_inc [OF 1] by (simp add: word_less_nat_alt)
      have HR: "H = w # ?H" "R = ?R" unfolding Cons.prems(5,6) M suc by simp_all
      have le: "hit + 1 \<le> nw" using 1 by (rule inc_le)
      have M': "?M = filter (\<lambda>w. w_uaddr (waiters ?s w) = ua) ws"
        by (rule filter_cong) (auto simp: futex_frame)
      have nin': "w \<notin> set ?H" "w \<notin> set ?R" using nin by (auto dest!: in_set_takeD in_set_dropD)
      have flt: "filter (\<lambda>x. x \<notin> set H \<and> (src = dst \<or> x \<notin> set R)) (w # ws) =
          filter (\<lambda>x. x \<notin> set ?H \<and> (src = dst \<or> x \<notin> set ?R)) ws"
        unfolding HR using Cons.prems(1) by (auto intro!: filter_cong)
      show ?thesis
        using Cons.IH [OF _ le Cons.prems(3) M' refl refl, of pre] True 1 Cons.prems(1) unat_inc [OF 1]
        unfolding flt by (simp add: futex_requeue_step_def HR)
    next
      case 2
      let ?s = "requeue_one src dst ua2 w s" and ?n = "unat nr - unat (moved + 1)"
      have z: "unat nw - unat hit = 0" using 2 by (simp add: word_less_nat_alt)
      have suc: "unat nr - unat moved = Suc ?n"
        using 2 unat_inc [OF 2(2)] by (simp add: word_less_nat_alt)
      have HR: "H = []" "R = w # take ?n ?M" unfolding Cons.prems(5,6) M suc z by simp_all
      have le: "moved + 1 \<le> nr" using 2(2) by (rule inc_le)
      have M': "?M = filter (\<lambda>w. w_uaddr (waiters ?s w) = ua) ws"
        by (rule filter_uaddr_cong [symmetric], subst requeue_one_other_waiter) (use Cons.prems(1) in auto)
      have flt: "filter (\<lambda>x. x \<notin> set H \<and> (src = dst \<or> x \<notin> set R)) (w # ws) =
          (if src = dst then [w] else []) @ filter (\<lambda>x. x \<notin> set [] \<and> (src = dst \<or> x \<notin> set (take ?n ?M))) ws"
        unfolding HR using Cons.prems(1) by (auto intro!: filter_cong)
      show ?thesis
        using Cons.IH [OF _ Cons.prems(2) le M', of "take (unat nw - unat hit) ?M" "take ?n ?M"
            "pre @ (if src = dst then [w] else [])"] True 2 Cons.prems(1) unat_inc [OF 2(2)] z
        unfolding flt by (simp add: futex_requeue_step_def HR requeue_one_def split: if_splits)
    next
      case 3
      have "unat nw - unat hit = 0" "unat nr - unat moved = 0"
        using 3 by (simp_all add: word_less_nat_alt)
      then show ?thesis
        using 3 True unfolding Cons.prems(5,6) by (simp add: futex_requeue_step_def)
    qed
  qed
qed simp

text \<open>A charge that moves with its waiter.\<close>

definition moved_waiter :: "nat \<Rightarrow> u64 \<Rightarrow> futex_waiter \<Rightarrow> futex_waiter" where
  "moved_waiter dst ua2 n = n\<lparr>pub_bucket := dst, w_uaddr := ua2, home := dst\<rparr>"

lemma requeue_move_fields:
  assumes "pub_follows (waiters s w)" "pub_bucket (waiters s w) = src" "src < 1024" "dst < 1024"
  shows "chains (requeue_move dst ua2 w s) = (chains s)(dst := w # chains s dst)"
    and "waiters (requeue_move dst ua2 w s) = (waiters s)(w := moved_waiter dst ua2 (waiters s w))"
    and "pub (requeue_move dst ua2 w s) =
      (let p = (pub s)(dst := pub s dst + 1) in p(src := p src - 1))"
  using assms by (simp_all add: requeue_move_def Let_def futex_frame moved_waiter_def)

lemma requeue_one_frame:
  "mem (requeue_one src dst ua2 w s) = mem s" "writable (requeue_one src dst ua2 w s) = writable s"
  by (simp_all add: requeue_one_def requeue_move_def Let_def futex_frame)

lemma fold_requeue_frame [futex_frame]:
  "mem (fold (requeue_one src dst ua2) R s) = mem s"
  "writable (fold (requeue_one src dst ua2) R s) = writable s"
  by (induction R arbitrary: s) (simp_all add: requeue_one_frame)

lemma fold_requeue_same:
  "distinct R \<Longrightarrow>
     chains (fold (requeue_one b b ua2) R s) = chains s \<and> pub (fold (requeue_one b b ua2) R s) = pub s \<and>
     waiters (fold (requeue_one b b ua2) R s) =
       (\<lambda>w. if w \<in> set R then (waiters s w)\<lparr>w_uaddr := ua2\<rparr> else waiters s w)"
proof (induction R arbitrary: s)
  case (Cons w R)
  then show ?case
    using Cons.IH [of "requeue_one b b ua2 w s"] by (auto simp: requeue_one_def futex_frame fun_eq_iff)
qed auto

lemma fold_requeue_other:
  assumes "distinct R" "\<forall>w \<in> set R. pub_follows (waiters s w) \<and> pub_bucket (waiters s w) = src"
    and "src \<noteq> dst" "src < 1024" "dst < 1024"
  shows "chains (fold (requeue_one src dst ua2) R s) = (chains s)(dst := rev R @ chains s dst) \<and>
     waiters (fold (requeue_one src dst ua2) R s) =
       (\<lambda>w. if w \<in> set R then moved_waiter dst ua2 (waiters s w) else waiters s w) \<and>
     pub (fold (requeue_one src dst ua2) R s) =
       (pub s)(dst := pub s dst + of_nat (length R), src := pub s src - of_nat (length R))"
  using assms(1,2)
proof (induction R arbitrary: s)
  case (Cons w R)
  let ?s = "requeue_move dst ua2 w s"
  have w: "pub_follows (waiters s w)" "pub_bucket (waiters s w) = src" using Cons.prems(2) by simp_all
  note f = requeue_move_fields [OF w assms(4,5), of ua2]
  have "\<forall>x \<in> set R. pub_follows (waiters ?s x) \<and> pub_bucket (waiters ?s x) = src"
    using Cons.prems by (auto simp: f)
  then show ?case
    using Cons.IH [of ?s] Cons.prems(1) assms(3)
    by (auto simp: requeue_one_def f Let_def fun_eq_iff algebra_simps)
qed (simp add: fun_upd_idem)

definition requeue_hits :: "u64 \<Rightarrow> u32 \<Rightarrow> futex_state \<Rightarrow> wid list" where
  "requeue_hits ua nw s = take (unat nw) (filter (\<lambda>w. w_uaddr (waiters s w) = ua) (chains s (futex_hash ua)))"

definition requeue_moves :: "u64 \<Rightarrow> u32 \<Rightarrow> u32 \<Rightarrow> futex_state \<Rightarrow> wid list" where
  "requeue_moves ua nw nr s =
     take (unat nr) (drop (unat nw) (filter (\<lambda>w. w_uaddr (waiters s w) = ua) (chains s (futex_hash ua))))"

lemma requeue_budget_unat: "unat (futex_requeue_budget nw nr) = unat nw + unat nr"
proof -
  have lt: "unat x < 2 ^ 32" for x :: u32
    using unsigned_less [of x, where 'a = nat] by simp
  have "unat (ucast nw :: u64) + unat (ucast nr :: u64) < 2 ^ 64"
    using lt [of nw] lt [of nr] by (simp add: unsigned_ucast_eq take_bit_nat_eq_self)
  then show ?thesis
    using lt [of nw] lt [of nr]
    by (simp add: futex_requeue_budget_def unat_add_lem [THEN iffD1] unsigned_ucast_eq take_bit_nat_eq_self)
qed

lemma requeue_hits_moves:
  "set (take (unat nw + unat nr) (filter (\<lambda>w. w_uaddr (waiters s w) = ua) (chains s (futex_hash ua)))) =
     set (requeue_hits ua nw s) \<union> set (requeue_moves ua nw nr s)"
  by (simp add: requeue_hits_def requeue_moves_def take_add)

lemma futex_requeue_ok:
  assumes d: "distinct (chains s (futex_hash ua))"
    and r: "futex_requeue ua nw nr ua2 do_cmp expected s = (Inr k, s')"
    and H: "H = requeue_hits ua nw s" and R: "R = requeue_moves ua nw nr s"
  shows "k = length H + length R"
    and "s' = set_chain (futex_hash ua)
      (filter (\<lambda>w. w \<notin> set H \<and> (futex_hash ua = futex_hash ua2 \<or> w \<notin> set R)) (chains s (futex_hash ua)))
      (fold (requeue_one (futex_hash ua) (futex_hash ua2) ua2) R (fold mark_woken H s))"
    and "\<forall>w \<in> set H \<union> set R. pub_follows (waiters s w)"
proof -
  let ?src = "futex_hash ua" and ?dst = "futex_hash ua2"
  obtain hit moved where w: "requeue_walk ua ua2 ?src ?dst nw nr 0 0 [] (chains s ?src) s =
      (hit, moved, set_chain ?src (filter (\<lambda>w. w \<notin> set H \<and> (?src = ?dst \<or> w \<notin> set R)) (chains s ?src))
         (fold (requeue_one ?src ?dst ua2) R (fold mark_woken H s)))"
    "unat hit = length H" "unat moved = length R"
    using requeue_walk_eq [OF d _ _ refl refl refl, where hit = 0 and moved = 0 and nw = nw and nr = nr
        and s = s and ua = ua and ?ua2.0 = ua2 and src = ?src and dst = ?dst and pre = "[]"]
    unfolding H R requeue_hits_def requeue_moves_def by auto
  show "k = length H + length R"
    "s' = set_chain ?src (filter (\<lambda>w. w \<notin> set H \<and> (?src = ?dst \<or> w \<notin> set R)) (chains s ?src))
      (fold (requeue_one ?src ?dst ua2) R (fold mark_woken H s))"
    using r by (auto simp: futex_requeue_def w Let_def split: if_splits option.splits)
  have "\<not> pi_within (\<lambda>w. pub_follows (waiters s w)) (\<lambda>w. w_uaddr (waiters s w) = ua)
      (unat nw + unat nr) (chains s ?src)"
    using r by (auto simp: futex_requeue_def Let_def requeue_budget_unat split: if_splits option.splits)
  then show "\<forall>w \<in> set H \<union> set R. pub_follows (waiters s w)"
    unfolding pi_within_iff requeue_hits_moves H R by blast
qed

lemma futex_requeue_err:
  "futex_requeue ua nw nr ua2 do_cmp expected s = (Inl e, s') \<Longrightarrow> s' = s"
  by (auto simp: futex_requeue_def Let_def split: if_splits option.splits prod.splits)

section \<open>Operations that leave the queues alone\<close>

definition same_queues :: "futex_state \<Rightarrow> futex_state \<Rightarrow> bool" where
  "same_queues s s' \<longleftrightarrow> chains s' = chains s \<and> waiters s' = waiters s \<and> pub s' = pub s"

lemma same_queues_refl [simp]: "same_queues s s"
  by (simp add: same_queues_def)

lemma same_queues_mem [simp]: "same_queues s (s\<lparr>mem := m\<rparr>)" "same_queues s (s\<lparr>mem := m, writable := wr\<rparr>)"
  by (simp_all add: same_queues_def)

lemma same_queues_cas: "futex_word_cas a e d s = Some (won, seen, s') \<Longrightarrow> same_queues s s'"
  by (auto simp: futex_word_cas_def split: option.splits if_splits)

lemma same_queues_update: "futex_word_update a f s = Some (v, s') \<Longrightarrow> same_queues s s'"
  by (auto simp: futex_word_update_def split: option.splits dest: same_queues_cas)

lemma same_queues_clear: "same_queues s (futex_clear_waiters_bit a s)"
  by (auto simp: futex_clear_waiters_bit_def split: option.splits dest: same_queues_cas)

lemma same_queues_lock_pi_fast: "lock_pi_fast tf tid a s = (r, s') \<Longrightarrow> same_queues s s'"
  by (auto simp: lock_pi_fast_def split: option.splits prod.splits bool.splits if_splits dest: same_queues_cas)

lemma same_queues_trylock: "futex_trylock_pi tid a s = (r, s') \<Longrightarrow> same_queues s s'"
  by (auto simp: futex_trylock_pi_def split: option.splits prod.splits if_splits dest: same_queues_cas)

lemma lock_pi_window_cases:
  assumes "lock_pi_window w tid ua s = (r, s')"
  shows "if r = Pi_parked then \<exists>s1. same_queues s s1 \<and> s' = enqueue w (pi_waiter ua) (futex_hash ua) s1
         else same_queues s s'"
  using assms
  by (auto simp: lock_pi_window_def Let_def split: option.splits if_splits prod.splits
      dest!: same_queues_cas intro: exI [of _ s])

end
