(* ===== verification/Futex_World.thy ===== *)
theory Futex_World
  imports Futex_Laws
begin

text \<open>
  Threads that use the futex component at the same time. Between two bucket-lock windows any
  other thread may run, so a wait is a sequence of steps of its waiter node: it owes a
  published count from the charge on, it is parked from the enqueue to its own dequeue, and
  it is idle again after the discharge. The guest may store to any word at any moment.

  The invariant says that the queues hold exactly the parked waiters that nobody has woken,
  each in the bucket of its current address, and that every published count is the number
  of waiters that owe it.
\<close>

section \<open>Steps\<close>

datatype phase = Idle | Owing nat | Parked | Parked_pi u64

record futex_world =
  fs :: futex_state
  phase :: "wid \<Rightarrow> phase"

definition at :: "wid \<Rightarrow> phase \<Rightarrow> futex_state \<Rightarrow> futex_world \<Rightarrow> futex_world" where
  "at w p s W = W\<lparr>fs := s, phase := (phase W)(w := p)\<rparr>"

text \<open>
  \<open>store\<close> is any change of guest memory. \<open>give_up\<close> is the discharge of the wrappers, after an
  error, an acquisition or a dequeue. The dequeue of a \<open>futex_waitv\<close> element is its own step.
\<close>

inductive futex_step :: "futex_world \<Rightarrow> futex_world \<Rightarrow> bool" where
  store: "futex_step W (W\<lparr>fs := (fs W)\<lparr>mem := m, writable := wr\<rparr>\<rparr>)"
| charge: "phase W w = Idle \<Longrightarrow> futex_step W (at w (Owing (futex_hash ua)) (futex_charge ua (fs W)) W)"
| give_up: "phase W w = Owing b \<Longrightarrow> futex_step W (at w Idle (futex_discharge b (fs W)) W)"
| park: "phase W w = Owing (futex_hash ua) \<Longrightarrow> futex_wait_enqueue w ua expected bitset g (fs W) = (None, s') \<Longrightarrow>
    futex_step W (at w Parked s' W)"
| leave: "phase W w = Parked \<Longrightarrow> futex_wait_leave w ret timed absolute (fs W) = (r, forbid, b, s') \<Longrightarrow>
    futex_step W (at w (Owing b) s' W)"
| leave_group: "phase W w = Parked \<Longrightarrow> s' = waitv_unlink w (fs W) \<Longrightarrow>
    futex_step W (at w (Owing (pub_bucket (waiters s' w))) s' W)"
| pi_fast: "phase W w = Owing (futex_hash ua) \<Longrightarrow> lock_pi_fast alive tid ua (fs W) = (r, s') \<Longrightarrow>
    futex_step W (W\<lparr>fs := s'\<rparr>)"
| pi_window: "phase W w = Owing (futex_hash ua) \<Longrightarrow> lock_pi_window w tid ua (fs W) = (r, s') \<Longrightarrow>
    futex_step W (if r = Pi_parked then at w (Parked_pi ua) s' W else W\<lparr>fs := s'\<rparr>)"
| pi_leave: "phase W w = Parked_pi ua \<Longrightarrow>
    futex_step W (at w (Owing (futex_hash ua)) (lock_pi_leave w ua rc (fs W)) W)"
| trylock: "futex_trylock_pi tid ua (fs W) = (r, s') \<Longrightarrow> futex_step W (W\<lparr>fs := s'\<rparr>)"
| unlock: "unlock_pi_release ua (fs W) = (r, s') \<Longrightarrow> futex_step W (W\<lparr>fs := s'\<rparr>)"
| wake: "futex_wake ua val bitset (fs W) = (r, s') \<Longrightarrow> futex_step W (W\<lparr>fs := s'\<rparr>)"
| requeue: "futex_requeue ua nw nr ua2 do_cmp expected (fs W) = (r, s') \<Longrightarrow> futex_step W (W\<lparr>fs := s'\<rparr>)"
| wake_op: "futex_wake_op ua val ua2 val2 val3 (fs W) = (r, s') \<Longrightarrow> futex_step W (W\<lparr>fs := s'\<rparr>)"
| robust: "futex_step W (W\<lparr>fs := robust_mark tid gva (fs W)\<rparr>)"

definition futex_boot :: "futex_world \<Rightarrow> bool" where
  "futex_boot W \<longleftrightarrow> (\<forall>b. chains (fs W) b = []) \<and> (\<forall>b. pub (fs W) b = 0) \<and> (\<forall>w. phase W w = Idle)"

inductive futex_run :: "futex_world \<Rightarrow> bool" where
  boot: "futex_boot W \<Longrightarrow> futex_run W"
| next_step: "futex_run W \<Longrightarrow> futex_step W W' \<Longrightarrow> futex_run W'"

section \<open>The invariant\<close>

definition queue_ok :: "futex_world \<Rightarrow> nat \<Rightarrow> wid \<Rightarrow> bool" where
  "queue_ok W b w \<longleftrightarrow>
     (let n = waiters (fs W) w in
      \<not> woken n \<and> futex_hash (w_uaddr n) = b \<and> (phase W w = Parked \<or> phase W w = Parked_pi (w_uaddr n)))"

definition waiter_ok :: "futex_world \<Rightarrow> wid \<Rightarrow> bool" where
  "waiter_ok W w \<longleftrightarrow>
     (let n = waiters (fs W) w in
      case phase W w of
        Parked \<Rightarrow> pub_follows n \<and>
          (\<not> woken n \<longrightarrow> w \<in> set (chains (fs W) (futex_hash (w_uaddr n)))
             \<and> pub_bucket n = futex_hash (w_uaddr n) \<and> home n = futex_hash (w_uaddr n))
      | Parked_pi ua \<Rightarrow> \<not> pub_follows n \<and> w_uaddr n = ua \<and> pub_bucket n = futex_hash ua \<and>
          (\<not> woken n \<longrightarrow> w \<in> set (chains (fs W) (futex_hash ua)))
      | _ \<Rightarrow> True)"

fun owes :: "phase \<Rightarrow> futex_waiter \<Rightarrow> nat \<Rightarrow> bool" where
  "owes Idle n b = False"
| "owes (Owing b') n b = (b' = b)"
| "owes Parked n b = (pub_bucket n = b)"
| "owes (Parked_pi ua) n b = (futex_hash ua = b)"

definition debtors :: "futex_world \<Rightarrow> nat \<Rightarrow> wid set" where
  "debtors W b = {w. owes (phase W w) (waiters (fs W) w) b}"

definition active :: "futex_world \<Rightarrow> wid set" where
  "active W = {w. phase W w \<noteq> Idle}"

definition futex_inv :: "futex_world \<Rightarrow> bool" where
  "futex_inv W \<longleftrightarrow>
     (\<forall>b. distinct (chains (fs W) b)) \<and>
     (\<forall>b. \<forall>w \<in> set (chains (fs W) b). queue_ok W b w) \<and>
     (\<forall>w. waiter_ok W w) \<and>
     finite (active W) \<and>
     (\<forall>b < 1024. pub (fs W) b = of_nat (card (debtors W b)))"

lemma debtors_active: "debtors W b \<subseteq> active W"
proof
  fix w assume "w \<in> debtors W b"
  then show "w \<in> active W" by (cases "phase W w") (auto simp: debtors_def active_def)
qed

lemma futex_invD:
  assumes "futex_inv W"
  shows "distinct (chains (fs W) b)" and "w \<in> set (chains (fs W) b) \<Longrightarrow> queue_ok W b w"
    and "waiter_ok W w" and "finite (active W)" and "finite (debtors W b)"
    and "b < 1024 \<Longrightarrow> pub (fs W) b = of_nat (card (debtors W b))"
  using assms debtors_active [of W b] finite_subset by (auto simp: futex_inv_def)

lemma futex_boot_inv: "futex_boot W \<Longrightarrow> futex_inv W"
  by (simp add: futex_boot_def futex_inv_def waiter_ok_def active_def debtors_def)

lemma same_queues_inv:
  assumes "futex_inv W" "same_queues (fs W) s'"
  shows "futex_inv (W\<lparr>fs := s'\<rparr>)"
  using assms
  by (simp add: futex_inv_def same_queues_def queue_ok_def waiter_ok_def debtors_def active_def Let_def cong: phase.case_cong)

section \<open>Every step keeps the invariant\<close>

lemma chain_unique:
  assumes "futex_inv W" "w \<in> set (chains (fs W) b)" "w \<in> set (chains (fs W) b')"
  shows "b' = b"
  using futex_invD(2) [OF assms(1,2)] futex_invD(2) [OF assms(1,3)] by (simp add: queue_ok_def Let_def)

lemma idle_not_queued:
  "futex_inv W \<Longrightarrow> phase W w \<in> {Idle} \<union> range Owing \<Longrightarrow> w \<notin> set (chains (fs W) b)"
  using futex_invD(2) [of W w b] by (auto simp: queue_ok_def Let_def)

lemma inv_woken:
  assumes inv: "futex_inv W" and H: "H \<subseteq> set (chains (fs W) b)"
    and c: "chains s' = (chains (fs W))(b := filter (\<lambda>w. w \<notin> H) (chains (fs W) b))"
    and n: "waiters s' = (\<lambda>w. if w \<in> H then (waiters (fs W) w)\<lparr>woken := True\<rparr> else waiters (fs W) w)"
    and p: "pub s' = pub (fs W)"
  shows "futex_inv (W\<lparr>fs := s'\<rparr>)"
proof -
  have q: "w \<notin> H \<and> queue_ok W i w" if "w \<in> set (chains s' i)" for w i
  proof -
    from that have w: "w \<in> set (chains (fs W) i)" and nh: "i = b \<Longrightarrow> w \<notin> H"
      by (auto simp: c split: if_splits)
    have "w \<notin> H" using chain_unique [OF inv w] H nh by blast
    then show ?thesis using futex_invD(2) [OF inv w] by simp
  qed
  have "queue_ok (W\<lparr>fs := s'\<rparr>) i w" if "w \<in> set (chains s' i)" for w i
    using q [OF that] by (simp add: queue_ok_def n)
  moreover have "waiter_ok (W\<lparr>fs := s'\<rparr>) w" for w
    using futex_invD(3) [OF inv, of w] by (auto simp: waiter_ok_def n c Let_def split: phase.splits)
  moreover have "debtors (W\<lparr>fs := s'\<rparr>) i = debtors W i" for i
  proof -
    have "owes ph (waiters s' w) i = owes ph (waiters (fs W) w) i" for ph w
      by (cases ph) (simp_all add: n)
    then show ?thesis by (simp add: debtors_def)
  qed
  ultimately show ?thesis
    using inv by (simp add: futex_inv_def active_def p) (simp add: c)
qed

lemma wake_bucket_inv:
  assumes "futex_inv W" "wake_bucket b match n (fs W) = (k, s')"
  shows "futex_inv (W\<lparr>fs := s'\<rparr>)"
proof -
  let ?H = "wake_targets b match n (fs W)"
  have s': "s' = fold mark_woken ?H (set_chain b (filter (\<lambda>w. w \<notin> set ?H) (chains (fs W) b)) (fs W))"
    using assms(2) by (simp add: wake_bucket_eq [OF futex_invD(1) [OF assms(1)]])
  have "set ?H \<subseteq> set (chains (fs W) b)" using set_wake_targets by blast
  then show ?thesis
    by (rule inv_woken [OF assms(1)]) (simp_all add: s' futex_frame cong: if_cong)
qed

lemma wake_first_inv: "futex_inv W \<Longrightarrow> futex_inv (W\<lparr>fs := futex_wake_first_locked b ua (fs W)\<rparr>)"
  unfolding futex_wake_first_locked_def by (rule wake_bucket_inv [OF _ surjective_pairing])

lemma inv_enqueue:
  assumes inv: "futex_inv W" and ow: "phase W w = Owing b"
    and n: "\<not> woken n" "futex_hash (w_uaddr n) = b" "pub_bucket n = b"
    and p: "p = Parked \<and> pub_follows n \<and> home n = b \<or> p = Parked_pi (w_uaddr n) \<and> \<not> pub_follows n"
  shows "futex_inv (at w p (enqueue w n b (fs W)) W)"
proof -
  define W' where "W' = at w p (enqueue w n b (fs W)) W"
  have f: "chains (fs W') = (chains (fs W))(b := w # chains (fs W) b)" "waiters (fs W') = (waiters (fs W))(w := n)"
    "pub (fs W') = pub (fs W)" "phase W' = (phase W)(w := p)"
    by (simp_all add: W'_def at_def enqueue_def futex_frame)
  have nq: "w \<notin> set (chains (fs W) i)" for i
    by (rule idle_not_queued [OF inv]) (simp add: ow)
  have "queue_ok W' i x" if "x \<in> set (chains (fs W') i)" for x i
    using that futex_invD(2) [OF inv, of x i] nq [of i] n p
    by (auto simp: f queue_ok_def Let_def split: if_splits)
  moreover have "waiter_ok W' x" for x
    using futex_invD(3) [OF inv, of x] n p by (auto simp: f waiter_ok_def Let_def split: phase.splits)
  moreover have "debtors W' i = debtors W i" for i
    using n p ow by (auto simp: debtors_def f)
  moreover have "active W' = active W"
    using p ow by (auto simp: active_def f)
  ultimately have "futex_inv W'"
    using inv nq by (simp add: futex_inv_def f(3)) (simp add: f)
  then show ?thesis by (simp add: W'_def)
qed

lemma inv_dequeue:
  assumes inv: "futex_inv W" and ph: "phase W w = Parked \<or> phase W w = Parked_pi (w_uaddr n)"
    and n: "n = waiters (fs W) w" and b: "b = pub_bucket n"
    and s': "same_queues (bucket_unlink_locked (futex_hash (w_uaddr n)) w (fs W)) s'"
  shows "futex_inv (at w (Owing b) s' W)"
proof -
  let ?W = "at w (Owing b) s' W" and ?b = "futex_hash (w_uaddr n)"
  have f: "chains (fs ?W) = (chains (fs W))(?b := remove1 w (chains (fs W) ?b))"
    "waiters (fs ?W) = waiters (fs W)" "pub (fs ?W) = pub (fs W)" "phase ?W = (phase W)(w := Owing b)"
    using s' by (simp_all add: at_def bucket_unlink_locked_def futex_frame same_queues_def)
  have sub: "set (chains (fs ?W) i) = set (chains (fs W) i) - {w}" for i
    using futex_invD(1) [OF inv, of i] futex_invD(2) [OF inv, of w i] by (auto simp: f queue_ok_def n Let_def)
  have "queue_ok ?W i x" if "x \<in> set (chains (fs ?W) i)" for x i
    using that futex_invD(2) [OF inv, of x i] unfolding sub by (auto simp: f queue_ok_def Let_def)
  moreover have "waiter_ok ?W x" for x
    using futex_invD(3) [OF inv, of x] by (auto simp: waiter_ok_def Let_def sub f(2,4) split: phase.splits)
  moreover have "debtors ?W i = debtors W i" for i
  proof -
    have "owes (phase W w) (waiters (fs W) w) i = (b = i)"
      using ph futex_invD(3) [OF inv, of w] by (auto simp: b waiter_ok_def n Let_def)
    then show ?thesis by (auto simp: debtors_def f(2,4))
  qed
  moreover have "active ?W = active W"
    using ph by (auto simp: active_def f)
  ultimately show ?thesis
    using inv by (simp add: futex_inv_def f(3)) (simp add: f(1) distinct_remove1)
qed

lemma inv_phase:
  assumes inv: "futex_inv W" and ph: "phase W w \<in> {Idle} \<union> range Owing" and p: "p \<in> {Idle} \<union> range Owing"
    and q: "chains s' = chains (fs W)" "waiters s' = waiters (fs W)"
    and c: "\<And>b. b < 1024 \<Longrightarrow> pub s' b = of_nat (card (debtors (at w p s' W) b))"
  shows "futex_inv (at w p s' W)"
proof -
  define W' where "W' = at w p s' W"
  have f: "chains (fs W') = chains (fs W)" "waiters (fs W') = waiters (fs W)" "fs W' = s'"
    "phase W' = (phase W)(w := p)"
    using q by (simp_all add: W'_def at_def)
  have "queue_ok W' i x" if "x \<in> set (chains (fs W) i)" for x i
    using futex_invD(2) [OF inv that] idle_not_queued [OF inv ph, of i] that
    by (auto simp: queue_ok_def f(2,4) Let_def)
  moreover have "waiter_ok W' x" for x
    using futex_invD(3) [OF inv, of x] p by (auto simp: waiter_ok_def f(1,2,4) Let_def split: phase.splits)
  moreover have "finite (active W')"
    by (rule finite_subset [of _ "insert w (active W)"]) (auto simp: active_def f(4) futex_invD(4) [OF inv, unfolded active_def])
  moreover have "pub (fs W') b = of_nat (card (debtors W' b))" if "b < 1024" for b
    using c [OF that] unfolding f(3) by (simp add: W'_def)
  ultimately have "futex_inv W'"
    using inv by (simp add: futex_inv_def f(1))
  then show ?thesis by (simp add: W'_def)
qed

lemma inv_charge:
  assumes inv: "futex_inv W" and ph: "phase W w = Idle"
  shows "futex_inv (at w (Owing (futex_hash ua)) (futex_charge ua (fs W)) W)"
proof (rule inv_phase [OF inv])
  fix b :: nat assume "b < 1024"
  let ?W = "at w (Owing (futex_hash ua)) (futex_charge ua (fs W)) W"
  have "debtors ?W b = (if futex_hash ua = b then insert w (debtors W b) else debtors W b)"
    using ph by (auto simp: debtors_def at_def futex_charge_def futex_frame)
  moreover have "w \<notin> debtors W b" using ph by (simp add: debtors_def)
  ultimately show "pub (futex_charge ua (fs W)) b = of_nat (card (debtors ?W b))"
    using futex_invD(5,6) [OF inv, of b] \<open>b < 1024\<close>
    by (cases "futex_hash ua = b") (auto simp: futex_charge_def futex_frame)
qed (use ph in \<open>simp_all add: futex_charge_def futex_frame\<close>)

lemma inv_give_up:
  assumes inv: "futex_inv W" and ph: "phase W w = Owing b0"
  shows "futex_inv (at w Idle (futex_discharge b0 (fs W)) W)"
proof (rule inv_phase [OF inv])
  fix b :: nat assume "b < 1024"
  let ?W = "at w Idle (futex_discharge b0 (fs W)) W"
  have d: "debtors ?W b = debtors W b - {w}"
    by (auto simp: debtors_def at_def futex_discharge_def futex_frame)
  have m: "w \<in> debtors W b \<longleftrightarrow> b0 = b" using ph by (simp add: debtors_def)
  show "pub (futex_discharge b0 (fs W)) b = of_nat (card (debtors ?W b))"
  proof (cases "b0 = b")
    case True
    then have "w \<in> debtors W b" using m by simp
    then have "card (debtors W b) = Suc (card (debtors W b - {w}))"
      by (rule card_Suc_Diff1 [OF futex_invD(5) [OF inv], symmetric])
    then show ?thesis
      using futex_invD(6) [OF inv \<open>b < 1024\<close>] True \<open>b < 1024\<close>
      unfolding d by (simp add: futex_discharge_def futex_frame)
  next
    case False
    then show ?thesis
      using futex_invD(6) [OF inv \<open>b < 1024\<close>] m unfolding d by (simp add: futex_discharge_def futex_frame)
  qed
qed (use ph in \<open>simp_all add: futex_discharge_def futex_frame\<close>)

text \<open>A requeue into another bucket, on the state in which the woken waiters are gone already.\<close>

lemma inv_moved:
  assumes inv: "futex_inv W" and R: "distinct R" "set R \<subseteq> set (chains (fs W) src)"
    and fol: "\<forall>w \<in> set R. pub_follows (waiters (fs W) w)"
    and d: "src \<noteq> dst" "dst = futex_hash ua2"
    and c: "chains s' = (chains (fs W))(src := filter (\<lambda>w. w \<notin> set R) (chains (fs W) src),
                                        dst := rev R @ chains (fs W) dst)"
    and n: "waiters s' = (\<lambda>w. if w \<in> set R then moved_waiter dst ua2 (waiters (fs W) w) else waiters (fs W) w)"
    and p: "pub s' = (pub (fs W))(dst := pub (fs W) dst + of_nat (length R), src := pub (fs W) src - of_nat (length R))"
  shows "futex_inv (W\<lparr>fs := s'\<rparr>)"
proof -
  define W' where "W' = W\<lparr>fs := s'\<rparr>"
  have f: "fs W' = s'" "phase W' = phase W" by (simp_all add: W'_def)
  have Rp: "phase W w = Parked \<and> \<not> woken (waiters (fs W) w) \<and> pub_bucket (waiters (fs W) w) = src" if "w \<in> set R" for w
  proof -
    have "queue_ok W src w" using that R(2) futex_invD(2) [OF inv, of w src] by blast
    then show ?thesis
      using that fol futex_invD(3) [OF inv, of w] by (auto simp: queue_ok_def waiter_ok_def Let_def)
  qed
  have nd: "w \<notin> set (chains (fs W) i)" if "w \<in> set R" "i \<noteq> src" for w i
    using that R(2) chain_unique [OF inv, of w src i] by blast
  have "distinct (chains s' i)" for i
    using futex_invD(1) [OF inv] R(1) nd [of _ dst] d(1) by (auto simp: c)
  moreover have "queue_ok W' i w" if "w \<in> set (chains s' i)" for w i
  proof (cases "w \<in> set R")
    case True
    then have "i = dst" using that nd [of w i] by (auto simp: c split: if_splits)
    then show ?thesis using Rp [OF True] True d(2) by (simp add: queue_ok_def f n moved_waiter_def)
  next
    case False
    then have "w \<in> set (chains (fs W) i)" using that by (auto simp: c split: if_splits)
    then show ?thesis using futex_invD(2) [OF inv, of w i] False by (simp add: queue_ok_def f n)
  qed
  moreover have "waiter_ok W' w" for w
    using futex_invD(3) [OF inv, of w] Rp [of w] d
    by (auto simp: waiter_ok_def f n c moved_waiter_def Let_def split: phase.splits)
  moreover have "pub s' i = of_nat (card (debtors W' i))" if "i < 1024" for i
  proof -
    have deb: "debtors W' i = (if i = dst then debtors W i \<union> set R else debtors W i - set R)"
      using Rp d(1) by (auto simp: debtors_def f n moved_waiter_def)
    have sub: "set R \<subseteq> debtors W src" and dis: "i \<noteq> src \<Longrightarrow> debtors W i \<inter> set R = {}"
      using Rp by (auto simp: debtors_def)
    note fin = futex_invD(5) [OF inv, of i] and cen = futex_invD(6) [OF inv that]
    consider "i = dst" | "i = src" | "i \<noteq> dst" "i \<noteq> src" by blast
    then show ?thesis
    proof cases
      case 1
      then show ?thesis
        using fin cen dis d(1) R(1) unfolding deb by (simp add: p card_Un_disjoint distinct_card)
    next
      case 2
      then have "card (debtors W i) = card (debtors W i - set R) + length R"
        using fin sub R(1) by (simp add: card_Diff_subset distinct_card card_mono)
          (metis card_mono distinct_card le_add_diff_inverse2)
      then show ?thesis
        using 2 cen d(1) unfolding deb by (simp add: p)
    next
      case 3
      then show ?thesis using cen dis unfolding deb by (simp add: p Diff_triv)
    qed
  qed
  ultimately have "futex_inv W'"
    using futex_invD(4) [OF inv] by (simp add: futex_inv_def f active_def)
  then show ?thesis by (simp add: W'_def)
qed

lemma inv_rekeyed:
  assumes inv: "futex_inv W" and R: "set R \<subseteq> set (chains (fs W) (futex_hash ua2))"
    and fol: "\<forall>w \<in> set R. pub_follows (waiters (fs W) w)"
    and c: "chains s' = chains (fs W)" "pub s' = pub (fs W)"
    and n: "waiters s' = (\<lambda>w. if w \<in> set R then (waiters (fs W) w)\<lparr>w_uaddr := ua2\<rparr> else waiters (fs W) w)"
  shows "futex_inv (W\<lparr>fs := s'\<rparr>)"
proof -
  define W' where "W' = W\<lparr>fs := s'\<rparr>"
  have f: "fs W' = s'" "phase W' = phase W" by (simp_all add: W'_def)
  have Rp: "phase W w = Parked" if "w \<in> set R" for w
  proof -
    have "queue_ok W (futex_hash ua2) w" using that R futex_invD(2) [OF inv] by blast
    then show ?thesis
      using that fol futex_invD(3) [OF inv, of w] by (auto simp: queue_ok_def waiter_ok_def Let_def)
  qed
  have "queue_ok W' i w" if "w \<in> set (chains s' i)" for w i
    using that futex_invD(2) [OF inv, of w i] chain_unique [OF inv, of w i "futex_hash ua2"] R Rp [of w]
    by (auto simp: queue_ok_def f n c)
  moreover have "waiter_ok W' w" for w
    using futex_invD(3) [OF inv, of w] futex_invD(2) [OF inv, of w "futex_hash ua2"] R Rp [of w]
    by (auto simp: waiter_ok_def queue_ok_def f n c Let_def split: phase.splits)
  moreover have "debtors W' i = debtors W i" for i
  proof -
    have "owes ph (waiters s' w) i = owes ph (waiters (fs W) w) i" for ph w
      by (cases ph) (simp_all add: n)
    then show ?thesis by (simp add: debtors_def f)
  qed
  ultimately have "futex_inv W'"
    using inv by (simp add: futex_inv_def f active_def c)
  then show ?thesis by (simp add: W'_def)
qed

lemma requeue_inv:
  assumes inv: "futex_inv W" and r: "futex_requeue ua nw nr ua2 do_cmp expected (fs W) = (Inr k, s')"
  shows "futex_inv (W\<lparr>fs := s'\<rparr>)"
proof -
  let ?src = "futex_hash ua" and ?dst = "futex_hash ua2" and ?s = "fs W"
  define H where "H = requeue_hits ua nw ?s"
  define R where "R = requeue_moves ua nw nr ?s"
  note ok = futex_requeue_ok [OF futex_invD(1) [OF inv] r H_def R_def]
  have M: "set H \<union> set R \<subseteq> set (chains ?s ?src)"
    unfolding H_def R_def requeue_hits_def requeue_moves_def by (auto dest!: in_set_takeD in_set_dropD)
  have dis: "distinct R" "set H \<inter> set R = {}"
  proof -
    have dM: "distinct (filter (\<lambda>w. w_uaddr (waiters ?s w) = ua) (chains ?s ?src))"
      using futex_invD(1) [OF inv] by simp
    then show "distinct R" by (simp add: R_def requeue_moves_def)
    show "set H \<inter> set R = {}"
      using set_take_disj_set_drop_if_distinct [OF dM, of "unat nw" "unat nw"]
      unfolding H_def R_def requeue_hits_def requeue_moves_def by (auto dest: in_set_takeD)
  qed
  define t where "t = fold mark_woken H ?s"
  define s1 where "s1 = set_chain ?src (filter (\<lambda>w. w \<notin> set H) (chains ?s ?src)) t"
  define W1 where "W1 = W\<lparr>fs := s1\<rparr>"
  have s1: "chains s1 = (chains ?s)(?src := filter (\<lambda>w. w \<notin> set H) (chains ?s ?src))"
    "waiters s1 = (\<lambda>w. if w \<in> set H then (waiters ?s w)\<lparr>woken := True\<rparr> else waiters ?s w)" "pub s1 = pub ?s"
    by (simp_all add: s1_def t_def futex_frame)
  have inv1: "futex_inv W1"
    unfolding W1_def using M by (intro inv_woken [OF inv _ s1]) simp
  have fs1: "fs W1 = s1" by (simp add: W1_def)
  have R1: "set R \<subseteq> set (chains s1 ?src)" using M dis(2) by (auto simp: s1)
  have fol: "\<forall>w \<in> set R. pub_follows (waiters s1 w)" using ok(3) by (auto simp: s1)
  have t: "chains t = chains ?s" "waiters t = waiters s1" "pub t = pub ?s"
    by (simp_all add: s1_def t_def futex_frame)
  have "futex_inv (W1\<lparr>fs := s'\<rparr>)"
  proof (cases "?src = ?dst")
    case True
    note F = fold_requeue_same [OF dis(1), of ?dst ua2 t]
    show ?thesis
    proof (rule inv_rekeyed [OF inv1, of R ua2], unfold fs1)
      show "chains s' = chains s1" "pub s' = pub s1"
        using F t by (simp_all add: ok(2) True futex_frame s1 flip: t_def)
      have "waiters s' = waiters (fold (requeue_one ?dst ?dst ua2) R t)"
        by (simp add: ok(2) True futex_frame flip: t_def)
      then show "waiters s' = (\<lambda>w. if w \<in> set R then (waiters s1 w)\<lparr>w_uaddr := ua2\<rparr> else waiters s1 w)"
        using F by (simp only: t(2))
    qed (use R1 fol True in simp_all)
  next
    case False
    have pb: "\<forall>w \<in> set R. pub_follows (waiters t w) \<and> pub_bucket (waiters t w) = ?src"
    proof
      fix w assume w: "w \<in> set R"
      then have "queue_ok W1 ?src w" using R1 futex_invD(2) [OF inv1, of w ?src] by (auto simp: fs1)
      then show "pub_follows (waiters t w) \<and> pub_bucket (waiters t w) = ?src"
        using w fol futex_invD(3) [OF inv1, of w] unfolding t(2)
        by (auto simp: fs1 queue_ok_def waiter_ok_def Let_def)
    qed
    note F = fold_requeue_other [OF dis(1) pb False futex_hash_lt futex_hash_lt, of ua2]
    show ?thesis
    proof (rule inv_moved [OF inv1 dis(1), of ?src ?dst ua2], unfold fs1)
      show "chains s' = (chains s1)(?src := filter (\<lambda>w. w \<notin> set R) (chains s1 ?src), ?dst := rev R @ chains s1 ?dst)"
      proof -
        have "chains s' = (chains (fold (requeue_one ?src ?dst ua2) R t))
            (?src := filter (\<lambda>w. w \<notin> set H \<and> w \<notin> set R) (chains ?s ?src))"
          using False by (simp add: ok(2) futex_frame flip: t_def)
        also have "\<dots> = (chains ?s)(?dst := rev R @ chains ?s ?dst,
            ?src := filter (\<lambda>w. w \<notin> set H \<and> w \<notin> set R) (chains ?s ?src))"
          using F by (simp only: t(1))
        finally show ?thesis
          using False by (simp add: s1(1) fun_upd_twist conj_commute)
      qed
      have "waiters s' = waiters (fold (requeue_one ?src ?dst ua2) R t)"
        by (simp add: ok(2) futex_frame flip: t_def)
      then show "waiters s' = (\<lambda>w. if w \<in> set R then moved_waiter ?dst ua2 (waiters s1 w) else waiters s1 w)"
        using F by (simp only: t(2))
      show "pub s' = (pub s1)(?dst := pub s1 ?dst + of_nat (length R), ?src := pub s1 ?src - of_nat (length R))"
        using F t by (simp add: ok(2) futex_frame s1(3) flip: t_def)
    qed (use R1 fol False in simp_all)
  qed
  then show ?thesis by (simp add: W1_def)
qed

lemma unlink_unqueued: "w \<notin> set (chains s b) \<Longrightarrow> bucket_unlink_locked b w s = s"
  by (simp add: bucket_unlink_locked_def remove1_idem set_chain_same)

lemma woken_not_queued: "futex_inv W \<Longrightarrow> woken (waiters (fs W) w) \<Longrightarrow> w \<notin> set (chains (fs W) b)"
  using futex_invD(2) [of W w b] by (auto simp: queue_ok_def Let_def)

text \<open>The dequeues of a parked waiter all unlink it from the bucket of its address.\<close>

lemma unlink_home:
  assumes "futex_inv W" "phase W w = Parked" "n = waiters (fs W) w"
  shows "bucket_unlink_locked (home n) w (fs W) = bucket_unlink_locked (futex_hash (w_uaddr n)) w (fs W)"
    and "woken n \<Longrightarrow> bucket_unlink_locked (futex_hash (w_uaddr n)) w (fs W) = fs W"
  using assms futex_invD(3) [OF assms(1), of w] woken_not_queued [OF assms(1), of w]
  by (cases "woken n", auto simp: waiter_ok_def Let_def unlink_unqueued)

lemma step_same:
  assumes "futex_inv W" "same_queues (fs W) s1" "\<And>W1. futex_inv W1 \<Longrightarrow> fs W1 = s1 \<Longrightarrow> futex_inv (W1\<lparr>fs := s'\<rparr>)"
  shows "futex_inv (W\<lparr>fs := s'\<rparr>)"
  using assms(3) [OF same_queues_inv [OF assms(1,2)]] by simp

lemma wake_inv: "futex_inv W \<Longrightarrow> futex_wake ua val bs (fs W) = (r, s') \<Longrightarrow> futex_inv (W\<lparr>fs := s'\<rparr>)"
  by (auto simp: futex_wake_def Let_def same_queues_inv split: if_splits prod.splits dest: wake_bucket_inv)

lemma wake_op_inv:
  assumes inv: "futex_inv W" and r: "futex_wake_op ua val ua2 val2 val3 (fs W) = (r, s')"
  shows "futex_inv (W\<lparr>fs := s'\<rparr>)"
proof (cases "s' = fs W")
  case True
  then show ?thesis using same_queues_inv [OF inv, of "fs W"] by simp
next
  case outer: False
  obtain op opv c ca where val3: "wake_op_operand val3 = (op, opv, c, ca)" by (cases "wake_op_operand val3")
  from r outer obtain old s1 where u: "futex_word_update ua2 (\<lambda>old. futex_wake_op_apply old op opv) (fs W) = Some (old, s1)"
    by (auto simp: futex_wake_op_def Let_def val3 split: if_splits option.splits)
  show ?thesis
  proof (rule step_same [OF inv same_queues_update [OF u]])
    fix W1 assume inv1: "futex_inv W1" and s1: "fs W1 = s1"
    show "futex_inv (W1\<lparr>fs := s'\<rparr>)"
    proof (cases "s' = s1")
      case True
      then show ?thesis using same_queues_inv [OF inv1, of s1] by (simp add: s1)
    next
      case False
      obtain k1 s2 where k1: "wake_bucket (futex_hash ua) (\<lambda>w. w_uaddr (waiters s1 w) = ua)
          (unat (futex_wake_budget val)) s1 = (k1, s2)" by fastforce
      have inv2: "futex_inv (W1\<lparr>fs := s2\<rparr>)" using wake_bucket_inv [OF inv1] k1 by (simp add: s1)
      obtain k2 s3 where k2: "wake_bucket (futex_hash ua2) (\<lambda>w. w_uaddr (waiters s2 w) = ua2)
          (unat (futex_wake_budget val2)) s2 = (k2, s3)" by fastforce
      have inv3: "futex_inv (W1\<lparr>fs := s3\<rparr>)" using wake_bucket_inv [OF inv2] k2 by simp
      have "s' = s2 \<or> s' = s3"
        using r outer False u by (auto simp: futex_wake_op_def Let_def val3 k1 k2 split: if_splits)
      then show ?thesis using inv2 inv3 by auto
    qed
  qed
qed

lemma unlock_inv:
  assumes "futex_inv W" "unlock_pi_release ua (fs W) = (r, s')"
  shows "futex_inv (W\<lparr>fs := s'\<rparr>)"
  using assms(2) same_queues_inv [OF wake_first_inv [OF assms(1), of "futex_hash ua" ua]] wake_first_inv [OF assms(1)]
  by (auto simp: unlock_pi_release_def Let_def split: option.splits dest!: same_queues_update)

lemma robust_mark_inv: "futex_inv W \<Longrightarrow> futex_inv (W\<lparr>fs := robust_mark tid gva (fs W)\<rparr>)"
proof -
  assume inv: "futex_inv W"
  have "futex_inv (W\<lparr>fs := futex_wake_owner_died gva ((fs W)\<lparr>mem := m\<rparr>)\<rparr>)" for m
    using wake_first_inv [OF same_queues_inv [OF inv same_queues_mem(1) [of _ m]], of "futex_hash gva" gva]
    by (simp add: futex_wake_owner_died_def)
  then show ?thesis
    using same_queues_inv [OF inv same_queues_refl] by (simp add: robust_mark_def split: option.splits)
qed

lemma leave_inv:
  assumes inv: "futex_inv W" and ph: "phase W w = Parked"
    and l: "futex_wait_leave w ret timed absolute (fs W) = (r, forbid, b, s')"
  shows "futex_inv (at w (Owing b) s' W)"
proof (rule inv_dequeue [OF inv disjI1 [OF ph] refl])
  show "b = pub_bucket (waiters (fs W) w)" using l by (simp add: futex_wait_leave_def Let_def)
  show "same_queues (bucket_unlink_locked (futex_hash (w_uaddr (waiters (fs W) w))) w (fs W)) s'"
    using l unlink_home [OF inv ph refl] by (auto simp: futex_wait_leave_def Let_def split: if_splits)
qed

lemma leave_group_inv:
  assumes "futex_inv W" "phase W w = Parked"
  shows "futex_inv (at w (Owing (pub_bucket (waiters (waitv_unlink w (fs W)) w))) (waitv_unlink w (fs W)) W)"
  by (rule inv_dequeue [OF assms(1) disjI1 [OF assms(2)] refl])
    (simp_all add: waitv_unlink_def unlink_home(1) [OF assms refl], simp add: bucket_unlink_locked_def futex_frame)

lemma pi_leave_inv:
  assumes inv: "futex_inv W" and ph: "phase W w = Parked_pi ua"
  shows "futex_inv (at w (Owing (futex_hash ua)) (lock_pi_leave w ua rc (fs W)) W)"
proof -
  have n: "w_uaddr (waiters (fs W) w) = ua" "pub_bucket (waiters (fs W) w) = futex_hash ua"
    using futex_invD(3) [OF inv, of w] ph by (auto simp: waiter_ok_def Let_def)
  show ?thesis
    by (rule inv_dequeue [OF inv disjI2 refl]) (simp_all add: n ph lock_pi_leave_def Let_def same_queues_clear)
qed

lemma park_inv:
  assumes inv: "futex_inv W" and ph: "phase W w = Owing (futex_hash ua)"
    and e: "futex_wait_enqueue w ua expected bitset g (fs W) = (None, s')"
  shows "futex_inv (at w Parked s' W)"
proof -
  let ?n = "\<lparr>w_uaddr = ua, w_bitset = bitset, woken = False, grouped = g, pub_bucket = futex_hash ua,
    pub_follows = True, home = futex_hash ua\<rparr>"
  have "s' = enqueue w ?n (futex_hash ua) (fs W)"
    using e by (auto simp: futex_wait_enqueue_def Let_def split: option.splits)
  then show ?thesis using inv_enqueue [OF inv ph, of ?n Parked] by simp
qed

lemma pi_window_inv:
  assumes inv: "futex_inv W" and ph: "phase W w = Owing (futex_hash ua)"
    and l: "lock_pi_window w tid ua (fs W) = (r, s')"
  shows "futex_inv (if r = Pi_parked then at w (Parked_pi ua) s' W else W\<lparr>fs := s'\<rparr>)"
proof (cases "r = Pi_parked")
  case True
  then obtain s1 where s1: "same_queues (fs W) s1" "s' = enqueue w (pi_waiter ua) (futex_hash ua) s1"
    using lock_pi_window_cases [OF l] by auto
  have "futex_inv (at w (Parked_pi ua) s' (W\<lparr>fs := s1\<rparr>))"
    using inv_enqueue [OF same_queues_inv [OF inv s1(1)], of w "futex_hash ua" "pi_waiter ua" "Parked_pi ua"] ph
    by (simp add: s1(2) pi_waiter_def)
  then show ?thesis using True by (simp add: at_def)
qed (use lock_pi_window_cases [OF l] same_queues_inv [OF inv] in simp)

lemma futex_step_inv: "futex_step W W' \<Longrightarrow> futex_inv W \<Longrightarrow> futex_inv W'"
proof (induction rule: futex_step.induct)
  case (requeue ua nw nr ua2 do_cmp expected W r s')
  then show ?case
    by (cases r) (auto dest: requeue_inv futex_requeue_err intro: same_queues_inv)
next
  case (pi_window W w ua tid r s')
  then show ?case by (rule pi_window_inv [rotated])
qed (auto simp: same_queues_inv inv_charge inv_give_up leave_group_inv pi_leave_inv robust_mark_inv
    simp del: if_split intro: park_inv leave_inv unlock_inv wake_inv wake_op_inv
    dest: same_queues_lock_pi_fast same_queues_trylock)

lemma futex_run_inv: "futex_run W \<Longrightarrow> futex_inv W"
  by (induction rule: futex_run.induct) (auto intro: futex_boot_inv futex_step_inv)

end
