(* ===== verification/Futex_Theorems.thy ===== *)
theory Futex_Theorems
  imports Futex_World
begin

text \<open>
  Properties of the futex component in every reachable world: the shim's answers are the
  host's, no sleeping waiter is out of reach of a wake, and what a wake and a requeue do.
\<close>

section \<open>A whole call with no other thread running\<close>

text \<open>
  \<open>None\<close> is a call that has not returned: it is parked, or about to retry. \<open>arg\<close> is what
  reading the timespec at a non-null timeout pointer gives.
\<close>

definition lock_pi_alone ::
  "(u32 \<Rightarrow> bool) \<Rightarrow> u32 \<Rightarrow> wid \<Rightarrow> u64 \<Rightarrow> timespec option option \<Rightarrow> timespec \<Rightarrow> futex_state \<Rightarrow> futex_ret option \<times> futex_state" where
  "lock_pi_alone thread_find tid w uaddr arg now s =
     (let s1 = futex_charge uaddr s; undo = futex_discharge (futex_hash uaddr) in
      case lock_pi_checks uaddr arg now s1 of
        Inl e \<Rightarrow> (Some (Inl e), undo s1)
      | Inr deadline \<Rightarrow>
          (case lock_pi_fast thread_find tid uaddr s1 of
             (Pi_return r, s2) \<Rightarrow> (Some r, undo s2)
           | (_, s2) \<Rightarrow>
               (case lock_pi_window w tid uaddr s2 of
                  (Pi_return r, s3) \<Rightarrow> (Some r, undo s3)
                | (_, s3) \<Rightarrow> (None, s3))))"

definition futex_call_alone ::
  "(u32 \<Rightarrow> bool) \<Rightarrow> u32 \<Rightarrow> wid \<Rightarrow> timespec option \<Rightarrow> timespec \<Rightarrow> futex_call \<Rightarrow> futex_state
   \<Rightarrow> futex_ret option \<times> futex_state" where
  "futex_call_alone thread_find tid w arg now call s =
     (let timed = (\<lambda>t :: u64. if t = 0 then None else Some arg);
          done = (\<lambda>(r, s'). (Some r, s'))
      in case call of
        Wait uaddr val t bitset absolute \<Rightarrow>
          (case futex_wait_alone w uaddr val (timed t) bitset absolute now s of
             (e, s') \<Rightarrow> (map_option Inl e, s'))
      | Wake uaddr val bitset \<Rightarrow> done (futex_wake uaddr val bitset s)
      | Requeue uaddr val val2 uaddr2 do_cmp val3 \<Rightarrow> done (futex_requeue uaddr val val2 uaddr2 do_cmp val3 s)
      | Wake_op uaddr val uaddr2 val2 val3 \<Rightarrow> done (futex_wake_op uaddr val uaddr2 val2 val3 s)
      | Lock_pi uaddr t \<Rightarrow> lock_pi_alone thread_find tid w uaddr (timed t) now s
      | Unlock_pi uaddr \<Rightarrow> done (futex_unlock_pi tid uaddr s)
      | Trylock_pi uaddr \<Rightarrow> done (futex_trylock_pi tid uaddr s)
      | Not_implemented \<Rightarrow> (Some (Inl FX_ENOSYS), s))"

section \<open>The shim's answers\<close>

lemma charge_discharge: "futex_discharge (futex_hash ua) (futex_charge ua s) = s"
  by (cases s) (simp add: futex_discharge_def futex_charge_def shim_globals_futex_waiters_add_def SHIM_FUTEX_BUCKETS_def)

lemma shim_spin_answer:
  assumes "shim_spin k expected samples = Answer r" "\<forall>x \<in> set samples. fst x = m"
  shows "case m of None \<Rightarrow> r = Inl FX_EFAULT | Some v \<Rightarrow> v \<noteq> expected \<and> r = Inl FX_EAGAIN"
  using assms by (induction k expected samples rule: shim_spin.induct) (auto split: if_splits option.splits)

lemma spin_loads_replicate:
  "spin_loads e (replicate (Suc k) m) = (case m of None \<Rightarrow> False | Some v \<Rightarrow> v \<noteq> e)"
  by (induction k) (auto split: option.splits)

lemma spin_moved_constant:
  "futex_spin_word_moved e (replicate FUTEX_SPIN_ITERS m) = (case m of None \<Rightarrow> False | Some v \<Rightarrow> v \<noteq> e)"
proof -
  have "FUTEX_SPIN_ITERS = Suc 4095" by (simp add: FUTEX_SPIN_ITERS_def)
  then obtain k where k: "FUTEX_SPIN_ITERS = Suc k" by blast
  show ?thesis
    unfolding futex_spin_word_moved_def take_replicate min.idem k by (rule spin_loads_replicate)
qed

lemma wait_alone_refused:
  assumes "futex_wait_checks ua bs arg ab now = Inr d"
    and "case mem s ua of None \<Rightarrow> e = FX_EFAULT | Some v \<Rightarrow> v \<noteq> val \<and> e = FX_EAGAIN"
  shows "futex_wait_alone w ua val arg bs ab now s = (Some e, s)"
proof -
  have m: "mem (futex_charge ua s) = mem s"
    by (simp add: futex_charge_def futex_frame)
  show ?thesis
    using assms charge_discharge [of ua s]
    by (auto simp: futex_wait_alone_def Let_def futex_wait_spin_def spin_moved_constant futex_word_load_def m
        futex_wait_enqueue_def futex_should_block_def simp del: replicate.simps split: option.splits)
qed

lemma sint_small: "x < 2 ^ 63 \<Longrightarrow> sint (x :: u64) = uint x"
proof -
  assume "x < 2 ^ 63"
  then have "uint x < 2 ^ 63" by (simp add: word_less_def)
  moreover have "- (2 ^ 63) \<le> uint x" by (rule order_trans [OF _ unsigned_greater_eq]) simp
  ultimately show ?thesis by (simp add: sint_uint signed_take_bit_int_eq_self_iff)
qed

lemma shim_timespec_valid:
  assumes "sec AND 0xFFFFFFFF80000000 = (0 :: u64)" "\<not> nsec \<ge> (1000000000 :: u64)"
  shows "linux_timespec_is_valid \<lparr>tv_sec = sint sec, tv_nsec = sint nsec\<rparr>"
proof -
  have "sec = sec AND mask 31"
  proof (rule bit_eqI)
    fix n
    have "bit (sec AND 0xFFFFFFFF80000000) n = (bit sec n \<and> bit (NOT (mask 31) :: u64) n)"
    proof -
      have "(0xFFFFFFFF80000000 :: u64) = NOT (mask 31)" by (simp add: mask_eq_exp_minus_1)
      then show ?thesis by (simp add: bit_and_iff)
    qed
    then have "\<not> (bit sec n \<and> bit (NOT (mask 31) :: u64) n)" using assms(1) by simp
    then show "bit sec n = bit (sec AND mask 31) n"
      using bit_imp_le_length [of sec n] by (auto simp: bit_and_iff bit_not_iff)
  qed
  then have "sec \<le> mask 31" by (metis word_and_le1)
  then have s: "sec < 2 ^ 31" by (simp add: mask_eq_exp_minus_1 word_le_def word_less_def)
  then have "uint sec < 2 ^ 31" by (simp add: word_less_def)
  moreover have "sint sec = uint sec" using s by (intro sint_small) (simp add: word_less_def)
  moreover have "uint nsec < 1000000000" using assms(2) by (simp add: word_less_def not_le)
  moreover have "sint nsec = uint nsec" using assms(2) by (intro sint_small) (simp add: word_less_def not_le)
  ultimately show ?thesis
    by (simp add: linux_timespec_is_valid_def timespec_valid_capped_def timespec_valid_def
        FUTEX_TIMESPEC_SEC_MAX_def INT64_MAX_def TIMESPEC_NSEC_PER_SEC_def)
qed

lemma shim_wait_answer:
  assumes ans: "shim_futex_wait_fast attn ts samples ua op val timeout val3 = Answer r"
    and cmd: "op AND 0x7f = 0 \<or> op AND 0x7f = 9"
    and seen: "\<forall>x \<in> set samples. fst x = mem s ua"
    and arg: "arg = map_option (\<lambda>(sec, nsec). \<lparr>tv_sec = sint sec, tv_nsec = sint nsec\<rparr>) ts"
  shows "futex_call_alone tf tid w arg now (sys_futex ua op val timeout ua2 val3) s = (Some r, s)"
proof -
  define bs where "bs = (if op AND 0x7f = 0 then FUTEX_BITSET_MATCH_ANY else val3)"
  define ab where "ab \<longleftrightarrow> op AND 0x7f \<noteq> 0"
  have call: "sys_futex ua op val timeout ua2 val3 = Wait ua val timeout bs ab"
    using cmd by (auto simp: sys_futex_def FUTEX_CMD_MASK_def bs_def ab_def)
  have guards: "bs \<noteq> 0" "futex_uaddr_is_aligned ua"
    using ans cmd by (auto simp: shim_futex_wait_fast_def Let_def bs_def FUTEX_BITSET_MATCH_ANY_def
        futex_uaddr_is_aligned_def split: if_splits)
  let ?arg = "if timeout = 0 then None else Some arg"
  have "\<exists>e. r = Inl e \<and> futex_wait_alone w ua val ?arg bs ab now s = (Some e, s)"
  proof (cases "timeout = 0 \<or> ts \<noteq> None")
    case False
    then have "ts = None" "timeout \<noteq> 0" by blast+
    then show ?thesis
      using ans guards arg charge_discharge [of ua s]
      by (auto simp: shim_futex_wait_fast_def Let_def futex_wait_alone_def futex_wait_checks_def
          futex_make_deadline_def split: if_splits)
  next
    case True
    then have spin: "\<exists>k. shim_spin k val samples = Answer r"
      using ans by (auto simp: shim_futex_wait_fast_def Let_def split: if_splits option.splits)
    have "\<exists>d. futex_wait_checks ua bs ?arg ab now = Inr d"
    proof (cases "timeout = 0")
      case False
      with True obtain sec nsec where ts: "ts = Some (sec, nsec)" by auto
      have "linux_timespec_is_valid \<lparr>tv_sec = sint sec, tv_nsec = sint nsec\<rparr>"
        using ans False by (intro shim_timespec_valid) (auto simp: shim_futex_wait_fast_def Let_def ts split: if_splits)
      then show ?thesis
        using guards by (simp add: futex_wait_checks_def arg ts futex_make_deadline_def)
    qed (use guards in \<open>simp add: futex_wait_checks_def\<close>)
    then obtain d where d: "futex_wait_checks ua bs ?arg ab now = Inr d" by blast
    from spin obtain k where "shim_spin k val samples = Answer r" by blast
    then have "case mem s ua of None \<Rightarrow> r = Inl FX_EFAULT | Some v \<Rightarrow> v \<noteq> val \<and> r = Inl FX_EAGAIN"
      by (rule shim_spin_answer [OF _ seen])
    then obtain e where "r = Inl e" "case mem s ua of None \<Rightarrow> e = FX_EFAULT | Some v \<Rightarrow> v \<noteq> val \<and> e = FX_EAGAIN"
      by (cases "mem s ua") auto
    then show ?thesis using wait_alone_refused [OF d] by blast
  qed
  then show ?thesis
    by (auto simp: futex_call_alone_def call Let_def)
qed

lemma empty_bucket:
  assumes run: "futex_run W" and few: "card (active W) < 2 ^ 32" and z: "pub (fs W) b = 0" "b < 1024"
  shows "chains (fs W) b = []"
proof -
  note inv = futex_run_inv [OF run]
  have "card (debtors W b) \<le> card (active W)"
    by (rule card_mono [OF futex_invD(4) [OF inv] debtors_active])
  moreover have "(of_nat (card (debtors W b)) :: u32) = 0"
    using futex_invD(6) [OF inv z(2)] z(1) by simp
  ultimately have "card (debtors W b) = 0"
    using few unsigned_of_nat [of "card (debtors W b)", where 'b = 32, where 'a = nat]
    by (simp add: take_bit_nat_eq_self)
  then have "debtors W b = {}" using futex_invD(5) [OF inv] by simp
  moreover have "w \<in> debtors W b" if "w \<in> set (chains (fs W) b)" for w
    using futex_invD(2) [OF inv that] futex_invD(3) [OF inv, of w]
    by (auto simp: queue_ok_def waiter_ok_def debtors_def Let_def)
  ultimately show ?thesis by (cases "chains (fs W) b") auto
qed

lemma shim_wake_answer:
  assumes run: "futex_run W" and few: "card (active W) < 2 ^ 32"
    and ans: "shim_futex_wake_fast attn (pub (fs W)) ua op val3 = Answer r"
    and cmd: "op AND 0x7f = 1 \<or> op AND 0x7f = 10"
  shows "futex_call_alone tf tid w arg now (sys_futex ua op val timeout ua2 val3) (fs W) = (Some r, fs W)"
proof -
  have b: "shim_bucket_index ua = futex_hash ua"
    by (simp add: shim_bucket_index_eq futex_hash_def FUTEX_BUCKETS_def)
  have r: "r = Inr 0" "futex_uaddr_is_aligned ua" "pub (fs W) (futex_hash ua) = 0" "op AND 0x7f = 10 \<Longrightarrow> val3 \<noteq> 0"
    using ans by (auto simp: shim_futex_wake_fast_def Let_def futex_uaddr_is_aligned_def b split: if_splits)
  have e: "chains (fs W) (futex_hash ua) = []"
    by (rule empty_bucket [OF run few r(3) futex_hash_lt])
  have "futex_wake ua v bs (fs W) = (Inr 0, fs W)" if "bs \<noteq> 0" for v bs
    using that r(2) e set_chain_same [of "futex_hash ua" "fs W"]
    by (simp add: futex_wake_def Let_def futex_pi_waiter_within_def wake_bucket_def)
  then show ?thesis
    using cmd r(1,4) by (auto simp: sys_futex_def FUTEX_CMD_MASK_def futex_call_alone_def Let_def FUTEX_BITSET_MATCH_ANY_def)
qed

section \<open>An example world\<close>

text \<open>Thread 0 sleeps on address 64 for the value 7; the word there holds 7.\<close>

definition futex0 :: futex_state where
  "futex0 = \<lparr>chains = (\<lambda>_. []),
     waiters = (\<lambda>_. \<lparr>w_uaddr = 0, w_bitset = 0, woken = False, grouped = False, pub_bucket = 0,
                     pub_follows = False, home = 0\<rparr>),
     pub = (\<lambda>_. 0), mem = (\<lambda>a. if a = 64 then Some 7 else if a = 128 then Some 0 else None),
     writable = (\<lambda>_. True), signals = []\<rparr>"

definition world0 :: futex_world where
  "world0 = \<lparr>fs = futex0, phase = (\<lambda>_. Idle)\<rparr>"

definition sleeper_state :: futex_state where
  "sleeper_state = snd (futex_wait_enqueue 0 64 7 FUTEX_BITSET_MATCH_ANY False (futex_charge 64 futex0))"

definition sleeper_world :: futex_world where
  "sleeper_world = \<lparr>fs = sleeper_state, phase = (\<lambda>_. Idle)(0 := Parked)\<rparr>"

lemma world0_run: "futex_run world0"
  by (rule futex_run.boot) (simp add: futex_boot_def world0_def futex0_def)

lemma hash_64: "futex_hash 64 \<noteq> futex_hash 128"
  by code_simp

lemma sleeper_enqueue:
  "futex_wait_enqueue 0 64 7 FUTEX_BITSET_MATCH_ANY False (futex_charge 64 futex0) = (None, sleeper_state)"
  by (simp add: sleeper_state_def futex_wait_enqueue_def futex_should_block_def futex_word_load_def futex_charge_def
      futex_frame Let_def) (simp add: futex0_def)

lemma sleeper_run: "futex_run sleeper_world"
proof -
  have "futex_run (at 0 (Owing (futex_hash 64)) (futex_charge 64 (fs world0)) world0)"
    by (rule futex_run.next_step [OF world0_run futex_step.charge]) (simp add: world0_def)
  then have "futex_run (at 0 Parked sleeper_state (at 0 (Owing (futex_hash 64)) (futex_charge 64 (fs world0)) world0))"
    by (rule futex_run.next_step, intro futex_step.park [where ua = 64 and expected = 7 and bitset = FUTEX_BITSET_MATCH_ANY and g = False])
      (simp add: at_def, simp add: at_def world0_def sleeper_enqueue)
  then show ?thesis by (simp add: at_def world0_def sleeper_world_def)
qed

lemma sleeper_active: "active sleeper_world = {0}"
  by (auto simp: active_def sleeper_world_def)

lemma sleeper_fields:
  "chains sleeper_state = (\<lambda>_. [])(futex_hash 64 := [0])" "woken (waiters sleeper_state 0) = False"
  "w_uaddr (waiters sleeper_state 0) = 64" "w_bitset (waiters sleeper_state 0) = FUTEX_BITSET_MATCH_ANY"
  "pub_follows (waiters sleeper_state 0)" "mem sleeper_state = mem futex0"
  "pub sleeper_state = (\<lambda>_. 0)(futex_hash 64 := 1)"
  by (simp_all add: sleeper_state_def futex_wait_enqueue_def futex_should_block_def futex_word_load_def futex_charge_def
      enqueue_def futex_frame futex0_def Let_def)

section \<open>Properties\<close>

text \<open>
  C35. Whenever the shim answers a futex call at EL1 instead of leaving it to the host, in
  any reachable world with fewer than 2^32 waiters and with the loads of the shim seeing
  what the host would read, the host's own handling of the same system call returns the
  same result and leaves the state as it was.
\<close>

theorem shim_futex_answers_as_host:
  assumes "futex_run W" "card (active W) < 2 ^ 32"
    and "\<forall>x \<in> set samples. fst x = mem (fs W) ua"
    and "arg = map_option (\<lambda>(sec, nsec). \<lparr>tv_sec = sint sec, tv_nsec = sint nsec\<rparr>) ts"
    and "shim_futex attn (pub (fs W)) ts samples ua op val timeout val3 = Answer r"
  shows "futex_call_alone thread_find tid w arg now (sys_futex ua op val timeout ua2 val3) (fs W) = (Some r, fs W)"
proof (cases "op AND 0x7f = 0 \<or> op AND 0x7f = 9")
  case True
  then show ?thesis
    using assms(5) by (intro shim_wait_answer [OF _ True assms(3,4)]) (simp add: shim_futex_def)
next
  case False
  then have "op AND 0x7f = 1 \<or> op AND 0x7f = 10"
    using assms(5) by (auto simp: shim_futex_def Let_def split: if_splits)
  then show ?thesis
    using assms(5) False by (intro shim_wake_answer [OF assms(1,2)]) (simp_all add: shim_futex_def Let_def)
qed

theorem shim_futex_answers_as_host_witness:
  "futex_call_alone (\<lambda>_. True) 1 9 None \<lparr>tv_sec = 0, tv_nsec = 0\<rparr> (sys_futex 128 1 1 0 0 0) sleeper_state = (Some (Inr 0), sleeper_state)
   \<and> futex_call_alone (\<lambda>_. True) 1 9 None \<lparr>tv_sec = 0, tv_nsec = 0\<rparr> (sys_futex 64 0 5 0 0 0) sleeper_state = (Some (Inl FX_EAGAIN), sleeper_state)"
proof
  have few: "card (active sleeper_world) < 2 ^ 32" by (simp add: sleeper_active)
  have fs: "fs sleeper_world = sleeper_state" by (simp add: sleeper_world_def)
  have "shim_bucket_index 128 = futex_hash 128"
    by (simp add: shim_bucket_index_eq futex_hash_def FUTEX_BUCKETS_def)
  then have w: "shim_futex False (pub (fs sleeper_world)) None [] 128 1 1 0 0 = Answer (Inr 0)"
    using hash_64 by (auto simp: shim_futex_def shim_futex_wake_fast_def fs sleeper_fields)
  show "futex_call_alone (\<lambda>_. True) 1 9 None \<lparr>tv_sec = 0, tv_nsec = 0\<rparr> (sys_futex 128 1 1 0 0 0) sleeper_state = (Some (Inr 0), sleeper_state)"
    using shim_futex_answers_as_host [OF sleeper_run few _ _ w] by (simp add: fs)
  have e: "shim_futex False (pub (fs sleeper_world)) None [(Some 7, False)] 64 0 5 0 0 = Answer (Inl FX_EAGAIN)"
    by (simp add: shim_futex_def shim_futex_wait_fast_def shim_tagged_def)
  show "futex_call_alone (\<lambda>_. True) 1 9 None \<lparr>tv_sec = 0, tv_nsec = 0\<rparr> (sys_futex 64 0 5 0 0 0) sleeper_state = (Some (Inl FX_EAGAIN), sleeper_state)"
    using shim_futex_answers_as_host [OF sleeper_run few _ _ e] by (simp add: fs sleeper_fields futex0_def)
qed

text \<open>The waiters parked on an address that no wake has reached yet.\<close>

definition asleep :: "futex_world \<Rightarrow> wid set" where
  "asleep W = {w. (phase W w = Parked \<or> phase W w \<in> range Parked_pi) \<and> \<not> woken (waiters (fs W) w)}"

definition sleepers :: "futex_world \<Rightarrow> u64 \<Rightarrow> u32 \<Rightarrow> wid set" where
  "sleepers W ua bitset = {w \<in> asleep W. matches (fs W) ua bitset w}"

lemma asleep_queued:
  assumes "futex_inv W"
  shows "w \<in> set (chains (fs W) b) \<longleftrightarrow> w \<in> asleep W \<and> futex_hash (w_uaddr (waiters (fs W) w)) = b"
proof
  assume "w \<in> set (chains (fs W) b)"
  then show "w \<in> asleep W \<and> futex_hash (w_uaddr (waiters (fs W) w)) = b"
    using futex_invD(2) [OF assms, of w b] by (auto simp: queue_ok_def asleep_def Let_def)
next
  assume "w \<in> asleep W \<and> futex_hash (w_uaddr (waiters (fs W) w)) = b"
  then show "w \<in> set (chains (fs W) b)"
    using futex_invD(3) [OF assms, of w] by (auto simp: waiter_ok_def asleep_def Let_def)
qed

lemma sleepers_filter:
  assumes "futex_inv W"
  shows "sleepers W ua bs = set (filter (matches (fs W) ua bs) (chains (fs W) (futex_hash ua)))"
  using asleep_queued [OF assms, of _ "futex_hash ua"] by (auto simp: sleepers_def matches_def)

lemma card_sleepers:
  assumes "futex_inv W"
  shows "card (sleepers W ua bs) = length (filter (matches (fs W) ua bs) (chains (fs W) (futex_hash ua)))"
  unfolding sleepers_filter [OF assms] by (rule distinct_card) (simp add: futex_invD(1) [OF assms])

text \<open>
  C17. In every reachable world a waiter that sleeps and has not been woken is queued in the
  bucket of its current address, where a wake on that address looks, and in no other
  bucket, through any requeues, timeouts and retries that happened before.
\<close>

theorem futex_run_sleeper_queued:
  assumes "futex_run W" "w \<in> asleep W"
  shows "{b. w \<in> set (chains (fs W) b)} = {futex_hash (w_uaddr (waiters (fs W) w))}"
  using asleep_queued [OF futex_run_inv [OF assms(1)], of w] assms(2) by auto

theorem futex_run_sleeper_queued_witness:
  "{b. 0 \<in> set (chains sleeper_state b)} = {futex_hash 64}"
proof -
  have "0 \<in> asleep sleeper_world"
    by (simp add: asleep_def sleeper_world_def sleeper_fields)
  from futex_run_sleeper_queued [OF sleeper_run this] show ?thesis
    by (simp add: sleeper_world_def sleeper_fields(3))
qed

text \<open>
  C2. No wake is lost to the shim: while a waiter sleeps on an address, the shim leaves
  every wake on that address to the host, whatever the interleaving, as long as fewer than
  2^32 waiters are active.
\<close>

theorem shim_never_skips_sleeper:
  assumes "futex_run W" "card (active W) < 2 ^ 32" "w \<in> asleep W"
  shows "shim_futex_wake_fast attn (pub (fs W)) (w_uaddr (waiters (fs W) w)) op val3 = Bail"
proof -
  let ?ua = "w_uaddr (waiters (fs W) w)"
  have "w \<in> set (chains (fs W) (futex_hash ?ua))"
    using asleep_queued [OF futex_run_inv [OF assms(1)]] assms(3) by blast
  then have "pub (fs W) (futex_hash ?ua) \<noteq> 0"
    using empty_bucket [OF assms(1,2), of "futex_hash ?ua"] by auto
  then show ?thesis
    by (simp add: shim_futex_wake_fast_def Let_def shim_bucket_index_eq futex_hash_def FUTEX_BUCKETS_def)
qed

theorem shim_never_skips_sleeper_witness:
  "shim_futex_wake_fast False (pub sleeper_state) 64 1 0 = Bail"
proof -
  have "0 \<in> asleep sleeper_world" "card (active sleeper_world) < 2 ^ 32"
    by (simp_all add: asleep_def sleeper_world_def sleeper_fields sleeper_active [unfolded sleeper_world_def])
  from shim_never_skips_sleeper [OF sleeper_run this(2,1)] show ?thesis
    by (simp add: sleeper_world_def sleeper_fields(3))
qed

text \<open>
  C36. FUTEX_WAKE wakes exactly as many of the waiters that sleep on the address and match
  the bitset as the count allows (a count of zero or above INT_MAX is one), reports how
  many, takes those and no others out of the queues and changes no other waiter.
\<close>

theorem futex_wake_exact:
  assumes "futex_run W" "futex_wake ua val bitset (fs W) = (Inr k, s')"
  shows "\<exists>H \<subseteq> sleepers W ua bitset.
    card H = min (unat (futex_wake_budget val)) (card (sleepers W ua bitset)) \<and> k = card H \<and>
    (\<forall>b. chains s' b = filter (\<lambda>w. w \<notin> H) (chains (fs W) b)) \<and>
    waiters s' = (\<lambda>w. if w \<in> H then (waiters (fs W) w)\<lparr>woken := True\<rparr> else waiters (fs W) w)"
proof -
  note inv = futex_run_inv [OF assms(1)]
  let ?b = "futex_hash ua" and ?m = "matches (fs W) ua bitset" and ?n = "unat (futex_wake_budget val)"
  define T where "T = wake_targets ?b ?m ?n (fs W)"
  have w: "k = length T" "s' = fold mark_woken T (set_chain ?b (filter (\<lambda>w. w \<notin> set T) (chains (fs W) ?b)) (fs W))"
    using assms(2) wake_bucket_eq [OF futex_invD(1) [OF inv], of ?b ?m ?n]
    by (auto simp: futex_wake_def Let_def T_def split: if_splits)
  have T: "set T \<subseteq> sleepers W ua bitset"
    using set_wake_targets [of ?b ?m ?n "fs W"] unfolding T_def sleepers_filter [OF inv] by auto
  have cT: "card (set T) = length T"
    by (rule distinct_card) (simp add: T_def wake_targets_def futex_invD(1) [OF inv])
  have "chains s' b = filter (\<lambda>w. w \<notin> set T) (chains (fs W) b)" for b
  proof (cases "b = ?b")
    case False
    have "w \<notin> set T" if "w \<in> set (chains (fs W) b)" for w
      using that T False chain_unique [OF inv, of w ?b b] unfolding sleepers_filter [OF inv] by auto
    then show ?thesis using False by (simp add: w futex_frame)
  qed (simp add: w futex_frame)
  moreover have "waiters s' = (\<lambda>w. if w \<in> set T then (waiters (fs W) w)\<lparr>woken := True\<rparr> else waiters (fs W) w)"
    by (simp add: w futex_frame cong: if_cong)
  moreover have "card (set T) = min ?n (card (sleepers W ua bitset))"
    unfolding cT card_sleepers [OF inv] by (simp add: T_def length_wake_targets)
  ultimately show ?thesis using T cT w(1) by (intro exI [of _ "set T"]) simp
qed

lemma sleeper_wake: "futex_wake 64 5 FUTEX_BITSET_MATCH_ANY sleeper_state =
    (Inr 1, snd (futex_wake 64 5 FUTEX_BITSET_MATCH_ANY sleeper_state))"
  by (simp add: futex_wake_def Let_def futex_uaddr_is_aligned_def futex_pi_waiter_within_def futex_wake_budget_def
      matches_def sleeper_fields wake_bucket_def FUTEX_BITSET_MATCH_ANY_def)

theorem futex_wake_exact_witness:
  "\<exists>H \<subseteq> sleepers sleeper_world 64 FUTEX_BITSET_MATCH_ANY. 1 = card H"
  using futex_wake_exact [OF sleeper_run, of 64 5 FUTEX_BITSET_MATCH_ANY 1] sleeper_wake
  by (simp add: sleeper_world_def) blast

text \<open>What a requeue does to each waiter, in the same bucket or across two.\<close>

lemma requeue_waiters:
  assumes inv: "futex_inv W" and r: "futex_requeue ua nw nr ua2 do_cmp expected (fs W) = (Inr k, s')"
    and H: "H = requeue_hits ua nw (fs W)" and R: "R = requeue_moves ua nw nr (fs W)"
  shows "w \<in> set H \<Longrightarrow> waiters s' w = (waiters (fs W) w)\<lparr>woken := True\<rparr>"
    and "w \<in> set R \<Longrightarrow> w_uaddr (waiters s' w) = ua2 \<and> woken (waiters s' w) = woken (waiters (fs W) w)"
    and "w \<notin> set H \<Longrightarrow> w \<notin> set R \<Longrightarrow> waiters s' w = waiters (fs W) w"
proof -
  let ?src = "futex_hash ua" and ?dst = "futex_hash ua2"
  note ok = futex_requeue_ok [OF futex_invD(1) [OF inv] r H R]
  have dM: "distinct (filter (\<lambda>w. w_uaddr (waiters (fs W) w) = ua) (chains (fs W) ?src))"
    using futex_invD(1) [OF inv] by simp
  have dR: "distinct R" unfolding R requeue_moves_def using dM by (intro distinct_take distinct_drop)
  have disj: "set H \<inter> set R = {}"
    using set_take_disj_set_drop_if_distinct [OF dM, of "unat nw" "unat nw"]
    unfolding H R requeue_hits_def requeue_moves_def by (auto dest: in_set_takeD)
  have pb: "\<forall>w \<in> set R. pub_follows (waiters (fold mark_woken H (fs W)) w) \<and>
      pub_bucket (waiters (fold mark_woken H (fs W)) w) = ?src"
  proof
    fix w assume w: "w \<in> set R"
    then have "w \<in> set (chains (fs W) ?src)"
      unfolding R requeue_moves_def by (auto dest!: in_set_takeD in_set_dropD)
    then show "pub_follows (waiters (fold mark_woken H (fs W)) w) \<and> pub_bucket (waiters (fold mark_woken H (fs W)) w) = ?src"
      using futex_invD(2) [OF inv, of w ?src] futex_invD(3) [OF inv, of w] ok(3) w
      by (auto simp: futex_frame queue_ok_def waiter_ok_def Let_def)
  qed
  have W: "waiters s' = waiters (fold (requeue_one ?src ?dst ua2) R (fold mark_woken H (fs W)))"
    by (simp add: ok(2) futex_frame)
  let ?f = "\<lambda>n. if ?src = ?dst then n\<lparr>w_uaddr := ua2\<rparr> else moved_waiter ?dst ua2 n"
  have f: "waiters s' = (\<lambda>w. if w \<in> set R then ?f (waiters (fold mark_woken H (fs W)) w)
      else waiters (fold mark_woken H (fs W)) w)"
  proof (cases "?src = ?dst")
    case True
    show ?thesis
      unfolding W if_P [OF True] unfolding True
      using fold_requeue_same [OF dR, of ?dst ua2 "fold mark_woken H (fs W)"] by blast
  next
    case False
    show ?thesis
      unfolding W if_not_P [OF False]
      using fold_requeue_other [OF dR pb False futex_hash_lt futex_hash_lt, of ua2] by blast
  qed
  show "w \<in> set H \<Longrightarrow> waiters s' w = (waiters (fs W) w)\<lparr>woken := True\<rparr>"
    using disj by (auto simp: f futex_frame)
  show "w \<in> set R \<Longrightarrow> w_uaddr (waiters s' w) = ua2 \<and> woken (waiters s' w) = woken (waiters (fs W) w)"
    using disj by (auto simp: f futex_frame moved_waiter_def)
  show "w \<notin> set H \<Longrightarrow> w \<notin> set R \<Longrightarrow> waiters s' w = waiters (fs W) w"
    by (simp add: f futex_frame)
qed

lemma requeue_cards:
  assumes inv: "futex_inv W" and M: "M = {w \<in> asleep W. w_uaddr (waiters (fs W) w) = ua}"
    and H: "H = requeue_hits ua nw (fs W)" and R: "R = requeue_moves ua nw nr (fs W)"
  shows "set H \<union> set R \<subseteq> M" and "set H \<inter> set R = {}" and "card (set H) = length H" and "card (set R) = length R"
    and "length H = min (unat nw) (card M)" and "length R = min (unat nr) (card M - unat nw)"
proof -
  define L where "L = filter (\<lambda>w. w_uaddr (waiters (fs W) w) = ua) (chains (fs W) (futex_hash ua))"
  have dL: "distinct L" using futex_invD(1) [OF inv] by (simp add: L_def)
  have HL: "H = take (unat nw) L" "R = take (unat nr) (drop (unat nw) L)"
    by (simp_all add: H R requeue_hits_def requeue_moves_def L_def)
  have MeqL: "M = set L" using asleep_queued [OF inv, of _ "futex_hash ua"] by (auto simp: M L_def)
  then have cM: "card M = length L" using dL by (simp add: distinct_card)
  show "set H \<union> set R \<subseteq> M" unfolding MeqL HL by (auto dest!: in_set_takeD in_set_dropD)
  show "set H \<inter> set R = {}"
    using set_take_disj_set_drop_if_distinct [OF dL, of "unat nw" "unat nw"] unfolding HL by (auto dest: in_set_takeD)
  show "card (set H) = length H" "card (set R) = length R"
    unfolding HL by (rule distinct_card, simp add: dL)+
  show "length H = min (unat nw) (card M)" "length R = min (unat nr) (card M - unat nw)"
    by (simp_all add: HL cM)
qed

text \<open>
  C37. A FUTEX_REQUEUE that succeeds wakes up to the first count of the waiters asleep on
  the address and re-keys up to the second count of the rest to the new address, where
  they stay asleep; it reports the sum, and every other waiter is as before. Nobody is
  woken or lost on the way.
\<close>

theorem futex_requeue_exact:
  assumes "futex_run W" "futex_requeue ua nw nr ua2 do_cmp expected (fs W) = (Inr k, s')"
    and "M = {w \<in> asleep W. w_uaddr (waiters (fs W) w) = ua}"
  shows "\<exists>H R. H \<union> R \<subseteq> M \<and> H \<inter> R = {} \<and> card H = min (unat nw) (card M) \<and>
    card R = min (unat nr) (card M - unat nw) \<and> k = card H + card R \<and>
    asleep (W\<lparr>fs := s'\<rparr>) = asleep W - H \<and> (\<forall>w \<in> R. w_uaddr (waiters s' w) = ua2) \<and>
    (\<forall>w. w \<notin> H \<union> R \<longrightarrow> waiters s' w = waiters (fs W) w)"
proof -
  note inv = futex_run_inv [OF assms(1)]
  define H where "H = requeue_hits ua nw (fs W)"
  define R where "R = requeue_moves ua nw nr (fs W)"
  note c = requeue_cards [OF inv assms(3) H_def R_def]
    and q = requeue_waiters [OF inv assms(2) H_def R_def]
    and ok = futex_requeue_ok [OF futex_invD(1) [OF inv] assms(2) H_def R_def]
  have "woken (waiters s' w) \<longleftrightarrow> w \<in> set H \<or> woken (waiters (fs W) w)" for w
    using q [of w] by (cases "w \<in> set H"; cases "w \<in> set R") auto
  then have a: "asleep (W\<lparr>fs := s'\<rparr>) = asleep W - set H" by (auto simp: asleep_def)
  have u: "\<forall>w \<in> set R. w_uaddr (waiters s' w) = ua2"
    "\<forall>w. w \<notin> set H \<union> set R \<longrightarrow> waiters s' w = waiters (fs W) w"
    using q(2,3) by auto
  show ?thesis
    by (intro exI [of _ "set H"] exI [of _ "set R"] conjI) (use c a u ok(1) in auto)
qed

lemma sleeper_requeue: "futex_requeue 64 0 1 128 False 0 sleeper_state =
    (Inr 1, snd (futex_requeue 64 0 1 128 False 0 sleeper_state))"
  using hash_64
  by (simp add: futex_requeue_def Let_def futex_requeue_counts_valid_def FUTEX_COUNT_LIMIT_def
      futex_uaddr_is_aligned_def sleeper_fields futex_requeue_budget_def futex_requeue_step_def)

theorem futex_requeue_exact_witness:
  "\<exists>s' R. futex_requeue 64 0 1 128 False 0 sleeper_state = (Inr 1, s') \<and> card R = 1 \<and>
    (\<forall>w \<in> R. w_uaddr (waiters s' w) = 128)"
proof -
  have M: "{w \<in> asleep sleeper_world. w_uaddr (waiters (fs sleeper_world) w) = 64} = {0}"
    by (auto simp: asleep_def sleeper_world_def sleeper_fields split: if_splits)
  let ?s = "snd (futex_requeue 64 0 1 128 False 0 sleeper_state)"
  have r: "futex_requeue 64 0 1 128 False 0 (fs sleeper_world) = (Inr 1, ?s)"
    using sleeper_requeue by (simp add: sleeper_world_def)
  from futex_requeue_exact [OF sleeper_run r M [symmetric]]
  obtain H R where HR: "card R = min (unat (1 :: u32)) (card {0 :: nat} - unat (0 :: u32))"
    "\<forall>w \<in> R. w_uaddr (waiters ?s w) = 128"
    by (elim exE conjE) (rule that)
  then have "card R = 1" by simp
  then show ?thesis using sleeper_requeue HR(2) by blast
qed

end
