(* ===== verification/Futex_PI.thy ===== *)
theory Futex_PI
  imports Futex_Theorems
begin

text \<open>
  The PI lock protocol on one futex word: the guest's two compare-exchanges on the word
  interleaved with FUTEX_LOCK_PI, FUTEX_TRYLOCK_PI, FUTEX_UNLOCK_PI, the robust-list walk of
  a dying owner, and any other futex activity that leaves the word alone.

  The word is edited only by this protocol: that is the contract of PI futexes (futex(2)).
  A ghost field names the thread that holds the lock, from the edit that took it to its own
  edit that gives it up: an edit by another thread never ends a hold.
\<close>

section \<open>Steps\<close>

text \<open>
  A thread inside FUTEX_UNLOCK_PI has passed the owner check and not released yet; a dying
  one has read the word in its robust walk and not written it back.
\<close>

datatype busy = Unlocking | Dying u32

record pi_world =
  wd :: futex_world
  hold :: "u32 option"
  busy :: "u32 \<Rightarrow> busy option"

definition acquires :: "u32 \<Rightarrow> pi_next \<Rightarrow> u32 option \<Rightarrow> u32 option" where
  "acquires t r h = (if r = Pi_return (Inr 0) then Some t else h)"

definition releases :: "u32 \<Rightarrow> u32 option \<Rightarrow> u32 option" where
  "releases t h = (if h = Some t then None else h)"

definition put :: "u64 \<Rightarrow> u32 \<Rightarrow> futex_state \<Rightarrow> futex_state" where
  "put a v s = s\<lparr>mem := (mem s)(a \<mapsto> v)\<rparr>"

text \<open>The robust walk after its read of the word: the write and the wake.\<close>

definition robust_write :: "u64 \<Rightarrow> u32 \<Rightarrow> futex_state \<Rightarrow> futex_state" where
  "robust_write a v s = futex_wake_owner_died a (put a (futex_pi_mark_owner_died v) s)"

inductive pi_step :: "u64 \<Rightarrow> pi_world \<Rightarrow> pi_world \<Rightarrow> bool" for a where
  other: "futex_step (wd P) W' \<Longrightarrow> mem (fs W') a = mem (fs (wd P)) a \<Longrightarrow> pi_step a P (P\<lparr>wd := W'\<rparr>)"
| guest_lock: "tid_ok t \<Longrightarrow> busy P t = None \<Longrightarrow> mem (fs (wd P)) a = Some 0 \<Longrightarrow>
    pi_step a P (P\<lparr>wd := (wd P)\<lparr>fs := put a t (fs (wd P))\<rparr>, hold := Some t\<rparr>)"
| guest_unlock: "hold P = Some t \<Longrightarrow> busy P t = None \<Longrightarrow> mem (fs (wd P)) a = Some t \<Longrightarrow>
    pi_step a P (P\<lparr>wd := (wd P)\<lparr>fs := put a 0 (fs (wd P))\<rparr>, hold := None\<rparr>)"
| lock_fast: "tid_ok t \<Longrightarrow> busy P t = None \<Longrightarrow> phase (wd P) w = Owing (futex_hash a) \<Longrightarrow>
    lock_pi_fast alive t a (fs (wd P)) = (r, s') \<Longrightarrow>
    pi_step a P (P\<lparr>wd := (wd P)\<lparr>fs := s'\<rparr>, hold := acquires t r (hold P)\<rparr>)"
| lock_window: "tid_ok t \<Longrightarrow> busy P t = None \<Longrightarrow> phase (wd P) w = Owing (futex_hash a) \<Longrightarrow>
    lock_pi_window w t a (fs (wd P)) = (r, s') \<Longrightarrow>
    pi_step a P (P\<lparr>wd := (if r = Pi_parked then at w (Parked_pi a) s' (wd P) else (wd P)\<lparr>fs := s'\<rparr>),
                   hold := acquires t r (hold P)\<rparr>)"
| lock_leave: "phase (wd P) w = Parked_pi a \<Longrightarrow>
    pi_step a P (P\<lparr>wd := at w (Owing (futex_hash a)) (lock_pi_leave w a rc (fs (wd P))) (wd P)\<rparr>)"
| trylock_word: "tid_ok t \<Longrightarrow> busy P t = None \<Longrightarrow> futex_trylock_pi t a (fs (wd P)) = (r, s') \<Longrightarrow>
    pi_step a P (P\<lparr>wd := (wd P)\<lparr>fs := s'\<rparr>, hold := acquires t (Pi_return r) (hold P)\<rparr>)"
| unlock_begin: "busy P t = None \<Longrightarrow> tid_ok t \<Longrightarrow> unlock_pi_check t a (fs (wd P)) = None \<Longrightarrow>
    pi_step a P (P\<lparr>busy := (busy P)(t \<mapsto> Unlocking)\<rparr>)"
| unlock_end: "busy P t = Some Unlocking \<Longrightarrow> unlock_pi_release a (fs (wd P)) = (Inr 0, s') \<Longrightarrow>
    pi_step a P (P\<lparr>wd := (wd P)\<lparr>fs := s'\<rparr>, hold := releases t (hold P), busy := (busy P)(t := None)\<rparr>)"
| die_read: "busy P t = None \<Longrightarrow> mem (fs (wd P)) a = Some v \<Longrightarrow> futex_pi_owner_tid v = t \<Longrightarrow> tid_ok t \<Longrightarrow>
    pi_step a P (P\<lparr>busy := (busy P)(t \<mapsto> Dying v)\<rparr>)"
| die_write: "busy P t = Some (Dying v) \<Longrightarrow>
    pi_step a P (P\<lparr>wd := (wd P)\<lparr>fs := robust_write a v (fs (wd P))\<rparr>, hold := releases t (hold P), busy := (busy P)(t := None)\<rparr>)"

text \<open>The lock starts free, with no thread inside a call on it.\<close>

definition pi_boot :: "u64 \<Rightarrow> pi_world \<Rightarrow> bool" where
  "pi_boot a P \<longleftrightarrow> futex_boot (wd P) \<and> futex_uaddr_is_aligned a \<and> mem (fs (wd P)) a = Some 0
     \<and> hold P = None \<and> busy P = Map.empty"

inductive pi_run :: "u64 \<Rightarrow> pi_world \<Rightarrow> bool" for a where
  boot: "pi_boot a P \<Longrightarrow> pi_run a P"
| next_step: "pi_run a P \<Longrightarrow> pi_step a P P' \<Longrightarrow> pi_run a P'"

section \<open>The invariant\<close>

definition pi_queued :: "u64 \<Rightarrow> futex_world \<Rightarrow> wid set" where
  "pi_queued a W = {w. phase W w = Parked_pi a \<and> \<not> woken (waiters (fs W) w)}"

definition contended :: "u32 \<Rightarrow> bool" where
  "contended v \<longleftrightarrow> futex_pi_has_waiters v \<or> futex_pi_unowned v \<and> v \<noteq> 0"

definition owned_by :: "u32 \<Rightarrow> u32 option \<Rightarrow> bool" where
  "owned_by v h \<longleftrightarrow> (case h of None \<Rightarrow> futex_pi_owner_tid v = 0 | Some t \<Rightarrow> tid_ok t \<and> futex_pi_owner_tid v = t)"

definition pi_inv :: "u64 \<Rightarrow> pi_world \<Rightarrow> bool" where
  "pi_inv a P \<longleftrightarrow>
     futex_inv (wd P) \<and> futex_uaddr_is_aligned a \<and>
     (\<exists>v. mem (fs (wd P)) a = Some v \<and> owned_by v (hold P) \<and> (pi_queued a (wd P) \<noteq> {} \<longrightarrow> contended v)) \<and>
     (\<forall>t. busy P t \<noteq> None \<longrightarrow> hold P = Some t)"

section \<open>A wake is never taken back\<close>

definition keeps_woken :: "futex_state \<Rightarrow> futex_state \<Rightarrow> bool" where
  "keeps_woken s s' \<longleftrightarrow> (\<forall>w. woken (waiters s w) \<longrightarrow> woken (waiters s' w))"

lemma keeps_woken_same: "same_queues s s' \<Longrightarrow> keeps_woken s s'"
  by (simp add: keeps_woken_def same_queues_def)

lemma keeps_woken_trans: "keeps_woken s s' \<Longrightarrow> keeps_woken s' s'' \<Longrightarrow> keeps_woken s s''"
  by (simp add: keeps_woken_def)

lemma keeps_woken_bucket: "wake_bucket b m n s = (k, s') \<Longrightarrow> keeps_woken s s'"
  by (auto simp: wake_bucket_def keeps_woken_def futex_frame split: prod.splits)

lemma keeps_woken_first: "keeps_woken s (futex_wake_first_locked b ua s)"
  unfolding futex_wake_first_locked_def by (rule keeps_woken_bucket [OF surjective_pairing])

lemma keeps_woken_wake: "futex_wake ua val bs s = (r, s') \<Longrightarrow> keeps_woken s s'"
  by (auto simp: futex_wake_def Let_def keeps_woken_same split: if_splits prod.splits dest: keeps_woken_bucket)

lemma keeps_woken_wake_op: "futex_wake_op ua val ua2 val2 val3 s = (r, s') \<Longrightarrow> keeps_woken s s'"
  by (auto simp: futex_wake_op_def Let_def keeps_woken_same split: if_splits prod.splits option.splits
      dest!: keeps_woken_bucket same_queues_update dest: keeps_woken_same keeps_woken_trans)

lemma keeps_woken_requeue:
  assumes "futex_inv W" "futex_requeue ua nw nr ua2 c e (fs W) = (r, s')"
  shows "keeps_woken (fs W) s'"
proof (cases r)
  case (Inl x)
  then have "s' = fs W" using assms(2) by (auto dest: futex_requeue_err)
  then show ?thesis by (simp add: keeps_woken_def)
next
  case (Inr k)
  then have r: "futex_requeue ua nw nr ua2 c e (fs W) = (Inr k, s')" using assms(2) by simp
  have "woken (waiters s' w)" if "woken (waiters (fs W) w)" for w
    using that requeue_waiters [OF assms(1) r refl refl, of w]
    by (cases "w \<in> set (requeue_hits ua nw (fs W))"; cases "w \<in> set (requeue_moves ua nw nr (fs W))") auto
  then show ?thesis by (simp add: keeps_woken_def)
qed

lemma keeps_woken_unlock: "unlock_pi_release ua s = (r, s') \<Longrightarrow> keeps_woken s s'"
  using keeps_woken_first [of s "futex_hash ua" ua]
  by (auto simp: unlock_pi_release_def Let_def split: option.splits
      dest!: same_queues_update dest: keeps_woken_same keeps_woken_trans)

lemma keeps_woken_robust: "keeps_woken s (robust_mark tid gva s)"
proof -
  have "keeps_woken s (futex_wake_owner_died gva (s\<lparr>mem := m\<rparr>))" for m
    unfolding futex_wake_owner_died_def
    by (rule keeps_woken_trans [OF keeps_woken_same keeps_woken_first]) simp
  then show ?thesis
    by (simp add: robust_mark_def keeps_woken_same split: option.splits)
qed

text \<open>A step queues a PI waiter on an address only through the window that marks the word.\<close>

lemma step_pi_queued:
  assumes "futex_step W W'" "futex_inv W" "w \<in> pi_queued a W'"
  shows "w \<in> pi_queued a W \<or> (\<exists>tid. lock_pi_window w tid a (fs W) = (Pi_parked, fs W'))"
  using assms
proof (induction rule: futex_step.induct)
  case (requeue ua nw nr ua2 do_cmp expected W r s')
  then show ?case using keeps_woken_requeue [of W] by (auto simp: pi_queued_def keeps_woken_def)
next
  case (park W w' ua expected bitset g s')
  then show ?case
    by (auto simp: pi_queued_def at_def futex_wait_enqueue_def Let_def enqueue_def futex_frame
        split: option.splits if_splits)
next
  case (pi_window W w' ua tid r s')
  then show ?case
    using lock_pi_window_cases [OF pi_window.hyps(2)]
    by (auto simp: pi_queued_def at_def same_queues_def enqueue_def futex_frame split: if_splits)
qed (auto simp: pi_queued_def at_def futex_charge_def futex_discharge_def futex_frame futex_wait_leave_def Let_def
    waitv_unlink_def bucket_unlink_locked_def lock_pi_leave_def same_queues_clear [unfolded same_queues_def]
    split: if_splits
    dest!: keeps_woken_wake keeps_woken_wake_op keeps_woken_unlock same_queues_lock_pi_fast same_queues_trylock
    dest: keeps_woken_robust [unfolded keeps_woken_def, rule_format]
    simp: keeps_woken_def same_queues_def)

section \<open>Reading an aligned word\<close>

lemma aligned_offset:
  assumes "a AND m = (0 :: u64)" "k AND m = k"
  shows "(a + k) AND NOT m = a" and "(a + k) AND m = k"
proof -
  have a: "\<not> (bit a n \<and> bit m n)" for n
  proof
    assume "bit a n \<and> bit m n"
    then have "bit (a AND m) n" by (simp add: bit_and_iff)
    then show False by (simp add: assms(1))
  qed
  have k: "bit k n \<Longrightarrow> bit m n" for n
    using assms(2) by (metis bit_and_iff)
  have "a AND k = 0"
    by (rule bit_eqI) (use a k in \<open>auto simp: bit_and_iff\<close>)
  then have s: "a + k = a OR k" by (rule disjunctive_add_eq_or)
  show "(a + k) AND NOT m = a" unfolding s
    by (rule bit_eqI) (use a k in \<open>auto simp: bit_and_iff bit_or_iff bit_not_iff dest: bit_imp_le_length\<close>)
  show "(a + k) AND m = k" unfolding s
    by (rule bit_eqI) (use a k in \<open>auto simp: bit_and_iff bit_or_iff\<close>)
qed

lemma load_aligned:
  assumes "futex_uaddr_is_aligned a"
  shows "load_bytes s a 4 = map_option ucast (mem s a)"
proof -
  have a: "a AND 3 = 0" using assms by (simp add: futex_uaddr_is_aligned_def)
  have k: "load_byte s (a + k) = map_option (\<lambda>v. ucast (drop_bit (8 * unat k) v)) (mem s a)" if "k AND 3 = k" for k
    unfolding load_byte_def aligned_offset [OF a that] by (rule refl)
  have b: "load_byte s a = map_option (\<lambda>v. ucast v) (mem s a)"
    "load_byte s (a + 1) = map_option (\<lambda>v. ucast (drop_bit 8 v)) (mem s a)"
    "load_byte s (a + 2) = map_option (\<lambda>v. ucast (drop_bit 16 v)) (mem s a)"
    "load_byte s (a + 3) = map_option (\<lambda>v. ucast (drop_bit 24 v)) (mem s a)"
    using k [of 0] k [of 1] k [of 2] k [of 3] by simp_all
  have w: "(ucast (ucast v :: u8) :: u64) OR push_bit 8 (ucast (ucast (drop_bit 8 v) :: u8)) OR
      push_bit 16 (ucast (ucast (drop_bit 16 v) :: u8)) OR push_bit 24 (ucast (ucast (drop_bit 24 v) :: u8)) = ucast v"
    for v :: u32
  proof (rule bit_eqI)
    fix n :: nat
    consider "n < 8" | "8 \<le> n" "n < 16" | "16 \<le> n" "n < 24" | "24 \<le> n" "n < 32" | "32 \<le> n" by linarith
    then show "bit ((ucast (ucast v :: u8) :: u64) OR push_bit 8 (ucast (ucast (drop_bit 8 v) :: u8)) OR
      push_bit 16 (ucast (ucast (drop_bit 16 v) :: u8)) OR push_bit 24 (ucast (ucast (drop_bit 24 v) :: u8))) n =
      bit (ucast v :: u64) n"
      using bit_imp_le_length [of v n]
      by cases (auto simp: bit_or_iff bit_push_bit_iff bit_unsigned_iff bit_ucast_iff bit_drop_bit_eq)
  qed
  have "load_bytes s a (Suc (Suc (Suc (Suc 0)))) = map_option ucast (mem s a)"
    by (cases "mem s a") (simp_all add: b add.assoc w)
  moreover have "(4 :: nat) = Suc (Suc (Suc (Suc 0)))" by simp
  ultimately show ?thesis by (simp only:)
qed

lemma unlock_check_owner:
  assumes "unlock_pi_check t a s = None" "mem s a = Some v"
  shows "futex_pi_owner_tid v = t"
proof -
  have al: "futex_uaddr_is_aligned a"
    using assms(1) by (auto simp: unlock_pi_check_def split: option.splits if_splits)
  have "ucast (ucast v :: u64) = v" by (rule bit_eqI) (auto simp: bit_ucast_iff bit_unsigned_iff)
  then show ?thesis
    using assms by (auto simp: unlock_pi_check_def load_aligned [OF al] split: if_splits)
qed

text \<open>The walk's treatment of one entry is the read and the write of the step relation.\<close>

lemma robust_mark_split:
  assumes "futex_uaddr_is_aligned a"
  shows "robust_mark t a s =
    (case mem s a of
       Some v \<Rightarrow> if futex_pi_owner_tid v = t \<and> writable s a then robust_write a v s else s
     | None \<Rightarrow> s)"
proof -
  have "ucast (ucast v :: u64) = v" for v :: u32 by (rule bit_eqI) (auto simp: bit_ucast_iff bit_unsigned_iff)
  then show ?thesis
    by (simp add: robust_mark_def load_aligned [OF assms] robust_write_def put_def split: option.splits)
qed

section \<open>Every step keeps the invariant\<close>

lemma put_mem [simp]: "mem (put a v s) = (mem s)(a \<mapsto> v)" "same_queues s (put a v s)" "waiters (put a v s) = waiters s"
  by (simp_all add: put_def)

lemma tid_not_contended: "tid_ok t \<Longrightarrow> \<not> contended t"
proof -
  assume t: "tid_ok t"
  have "\<not> bit t 31"
  proof
    assume "bit t 31"
    then have "bit (t AND FUTEX_PI_TID_MASK) 31" using t by (simp add: tid_ok_def)
    then show False by (simp add: pi_bits)
  qed
  then show ?thesis
    using t by (auto simp: contended_def has_waiters_bit unowned_owner pi_word tid_ok_def)
qed

lemma contended_words [pi_word]:
  "\<not> contended 0" "contended (futex_pi_set_waiters v)" "contended FUTEX_PI_WAITERS" "contended (futex_pi_mark_owner_died v)"
  by (simp_all add: contended_def pi_word unowned_owner)

lemma owned_unowned: "owned_by v h \<Longrightarrow> futex_pi_owner_tid v = 0 \<Longrightarrow> h = None"
  by (auto simp: owned_by_def tid_ok_def split: option.splits)

lemma pi_queued_sub:
  "phase W' = phase W \<Longrightarrow> keeps_woken (fs W) (fs W') \<Longrightarrow> pi_queued a W' \<subseteq> pi_queued a W"
  by (auto simp: pi_queued_def keeps_woken_def)

lemma pi_queued_same: "same_queues (fs W) s' \<Longrightarrow> pi_queued a (W\<lparr>fs := s'\<rparr>) = pi_queued a W"
  by (simp add: pi_queued_def same_queues_def)

lemma pi_queued_has:
  assumes "futex_inv W" "pi_queued a W \<noteq> {}"
  shows "bucket_has_uaddr_locked (futex_hash a) a (fs W)"
proof -
  obtain w where w: "phase W w = Parked_pi a" "\<not> woken (waiters (fs W) w)"
    using assms(2) by (auto simp: pi_queued_def)
  then show ?thesis
    using futex_invD(3) [OF assms(1), of w]
    by (auto simp: waiter_ok_def Let_def bucket_has_uaddr_locked_def list_ex_iff)
qed

lemma pi_invE:
  assumes "pi_inv a P"
  obtains v where "futex_inv (wd P)" "futex_uaddr_is_aligned a" "mem (fs (wd P)) a = Some v" "owned_by v (hold P)"
    "pi_queued a (wd P) \<noteq> {} \<longrightarrow> contended v" "\<forall>t. busy P t \<noteq> None \<longrightarrow> hold P = Some t"
  using assms unfolding pi_inv_def by blast

lemma pi_invI:
  assumes "futex_inv (wd P)" "futex_uaddr_is_aligned a" "mem (fs (wd P)) a = Some v" "owned_by v (hold P)"
    "pi_queued a (wd P) \<noteq> {} \<Longrightarrow> contended v" "\<And>t. busy P t \<noteq> None \<Longrightarrow> hold P = Some t"
  shows "pi_inv a P"
  using assms unfolding pi_inv_def by blast

text \<open>Taking a free word, from the guest or in the kernel.\<close>

lemma take_free_inv:
  assumes "pi_inv a P" "tid_ok t" "mem (fs (wd P)) a = Some 0"
  shows "pi_inv a (P\<lparr>wd := (wd P)\<lparr>fs := put a t (fs (wd P))\<rparr>, hold := Some t\<rparr>)"
proof -
  obtain v where v: "futex_inv (wd P)" "futex_uaddr_is_aligned a" "mem (fs (wd P)) a = Some v" "owned_by v (hold P)"
    "pi_queued a (wd P) \<noteq> {} \<longrightarrow> contended v" "\<forall>t. busy P t \<noteq> None \<longrightarrow> hold P = Some t"
    using assms(1) by (rule pi_invE)
  have h: "hold P = None" using assms(3) v(3) owned_unowned [OF v(4)] by (simp add: pi_word)
  show ?thesis
  proof (rule pi_invI [of _ _ t])
    show "futex_inv (wd (P\<lparr>wd := (wd P)\<lparr>fs := put a t (fs (wd P))\<rparr>, hold := Some t\<rparr>))"
      using same_queues_inv [OF v(1) put_mem(2)] by simp
    show "\<And>u. busy (P\<lparr>wd := (wd P)\<lparr>fs := put a t (fs (wd P))\<rparr>, hold := Some t\<rparr>) u \<noteq> None \<Longrightarrow>
        hold (P\<lparr>wd := (wd P)\<lparr>fs := put a t (fs (wd P))\<rparr>, hold := Some t\<rparr>) = Some u"
      using v(6) h by fastforce
  qed (use v(2,3,5) assms(2,3) in \<open>auto simp: owned_by_def pi_word pi_queued_same\<close>)
qed

lemma cas_free:
  "futex_word_cas a 0 t s = Some (won, seen, s') \<Longrightarrow> mem s a = Some seen \<and> (if won then seen = 0 \<and> s' = put a t s else s' = s)"
  by (auto simp: futex_word_cas_def put_def split: option.splits if_splits)

lemma lock_fast_cases:
  assumes "lock_pi_fast alive t a s = (r, s')"
  shows "r = Pi_return (Inr 0) \<and> mem s a = Some 0 \<and> s' = put a t s \<or> r \<noteq> Pi_return (Inr 0) \<and> s' = s"
  using assms by (auto simp: lock_pi_fast_def split: option.splits prod.splits bool.splits if_splits dest!: cas_free)

lemma trylock_cases:
  assumes "futex_trylock_pi t a s = (r, s')"
  shows "r = Inr 0 \<and> mem s a = Some 0 \<and> s' = put a t s \<or> r \<noteq> Inr 0 \<and> s' = s"
  using assms by (auto simp: futex_trylock_pi_def split: option.splits prod.splits if_splits dest!: cas_free)

lemma lock_window_cases:
  assumes "lock_pi_window w t a s = (r, s')" "mem s a = Some v"
  shows "futex_pi_unowned v \<and> v \<noteq> 0 \<and> r = Pi_return (Inr 0) \<and>
      s' = put a (if bucket_has_uaddr_locked (futex_hash a) a s
                  then futex_pi_set_waiters (t OR (v AND FUTEX_PI_OWNER_DIED)) else t OR (v AND FUTEX_PI_OWNER_DIED)) s
    \<or> v = 0 \<and> r = Pi_retry \<and> s' = s
    \<or> \<not> futex_pi_unowned v \<and> r = Pi_parked \<and>
      s' = enqueue w (pi_waiter a) (futex_hash a) (if futex_pi_has_waiters v then s else put a (futex_pi_set_waiters v) s)"
  using assms
  by (auto simp: lock_pi_window_def Let_def futex_word_load_def futex_word_cas_def put_def split: if_splits)

lemma lock_window_inv:
  assumes inv: "pi_inv a P" and t: "tid_ok t" and ph: "phase (wd P) w = Owing (futex_hash a)"
    and l: "lock_pi_window w t a (fs (wd P)) = (r, s')"
  shows "pi_inv a (P\<lparr>wd := (if r = Pi_parked then at w (Parked_pi a) s' (wd P) else (wd P)\<lparr>fs := s'\<rparr>),
                   hold := acquires t r (hold P)\<rparr>)" (is "pi_inv a ?P")
proof -
  obtain v where v: "futex_inv (wd P)" "futex_uaddr_is_aligned a" "mem (fs (wd P)) a = Some v" "owned_by v (hold P)"
    "pi_queued a (wd P) \<noteq> {} \<longrightarrow> contended v" "\<forall>t. busy P t \<noteq> None \<longrightarrow> hold P = Some t"
    using inv by (rule pi_invE)
  have W: "futex_inv (wd ?P)" using pi_window_inv [OF v(1) ph l] by simp
  show ?thesis
    using lock_window_cases [OF l v(3)]
  proof (elim disjE conjE)
    assume u: "futex_pi_unowned v" "v \<noteq> 0" and r: "r = Pi_return (Inr 0)"
      and s': "s' = put a (if bucket_has_uaddr_locked (futex_hash a) a (fs (wd P))
                  then futex_pi_set_waiters (t OR (v AND FUTEX_PI_OWNER_DIED)) else t OR (v AND FUTEX_PI_OWNER_DIED)) (fs (wd P))"
    have h: "hold P = None" using u(1) owned_unowned [OF v(4)] by (simp add: unowned_owner)
    show ?thesis
      by (rule pi_invI [OF W v(2)])
        (use t r s' h v(6) pi_queued_has [OF v(1), of a] in
          \<open>auto simp: acquires_def owned_by_def pi_word pi_queued_same\<close>)
  next
    assume "v = 0" "r = Pi_retry" "s' = fs (wd P)"
    then show ?thesis using inv by (simp add: acquires_def)
  next
    assume o: "\<not> futex_pi_unowned v" and r: "r = Pi_parked" and s': "s' = enqueue w (pi_waiter a) (futex_hash a)
        (if futex_pi_has_waiters v then fs (wd P) else put a (futex_pi_set_waiters v) (fs (wd P)))"
    have m: "mem s' a = Some (if futex_pi_has_waiters v then v else futex_pi_set_waiters v)"
      using v(3) by (simp add: s' enqueue_def futex_frame)
    show ?thesis
      by (rule pi_invI [OF W v(2), of "if futex_pi_has_waiters v then v else futex_pi_set_waiters v"])
        (use r m v(4,6) in \<open>auto simp: acquires_def at_def owned_by_def pi_word contended_def split: option.splits\<close>)
  qed
qed

lemma lock_leave_inv:
  assumes inv: "pi_inv a P" and ph: "phase (wd P) w = Parked_pi a"
  shows "pi_inv a (P\<lparr>wd := at w (Owing (futex_hash a)) (lock_pi_leave w a rc (fs (wd P))) (wd P)\<rparr>)" (is "pi_inv a ?P")
proof -
  obtain v where v: "futex_inv (wd P)" "futex_uaddr_is_aligned a" "mem (fs (wd P)) a = Some v" "owned_by v (hold P)"
    "pi_queued a (wd P) \<noteq> {} \<longrightarrow> contended v" "\<forall>t. busy P t \<noteq> None \<longrightarrow> hold P = Some t"
    using inv by (rule pi_invE)
  let ?s1 = "bucket_unlink_locked (futex_hash a) w (fs (wd P))"
  let ?clear = "rc = Some FX_ETIMEDOUT \<and> \<not> bucket_has_uaddr_locked (futex_hash a) a ?s1"
  let ?s' = "lock_pi_leave w a rc (fs (wd P))"
  have W: "futex_inv (wd ?P)" using pi_leave_inv [OF v(1) ph] by simp
  have m1: "mem ?s1 a = Some v" "waiters ?s1 = waiters (fs (wd P))"
    using v(3) by (simp_all add: bucket_unlink_locked_def futex_frame)
  have q: "same_queues ?s1 ?s'"
    by (simp add: lock_pi_leave_def Let_def same_queues_clear)
  have m: "mem ?s' a = Some (if ?clear \<and> futex_pi_has_waiters v then futex_pi_clear_waiters v else v)"
    using m1 by (simp add: lock_pi_leave_def Let_def futex_clear_waiters_bit_def futex_word_load_def futex_word_cas_def)
  have sub: "pi_queued a (wd ?P) \<subseteq> pi_queued a (wd P)"
    using q m1(2) by (auto simp: pi_queued_def at_def same_queues_def split: if_splits)
  have e: "pi_queued a (wd ?P) = {}" if ?clear
  proof (rule ccontr)
    assume "pi_queued a (wd ?P) \<noteq> {}"
    then have "bucket_has_uaddr_locked (futex_hash a) a ?s'"
      using pi_queued_has [OF W] by (simp add: at_def)
    then show False using that q by (simp add: bucket_has_uaddr_locked_def same_queues_def)
  qed
  show ?thesis
    by (rule pi_invI [OF W v(2), of "if ?clear \<and> futex_pi_has_waiters v then futex_pi_clear_waiters v else v"])
      (use m v(4,5,6) sub e in \<open>auto simp: at_def owned_by_def pi_word split: option.splits if_splits\<close>)
qed

lemma wake_first_mem: "mem (futex_wake_first_locked b ua s) = mem s"
  by (simp add: futex_wake_first_locked_def wake_bucket_def futex_frame split: prod.splits)

lemma unlock_end_inv:
  assumes inv: "pi_inv a P" and b: "busy P t = Some Unlocking" and u: "unlock_pi_release a (fs (wd P)) = (Inr 0, s')"
  shows "pi_inv a (P\<lparr>wd := (wd P)\<lparr>fs := s'\<rparr>, hold := releases t (hold P), busy := (busy P)(t := None)\<rparr>)" (is "pi_inv a ?P")
proof -
  obtain v where v: "futex_inv (wd P)" "futex_uaddr_is_aligned a" "mem (fs (wd P)) a = Some v" "owned_by v (hold P)"
    "pi_queued a (wd P) \<noteq> {} \<longrightarrow> contended v" "\<forall>t. busy P t \<noteq> None \<longrightarrow> hold P = Some t"
    using inv by (rule pi_invE)
  let ?s1 = "futex_wake_first_locked (futex_hash a) a (fs (wd P))"
  have h: "hold P = Some t" using v(6) b by auto
  have s': "s' = put a (if bucket_has_uaddr_locked (futex_hash a) a ?s1 then FUTEX_PI_WAITERS else 0) ?s1"
    using u v(3) by (auto simp: unlock_pi_release_def Let_def futex_word_update_def futex_word_load_def
        futex_word_cas_def wake_first_mem put_def)
  have W: "futex_inv (wd ?P)" using unlock_inv [OF v(1) u] by simp
  have "bucket_has_uaddr_locked (futex_hash a) a ?s1" if "pi_queued a (wd ?P) \<noteq> {}"
    using pi_queued_has [OF W that] by (simp add: s' bucket_has_uaddr_locked_def put_def)
  then show ?thesis
    by (intro pi_invI [OF W v(2)]) (use v(6) h in \<open>auto simp: s' releases_def owned_by_def pi_word split: if_splits\<close>)
qed

lemma die_write_inv:
  assumes inv: "pi_inv a P" and b: "busy P t = Some (Dying v0)"
  shows "pi_inv a (P\<lparr>wd := (wd P)\<lparr>fs := robust_write a v0 (fs (wd P))\<rparr>, hold := releases t (hold P), busy := (busy P)(t := None)\<rparr>)"
    (is "pi_inv a ?P")
proof -
  obtain v where v: "futex_inv (wd P)" "futex_uaddr_is_aligned a" "mem (fs (wd P)) a = Some v" "owned_by v (hold P)"
    "pi_queued a (wd P) \<noteq> {} \<longrightarrow> contended v" "\<forall>t. busy P t \<noteq> None \<longrightarrow> hold P = Some t"
    using inv by (rule pi_invE)
  have "hold P = Some t" using v(6) b by auto
  moreover have W: "futex_inv (wd ?P)"
    using wake_first_inv [OF same_queues_inv [OF v(1) put_mem(2)], of "futex_hash a" a]
    by (simp add: robust_write_def futex_wake_owner_died_def)
  ultimately show ?thesis
    by (intro pi_invI [OF W v(2)])
      (use v(6) in \<open>auto simp: robust_write_def futex_wake_owner_died_def wake_first_mem releases_def owned_by_def pi_word split: if_splits\<close>)
qed

lemma other_inv:
  assumes inv: "pi_inv a P" and s: "futex_step (wd P) W'" and m: "mem (fs W') a = mem (fs (wd P)) a"
  shows "pi_inv a (P\<lparr>wd := W'\<rparr>)"
proof -
  obtain v where v: "futex_inv (wd P)" "futex_uaddr_is_aligned a" "mem (fs (wd P)) a = Some v" "owned_by v (hold P)"
    "pi_queued a (wd P) \<noteq> {} \<longrightarrow> contended v" "\<forall>t. busy P t \<noteq> None \<longrightarrow> hold P = Some t"
    using inv by (rule pi_invE)
  have "contended v" if q: "pi_queued a W' \<noteq> {}"
  proof -
    obtain w where "w \<in> pi_queued a W'" using q by blast
    then consider "w \<in> pi_queued a (wd P)" | tid where "lock_pi_window w tid a (fs (wd P)) = (Pi_parked, fs W')"
      using step_pi_queued [OF s v(1)] by blast
    then show ?thesis
    proof cases
      case 2
      then show ?thesis
        using lock_window_cases [OF 2 v(3)] m v(3) set_waiters_has [of v]
        by (auto simp: contended_def enqueue_def futex_frame split: if_splits)
    qed (use v(5) in blast)
  qed
  then show ?thesis
    by (intro pi_invI [of _ _ v]) (use futex_step_inv [OF s v(1)] v m in auto)
qed

lemma pi_step_inv: "pi_step a P P' \<Longrightarrow> pi_inv a P \<Longrightarrow> pi_inv a P'"
proof (induction rule: pi_step.induct)
  case (guest_unlock P t)
  obtain v where v: "futex_inv (wd P)" "futex_uaddr_is_aligned a" "mem (fs (wd P)) a = Some v" "owned_by v (hold P)"
    "pi_queued a (wd P) \<noteq> {} \<longrightarrow> contended v" "\<forall>t. busy P t \<noteq> None \<longrightarrow> hold P = Some t"
    using guest_unlock.prems by (rule pi_invE)
  have "tid_ok t" using v(4) guest_unlock.hyps(1) by (simp add: owned_by_def)
  then have "pi_queued a (wd P) = {}" using v(3,5) guest_unlock.hyps(3) tid_not_contended by auto
  then show ?case
    using same_queues_inv [OF v(1) put_mem(2), of a 0] v(2,6) guest_unlock.hyps(1,2)
    by (intro pi_invI [of _ _ 0]) (auto simp: owned_by_def pi_word pi_queued_same)
next
  case (lock_fast t P w alive r s')
  show ?case
    using lock_fast_cases [OF lock_fast.hyps(4)] lock_fast.prems take_free_inv [OF lock_fast.prems lock_fast.hyps(1)]
    by (auto simp: acquires_def)
next
  case (trylock_word t P r s')
  show ?case
    using trylock_cases [OF trylock_word.hyps(3)] trylock_word.prems take_free_inv [OF trylock_word.prems trylock_word.hyps(1)]
    by (auto simp: acquires_def)
next
  case (lock_window t P w r s')
  then show ?case by (intro lock_window_inv)
next
  case (unlock_begin P t)
  then show ?case
    using unlock_check_owner [of t a "fs (wd P)"] by (auto simp: pi_inv_def owned_by_def tid_ok_def split: option.splits)
next
  case (die_read P t v)
  then show ?case by (auto simp: pi_inv_def owned_by_def tid_ok_def split: option.splits)
qed (auto intro: other_inv take_free_inv lock_leave_inv unlock_end_inv die_write_inv simp del: if_split)

lemma pi_run_inv: "pi_run a P \<Longrightarrow> pi_inv a P"
proof (induction rule: pi_run.induct)
  case (boot P)
  then show ?case
    by (intro pi_invI [of _ _ 0]) (auto simp: pi_boot_def futex_boot_inv owned_by_def pi_word pi_queued_def futex_boot_def)
qed (rule pi_step_inv)

section \<open>An example run\<close>

text \<open>Thread 1 takes the free lock at address 128 in guest code; thread 2 calls FUTEX_LOCK_PI and parks.\<close>

definition pi0 :: pi_world where
  "pi0 = \<lparr>wd = world0, hold = None, busy = Map.empty\<rparr>"

definition pi1 :: pi_world where
  "pi1 = pi0\<lparr>wd := world0\<lparr>fs := put 128 1 futex0\<rparr>, hold := Some 1\<rparr>"

definition pi2 :: pi_world where
  "pi2 = pi1\<lparr>wd := at 5 (Owing (futex_hash 128)) (futex_charge 128 (fs (wd pi1))) (wd pi1)\<rparr>"

definition pi3_state :: futex_state where
  "pi3_state = enqueue 5 (pi_waiter 128) (futex_hash 128) (put 128 (futex_pi_set_waiters 1) (fs (wd pi2)))"

definition pi3 :: pi_world where
  "pi3 = pi2\<lparr>wd := at 5 (Parked_pi 128) pi3_state (wd pi2)\<rparr>"

lemma tid_ok_12: "tid_ok 1" "tid_ok 2"
  by (simp_all add: tid_ok_def FUTEX_PI_TID_MASK_def)

lemma pi0_run: "pi_run 128 pi0"
  by (rule pi_run.boot)
    (simp add: pi_boot_def pi0_def futex_boot_def world0_def futex0_def futex_uaddr_is_aligned_def)

lemma pi1_step: "pi_step 128 pi0 pi1"
proof -
  have "pi_step 128 pi0 (pi0\<lparr>wd := (wd pi0)\<lparr>fs := put 128 1 (fs (wd pi0))\<rparr>, hold := Some 1\<rparr>)"
    by (rule pi_step.guest_lock) (simp_all add: tid_ok_12 pi0_def world0_def futex0_def)
  then show ?thesis by (simp add: pi1_def pi0_def world0_def)
qed

lemma pi3_run: "pi_run 128 pi3"
proof -
  have "futex_step (wd pi1) (at 5 (Owing (futex_hash 128)) (futex_charge 128 (fs (wd pi1))) (wd pi1))"
    by (rule futex_step.charge) (simp add: pi1_def pi0_def world0_def)
  then have "pi_step 128 pi1 pi2"
    unfolding pi2_def by (rule pi_step.other) (simp add: at_def futex_charge_def futex_frame)
  then have r2: "pi_run 128 pi2" by (rule pi_run.next_step [OF pi_run.next_step [OF pi0_run pi1_step]])
  have m: "mem (fs (wd pi2)) 128 = Some 1"
    by (simp add: pi2_def at_def futex_charge_def futex_frame pi1_def pi0_def)
  have "lock_pi_window 5 2 128 (fs (wd pi2)) = (Pi_parked, pi3_state)"
    using m by (simp add: lock_pi_window_def futex_word_load_def futex_word_cas_def futex_pi_unowned_def
        word_le_nat_alt FUTEX_PI_TID_MASK_def futex_pi_has_waiters_def FUTEX_PI_WAITERS_def pi3_state_def put_def)
  then have "pi_step 128 pi2 (pi2\<lparr>wd := (if Pi_parked = Pi_parked then at 5 (Parked_pi 128) pi3_state (wd pi2)
      else (wd pi2)\<lparr>fs := pi3_state\<rparr>), hold := acquires 2 Pi_parked (hold pi2)\<rparr>)"
    by (rule pi_step.lock_window [rotated 3]) (simp_all add: tid_ok_12 pi2_def at_def pi1_def pi0_def)
  then have "pi_step 128 pi2 pi3" by (simp add: pi3_def acquires_def)
  then show ?thesis by (rule pi_run.next_step [OF r2])
qed

lemma pi3_fields: "5 \<in> pi_queued 128 (wd pi3)" "mem (fs (wd pi3)) 128 = Some (futex_pi_set_waiters 1)"
  by (simp_all add: pi_queued_def pi3_def at_def pi3_state_def enqueue_def futex_frame pi_waiter_def)

section \<open>Properties\<close>

text \<open>
  C16. A PI lock is never taken from its holder: in every run of the protocol, a step after
  which a thread holds the lock starts with the lock free or held by that very thread,
  whether the lock was taken in guest code, by FUTEX_LOCK_PI, by FUTEX_TRYLOCK_PI or after
  the death of a robust owner. A hold ends by the holder's own release or death only, so a
  thread whose release or robust walk touched a word it does not own, and let a third thread
  in, would break this.
\<close>

theorem pi_lock_exclusive:
  assumes "pi_run a P" "pi_step a P P'" "hold P' = Some t"
  shows "hold P = None \<or> hold P = Some t"
  using assms(2,3) pi_run_inv [OF assms(1)]
proof (induction rule: pi_step.induct)
  case (lock_window u P w r s')
  obtain v where v: "mem (fs (wd P)) a = Some v" "owned_by v (hold P)"
    using lock_window.prems(2) by (rule pi_invE)
  then show ?case
    using lock_window_cases [OF lock_window.hyps(4) v(1)] lock_window.prems(1) owned_unowned [OF v(2)]
    by (auto simp: acquires_def unowned_owner)
qed (auto simp: acquires_def releases_def pi_word split: if_splits dest!: lock_fast_cases trylock_cases elim!: pi_invE dest: owned_unowned)

theorem pi_lock_exclusive_witness: "hold pi0 = None \<or> hold pi0 = Some 1"
  by (rule pi_lock_exclusive [OF pi0_run pi1_step]) (simp add: pi1_def)

text \<open>
  C6. While a PI waiter is queued on a lock, neither guest fast path applies: the word is
  not zero, so no thread takes the lock past the queue with CAS(0, tid), and it is not a
  bare thread id, so the owner cannot release it with CAS(tid, 0) and must wake a waiter
  through FUTEX_UNLOCK_PI.
\<close>

theorem pi_waiter_not_bypassed:
  assumes "pi_run a P" "w \<in> pi_queued a (wd P)" "mem (fs (wd P)) a = Some v"
  shows "v \<noteq> 0 \<and> \<not> tid_ok v"
proof -
  have "contended v"
    using pi_run_inv [OF assms(1)] assms(2,3) by (auto elim!: pi_invE)
  then show ?thesis using tid_not_contended by (auto simp: pi_word)
qed

theorem pi_waiter_not_bypassed_witness:
  "futex_pi_set_waiters 1 \<noteq> 0 \<and> \<not> tid_ok (futex_pi_set_waiters 1)"
  by (rule pi_waiter_not_bypassed [OF pi3_run pi3_fields])

text \<open>
  C38. FUTEX_UNLOCK_PI hands the lock on: if anyone sleeps on the word, the release wakes
  exactly one of them, and the word says FUTEX_WAITERS exactly when others stay queued.
\<close>

theorem unlock_pi_hands_off:
  assumes "futex_run W" "unlock_pi_release ua (fs W) = (Inr 0, s')"
    and "S = {w \<in> asleep W. w_uaddr (waiters (fs W) w) = ua}" "S \<noteq> {}"
  shows "\<exists>w \<in> S. asleep (W\<lparr>fs := s'\<rparr>) = asleep W - {w} \<and> mem s' ua = Some (if S = {w} then 0 else FUTEX_PI_WAITERS)"
proof -
  note inv = futex_run_inv [OF assms(1)]
  let ?b = "futex_hash ua" and ?m = "\<lambda>w. w_uaddr (waiters (fs W) w) = ua"
  let ?s1 = "futex_wake_first_locked ?b ua (fs W)"
  have S: "S = set (filter ?m (chains (fs W) ?b))"
    using asleep_queued [OF inv, of _ ?b] by (auto simp: assms(3))
  then obtain w ws where L: "filter ?m (chains (fs W) ?b) = w # ws"
    using assms(4) by (cases "filter ?m (chains (fs W) ?b)") auto
  have T: "wake_targets ?b ?m 1 (fs W) = [w]" by (simp add: wake_targets_def L)
  have s1: "?s1 = mark_woken w (set_chain ?b (filter (\<lambda>x. x \<noteq> w) (chains (fs W) ?b)) (fs W))"
    unfolding futex_wake_first_locked_def wake_bucket_eq [OF futex_invD(1) [OF inv]] T by simp
  have dist: "distinct (w # ws)" using futex_invD(1) [OF inv, of ?b] by (simp flip: L)
  have "bucket_has_uaddr_locked ?b ua ?s1 \<longleftrightarrow> (\<exists>x \<in> set (filter ?m (chains (fs W) ?b)). x \<noteq> w)"
    by (auto simp: bucket_has_uaddr_locked_def list_ex_iff s1 futex_frame)
  also have "\<dots> \<longleftrightarrow> S \<noteq> {w}" unfolding S L using dist by auto
  finally have m: "mem s' ua = Some (if S = {w} then 0 else FUTEX_PI_WAITERS)" and q: "waiters s' = waiters ?s1"
    using assms(2) by (auto simp: unlock_pi_release_def Let_def futex_word_update_def futex_word_load_def
        futex_word_cas_def split: option.splits if_splits)
  have "w \<in> S" unfolding S L by simp
  moreover have "asleep (W\<lparr>fs := s'\<rparr>) = asleep W - {w}"
    by (auto simp: asleep_def q s1 futex_frame split: if_splits)
  ultimately show ?thesis using m by blast
qed

theorem unlock_pi_hands_off_witness:
  "\<exists>s'. unlock_pi_release 64 sleeper_state = (Inr 0, s') \<and> mem s' 64 = Some 0"
proof -
  have S: "{w \<in> asleep sleeper_world. w_uaddr (waiters (fs sleeper_world) w) = 64} = {0}"
    by (auto simp: asleep_def sleeper_world_def sleeper_fields split: if_splits)
  let ?s = "snd (unlock_pi_release 64 sleeper_state)"
  have u: "unlock_pi_release 64 (fs sleeper_world) = (Inr 0, ?s)"
    by (simp add: sleeper_world_def unlock_pi_release_def futex_word_update_def futex_word_load_def Let_def
        wake_first_mem sleeper_fields(6)) (simp add: futex0_def futex_word_cas_def wake_first_mem sleeper_fields(6))
  from unlock_pi_hands_off [OF sleeper_run u S [symmetric]] have "mem ?s 64 = Some 0" by simp
  then show ?thesis using u [unfolded sleeper_world_def futex_world.simps] by blast
qed

end
