(* ===== verification/Spec2Isabelle.thy ===== *)
theory Spec2Isabelle
  imports Initial_Stack_Safety Casefold Fd_Calls Futex_PI
begin

text \<open>
  A verification development for elfuse, a runtime that runs Linux ELF programs on macOS. A guest
  program executes at EL0 in a virtual machine; a small EL1 shim (\<^verbatim>\<open>src/src/core/shim.S\<close>) answers a few
  system calls itself and hands the rest to the host process, which emulates Linux: it keeps the
  guest's address space (\<^verbatim>\<open>core/guest.c\<close>, \<^verbatim>\<open>syscall/mem.c\<close>), its descriptor table
  (\<^verbatim>\<open>syscall/fdtable.c\<close>), its file names (\<^verbatim>\<open>syscall/casefold.c\<close>) and its futexes
  (\<^verbatim>\<open>runtime/futex.c\<close>). All file names below are relative to \<^verbatim>\<open>src/src\<close>.

  \<^bold>\<open>Conventions.\<close> C integers are words of their width (\<open>u64\<close>, \<open>u32\<close>, \<open>u8\<close>), so additions wrap as in
  C; structs are records; a status return with an out pointer is an \<open>option\<close> or a sum with the error.
  Definitions keep the source's names and one definition models one function, or one window of a
  function under its lock where other threads may run between the windows. Code outside the
  repository (the hypervisor, the host kernel) is an argument of the definitions that call it.

  \<^bold>\<open>Shared theories.\<close> \<open>Prelude\<close> holds the word types, the alignment macros of \<^verbatim>\<open>utils.h\<close> and generic
  lemmas. \<open>Bounds\<close> models the overflow-safe helpers \<^verbatim>\<open>proved/align.h\<close>, \<^verbatim>\<open>proved/brk.h\<close>,
  \<^verbatim>\<open>proved/slice.h\<close>, \<^verbatim>\<open>proved/iov.h\<close> and \<^verbatim>\<open>proved/gva.h\<close> and shows that each equals its unbounded
  meaning whenever it accepts its arguments.

  \<^bold>\<open>Address space.\<close>
  \<^item> \<open>Regions\<close>, \<open>Region_Laws\<close>, \<open>Address_Space\<close>: the sorted region array of \<^verbatim>\<open>guest_t\<close> with find, add,
    remove, set_prot and their trims and splits. The abstraction of an array is the partial map from
    addresses to attributes. The locale \<open>address_space\<close> is the contract of that map and is
    interpreted on the code's operations; the theorems say what each operation does to every
    address, on success and on refusal, and that duplicated backing descriptors are neither lost nor
    closed twice.
  \<^item> \<open>Gap_Finder\<close>: the placement of mappings of \<^verbatim>\<open>syscall/mem.c\<close> (\<^verbatim>\<open>find_free_gap_inner\<close> and its hints,
    \<^verbatim>\<open>brk_grow_limit\<close>): first fit, soundness and completeness.
  \<^item> \<open>Tlbi\<close>: the per-vCPU accumulator of TLB invalidations, its hand-over in registers and the shim's
    loop: every requested page is invalidated.
  \<^item> \<open>Page_Tables\<close>, \<open>Page_Table_Laws\<close>, \<open>Page_Table_Ops\<close>, \<open>Page_Table_Ranges\<close>, \<open>Page_Table_Extend\<close>,
    \<open>Page_Table_Theorems\<close>: the stage-1 tables with block split, invalidate, update and extend. The
    invariant \<open>pt_wf\<close> describes the tree of tables in the pool; the theorems give the translation of
    every page of the 48-bit space after each operation. The range loops are partial functions on
    \<open>option\<close>; that they return is part of what is proved.
  \<^item> \<open>Backing\<close>: extra mappings and overflow segments beyond the primary slab.
  \<^item> \<open>Guest_Access\<close>, \<open>Guest_Access_Laws\<close>, \<open>Guest_Access_Theorems\<close>: the host's software walk with its
    cached entry and generation counter, \<^verbatim>\<open>guest_read\<close> and \<^verbatim>\<open>guest_write\<close>. They compose the page tables
    with the backing: a copy moves exactly the bytes behind the guest's addresses, and a cached
    translation stays right while tables change, in any interleaving with page table operations,
    failed ones included (\<open>access_run\<close>), unless one of them left an edit without a move of the counter.
    \<open>lags_only_after_failure\<close> says which can, \<open>failed_unmap_leaves_stale_translation\<close> shows one that does.
  \<^item> \<open>Guest_Small\<close>: the entry points built on them: the small-copy fast paths, strings
    (\<^verbatim>\<open>guest_read_str\<close>) and partial writes (\<^verbatim>\<open>guest_write_partial\<close>).
  \<^item> \<open>Initial_Stack\<close>, \<open>Initial_Stack_Theorems\<close>, \<open>Initial_Stack_Safety\<close>: the stack a new program starts
    on (\<^verbatim>\<open>core/stack.c\<close>, \<^verbatim>\<open>proved/stack.h\<close>). The locale \<open>byte_window\<close> is the contract of the writes it
    makes, the locale \<open>confined_writer\<close> that they stay in the stack; both are interpreted on
    \<^verbatim>\<open>guest_write\<close> and \<^verbatim>\<open>guest_write_small\<close>. The theorems give the System V layout of the result and the
    memory that is left alone.

  \<^bold>\<open>File names.\<close> \<open>Casefold\<close>: the codec that stores names which differ only in case on a
  case-insensitive host: round trip, canonical forms, distinctness and length.

  \<^bold>\<open>Descriptors.\<close>
  \<^item> \<open>Fd_Table\<close>, \<open>Fd_Table_Laws\<close>: slots, bitmaps, generation stamps, aliases, directory streams and the
    lifetimes that keep a host descriptor open while a thread uses it.
  \<^item> \<open>Fd_Ledger\<close>, \<open>Fd_World\<close>, \<open>Fd_World_Laws\<close>, \<open>Fd_World_Steps\<close>, \<open>Fd_Boot\<close>: the table shared by threads.
    \<open>fd_step\<close> is one window under \<^verbatim>\<open>fd_lock\<close> or one host call; the ledger counts owners and holders. The
    cleanup of a retired slot runs whole or as its separate windows. \<^verbatim>\<open>fd_retire_published\<close> runs with no
    guard beyond the code's; the ghost \<open>stray\<close> counts the calls that met a directory with a stream or one
    of the launcher's descriptors, which the code closes although the slot does not own them.
  \<^item> \<open>Fd_Theorems\<close>, \<open>Fd_Calls\<close>: in every run the table is well formed, and in every run with no such stray
    call no descriptor is closed twice, leaked or closed while borrowed (\<open>retire_closes_alias\<close> is what a
    stray call does); the allocator is the least-number allocator (locale \<open>fd_allocator\<close>); \<^verbatim>\<open>close\<close>,
    \<^verbatim>\<open>close_range\<close>, \<^verbatim>\<open>pipe2\<close>, \<^verbatim>\<open>dup\<close> and \<^verbatim>\<open>dup3\<close>. \<open>sys_dup_close_race\<close> exhibits an interleaving in which
    \<^verbatim>\<open>dup\<close> reports success and the new descriptor has lost the flags of its description.

  \<^bold>\<open>Futexes.\<close>
  \<^item> \<open>Futex_Words\<close>: the hash and word helpers of \<^verbatim>\<open>proved/futex*.h\<close> and \<^verbatim>\<open>proved/timespec.h\<close>.
  \<^item> \<open>Futex\<close>, \<open>Futex_Laws\<close>: the wait queues and every operation of \<^verbatim>\<open>runtime/futex.c\<close>, and the two fast
    paths of \<^verbatim>\<open>core/shim.S\<close>.
  \<^item> \<open>Futex_World\<close>, \<open>Futex_Theorems\<close>: interleavings of windows. The queues hold exactly the sleeping
    waiters, the published counts never hide one from the shim, and wake and requeue act on exactly
    the counts asked for.
    A window is a stretch under the bucket's lock, with the word checks it contains; a guest store to
    the word falls between windows, never inside one.
  \<^item> \<open>Futex_PI\<close>: the PI lock protocol on one word, with guest fast paths and owner death. A ghost names
    the holder; only the holder's own edit ends a hold.

  \<^bold>\<open>Bounds.\<close> The robust-list walk stops after 2048 entries and the shim spins 4096 times because the
  code does. A bucket's published count is 32 bits wide; the futex invariant holds as long as fewer
  than \<open>2 ^ 32\<close> waiters exist. Reference counts of descriptors are naturals where the code has 32-bit counters: a window raises a
  count by at most one (\<open>fd_run_counts\<close>), so runs of fewer than \<open>2 ^ 31 - 1\<close> windows stay below the
  code's limits.

  \<^bold>\<open>Not modelled.\<close> Process set-up, the ELF loader, the vDSO and Rosetta images,
  the debugger stub, logging, /proc text, fork transport, host threads, USB, signals, exec, host file
  system calls, polling, FUSE, sockets, process accounting, System V IPC and the dispatch table. They
  are host input and output around the modelled state, or independent services of their own.
\<close>

end
